(* ===== verification/Prelude.thy ===== *)
theory Prelude
  imports Main "HOL-Library.Word"
begin

text \<open>
  Shared ground of the development: the fixed-width integers the library uses, the way a failing
  C++ operation is represented, the collections of facts the component theories add to, and the
  generic facts on lists, options and words that several components need.
\<close>

unbundle bit_operations_syntax

type_synonym u8 = "8 word"
type_synonym u16 = "16 word"
type_synonym u32 = "32 word"
type_synonym u64 = "64 word"

text \<open>
  What can happen instead of a normal return: the exceptions the library throws, a contract
  violation of the language (an access outside an object, which is undefined behaviour in C++)
  and the failure of one of the library's own checks.
\<close>

datatype error =
    InvalidArgument
  | DomainError
  | OutOfRange
  | OutOfBounds
  | NullDereference

type_synonym 'a result = "error + 'a"

definition bind_result :: "'a result \<Rightarrow> ('a \<Rightarrow> 'b result) \<Rightarrow> 'b result" where
  "bind_result r f = (case r of Inl e \<Rightarrow> Inl e | Inr a \<Rightarrow> f a)"

lemma bind_result_simps [simp]:
  "bind_result (Inl e) f = Inl e"
  "bind_result (Inr a) f = f a"
  by (simp_all add: bind_result_def)

lemma bind_result_eq_Inr [simp]:
  "bind_result r f = Inr b \<longleftrightarrow> (\<exists>a. r = Inr a \<and> f a = Inr b)"
  by (cases r) auto

text \<open>Element access and element store of a \<^verbatim>\<open>std::vector\<close>, \<^verbatim>\<open>std::string\<close> or array.\<close>

definition read_at :: "'a list \<Rightarrow> nat \<Rightarrow> 'a result" where
  "read_at xs i = (if i < length xs then Inr (xs ! i) else Inl OutOfBounds)"

definition write_at :: "'a list \<Rightarrow> nat \<Rightarrow> 'a \<Rightarrow> 'a list result" where
  "write_at xs i v = (if i < length xs then Inr (xs[i := v]) else Inl OutOfBounds)"

lemma read_at_in [simp]: "i < length xs \<Longrightarrow> read_at xs i = Inr (xs ! i)"
  by (simp add: read_at_def)

lemma write_at_in [simp]: "i < length xs \<Longrightarrow> write_at xs i v = Inr (xs[i := v])"
  by (simp add: write_at_def)

text \<open>\<^verbatim>\<open>toupper\<close> of the C locale, on bytes.\<close>

definition toupper :: "u8 \<Rightarrow> u8" where
  "toupper ch = (if 0x61 \<le> ch \<and> ch \<le> 0x7A then ch - 0x20 else ch)"

lemma word_of_unat: "of_nat (unat w) = (w :: 'a::len word)"
  by simp

subsection \<open>Powers of two\<close>

text \<open>
  Alignments, ring capacities and hash table sizes are tested and used as powers of two:
  \<^verbatim>\<open>x & (x - 1)\<close> decides the property, \<^verbatim>\<open>i & (n - 1)\<close> reduces an index and
  \<^verbatim>\<open>p & -n\<close> rounds an address down.
\<close>

lemma nat_and_pred_pow2:
  fixes n :: nat
  shows "0 < n \<Longrightarrow> n AND (n - 1) = 0 \<Longrightarrow> \<exists>k. n = 2 ^ k"
proof (induction n rule: less_induct)
  case (less n)
  show ?case
  proof (cases "even n")
    case True
    then obtain m where m: "n = 2 * m" by blast
    with less.prems have m0: "0 < m" by simp
    have pred: "n - 1 = 1 + 2 * (m - 1)" using m m0 by simp
    have "n AND (n - 1) = 2 * (m AND (m - 1))"
      unfolding pred by (subst and_rec) (simp add: m)
    with less.prems have "m AND (m - 1) = 0" by simp
    with less.IH [of m] m m0 obtain k where "m = 2 ^ k" by auto
    with m have "n = 2 ^ Suc k" by simp
    then show ?thesis by blast
  next
    case False
    then obtain m where m: "n = 1 + 2 * m" by (auto elim: oddE)
    have "n AND (n - 1) = 2 * (m AND m)"
      unfolding m by (subst and_rec) simp
    with less.prems have "m = 0" by simp
    with m have "n = 2 ^ 0" by simp
    then show ?thesis by blast
  qed
qed

lemma word_and_pred_pow2:
  fixes a :: "'a::len word"
  assumes "0 < a" and "a AND (a - 1) = 0"
  shows "\<exists>k. k < LENGTH('a) \<and> a = 2 ^ k"
proof -
  have "unat (a AND (a - 1)) = unat a AND unat (a - 1)" by (simp add: unsigned_and_eq)
  moreover have "unat (a - 1) = unat a - 1" using assms(1) by (simp add: unat_minus_one word_gt_0)
  ultimately have "unat a AND (unat a - 1) = 0" using assms(2) by simp
  moreover have "0 < unat a" using assms(1) by (simp add: word_less_nat_alt)
  ultimately obtain k where k: "unat a = 2 ^ k" using nat_and_pred_pow2 by blast
  moreover have "unat a < 2 ^ LENGTH('a)" by (rule unsigned_less)
  ultimately have lt: "k < LENGTH('a)" by simp
  have "a = 2 ^ k" using arg_cong [OF k, of "of_nat :: nat \<Rightarrow> 'a word"] by simp
  then show ?thesis using lt by blast
qed

lemma unat_and_mask_pow2:
  fixes x :: "'a::len word"
  shows "k < LENGTH('a) \<Longrightarrow> unat (x AND (2 ^ k - 1)) = unat x mod 2 ^ k"
proof -
  assume "k < LENGTH('a)"
  have "x AND (2 ^ k - 1) = take_bit k x" by (simp only: take_bit_eq_mask mask_eq_exp_minus_1)
  then have "unat (x AND (2 ^ k - 1)) = take_bit k (unat x)" by (simp only: unsigned_take_bit_eq)
  then show ?thesis by (simp only: take_bit_eq_mod)
qed

lemma nat_and_mask_pow2: "(x::nat) AND (2 ^ k - 1) = x mod 2 ^ k"
  by (simp only: take_bit_eq_mask [symmetric] mask_eq_exp_minus_1 [symmetric] take_bit_eq_mod [symmetric])

lemma unat_and_neg_pow2:
  fixes x :: "'a::len word"
  shows "k < LENGTH('a) \<Longrightarrow> unat (x AND - (2 ^ k)) = unat x - unat x mod 2 ^ k"
proof -
  assume k: "k < LENGTH('a)"
  have "x AND - (2 ^ k) = x AND NOT (mask k)" by (simp add: minus_exp_eq_not_mask)
  also have "\<dots> = push_bit k (drop_bit k x)"
   by (rule bit_word_eqI) (auto simp: bit_simps)
  finally have e: "x AND - (2 ^ k) = push_bit k (drop_bit k x)" .
  have le: "(unat x div 2 ^ k) * 2 ^ k < 2 ^ LENGTH('a)"
    by (rule le_less_trans [of _ "unat x"]) (simp_all add: unsigned_less)
  have "unat (push_bit k (drop_bit k x)) = take_bit LENGTH('a) (push_bit k (drop_bit k (unat x)))"
    by (simp only: unsigned_push_bit_eq unsigned_drop_bit_eq) (simp add: take_bit_nat_eq_self_iff [THEN iffD2])
  also have "\<dots> = (unat x div 2 ^ k) * 2 ^ k"
    using le by (simp only: push_bit_eq_mult drop_bit_eq_div take_bit_eq_mod mod_less)
  finally show ?thesis using e by (simp only: minus_mod_eq_div_mult)
qed

lemma unat_pow2: "k < LENGTH('a) \<Longrightarrow> unat (2 ^ k :: 'a::len word) = 2 ^ k"
proof -
  assume "k < LENGTH('a)"
  then have "unat (of_nat (2 ^ k) :: 'a word) = 2 ^ k"
    by (simp only: unat_of_nat) (simp add: take_bit_nat_eq_self_iff)
  then show ?thesis by simp
qed

text \<open>
  Pointers to the nodes of the intrusive containers: the address of a node, or \<^const>\<open>None\<close> for
  \<^verbatim>\<open>nullptr\<close>. \<open>hd_ptr\<close> is the pointer to the first node of a sequence that ends in \<open>q\<close>.
\<close>

type_synonym ptr = "nat option"

fun hd_ptr :: "nat list \<Rightarrow> ptr \<Rightarrow> ptr" where
  "hd_ptr [] q = q"
| "hd_ptr (x # xs) q = Some x"

lemma hd_ptr_append [simp]: "hd_ptr (xs @ ys) q = hd_ptr xs (hd_ptr ys q)"
  by (cases xs) simp_all

lemma hd_ptr_eq: "hd_ptr xs None = None \<longleftrightarrow> xs = []" "hd_ptr xs None = Some a \<longleftrightarrow> (\<exists>ys. xs = a # ys)"
  by (cases xs; simp)+

lemma hd_ptr_Some [simp]: "hd_ptr xs (Some a) \<noteq> None" "\<exists>b. hd_ptr xs (Some a) = Some b"
  by (cases xs; simp)+

lemma hd_ptr_mem: "hd_ptr xs (Some a) = Some b \<Longrightarrow> b = a \<or> b \<in> set xs"
  by (cases xs) auto

end
