(* ===== verification/Memory.thy ===== *)
theory Memory
  imports Prelude
begin

text \<open>
  The address arithmetic of \<^verbatim>\<open>include/memory/memory.inl\<close>. An address is a 64-bit word.
  \<^verbatim>\<open>Align\<close> negates its alignment as an \<^verbatim>\<open>int\<close>, so the alignment passes through 32 bits; the
  model keeps that truncation and the sign extension that follows it.
\<close>

definition IsValidAlignment :: "u64 \<Rightarrow> bool" where
  "IsValidAlignment alignment \<longleftrightarrow> alignment > 0 \<and> alignment AND (alignment - 1) = 0"

definition IsAligned :: "u64 \<Rightarrow> u64 \<Rightarrow> bool" where
  "IsAligned address alignment \<longleftrightarrow> address AND (alignment - 1) = 0"

definition neg_int :: "u64 \<Rightarrow> u64" where
  "neg_int alignment = scast (- (ucast alignment :: u32))"

definition Align :: "u64 \<Rightarrow> u64 \<Rightarrow> bool \<Rightarrow> u64" where
  "Align address alignment upwards =
     (if upwards then (address + (alignment - 1)) AND neg_int alignment
      else address AND neg_int alignment)"

lemma IsValidAlignment_pow2:
  "IsValidAlignment a \<Longrightarrow> \<exists>k < 64. a = 2 ^ k"
  using word_and_pred_pow2 [of a] by (auto simp: IsValidAlignment_def)

lemma pow2_IsValidAlignment: "k < 64 \<Longrightarrow> IsValidAlignment (2 ^ k)"
proof -
  assume k: "k < 64"
  then have "unat ((2 ^ k :: u64) AND (2 ^ k - 1)) = 0"
    by (simp add: unat_and_mask_pow2 unat_pow2)
  with k show ?thesis
    by (simp add: IsValidAlignment_def word_less_nat_alt unat_pow2 unat_eq_0)
qed

lemma neg_int_pow2: "k < 31 \<Longrightarrow> neg_int (2 ^ k) = - (2 ^ k)"
proof -
  assume k: "k < 31"
  have "(ucast (2 ^ k :: u64) :: u32) = 2 ^ k"
    by (rule bit_word_eqI) (auto simp: bit_simps)
  moreover have "(scast (- (2 ^ k) :: u32) :: u64) = - (2 ^ k)"
    unfolding minus_exp_eq_not_mask using k by (intro bit_word_eqI) (auto simp: bit_simps)
  ultimately show ?thesis by (simp add: neg_int_def)
qed

lemma neg_int_pow2_large: "32 \<le> k \<Longrightarrow> k < 64 \<Longrightarrow> neg_int (2 ^ k) = 0"
proof -
  assume k: "32 \<le> k" "k < 64"
  then have "(ucast (2 ^ k :: u64) :: u32) = 0"
    by (intro bit_word_eqI) (auto simp: bit_simps)
  then show ?thesis by (simp add: neg_int_def)
qed

lemma IsAligned_iff: "k < 64 \<Longrightarrow> IsAligned p (2 ^ k) \<longleftrightarrow> 2 ^ k dvd unat p"
proof -
  assume k: "k < 64"
  have "IsAligned p (2 ^ k) \<longleftrightarrow> unat (p AND (2 ^ k - 1)) = 0"
    by (simp add: IsAligned_def unat_eq_0)
  with k show ?thesis by (simp add: unat_and_mask_pow2 dvd_eq_mod_eq_0)
qed

lemma unat_Align_up:
  assumes k: "k < 31" and no_wrap: "unat p + 2 ^ k \<le> 2 ^ 64"
  shows "unat (Align p (2 ^ k) True) = (unat p + 2 ^ k - 1) div 2 ^ k * 2 ^ k"
proof -
  have m: "unat (2 ^ k - 1 :: u64) = 2 ^ k - 1"
    using k by (simp add: unat_minus_one unat_pow2)
  have "unat (p + (2 ^ k - 1)) = unat p + (2 ^ k - 1)"
    unfolding unat_word_ariths m using no_wrap by simp
  then show ?thesis using k
    by (simp add: Align_def neg_int_pow2 unat_and_neg_pow2 minus_mod_eq_div_mult)
qed

lemma unat_Align_down:
  assumes k: "k < 31"
  shows "unat (Align p (2 ^ k) False) = unat p div 2 ^ k * 2 ^ k"
  using k by (simp add: Align_def neg_int_pow2 unat_and_neg_pow2 minus_mod_eq_div_mult)

lemma round_up_bounds:
  fixes n d :: nat
  assumes d: "0 < d"
  shows "n \<le> (n + d - 1) div d * d" and "(n + d - 1) div d * d < n + d"
    and "d dvd m \<Longrightarrow> n \<le> m \<Longrightarrow> (n + d - 1) div d * d \<le> m"
proof -
  let ?q = "(n + d - 1) div d"
  have e: "n + d - 1 = ?q * d + (n + d - 1) mod d" by simp
  have r: "(n + d - 1) mod d < d" using d by simp
  show "n \<le> ?q * d" and "?q * d < n + d" using e r d by linarith+
  assume "d dvd m" and n: "n \<le> m"
  then obtain j where j: "m = j * d" by (metis dvd_def mult.commute)
  have "?q \<le> (m + d - 1) div d" using n by (simp add: div_le_mono)
  also have "(m + d - 1) div d = j"
    unfolding j by (rule div_nat_eqI) (use d in \<open>simp_all add: mult.commute\<close>)
  finally show "?q * d \<le> m" using j by simp
qed

text \<open>
  The blocks a manager hands out are intervals of addresses, written on natural numbers so that
  they never wrap around.
\<close>

definition block :: "u64 \<Rightarrow> u64 \<Rightarrow> nat set" where
  "block p n = {unat p ..< unat p + unat n}"

lemma Align_up_spec:
  assumes "IsValidAlignment a" and "a < 2 ^ 31" and "unat p + unat a \<le> 2 ^ 64"
  shows "IsAligned (Align p a True) a" and "unat p \<le> unat (Align p a True)"
    and "unat (Align p a True) < unat p + unat a"
    and "IsAligned q a \<Longrightarrow> p \<le> q \<Longrightarrow> Align p a True \<le> q"
proof -
  obtain k where k: "k < 64" and a: "a = 2 ^ k" using IsValidAlignment_pow2 assms(1) by blast
  have ua: "unat a = 2 ^ k" using a k by (simp add: unat_pow2)
  have "(2 :: nat) ^ k < 2 ^ 31" using assms(2) ua by (simp add: word_less_nat_alt)
  then have k31: "k < 31" by (rule power_less_imp_less_exp [rotated]) simp
  have u: "unat (Align p a True) = (unat p + 2 ^ k - 1) div 2 ^ k * 2 ^ k"
    using unat_Align_up [OF k31] assms(3) a ua by simp
  show "IsAligned (Align p a True) a" using u a k by (simp add: IsAligned_iff)
  show "unat p \<le> unat (Align p a True)" and "unat (Align p a True) < unat p + unat a"
    using round_up_bounds(1,2) [of "2 ^ k" "unat p"] u ua by simp_all
  assume "IsAligned q a" and "p \<le> q"
  then show "Align p a True \<le> q"
    using round_up_bounds(3) [of "2 ^ k" "unat q" "unat p"] u a k
    by (simp add: IsAligned_iff word_le_nat_alt)
qed

subsection \<open>Properties\<close>



text \<open>
  \<^verbatim>\<open>Memory::Align\<close> converts the alignment to \<^verbatim>\<open>int\<close>: for the alignments \<open>2 ^ 32\<close> and above,
  which \<^verbatim>\<open>IsValidAlignment\<close> accepts, the mask is zero and every address is aligned to the null
  pointer, in both directions.
\<close>

theorem Align_large_alignment_null:
  assumes "32 \<le> k" and "k < 64"
  shows "IsValidAlignment (2 ^ k) \<and> Align p (2 ^ k) upwards = 0"
  using assms by (simp add: pow2_IsValidAlignment Align_def neg_int_pow2_large)

theorem Align_large_alignment_null_witness:
  "IsValidAlignment (2 ^ 32) \<and> Align 4096 (2 ^ 32) True = 0"
  using Align_large_alignment_null [of 32 4096 True] by simp

end
