(* ===== verification/Allocators.thy ===== *)
theory Allocators
  imports Memory
begin

text \<open>
  The memory managers of \<^verbatim>\<open>include/memory/\<close>: the default and the null manager, the stack manager
  and the arena manager. Sizes and addresses are 64-bit words and all arithmetic wraps as
  \<^verbatim>\<open>size_t\<close> does. A null pointer is \<^const>\<open>None\<close>. The system functions \<^verbatim>\<open>std::malloc\<close> and
  \<^verbatim>\<open>std::free\<close> and the auxiliary manager of an arena are arguments of the definitions.
\<close>

type_synonym 's allocate = "'s \<Rightarrow> u64 \<Rightarrow> u64 \<Rightarrow> (u64 option \<times> 's) option"
type_synonym 's release = "'s \<Rightarrow> u64 \<Rightarrow> u64 \<Rightarrow> 's"

subsection \<open>The default and the null manager\<close>

record 'h default_manager =
  dm_allocated :: u64
  dm_allocations :: u64
  dm_heap :: 'h

definition DefaultMemoryManager_malloc ::
    "('h \<Rightarrow> u64 \<Rightarrow> u64 option \<times> 'h) \<Rightarrow> 'h default_manager allocate" where
  "DefaultMemoryManager_malloc std_malloc m n alignment =
     (case std_malloc (dm_heap m) n of
        (None, h) \<Rightarrow> Some (None, m\<lparr>dm_heap := h\<rparr>)
      | (Some p, h) \<Rightarrow>
          Some (Some p, m\<lparr>dm_heap := h, dm_allocated := dm_allocated m + n,
                         dm_allocations := dm_allocations m + 1\<rparr>))"

definition DefaultMemoryManager_free ::
    "('h \<Rightarrow> u64 \<Rightarrow> 'h) \<Rightarrow> 'h default_manager release" where
  "DefaultMemoryManager_free std_free m p n =
     (if p \<noteq> 0 then
        m\<lparr>dm_heap := std_free (dm_heap m) p, dm_allocated := dm_allocated m - n,
          dm_allocations := dm_allocations m - 1\<rparr>
      else m)"

record null_manager =
  nm_allocated :: u64
  nm_allocations :: u64

definition NullMemoryManager_malloc :: "null_manager allocate" where
  "NullMemoryManager_malloc m n alignment = Some (None, m)"

definition NullMemoryManager_free :: "null_manager release" where
  "NullMemoryManager_free m p n =
     (if p \<noteq> 0 then
        m\<lparr>nm_allocated := nm_allocated m - n, nm_allocations := nm_allocations m - 1\<rparr>
      else m)"

subsection \<open>The stack manager\<close>

record stack_manager =
  sm_allocated :: u64
  sm_allocations :: u64
  sm_buffer :: u64
  sm_capacity :: u64
  sm_size :: u64

definition StackMemoryManager_init :: "u64 \<Rightarrow> u64 \<Rightarrow> stack_manager" where
  "StackMemoryManager_init buffer n =
     \<lparr>sm_allocated = 0, sm_allocations = 0, sm_buffer = buffer, sm_capacity = n, sm_size = 0\<rparr>"

definition StackMemoryManager_malloc :: "stack_manager allocate" where
  "StackMemoryManager_malloc m n alignment =
     (let buffer = sm_buffer m + sm_size m;
          aligned = Align buffer alignment True
      in if n + (aligned - buffer) \<le> sm_capacity m - sm_size m
         then Some (Some aligned, m\<lparr>sm_size := sm_size m + n,
                sm_allocated := sm_allocated m + n, sm_allocations := sm_allocations m + 1\<rparr>)
         else Some (None, m))"

definition StackMemoryManager_free :: "stack_manager release" where
  "StackMemoryManager_free m p n =
     (if p \<noteq> 0 then
        m\<lparr>sm_allocated := sm_allocated m - n, sm_allocations := sm_allocations m - 1\<rparr>
      else m)"

definition StackMemoryManager_reset :: "stack_manager \<Rightarrow> stack_manager" where
  "StackMemoryManager_reset m = m\<lparr>sm_size := 0\<rparr>"

subsection \<open>The arena manager\<close>

text \<open>
  A page is a header of 32 bytes (four words of an LP64 target) followed by its buffer; the
  chain of \<^verbatim>\<open>prev\<close> pointers is the list \<open>am_current\<close>, the current page first.
\<close>

definition sizeof_Page :: u64 where "sizeof_Page = 32"
definition max_align :: u64 where "max_align = 16"

record page =
  pg_address :: u64
  pg_buffer :: u64
  pg_capacity :: u64
  pg_size :: u64

record 'x arena =
  am_allocated :: u64
  am_allocations :: u64
  am_auxiliary :: 'x
  am_current :: "page list"
  am_reserved :: u64
  am_external :: bool
  am_buffer :: u64
  am_capacity :: u64
  am_size :: u64

definition am_count :: "u64 \<Rightarrow> 'x arena \<Rightarrow> 'x arena" where
  "am_count n a = a\<lparr>am_allocated := am_allocated a + n, am_allocations := am_allocations a + 1\<rparr>"

definition AllocateArena ::
    "'x allocate \<Rightarrow> 'x \<Rightarrow> u64 \<Rightarrow> (page option \<times> 'x) option" where
  "AllocateArena aux_malloc x capacity =
     (case aux_malloc x (sizeof_Page + capacity + max_align) max_align of
        None \<Rightarrow> None
      | Some (None, x') \<Rightarrow> Some (None, x')
      | Some (Some p, x') \<Rightarrow>
          Some (Some \<lparr>pg_address = p, pg_buffer = p + sizeof_Page, pg_capacity = capacity,
                      pg_size = 0\<rparr>, x'))"

text \<open>
  The loop that doubles the reserved size. Sixty-four doublings of a word give zero, which is
  a fixed point, so a loop still running after that many steps never ends: \<^const>\<open>None\<close>.
\<close>

fun grow_reserved :: "nat \<Rightarrow> u64 \<Rightarrow> u64 \<Rightarrow> u64 option" where
  "grow_reserved fuel next_reserved n =
     (if next_reserved < n then
        (case fuel of 0 \<Rightarrow> None | Suc f \<Rightarrow> grow_reserved f (next_reserved * 2) n)
      else Some next_reserved)"

declare grow_reserved.simps [simp del]

definition page_take :: "page \<Rightarrow> u64 \<Rightarrow> u64 \<Rightarrow> u64 \<times> u64" where
  "page_take pg n alignment =
     (let buffer = pg_buffer pg + pg_size pg; aligned = Align buffer alignment True
      in (aligned, n + (aligned - buffer)))"

definition arena_new_page :: "'x allocate \<Rightarrow> 'x arena allocate" where
  "arena_new_page aux_malloc a n alignment =
     (case grow_reserved 64 (2 * am_reserved a) n of
        None \<Rightarrow> None
      | Some next_reserved \<Rightarrow>
          (case AllocateArena aux_malloc (am_auxiliary a) next_reserved of
             None \<Rightarrow> None
           | Some (None, x) \<Rightarrow> Some (None, a\<lparr>am_auxiliary := x\<rparr>)
           | Some (Some pg, x) \<Rightarrow>
               (let (aligned, aligned_size) = page_take pg n alignment
                in Some (Some aligned, am_count n
                     (a\<lparr>am_auxiliary := x, am_reserved := next_reserved,
                        am_current := pg\<lparr>pg_size := pg_size pg + aligned_size\<rparr> # am_current a\<rparr>)))))"

definition ArenaMemoryManager_malloc :: "'x allocate \<Rightarrow> 'x arena allocate" where
  "ArenaMemoryManager_malloc aux_malloc a n alignment =
     (if am_external a then
        (let buffer = am_buffer a + am_size a;
             aligned = Align buffer alignment True;
             aligned_size = n + (aligned - buffer)
         in if aligned_size \<le> am_capacity a - am_size a
            then Some (Some aligned, am_count n (a\<lparr>am_size := am_size a + aligned_size\<rparr>))
            else (case aux_malloc (am_auxiliary a) n alignment of
                    None \<Rightarrow> None
                  | Some (None, x) \<Rightarrow> Some (None, a\<lparr>am_auxiliary := x\<rparr>)
                  | Some (Some p, x) \<Rightarrow>
                      Some (Some p, (am_count n (a\<lparr>am_auxiliary := x\<rparr>))
                        \<lparr>am_reserved := am_reserved a + n\<rparr>)))
      else
        (case am_current a of
           pg # rest \<Rightarrow>
             (let (aligned, aligned_size) = page_take pg n alignment
              in if aligned_size \<le> pg_capacity pg - pg_size pg
                 then Some (Some aligned, am_count n
                        (a\<lparr>am_current := pg\<lparr>pg_size := pg_size pg + aligned_size\<rparr> # rest\<rparr>))
                 else arena_new_page aux_malloc a n alignment)
         | [] \<Rightarrow> arena_new_page aux_malloc a n alignment))"


definition ArenaMemoryManager_free :: "'x release \<Rightarrow> 'x arena release" where
  "ArenaMemoryManager_free aux_free a p n =
     (let a1 = (if am_external a
                then (if p < am_buffer a \<or> p \<ge> am_buffer a + am_size a
                      then a\<lparr>am_auxiliary := aux_free (am_auxiliary a) p n\<rparr> else a)
                else (if am_current a = []
                      then a\<lparr>am_auxiliary := aux_free (am_auxiliary a) p n\<rparr> else a))
      in a1\<lparr>am_allocated := am_allocated a1 - n, am_allocations := am_allocations a1 - 1\<rparr>)"

fun free_pages :: "'x release \<Rightarrow> 'x \<Rightarrow> page list \<Rightarrow> 'x" where
  "free_pages aux_free x [] = x"
| "free_pages aux_free x (pg # pgs) =
     free_pages aux_free
       (aux_free x (pg_address pg) (sizeof_Page + pg_capacity pg + max_align)) pgs"

definition ClearArena :: "'x release \<Rightarrow> 'x arena \<Rightarrow> 'x arena" where
  "ClearArena aux_free a =
     (if am_external a then a
      else a\<lparr>am_auxiliary := free_pages aux_free (am_auxiliary a) (am_current a),
             am_current := []\<rparr>)"

definition ArenaMemoryManager_clear :: "'x release \<Rightarrow> 'x arena \<Rightarrow> 'x arena" where
  "ArenaMemoryManager_clear aux_free a =
     (ClearArena aux_free a)\<lparr>am_external := False, am_buffer := 0, am_capacity := 0, am_size := 0\<rparr>"

definition ArenaMemoryManager_reset_capacity ::
    "'x allocate \<Rightarrow> 'x release \<Rightarrow> 'x arena \<Rightarrow> u64 \<Rightarrow> 'x arena option" where
  "ArenaMemoryManager_reset_capacity aux_malloc aux_free a capacity =
     (let a1 = ArenaMemoryManager_clear aux_free a
      in case AllocateArena aux_malloc (am_auxiliary a1) capacity of
           None \<Rightarrow> None
         | Some (None, x) \<Rightarrow> Some (a1\<lparr>am_auxiliary := x, am_reserved := capacity\<rparr>)
         | Some (Some pg, x) \<Rightarrow>
             Some (a1\<lparr>am_auxiliary := x, am_current := pg # am_current a1,
                      am_reserved := capacity\<rparr>))"

definition ArenaMemoryManager_reset_buffer ::
    "'x release \<Rightarrow> 'x arena \<Rightarrow> u64 \<Rightarrow> u64 \<Rightarrow> 'x arena" where
  "ArenaMemoryManager_reset_buffer aux_free a buffer capacity =
     (ArenaMemoryManager_clear aux_free a)
       \<lparr>am_external := True, am_buffer := buffer, am_capacity := capacity, am_size := 0,
        am_reserved := capacity\<rparr>"

definition ArenaMemoryManager_reset ::
    "'x allocate \<Rightarrow> 'x release \<Rightarrow> 'x arena \<Rightarrow> 'x arena option" where
  "ArenaMemoryManager_reset aux_malloc aux_free a =
     map_option (\<lambda>b. b\<lparr>am_size := 0\<rparr>)
       (if am_external a then Some a
        else ArenaMemoryManager_reset_capacity aux_malloc aux_free a (am_reserved a))"

definition ArenaMemoryManager_init ::
    "'x allocate \<Rightarrow> 'x release \<Rightarrow> 'x \<Rightarrow> u64 \<Rightarrow> 'x arena option" where
  "ArenaMemoryManager_init aux_malloc aux_free x capacity =
     ArenaMemoryManager_reset_capacity aux_malloc aux_free
       \<lparr>am_allocated = 0, am_allocations = 0, am_auxiliary = x, am_current = [], am_reserved = 0,
        am_external = False, am_buffer = 0, am_capacity = 0, am_size = 0\<rparr> capacity"

definition ArenaMemoryManager_init_buffer ::
    "'x release \<Rightarrow> 'x \<Rightarrow> u64 \<Rightarrow> u64 \<Rightarrow> 'x arena" where
  "ArenaMemoryManager_init_buffer aux_free x buffer capacity =
     ArenaMemoryManager_reset_buffer aux_free
       \<lparr>am_allocated = 0, am_allocations = 0, am_auxiliary = x, am_current = [], am_reserved = 0,
        am_external = True, am_buffer = 0, am_capacity = 0, am_size = 0\<rparr> buffer capacity"

subsection \<open>Sequences of requests\<close>

text \<open>A request is a size and an alignment; the result lists the blocks handed out.\<close>

fun malloc_all ::
    "'s allocate \<Rightarrow> 's \<Rightarrow> (u64 \<times> u64) list \<Rightarrow> ((u64 \<times> u64 \<times> u64) list \<times> 's) option" where
  "malloc_all malloc s [] = Some ([], s)"
| "malloc_all malloc s ((n, alignment) # rs) =
     (case malloc s n alignment of
        None \<Rightarrow> None
      | Some (None, s') \<Rightarrow> malloc_all malloc s' rs
      | Some (Some p, s') \<Rightarrow>
          map_option (\<lambda>(bs, t). ((p, n, alignment) # bs, t)) (malloc_all malloc s' rs))"

definition disjoint_blocks :: "(u64 \<times> u64 \<times> u64) list \<Rightarrow> bool" where
  "disjoint_blocks bs =
     sorted_wrt (\<lambda>(p, n, _) (q, m, _). block p n \<inter> block q m = {}) bs"

text \<open>
  The contract of a memory manager. \<open>mm_live\<close> is the set of addresses in use; an admissible
  request that succeeds yields an aligned block of unused addresses, which are in use from then on.
\<close>

locale memory_manager =
  fixes mm_malloc :: "'s allocate"
    and mm_pre :: "u64 \<Rightarrow> u64 \<Rightarrow> bool"
    and mm_inv :: "'s \<Rightarrow> bool"
    and mm_live :: "'s \<Rightarrow> nat set"
  assumes mm_inv_step:
      "mm_inv s \<Longrightarrow> mm_pre n al \<Longrightarrow> mm_malloc s n al = Some (r, s') \<Longrightarrow> mm_inv s'"
    and mm_live_step:
      "mm_inv s \<Longrightarrow> mm_pre n al \<Longrightarrow> mm_malloc s n al = Some (r, s') \<Longrightarrow> mm_live s \<subseteq> mm_live s'"
    and mm_fresh:
      "mm_inv s \<Longrightarrow> mm_pre n al \<Longrightarrow> mm_malloc s n al = Some (Some p, s') \<Longrightarrow>
       block p n \<inter> mm_live s = {} \<and> block p n \<subseteq> mm_live s'"
    and mm_place:
      "mm_inv s \<Longrightarrow> mm_pre n al \<Longrightarrow> mm_malloc s n al = Some (Some p, s') \<Longrightarrow>
       IsAligned p al \<and> unat p + unat n \<le> 2 ^ 63"
    and mm_returns: "mm_inv s \<Longrightarrow> mm_pre n al \<Longrightarrow> mm_malloc s n al \<noteq> None"
begin

lemma malloc_all_returns:
  "mm_inv s \<Longrightarrow> \<forall>(n, al) \<in> set rs. mm_pre n al \<Longrightarrow> \<exists>bs t. malloc_all mm_malloc s rs = Some (bs, t)"
proof (induction rs arbitrary: s)
  case (Cons r rs)
  obtain n al where r: "r = (n, al)" by (cases r)
  with Cons.prems have pre: "mm_pre n al" and pres: "\<forall>(n, al) \<in> set rs. mm_pre n al" by auto
  obtain q s' where m: "mm_malloc s n al = Some (q, s')" using mm_returns [OF Cons.prems(1) pre] by auto
  obtain bs t where "malloc_all mm_malloc s' rs = Some (bs, t)"
    using Cons.IH [OF mm_inv_step [OF Cons.prems(1) pre m] pres] by blast
  then show ?case using m by (cases q) (auto simp: r)
qed simp

lemma malloc_all_step:
  assumes "mm_inv s" and "\<forall>(n, al) \<in> set rs. mm_pre n al"
    and "malloc_all mm_malloc s rs = Some (bs, t)"
  shows "mm_inv t \<and> mm_live s \<subseteq> mm_live t \<and>
    (\<forall>(p, n, al) \<in> set bs. block p n \<inter> mm_live s = {} \<and> block p n \<subseteq> mm_live t \<and> IsAligned p al) \<and>
    disjoint_blocks bs"
  using assms
proof (induction rs arbitrary: s bs)
  case Nil
  then show ?case by (simp add: disjoint_blocks_def)
next
  case (Cons r rs)
  obtain n al where r: "r = (n, al)" by (cases r)
  with Cons.prems have pre: "mm_pre n al" and pres: "\<forall>(n, al) \<in> set rs. mm_pre n al" by auto
  from Cons.prems(3) r obtain q s' where m: "mm_malloc s n al = Some (q, s')"
    by (auto split: option.splits)
  note inv' = mm_inv_step [OF Cons.prems(1) pre m] and live' = mm_live_step [OF Cons.prems(1) pre m]
  show ?case
  proof (cases q)
    case None
    with Cons.prems(3) r m have "malloc_all mm_malloc s' rs = Some (bs, t)" by simp
    from Cons.IH [OF inv' pres this] live' show ?thesis by fast
  next
    case (Some p)
    with Cons.prems(3) r m obtain cs where cs: "malloc_all mm_malloc s' rs = Some (cs, t)"
      and bs: "bs = (p, n, al) # cs" by auto
    note IH = Cons.IH [OF inv' pres cs]
    have f: "block p n \<inter> mm_live s = {}" "block p n \<subseteq> mm_live s'" "IsAligned p al"
      using mm_fresh mm_place Cons.prems(1) pre m Some by blast+
    have "\<forall>(p', n', al') \<in> set cs. block p n \<inter> block p' n' = {}"
      using IH f(2) by fast
    then have "disjoint_blocks bs" using IH by (auto simp: bs disjoint_blocks_def)
    then show ?thesis using IH f live' by (auto simp: bs) fast
  qed
qed

end

subsection \<open>Managers that satisfy the contract\<close>

text \<open>
  The default manager relies on what the C library documents of \<^verbatim>\<open>malloc\<close>: a block of unused
  addresses, aligned for any fundamental type. It passes no alignment on, so its contract covers
  alignments up to that of \<^verbatim>\<open>std::max_align_t\<close>.
\<close>

locale system_heap =
  fixes std_malloc :: "'h \<Rightarrow> u64 \<Rightarrow> u64 option \<times> 'h"
    and heap_inv :: "'h \<Rightarrow> bool"
    and heap_live :: "'h \<Rightarrow> nat set"
  assumes heap_step: "heap_inv h \<Longrightarrow> std_malloc h n = (r, h') \<Longrightarrow>
      heap_inv h' \<and> heap_live h \<subseteq> heap_live h'"
    and heap_block: "heap_inv h \<Longrightarrow> std_malloc h n = (Some p, h') \<Longrightarrow>
      block p n \<inter> heap_live h = {} \<and> block p n \<subseteq> heap_live h' \<and>
      IsAligned p max_align \<and> unat p + unat n \<le> 2 ^ 63"

definition fundamental_alignment :: "u64 \<Rightarrow> u64 \<Rightarrow> bool" where
  "fundamental_alignment n al \<longleftrightarrow> IsValidAlignment al \<and> al \<le> max_align"

lemma fundamental_alignmentD:
  "fundamental_alignment n al \<Longrightarrow> IsValidAlignment al" "fundamental_alignment n al \<Longrightarrow> al < 2 ^ 31"
  by (auto simp: fundamental_alignment_def max_align_def word_less_nat_alt word_le_nat_alt)

lemma IsAligned_weaken:
  assumes "IsAligned p max_align" and "fundamental_alignment n al"
  shows "IsAligned p al"
proof -
  obtain k where k: "k < 64" "al = 2 ^ k"
    using assms(2) IsValidAlignment_pow2 by (auto simp: fundamental_alignment_def)
  have "unat al \<le> 16"
    using assms(2) by (simp add: fundamental_alignment_def max_align_def word_le_nat_alt)
  then have "(2 :: nat) ^ k \<le> 2 ^ 4" using k by (simp add: unat_pow2)
  then have "(2 :: nat) ^ k dvd 2 ^ 4" by (meson le_imp_power_dvd one_less_numeral_iff
        power_le_imp_le_exp semiring_norm(76))
  moreover have "(2 :: nat) ^ 4 dvd unat p"
    using assms(1) IsAligned_iff [of 4 p] by (simp add: max_align_def)
  ultimately show ?thesis using k IsAligned_iff [of k p] dvd_trans by blast
qed

sublocale system_heap \<subseteq> default_mm: memory_manager
  "DefaultMemoryManager_malloc std_malloc" fundamental_alignment
  "\<lambda>m. heap_inv (dm_heap m)" "\<lambda>m. heap_live (dm_heap m)"
proof (unfold_locales, goal_cases)
  case (1 s n al r s')
  then show ?case using heap_step
    by (fastforce simp: DefaultMemoryManager_malloc_def split: prod.splits option.splits)
next
  case (2 s n al r s')
  then show ?case using heap_step
    by (fastforce simp: DefaultMemoryManager_malloc_def split: prod.splits option.splits)
next
  case (3 s n al p s')
  then show ?case using heap_block
    by (fastforce simp: DefaultMemoryManager_malloc_def split: prod.splits option.splits)
next
  case (4 s n al p s')
  then show ?case using heap_block IsAligned_weaken
    by (fastforce simp: DefaultMemoryManager_malloc_def split: prod.splits option.splits)
next
  case (5 s n al)
  then show ?case by (simp add: DefaultMemoryManager_malloc_def split: prod.splits option.splits)
qed

interpretation null_mm: memory_manager
  NullMemoryManager_malloc "\<lambda>_ _. True" "\<lambda>_. True" "\<lambda>_. {}"
  by unfold_locales (simp_all add: NullMemoryManager_malloc_def)

text \<open>
  The arithmetic both modes of the arena share: cutting an aligned block off a region of which
  \<open>used\<close> bytes are taken.
\<close>

lemma bump_block:
  assumes al: "IsValidAlignment al" "al < 2 ^ 31" and n: "unat n \<le> 2 ^ 62"
    and used: "used \<le> cap" and room: "unat buf + unat cap \<le> 2 ^ 63"
    and A: "A = Align (buf + used) al True" and S: "S = n + (A - (buf + used))"
    and fits: "S \<le> cap - used"
  shows "unat (used + S) = unat used + unat S" and "used + S \<le> cap"
    and "unat buf + unat used \<le> unat A" and "unat A + unat n = unat buf + unat (used + S)"
    and "IsAligned A al"
proof -
  have al': "unat al < 2 ^ 31" using al(2) by (simp add: word_less_nat_alt)
  have uc: "unat used \<le> unat cap" using used by (simp add: word_le_nat_alt)
  have B: "unat (buf + used) = unat buf + unat used"
    using uc room by (simp add: unat_word_ariths)
  have w: "unat (buf + used) + unat al \<le> 2 ^ 64" using B uc room al' by simp
  note up = Align_up_spec [OF al w, folded A]
  have le: "buf + used \<le> A" using up(2) by (simp add: word_le_nat_alt)
  have diff: "unat (A - (buf + used)) = unat A - (unat buf + unat used)"
    using unat_sub [OF le] B by simp
  have uS: "unat S = unat n + (unat A - (unat buf + unat used))"
    unfolding S unat_word_ariths(1) diff using up(3) n al' B by simp
  have uf: "unat S \<le> unat cap - unat used"
    using fits unat_sub [OF used] by (simp add: word_le_nat_alt)
  have lt: "unat cap < 2 ^ 64" using unsigned_less [of cap, where ?'a = nat] by simp
  show us: "unat (used + S) = unat used + unat S"
    unfolding unat_word_ariths using uf uc lt by simp
  show "used + S \<le> cap" using us uf uc by (simp add: word_le_nat_alt)
  show "unat buf + unat used \<le> unat A" using up(2) B by simp
  then show "unat A + unat n = unat buf + unat (used + S)" using us uS by simp
  show "IsAligned A al" by (rule up(1))
qed

lemma grow_reserved_bounds:
  "grow_reserved fuel m n = Some r \<Longrightarrow> n \<le> r \<and> (r = m \<or> n \<noteq> 0 \<and> unat r \<le> 2 * unat n)"
proof (induction fuel arbitrary: m)
  case 0
  then show ?case by (auto simp: grow_reserved.simps [of 0] not_less split: if_splits)
next
  case (Suc fuel)
  show ?case
  proof (cases "m < n")
    case True
    then have "grow_reserved fuel (m * 2) n = Some r"
      using Suc.prems by (simp add: grow_reserved.simps [of "Suc fuel"])
    from Suc.IH [OF this] have "n \<le> r" and r: "r = m * 2 \<or> unat r \<le> 2 * unat n" by auto
    have "n \<noteq> 0" using True by auto
    have "unat (m * 2) \<le> 2 * unat m" by (simp add: unat_word_ariths mult.commute)
    also have "\<dots> \<le> 2 * unat n" using True by (simp add: word_less_nat_alt)
    finally show ?thesis using \<open>n \<le> r\<close> \<open>n \<noteq> 0\<close> r by auto
  next
    case False
    then show ?thesis using Suc.prems by (simp add: grow_reserved.simps [of "Suc fuel"])
  qed
qed

lemma grow_reserved_returns:
  "unat n \<le> 2 ^ 62 \<Longrightarrow> unat n \<le> unat m * 2 ^ fuel \<Longrightarrow> grow_reserved fuel m n \<noteq> None"
proof (induction fuel arbitrary: m)
  case 0
  then show ?case by (simp add: grow_reserved.simps [of 0] word_less_nat_alt)
next
  case (Suc fuel)
  show ?case
  proof (cases "m < n")
    case True
    then have "unat (m * 2) = unat m * 2"
      using Suc.prems(1) by (simp add: unat_word_ariths word_less_nat_alt)
    then have "grow_reserved fuel (m * 2) n \<noteq> None" using Suc by (simp add: mult.assoc)
    then show ?thesis using True by (simp add: grow_reserved.simps [of "Suc fuel"])
  qed (simp add: grow_reserved.simps [of "Suc fuel"])
qed

text \<open>The part of its memory the arena has not handed out yet.\<close>

definition avail :: "'x arena \<Rightarrow> nat set" where
  "avail a =
     (if am_external a
      then {unat (am_buffer a) + unat (am_size a) ..< unat (am_buffer a) + unat (am_capacity a)}
      else (case am_current a of
              [] \<Rightarrow> {}
            | pg # _ \<Rightarrow> {unat (pg_buffer pg) + unat (pg_size pg) ..<
                         unat (pg_buffer pg) + unat (pg_capacity pg)}))"

definition arena_pre :: "u64 \<Rightarrow> u64 \<Rightarrow> bool" where
  "arena_pre n al \<longleftrightarrow> fundamental_alignment n al \<and> unat n \<le> 2 ^ 62"

definition arena_wf :: "'x arena \<Rightarrow> bool" where
  "arena_wf a \<longleftrightarrow>
     (if am_external a
      then am_size a \<le> am_capacity a \<and> unat (am_buffer a) + unat (am_capacity a) \<le> 2 ^ 63
      else 0 < am_reserved a \<and> unat (am_reserved a) \<le> 2 ^ 63 - 48 \<and>
        (case am_current a of
           [] \<Rightarrow> True
         | pg # _ \<Rightarrow> pg_size pg \<le> pg_capacity pg \<and>
                     unat (pg_buffer pg) + unat (pg_capacity pg) \<le> 2 ^ 63))"

text \<open>
  An arena over any manager that satisfies the contract satisfies it too: the addresses in use are
  those in use by the auxiliary manager less the part of the arena that is still available.
\<close>

locale arena_over = aux: memory_manager aux_malloc fundamental_alignment aux_inv aux_live
  for aux_malloc :: "'x allocate" and aux_inv :: "'x \<Rightarrow> bool" and aux_live :: "'x \<Rightarrow> nat set"
begin

definition arena_inv :: "'x arena \<Rightarrow> bool" where
  "arena_inv a \<longleftrightarrow> aux_inv (am_auxiliary a) \<and> arena_wf a \<and> avail a \<subseteq> aux_live (am_auxiliary a)"

definition arena_live :: "'x arena \<Rightarrow> nat set" where
  "arena_live a = aux_live (am_auxiliary a) - avail a"

definition arena_good :: "'x arena \<Rightarrow> u64 \<Rightarrow> u64 \<Rightarrow> u64 option \<Rightarrow> 'x arena \<Rightarrow> bool" where
  "arena_good a n al r a' \<longleftrightarrow> arena_inv a' \<and> arena_live a \<subseteq> arena_live a' \<and>
     (\<forall>p. r = Some p \<longrightarrow> block p n \<inter> arena_live a = {} \<and> block p n \<subseteq> arena_live a' \<and>
        IsAligned p al \<and> unat p + unat n \<le> 2 ^ 63)"

lemma fundamental_max_align: "fundamental_alignment n max_align"
  using pow2_IsValidAlignment [of 4] by (simp add: fundamental_alignment_def max_align_def)

lemma avail_cut:
  assumes inv: "arena_inv a" and inv': "aux_inv (am_auxiliary a')" "arena_wf a'"
    and aux: "am_auxiliary a' = am_auxiliary a"
    and cut: "block p n \<subseteq> avail a" "avail a' \<subseteq> avail a" "block p n \<inter> avail a' = {}"
    and place: "IsAligned p al" "unat p + unat n \<le> 2 ^ 63"
  shows "arena_good a n al (Some p) a'"
  using assms by (auto simp: arena_good_def arena_inv_def arena_live_def)

lemma external_good:
  assumes inv: "arena_inv a" and pre: "arena_pre n al" and ext: "am_external a"
    and m: "ArenaMemoryManager_malloc aux_malloc a n al = Some (r, a')"
  shows "arena_good a n al r a'"
proof -
  define A S where "A = Align (am_buffer a + am_size a) al True"
    and "S = n + (A - (am_buffer a + am_size a))"
  have wf: "am_size a \<le> am_capacity a" "unat (am_buffer a) + unat (am_capacity a) \<le> 2 ^ 63"
    using inv ext by (auto simp: arena_inv_def arena_wf_def)
  have pre': "fundamental_alignment n al" "unat n \<le> 2 ^ 62" using pre by (auto simp: arena_pre_def)
  show ?thesis
  proof (cases "S \<le> am_capacity a - am_size a")
    case True
    note b = bump_block [OF fundamental_alignmentD [OF pre'(1)] pre'(2) wf A_def S_def True]
    have r: "r = Some A" and a': "a' = am_count n (a\<lparr>am_size := am_size a + S\<rparr>)"
      using m ext True by (auto simp: ArenaMemoryManager_malloc_def Let_def A_def S_def)
    show ?thesis unfolding r
    proof (rule avail_cut [OF inv])
      show "aux_inv (am_auxiliary a')" using inv by (simp add: a' am_count_def arena_inv_def)
      show "arena_wf a'" using b wf ext by (simp add: a' am_count_def arena_wf_def)
      have le: "unat (am_size a + S) \<le> unat (am_capacity a)" using b(2) by (simp add: word_le_nat_alt)
      show "block A n \<subseteq> avail a" using b(3,4) le ext by (auto simp: block_def avail_def)
      show "avail a' \<subseteq> avail a" using b(1) ext by (auto simp: a' am_count_def avail_def)
      show "block A n \<inter> avail a' = {}" using b(4) ext by (auto simp: a' am_count_def avail_def block_def)
      show "unat A + unat n \<le> 2 ^ 63" using b(4) le wf by simp
    qed (use b in \<open>simp_all add: a' am_count_def\<close>)
  next
    case False
    then obtain x where aux: "aux_malloc (am_auxiliary a) n al = Some (r, x)"
      and a': "am_auxiliary a' = x" "avail a' = avail a" "arena_wf a' = arena_wf a"
      using m ext
      by (auto simp: ArenaMemoryManager_malloc_def Let_def A_def S_def am_count_def avail_def
          arena_wf_def split: option.splits)
    have i: "aux_inv (am_auxiliary a)" using inv by (simp add: arena_inv_def)
    note st = aux.mm_inv_step [OF i pre'(1) aux] aux.mm_live_step [OF i pre'(1) aux]
    have "r = Some p \<Longrightarrow> block p n \<inter> aux_live (am_auxiliary a) = {} \<and> block p n \<subseteq> aux_live x \<and>
        IsAligned p al \<and> unat p + unat n \<le> 2 ^ 63" for p
      using aux.mm_fresh [OF i pre'(1)] aux.mm_place [OF i pre'(1)] aux by blast
    then show ?thesis using inv st a' unfolding arena_good_def arena_inv_def arena_live_def by blast
  qed
qed

lemma new_page_good:
  assumes inv: "arena_inv a" and pre: "arena_pre n al" and page: "\<not> am_external a"
    and m: "arena_new_page aux_malloc a n al = Some (r, a')"
  shows "arena_good a n al r a'"
proof -
  have i: "aux_inv (am_auxiliary a)" and res: "unat (am_reserved a) \<le> 2 ^ 63 - 48"
    and pos: "0 < am_reserved a"
    using inv page by (auto simp: arena_inv_def arena_wf_def)
  have pre': "fundamental_alignment n al" "unat n \<le> 2 ^ 62" using pre by (auto simp: arena_pre_def)
  obtain nr where nr: "grow_reserved 64 (2 * am_reserved a) n = Some nr"
    using m by (auto simp: arena_new_page_def split: option.splits)
  have two: "unat (2 * am_reserved a) = 2 * unat (am_reserved a)"
    unfolding unat_word_ariths using res by simp
  have nr_le: "n \<le> nr" and nr_bound: "unat nr \<le> 2 ^ 64 - 96"
    using grow_reserved_bounds [OF nr] two res pre'(2) by auto
  have "0 < unat (2 * am_reserved a)" using two pos by (simp add: word_less_nat_alt)
  then have "2 * am_reserved a \<noteq> 0" by auto
  then have "nr \<noteq> 0" using grow_reserved_bounds [OF nr] by auto
  then have nr_pos: "0 < nr" by (simp add: word_gt_0)
  let ?req = "sizeof_Page + nr + max_align"
  have req: "unat ?req = 48 + unat nr"
    unfolding sizeof_Page_def max_align_def unat_word_ariths using nr_bound by simp
  obtain q x where aux: "aux_malloc (am_auxiliary a) ?req max_align = Some (q, x)"
    using m nr by (auto simp: arena_new_page_def AllocateArena_def split: option.splits)
  note st = aux.mm_inv_step [OF i fundamental_max_align aux]
    aux.mm_live_step [OF i fundamental_max_align aux]
  show ?thesis
  proof (cases q)
    case None
    then have "r = None" and "a' = a\<lparr>am_auxiliary := x\<rparr>"
      using m nr aux by (auto simp: arena_new_page_def AllocateArena_def)
    then show ?thesis using inv st
      by (auto simp: arena_good_def arena_inv_def arena_live_def arena_wf_def avail_def)
  next
    case (Some b)
    have fresh: "block b ?req \<inter> aux_live (am_auxiliary a) = {}" "block b ?req \<subseteq> aux_live x"
      and place: "IsAligned b max_align" "unat b + unat ?req \<le> 2 ^ 63"
      using aux.mm_fresh [OF i fundamental_max_align] aux.mm_place [OF i fundamental_max_align] aux
        Some by blast+
    define buf where "buf = b + sizeof_Page"
    have ub: "unat buf = unat b + 32"
      unfolding buf_def sizeof_Page_def unat_word_ariths using place(2) req by simp
    define A S where "A = Align (buf + 0) al True" and "S = n + (A - (buf + 0))"
    have "IsAligned buf max_align"
      using place(1) ub IsAligned_iff [of 4 buf] IsAligned_iff [of 4 b]
      by (simp add: max_align_def dvd_add)
    then have ba: "IsAligned buf al" using pre'(1) IsAligned_weaken by blast
    have al: "IsValidAlignment al" "al < 2 ^ 31" "unat buf + unat al \<le> 2 ^ 64"
      using pre'(1) place(2) req ub
      by (auto simp: fundamental_alignment_def max_align_def word_less_nat_alt word_le_nat_alt)
    have "A = buf"
      using Align_up_spec(2) [OF al] Align_up_spec(4) [OF al ba order_refl]
      by (simp add: A_def word_le_nat_alt word_unat_eq_iff)
    then have S: "S = n" by (simp add: S_def)
    note bb = bump_block [OF fundamental_alignmentD [OF pre'(1)] pre'(2) _ _ A_def S_def, of nr, unfolded S]
    have r: "r = Some A" and a': "a' = am_count n (a\<lparr>am_auxiliary := x, am_reserved := nr,
        am_current := \<lparr>pg_address = b, pg_buffer = buf, pg_capacity = nr, pg_size = 0 + n\<rparr>
          # am_current a\<rparr>)"
      using m nr aux Some S
      by (auto simp: arena_new_page_def AllocateArena_def page_take_def Let_def buf_def A_def S_def)
    have nn: "unat (0 + n) \<le> unat nr" "unat A + unat n = unat buf + unat (0 + n)"
      "unat buf \<le> unat A" "IsAligned A al"
      using bb nr_le place(2) req ub by (auto simp: word_le_nat_alt)
    have wf: "arena_wf a'"
      using page nn(1) place(2) req ub nr_pos
      by (simp add: a' am_count_def arena_wf_def word_le_nat_alt)
    have av: "avail a' = {unat buf + unat n ..< unat buf + unat nr}"
      using page by (simp add: a' am_count_def avail_def)
    have sub: "avail a' \<subseteq> block b ?req" "block A n \<subseteq> block b ?req" "block A n \<inter> avail a' = {}"
      using nn ub req by (auto simp: av block_def)
    have aux': "am_auxiliary a' = x" by (simp add: a' am_count_def)
    have "unat A + unat n \<le> 2 ^ 63" using nn place(2) req ub by simp
    moreover have "aux_inv x" by (rule st(1))
    ultimately show ?thesis using wf sub fresh st(2) nn(4) inv
      unfolding r arena_good_def arena_inv_def arena_live_def aux' by blast
  qed
qed

lemma page_good:
  assumes inv: "arena_inv a" and pre: "arena_pre n al" and page: "\<not> am_external a"
    and m: "ArenaMemoryManager_malloc aux_malloc a n al = Some (r, a')"
  shows "arena_good a n al r a'"
proof (cases "arena_new_page aux_malloc a n al = Some (r, a')")
  case True
  then show ?thesis using new_page_good inv pre page by blast
next
  case False
  then obtain pg rest where cur: "am_current a = pg # rest"
    using m page by (auto simp: ArenaMemoryManager_malloc_def split: list.splits)
  define A S where "A = Align (pg_buffer pg + pg_size pg) al True"
    and "S = n + (A - (pg_buffer pg + pg_size pg))"
  have fits: "S \<le> pg_capacity pg - pg_size pg" and r: "r = Some A"
    and a': "a' = am_count n (a\<lparr>am_current := pg\<lparr>pg_size := pg_size pg + S\<rparr> # rest\<rparr>)"
    using m page False cur
    by (auto simp: ArenaMemoryManager_malloc_def page_take_def Let_def A_def S_def split: if_splits)
  have wf: "pg_size pg \<le> pg_capacity pg" "unat (pg_buffer pg) + unat (pg_capacity pg) \<le> 2 ^ 63"
    using inv page cur by (auto simp: arena_inv_def arena_wf_def)
  have pre': "fundamental_alignment n al" "unat n \<le> 2 ^ 62" using pre by (auto simp: arena_pre_def)
  note b = bump_block [OF fundamental_alignmentD [OF pre'(1)] pre'(2) wf A_def S_def fits]
  have le: "unat (pg_size pg + S) \<le> unat (pg_capacity pg)" using b(2) by (simp add: word_le_nat_alt)
  show ?thesis unfolding r
  proof (rule avail_cut [OF inv])
    show "aux_inv (am_auxiliary a')" using inv by (simp add: a' am_count_def arena_inv_def)
    show "arena_wf a'"
      using b wf page inv cur by (simp add: a' am_count_def arena_wf_def arena_inv_def)
    show "block A n \<subseteq> avail a" using b(3,4) le page cur by (auto simp: block_def avail_def)
    show "avail a' \<subseteq> avail a" using b(1) page cur by (auto simp: a' am_count_def avail_def)
    show "block A n \<inter> avail a' = {}"
      using b(4) page by (auto simp: a' am_count_def avail_def block_def)
    show "unat A + unat n \<le> 2 ^ 63" using b(4) le wf by simp
  qed (use b in \<open>simp_all add: a' am_count_def\<close>)
qed

lemma new_page_returns:
  assumes inv: "arena_inv a" and pre: "arena_pre n al" and page: "\<not> am_external a"
  shows "arena_new_page aux_malloc a n al \<noteq> None"
proof -
  have i: "aux_inv (am_auxiliary a)" and res: "unat (am_reserved a) \<le> 2 ^ 63 - 48" "0 < am_reserved a"
    using inv page by (auto simp: arena_inv_def arena_wf_def)
  have "unat (2 * am_reserved a) = 2 * unat (am_reserved a)"
    unfolding unat_word_ariths using res by simp
  then have "unat n \<le> unat (2 * am_reserved a) * 2 ^ 64"
    using res(2) pre by (simp add: arena_pre_def word_less_nat_alt)
  then obtain nr where "grow_reserved 64 (2 * am_reserved a) n = Some nr"
    using grow_reserved_returns pre by (fastforce simp: arena_pre_def)
  then show ?thesis
    using aux.mm_returns [OF i fundamental_max_align, of "sizeof_Page + nr + max_align"]
    by (auto simp: arena_new_page_def AllocateArena_def Let_def split: option.splits prod.splits)
qed

lemma malloc_returns:
  "arena_inv a \<Longrightarrow> arena_pre n al \<Longrightarrow> ArenaMemoryManager_malloc aux_malloc a n al \<noteq> None"
  using new_page_returns [of a n al] aux.mm_returns [of "am_auxiliary a" n al]
  by (auto simp: ArenaMemoryManager_malloc_def Let_def arena_inv_def arena_pre_def
      split: list.splits option.splits prod.splits)

lemma malloc_good:
  assumes "arena_inv a" and "arena_pre n al"
    and "ArenaMemoryManager_malloc aux_malloc a n al = Some (r, a')"
  shows "arena_good a n al r a'"
  using assms external_good page_good by blast

end

sublocale arena_over \<subseteq> arena: memory_manager
  "ArenaMemoryManager_malloc aux_malloc" arena_pre arena_inv arena_live
  by unfold_locales (auto dest!: malloc_good simp: arena_good_def malloc_returns)

context arena_over
begin

lemma init_inv:
  assumes x: "aux_inv x" and cap: "0 < capacity" "unat capacity \<le> 2 ^ 62"
  obtains a where "ArenaMemoryManager_init aux_malloc aux_free x capacity = Some a"
    and "arena_inv a" and "aux_live x \<subseteq> arena_live a"
proof -
  let ?req = "sizeof_Page + capacity + max_align"
  have req: "unat ?req = 48 + unat capacity"
    unfolding sizeof_Page_def max_align_def unat_word_ariths using cap(2) by simp
  obtain q x' where aux: "aux_malloc x ?req max_align = Some (q, x')"
    using aux.mm_returns [OF x fundamental_max_align, of ?req] by auto
  note st = aux.mm_inv_step [OF x fundamental_max_align aux]
    aux.mm_live_step [OF x fundamental_max_align aux]
  show ?thesis
  proof (cases q)
    case None
    show ?thesis
      by (rule that) (use aux None st cap in \<open>auto simp: ArenaMemoryManager_init_def
          ArenaMemoryManager_reset_capacity_def ArenaMemoryManager_clear_def ClearArena_def
          AllocateArena_def Let_def arena_inv_def arena_wf_def avail_def arena_live_def\<close>)
  next
    case (Some b)
    have fresh: "block b ?req \<inter> aux_live x = {}" "block b ?req \<subseteq> aux_live x'"
      and place: "unat b + unat ?req \<le> 2 ^ 63"
      using aux.mm_fresh [OF x fundamental_max_align] aux.mm_place [OF x fundamental_max_align] aux
        Some by blast+
    have ub: "unat (b + sizeof_Page) = unat b + 32"
      unfolding sizeof_Page_def unat_word_ariths using place req by simp
    have "{unat b + 32 ..< unat b + 32 + unat capacity} \<subseteq> block b ?req"
      using req by (auto simp: block_def)
    with fresh have av: "{unat b + 32 ..< unat b + 32 + unat capacity} \<subseteq> aux_live x'"
      "{unat b + 32 ..< unat b + 32 + unat capacity} \<inter> aux_live x = {}" by blast+
    show ?thesis
      by (rule that) (use aux Some st cap ub av place req in \<open>auto simp: ArenaMemoryManager_init_def
          ArenaMemoryManager_reset_capacity_def ArenaMemoryManager_clear_def ClearArena_def
          AllocateArena_def Let_def arena_inv_def arena_wf_def avail_def arena_live_def\<close>)
  qed
qed

lemma init_blocks:
  assumes x: "aux_inv x" and cap: "0 < capacity" "unat capacity \<le> 2 ^ 62"
    and rs: "\<forall>(n, al) \<in> set rs. arena_pre n al"
  shows "\<exists>a bs t. ArenaMemoryManager_init aux_malloc aux_free x capacity = Some a \<and>
    malloc_all (ArenaMemoryManager_malloc aux_malloc) a rs = Some (bs, t) \<and> disjoint_blocks bs \<and>
    (\<forall>(p, n, al) \<in> set bs. IsAligned p al \<and> block p n \<inter> aux_live x = {} \<and>
       block p n \<subseteq> aux_live (am_auxiliary t))"
proof -
  obtain a where a: "ArenaMemoryManager_init aux_malloc aux_free x capacity = Some a"
    and inv: "arena_inv a" and live: "aux_live x \<subseteq> arena_live a"
    using init_inv [OF x cap] by blast
  obtain bs t where run: "malloc_all (ArenaMemoryManager_malloc aux_malloc) a rs = Some (bs, t)"
    using arena.malloc_all_returns [OF inv rs] by blast
  show ?thesis
    using arena.malloc_all_step [OF inv rs run] a run live by (fastforce simp: arena_live_def)
qed

end

sublocale system_heap \<subseteq> default_arena: arena_over
  "DefaultMemoryManager_malloc std_malloc" "\<lambda>m. heap_inv (dm_heap m)" "\<lambda>m. heap_live (dm_heap m)"
  by unfold_locales

context system_heap
begin

lemmas default_arena_blocks = default_arena.init_blocks

end

text \<open>
  A system heap that satisfies the contract, for concrete runs: it hands out consecutive
  addresses rounded up to the fundamental alignment.
\<close>

definition bump_malloc :: "u64 \<Rightarrow> u64 \<Rightarrow> u64 option \<times> u64" where
  "bump_malloc h n =
     (if unat h + unat n \<le> 2 ^ 62 then (Some h, Align (h + n) max_align True) else (None, h))"

interpretation bump: system_heap bump_malloc
  "\<lambda>h. IsAligned h max_align \<and> unat h \<le> 2 ^ 62 + 16" "\<lambda>h. {..< unat h}"
proof (unfold_locales, goal_cases)
  case (1 h n r h')
  show ?case
  proof (cases "unat h + unat n \<le> 2 ^ 62")
    case True
    then have u: "unat (h + n) = unat h + unat n" by (simp add: unat_word_ariths)
    have m: "IsValidAlignment max_align" "max_align < 2 ^ 31" "unat (h + n) + unat max_align \<le> 2 ^ 64"
      using True u pow2_IsValidAlignment [of 4] by (simp_all add: max_align_def)
    have "unat (Align (h + n) max_align True) \<le> 2 ^ 62 + 16" "unat h \<le> unat (Align (h + n) max_align True)"
      using Align_up_spec(2,3) [OF m] u True by (simp_all add: max_align_def)
    then show ?thesis using 1 True Align_up_spec(1) [OF m] by (auto simp: bump_malloc_def)
  qed (use 1 in \<open>auto simp: bump_malloc_def\<close>)
next
  case (2 h n p h')
  then have h: "unat h + unat n \<le> 2 ^ 62" "p = h" "h' = Align (h + n) max_align True"
    by (auto simp: bump_malloc_def split: if_splits)
  then have u: "unat (h + n) = unat h + unat n" by (simp add: unat_word_ariths)
  have m: "IsValidAlignment max_align" "max_align < 2 ^ 31" "unat (h + n) + unat max_align \<le> 2 ^ 64"
    using h u pow2_IsValidAlignment [of 4] by (simp_all add: max_align_def)
  then show ?case using 2 h u Align_up_spec(2) [OF m] by (auto simp: block_def)
qed

subsection \<open>Properties\<close>



text \<open>
  Stack memory manager: a successful \<^verbatim>\<open>malloc\<close> returns an aligned block that lies inside
  the manager's buffer, above the part counted as used, for every valid alignment below
  \<open>2 ^ 31\<close> and every buffer in the lower half of the address space.
\<close>

theorem StackMemoryManager_malloc_in_buffer:
  assumes "IsValidAlignment al" and "al < 2 ^ 31" and "unat n \<le> 2 ^ 62"
    and "unat (sm_buffer m) + unat (sm_capacity m) \<le> 2 ^ 63" and "sm_size m \<le> sm_capacity m"
    and "StackMemoryManager_malloc m n al = Some (Some p, m')"
  shows "IsAligned p al \<and> unat (sm_buffer m) + unat (sm_size m) \<le> unat p \<and>
    unat p + unat n \<le> unat (sm_buffer m) + unat (sm_capacity m) \<and> sm_size m' \<le> sm_capacity m'"
proof -
  define A S where "A = Align (sm_buffer m + sm_size m) al True"
    and "S = n + (A - (sm_buffer m + sm_size m))"
  have fits: "S \<le> sm_capacity m - sm_size m" and p: "p = A"
    and m': "sm_size m' = sm_size m + n" "sm_capacity m' = sm_capacity m"
    using assms(6) by (auto simp: StackMemoryManager_malloc_def Let_def A_def S_def split: if_splits)
  note b = bump_block [OF assms(1,2,3,5,4) A_def S_def fits]
  have le: "unat (sm_size m + S) \<le> unat (sm_capacity m)" using b(2) by (simp add: word_le_nat_alt)
  have "unat (sm_size m) + unat n \<le> unat (sm_size m + S)" using b(3,4) by simp
  then have "sm_size m + n \<le> sm_capacity m"
    using le by (simp add: word_le_nat_alt unat_word_ariths)
  then show ?thesis using b le by (simp add: p m')
qed

theorem StackMemoryManager_malloc_in_buffer_witness:
  "IsAligned 4112 16 \<and> unat (4096 :: u64) + unat (1 :: u64) \<le> unat (4112 :: u64) \<and>
   unat (4112 :: u64) + unat (40 :: u64) \<le> unat (4096 :: u64) + unat (64 :: u64)"
proof -
  let ?m = "\<lparr>sm_allocated = 1, sm_allocations = 1, sm_buffer = 4096, sm_capacity = 64, sm_size = 1\<rparr>"
  let ?m' = "\<lparr>sm_allocated = 41, sm_allocations = 2, sm_buffer = 4096, sm_capacity = 64, sm_size = 41\<rparr>"
  have "StackMemoryManager_malloc ?m 40 16 = Some (Some 4112, ?m')"
    by (simp add: StackMemoryManager_malloc_def Align_def neg_int_def)
  from StackMemoryManager_malloc_in_buffer [OF _ _ _ _ _ this] show ?thesis
    by (simp add: IsValidAlignment_def)
qed

text \<open>
  Stack memory manager: \<^verbatim>\<open>malloc\<close> checks the padded size but advances \<^verbatim>\<open>_size\<close> by the
  unpadded one, so a later block can overlap an earlier one. Here the third request gets the
  addresses 4105 to 4108 although the second block is 4104 to 4111.
\<close>

theorem StackMemoryManager_blocks_overlap:
  "\<exists>t. malloc_all StackMemoryManager_malloc (StackMemoryManager_init 4096 64)
         [(1, 1), (8, 8), (4, 1)] = Some ([(4096, 1, 1), (4104, 8, 8), (4105, 4, 1)], t) \<and>
       \<not> disjoint_blocks [(4096, 1, 1), (4104, 8, 8), (4105, 4, 1)]"
  by (simp add: StackMemoryManager_malloc_def StackMemoryManager_init_def Align_def neg_int_def
      disjoint_blocks_def block_def)

text \<open>
  Arena memory manager: a page is allocated with room for fundamental alignments only. A
  request with a larger alignment that opens a new page is served without checking that it
  fits, so the block runs past the memory obtained for the page.
\<close>

theorem ArenaMemoryManager_overaligned_overflow:
  "\<exists>a p t.
    ArenaMemoryManager_init (DefaultMemoryManager_malloc bump_malloc)
      (DefaultMemoryManager_free (\<lambda>h _. h)) \<lparr>dm_allocated = 0, dm_allocations = 0, dm_heap = 4096\<rparr> 64
      = Some a \<and>
    ArenaMemoryManager_malloc (DefaultMemoryManager_malloc bump_malloc) a 128 64 = Some (Some p, t) \<and>
    \<not> block p 128 \<subseteq> {..< unat (dm_heap (am_auxiliary t))}"
  by (simp add: ArenaMemoryManager_init_def ArenaMemoryManager_reset_capacity_def
      ArenaMemoryManager_clear_def ClearArena_def AllocateArena_def DefaultMemoryManager_malloc_def
      bump_malloc_def sizeof_Page_def max_align_def ArenaMemoryManager_malloc_def page_take_def
      arena_new_page_def grow_reserved.simps am_count_def Align_def neg_int_def block_def)
    (auto simp: subset_iff intro!: exI [of _ "4400"])

end
