(* ===== verification/Pool.thy ===== *)
theory Pool
  imports Allocators
begin

text \<open>
  The pool manager of \<^verbatim>\<open>include/memory/allocator_pool.h\<close> and \<^verbatim>\<open>include/memory/allocator_pool.inl\<close>: a
  first-fit allocator whose free list, block headers and page headers live in the memory it manages. The
  memory is a map from addresses to bytes and the structures are read from it and written to it as 64-bit
  words, at the offsets of an LP64 target. Addresses and sizes inside the pages are natural numbers; the null
  pointer is 0. \<^const>\<open>None\<close> is the result of a loop that does not end.
\<close>

type_synonym memory = "nat \<Rightarrow> u8"

definition read64 :: "memory \<Rightarrow> nat \<Rightarrow> nat" where
  "read64 m a = sum_list (map (\<lambda>i. unat (m (a + i)) * 256 ^ i) [0..<8])"

definition write64 :: "memory \<Rightarrow> nat \<Rightarrow> nat \<Rightarrow> memory" where
  "write64 m a v = (\<lambda>x. if a \<le> x \<and> x < a + 8 then of_nat (v div 256 ^ (x - a)) else m x)"

text \<open>The structures \<^verbatim>\<open>Page\<close>, \<^verbatim>\<open>FreeBlock\<close> and \<^verbatim>\<open>AllocBlock\<close>.\<close>

definition sizeof_PoolPage :: nat where "sizeof_PoolPage = 24"
definition sizeof_AllocBlock :: nat where "sizeof_AllocBlock = 16"

definition page_buffer :: "memory \<Rightarrow> nat \<Rightarrow> nat" where "page_buffer m p = read64 m p"
definition page_prev :: "memory \<Rightarrow> nat \<Rightarrow> nat" where "page_prev m p = read64 m (p + 8)"
definition page_next :: "memory \<Rightarrow> nat \<Rightarrow> nat" where "page_next m p = read64 m (p + 16)"
definition free_size :: "memory \<Rightarrow> nat \<Rightarrow> nat" where "free_size m a = read64 m a"
definition free_next :: "memory \<Rightarrow> nat \<Rightarrow> nat" where "free_next m a = read64 m (a + 8)"

definition write_pair :: "memory \<Rightarrow> nat \<Rightarrow> nat \<Rightarrow> nat \<Rightarrow> memory" where
  "write_pair m a x y = write64 (write64 m a x) (a + 8) y"

record 'x pool =
  pl_allocated :: u64
  pl_allocations :: u64
  pl_auxiliary :: 'x
  pl_external :: bool
  pl_max_pages :: nat
  pl_pages :: nat
  pl_page :: nat
  pl_current :: nat
  pl_free_block :: nat
  pl_memory :: memory

subsection \<open>Pages and alignment\<close>

definition AlignAdjustment :: "nat \<Rightarrow> nat \<Rightarrow> nat" where
  "AlignAdjustment address alignment = unat (Align (of_nat address) (of_nat alignment) True - of_nat address)"

definition AlignAdjustment_header :: "nat \<Rightarrow> nat \<Rightarrow> nat \<Rightarrow> nat" where
  "AlignAdjustment_header address alignment header =
     (let adjustment = AlignAdjustment address alignment; required = header
      in if adjustment < required then
           (let required = required - adjustment;
                adjustment = adjustment + alignment * (required div alignment)
            in if required mod alignment > 0 then adjustment + alignment else adjustment)
         else adjustment)"

definition AllocateMemoryPool :: "'x allocate \<Rightarrow> 'x pool \<Rightarrow> nat \<Rightarrow> nat \<Rightarrow> (nat \<times> 'x pool) option" where
  "AllocateMemoryPool aux_malloc P capacity prev =
     (case aux_malloc (pl_auxiliary P) (of_nat (sizeof_PoolPage + capacity + unat max_align)) max_align of
        None \<Rightarrow> None
      | Some (None, x) \<Rightarrow> Some (0, P\<lparr> pl_auxiliary := x \<rparr>)
      | Some (Some p, x) \<Rightarrow>
          (let page = unat p;
               m = write64 (pl_memory P) page (page + sizeof_PoolPage);
               m = write64 m (page + 8) prev;
               m = write64 m (page + 16) 0;
               m = (if prev \<noteq> 0 then write64 m (prev + 16) page else m)
           in Some (page, P\<lparr> pl_auxiliary := x, pl_memory := m \<rparr>)))"

text \<open>The free list continues with the given block after \<open>prev\<close>, or begins with it.\<close>

definition link_free :: "'x pool \<Rightarrow> nat \<Rightarrow> nat \<Rightarrow> 'x pool" where
  "link_free P prev blk =
     (if prev \<noteq> 0 then P\<lparr> pl_memory := write64 (pl_memory P) (prev + 8) blk \<rparr> else P\<lparr> pl_free_block := blk \<rparr>)"

definition fresh_block :: "'x pool \<Rightarrow> 'x pool" where
  "fresh_block P = P\<lparr> pl_memory := write_pair (pl_memory P) (page_buffer (pl_memory P) (pl_current P)) (pl_page P) 0 \<rparr>"

text \<open>The free block of the next page or of a new one, or null.\<close>

definition pool_grow :: "'x allocate \<Rightarrow> 'x pool \<Rightarrow> nat \<Rightarrow> (nat \<times> 'x pool) option" where
  "pool_grow aux_malloc P prev =
     (if pl_current P \<noteq> 0 \<and> page_next (pl_memory P) (pl_current P) \<noteq> 0 then
        (let P = fresh_block (P\<lparr> pl_current := page_next (pl_memory P) (pl_current P) \<rparr>);
             blk = page_buffer (pl_memory P) (pl_current P)
         in Some (blk, link_free P prev blk))
      else if pl_pages P > 0 then
        (case AllocateMemoryPool aux_malloc P (pl_page P) (pl_current P) of
           None \<Rightarrow> None
         | Some (current, P) \<Rightarrow>
             if current \<noteq> 0 then
               (let P = fresh_block (P\<lparr> pl_current := current \<rparr>);
                    blk = page_buffer (pl_memory P) (pl_current P);
                    P = link_free P prev blk
                in Some (blk, P\<lparr> pl_pages := pl_pages P - 1 \<rparr>))
             else Some (0, P))
      else Some (0, P))"

subsection \<open>Allocation\<close>

partial_function (option) join_free :: "memory \<Rightarrow> nat \<Rightarrow> memory option" where
  "join_free m a =
     (if free_next m a \<noteq> 0 then
        if a + free_size m a = free_next m a
        then join_free (write_pair m a (free_size m a + free_size m (free_next m a)) (free_next m (free_next m a))) a
        else Some m
      else Some m)"

definition pool_count :: "nat \<Rightarrow> 'x pool \<Rightarrow> 'x pool" where
  "pool_count n P = P\<lparr> pl_allocated := pl_allocated P + of_nat n, pl_allocations := pl_allocations P + 1 \<rparr>"

text \<open>Allocation from the free block at \<open>a\<close>, which is big enough.\<close>

definition pool_take :: "'x pool \<Rightarrow> nat \<Rightarrow> nat \<Rightarrow> nat \<Rightarrow> nat \<Rightarrow> nat \<times> 'x pool" where
  "pool_take P prev a n adjustment =
     (let aligned_size = n + adjustment;
          size = free_size (pl_memory P) a;
          next = free_next (pl_memory P) a;
          (aligned_size, P) =
            (if size - aligned_size \<le> sizeof_AllocBlock then (size, link_free P prev next)
             else (let rest = a + aligned_size
                   in (aligned_size, link_free (P\<lparr> pl_memory := write_pair (pl_memory P) rest (size - aligned_size) next \<rparr>) prev rest)));
          aligned = a + adjustment;
          P = P\<lparr> pl_memory := write_pair (pl_memory P) (aligned - sizeof_AllocBlock) aligned_size adjustment \<rparr>
      in (aligned, pool_count n P))"

partial_function (option) pool_loop :: "'x allocate \<Rightarrow> 'x pool \<Rightarrow> nat \<Rightarrow> nat \<Rightarrow> bool \<Rightarrow> nat \<Rightarrow> nat \<Rightarrow> (nat \<times> 'x pool) option" where
  "pool_loop aux_malloc P prev current allocate n alignment =
     (if current = 0 \<and> \<not> allocate then Some (0, P)
      else if current = 0 then
        (case pool_grow aux_malloc P prev of
           None \<Rightarrow> None
         | Some r \<Rightarrow> pool_loop aux_malloc (snd r) prev (fst r) False n alignment)
      else
        (let adjustment = AlignAdjustment_header current alignment sizeof_AllocBlock
         in case join_free (pl_memory P) current of
              None \<Rightarrow> None
            | Some m \<Rightarrow>
                if free_size m current < n + adjustment
                then pool_loop aux_malloc (P\<lparr> pl_memory := m \<rparr>) (if free_next m current \<noteq> 0 then current else prev)
                       (free_next m current) True n alignment
                else Some (pool_take (P\<lparr> pl_memory := m \<rparr>) prev current n adjustment)))"

definition pool_pointer :: "nat \<Rightarrow> u64 option" where
  "pool_pointer a = (if a = 0 then None else Some (of_nat a))"

definition PoolMemoryManager_malloc :: "'x allocate \<Rightarrow> 'x pool allocate" where
  "PoolMemoryManager_malloc aux_malloc P n alignment =
     (if unat n > pl_page P then
        (case aux_malloc (pl_auxiliary P) n alignment of
           None \<Rightarrow> None
         | Some (None, x) \<Rightarrow> Some (None, P\<lparr> pl_auxiliary := x \<rparr>)
         | Some (Some p, x) \<Rightarrow> Some (Some p, pool_count (unat n) (P\<lparr> pl_auxiliary := x \<rparr>)))
      else
        map_option (\<lambda>r. (pool_pointer (fst r), snd r)) (pool_loop aux_malloc P 0 (pl_free_block P) True (unat n) (unat alignment)))"

subsection \<open>Release\<close>

definition release_block :: "'x pool \<Rightarrow> nat \<Rightarrow> 'x pool" where
  "release_block P ptr =
     (let m = pl_memory P;
          alloc_block = ptr - sizeof_AllocBlock;
          block_start = ptr - read64 m (alloc_block + 8);
          block_size = read64 m alloc_block;
          block_end = block_start + block_size;
          old = pl_free_block P;
          m = write_pair m block_start block_size old
      in if old \<noteq> 0 then
           if old + free_size m old = block_start
           then P\<lparr> pl_memory := write64 m old (free_size m old + free_size m block_start), pl_free_block := old \<rparr>
           else if old = block_end
           then P\<lparr> pl_memory := write_pair m block_start (free_size m block_start + free_size m old) (free_next m old),
                   pl_free_block := block_start \<rparr>
           else P\<lparr> pl_memory := m, pl_free_block := block_start \<rparr>
         else P\<lparr> pl_memory := m, pl_free_block := block_start \<rparr>)"

definition pool_uncount :: "u64 \<Rightarrow> 'x pool \<Rightarrow> 'x pool" where
  "pool_uncount n P = P\<lparr> pl_allocated := pl_allocated P - n, pl_allocations := pl_allocations P - 1 \<rparr>"

definition PoolMemoryManager_free :: "'x release \<Rightarrow> 'x pool release" where
  "PoolMemoryManager_free aux_free P ptr n =
     pool_uncount n
       (if unat n > pl_page P then P\<lparr> pl_auxiliary := aux_free (pl_auxiliary P) ptr n \<rparr> else release_block P (unat ptr))"

subsection \<open>Clearing and resetting\<close>

partial_function (option) clear_pages :: "'x release \<Rightarrow> 'x pool \<Rightarrow> 'x pool option" where
  "clear_pages aux_free P =
     (if pl_current P = 0 then Some P
      else
        (let prev = page_prev (pl_memory P) (pl_current P);
             next = page_next (pl_memory P) (pl_current P);
             x = aux_free (pl_auxiliary P) (of_nat (pl_current P)) (of_nat (sizeof_PoolPage + pl_page P + unat max_align))
         in clear_pages aux_free
              (if prev \<noteq> 0 then P\<lparr> pl_auxiliary := x, pl_memory := write64 (pl_memory P) (prev + 16) next, pl_current := prev \<rparr>
               else if next \<noteq> 0 then P\<lparr> pl_auxiliary := x, pl_memory := write64 (pl_memory P) (next + 8) prev, pl_current := next \<rparr>
               else P\<lparr> pl_auxiliary := x, pl_current := 0 \<rparr>)))"

definition ClearMemoryPool :: "'x release \<Rightarrow> 'x pool \<Rightarrow> 'x pool option" where
  "ClearMemoryPool aux_free P =
     (if pl_external P then Some P else map_option (\<lambda>P. P\<lparr> pl_free_block := 0 \<rparr>) (clear_pages aux_free P))"

definition PoolMemoryManager_clear :: "'x release \<Rightarrow> 'x pool \<Rightarrow> 'x pool option" where
  "PoolMemoryManager_clear aux_free P =
     map_option (\<lambda>P. P\<lparr> pl_external := False, pl_max_pages := 0, pl_pages := 0, pl_page := 0, pl_current := 0, pl_free_block := 0 \<rparr>)
       (ClearMemoryPool aux_free P)"

definition PoolMemoryManager_reset_pages :: "'x allocate \<Rightarrow> 'x release \<Rightarrow> 'x pool \<Rightarrow> nat \<Rightarrow> nat \<Rightarrow> 'x pool option" where
  "PoolMemoryManager_reset_pages aux_malloc aux_free P page pages =
     Option.bind (PoolMemoryManager_clear aux_free P) (\<lambda>P.
       (let max = (if pages > 0 then pages else 2 ^ 64 - 1);
            P = P\<lparr> pl_external := False, pl_max_pages := max, pl_pages := max, pl_page := page \<rparr>
        in Option.bind (AllocateMemoryPool aux_malloc P page (pl_current P)) (\<lambda>(current, P).
             Some (if current \<noteq> 0 then
                     (let P = fresh_block (P\<lparr> pl_current := current \<rparr>)
                      in P\<lparr> pl_free_block := page_buffer (pl_memory P) (pl_current P), pl_pages := pl_pages P - 1 \<rparr>)
                   else P))))"

definition PoolMemoryManager_reset_buffer :: "'x release \<Rightarrow> 'x pool \<Rightarrow> nat \<Rightarrow> nat \<Rightarrow> 'x pool option" where
  "PoolMemoryManager_reset_buffer aux_free P buffer capacity =
     map_option (\<lambda>P.
       (let m = write64 (write64 (write64 (pl_memory P) buffer (buffer + sizeof_PoolPage)) (buffer + 8) 0) (buffer + 16) 0;
            m = write_pair m (buffer + sizeof_PoolPage) (capacity - sizeof_PoolPage) 0
        in P\<lparr> pl_external := True, pl_max_pages := 1, pl_pages := 0, pl_page := capacity, pl_current := buffer, pl_memory := m,
               pl_free_block := buffer + sizeof_PoolPage \<rparr>))
       (PoolMemoryManager_clear aux_free P)"

partial_function (option) first_page :: "memory \<Rightarrow> nat \<Rightarrow> nat option" where
  "first_page m p = (if page_prev m p \<noteq> 0 then first_page m (page_prev m p) else Some p)"

definition PoolMemoryManager_reset :: "'x pool \<Rightarrow> 'x pool option" where
  "PoolMemoryManager_reset P =
     (if pl_current P \<noteq> 0 then
        map_option (\<lambda>p. (let P = fresh_block (P\<lparr> pl_current := p \<rparr>)
                         in P\<lparr> pl_free_block := page_buffer (pl_memory P) (pl_current P) \<rparr>))
          (first_page (pl_memory P) (pl_current P))
      else Some P)"

definition pool_blank :: "'x \<Rightarrow> memory \<Rightarrow> 'x pool" where
  "pool_blank x m = \<lparr> pl_allocated = 0, pl_allocations = 0, pl_auxiliary = x, pl_external = False, pl_max_pages = 0, pl_pages = 0,
     pl_page = 0, pl_current = 0, pl_free_block = 0, pl_memory = m \<rparr>"

definition PoolMemoryManager_init :: "'x allocate \<Rightarrow> 'x release \<Rightarrow> 'x \<Rightarrow> memory \<Rightarrow> nat \<Rightarrow> nat \<Rightarrow> 'x pool option" where
  "PoolMemoryManager_init aux_malloc aux_free x m page pages = PoolMemoryManager_reset_pages aux_malloc aux_free (pool_blank x m) page pages"

definition PoolMemoryManager_init_buffer :: "'x release \<Rightarrow> 'x \<Rightarrow> memory \<Rightarrow> nat \<Rightarrow> nat \<Rightarrow> 'x pool option" where
  "PoolMemoryManager_init_buffer aux_free x m buffer capacity = PoolMemoryManager_reset_buffer aux_free (pool_blank x m) buffer capacity"

declare join_free.simps [code] pool_loop.simps [code] clear_pages.simps [code] first_page.simps [code]

end
