(* ===== verification/PoolInv.thy ===== *)
theory PoolInv
  imports Pool
begin

text \<open>
  The layout of the memory of a pool: the areas of the page headers, the free blocks and the allocated blocks
  are apart, and the structures in them form the page chain, the free list and the block headers.
\<close>

subsection \<open>Words in memory\<close>

lemma digits_sum: "(\<Sum>i<n. (v div b ^ i mod b) * b ^ i) = v mod b ^ n" for b v :: nat
proof (induction n)
  case (Suc n)
  have "v mod b ^ Suc n = b ^ n * (v div b ^ n mod b) + v mod b ^ n" using mod_mult2_eq [of v "b ^ n" b] by (simp add: mult.commute)
  then show ?case using Suc by (simp add: mult.commute)
qed simp

lemma read64_sum: "read64 m a = (\<Sum>i<8. unat (m (a + i)) * 256 ^ i)"
  unfolding read64_def by (simp only: sum_list_sum_nth length_map length_upt) (rule sum.cong; simp add: atLeast0LessThan)

lemma read_write_same [simp]:
  assumes "v < 2 ^ 64"
  shows "read64 (write64 m a v) a = v"
proof -
  have "read64 (write64 m a v) a = (\<Sum>i<8. (v div 256 ^ i mod 256) * 256 ^ i)"
    unfolding read64_sum write64_def by (rule sum.cong) (simp_all add: unat_of_nat take_bit_eq_mod)
  also have "\<dots> = v mod 256 ^ 8" by (rule digits_sum)
  finally show ?thesis using assms by simp
qed

lemma read_write_other:
  assumes "a + 8 \<le> b \<or> b + 8 \<le> a"
  shows "read64 (write64 m a v) b = read64 m b"
  unfolding read64_sum write64_def using assms by (intro sum.cong) auto

subsection \<open>Areas\<close>

type_synonym area = "nat \<times> nat"

definition apart :: "area \<Rightarrow> area \<Rightarrow> bool" where
  "apart A B \<longleftrightarrow> fst A + snd A \<le> fst B \<or> fst B + snd B \<le> fst A"

definition agree :: "memory \<Rightarrow> memory \<Rightarrow> area \<Rightarrow> bool" where
  "agree m m' A \<longleftrightarrow> (\<forall>x. fst A \<le> x \<and> x < fst A + snd A \<longrightarrow> m x = m' x)"

lemma apart_sym: "apart A B \<longleftrightarrow> apart B A"
  by (auto simp: apart_def)

lemma apart_simps [simp]: "apart (a, s) (b, t) \<longleftrightarrow> a + s \<le> b \<or> b + t \<le> a"
  by (simp add: apart_def)

lemma apart_within: "apart A (b, t) \<Longrightarrow> b \<le> c \<Longrightarrow> c + u \<le> b + t \<Longrightarrow> apart A (c, u)"
  by (cases A) auto

lemma apart_merge: "0 < snd A \<Longrightarrow> apart A (a, s) \<Longrightarrow> apart A (a + s, t) \<Longrightarrow> 0 < s \<Longrightarrow> 0 < t \<Longrightarrow> apart A (a, s + t)"
  by (cases A) auto

lemma agree_refl [simp]: "agree m m A"
  by (simp add: agree_def)

lemma agree_trans: "agree m m' A \<Longrightarrow> agree m' m'' A \<Longrightarrow> agree m m'' A"
  by (simp add: agree_def)

lemma agree_write: "apart A (a, 8) \<Longrightarrow> agree m (write64 m a v) A"
  by (cases A) (auto simp: agree_def write64_def)

lemma agree_pair: "apart A (a, 16) \<Longrightarrow> agree m (write_pair m a x y) A"
  unfolding write_pair_def by (rule agree_trans [OF agree_write agree_write]) (auto elim: apart_within)

lemma agree_within: "agree m m' (b, t) \<Longrightarrow> b \<le> c \<Longrightarrow> c + u \<le> b + t \<Longrightarrow> agree m m' (c, u)"
  by (auto simp: agree_def)

lemma agree_read: "agree m m' (a, 8) \<Longrightarrow> read64 m' a = read64 m a"
  unfolding read64_sum by (intro sum.cong) (auto simp: agree_def)

lemma pair_reads:
  assumes "x < 2 ^ 64" "y < 2 ^ 64"
  shows "read64 (write_pair m a x y) a = x" "read64 (write_pair m a x y) (a + 8) = y"
  using assms by (simp_all add: write_pair_def read_write_other)

subsection \<open>The structures\<close>

fun free_seg :: "memory \<Rightarrow> nat \<Rightarrow> area list \<Rightarrow> nat \<Rightarrow> bool" where
  "free_seg m p [] q \<longleftrightarrow> p = q"
| "free_seg m p (f # fs) q \<longleftrightarrow> p = fst f \<and> p \<noteq> 0 \<and> free_size m p = snd f \<and> free_seg m (free_next m p) fs q"

fun page_chain :: "memory \<Rightarrow> nat \<Rightarrow> nat list \<Rightarrow> bool" where
  "page_chain m prev [] \<longleftrightarrow> True"
| "page_chain m prev (p # ps) \<longleftrightarrow> p \<noteq> 0 \<and> page_buffer m p = p + sizeof_PoolPage \<and> page_prev m p = prev \<and>
     page_next m p = (case ps of [] \<Rightarrow> 0 | r # _ \<Rightarrow> r) \<and> page_chain m p ps"

text \<open>An allocated block: the pointer, the start and the size of its area, and the size asked for.\<close>

record taken =
  tk_ptr :: nat
  tk_start :: nat
  tk_area :: nat
  tk_size :: nat

definition taken_area :: "taken \<Rightarrow> area" where
  "taken_area b = (tk_start b, tk_area b)"

definition taken_ok :: "memory \<Rightarrow> taken \<Rightarrow> bool" where
  "taken_ok m b \<longleftrightarrow> tk_start b + sizeof_AllocBlock \<le> tk_ptr b \<and> tk_ptr b + tk_size b \<le> tk_start b + tk_area b \<and>
     read64 m (tk_ptr b - sizeof_AllocBlock) = tk_area b \<and> read64 m (tk_ptr b - 8) = tk_ptr b - tk_start b"

lemma free_seg_append: "free_seg m p (fs @ gs) q \<longleftrightarrow> (\<exists>r. free_seg m p fs r \<and> free_seg m r gs q)"
  by (induction fs arbitrary: p) auto

lemma free_agree: "agree m m' (a, s) \<Longrightarrow> 16 \<le> s \<Longrightarrow> free_size m' a = free_size m a \<and> free_next m' a = free_next m a"
  unfolding free_size_def free_next_def by (intro conjI agree_read) (auto elim: agree_within)

lemma free_seg_agree: "\<forall>A \<in> set fs. 16 \<le> snd A \<and> agree m m' A \<Longrightarrow> free_seg m p fs q \<Longrightarrow> free_seg m' p fs q"
proof (induction fs arbitrary: p)
  case (Cons f fs)
  then show ?case using free_agree [of m m' "fst f" "snd f"] by auto
qed simp

lemma page_chain_agree: "\<forall>p \<in> set ps. agree m m' (p, sizeof_PoolPage) \<Longrightarrow> page_chain m prev ps \<Longrightarrow> page_chain m' prev ps"
proof (induction ps arbitrary: prev)
  case (Cons p ps)
  then have "agree m m' (p, 24)" by (simp add: sizeof_PoolPage_def)
  then have "read64 m' p = read64 m p" "read64 m' (p + 8) = read64 m (p + 8)" "read64 m' (p + 16) = read64 m (p + 16)"
    by (auto intro!: agree_read elim: agree_within)
  then show ?case using Cons by (simp add: page_buffer_def page_prev_def page_next_def)
qed simp

lemma taken_agree: "agree m m' (taken_area b) \<Longrightarrow> taken_ok m b \<Longrightarrow> taken_ok m' b"
proof -
  assume a: "agree m m' (taken_area b)" and ok: "taken_ok m b"
  have "agree m m' (tk_ptr b - 16, 8)" "agree m m' (tk_ptr b - 8, 8)"
    using agree_within [of m m' "tk_start b" "tk_area b" "tk_ptr b - 16" 8] agree_within [of m m' "tk_start b" "tk_area b" "tk_ptr b - 8" 8] a ok
    by (auto simp: taken_area_def taken_ok_def sizeof_AllocBlock_def)
  then show ?thesis using ok agree_read by (simp add: taken_ok_def sizeof_AllocBlock_def)
qed

subsection \<open>The layout\<close>

definition areas :: "nat \<Rightarrow> nat list \<Rightarrow> nat list \<Rightarrow> area list \<Rightarrow> taken list \<Rightarrow> area list" where
  "areas page us sp fs bs = map (\<lambda>p. (p, sizeof_PoolPage)) (us @ sp) @ map (\<lambda>p. (p + sizeof_PoolPage, page)) sp @ fs @ map taken_area bs"

definition in_range :: "area \<Rightarrow> bool" where
  "in_range A \<longleftrightarrow> 0 < fst A \<and> 16 \<le> snd A \<and> fst A + snd A \<le> 2 ^ 63"

definition layout :: "memory \<Rightarrow> nat \<Rightarrow> nat \<Rightarrow> nat list \<Rightarrow> nat list \<Rightarrow> area list \<Rightarrow> taken list \<Rightarrow> bool" where
  "layout m page fb us sp fs bs \<longleftrightarrow> page_chain m 0 (us @ sp) \<and> free_seg m fb fs 0 \<and> (\<forall>b \<in> set bs. taken_ok m b) \<and>
     sorted_wrt apart (areas page us sp fs bs) \<and> (\<forall>A \<in> set (areas page us sp fs bs). in_range A)"

lemma areas_split:
  "sorted_wrt apart (areas page us sp (pre @ A # fs) bs) \<longleftrightarrow>
   sorted_wrt apart (areas page us sp (pre @ fs) bs) \<and> (\<forall>B \<in> set (areas page us sp (pre @ fs) bs). apart B A)"
  unfolding areas_def sorted_wrt_append sorted_wrt.simps by (auto simp: ball_Un apart_sym)

lemma areas_taken:
  "sorted_wrt apart (areas page us sp fs (b # bs)) \<longleftrightarrow>
   sorted_wrt apart (areas page us sp fs bs) \<and> (\<forall>B \<in> set (areas page us sp fs bs). apart B (taken_area b))"
  unfolding areas_def sorted_wrt_append sorted_wrt.simps list.map by (auto simp: ball_Un apart_sym)

lemma set_areas [simp]:
  "set (areas page us sp (pre @ fs) bs) = set (areas page us sp [] bs) \<union> set pre \<union> set fs"
  "set (areas page us sp (A # fs) bs) = insert A (set (areas page us sp fs bs))"
  "set (areas page us sp fs (b # bs)) = insert (taken_area b) (set (areas page us sp fs bs))"
  by (auto simp: areas_def)

text \<open>The structures outside the free list survive when their areas keep their bytes.\<close>

lemma layout_step:
  assumes "layout m page fb us sp fs bs" and "\<And>A. A \<in> set (areas page us sp [] bs) \<Longrightarrow> agree m m' A"
    and "free_seg m' fb' fs' 0" and "sorted_wrt apart (areas page us sp fs' bs)" and "\<And>A. A \<in> set fs' \<Longrightarrow> in_range A"
  shows "layout m' page fb' us sp fs' bs"
proof -
  have a: "\<And>p. p \<in> set (us @ sp) \<Longrightarrow> agree m m' (p, sizeof_PoolPage)" "\<And>b. b \<in> set bs \<Longrightarrow> agree m m' (taken_area b)"
    by (rule assms(2); auto simp: areas_def)+
  have "page_chain m' 0 (us @ sp)" using page_chain_agree [of "us @ sp" m m' 0] a(1) assms(1) unfolding layout_def by blast
  moreover have "\<forall>b \<in> set bs. taken_ok m' b" using taken_agree a(2) assms(1) unfolding layout_def by blast
  moreover have "\<forall>A \<in> set (areas page us sp fs' bs). in_range A" using assms(1,5) unfolding layout_def by (auto simp: areas_def)
  ultimately show ?thesis using assms(3,4) unfolding layout_def by blast
qed

lemma layout_area:
  assumes "layout m page fb us sp (pre @ (a, s) # rest) bs"
  shows "\<And>B. B \<in> set (areas page us sp [] bs) \<union> set pre \<union> set rest \<Longrightarrow> apart B (a, s) \<and> in_range B" "in_range (a, s)"
    "sorted_wrt apart (areas page us sp (pre @ rest) bs)"
proof -
  have s: "sorted_wrt apart (areas page us sp (pre @ rest) bs)" "\<forall>B \<in> set (areas page us sp (pre @ rest) bs). apart B (a, s)"
    using assms unfolding layout_def areas_split by blast+
  moreover have r: "\<forall>A \<in> set (areas page us sp (pre @ (a, s) # rest) bs). in_range A" using assms unfolding layout_def by blast
  ultimately show "\<And>B. B \<in> set (areas page us sp [] bs) \<union> set pre \<union> set rest \<Longrightarrow> apart B (a, s) \<and> in_range B" by auto
  show "in_range (a, s)" using r by auto
  show "sorted_wrt apart (areas page us sp (pre @ rest) bs)" by (rule s(1))
qed

lemma layout_free_at:
  assumes "layout m page fb us sp (pre @ (a, s) # rest) bs"
  shows "free_seg m fb pre a" "a \<noteq> 0" "free_size m a = s" "free_seg m (free_next m a) rest 0"
  using assms by (auto simp: layout_def free_seg_append)

lemma in_rangeD: "in_range (a, s) \<Longrightarrow> 0 < a \<and> 16 \<le> s \<and> a + s \<le> 2 ^ 63 \<and> a < 2 ^ 64 \<and> s < 2 ^ 64"
  by (auto simp: in_range_def)

lemma seg_head_bound: "free_seg m p fs 0 \<Longrightarrow> (\<And>A. A \<in> set fs \<Longrightarrow> in_range A) \<Longrightarrow> p < 2 ^ 64"
proof (cases fs)
  case (Cons f gs)
  assume "free_seg m p fs 0" and r: "\<And>A. A \<in> set fs \<Longrightarrow> in_range A"
  then show ?thesis using r [of f] in_rangeD [of "fst f" "snd f"] Cons by simp
qed simp

subsection \<open>Joining free blocks\<close>

lemma join_step:
  assumes l: "layout m page fb us sp (pre @ (a, s) # (a + s, s2) # rest) bs"
  defines "m' \<equiv> write_pair m a (free_size m a + free_size m (free_next m a)) (free_next m (free_next m a))"
  shows "layout m' page fb us sp (pre @ (a, s + s2) # rest) bs" "\<And>b. b \<in> set bs \<Longrightarrow> agree m m' (taken_area b)"
proof -
  note A = layout_area [OF l] and F = layout_free_at [OF l]
  have l2: "layout m page fb us sp ((pre @ [(a, s)]) @ (a + s, s2) # rest) bs" using l by simp
  note B = layout_area [OF l2] and G = layout_free_at [OF l2]
  have nx: "free_next m a = a + s" using F(4) by simp
  have r: "in_range (a, s)" "in_range (a + s, s2)" using A(2) B(2) by simp_all
  then have rm: "in_range (a, s + s2)" by (auto simp: in_range_def)
  have bd: "s + s2 < 2 ^ 64" "free_next m (a + s) < 2 ^ 64"
    using in_rangeD [OF rm] seg_head_bound [OF G(4)] B(1) by auto
  have m': "m' = write_pair m a (s + s2) (free_next m (a + s))" using F(3) G(3) nx by (simp add: m'_def)
  have ag: "agree m m' C" if "C \<in> set (areas page us sp [] bs) \<union> set pre \<union> set rest" for C
    unfolding m' using A(1) [of C] that in_rangeD [OF r(1)] by (intro agree_pair) (auto elim!: apart_within)
  have "free_seg m' fb pre a" by (rule free_seg_agree [OF _ F(1)]) (use A(1) ag in \<open>auto simp: in_range_def\<close>)
  moreover have "free_seg m' (free_next m (a + s)) rest 0" by (rule free_seg_agree [OF _ G(4)]) (use B(1) ag in \<open>auto simp: in_range_def\<close>)
  moreover have "free_size m' a = s + s2" "free_next m' a = free_next m (a + s)"
    using pair_reads [OF bd] by (simp_all add: m' free_size_def free_next_def)
  ultimately have "free_seg m' fb (pre @ (a, s + s2) # rest) 0" using F(2) by (auto simp: free_seg_append)
  moreover have "sorted_wrt apart (areas page us sp (pre @ (a, s + s2) # rest) bs)" unfolding areas_split
  proof
    have "sorted_wrt apart (areas page us sp (pre @ (a + s, s2) # rest) bs)" using A(3) .
    then show "sorted_wrt apart (areas page us sp (pre @ rest) bs)" unfolding areas_split by blast
    show "\<forall>C \<in> set (areas page us sp (pre @ rest) bs). apart C (a, s + s2)"
    proof
      fix C
      assume "C \<in> set (areas page us sp (pre @ rest) bs)"
      then have C: "C \<in> set (areas page us sp [] bs) \<union> set pre \<union> set rest" by simp
      then have "apart C (a, s)" "apart C (a + s, s2)" "in_range C" using A(1) [of C] B(1) [of C] by auto
      then show "apart C (a, s + s2)" using r by (intro apart_merge) (auto simp: in_range_def)
    qed
  qed
  ultimately show "layout m' page fb us sp (pre @ (a, s + s2) # rest) bs"
    using ag A(1) rm by (intro layout_step [OF l]) auto
  show "\<And>b. b \<in> set bs \<Longrightarrow> agree m m' (taken_area b)" using ag by (auto simp: areas_def)
qed

lemma join_free_ok:
  assumes "layout m page fb us sp (pre @ (a, s) # rest) bs"
  shows "\<exists>m' s' rest'. join_free m a = Some m' \<and> layout m' page fb us sp (pre @ (a, s') # rest') bs \<and> length rest' \<le> length rest \<and>
    (\<forall>b \<in> set bs. agree m m' (taken_area b)) \<and> s \<le> s' \<and> \<Union> ((\<lambda>(a, s). {a..<a + s}) ` set ((a, s') # rest')) \<subseteq> \<Union> ((\<lambda>(a, s). {a..<a + s}) ` set ((a, s) # rest))"
  using assms
proof (induction rest arbitrary: m s)
  case Nil
  have "free_next m a = 0" using layout_free_at(4) [OF Nil] by simp
  then have "join_free m a = Some m" by (simp add: join_free.simps)
  then show ?case using Nil by (intro exI [of _ m] exI [of _ s] exI [of _ "[]"]) simp
next
  case (Cons f rest)
  obtain b t where f: "f = (b, t)" by (cases f)
  have nx: "free_next m a = b" "b \<noteq> 0" "free_size m a = s" using layout_free_at [OF Cons.prems] f by auto
  show ?case
  proof (cases "a + s = b")
    case True
    let ?m = "write_pair m a (free_size m a + free_size m (free_next m a)) (free_next m (free_next m a))"
    have st: "layout ?m page fb us sp (pre @ (a, s + t) # rest) bs" "\<And>b. b \<in> set bs \<Longrightarrow> agree m ?m (taken_area b)"
      using join_step [of m page fb us sp pre a s t rest bs] Cons.prems f True by simp_all
    obtain m' s' rest' where IH: "join_free ?m a = Some m'" "layout m' page fb us sp (pre @ (a, s') # rest') bs" "length rest' \<le> length rest"
      "\<forall>b \<in> set bs. agree ?m m' (taken_area b)" "s + t \<le> s'"
      "\<Union> ((\<lambda>(a, s). {a..<a + s}) ` set ((a, s') # rest')) \<subseteq> \<Union> ((\<lambda>(a, s). {a..<a + s}) ` set ((a, s + t) # rest))"
      using Cons.IH [OF st(1)] by blast
    have "join_free m a = Some m'" using IH(1) nx True by (simp add: join_free.simps [of m a])
    moreover have "{a..<a + (s + t)} \<subseteq> {a..<a + s} \<union> {b..<b + t}" using True by auto
    then have "\<Union> ((\<lambda>(a, s). {a..<a + s}) ` set ((a, s + t) # rest)) \<subseteq> \<Union> ((\<lambda>(a, s). {a..<a + s}) ` set ((a, s) # f # rest))"
      by (auto simp: f)
    ultimately show ?thesis using IH st(2) by (intro exI [of _ m'] exI [of _ s'] exI [of _ rest']) (auto intro: agree_trans)
  next
    case False
    then have "join_free m a = Some m" using nx by (simp add: join_free.simps)
    then show ?thesis using Cons.prems by (intro exI [of _ m] exI [of _ s] exI [of _ "f # rest"]) simp
  qed
qed

subsection \<open>Relinking the free list\<close>

definition last_ptr :: "area list \<Rightarrow> nat" where
  "last_ptr pre = (if pre = [] then 0 else fst (last pre))"

lemma link_free_seg:
  assumes "free_seg (pl_memory P) (pl_free_block P) pre r" and "\<And>A. A \<in> set pre \<Longrightarrow> in_range A" and "sorted_wrt apart pre" and "blk < 2 ^ 64"
  defines "Q \<equiv> link_free P (last_ptr pre) blk"
  shows "free_seg (pl_memory Q) (pl_free_block Q) pre blk"
    and "\<And>A. (\<And>B. B \<in> set pre \<Longrightarrow> apart A B) \<Longrightarrow> agree (pl_memory P) (pl_memory Q) A"
    and "pl_page Q = pl_page P" "pl_current Q = pl_current P" "pl_auxiliary Q = pl_auxiliary P" "pl_pages Q = pl_pages P"
proof -
  show "pl_page Q = pl_page P" "pl_current Q = pl_current P" "pl_auxiliary Q = pl_auxiliary P" "pl_pages Q = pl_pages P"
    by (simp_all add: Q_def link_free_def)
  have "free_seg (pl_memory Q) (pl_free_block Q) pre blk \<and> (\<forall>A. (\<forall>B \<in> set pre. apart A B) \<longrightarrow> agree (pl_memory P) (pl_memory Q) A)"
  proof (cases pre rule: rev_cases)
    case Nil
    then show ?thesis by (simp add: Q_def link_free_def last_ptr_def)
  next
    case (snoc pre' f)
    obtain a s where f: "f = (a, s)" by (cases f)
    have r: "in_range (a, s)" using assms(2) snoc f by simp
    have seg: "free_seg (pl_memory P) (pl_free_block P) pre' a" "free_size (pl_memory P) a = s" using assms(1) snoc f by (auto simp: free_seg_append)
    let ?m = "write64 (pl_memory P) (a + 8) blk"
    have Q: "pl_memory Q = ?m" "pl_free_block Q = pl_free_block P" using snoc f r by (auto simp: Q_def link_free_def last_ptr_def in_range_def)
    have ag: "agree (pl_memory P) ?m A" if "apart A (a, s)" for A
      using that in_rangeD [OF r] by (intro agree_write) (auto elim!: apart_within)
    have "free_seg ?m (pl_free_block P) pre' a"
      by (rule free_seg_agree [OF _ seg(1)]) (use assms(2,3) snoc f ag in \<open>auto simp: in_range_def sorted_wrt_append\<close>)
    moreover have "free_size ?m a = s" "free_next ?m a = blk" using seg(2) assms(4) by (simp_all add: free_size_def free_next_def read_write_other)
    ultimately show ?thesis using Q snoc f r ag by (auto simp: free_seg_append in_range_def)
  qed
  then show "free_seg (pl_memory Q) (pl_free_block Q) pre blk"
    and "\<And>A. (\<And>B. B \<in> set pre \<Longrightarrow> apart A B) \<Longrightarrow> agree (pl_memory P) (pl_memory Q) A" by blast+
qed

lemma areas_pre: "sorted_wrt apart (areas page us sp (pre @ fs) bs) \<Longrightarrow> sorted_wrt apart pre \<and>
   (\<forall>A \<in> set (areas page us sp [] bs) \<union> set fs. \<forall>B \<in> set pre. apart A B)"
proof -
  let ?u = "map (\<lambda>p. (p, sizeof_PoolPage)) (us @ sp) @ map (\<lambda>p. (p + sizeof_PoolPage, page)) sp"
  assume "sorted_wrt apart (areas page us sp (pre @ fs) bs)"
  then have "sorted_wrt apart (?u @ pre @ (fs @ map taken_area bs))" by (simp add: areas_def)
  then have s: "sorted_wrt apart pre" "\<forall>A \<in> set ?u. \<forall>B \<in> set pre. apart A B" "\<forall>A \<in> set (fs @ map taken_area bs). \<forall>B \<in> set pre. apart B A"
    unfolding sorted_wrt_append by (simp_all only: set_append) blast+
  have "set (areas page us sp [] bs) \<union> set fs = set ?u \<union> set (fs @ map taken_area bs)" by (auto simp: areas_def)
  then show ?thesis using s apart_sym by blast
qed

text \<open>The free list keeps the blocks before a point and goes on with another sublist of areas.\<close>

lemma relink:
  assumes l: "layout (pl_memory P) page (pl_free_block P) us sp (pre @ fs) bs"
    and fs': "free_seg (pl_memory P) blk fs' 0" "\<And>A. A \<in> set fs' \<Longrightarrow> in_range A" "sorted_wrt apart (areas page us sp (pre @ fs') bs)"
  defines "Q \<equiv> link_free P (last_ptr pre) blk"
  shows "layout (pl_memory Q) page (pl_free_block Q) us sp (pre @ fs') bs"
    "\<forall>A. (\<forall>B \<in> set pre. apart A B) \<longrightarrow> agree (pl_memory P) (pl_memory Q) A"
proof -
  obtain r where seg: "free_seg (pl_memory P) (pl_free_block P) pre r" using l by (auto simp: layout_def free_seg_append)
  have rg: "\<And>A. A \<in> set pre \<Longrightarrow> in_range A" using l by (auto simp: layout_def)
  have so: "sorted_wrt apart pre" "\<forall>A \<in> set (areas page us sp [] bs) \<union> set fs'. \<forall>B \<in> set pre. apart A B"
    using areas_pre [OF fs'(3)] by blast+
  note L = link_free_seg [OF seg rg so(1) seg_head_bound [OF fs'(1,2)], folded Q_def]
  have ag: "agree (pl_memory P) (pl_memory Q) A" if "\<And>B. B \<in> set pre \<Longrightarrow> apart A B" for A using that L(2) by blast
  then show "\<forall>A. (\<forall>B \<in> set pre. apart A B) \<longrightarrow> agree (pl_memory P) (pl_memory Q) A" by blast
  have "free_seg (pl_memory Q) blk fs' 0"
    by (rule free_seg_agree [OF _ fs'(1)]) (use so(2) ag fs'(2) in \<open>auto simp: in_range_def\<close>)
  then have "free_seg (pl_memory Q) (pl_free_block Q) (pre @ fs') 0" using L(1) by (auto simp: free_seg_append)
  then show "layout (pl_memory Q) page (pl_free_block Q) us sp (pre @ fs') bs"
    using so(2) ag fs'(2,3) rg by (intro layout_step [OF l]) auto
qed

lemma areas_drop: "sorted_wrt apart (areas page us sp (pre @ fs) bs) \<Longrightarrow> sorted_wrt apart (areas page us sp pre bs)"
proof -
  let ?u = "map (\<lambda>p. (p, sizeof_PoolPage)) (us @ sp) @ map (\<lambda>p. (p + sizeof_PoolPage, page)) sp @ pre"
  assume "sorted_wrt apart (areas page us sp (pre @ fs) bs)"
  then have "sorted_wrt apart (?u @ fs @ map taken_area bs)" by (simp add: areas_def)
  then have "sorted_wrt apart (?u @ map taken_area bs)" by (simp only: sorted_wrt_append [of _ ?u] sorted_wrt_append [of _ fs] set_append) blast
  then show ?thesis by (simp add: areas_def)
qed

subsection \<open>Taking a block\<close>

lemma layout_taken:
  assumes l: "layout m page fb us sp fs bs" and b: "in_range (taken_area b)" "\<And>B. B \<in> set (areas page us sp fs bs) \<Longrightarrow> apart B (taken_area b)"
    and ag: "\<And>B. B \<in> set (areas page us sp fs bs) \<Longrightarrow> agree m m' B" and ok: "taken_ok m' b"
  shows "layout m' page fb us sp fs (b # bs)"
proof -
  have "\<And>B. B \<in> set (areas page us sp [] bs) \<union> set fs \<Longrightarrow> agree m m' B" using ag set_areas(1) [of page us sp fs "[]" bs] by simp
  moreover have "free_seg m' fb fs 0"
    by (rule free_seg_agree [of _ m]) (use l calculation in \<open>auto simp: layout_def in_range_def areas_def\<close>)
  ultimately have l': "layout m' page fb us sp fs bs" using l by (intro layout_step [OF l]) (auto simp: layout_def areas_def)
  then show ?thesis using b ok unfolding layout_def areas_taken set_areas(3) by simp
qed

lemma pool_take_ok:
  assumes l: "layout (pl_memory P) page (pl_free_block P) us sp (pre @ (a, s) # rest) bs"
    and n: "n + adj \<le> s" "sizeof_AllocBlock \<le> adj"
  shows "\<exists>P' fs' b. pool_take P (last_ptr pre) a n adj = (a + adj, P') \<and> layout (pl_memory P') page (pl_free_block P') us sp fs' (b # bs) \<and>
    tk_ptr b = a + adj \<and> tk_size b = n \<and> (\<forall>c \<in> set bs. agree (pl_memory P) (pl_memory P') (taken_area c)) \<and>
    (\<forall>A \<in> insert (taken_area b) (set fs'). \<exists>B \<in> set (pre @ (a, s) # rest). fst B \<le> fst A \<and> fst A + snd A \<le> fst B + snd B) \<and>
    pl_page P' = pl_page P \<and> pl_current P' = pl_current P \<and> pl_auxiliary P' = pl_auxiliary P \<and> pl_pages P' = pl_pages P"
proof -
  note A = layout_area [OF l] and F = layout_free_at [OF l]
  have r: "in_range (a, s)" by (rule A(2))
  then have bd: "a + s \<le> 2 ^ 63" "16 \<le> s" by (auto simp: in_range_def)
  have adj: "16 \<le> adj" using n(2) by (simp add: sizeof_AllocBlock_def)
  let ?m = "pl_memory P" and ?nx = "free_next (pl_memory P) a"
  have so: "sorted_wrt apart (areas page us sp (pre @ rest) bs)" by (rule A(3))
  have rr: "\<And>B. B \<in> set rest \<Longrightarrow> in_range B" using A(1) by blast
  define part where "part = (n + adj < s \<and> 16 < s - (n + adj))"
  define ar where "ar = (if part then n + adj else s)"
  define b where "b = \<lparr> tk_ptr = a + adj, tk_start = a, tk_area = ar, tk_size = n \<rparr>"
  define fs2 where "fs2 = (if part then [(a + ar, s - ar)] else [])"
  define Q1 where "Q1 = (if part then P\<lparr> pl_memory := write_pair ?m (a + ar) (s - ar) ?nx \<rparr> else P)"
  define Q2 where "Q2 = link_free Q1 (last_ptr pre) (if part then a + ar else ?nx)"
  define P' where "P' = pool_count n (Q2\<lparr> pl_memory := write_pair (pl_memory Q2) (a + adj - 16) ar adj \<rparr>)"
  have ar: "n + adj \<le> ar" "ar \<le> s" "part \<Longrightarrow> ar + 16 < s" using n by (auto simp: ar_def part_def)
  have eq: "pool_take P (last_ptr pre) a n adj = (a + adj, P')"
    using F(3) n by (auto simp: pool_take_def Let_def P'_def Q2_def Q1_def ar_def part_def sizeof_AllocBlock_def)
  have ag1: "agree ?m (pl_memory Q1) B" if "B \<in> set (areas page us sp [] bs) \<union> set pre \<union> set rest" for B
    using A(1) [OF that] ar by (auto simp: Q1_def intro!: agree_pair elim!: apart_within)
  have Q1: "pl_free_block Q1 = pl_free_block P" "pl_page Q1 = pl_page P" "pl_current Q1 = pl_current P" "pl_auxiliary Q1 = pl_auxiliary P" "pl_pages Q1 = pl_pages P"
    by (simp_all add: Q1_def)
  have hd: "?nx < 2 ^ 64" by (rule seg_head_bound [OF F(4) rr])
  have seg: "free_seg (pl_memory Q1) (if part then a + ar else ?nx) (fs2 @ rest) 0"
  proof -
    have "free_seg (pl_memory Q1) ?nx rest 0"
      by (rule free_seg_agree [OF _ F(4)]) (use ag1 rr in \<open>auto simp: in_range_def\<close>)
    moreover have "part \<Longrightarrow> free_size (pl_memory Q1) (a + ar) = s - ar \<and> free_next (pl_memory Q1) (a + ar) = ?nx"
      using pair_reads [of "s - ar" ?nx ?m "a + ar"] hd bd by (simp add: Q1_def free_size_def free_next_def)
    ultimately show ?thesis using F(2) by (simp add: fs2_def)
  qed
  have fr: "\<And>B. B \<in> set (fs2 @ rest) \<Longrightarrow> in_range B" using rr ar bd r by (auto simp: fs2_def in_range_def)
  have so2: "sorted_wrt apart (areas page us sp (pre @ fs2 @ rest) bs)"
  proof (cases part)
    case True
    have "\<forall>B \<in> set (areas page us sp (pre @ rest) bs). apart B (a + ar, s - ar)"
    proof
      fix B
      assume "B \<in> set (areas page us sp (pre @ rest) bs)"
      then have "apart B (a, s)" using A(1) [of B] by simp
      then show "apart B (a + ar, s - ar)" using ar by (rule_tac apart_within) auto
    qed
    then show ?thesis using True so by (simp add: fs2_def areas_split)
  qed (use so in \<open>simp add: fs2_def\<close>)
  have l1: "layout (pl_memory Q1) page (pl_free_block Q1) us sp (pre @ (a, s) # rest) bs"
  proof (rule layout_step [OF l])
    have "agree ?m (pl_memory Q1) (a, 16)" using ar adj by (auto simp: Q1_def intro!: agree_pair)
    then have "free_size (pl_memory Q1) a = s" "free_next (pl_memory Q1) a = ?nx" using free_agree [of ?m "pl_memory Q1" a 16] F(3) by simp_all
    moreover have "free_seg (pl_memory Q1) (pl_free_block P) pre a"
      by (rule free_seg_agree [OF _ F(1)]) (use ag1 A(1) in \<open>auto simp: in_range_def\<close>)
    moreover have "free_seg (pl_memory Q1) ?nx rest 0"
      by (rule free_seg_agree [OF _ F(4)]) (use ag1 rr in \<open>auto simp: in_range_def\<close>)
    ultimately show "free_seg (pl_memory Q1) (pl_free_block Q1) (pre @ (a, s) # rest) 0" using F(2) Q1 by (auto simp: free_seg_append)
    show "sorted_wrt apart (areas page us sp (pre @ (a, s) # rest) bs)" using l by (simp add: layout_def)
  qed (use ag1 A(1) r in auto)
  note R = relink [OF l1 seg fr so2, folded Q2_def]
  have up: "apart B (a, ar)" if "B \<in> set (areas page us sp (pre @ fs2 @ rest) bs)" for B
  proof (cases "B \<in> set fs2")
    case True
    then show ?thesis by (auto simp: fs2_def split: if_splits)
  next
    case False
    then have "apart B (a, s)" using that A(1) [of B] by auto
    then show ?thesis using ar by (rule_tac apart_within) auto
  qed
  have w: "(a + adj - 16) + 16 = a + adj" "a \<le> a + adj - 16" using adj by simp_all
  have ta: "taken_area b = (a, ar)" by (simp add: b_def taken_area_def)
  let ?m3 = "write_pair (pl_memory Q2) (a + adj - 16) ar adj"
  have ag3: "agree (pl_memory Q2) ?m3 B" if "B \<in> set (areas page us sp (pre @ fs2 @ rest) bs)" for B
    by (rule agree_pair) (use up [OF that] w ar in \<open>auto elim!: apart_within\<close>)
  have "a + adj - 16 + 8 = a + adj - 8" using adj by simp
  then have ok: "taken_ok ?m3 b" using pair_reads [of ar adj "pl_memory Q2" "a + adj - 16"] ar bd adj
    by (simp add: taken_ok_def b_def sizeof_AllocBlock_def)
  have l3: "layout ?m3 page (pl_free_block Q2) us sp (pre @ fs2 @ rest) (b # bs)"
    by (rule layout_taken [OF R(1) _ _ ag3 ok]) (use up ta r ar adj in \<open>auto simp: in_range_def\<close>)
  have P': "pl_memory P' = ?m3" "pl_free_block P' = pl_free_block Q2" by (simp_all add: P'_def pool_count_def)
  have cont: "agree ?m (pl_memory P') (taken_area c)" if "c \<in> set bs" for c
  proof -
    have c: "taken_area c \<in> set (areas page us sp [] bs)" using that by (simp add: areas_def)
    have pc: "\<And>B. B \<in> set pre \<Longrightarrow> apart (taken_area c) B" using areas_pre [OF so] c by blast
    have "agree (pl_memory Q1) (pl_memory Q2) (taken_area c)" using R(2) pc by blast
    then show ?thesis using ag1 [of "taken_area c"] ag3 [of "taken_area c"] c unfolding P'(1) by (auto intro: agree_trans)
  qed
  have sub: "\<exists>B \<in> set (pre @ (a, s) # rest). fst B \<le> fst C \<and> fst C + snd C \<le> fst B + snd B" if "C \<in> insert (taken_area b) (set (pre @ fs2 @ rest))" for C
    using that ta ar by (cases "C \<in> set pre \<union> set rest") (auto simp: fs2_def split: if_splits intro: bexI [of _ C] bexI [of _ "(a, s)"])
  have rest: "pl_page P' = pl_page P" "pl_current P' = pl_current P" "pl_auxiliary P' = pl_auxiliary P" "pl_pages P' = pl_pages P"
    using Q1 by (simp_all add: P'_def pool_count_def Q2_def link_free_def)
  show ?thesis
    by (rule exI [of _ P'], rule exI [of _ "pre @ fs2 @ rest"], rule exI [of _ b])
      (use eq l3 P' cont sub rest in \<open>auto simp: b_def\<close>)
qed

subsection \<open>Releasing a block\<close>

lemma taken_in_areas: "c \<in> set bs \<Longrightarrow> taken_area c \<in> set (areas page us sp fs bs)"
  by (simp add: areas_def)

lemma apart_insert:
  "sorted_wrt apart (xs @ A # ys) \<longleftrightarrow> sorted_wrt apart (xs @ ys) \<and> (\<forall>B \<in> set xs \<union> set ys. apart B A)"
  unfolding sorted_wrt_append sorted_wrt.simps list.set using apart_sym by blast

lemma apart_move: "sorted_wrt apart (u @ x @ A # y) \<longleftrightarrow> sorted_wrt apart (u @ A # x @ y)"
  using apart_insert [of "u @ x" A y] apart_insert [of u A "x @ y"] by auto

lemma areas_untake:
  "sorted_wrt apart (areas page us sp fs (bs1 @ b # bs2)) \<longleftrightarrow> sorted_wrt apart (areas page us sp (taken_area b # fs) (bs1 @ bs2))"
proof -
  let ?u = "map (\<lambda>p. (p, sizeof_PoolPage)) (us @ sp) @ map (\<lambda>p. (p + sizeof_PoolPage, page)) sp"
  show ?thesis using apart_move [of ?u "fs @ map taken_area bs1" "taken_area b" "map taken_area bs2"] by (simp add: areas_def)
qed

lemma release_ok:
  assumes l: "layout (pl_memory P) page (pl_free_block P) us sp fs (bs1 @ b # bs2)"
  shows "\<exists>fs'. layout (pl_memory (release_block P (tk_ptr b))) page (pl_free_block (release_block P (tk_ptr b))) us sp fs' (bs1 @ bs2) \<and>
    (\<forall>c \<in> set (bs1 @ bs2). agree (pl_memory P) (pl_memory (release_block P (tk_ptr b))) (taken_area c)) \<and>
    (\<forall>A \<in> set fs'. {fst A..<fst A + snd A} \<subseteq> \<Union> ((\<lambda>(a, s). {a..<a + s}) ` (insert (taken_area b) (set fs))))"
proof -
  let ?m = "pl_memory P" and ?old = "pl_free_block P"
  obtain st ar where sa: "taken_area b = (st, ar)" by (cases "taken_area b")
  have b: "taken_ok ?m b" using l by (simp add: layout_def)
  then have bk: "st + 16 \<le> tk_ptr b" "read64 ?m (tk_ptr b - 16) = ar" "read64 ?m (tk_ptr b - 8) = tk_ptr b - st" "tk_ptr b - 16 + 8 = tk_ptr b - 8"
    using sa by (auto simp: taken_ok_def taken_area_def sizeof_AllocBlock_def)
  have fr: "\<And>A. A \<in> set fs \<Longrightarrow> in_range A" using l by (auto simp: layout_def areas_def)
  have seg: "free_seg ?m ?old fs 0" using l by (simp add: layout_def)
  have so1: "sorted_wrt apart (areas page us sp ((st, ar) # fs) (bs1 @ bs2))" using l unfolding layout_def areas_untake sa by blast
  have rb: "in_range (st, ar)" using l sa by (auto simp: layout_def areas_def)
  have so: "sorted_wrt apart (areas page us sp fs (bs1 @ bs2))" "\<forall>C \<in> set (areas page us sp fs (bs1 @ bs2)). apart C (st, ar)"
    using so1 areas_split [of page us sp "[]" "(st, ar)" fs "bs1 @ bs2"] by simp_all
  have C0: "set (areas page us sp fs (bs1 @ bs2)) = set (areas page us sp [] (bs1 @ bs2)) \<union> set fs" using set_areas(1) [of page us sp fs "[]"] by simp
  let ?m1 = "write_pair ?m st ar ?old"
  have old: "?old < 2 ^ 64" by (rule seg_head_bound [OF seg fr])
  have ag1: "agree ?m ?m1 C" if "C \<in> set (areas page us sp fs (bs1 @ bs2))" for C
    by (rule agree_pair) (use so(2) that in_rangeD [OF rb] in \<open>auto elim!: apart_within\<close>)
  have rd1: "free_size ?m1 st = ar" "free_next ?m1 st = ?old"
    using pair_reads [of ar ?old ?m st] old in_rangeD [OF rb] by (simp_all add: free_size_def free_next_def)
  have lb: "layout ?m page ?old us sp fs (bs1 @ bs2)" using l so(1) unfolding layout_def by (auto simp: areas_def)
  have seg1: "free_seg ?m1 ?old fs 0" by (rule free_seg_agree [OF _ seg]) (use ag1 fr C0 in \<open>auto simp: in_range_def\<close>)
  have l1: "layout ?m1 page st us sp ((st, ar) # fs) (bs1 @ bs2)"
    by (rule layout_step [OF lb]) (use ag1 C0 seg1 rd1 so1 rb fr in \<open>auto simp: in_range_def\<close>)
  have rel: "release_block P (tk_ptr b) =
      (if ?old \<noteq> 0 then
         if ?old + free_size ?m1 ?old = st
         then P\<lparr> pl_memory := write64 ?m1 ?old (free_size ?m1 ?old + free_size ?m1 st), pl_free_block := ?old \<rparr>
         else if ?old = st + ar
         then P\<lparr> pl_memory := write_pair ?m1 st (free_size ?m1 st + free_size ?m1 ?old) (free_next ?m1 ?old), pl_free_block := st \<rparr>
         else P\<lparr> pl_memory := ?m1, pl_free_block := st \<rparr>
       else P\<lparr> pl_memory := ?m1, pl_free_block := st \<rparr>)"
    using bk by (simp add: release_block_def Let_def sizeof_AllocBlock_def)
  have agc: "\<forall>c \<in> set (bs1 @ bs2). agree ?m ?m1 (taken_area c)" using ag1 taken_in_areas by blast
  have keep: ?thesis if "release_block P (tk_ptr b) = P\<lparr> pl_memory := ?m1, pl_free_block := st \<rparr>"
    unfolding that using l1 agc sa by (intro exI [of _ "(st, ar) # fs"]) auto
  show ?thesis
  proof (cases fs)
    case Nil
    then show ?thesis using keep rel seg by simp
  next
    case (Cons f rest)
    obtain s where f: "f = (?old, s)" "?old \<noteq> 0" "free_size ?m1 ?old = s" using seg1 Cons by (cases f) auto
    have ro: "in_range (?old, s)" using fr f Cons by simp
    consider "?old + s = st" | "?old + s \<noteq> st" "?old = st + ar" | "?old + s \<noteq> st" "?old \<noteq> st + ar" by blast
    then show ?thesis
    proof cases
      case 1
      let ?m2 = "write64 ?m1 ?old (s + ar)"
      have r: "release_block P (tk_ptr b) = P\<lparr> pl_memory := ?m2, pl_free_block := ?old \<rparr>" using rel f 1 rd1 by simp
      have l1': "layout ?m1 page st us sp ([(st, ar)] @ (?old, s) # rest) (bs1 @ bs2)" using l1 Cons f by simp
      note A = layout_area [OF l1'] and F = layout_free_at [OF l1']
      have so2: "\<forall>C \<in> set (areas page us sp [] (bs1 @ bs2)) \<union> set rest. apart C (?old, s) \<and> apart C (st, ar) \<and> in_range C"
      proof
        fix C
        assume C: "C \<in> set (areas page us sp [] (bs1 @ bs2)) \<union> set rest"
        then have "C \<in> set (areas page us sp fs (bs1 @ bs2))" unfolding C0 using Cons by auto
        then show "apart C (?old, s) \<and> apart C (st, ar) \<and> in_range C" using A(1) [of C] C so(2) by blast
      qed
      have rm: "in_range (?old, s + ar)" using ro rb 1 by (auto simp: in_range_def)
      have ag2: "agree ?m1 ?m2 C" if "C \<in> set (areas page us sp [] (bs1 @ bs2)) \<union> set rest" for C
      proof (rule agree_write)
        have "apart C (?old, s)" using so2 that by blast
        then show "apart C (?old, 8)" using in_rangeD [OF ro] by (rule_tac apart_within) auto
      qed
      have "free_size ?m2 ?old = s + ar" "free_next ?m2 ?old = free_next ?m1 ?old"
        using in_rangeD [OF rm] by (simp_all add: free_size_def free_next_def read_write_other)
      moreover have "free_seg ?m2 (free_next ?m1 ?old) rest 0"
        by (rule free_seg_agree [OF _ F(4)]) (use ag2 so2 in \<open>auto simp: in_range_def\<close>)
      ultimately have "free_seg ?m2 ?old ((?old, s + ar) # rest) 0" using f(2) by simp
      moreover have "sorted_wrt apart (areas page us sp ([] @ (?old, s + ar) # rest) (bs1 @ bs2))" unfolding areas_split
      proof
        show "sorted_wrt apart (areas page us sp ([] @ rest) (bs1 @ bs2))"
          using so(1) areas_split [of page us sp "[]" f rest "bs1 @ bs2"] Cons by simp
        show "\<forall>C \<in> set (areas page us sp ([] @ rest) (bs1 @ bs2)). apart C (?old, s + ar)"
        proof
          fix C
          assume "C \<in> set (areas page us sp ([] @ rest) (bs1 @ bs2))"
          then have "apart C (?old, s)" "apart C (?old + s, ar)" "in_range C"
            using so2 1 set_areas(1) [of page us sp rest "[]"] by auto
          then show "apart C (?old, s + ar)" using ro rb by (intro apart_merge) (auto simp: in_range_def)
        qed
      qed
      ultimately have l2: "layout ?m2 page ?old us sp ((?old, s + ar) # rest) (bs1 @ bs2)"
        using ag2 so2 rm by (intro layout_step [OF l1]) auto
      have cont: "\<forall>c \<in> set (bs1 @ bs2). agree ?m ?m2 (taken_area c)"
        using agc ag2 taken_in_areas agree_trans by blast
      have "{?old..<?old + (s + ar)} \<subseteq> {?old..<?old + s} \<union> {st..<st + ar}" using 1 by auto
      then have cov: "\<forall>A \<in> set ((?old, s + ar) # rest). {fst A..<fst A + snd A} \<subseteq> \<Union> ((\<lambda>(a, s). {a..<a + s}) ` (insert (taken_area b) (set fs)))"
        using Cons f(1) sa by auto
      show ?thesis unfolding r using l2 cont cov by (intro exI [of _ "(?old, s + ar) # rest"]) simp
    next
      case 2
      have l1': "layout ?m1 page st us sp ([] @ (st, ar) # (st + ar, s) # rest) (bs1 @ bs2)" using l1 Cons f(1) 2 by simp
      note J = join_step [OF l1', unfolded rd1]
      have r: "release_block P (tk_ptr b) = P\<lparr> pl_memory := write_pair ?m1 st (ar + free_size ?m1 ?old) (free_next ?m1 ?old), pl_free_block := st \<rparr>"
      proof -
        have n1: "\<not> ?old + free_size ?m1 ?old = st" using f(3) 2(1) by simp
        show ?thesis unfolding rel if_P [OF f(2)] if_not_P [OF n1] if_P [OF 2(2)] rd1(1) by (rule refl)
      qed
      have cont: "\<forall>c \<in> set (bs1 @ bs2). agree ?m (write_pair ?m1 st (ar + free_size ?m1 ?old) (free_next ?m1 ?old)) (taken_area c)"
        using J(2) agc agree_trans by blast
      have "{st..<st + (ar + s)} \<subseteq> {st..<st + ar} \<union> {?old..<?old + s}" using 2 by auto
      then have cov: "\<forall>A \<in> set ((st, ar + s) # rest). {fst A..<fst A + snd A} \<subseteq> \<Union> ((\<lambda>(a, s). {a..<a + s}) ` (insert (taken_area b) (set fs)))"
        using Cons f(1) sa by auto
      show ?thesis unfolding r using J(1) cont cov by (intro exI [of _ "(st, ar + s) # rest"]) simp
    next
      case 3
      then show ?thesis using keep rel f by simp
    qed
  qed
qed

subsection \<open>New pages\<close>

text \<open>The buffer of a page becomes the last block of the free list.\<close>

lemma activate:
  assumes l: "layout (pl_memory P) (pl_page P) (pl_free_block P) us sp (pre @ fs) bs"
    and p: "page_buffer (pl_memory P) (pl_current P) = x" "in_range (x, pl_page P)"
    and ap: "\<And>B. B \<in> set (areas (pl_page P) us sp (pre @ fs) bs) \<Longrightarrow> apart B (x, pl_page P)"
  defines "Q \<equiv> link_free (fresh_block P) (last_ptr pre) x"
  shows "layout (pl_memory Q) (pl_page P) (pl_free_block Q) us sp (pre @ [(x, pl_page P)]) bs"
    "\<forall>b \<in> set bs. agree (pl_memory P) (pl_memory Q) (taken_area b)"
    "page_buffer (pl_memory (fresh_block P)) (pl_current P) = x \<or> pl_current P \<notin> set (us @ sp)"
proof -
  let ?m1 = "write_pair (pl_memory P) x (pl_page P) 0"
  have F: "pl_memory (fresh_block P) = ?m1" "pl_free_block (fresh_block P) = pl_free_block P" using p(1) by (simp_all add: fresh_block_def)
  have ag: "agree (pl_memory P) ?m1 B" if "B \<in> set (areas (pl_page P) us sp (pre @ fs) bs)" for B
  proof (rule agree_pair)
    show "apart B (x, 16)" using ap [OF that] in_rangeD [OF p(2)] by (rule_tac apart_within) auto
  qed
  have rd: "free_size ?m1 x = pl_page P" "free_next ?m1 x = 0"
    using pair_reads [of "pl_page P" 0 "pl_memory P" x] in_rangeD [OF p(2)] by (simp_all add: free_size_def free_next_def)
  have l1: "layout (pl_memory (fresh_block P)) (pl_page P) (pl_free_block (fresh_block P)) us sp (pre @ fs) bs" unfolding F
  proof (rule layout_step [OF l])
    show "free_seg ?m1 (pl_free_block P) (pre @ fs) 0"
      by (rule free_seg_agree [of _ "pl_memory P"]) (use l ag in \<open>auto simp: layout_def in_range_def\<close>)
  qed (use l ag in \<open>auto simp: layout_def\<close>)
  have so: "sorted_wrt apart (areas (pl_page P) us sp (pre @ [(x, pl_page P)]) bs)"
    unfolding areas_split
  proof
    show "sorted_wrt apart (areas (pl_page P) us sp (pre @ []) bs)"
      using areas_drop [of "pl_page P" us sp pre fs bs] l by (simp add: layout_def)
    show "\<forall>B \<in> set (areas (pl_page P) us sp (pre @ []) bs). apart B (x, pl_page P)"
    proof
      fix B
      assume "B \<in> set (areas (pl_page P) us sp (pre @ []) bs)"
      then have "B \<in> set (areas (pl_page P) us sp (pre @ fs) bs)" by (simp only: set_areas) auto
      then show "apart B (x, pl_page P)" by (rule ap)
    qed
  qed
  have seg: "free_seg (pl_memory (fresh_block P)) x [(x, pl_page P)] 0" using rd in_rangeD [OF p(2)] F by simp
  have ri: "\<And>A. A \<in> set [(x, pl_page P)] \<Longrightarrow> in_range A" using p(2) by simp
  note R = relink [OF l1 seg ri so, folded Q_def]
  show "layout (pl_memory Q) (pl_page P) (pl_free_block Q) us sp (pre @ [(x, pl_page P)]) bs" by (rule R(1))
  show "\<forall>b \<in> set bs. agree (pl_memory P) (pl_memory Q) (taken_area b)"
  proof
    fix b
    assume "b \<in> set bs"
    then have b: "taken_area b \<in> set (areas (pl_page P) us sp [] bs)" by (rule taken_in_areas)
    have "\<forall>B \<in> set pre. apart (taken_area b) B" using areas_pre [OF so] b by blast
    then have "agree (pl_memory (fresh_block P)) (pl_memory Q) (taken_area b)" using R(2) by blast
    then show "agree (pl_memory P) (pl_memory Q) (taken_area b)" using ag [of "taken_area b"] b F agree_trans by auto
  qed
  show "page_buffer (pl_memory (fresh_block P)) (pl_current P) = x \<or> pl_current P \<notin> set (us @ sp)"
  proof (cases "pl_current P \<in> set (us @ sp)")
    case True
    then have "(pl_current P, sizeof_PoolPage) \<in> set (areas (pl_page P) us sp (pre @ fs) bs)" by (auto simp: areas_def)
    then have "agree (pl_memory P) ?m1 (pl_current P, 8)" using ag agree_within [of _ _ "pl_current P" sizeof_PoolPage "pl_current P" 8]
      by (auto simp: sizeof_PoolPage_def)
    then show ?thesis using p(1) F agree_read by (simp add: page_buffer_def)
  qed simp
qed

lemma areas_spare:
  "sorted_wrt apart (areas page us (p # sp) fs bs) \<longleftrightarrow> sorted_wrt apart (areas page (us @ [p]) sp fs bs) \<and>
   (\<forall>B \<in> set (areas page (us @ [p]) sp fs bs). apart B (p + sizeof_PoolPage, page))"
proof -
  let ?u = "map (\<lambda>p. (p, sizeof_PoolPage)) (us @ p # sp)" and ?v = "map (\<lambda>p. (p + sizeof_PoolPage, page)) sp @ fs @ map taken_area bs"
  have "areas page us (p # sp) fs bs = ?u @ (p + sizeof_PoolPage, page) # ?v" "areas page (us @ [p]) sp fs bs = ?u @ ?v"
    by (simp_all add: areas_def)
  then show ?thesis by (simp only: apart_insert set_append)
qed

lemma layout_spare:
  assumes "layout m page fb us (p # sp) fs bs"
  shows "layout m page fb (us @ [p]) sp fs bs" "in_range (p + sizeof_PoolPage, page)" "page_buffer m p = p + sizeof_PoolPage"
    "\<And>B. B \<in> set (areas page (us @ [p]) sp fs bs) \<Longrightarrow> apart B (p + sizeof_PoolPage, page)"
proof -
  have so: "sorted_wrt apart (areas page (us @ [p]) sp fs bs)" "\<forall>B \<in> set (areas page (us @ [p]) sp fs bs). apart B (p + sizeof_PoolPage, page)"
    using assms unfolding layout_def areas_spare by blast+
  then show "layout m page fb (us @ [p]) sp fs bs" using assms unfolding layout_def by (auto simp: areas_def)
  show "in_range (p + sizeof_PoolPage, page)" using assms unfolding layout_def by (auto simp: areas_def)
  have "page_chain m q (xs @ p # ys) \<Longrightarrow> page_buffer m p = p + sizeof_PoolPage" for q xs ys by (induction xs arbitrary: q) auto
  then show "page_buffer m p = p + sizeof_PoolPage" using assms unfolding layout_def by blast
  show "\<And>B. B \<in> set (areas page (us @ [p]) sp fs bs) \<Longrightarrow> apart B (p + sizeof_PoolPage, page)" using so(2) by blast
qed

lemma page_next_current:
  assumes "page_chain m prev (us @ [c] @ sp)"
  shows "page_next m c = (case sp of [] \<Rightarrow> 0 | p # _ \<Rightarrow> p)" "c \<noteq> 0"
  using assms by (induction us arbitrary: prev) auto

lemma chain_extend:
  assumes "page_chain m prev (xs @ [c])" "\<forall>q \<in> set xs. agree m m' (q, sizeof_PoolPage)" "page_buffer m' c = page_buffer m c"
    "page_prev m' c = page_prev m c" "page_next m' c = p" "page_chain m' c [p]"
  shows "page_chain m' prev (xs @ [c, p])"
  using assms
proof (induction xs arbitrary: prev)
  case (Cons x xs)
  have "agree m m' (x, sizeof_PoolPage)" using Cons.prems(2) by simp
  then have "page_chain m' prev [x] = page_chain m prev [x] \<and> page_next m' x = page_next m x \<and> page_buffer m' x = page_buffer m x \<and> page_prev m' x = page_prev m x"
    using agree_read agree_within [of m m' x sizeof_PoolPage x 8] agree_within [of m m' x sizeof_PoolPage "x + 8" 8]
      agree_within [of m m' x sizeof_PoolPage "x + 16" 8] by (simp add: page_buffer_def page_prev_def page_next_def sizeof_PoolPage_def)
  then show ?case using Cons by (cases xs) auto
qed simp

lemma layout_new_page:
  assumes l: "layout m page fb us [] fs bs" and p: "in_range (p, sizeof_PoolPage)"
    and ap: "\<And>B. B \<in> set (areas page us [] fs bs) \<Longrightarrow> apart B (p, sizeof_PoolPage)"
  defines "c \<equiv> if us = [] then 0 else last us"
  defines "m1 \<equiv> write64 (write64 (write64 m p (p + sizeof_PoolPage)) (p + 8) c) (p + 16) 0"
  defines "m' \<equiv> if c \<noteq> 0 then write64 m1 (c + 16) p else m1"
  shows "layout m' page fb (us @ [p]) [] fs bs" "\<forall>b \<in> set bs. agree m m' (taken_area b)" "page_buffer m' p = p + sizeof_PoolPage"
proof -
  have p63: "0 < p" "p + 24 \<le> 2 ^ 63" using p by (auto simp: in_range_def sizeof_PoolPage_def)
  have ag1: "agree m m1 B" if "B \<in> set (areas page us [] fs bs)" for B
  proof -
    have a: "apart B (p, 24)" using ap [OF that] by (simp add: sizeof_PoolPage_def)
    have "apart B (p, 8)" "apart B (p + 8, 8)" "apart B (p + 16, 8)" by (rule apart_within [OF a]; simp)+
    then show ?thesis unfolding m1_def using agree_write agree_trans by metis
  qed
  have c: "c \<noteq> 0 \<longleftrightarrow> us \<noteq> []" "us \<noteq> [] \<Longrightarrow> c = last us"
  proof -
    have "us \<noteq> [] \<Longrightarrow> last us \<noteq> 0" using page_next_current(2) [of m 0 "butlast us" "last us" "[]"] l by (simp add: layout_def)
    then show "c \<noteq> 0 \<longleftrightarrow> us \<noteq> []" "us \<noteq> [] \<Longrightarrow> c = last us" by (auto simp: c_def)
  qed
  have hin: "(c, sizeof_PoolPage) \<in> set (map (\<lambda>p. (p, sizeof_PoolPage)) us)" if "us \<noteq> []" using c(2) [OF that] that by simp
  then have cin: "(c, sizeof_PoolPage) \<in> set (areas page us [] fs bs)" if "us \<noteq> []" using that by (auto simp: areas_def)
  then have cr: "in_range (c, sizeof_PoolPage)" if "us \<noteq> []" using that l by (auto simp: layout_def)
  have cb: "c < 2 ^ 64" using cr c(1) in_rangeD [of c sizeof_PoolPage] by (cases "us = []") auto
  have ag2: "agree m1 m' B" if "us \<noteq> [] \<Longrightarrow> apart B (c, sizeof_PoolPage)" for B
  proof (cases "us = []")
    case True
    then show ?thesis using c(1) by (simp add: m'_def)
  next
    case False
    have "apart B (c + 16, 8)" using that [OF False] by (rule apart_within) (simp_all add: sizeof_PoolPage_def)
    then show ?thesis using False c(1) agree_write by (simp add: m'_def)
  qed
  have so: "sorted_wrt apart (areas page us [] fs bs)" using l by (simp add: layout_def)
  have cut: "apart B (c, sizeof_PoolPage)" if us: "us \<noteq> []" and B: "B \<in> set (map (\<lambda>p. (p, sizeof_PoolPage)) (butlast us)) \<union> set fs \<union> taken_area ` set bs" for B
  proof -
    have "us = butlast us @ [c]" using us c(2) by simp
    then have "areas page us [] fs bs = map (\<lambda>p. (p, sizeof_PoolPage)) (butlast us) @ (c, sizeof_PoolPage) # (fs @ map taken_area bs)"
      unfolding areas_def by (metis (no_types, lifting) append.right_neutral append_Cons append_Nil append_assoc list.simps(8) list.simps(9) map_append)
    then show ?thesis using so B apart_insert by (metis Un_iff set_append set_map)
  qed
  have rp: "page_buffer m1 p = p + 24" "page_prev m1 p = c" "page_next m1 p = 0"
    using p63 cb by (simp_all add: m1_def page_buffer_def page_prev_def page_next_def read_write_other sizeof_PoolPage_def)
  have apc: "us \<noteq> [] \<Longrightarrow> apart (p, sizeof_PoolPage) (c, sizeof_PoolPage)" using ap cin apart_sym by blast
  have "agree m1 m' (p, sizeof_PoolPage)" using ag2 apc by blast
  then have "agree m1 m' (p, 8)" "agree m1 m' (p + 8, 8)" "agree m1 m' (p + 16, 8)" by (auto elim!: agree_within simp: sizeof_PoolPage_def)
  then have rp': "page_buffer m' p = p + 24" "page_prev m' p = c" "page_next m' p = 0"
    using rp agree_read by (simp_all add: page_buffer_def page_prev_def page_next_def)
  show "page_buffer m' p = p + sizeof_PoolPage" using rp'(1) by (simp add: sizeof_PoolPage_def)
  have agm: "agree m m' B" if "B \<in> set fs \<union> taken_area ` set bs" for B
  proof -
    have "B \<in> set (areas page us [] fs bs)" using that by (auto simp: areas_def)
    then show ?thesis using ag1 ag2 [of B] cut [of B] that agree_trans by blast
  qed
  show "\<forall>b \<in> set bs. agree m m' (taken_area b)" using agm by blast
  have chain: "page_chain m' 0 (us @ [p])"
  proof (cases us rule: rev_cases)
    case Nil
    then show ?thesis using rp' c(1) p63 by (simp add: sizeof_PoolPage_def)
  next
    case (snoc us' c')
    have cc: "c' = c" "butlast us = us'" "us \<noteq> []" using snoc c(2) by auto
    have ch: "page_chain m 0 (us' @ [c])" using l snoc cc by (simp add: layout_def)
    have a1: "agree m m1 (c, sizeof_PoolPage)" using ag1 cin cc by blast
    then have "agree m m1 (c, 8)" "agree m m1 (c + 8, 8)" by (auto elim!: agree_within simp: sizeof_PoolPage_def)
    then have "page_buffer m1 c = page_buffer m c" "page_prev m1 c = page_prev m c" using agree_read by (simp_all add: page_buffer_def page_prev_def)
    moreover have "m' = write64 m1 (c + 16) p" using c(1) cc by (simp add: m'_def)
    ultimately have rc: "page_buffer m' c = page_buffer m c" "page_prev m' c = page_prev m c" "page_next m' c = p"
      using p63 by (simp_all add: page_buffer_def page_prev_def page_next_def read_write_other)
    have ags: "\<forall>q \<in> set us'. agree m m' (q, sizeof_PoolPage)"
    proof
      fix q
      assume q: "q \<in> set us'"
      then have "(q, sizeof_PoolPage) \<in> set (areas page us [] fs bs)" using snoc by (auto simp: areas_def)
      moreover have "apart (q, sizeof_PoolPage) (c, sizeof_PoolPage)" by (rule cut) (use q cc in auto)
      ultimately show "agree m m' (q, sizeof_PoolPage)" using ag1 ag2 agree_trans by blast
    qed
    have "page_chain m' c [p]" using rp' p63 by (simp add: sizeof_PoolPage_def)
    then show ?thesis using chain_extend [OF ch ags rc] snoc cc by simp
  qed
  have "free_seg m' fb fs 0" by (rule free_seg_agree [of _ m]) (use l agm in \<open>auto simp: layout_def in_range_def areas_def\<close>)
  moreover have "\<forall>b \<in> set bs. taken_ok m' b" using taken_agree agm l unfolding layout_def by blast
  moreover have "areas page (us @ [p]) [] fs bs = map (\<lambda>p. (p, sizeof_PoolPage)) us @ (p, sizeof_PoolPage) # (fs @ map taken_area bs)"
    "areas page us [] fs bs = map (\<lambda>p. (p, sizeof_PoolPage)) us @ (fs @ map taken_area bs)" by (simp_all add: areas_def)
  ultimately show "layout m' page fb (us @ [p]) [] fs bs" using chain l p so ap apart_insert unfolding layout_def by (simp add: ball_Un)
qed

subsection \<open>Alignment of a block\<close>

lemma adjustment_ok:
  assumes al: "IsValidAlignment al" "al < 2 ^ 31" and a: "a + unat al \<le> 2 ^ 64"
  shows "unat al dvd a + AlignAdjustment_header a (unat al) h" "h \<le> AlignAdjustment_header a (unat al) h"
    "AlignAdjustment_header a (unat al) h < h + unat al"
proof -
  let ?d = "unat al" and ?r = "AlignAdjustment a (unat al)"
  have d0: "0 < ?d" using al(1) by (simp add: IsValidAlignment_def word_less_nat_alt)
  then have a64: "a < 2 ^ 64" using a by linarith
  then have ua: "unat (of_nat a :: u64) = a" by (simp add: unat_of_nat take_bit_nat_eq_self)
  let ?q = "Align (of_nat a) al True"
  have sp: "IsAligned ?q al" "a \<le> unat ?q" "unat ?q < a + ?d"
    using Align_up_spec [OF al, of "of_nat a"] a ua by simp_all
  have "unat (?q - of_nat a) = unat ?q - a" using sp(2) ua by (simp add: unat_sub word_le_nat_alt)
  then have r: "?r = unat ?q - a" by (simp add: AlignAdjustment_def)
  obtain k where k: "k < 64" "al = 2 ^ k" using IsValidAlignment_pow2 [OF al(1)] by blast
  have "unat (2 ^ k :: u64) = 2 ^ k" using k(1) by (simp add: unat_pow2)
  then have "?d dvd unat ?q" using sp(1) IsAligned_iff [OF k(1), of ?q] unfolding k(2) by simp
  then have dv: "?d dvd a + ?r" using r sp(2) by simp
  have rd: "?r < ?d" using r sp by simp
  let ?R = "AlignAdjustment_header a ?d h"
  have "?d dvd a + ?R \<and> h \<le> ?R \<and> ?R < h + ?d"
  proof (cases "?r < h")
    case False
    then show ?thesis using dv rd by (simp add: AlignAdjustment_header_def)
  next
    case True
    let ?x = "h - ?r"
    have R: "?R = ?r + ?d * (?x div ?d) + (if ?x mod ?d > 0 then ?d else 0)" using True by (simp add: AlignAdjustment_header_def Let_def)
    have e: "?d * (?x div ?d) + ?x mod ?d = ?x" "?x mod ?d < ?d" using d0 by simp_all
    have "?d dvd a + ?R"
    proof -
      have "a + ?R = (a + ?r) + (?d * (?x div ?d) + (if ?x mod ?d > 0 then ?d else 0))" using R by simp
      moreover have "?d dvd ?d * (?x div ?d) + (if ?x mod ?d > 0 then ?d else 0)" by simp
      ultimately show ?thesis using dv by (metis dvd_add)
    qed
    moreover have "h \<le> ?R \<and> ?R < h + ?d"
    proof (cases "?x mod ?d > 0")
      case T: True
      then have "?R = ?r + ?d * (?x div ?d) + ?d" using R by simp
      then show ?thesis using e T True by linarith
    next
      case F: False
      then have "?R = ?r + ?d * (?x div ?d)" using R by simp
      then show ?thesis using e F True d0 by linarith
    qed
    ultimately show ?thesis by blast
  qed
  then show "?d dvd a + ?R" "h \<le> ?R" "?R < h + ?d" by blast+
qed

end
