(* ===== verification/PoolRun.thy ===== *)
theory PoolRun
  imports PoolInv
begin

text \<open>
  The pool manager over an auxiliary manager that satisfies the contract \<^verbatim>\<open>memory_manager\<close>: every request
  returns, and any sequence of requests, releases and stores of the clients keeps the layout, so the blocks stay
  apart and keep the bytes their owners stored.
\<close>

subsection \<open>Clients of a pool\<close>

text \<open>
  The clients ask for a block, release the \<open>i\<close>-th block they hold, or store a byte in it. Beside the memory the
  run keeps the address, size and alignment of every block held, and the bytes that its owner expects in it.
\<close>

datatype pool_op = PMalloc u64 u64 | PFree nat | PStore nat nat u8

type_synonym held_block = "u64 \<times> u64 \<times> u64 \<times> u8 list"

definition bytes_at :: "memory \<Rightarrow> u64 \<Rightarrow> u64 \<Rightarrow> u8 list" where
  "bytes_at m p n = map m [unat p..<unat p + unat n]"

definition store_byte :: "'x pool \<Rightarrow> nat \<Rightarrow> u8 \<Rightarrow> 'x pool" where
  "store_byte P a v = P\<lparr> pl_memory := (pl_memory P)(a := v) \<rparr>"

fun pool_run :: "'x allocate \<Rightarrow> 'x release \<Rightarrow> pool_op list \<Rightarrow> 'x pool \<times> held_block list \<Rightarrow> ('x pool \<times> held_block list) option" where
  "pool_run aux_malloc aux_free [] s = Some s"
| "pool_run aux_malloc aux_free (PMalloc n al # ops) (P, hs) =
     (case PoolMemoryManager_malloc aux_malloc P n al of
        None \<Rightarrow> None
      | Some (None, P) \<Rightarrow> pool_run aux_malloc aux_free ops (P, hs)
      | Some (Some p, P) \<Rightarrow> pool_run aux_malloc aux_free ops (P, (p, n, al, bytes_at (pl_memory P) p n) # hs))"
| "pool_run aux_malloc aux_free (PFree i # ops) (P, hs) =
     (if i < length hs then
        (case hs ! i of (p, n, al, ct) \<Rightarrow>
           pool_run aux_malloc aux_free ops (PoolMemoryManager_free aux_free P p n, take i hs @ drop (Suc i) hs))
      else pool_run aux_malloc aux_free ops (P, hs))"
| "pool_run aux_malloc aux_free (PStore i k v # ops) (P, hs) =
     (if i < length hs then
        (case hs ! i of (p, n, al, ct) \<Rightarrow>
           if k < unat n then pool_run aux_malloc aux_free ops (store_byte P (unat p + k) v, hs[i := (p, n, al, ct[k := v])])
           else pool_run aux_malloc aux_free ops (P, hs))
      else pool_run aux_malloc aux_free ops (P, hs))"

fun pool_request :: "nat \<Rightarrow> pool_op \<Rightarrow> bool" where
  "pool_request page (PMalloc n al) \<longleftrightarrow> 0 < unat n \<and> unat n \<le> page \<and> IsValidAlignment al \<and> al < 2 ^ 31"
| "pool_request page _ \<longleftrightarrow> True"

definition held_blocks :: "held_block list \<Rightarrow> (u64 \<times> u64 \<times> u64) list" where
  "held_blocks hs = map (\<lambda>(p, n, al, ct). (p, n, al)) hs"

subsection \<open>The addresses of a layout\<close>

definition cover :: "area list \<Rightarrow> nat set" where
  "cover As = \<Union> ((\<lambda>(a, s). {a..<a + s}) ` set As)"

lemma cover_simps [simp]: "cover [] = {}" "cover (A # As) = {fst A..<fst A + snd A} \<union> cover As" "cover (As @ Bs) = cover As \<union> cover Bs"
  by (auto simp: cover_def)

lemma cover_areas: "cover (areas page us sp fs bs) = cover (areas page us sp [] []) \<union> cover fs \<union> cover (map taken_area bs)"
  by (auto simp: areas_def)

lemma cover_spare: "cover (areas page us (p # sp) fs bs) = cover (areas page (us @ [p]) sp fs bs) \<union> {p + sizeof_PoolPage..<p + sizeof_PoolPage + page}"
  by (auto simp: areas_def)

lemma cover_member: "A \<in> set As \<Longrightarrow> {fst A..<fst A + snd A} \<subseteq> cover As"
  by (auto simp: cover_def)

lemma cover_least: "(\<And>A. A \<in> set As \<Longrightarrow> {fst A..<fst A + snd A} \<subseteq> S) \<Longrightarrow> cover As \<subseteq> S"
  unfolding cover_def by (force simp: split_beta)

lemma cover_within:
  "(\<And>A. A \<in> set As \<Longrightarrow> \<exists>B \<in> set Bs. fst B \<le> fst A \<and> fst A + snd A \<le> fst B + snd B) \<Longrightarrow> cover As \<subseteq> cover Bs"
proof
  fix x
  assume w: "\<And>A. A \<in> set As \<Longrightarrow> \<exists>B \<in> set Bs. fst B \<le> fst A \<and> fst A + snd A \<le> fst B + snd B" and "x \<in> cover As"
  then obtain A where A: "A \<in> set As" "fst A \<le> x" "x < fst A + snd A" by (auto simp: cover_def)
  obtain B where B: "B \<in> set Bs" "fst B \<le> fst A \<and> fst A + snd A \<le> fst B + snd B" using w [OF A(1)] by blast
  then have "x \<in> {fst B..<fst B + snd B}" using A by simp
  then show "x \<in> cover Bs" using cover_member [OF B(1)] by blast
qed

lemma apart_disjoint: "{fst A..<fst A + snd A} \<inter> {b..<b + t} = {} \<Longrightarrow> 0 < snd A \<Longrightarrow> 0 < t \<Longrightarrow> apart A (b, t)"
proof (rule ccontr)
  assume d: "{fst A..<fst A + snd A} \<inter> {b..<b + t} = {}" "0 < snd A" "0 < t" and "\<not> apart A (b, t)"
  then have "max (fst A) b \<in> {fst A..<fst A + snd A} \<inter> {b..<b + t}" by (simp add: apart_def)
  then show False using d(1) by blast
qed

lemma apart_blocks: "apart (a, s) (b, t) \<Longrightarrow> {a..<a + s} \<inter> {b..<b + t} = {}"
  by auto

subsection \<open>Stores of the clients\<close>

lemma layout_store:
  assumes l: "layout m page fb us sp fs (bs1 @ b # bs2)" and x: "tk_ptr b \<le> x" "x < tk_ptr b + tk_size b"
  shows "layout (m(x := v)) page fb us sp fs (bs1 @ b # bs2)" "\<forall>c \<in> set (bs1 @ bs2). agree m (m(x := v)) (taken_area c)"
proof -
  let ?m = "m(x := v)"
  have so: "sorted_wrt apart (areas page us sp ([] @ taken_area b # fs) (bs1 @ bs2))" using l unfolding layout_def areas_untake by simp
  have ok: "taken_ok m b" using l by (simp add: layout_def)
  then have xin: "tk_start b \<le> x" "x < tk_start b + tk_area b" using x by (auto simp: taken_ok_def)
  have ag: "agree m ?m B" if "B \<in> set (areas page us sp fs (bs1 @ bs2))" for B
  proof -
    have "apart B (taken_area b)" using so that unfolding areas_split by simp
    then show ?thesis using xin by (cases B) (auto simp: taken_area_def agree_def)
  qed
  have "agree m ?m (tk_ptr b - 16, 8)" "agree m ?m (tk_ptr b - 8, 8)" using x ok by (auto simp: agree_def taken_ok_def sizeof_AllocBlock_def)
  then have "taken_ok ?m b" using ok agree_read by (simp add: taken_ok_def sizeof_AllocBlock_def)
  moreover have tk: "\<forall>c \<in> set (bs1 @ bs2). agree m ?m (taken_area c)" using ag taken_in_areas by blast
  moreover have "\<forall>c \<in> set (bs1 @ bs2). taken_ok m c" using l by (simp add: layout_def)
  ultimately have "\<forall>c \<in> set (bs1 @ b # bs2). taken_ok ?m c" using taken_agree by fastforce
  moreover have "page_chain ?m 0 (us @ sp)"
    by (rule page_chain_agree [of _ m]) (use l ag in \<open>auto simp: layout_def areas_def\<close>)
  moreover have "free_seg ?m fb fs 0"
    by (rule free_seg_agree [of _ m]) (use l ag in \<open>auto simp: layout_def areas_def in_range_def\<close>)
  ultimately show "layout ?m page fb us sp fs (bs1 @ b # bs2)" using l unfolding layout_def by blast
  show "\<forall>c \<in> set (bs1 @ bs2). agree m ?m (taken_area c)" by (rule tk)
qed

text \<open>What the owner of a block knows of it.\<close>

definition holds :: "memory \<Rightarrow> held_block \<Rightarrow> taken \<Rightarrow> bool" where
  "holds m h b \<longleftrightarrow> (case h of (p, n, al, ct) \<Rightarrow> unat p = tk_ptr b \<and> unat n = tk_size b \<and> IsAligned p al \<and> bytes_at m p n = ct)"

lemma holds_agree:
  assumes "holds m h b" "taken_ok m b" "agree m m' (taken_area b)"
  shows "holds m' h b"
proof -
  obtain p n al ct where h: "h = (p, n, al, ct)" by (cases h)
  have "bytes_at m' p n = bytes_at m p n" using assms by (auto simp: bytes_at_def holds_def h taken_ok_def agree_def taken_area_def)
  then show ?thesis using assms(1) by (simp add: holds_def h)
qed

lemma all_hold:
  assumes "list_all2 (holds m) hs bs" "\<forall>b \<in> set bs. taken_ok m b \<and> agree m m' (taken_area b)"
  shows "list_all2 (holds m') hs bs"
  using assms(1) by (rule list.rel_mono_strong) (use assms(2) holds_agree in blast)

lemma dvd_aligned:
  assumes "IsValidAlignment al" "unat al dvd unat p"
  shows "IsAligned p al"
proof -
  obtain k where k: "k < 64" "al = 2 ^ k" using IsValidAlignment_pow2 [OF assms(1)] by blast
  then have "unat (2 ^ k :: u64) = 2 ^ k" by (simp add: unat_pow2)
  then show ?thesis using assms(2) IsAligned_iff [OF k(1), of p] unfolding k(2) by simp
qed

subsection \<open>The invariant\<close>

locale pool_over = aux: memory_manager aux_malloc fundamental_alignment aux_inv aux_live
  for aux_malloc :: "'x allocate" and aux_inv :: "'x \<Rightarrow> bool" and aux_live :: "'x \<Rightarrow> nat set" +
  fixes busy :: "nat set"
begin

definition pool_good :: "'x pool \<Rightarrow> nat list \<Rightarrow> nat list \<Rightarrow> area list \<Rightarrow> taken list \<Rightarrow> bool" where
  "pool_good P us sp fs bs \<longleftrightarrow> aux_inv (pl_auxiliary P) \<and> insert 0 busy \<subseteq> aux_live (pl_auxiliary P) \<and>
     layout (pl_memory P) (pl_page P) (pl_free_block P) us sp fs bs \<and>
     cover (areas (pl_page P) us sp fs bs) \<subseteq> aux_live (pl_auxiliary P) - busy \<and>
     pl_current P = (if us = [] then 0 else last us) \<and> (us = [] \<longrightarrow> sp = []) \<and> 16 \<le> pl_page P \<and> pl_page P \<le> 2 ^ 62"

definition kept :: "'x pool \<Rightarrow> 'x pool \<Rightarrow> taken list \<Rightarrow> bool" where
  "kept P Q bs \<longleftrightarrow> pl_page Q = pl_page P \<and> aux_live (pl_auxiliary P) \<subseteq> aux_live (pl_auxiliary Q) \<and>
     (\<forall>b \<in> set bs. agree (pl_memory P) (pl_memory Q) (taken_area b))"

lemma kept_trans: "kept P Q bs \<Longrightarrow> kept Q R bs \<Longrightarrow> kept P R bs"
  by (auto simp: kept_def intro: agree_trans)

subsection \<open>Growing\<close>

lemma max_align_pre: "fundamental_alignment n max_align"
  using pow2_IsValidAlignment [of 4] by (simp add: fundamental_alignment_def max_align_def)

definition grown :: "'x pool \<Rightarrow> nat list \<Rightarrow> area list \<Rightarrow> taken list \<Rightarrow> nat \<Rightarrow> 'x pool \<Rightarrow> bool" where
  "grown P sp pre bs r Q \<longleftrightarrow> kept P Q bs \<and> pl_allocated Q = pl_allocated P \<and> pl_allocations Q = pl_allocations P \<and>
     (\<exists>us' sp' fs'. pool_good Q us' sp' fs' bs \<and>
       (r \<noteq> 0 \<longrightarrow> fs' = pre @ [(r, pl_page P)] \<and> pl_pages Q + length sp' < pl_pages P + length sp))"

lemma activate_good:
  assumes l: "layout (pl_memory P) (pl_page P) (pl_free_block P) (us @ [p]) sp (pre @ fs) bs"
    and c: "pl_current P = p" "page_buffer (pl_memory P) p = p + sizeof_PoolPage" "in_range (p + sizeof_PoolPage, pl_page P)"
    and ap: "\<And>B. B \<in> set (areas (pl_page P) (us @ [p]) sp (pre @ fs) bs) \<Longrightarrow> apart B (p + sizeof_PoolPage, pl_page P)"
    and aux: "aux_inv (pl_auxiliary P)" "insert 0 busy \<subseteq> aux_live (pl_auxiliary P)" "16 \<le> pl_page P" "pl_page P \<le> 2 ^ 62"
    and cov: "cover (areas (pl_page P) (us @ [p]) sp (pre @ fs) bs) \<union> {p + sizeof_PoolPage..<p + sizeof_PoolPage + pl_page P} \<subseteq> aux_live (pl_auxiliary P) - busy"
  defines "Q \<equiv> link_free (fresh_block P) (last_ptr pre) (p + sizeof_PoolPage)"
  shows "page_buffer (pl_memory (fresh_block P)) p = p + sizeof_PoolPage"
    "pool_good Q (us @ [p]) sp (pre @ [(p + sizeof_PoolPage, pl_page P)]) bs" "kept P Q bs" "pl_pages Q = pl_pages P"
    "pl_allocated Q = pl_allocated P" "pl_allocations Q = pl_allocations P"
proof -
  have b: "page_buffer (pl_memory P) (pl_current P) = p + sizeof_PoolPage" using c by simp
  note A = activate [OF l b c(3) ap, folded Q_def]
  show "page_buffer (pl_memory (fresh_block P)) p = p + sizeof_PoolPage" using A(3) c(1) by simp
  have Q: "pl_page Q = pl_page P" "pl_auxiliary Q = pl_auxiliary P" "pl_current Q = p" "pl_pages Q = pl_pages P"
    "pl_allocated Q = pl_allocated P" "pl_allocations Q = pl_allocations P"
    using c(1) by (simp_all add: Q_def link_free_def fresh_block_def)
  show "kept P Q bs" using A(2) Q by (simp add: kept_def)
  show "pl_pages Q = pl_pages P" "pl_allocated Q = pl_allocated P" "pl_allocations Q = pl_allocations P" by (rule Q)+
  have "cover (areas (pl_page P) (us @ [p]) sp (pre @ [(p + sizeof_PoolPage, pl_page P)]) bs) \<subseteq>
      cover (areas (pl_page P) (us @ [p]) sp (pre @ fs) bs) \<union> {p + sizeof_PoolPage..<p + sizeof_PoolPage + pl_page P}"
    unfolding cover_areas [of "pl_page P" "us @ [p]" sp "pre @ fs"] cover_areas [of "pl_page P" "us @ [p]" sp "pre @ [_]"] by auto
  then show "pool_good Q (us @ [p]) sp (pre @ [(p + sizeof_PoolPage, pl_page P)]) bs"
    using A(1) aux subset_trans [OF _ cov] Q unfolding pool_good_def by simp
qed

lemma grow_spare:
  assumes g: "pool_good P us (p # sp) (pre @ fs) bs"
  shows "\<exists>r Q. pool_grow aux_malloc P (last_ptr pre) = Some (r, Q) \<and> grown P (p # sp) pre bs r Q"
proof -
  have u: "us \<noteq> []" "pl_current P = last us" using g by (auto simp: pool_good_def)
  have l: "layout (pl_memory P) (pl_page P) (pl_free_block P) us (p # sp) (pre @ fs) bs" using g by (simp add: pool_good_def)
  have ch: "page_chain (pl_memory P) 0 (us @ p # sp)" using l by (simp add: layout_def)
  have "us @ p # sp = butlast us @ [last us] @ p # sp" using u(1) by simp
  then have "page_chain (pl_memory P) 0 (butlast us @ [last us] @ p # sp)" using ch by metis
  note n = page_next_current [OF this]
  have n: "page_next (pl_memory P) (pl_current P) = p" "pl_current P \<noteq> 0" "p \<noteq> 0"
    using n u page_next_current(2) [of "pl_memory P" 0 us p sp] ch by simp_all
  let ?P = "P\<lparr> pl_current := p \<rparr>"
  note L = layout_spare [OF l]
  have cov: "cover (areas (pl_page P) (us @ [p]) sp (pre @ fs) bs) \<union> {p + sizeof_PoolPage..<p + sizeof_PoolPage + pl_page P} \<subseteq> aux_live (pl_auxiliary P) - busy"
    using g unfolding pool_good_def cover_spare by blast
  have A: "page_buffer (pl_memory (fresh_block ?P)) p = p + sizeof_PoolPage"
    "pool_good (link_free (fresh_block ?P) (last_ptr pre) (p + sizeof_PoolPage)) (us @ [p]) sp (pre @ [(p + sizeof_PoolPage, pl_page P)]) bs"
    "kept ?P (link_free (fresh_block ?P) (last_ptr pre) (p + sizeof_PoolPage)) bs"
    "pl_pages (link_free (fresh_block ?P) (last_ptr pre) (p + sizeof_PoolPage)) = pl_pages P"
    "pl_allocated (link_free (fresh_block ?P) (last_ptr pre) (p + sizeof_PoolPage)) = pl_allocated P"
    "pl_allocations (link_free (fresh_block ?P) (last_ptr pre) (p + sizeof_PoolPage)) = pl_allocations P"
    using activate_good [of ?P us p sp pre fs bs] L cov g unfolding pool_good_def by simp_all
  have c: "pl_current (fresh_block ?P) = p" by (simp add: fresh_block_def)
  have "pool_grow aux_malloc P (last_ptr pre) = Some (p + sizeof_PoolPage, link_free (fresh_block ?P) (last_ptr pre) (p + sizeof_PoolPage))"
    unfolding pool_grow_def using n A(1) c by (simp add: Let_def)
  moreover have "kept P (link_free (fresh_block ?P) (last_ptr pre) (p + sizeof_PoolPage)) bs" using A(3) by (simp add: kept_def)
  ultimately show ?thesis using A(2,4-6) unfolding grown_def by (intro exI [of _ "p + sizeof_PoolPage"] exI conjI) auto
qed

lemma grow_fresh:
  assumes g: "pool_good P us [] (pre @ fs) bs"
  shows "\<exists>r Q. pool_grow aux_malloc P (last_ptr pre) = Some (r, Q) \<and> grown P [] pre bs r Q"
proof -
  have l: "layout (pl_memory P) (pl_page P) (pl_free_block P) us [] (pre @ fs) bs" and x: "aux_inv (pl_auxiliary P)" "insert 0 busy \<subseteq> aux_live (pl_auxiliary P)"
    and c: "pl_current P = (if us = [] then 0 else last us)" and pg: "16 \<le> pl_page P" "pl_page P \<le> 2 ^ 62"
    and cov: "cover (areas (pl_page P) us [] (pre @ fs) bs) \<subseteq> aux_live (pl_auxiliary P) - busy"
    using g by (auto simp: pool_good_def)
  have nx: "\<not> (pl_current P \<noteq> 0 \<and> page_next (pl_memory P) (pl_current P) \<noteq> 0)"
    using page_next_current(1) [of "pl_memory P" 0 "butlast us" "last us" "[]"] l c by (cases "us = []") (simp_all add: layout_def)
  show ?thesis
  proof (cases "pl_pages P > 0")
    case False
    then have "pool_grow aux_malloc P (last_ptr pre) = Some (0, P)" using nx by (auto simp: pool_grow_def)
    then show ?thesis using g by (auto simp: grown_def kept_def)
  next
    case True
    let ?req = "of_nat (sizeof_PoolPage + pl_page P + unat max_align) :: u64"
    have req: "unat ?req = 40 + pl_page P"
      using pg by (simp add: sizeof_PoolPage_def max_align_def unat_of_nat take_bit_nat_eq_self del: of_nat_add)
    obtain q y where m: "aux_malloc (pl_auxiliary P) ?req max_align = Some (q, y)" using aux.mm_returns [OF x(1) max_align_pre, of ?req] by auto
    note st = aux.mm_inv_step [OF x(1) max_align_pre m] aux.mm_live_step [OF x(1) max_align_pre m]
    show ?thesis
    proof (cases q)
      case None
      then have "pool_grow aux_malloc P (last_ptr pre) = Some (0, P\<lparr> pl_auxiliary := y \<rparr>)"
        unfolding pool_grow_def if_not_P [OF nx] using True m by (simp add: AllocateMemoryPool_def)
      moreover have "pool_good (P\<lparr> pl_auxiliary := y \<rparr>) us [] (pre @ fs) bs" using g st by (auto simp: pool_good_def)
      ultimately show ?thesis using st by (auto simp: grown_def kept_def)
    next
      case (Some w)
      define p where "p = unat w"
      have fresh: "{p..<p + (40 + pl_page P)} \<inter> aux_live (pl_auxiliary P) = {}" "{p..<p + (40 + pl_page P)} \<subseteq> aux_live y"
        and place: "p + (40 + pl_page P) \<le> 2 ^ 63"
        using aux.mm_fresh [OF x(1) max_align_pre m [unfolded Some]] aux.mm_place [OF x(1) max_align_pre m [unfolded Some]]
        unfolding block_def p_def req by blast+
      have "p = 0 \<Longrightarrow> 0 \<in> {p..<p + (40 + pl_page P)}" by simp
      then have p0: "p \<noteq> 0" using fresh(1) x(2) by blast
      have rp: "in_range (p, sizeof_PoolPage)" "in_range (p + sizeof_PoolPage, pl_page P)"
        using place p0 pg by (auto simp: in_range_def sizeof_PoolPage_def)
      have ap: "apart B (p, 40 + pl_page P)" if "B \<in> set (areas (pl_page P) us [] (pre @ fs) bs)" for B
      proof (rule apart_disjoint)
        show "{fst B..<fst B + snd B} \<inter> {p..<p + (40 + pl_page P)} = {}" using cover_member [OF that] cov fresh(1) by blast
        have "in_range B" using l that by (simp add: layout_def)
        then show "0 < snd B" by (simp add: in_range_def)
      qed simp
      have ap1: "apart B (p, sizeof_PoolPage)" "apart B (p + sizeof_PoolPage, pl_page P)" if "B \<in> set (areas (pl_page P) us [] (pre @ fs) bs)" for B
        by (rule apart_within [OF ap [OF that]]; simp add: sizeof_PoolPage_def)+
      define m1 where "m1 = write64 (write64 (write64 (pl_memory P) p (p + sizeof_PoolPage)) (p + 8) (pl_current P)) (p + 16) 0"
      define m2 where "m2 = (if pl_current P \<noteq> 0 then write64 m1 (pl_current P + 16) p else m1)"
      note L = layout_new_page [OF l rp(1) ap1(1), folded c, folded m1_def, folded m2_def]
      let ?P = "P\<lparr> pl_auxiliary := y, pl_memory := m2, pl_current := p \<rparr>"
      have ap2: "apart B (p + sizeof_PoolPage, pl_page P)" if "B \<in> set (areas (pl_page P) (us @ [p]) [] (pre @ fs) bs)" for B
      proof -
        have "B = (p, sizeof_PoolPage) \<or> B \<in> set (areas (pl_page P) us [] (pre @ fs) bs)" using that unfolding areas_def by auto
        moreover have "apart (p, sizeof_PoolPage) (p + sizeof_PoolPage, pl_page P)" by simp
        ultimately show ?thesis using ap1(2) by blast
      qed
      have cov2: "cover (areas (pl_page P) (us @ [p]) [] (pre @ fs) bs) \<union> {p + sizeof_PoolPage..<p + sizeof_PoolPage + pl_page P} \<subseteq> aux_live y - busy"
      proof -
        have "cover (areas (pl_page P) (us @ [p]) [] (pre @ fs) bs) = cover (areas (pl_page P) us [] (pre @ fs) bs) \<union> {p..<p + sizeof_PoolPage}"
          by (auto simp: areas_def)
        moreover have "{p..<p + sizeof_PoolPage} \<union> {p + sizeof_PoolPage..<p + sizeof_PoolPage + pl_page P} \<subseteq> {p..<p + (40 + pl_page P)}"
          by (auto simp: sizeof_PoolPage_def)
        ultimately show ?thesis using cov st(2) fresh x(2) by blast
      qed
      let ?Q = "link_free (fresh_block ?P) (last_ptr pre) (p + sizeof_PoolPage)"
      have A: "page_buffer (pl_memory (fresh_block ?P)) p = p + sizeof_PoolPage" "pool_good ?Q (us @ [p]) [] (pre @ [(p + sizeof_PoolPage, pl_page P)]) bs"
        "kept ?P ?Q bs" "pl_pages ?Q = pl_pages P" "pl_allocated ?Q = pl_allocated P" "pl_allocations ?Q = pl_allocations P"
        using activate_good [of ?P us p "[]" pre fs bs] L rp ap2 cov2 st subset_trans [OF x(2) st(2)] pg by auto
      have alloc: "AllocateMemoryPool aux_malloc P (pl_page P) (pl_current P) = Some (p, P\<lparr> pl_auxiliary := y, pl_memory := m2 \<rparr>)"
        unfolding AllocateMemoryPool_def m Some m2_def m1_def p_def by (simp add: Let_def)
      have cur: "pl_current (fresh_block ?P) = p" by (simp add: fresh_block_def)
      have "pool_grow aux_malloc P (last_ptr pre) = Some (p + sizeof_PoolPage, ?Q\<lparr> pl_pages := pl_pages P - 1 \<rparr>)"
        unfolding pool_grow_def if_not_P [OF nx] alloc using True A(1,4) p0 cur by (simp add: Let_def)
      moreover have "kept P (?Q\<lparr> pl_pages := pl_pages P - 1 \<rparr>) bs"
        using A(3) L(2) st(2) unfolding kept_def by (auto intro: agree_trans)
      moreover have "pool_good (?Q\<lparr> pl_pages := pl_pages P - 1 \<rparr>) (us @ [p]) [] (pre @ [(p + sizeof_PoolPage, pl_page P)]) bs"
        using A(2) by (simp add: pool_good_def)
      ultimately show ?thesis using A(5,6) True unfolding grown_def
        by (intro exI [of _ "p + sizeof_PoolPage"] exI conjI) auto
    qed
  qed
qed

lemma grow_ok:
  assumes "pool_good P us sp (pre @ fs) bs"
  shows "\<exists>r Q. pool_grow aux_malloc P (last_ptr pre) = Some (r, Q) \<and> grown P sp pre bs r Q"
  using assms grow_spare grow_fresh by (cases sp) blast+

subsection \<open>Allocation\<close>

definition served :: "'x pool \<Rightarrow> taken list \<Rightarrow> nat \<Rightarrow> nat \<Rightarrow> nat \<Rightarrow> 'x pool \<Rightarrow> bool" where
  "served P bs n d r Q \<longleftrightarrow> kept P Q bs \<and>
     (\<exists>us sp fs.
       if r = 0 then pool_good Q us sp fs bs \<and> pl_allocated Q = pl_allocated P \<and> pl_allocations Q = pl_allocations P
       else \<exists>b. tk_ptr b = r \<and> tk_size b = n \<and> d dvd r \<and> pool_good Q us sp fs (b # bs) \<and>
         pl_allocated Q = pl_allocated P + of_nat n \<and> pl_allocations Q = pl_allocations P + 1)"

lemma served_after:
  "kept P Q bs \<Longrightarrow> pl_allocated Q = pl_allocated P \<Longrightarrow> pl_allocations Q = pl_allocations P \<Longrightarrow> served Q bs n d r R \<Longrightarrow> served P bs n d r R"
  using kept_trans [of P Q bs R] unfolding served_def by metis

lemma take_served:
  assumes g: "pool_good P us sp (pre @ (a, s) # rest) bs" and n: "n + adj \<le> s" "sizeof_AllocBlock \<le> adj" and d: "d dvd a + adj"
  shows "\<exists>r Q. pool_take P (last_ptr pre) a n adj = (r, Q) \<and> served P bs n d r Q"
proof -
  have l: "layout (pl_memory P) (pl_page P) (pl_free_block P) us sp (pre @ (a, s) # rest) bs" using g by (simp add: pool_good_def)
  obtain Q fs' b where T: "pool_take P (last_ptr pre) a n adj = (a + adj, Q)" "layout (pl_memory Q) (pl_page P) (pl_free_block Q) us sp fs' (b # bs)"
    "tk_ptr b = a + adj" "tk_size b = n" "\<forall>c \<in> set bs. agree (pl_memory P) (pl_memory Q) (taken_area c)"
    "\<forall>A \<in> insert (taken_area b) (set fs'). \<exists>B \<in> set (pre @ (a, s) # rest). fst B \<le> fst A \<and> fst A + snd A \<le> fst B + snd B"
    "pl_page Q = pl_page P \<and> pl_current Q = pl_current P \<and> pl_auxiliary Q = pl_auxiliary P \<and> pl_pages Q = pl_pages P"
    using pool_take_ok [OF l n] by blast
  have k: "pl_allocated Q = pl_allocated P + of_nat n" "pl_allocations Q = pl_allocations P + 1"
    using T(1) by (auto simp: pool_take_def Let_def pool_count_def link_free_def split: if_splits)
  have "cover (taken_area b # fs') \<subseteq> cover (pre @ (a, s) # rest)" by (rule cover_within) (use T(6) in \<open>unfold list.set, blast\<close>)
  then have "cover (areas (pl_page P) us sp fs' (b # bs)) \<subseteq> cover (areas (pl_page P) us sp (pre @ (a, s) # rest) bs)"
    unfolding cover_areas [of _ _ _ fs'] cover_areas [of _ _ _ "pre @ (a, s) # rest"] by (simp add: le_supI1 le_supI2)
  then have "pool_good Q us sp fs' (b # bs)" using g T(2,7) unfolding pool_good_def by auto
  moreover have "kept P Q bs" using T(5,7) by (simp add: kept_def)
  moreover have "a + adj \<noteq> 0" using n(2) by (simp add: sizeof_AllocBlock_def)
  ultimately show ?thesis using T(1,3,4) d k unfolding served_def by (intro exI conjI) auto
qed

lemma join_good:
  assumes g: "pool_good P us sp (pre @ (a, s) # rest) bs"
  shows "\<exists>m s' rest'. join_free (pl_memory P) a = Some m \<and> pool_good (P\<lparr> pl_memory := m \<rparr>) us sp (pre @ (a, s') # rest') bs \<and>
    length rest' \<le> length rest \<and> kept P (P\<lparr> pl_memory := m \<rparr>) bs"
proof -
  have l: "layout (pl_memory P) (pl_page P) (pl_free_block P) us sp (pre @ (a, s) # rest) bs" using g by (simp add: pool_good_def)
  obtain m s' rest' where J: "join_free (pl_memory P) a = Some m" "layout m (pl_page P) (pl_free_block P) us sp (pre @ (a, s') # rest') bs"
    "length rest' \<le> length rest" "\<forall>b \<in> set bs. agree (pl_memory P) m (taken_area b)" "cover ((a, s') # rest') \<subseteq> cover ((a, s) # rest)"
    using join_free_ok [OF l] unfolding cover_def by blast
  then have "cover (areas (pl_page P) us sp (pre @ (a, s') # rest') bs) \<subseteq> cover (areas (pl_page P) us sp (pre @ (a, s) # rest) bs)"
    unfolding cover_areas [of _ _ _ "pre @ (a, s') # rest'"] cover_areas [of _ _ _ "pre @ (a, s) # rest"] cover_simps(3) by blast
  then have "pool_good (P\<lparr> pl_memory := m \<rparr>) us sp (pre @ (a, s') # rest') bs" using g J(2) unfolding pool_good_def by auto
  then show ?thesis using J by (auto simp: kept_def)
qed

lemma loop_ends:
  "pool_good P us sp fs bs \<Longrightarrow> \<exists>r Q. pool_loop aux_malloc P prev 0 False n d = Some (r, Q) \<and> served P bs n d r Q"
  by (auto simp: pool_loop.simps [of aux_malloc P prev 0 False] served_def kept_def)

lemma loop_ok:
  assumes al: "IsValidAlignment al" "al < 2 ^ 31"
  shows "pool_good P us sp (pre @ ts) bs \<Longrightarrow> current = 0 \<or> (\<exists>s rest. ts = (current, s) # rest) \<Longrightarrow>
    \<exists>r Q. pool_loop aux_malloc P (last_ptr pre) current allocate n (unat al) = Some (r, Q) \<and> served P bs n (unat al) r Q"
proof (induction "(pl_pages P + length sp, if current = 0 then 0 else length ts)" arbitrary: P us sp pre ts current allocate
    rule: wf_induct_rule [OF wf_lex_prod [OF wf_less_than wf_less_than]])
  case (1 P sp ts current us pre allocate)
  note g = "1.prems"(1)
  consider (stop) "current = 0" "\<not> allocate" | (grow) "current = 0" "allocate" | (look) "current \<noteq> 0" by blast
  then show ?case
  proof cases
    case stop
    then show ?thesis using loop_ends [OF g] by auto
  next
    case grow
    obtain r Q where G: "pool_grow aux_malloc P (last_ptr pre) = Some (r, Q)" "grown P sp pre bs r Q" using grow_ok [OF g] by blast
    then obtain us' sp' fs' where N: "pool_good Q us' sp' fs' bs"
      "r \<noteq> 0 \<Longrightarrow> fs' = pre @ [(r, pl_page P)] \<and> pl_pages Q + length sp' < pl_pages P + length sp"
      and k: "kept P Q bs" "pl_allocated Q = pl_allocated P" "pl_allocations Q = pl_allocations P" unfolding grown_def by blast
    have "\<exists>r' R. pool_loop aux_malloc Q (last_ptr pre) r False n (unat al) = Some (r', R) \<and> served Q bs n (unat al) r' R"
    proof (cases "r = 0")
      case True
      then show ?thesis using loop_ends [OF N(1)] by simp
    next
      case False
      then show ?thesis using "1.hyps" [of Q sp' r "[(r, pl_page P)]" us' pre False] N by auto
    qed
    moreover have "pool_loop aux_malloc P (last_ptr pre) current allocate n (unat al) = pool_loop aux_malloc Q (last_ptr pre) r False n (unat al)"
      using grow G(1) by (simp add: pool_loop.simps [of aux_malloc P])
    ultimately show ?thesis using served_after [OF k] by metis
  next
    case look
    obtain s rest where ts: "ts = (current, s) # rest" using "1.prems"(2) look by blast
    have g': "pool_good P us sp (pre @ (current, s) # rest) bs" using g ts by simp
    obtain m s' rest' where J: "join_free (pl_memory P) current = Some m" "pool_good (P\<lparr> pl_memory := m \<rparr>) us sp (pre @ (current, s') # rest') bs"
      "length rest' \<le> length rest" "kept P (P\<lparr> pl_memory := m \<rparr>) bs" using join_good [OF g'] by blast
    let ?P = "P\<lparr> pl_memory := m \<rparr>" and ?adj = "AlignAdjustment_header current (unat al) sizeof_AllocBlock"
    have l: "layout m (pl_page P) (pl_free_block P) us sp (pre @ (current, s') # rest') bs" using J(2) by (simp add: pool_good_def)
    note F = layout_free_at [OF l]
    have "current + unat al \<le> 2 ^ 64" using in_rangeD [OF layout_area(2) [OF l]] al(2) by (simp add: word_less_nat_alt)
    note adj = adjustment_ok [OF al this, of sizeof_AllocBlock]
    let ?prev = "if free_next m current \<noteq> 0 then current else last_ptr pre"
    have eq: "pool_loop aux_malloc P (last_ptr pre) current allocate n (unat al) =
      (if s' < n + ?adj then pool_loop aux_malloc ?P ?prev (free_next m current) True n (unat al) else Some (pool_take ?P (last_ptr pre) current n ?adj))"
      using look J(1) F(3) by (simp add: pool_loop.simps [of aux_malloc P] Let_def)
    have "\<exists>r Q. pool_loop aux_malloc P (last_ptr pre) current allocate n (unat al) = Some (r, Q) \<and> served ?P bs n (unat al) r Q"
    proof (cases "s' < n + ?adj")
      case False
      then show ?thesis unfolding eq using take_served [OF J(2) _ adj(2,1)] by simp
    next
      case True
      show ?thesis
      proof (cases rest')
        case Nil
        then have "free_next m current = 0" using F(4) by simp
        moreover have "\<exists>r Q. pool_loop aux_malloc ?P (last_ptr pre) 0 True n (unat al) = Some (r, Q) \<and> served ?P bs n (unat al) r Q"
          using "1.hyps" [of ?P sp 0 "[(current, s')]" us pre True] J(2) Nil look ts by simp
        ultimately show ?thesis unfolding eq using True by simp
      next
        case (Cons f fs2)
        have f: "free_next m current = fst f" "fst f \<noteq> 0" using F(4) Cons by auto
        have "\<exists>r Q. pool_loop aux_malloc ?P (last_ptr (pre @ [(current, s')])) (fst f) True n (unat al) = Some (r, Q) \<and> served ?P bs n (unat al) r Q"
          using "1.hyps" [of ?P sp "fst f" rest' us "pre @ [(current, s')]" True] J(2,3) Cons look ts f by (cases f) auto
        then show ?thesis unfolding eq using True f by (simp add: last_ptr_def)
      qed
    qed
    then show ?thesis using served_after [OF J(4)] by fastforce
  qed
qed

lemma malloc_served:
  assumes g: "pool_good P us sp fs bs" and al: "IsValidAlignment al" "al < 2 ^ 31" and n: "unat n \<le> pl_page P"
  shows "\<exists>r Q. PoolMemoryManager_malloc aux_malloc P n al = Some (pool_pointer r, Q) \<and> served P bs (unat n) (unat al) r Q"
proof -
  have seg: "free_seg (pl_memory P) (pl_free_block P) fs 0" using g by (simp add: pool_good_def layout_def)
  have "pl_free_block P = 0 \<or> (\<exists>s rest. fs = (pl_free_block P, s) # rest)"
  proof (cases fs)
    case Nil
    then show ?thesis using seg by simp
  next
    case (Cons f fs2)
    then show ?thesis using seg by (cases f) auto
  qed
  then have "\<exists>r Q. pool_loop aux_malloc P (last_ptr []) (pl_free_block P) True (unat n) (unat al) = Some (r, Q) \<and> served P bs (unat n) (unat al) r Q"
    using loop_ok [OF al, of P us sp "[]" fs bs] g by simp
  then show ?thesis using n by (auto simp: PoolMemoryManager_malloc_def last_ptr_def)
qed

subsection \<open>Runs\<close>

definition run_good :: "'x pool \<times> held_block list \<Rightarrow> bool" where
  "run_good s \<longleftrightarrow> (case s of (P, hs) \<Rightarrow>
     (\<exists>us sp fs bs. pool_good P us sp fs bs \<and> list_all2 (holds (pl_memory P)) hs bs) \<and>
     (\<forall>(p, n, al, ct) \<in> set hs. unat n \<le> pl_page P) \<and>
     pl_allocations P = of_nat (length hs) \<and> pl_allocated P = (\<Sum>(p, n, al, ct)\<leftarrow>hs. n))"

lemma good_taken: "pool_good P us sp fs bs \<Longrightarrow> b \<in> set bs \<Longrightarrow> taken_ok (pl_memory P) b \<and> in_range (taken_area b)"
  by (auto simp: pool_good_def layout_def areas_def)

lemma malloc_run:
  assumes s: "run_good (P, hs)" and al: "IsValidAlignment al" "al < 2 ^ 31" and n: "unat n \<le> pl_page P"
  shows "\<exists>q Q. PoolMemoryManager_malloc aux_malloc P n al = Some (q, Q) \<and> pl_page Q = pl_page P \<and>
    run_good (Q, (case q of None \<Rightarrow> hs | Some p \<Rightarrow> (p, n, al, bytes_at (pl_memory Q) p n) # hs))"
proof -
  obtain us sp fs bs where g: "pool_good P us sp fs bs" "list_all2 (holds (pl_memory P)) hs bs"
    and c: "\<forall>(p, n, al, ct) \<in> set hs. unat n \<le> pl_page P" "pl_allocations P = of_nat (length hs)" "pl_allocated P = (\<Sum>(p, n, al, ct)\<leftarrow>hs. n)"
    using s by (auto simp: run_good_def)
  obtain r Q where M: "PoolMemoryManager_malloc aux_malloc P n al = Some (pool_pointer r, Q)" "served P bs (unat n) (unat al) r Q"
    using malloc_served [OF g(1) al n] by blast
  then have k: "pl_page Q = pl_page P" "\<forall>b \<in> set bs. agree (pl_memory P) (pl_memory Q) (taken_area b)" by (auto simp: served_def kept_def)
  have h: "list_all2 (holds (pl_memory Q)) hs bs" by (rule all_hold [OF g(2)]) (use k(2) good_taken [OF g(1)] in blast)
  show ?thesis
  proof (cases "r = 0")
    case True
    then obtain us' sp' fs' where "pool_good Q us' sp' fs' bs" "pl_allocated Q = pl_allocated P" "pl_allocations Q = pl_allocations P"
      using M(2) unfolding served_def by auto
    then show ?thesis using M(1) True h c k(1) by (auto simp: run_good_def pool_pointer_def)
  next
    case False
    then obtain us' sp' fs' b where B: "tk_ptr b = r" "tk_size b = unat n" "unat al dvd r" "pool_good Q us' sp' fs' (b # bs)"
      "pl_allocated Q = pl_allocated P + n" "pl_allocations Q = pl_allocations P + 1"
      using M(2) unfolding served_def by auto
    have "r < 2 ^ 64" using good_taken [OF B(4), of b] B(1) by (auto simp: taken_ok_def in_range_def taken_area_def)
    then have u: "unat (of_nat r :: u64) = r" by (simp add: unat_of_nat take_bit_nat_eq_self)
    have "IsAligned (of_nat r) al" by (rule dvd_aligned [OF al(1)]) (use B(3) u in simp)
    then have "holds (pl_memory Q) (of_nat r, n, al, bytes_at (pl_memory Q) (of_nat r) n) b" using B(1,2) u by (simp add: holds_def)
    then have "list_all2 (holds (pl_memory Q)) ((of_nat r, n, al, bytes_at (pl_memory Q) (of_nat r) n) # hs) (b # bs)" using h by simp
    then show ?thesis using M(1) False B(4-6) c k(1) n by (auto simp: run_good_def pool_pointer_def add.commute)
  qed
qed

lemma free_run:
  assumes s: "run_good (P, hs)" and i: "i < length hs" "hs ! i = (p, n, al, ct)"
  shows "run_good (PoolMemoryManager_free aux_free P p n, take i hs @ drop (Suc i) hs)"
    "pl_page (PoolMemoryManager_free aux_free P p n) = pl_page P"
proof -
  obtain us sp fs bs where g: "pool_good P us sp fs bs" "list_all2 (holds (pl_memory P)) hs bs"
    and c: "\<forall>(p, n, al, ct) \<in> set hs. unat n \<le> pl_page P" "pl_allocations P = of_nat (length hs)" "pl_allocated P = (\<Sum>(p, n, al, ct)\<leftarrow>hs. n)"
    using s by (auto simp: run_good_def)
  let ?Q = "PoolMemoryManager_free aux_free P p n"
  have len: "length bs = length hs" using list_all2_lengthD [OF g(2)] by simp
  define bs1 b bs2 where "bs1 = take i bs" and "b = bs ! i" and "bs2 = drop (Suc i) bs"
  have bs: "bs = bs1 @ b # bs2" using i(1) len by (simp add: bs1_def b_def bs2_def id_take_nth_drop)
  have hs: "hs = take i hs @ hs ! i # drop (Suc i) hs" using i(1) by (rule id_take_nth_drop)
  have hb: "holds (pl_memory P) (p, n, al, ct) b" using list_all2_nthD [OF g(2) i(1)] i(2) by (simp add: b_def)
  have n: "unat n \<le> pl_page P" using c(1) nth_mem [OF i(1)] i(2) by auto
  have Q: "?Q = pool_uncount n (release_block P (tk_ptr b))" using n hb by (simp add: PoolMemoryManager_free_def holds_def)
  have l: "layout (pl_memory P) (pl_page P) (pl_free_block P) us sp fs (bs1 @ b # bs2)" using g(1) bs by (simp add: pool_good_def)
  let ?R = "release_block P (tk_ptr b)"
  obtain fs' where R: "layout (pl_memory ?R) (pl_page P) (pl_free_block ?R) us sp fs' (bs1 @ bs2)"
    "\<forall>c \<in> set (bs1 @ bs2). agree (pl_memory P) (pl_memory ?R) (taken_area c)"
    "\<forall>A \<in> set fs'. {fst A..<fst A + snd A} \<subseteq> cover (taken_area b # fs)"
    using release_ok [OF l] unfolding cover_def by (auto simp: list.set)
  have eq: "pl_page ?R = pl_page P" "pl_current ?R = pl_current P" "pl_auxiliary ?R = pl_auxiliary P" "pl_allocated ?R = pl_allocated P"
    "pl_allocations ?R = pl_allocations P" by (simp_all add: release_block_def Let_def)
  then have Qs: "pl_page ?Q = pl_page P" "pl_current ?Q = pl_current P" "pl_auxiliary ?Q = pl_auxiliary P" "pl_memory ?Q = pl_memory ?R"
    "pl_free_block ?Q = pl_free_block ?R" "pl_allocated ?Q = pl_allocated P - n" "pl_allocations ?Q = pl_allocations P - 1"
    unfolding Q by (simp_all add: pool_uncount_def)
  show "pl_page ?Q = pl_page P" by (rule Qs)
  have "cover fs' \<subseteq> cover (taken_area b # fs)" by (rule cover_least) (use R(3) in blast)
  then have "cover (areas (pl_page P) us sp fs' (bs1 @ bs2)) \<subseteq> cover (areas (pl_page P) us sp fs bs)"
    unfolding cover_areas [of _ _ _ fs'] cover_areas [of _ _ _ fs] bs by auto
  then have g': "pool_good ?Q us sp fs' (bs1 @ bs2)" using g(1) R(1) Qs unfolding pool_good_def by auto
  have "list_all2 (holds (pl_memory P)) (take i hs @ drop (Suc i) hs) (bs1 @ bs2)"
    unfolding bs1_def bs2_def using g(2) by (intro list_all2_appendI list_all2_takeI list_all2_dropI)
  then have h: "list_all2 (holds (pl_memory ?Q)) (take i hs @ drop (Suc i) hs) (bs1 @ bs2)"
    unfolding Qs by (rule all_hold) (use R(2) good_taken [OF g(1)] bs in auto)
  have "of_nat (length hs) - 1 = (of_nat (length (take i hs @ drop (Suc i) hs)) :: u64)" using i(1) by (simp add: of_nat_diff)
  moreover have "(\<Sum>(p, n, al, ct)\<leftarrow>hs. n) = (\<Sum>(p, n, al, ct)\<leftarrow>take i hs @ drop (Suc i) hs. n) + n"
    by (subst hs) (simp add: i(2))
  moreover have "set (take i hs @ drop (Suc i) hs) \<subseteq> set hs" using set_take_subset set_drop_subset by fastforce
  ultimately show "run_good (?Q, take i hs @ drop (Suc i) hs)" using g' h c Qs unfolding run_good_def by auto
qed

lemma store_run:
  assumes s: "run_good (P, hs)" and i: "i < length hs" "hs ! i = (p, n, al, ct)" "k < unat n"
  shows "run_good (store_byte P (unat p + k) v, hs[i := (p, n, al, ct[k := v])])"
proof -
  obtain us sp fs bs where g: "pool_good P us sp fs bs" "list_all2 (holds (pl_memory P)) hs bs"
    and c: "\<forall>(p, n, al, ct) \<in> set hs. unat n \<le> pl_page P" "pl_allocations P = of_nat (length hs)" "pl_allocated P = (\<Sum>(p, n, al, ct)\<leftarrow>hs. n)"
    using s by (auto simp: run_good_def)
  let ?m = "(pl_memory P)(unat p + k := v)" and ?h = "(p, n, al, ct[k := v])"
  have len: "length bs = length hs" using list_all2_lengthD [OF g(2)] by simp
  define bs1 b bs2 where "bs1 = take i bs" and "b = bs ! i" and "bs2 = drop (Suc i) bs"
  have bs: "bs = bs1 @ b # bs2" using i(1) len by (simp add: bs1_def b_def bs2_def id_take_nth_drop)
  have hb: "holds (pl_memory P) (p, n, al, ct) b" using list_all2_nthD [OF g(2) i(1)] i(2) by (simp add: b_def)
  have l: "layout (pl_memory P) (pl_page P) (pl_free_block P) us sp fs (bs1 @ b # bs2)" using g(1) bs by (simp add: pool_good_def)
  have x: "tk_ptr b \<le> unat p + k" "unat p + k < tk_ptr b + tk_size b" using hb i(3) by (auto simp: holds_def)
  note L = layout_store [OF l x, of v]
  have "pool_good (store_byte P (unat p + k) v) us sp fs bs" using g(1) L(1) bs by (simp add: pool_good_def store_byte_def)
  moreover have "list_all2 (holds ?m) (hs[i := ?h]) bs"
  proof -
    have "list_all2 (holds (pl_memory P)) (take i hs @ drop (Suc i) hs) (bs1 @ bs2)"
      unfolding bs1_def bs2_def using g(2) by (intro list_all2_appendI list_all2_takeI list_all2_dropI)
    then have "list_all2 (holds ?m) (take i hs @ drop (Suc i) hs) (bs1 @ bs2)" by (rule all_hold) (use L(2) good_taken [OF g(1)] bs in auto)
    then have o: "list_all2 (holds ?m) (take i hs) bs1 \<and> list_all2 (holds ?m) (drop (Suc i) hs) bs2"
      by (subst (asm) list_all2_append) (use i(1) len in \<open>simp_all add: bs1_def\<close>)
    have "bytes_at ?m p n = ct[k := v]" using hb i(3) by (auto simp: holds_def bytes_at_def intro!: nth_equalityI simp: nth_list_update)
    then have "holds ?m ?h b" using hb by (simp add: holds_def)
    then show ?thesis using o unfolding bs upd_conv_take_nth_drop [OF i(1)] by (intro list_all2_appendI) auto
  qed
  moreover have "(\<Sum>(p, n, al, ct)\<leftarrow>hs[i := ?h]. n) = (\<Sum>(p, n, al, ct)\<leftarrow>hs. n)"
    unfolding upd_conv_take_nth_drop [OF i(1)] by (subst (3) id_take_nth_drop [OF i(1)]) (simp add: i(2))
  moreover have "\<forall>(p, n, al, ct) \<in> set (hs[i := ?h]). unat n \<le> pl_page P"
    using c(1) i(1,2) set_update_subset_insert [of hs i ?h] nth_mem [OF i(1)] by fastforce
  ultimately show ?thesis using c unfolding run_good_def by (auto simp: store_byte_def)
qed

lemma run_ok:
  assumes "run_good (P, hs)" "\<forall>op \<in> set ops. pool_request (pl_page P) op"
  shows "\<exists>s. pool_run aux_malloc aux_free ops (P, hs) = Some s \<and> run_good s"
  using assms
proof (induction ops arbitrary: P hs)
  case (Cons op ops)
  have rq: "\<forall>op \<in> set ops. pool_request (pl_page P) op" using Cons.prems(2) by simp
  show ?case
  proof (cases op)
    case (PMalloc n al)
    then have "IsValidAlignment al" "al < 2 ^ 31" "unat n \<le> pl_page P" using Cons.prems(2) by auto
    then obtain q Q where M: "PoolMemoryManager_malloc aux_malloc P n al = Some (q, Q)" "pl_page Q = pl_page P"
      "run_good (Q, (case q of None \<Rightarrow> hs | Some p \<Rightarrow> (p, n, al, bytes_at (pl_memory Q) p n) # hs))" using malloc_run [OF Cons.prems(1)] by blast
    then show ?thesis using Cons.IH [OF M(3)] rq PMalloc by (cases q) auto
  next
    case (PFree i)
    show ?thesis
    proof (cases "i < length hs")
      case True
      obtain p n al ct where h: "hs ! i = (p, n, al, ct)" by (cases "hs ! i")
      show ?thesis using Cons.IH [OF free_run(1) [OF Cons.prems(1) True h]] free_run(2) [OF Cons.prems(1) True h] rq PFree True h by simp
    qed (use Cons.IH [OF Cons.prems(1) rq] PFree in simp)
  next
    case (PStore i k v)
    show ?thesis
    proof (cases "i < length hs")
      case True
      obtain p n al ct where h: "hs ! i = (p, n, al, ct)" by (cases "hs ! i")
      show ?thesis
      proof (cases "k < unat n")
        case k: True
        have "pl_page (store_byte P (unat p + k) v) = pl_page P" by (simp add: store_byte_def)
        then show ?thesis using Cons.IH [OF store_run [OF Cons.prems(1) True h k, of v]] rq PStore True h k by simp
      qed (use Cons.IH [OF Cons.prems(1) rq] PStore True h in simp)
    qed (use Cons.IH [OF Cons.prems(1) rq] PStore in simp)
  qed
qed simp

lemma held_area:
  assumes g: "pool_good P us sp fs bs" "list_all2 (holds (pl_memory P)) hs bs" and i: "i < length hs" "hs ! i = (p, n, al, ct)"
  shows "block p n \<subseteq> {fst (taken_area (bs ! i))..<fst (taken_area (bs ! i)) + snd (taken_area (bs ! i))}" "IsAligned p al"
    "bytes_at (pl_memory P) p n = ct" "block p n \<subseteq> aux_live (pl_auxiliary P) - busy"
proof -
  have h: "holds (pl_memory P) (p, n, al, ct) (bs ! i)" and b: "bs ! i \<in> set bs"
    using list_all2_nthD [OF g(2) i(1)] i list_all2_lengthD [OF g(2)] by auto
  show "IsAligned p al" "bytes_at (pl_memory P) p n = ct" using h by (auto simp: holds_def)
  show s: "block p n \<subseteq> {fst (taken_area (bs ! i))..<fst (taken_area (bs ! i)) + snd (taken_area (bs ! i))}"
    using h good_taken [OF g(1) b] by (auto simp: holds_def taken_ok_def taken_area_def block_def)
  have "cover (areas (pl_page P) us sp fs bs) \<subseteq> aux_live (pl_auxiliary P) - busy" using g(1) by (simp add: pool_good_def)
  then show "block p n \<subseteq> aux_live (pl_auxiliary P) - busy" using s cover_member [OF taken_in_areas [OF b]] by blast
qed

lemma run_facts:
  assumes "run_good (P, hs)"
  shows "disjoint_blocks (held_blocks hs)"
    "\<forall>(p, n, al, ct) \<in> set hs. IsAligned p al \<and> block p n \<subseteq> aux_live (pl_auxiliary P) - busy \<and> bytes_at (pl_memory P) p n = ct"
proof -
  obtain us sp fs bs where g: "pool_good P us sp fs bs" "list_all2 (holds (pl_memory P)) hs bs" using assms by (auto simp: run_good_def)
  note A = held_area [OF g]
  show "\<forall>(p, n, al, ct) \<in> set hs. IsAligned p al \<and> block p n \<subseteq> aux_live (pl_auxiliary P) - busy \<and> bytes_at (pl_memory P) p n = ct"
    using A(2-4) by (fastforce simp: in_set_conv_nth)
  have "sorted_wrt apart (areas (pl_page P) us sp fs bs)" using g(1) by (simp add: pool_good_def layout_def)
  then have so: "sorted_wrt apart (map taken_area bs)" by (simp add: areas_def sorted_wrt_append)
  have "sorted_wrt (\<lambda>h h'. block (fst h) (fst (snd h)) \<inter> block (fst h') (fst (snd h')) = {}) hs" unfolding sorted_wrt_iff_nth_less
  proof (intro allI impI)
    fix i j
    assume ij: "i < j" "j < length hs"
    obtain p n al ct q k al' ct' where h: "hs ! i = (p, n, al, ct)" "hs ! j = (q, k, al', ct')" by (metis prod_cases4)
    have "j < length bs" using list_all2_lengthD [OF g(2)] ij by simp
    then have "apart (taken_area (bs ! i)) (taken_area (bs ! j))" using so ij by (simp add: sorted_wrt_iff_nth_less)
    then show "block (fst (hs ! i)) (fst (snd (hs ! i))) \<inter> block (fst (hs ! j)) (fst (snd (hs ! j))) = {}"
      using A(1) [OF _ h(1)] A(1) [OF _ h(2)] ij unfolding h by (fastforce simp: apart_def)
  qed
  then show "disjoint_blocks (held_blocks hs)" by (simp add: disjoint_blocks_def held_blocks_def sorted_wrt_map split_beta)
qed

subsection \<open>Construction\<close>

lemma blank_good:
  assumes "aux_inv x" "insert 0 busy \<subseteq> aux_live x" "16 \<le> page" "page \<le> 2 ^ 62"
  shows "pool_good ((pool_blank x m)\<lparr> pl_max_pages := k, pl_pages := k, pl_page := page \<rparr>) [] [] [] []"
  using assms by (simp add: pool_good_def pool_blank_def layout_def areas_def)

lemma init_grows:
  assumes "0 < k" "k = (if pages > 0 then pages else 2 ^ 64 - 1)"
  shows "PoolMemoryManager_init aux_malloc aux_free x m page pages =
    map_option snd (pool_grow aux_malloc ((pool_blank x m)\<lparr> pl_max_pages := k, pl_pages := k, pl_page := page \<rparr>) 0)"
  using assms by (simp add: PoolMemoryManager_init_def PoolMemoryManager_reset_pages_def PoolMemoryManager_clear_def ClearMemoryPool_def
      clear_pages.simps pool_blank_def pool_grow_def Let_def link_free_def split: option.split prod.split if_splits)

lemma init_good:
  assumes x: "aux_inv x" "insert 0 busy \<subseteq> aux_live x" "16 \<le> page" "page \<le> 2 ^ 62"
  shows "\<exists>P. PoolMemoryManager_init aux_malloc aux_free x m page pages = Some P \<and> run_good (P, []) \<and> pl_page P = page"
proof -
  define k :: nat where "k = (if pages > 0 then pages else 2 ^ 64 - 1)"
  let ?P = "(pool_blank x m)\<lparr> pl_max_pages := k, pl_pages := k, pl_page := page \<rparr>"
  have k: "0 < k" by (simp add: k_def)
  have g: "pool_good ?P [] [] ([] @ []) []" using blank_good [OF x] by simp
  obtain r Q where G: "pool_grow aux_malloc ?P (last_ptr []) = Some (r, Q)" "grown ?P [] [] [] r Q" using grow_ok [OF g] by blast
  have "PoolMemoryManager_init aux_malloc aux_free x m page pages = Some Q" using init_grows [OF k k_def] G(1) by (simp add: last_ptr_def)
  moreover obtain us sp fs where "pool_good Q us sp fs []" using G(2) unfolding grown_def by blast
  moreover have "pl_page Q = page" "pl_allocated Q = 0" "pl_allocations Q = 0" using G(2) by (auto simp: grown_def kept_def pool_blank_def)
  ultimately show ?thesis by (auto simp: run_good_def)
qed

lemma pool_blocks:
  assumes x: "aux_inv x" "insert 0 busy \<subseteq> aux_live x" "16 \<le> page" "page \<le> 2 ^ 62" and ops: "\<forall>op \<in> set ops. pool_request page op"
  shows "\<exists>P Q hs. PoolMemoryManager_init aux_malloc aux_free x m page pages = Some P \<and>
    pool_run aux_malloc aux_free ops (P, []) = Some (Q, hs) \<and> disjoint_blocks (held_blocks hs) \<and>
    (\<forall>(p, n, al, ct) \<in> set hs. IsAligned p al \<and> block p n \<subseteq> aux_live (pl_auxiliary Q) - busy \<and> bytes_at (pl_memory Q) p n = ct) \<and>
    pl_allocations Q = of_nat (length hs) \<and> pl_allocated Q = (\<Sum>(p, n, al, ct)\<leftarrow>hs. n)"
proof -
  obtain P where P: "PoolMemoryManager_init aux_malloc aux_free x m page pages = Some P" "run_good (P, [])" "pl_page P = page"
    using init_good [OF x] by blast
  obtain s where s: "pool_run aux_malloc aux_free ops (P, []) = Some s" "run_good s" using run_ok [OF P(2)] ops P(3) by blast
  obtain Q hs where Q: "s = (Q, hs)" by (cases s)
  have "pl_allocations Q = of_nat (length hs)" "pl_allocated Q = (\<Sum>(p, n, al, ct)\<leftarrow>hs. n)" using s(2) by (simp_all add: Q run_good_def)
  then show ?thesis using P(1) s(1) run_facts [OF s(2) [unfolded Q]] unfolding Q by (intro exI conjI)
qed

end

sublocale system_heap \<subseteq> default_pool: pool_over
  "DefaultMemoryManager_malloc std_malloc" "\<lambda>m. heap_inv (dm_heap m)" "\<lambda>m. heap_live (dm_heap m)" busy for busy
  by unfold_locales

context system_heap
begin

lemmas default_pool_blocks = default_pool.pool_blocks

end

subsection \<open>Properties\<close>



end
