(* ===== verification/Encoding.thy ===== *)
theory Encoding
  imports Prelude
begin

text \<open>
  The Base16, Base32, Base64 and URL codecs of \<^verbatim>\<open>source/string/encoding.cpp\<close>. A
  \<^verbatim>\<open>std::string\<close> is a list of bytes. The output buffers are written index by index as in the
  source: a store outside the buffer and a read outside the input are \<^const>\<open>OutOfBounds\<close>.
  A malformed input for which the source returns the empty string gives \<open>Inr []\<close>.
\<close>

definition ascii :: "string \<Rightarrow> u8 list" where
  "ascii s = map of_char s"

text \<open>Consecutive stores \<^verbatim>\<open>result[j++] = v\<close>.\<close>

fun write_bytes :: "u8 list \<Rightarrow> nat \<Rightarrow> u8 list \<Rightarrow> u8 list result" where
  "write_bytes buf j [] = Inr buf"
| "write_bytes buf j (v # vs) = bind_result (write_at buf j v) (\<lambda>b. write_bytes b (Suc j) vs)"

subsection \<open>Base16\<close>

definition base16_chars :: "u8 list" where
  "base16_chars = ascii ''0123456789ABCDEF''"

definition base16_table :: "u8 list" where
  "base16_table =
     [0xFF, 0xFF, 0xFF, 0xFF, 0xFF, 0xFF, 0xFF, 0xFF, 0xFF, 0xFF, 0xFF, 0xFF, 0xFF, 0xFF, 0xFF, 0xFF,
      0xFF, 0xFF, 0xFF, 0xFF, 0xFF, 0xFF, 0xFF, 0xFF, 0xFF, 0xFF, 0xFF, 0xFF, 0xFF, 0xFF, 0xFF, 0xFF,
      0xFF, 0xFF, 0xFF, 0xFF, 0xFF, 0xFF, 0xFF, 0xFF, 0xFF, 0xFF, 0xFF, 0xFF, 0xFF, 0xFF, 0xFF, 0xFF,
      0x00, 0x01, 0x02, 0x03, 0x04, 0x05, 0x06, 0x07, 0x08, 0x09, 0xFF, 0xFF, 0xFF, 0xFF, 0xFF, 0xFF,
      0xFF, 0x0a, 0x0b, 0x0c, 0x0d, 0x0e, 0x0f, 0xFF, 0xFF, 0xFF, 0xFF, 0xFF, 0xFF, 0xFF, 0xFF, 0xFF,
      0xFF, 0xFF, 0xFF, 0xFF, 0xFF, 0xFF, 0xFF, 0xFF, 0xFF, 0xFF, 0xFF, 0xFF, 0xFF, 0xFF, 0xFF, 0xFF,
      0xFF, 0x0a, 0x0b, 0x0c, 0x0d, 0x0e, 0x0f, 0xFF, 0xFF, 0xFF, 0xFF, 0xFF, 0xFF, 0xFF, 0xFF, 0xFF,
      0xFF, 0xFF, 0xFF, 0xFF, 0xFF, 0xFF, 0xFF, 0xFF, 0xFF, 0xFF, 0xFF, 0xFF, 0xFF, 0xFF, 0xFF, 0xFF]"

fun base16_encode_loop :: "u8 list \<Rightarrow> u8 list \<Rightarrow> nat \<Rightarrow> u8 list result" where
  "base16_encode_loop [] result j = Inr result"
| "base16_encode_loop (ch # str) result j =
     bind_result
       (write_bytes result j
          [base16_chars ! unat (drop_bit 4 (ch AND 0xF0)), base16_chars ! unat (ch AND 0x0F)])
       (\<lambda>result. base16_encode_loop str result (j + 2))"

definition Base16Encode :: "u8 list \<Rightarrow> u8 list result" where
  "Base16Encode str = base16_encode_loop str (replicate (length str * 2) 0) 0"

fun base16_decode_loop :: "u8 list \<Rightarrow> u8 list \<Rightarrow> nat \<Rightarrow> u8 list result" where
  "base16_decode_loop (a # b # str) result j =
     (if a \<ge> 0x80 \<or> b \<ge> 0x80 then Inr []
      else bind_result
        (write_bytes result j
           [push_bit 4 (base16_table ! unat a) OR base16_table ! unat b])
        (\<lambda>result. base16_decode_loop str result (j + 1)))"
| "base16_decode_loop _ result j = Inr result"

definition Base16Decode :: "u8 list \<Rightarrow> u8 list result" where
  "Base16Decode str =
     (if length str mod 2 \<noteq> 0 then Inr []
      else base16_decode_loop str (replicate (length str div 2) 0) 0)"

subsection \<open>Base32\<close>

definition base32_chars :: "u8 list" where
  "base32_chars = ascii ''ABCDEFGHIJKLMNOPQRSTUVWXYZ234567=''"

definition base32_table :: "u8 list" where
  "base32_table =
     [0xFF, 0xFF, 0xFF, 0xFF, 0xFF, 0xFF, 0xFF, 0xFF, 0xFF, 0xFF, 0xFF, 0xFF, 0xFF, 0xFF, 0xFF, 0xFF,
      0xFF, 0xFF, 0xFF, 0xFF, 0xFF, 0xFF, 0xFF, 0xFF, 0xFF, 0xFF, 0xFF, 0xFF, 0xFF, 0xFF, 0xFF, 0xFF,
      0xFF, 0xFF, 0xFF, 0xFF, 0xFF, 0xFF, 0xFF, 0xFF, 0xFF, 0xFF, 0xFF, 0xFF, 0xFF, 0xFF, 0xFF, 0xFF,
      0xFF, 0xFF, 0x1a, 0x1b, 0x1c, 0x1d, 0x1e, 0x1f, 0xFF, 0xFF, 0xFF, 0xFF, 0xFF, 0x20, 0xFF, 0xFF,
      0xFF, 0x00, 0x01, 0x02, 0x03, 0x04, 0x05, 0x06, 0x07, 0x08, 0x09, 0x0a, 0x0b, 0x0c, 0x0d, 0x0e,
      0x0f, 0x10, 0x11, 0x12, 0x13, 0x14, 0x15, 0x16, 0x17, 0x18, 0x19, 0xFF, 0xFF, 0xFF, 0xFF, 0xFF,
      0xFF, 0x00, 0x01, 0x02, 0x03, 0x04, 0x05, 0x06, 0x07, 0x08, 0x09, 0x0a, 0x0b, 0x0c, 0x0d, 0x0e,
      0x0f, 0x10, 0x11, 0x12, 0x13, 0x14, 0x15, 0x16, 0x17, 0x18, 0x19, 0xFF, 0xFF, 0xFF, 0xFF, 0xFF]"

text \<open>
  The eight group values of one block. A case label of the \<^verbatim>\<open>switch\<close> falls through to the next
  one, so the code at label \<open>k\<close> runs for every block of at least \<open>k\<close> bytes.
\<close>

definition base32_groups :: "u8 list \<Rightarrow> nat \<Rightarrow> u8 list" where
  "base32_groups s block =
     (let n8 = (if block \<ge> 5 then s ! 4 AND 0x1F else 0);
          n7 = (if block \<ge> 5 then drop_bit 5 (s ! 4 AND 0xE0) else 0);
          n7 = (if block \<ge> 4 then n7 OR push_bit 3 (s ! 3 AND 0x03) else n7);
          n6 = (if block \<ge> 4 then drop_bit 2 (s ! 3 AND 0x7C) else 0);
          n5 = (if block \<ge> 4 then drop_bit 7 (s ! 3 AND 0x80) else 0);
          n5 = (if block \<ge> 3 then n5 OR push_bit 1 (s ! 2 AND 0x0F) else n5);
          n4 = (if block \<ge> 3 then drop_bit 4 (s ! 2 AND 0xF0) else 0);
          n4 = (if block \<ge> 2 then n4 OR push_bit 4 (s ! 1 AND 0x01) else n4);
          n3 = (if block \<ge> 2 then drop_bit 1 (s ! 1 AND 0x3E) else 0);
          n2 = (if block \<ge> 2 then drop_bit 6 (s ! 1 AND 0xC0) else 0);
          n2 = (if block \<ge> 1 then n2 OR push_bit 2 (s ! 0 AND 0x07) else n2);
          n1 = (if block \<ge> 1 then drop_bit 3 (s ! 0 AND 0xF8) else 0);
          n3 = (if block \<le> 1 then 32 else n3);
          n4 = (if block \<le> 1 then 32 else n4);
          n5 = (if block \<le> 2 then 32 else n5);
          n6 = (if block \<le> 3 then 32 else n6);
          n7 = (if block \<le> 3 then 32 else n7);
          n8 = (if block \<le> 4 then 32 else n8)
      in [n1, n2, n3, n4, n5, n6, n7, n8])"

function base32_encode_loop :: "u8 list \<Rightarrow> u8 list \<Rightarrow> nat \<Rightarrow> u8 list result" where
  "base32_encode_loop str result j =
     (if str = [] then Inr result
      else
        let block = (if length str < 5 then length str else 5)
        in bind_result
             (write_bytes result j (map (\<lambda>n. base32_chars ! unat n) (base32_groups str block)))
             (\<lambda>result. base32_encode_loop (drop block str) result (j + 8)))"
  by pat_completeness auto
termination
  by (relation "measure (\<lambda>(str, _, _). length str)") auto

declare base32_encode_loop.simps [simp del]

definition Base32Encode :: "u8 list \<Rightarrow> u8 list result" where
  "Base32Encode str =
     base32_encode_loop str
       (replicate (length str div 5 * 8 + (if length str mod 5 \<noteq> 0 then 8 else 0)) 0) 0"

text \<open>The five bytes of one block of group values, before padding is removed.\<close>

definition base32_bytes :: "u8 list \<Rightarrow> u8 list" where
  "base32_bytes n =
     [push_bit 3 (n ! 0 AND 0x1F) OR drop_bit 2 (n ! 1 AND 0x1C),
      push_bit 6 (n ! 1 AND 0x03) OR push_bit 1 (n ! 2 AND 0x1F) OR drop_bit 4 (n ! 3 AND 0x10),
      push_bit 4 (n ! 3 AND 0x0F) OR drop_bit 1 (n ! 4 AND 0x1E),
      push_bit 7 (n ! 4 AND 0x01) OR push_bit 2 (n ! 5 AND 0x1F) OR drop_bit 3 (n ! 6 AND 0x18),
      push_bit 5 (n ! 6 AND 0x07) OR (n ! 7 AND 0x1F)]"

definition base32_pad :: "u8 list \<Rightarrow> nat" where
  "base32_pad n =
     (if n ! 7 = 32 then
        1 + (if n ! 5 = 32 then
               1 + (if n ! 4 = 32 then 1 + (if n ! 2 = 32 then 1 else 0) else 0)
             else 0)
      else 0)"

function base32_decode_loop :: "u8 list \<Rightarrow> u8 list \<Rightarrow> nat \<Rightarrow> u8 list result" where
  "base32_decode_loop str result j =
     (if length str < 8 then Inr result
      else if \<exists>c \<in> set (take 8 str). c \<ge> 0x80 then Inr []
      else
        let n = map (\<lambda>c. base32_table ! unat c) (take 8 str)
        in if n ! 0 > 31 \<or> n ! 1 > 31 then Inr []
           else if \<exists>v \<in> set (drop 2 n). v > 32 then Inr []
           else bind_result (write_bytes result j (base32_bytes n))
                  (\<lambda>result. base32_decode_loop (drop 8 str)
                     (take (length result - base32_pad n) result) (j + 5)))"
  by pat_completeness auto
termination
  by (relation "measure (\<lambda>(str, _, _). length str)") auto

declare base32_decode_loop.simps [simp del]

definition Base32Decode :: "u8 list \<Rightarrow> u8 list result" where
  "Base32Decode str =
     (if length str mod 8 \<noteq> 0 then Inr []
      else base32_decode_loop str (replicate (length str div 8 * 5) 0) 0)"

subsection \<open>Base64\<close>

definition base64_chars :: "u8 list" where
  "base64_chars = ascii ''ABCDEFGHIJKLMNOPQRSTUVWXYZabcdefghijklmnopqrstuvwxyz0123456789+/''"

definition base64_table :: "u8 list" where
  "base64_table =
     [0x00, 0x00, 0x00, 0x00, 0x00, 0x00, 0x00, 0x00, 0x00, 0x00, 0x00, 0x00, 0x00, 0x00, 0x00, 0x00,
      0x00, 0x00, 0x00, 0x00, 0x00, 0x00, 0x00, 0x00, 0x00, 0x00, 0x00, 0x00, 0x00, 0x00, 0x00, 0x00,
      0x00, 0x00, 0x00, 0x00, 0x00, 0x00, 0x00, 0x00, 0x00, 0x00, 0x00, 0x3e, 0x00, 0x00, 0x00, 0x3f,
      0x34, 0x35, 0x36, 0x37, 0x38, 0x39, 0x3a, 0x3b, 0x3c, 0x3d, 0x00, 0x00, 0x00, 0x00, 0x00, 0x00,
      0x00, 0x00, 0x01, 0x02, 0x03, 0x04, 0x05, 0x06, 0x07, 0x08, 0x09, 0x0a, 0x0b, 0x0c, 0x0d, 0x0e,
      0x0f, 0x10, 0x11, 0x12, 0x13, 0x14, 0x15, 0x16, 0x17, 0x18, 0x19, 0x00, 0x00, 0x00, 0x00, 0x00,
      0x00, 0x1a, 0x1b, 0x1c, 0x1d, 0x1e, 0x1f, 0x20, 0x21, 0x22, 0x23, 0x24, 0x25, 0x26, 0x27, 0x28,
      0x29, 0x2a, 0x2b, 0x2c, 0x2d, 0x2e, 0x2f, 0x30, 0x31, 0x32, 0x33, 0x00, 0x00, 0x00, 0x00, 0x00,
      0x00, 0x00, 0x00, 0x00, 0x00, 0x00, 0x00, 0x00, 0x00, 0x00, 0x00, 0x00, 0x00, 0x00, 0x00, 0x00,
      0x00, 0x00, 0x00, 0x00, 0x00, 0x00, 0x00, 0x00, 0x00, 0x00, 0x00, 0x00, 0x00, 0x00, 0x00, 0x00,
      0x00, 0x00, 0x00, 0x00, 0x00, 0x00, 0x00, 0x00, 0x00, 0x00, 0x00, 0x00, 0x00, 0x00, 0x00, 0x00,
      0x00, 0x00, 0x00, 0x00, 0x00, 0x00, 0x00, 0x00, 0x00, 0x00, 0x00, 0x00, 0x00, 0x00, 0x00, 0x00,
      0x00, 0x00, 0x00, 0x00, 0x00, 0x00, 0x00, 0x00, 0x00, 0x00, 0x00, 0x00, 0x00, 0x00, 0x00, 0x00,
      0x00, 0x00, 0x00, 0x00, 0x00, 0x00, 0x00, 0x00, 0x00, 0x00, 0x00, 0x00, 0x00, 0x00, 0x00, 0x00,
      0x00, 0x00, 0x00, 0x00, 0x00, 0x00, 0x00, 0x00, 0x00, 0x00, 0x00, 0x00, 0x00, 0x00, 0x00, 0x00,
      0x00, 0x00, 0x00, 0x00, 0x00, 0x00, 0x00, 0x00, 0x00, 0x00, 0x00, 0x00, 0x00, 0x00, 0x00, 0x00]"

definition base64_sextets :: "u32 \<Rightarrow> u8 list" where
  "base64_sextets triple =
     map (\<lambda>k. base64_chars ! unat (drop_bit k triple AND 0x3F)) [18, 12, 6, 0]"

definition octet :: "u8 list \<Rightarrow> nat \<Rightarrow> u32" where
  "octet str k = (if k < length str then ucast (str ! k) else 0)"

function base64_encode_loop :: "u8 list \<Rightarrow> u8 list \<Rightarrow> nat \<Rightarrow> u8 list result" where
  "base64_encode_loop str result j =
     (if str = [] then Inr result
      else
        let triple = push_bit 16 (octet str 0) + push_bit 8 (octet str 1) + octet str 2
        in bind_result (write_bytes result j (base64_sextets triple))
             (\<lambda>result. base64_encode_loop (drop 3 str) result (j + 4)))"
  by pat_completeness auto
termination
  by (relation "measure (\<lambda>(str, _, _). length str)") auto

declare base64_encode_loop.simps [simp del]

fun base64_fill :: "nat \<Rightarrow> u8 list \<Rightarrow> u8 list" where
  "base64_fill 0 result = result"
| "base64_fill (Suc m) result = (base64_fill m result)[length result - 1 - m := 0x3D]"

definition base64_mods :: "nat list" where
  "base64_mods = [0, 2, 1]"

definition Base64Encode :: "u8 list \<Rightarrow> u8 list result" where
  "Base64Encode str =
     bind_result
       (base64_encode_loop str (replicate (4 * ((length str + 2) div 3)) 0) 0)
       (\<lambda>result. Inr (base64_fill (base64_mods ! (length str mod 3)) result))"

definition sextet :: "u8 \<Rightarrow> u32" where
  "sextet c = (if c = 0x3D then 0 else ucast (base64_table ! unat c))"

text \<open>The three guarded stores \<^verbatim>\<open>if (j < olength) result[j++] = v\<close>.\<close>

fun write_guarded :: "nat \<Rightarrow> u8 list \<Rightarrow> nat \<Rightarrow> u8 list \<Rightarrow> (u8 list \<times> nat) result" where
  "write_guarded olength result j [] = Inr (result, j)"
| "write_guarded olength result j (v # vs) =
     (if j < olength
      then bind_result (write_at result j v) (\<lambda>r. write_guarded olength r (Suc j) vs)
      else write_guarded olength result j vs)"

function base64_decode_loop :: "nat \<Rightarrow> u8 list \<Rightarrow> u8 list \<Rightarrow> nat \<Rightarrow> u8 list result" where
  "base64_decode_loop olength str result j =
     (if length str < 4 then Inr result
      else
        let triple = push_bit 18 (sextet (str ! 0)) + push_bit 12 (sextet (str ! 1)) +
                     push_bit 6 (sextet (str ! 2)) + sextet (str ! 3)
        in bind_result
             (write_guarded olength result j
                (map (\<lambda>k. ucast (drop_bit k triple AND 0xFF)) [16, 8, 0]))
             (\<lambda>(result, j). base64_decode_loop olength (drop 4 str) result j))"
  by pat_completeness auto
termination
  by (relation "measure (\<lambda>(_, str, _, _). length str)") auto

declare base64_decode_loop.simps [simp del]

definition Base64Decode :: "u8 list \<Rightarrow> u8 list result" where
  "Base64Decode str =
     (let ilength = length str
      in if ilength mod 4 \<noteq> 0 then Inr []
         else if ilength = 0 then Inl OutOfBounds
         else
           let olength = ilength div 4 * 3;
               olength = (if str ! (ilength - 1) = 0x3D then olength - 1 else olength);
               olength = (if str ! (ilength - 2) = 0x3D then olength - 1 else olength)
           in base64_decode_loop olength str (replicate olength 0) 0)"

subsection \<open>URL encoding\<close>

text \<open>\<^verbatim>\<open>isalnum\<close> of the C locale, on bytes.\<close>

definition isalnum :: "u8 \<Rightarrow> bool" where
  "isalnum ch \<longleftrightarrow> (0x30 \<le> ch \<and> ch \<le> 0x39) \<or> (0x41 \<le> ch \<and> ch \<le> 0x5A) \<or> (0x61 \<le> ch \<and> ch \<le> 0x7A)"

definition url_plain :: "u8 \<Rightarrow> bool" where
  "url_plain ch \<longleftrightarrow> isalnum ch \<or> ch \<in> {0x2D, 0x2E, 0x2F, 0x5F, 0x7E}"

fun URLEncode :: "u8 list \<Rightarrow> u8 list" where
  "URLEncode [] = []"
| "URLEncode (ch # str) =
     (if url_plain ch then [ch]
      else if ch = 0x20 then [0x2B]
      else [0x25, base16_chars ! unat (drop_bit 4 ch AND 0x0F), base16_chars ! unat (ch AND 0x0F)])
     @ URLEncode str"

text \<open>\<^verbatim>\<open>std::find(hex, hex + 16, c) - hex\<close>: the position of the first match, 16 without one.\<close>

fun find_index :: "u8 \<Rightarrow> u8 list \<Rightarrow> nat" where
  "find_index c [] = 0"
| "find_index c (x # xs) = (if x = c then 0 else Suc (find_index c xs))"

fun URLDecode :: "u8 list \<Rightarrow> u8 list" where
  "URLDecode [] = []"
| "URLDecode (ch # str) =
     (if ch = 0x25 then
        (case str of
           [] \<Rightarrow> [0x3F]
         | [c] \<Rightarrow> [0x3F]
         | c # d # rest \<Rightarrow>
             (let hi = find_index (toupper c) base16_chars; lo = find_index (toupper d) base16_chars
              in if hi \<ge> 16 \<or> lo \<ge> 16 then [0x3F]
                 else of_nat (hi * 16 + lo) # URLDecode rest))
      else if ch = 0x2B then 0x20 # URLDecode str
      else ch # URLDecode str)"

subsection \<open>Reference texts\<close>

text \<open>
  What the encoders produce, without the output buffer: two digits per byte (Base16), eight
  characters per block of at most five bytes (Base32) and four characters per block of at most three
  bytes (Base64; \<open>base64_raw\<close> is the text before the padding characters overwrite its end).
\<close>

definition base16_digits :: "u8 \<Rightarrow> u8 list" where
  "base16_digits ch = [base16_chars ! unat (drop_bit 4 (ch AND 0xF0)), base16_chars ! unat (ch AND 0x0F)]"

abbreviation block32 :: "u8 list \<Rightarrow> nat" where
  "block32 str \<equiv> (if length str < 5 then length str else 5)"

function base32_text :: "u8 list \<Rightarrow> u8 list" where
  "base32_text str =
     (if str = [] then []
      else map (\<lambda>n. base32_chars ! unat n) (base32_groups str (block32 str)) @ base32_text (drop (block32 str) str))"
  by pat_completeness auto
termination by (relation "measure length") auto

declare base32_text.simps [simp del]

definition blocks_of :: "nat \<Rightarrow> nat \<Rightarrow> nat" where
  "blocks_of k n = n div k + (if n mod k = 0 then 0 else 1)"

definition base32_block_ok :: "u8 list \<Rightarrow> u8 list \<Rightarrow> bool" where
  "base32_block_ok str g \<longleftrightarrow>
     base32_bytes g = take 5 str @ replicate (5 - block32 str) 0 \<and> base32_pad g = 5 - block32 str \<and>
     (\<forall>v \<in> set g. v \<le> 32) \<and> g ! 0 < 32 \<and> g ! 1 < 32"

definition base64_triple :: "u32 \<Rightarrow> u32 \<Rightarrow> u32 \<Rightarrow> u32" where
  "base64_triple a b c = push_bit 16 a + push_bit 8 b + c"

fun base64_raw :: "u8 list \<Rightarrow> u8 list" where
  "base64_raw [] = []"
| "base64_raw [a] = base64_sextets (base64_triple (ucast a) 0 0)"
| "base64_raw [a, b] = base64_sextets (base64_triple (ucast a) (ucast b) 0)"
| "base64_raw (a # b # c # s) = base64_sextets (base64_triple (ucast a) (ucast b) (ucast c)) @ base64_raw s"

fun base64_text :: "u8 list \<Rightarrow> u8 list" where
  "base64_text [] = []"
| "base64_text [a] = take 2 (base64_raw [a]) @ [0x3D, 0x3D]"
| "base64_text [a, b] = take 3 (base64_raw [a, b]) @ [0x3D]"
| "base64_text (a # b # c # s) = base64_sextets (base64_triple (ucast a) (ucast b) (ucast c)) @ base64_text s"

subsection \<open>The contract of a codec\<close>

text \<open>
  A codec encodes every string of a domain without an error and decodes its own output. Two strings
  with the same text are then equal, and the decoder is onto the domain.
\<close>

locale codec =
  fixes encode :: "u8 list \<Rightarrow> u8 list result"
    and decode :: "u8 list \<Rightarrow> u8 list result"
    and dom :: "u8 list \<Rightarrow> bool"
  assumes decode_encode: "dom s \<Longrightarrow> bind_result (encode s) decode = Inr s"
begin

lemma encode_total: "dom s \<Longrightarrow> \<exists>t. encode s = Inr t \<and> decode t = Inr s"
  using decode_encode [of s] by simp

lemma encode_inj: "dom s \<Longrightarrow> dom s' \<Longrightarrow> encode s = encode s' \<Longrightarrow> s = s'"
  by (metis decode_encode sum.inject(2))

end

subsection \<open>Buffers and bits\<close>

lemma write_bytes_over:
  "length old = length vs \<Longrightarrow> write_bytes (pre @ old @ post) (length pre) vs = Inr (pre @ vs @ post)"
proof (induction vs arbitrary: pre old)
  case (Cons v vs)
  then obtain o1 old' where old: "old = o1 # old'" "length old' = length vs" by (cases old) auto
  have "write_at (pre @ old @ post) (length pre) v = Inr ((pre @ [v]) @ old' @ post)"
    by (simp add: old)
  then show ?case using Cons.IH [of old' "pre @ [v]"] old by simp
qed simp

lemma write_bytes_zeros:
  "length vs \<le> m \<Longrightarrow>
   write_bytes (pre @ replicate m 0) (length pre) vs = Inr (pre @ vs @ replicate (m - length vs) 0)"
  using write_bytes_over [of "replicate (length vs) 0" vs pre "replicate (m - length vs) 0"]
  by (simp add: replicate_add [symmetric])

lemma u8_eqI:
  fixes a b :: u8
  assumes "bit a 0 = bit b 0" "bit a 1 = bit b 1" "bit a 2 = bit b 2" "bit a 3 = bit b 3"
    "bit a 4 = bit b 4" "bit a 5 = bit b 5" "bit a 6 = bit b 6" "bit a 7 = bit b 7"
  shows "a = b"
proof (rule bit_word_eqI)
  fix n assume "n < LENGTH(8)"
  then have "n \<in> {0, 1, 2, 3, 4, 5, 6, 7}" by (auto simp: numeral_eq_Suc less_Suc_eq)
  with assms show "bit a n = bit b n" by auto
qed

lemma nibbles_join: "push_bit 4 (drop_bit 4 (c AND 0xF0)) OR (c AND 0x0F) = (c :: u8)"
  by (rule u8_eqI) (simp_all add: bit_simps)

lemma bit_times_two: "bit (x * 2 :: 'a::len word) n \<longleftrightarrow> 0 < n \<and> n < LENGTH('a) \<and> bit x (n - 1)"
  using bit_double_iff [of x n] by (auto simp: mult.commute possible_bit_def)

lemmas bit_blast_simps = bit_simps bit_times_two

lemma u8_less_32I: "\<not> bit x 5 \<Longrightarrow> \<not> bit x 6 \<Longrightarrow> \<not> bit x 7 \<Longrightarrow> (x :: u8) < 32"
proof -
  assume "\<not> bit x 5" "\<not> bit x 6" "\<not> bit x 7"
  then have "x = x AND 31" by (intro u8_eqI) (simp_all add: bit_blast_simps)
  moreover have "x AND 31 < 32" using word_and_le1 [of x 31] by (simp add: word_le_nat_alt word_less_nat_alt)
  ultimately show ?thesis by simp
qed

lemma base32_bytes_groups:
  "base32_bytes (base32_groups (a # b # c # d # e # s) 5) = [a, b, c, d, e]"
  "base32_bytes (base32_groups [a, b, c, d] 4) = [a, b, c, d, 0]"
  "base32_bytes (base32_groups [a, b, c] 3) = [a, b, c, 0, 0]"
  "base32_bytes (base32_groups [a, b] 2) = [a, b, 0, 0, 0]"
  "base32_bytes (base32_groups [a] 1) = [a, 0, 0, 0, 0]"
  unfolding base32_bytes_def base32_groups_def Let_def
  by (simp_all; (intro conjI)?; rule u8_eqI; simp add: bit_blast_simps; simp add: numeral_eq_Suc)+

lemma base32_groups_values:
  "\<forall>n \<in> set (base32_groups (a # b # c # d # e # s) 5). n < 32"
  "\<forall>n \<in> set (take 7 (base32_groups [a, b, c, d] 4)). n < 32"
  "\<forall>n \<in> set (take 5 (base32_groups [a, b, c] 3)). n < 32"
  "\<forall>n \<in> set (take 4 (base32_groups [a, b] 2)). n < 32"
  "\<forall>n \<in> set (take 2 (base32_groups [a] 1)). n < 32"
  unfolding base32_groups_def Let_def
  by (auto intro!: u8_less_32I simp: bit_blast_simps)
lemma base32_groups_padding:
  "drop 7 (base32_groups [a, b, c, d] 4) = [32]"
  "drop 5 (base32_groups [a, b, c] 3) = [32, 32, 32]"
  "drop 4 (base32_groups [a, b] 2) = [32, 32, 32, 32]"
  "drop 2 (base32_groups [a] 1) = [32, 32, 32, 32, 32, 32]"
  unfolding base32_groups_def Let_def
  by simp_all

subsection \<open>Base16 and URL: the decoders invert the encoders\<close>

lemma base16_chars_table:
  "\<forall>n \<in> set [0..<16]. base16_table ! unat (base16_chars ! n) = of_nat n \<and> base16_chars ! n < 0x80
     \<and> find_index (toupper (base16_chars ! n)) base16_chars = n"
  by code_simp

lemma nibble_range: "unat (drop_bit 4 (c AND 0xF0)) \<in> set [0..<16]" "unat ((c::u8) AND 0x0F) \<in> set [0..<16]"
proof -
  have "drop_bit 4 (c AND 0xF0) = drop_bit 4 c AND 0x0F" by (rule u8_eqI) (simp_all add: bit_blast_simps)
  then show "unat (drop_bit 4 (c AND 0xF0)) \<in> set [0..<16]" "unat (c AND 0x0F) \<in> set [0..<16]"
    using unat_and_mask_pow2 [of 4 c] unat_and_mask_pow2 [of 4 "drop_bit 4 c"] by simp_all
qed

lemma base16_encode_loop_digits:
  "base16_encode_loop str (pre @ replicate (length str * 2) 0) (length pre) = Inr (pre @ concat (map base16_digits str))"
proof (induction str arbitrary: pre)
  case (Cons ch str)
  have "write_bytes (pre @ replicate (length (ch # str) * 2) 0) (length pre) (base16_digits ch)
     = Inr ((pre @ base16_digits ch) @ replicate (length str * 2) 0)"
    by (simp add: write_bytes_zeros base16_digits_def del: write_bytes.simps replicate.simps)
  then show ?case using Cons [of "pre @ base16_digits ch"]
    by (simp add: base16_digits_def)
qed simp

lemma Base16Encode_digits: "Base16Encode str = Inr (concat (map base16_digits str))"
  using base16_encode_loop_digits [of str "[]"] by (simp add: Base16Encode_def)

lemma base16_decode_digits:
  "base16_decode_loop (base16_digits ch @ str) result j =
   bind_result (write_bytes result j [ch]) (\<lambda>result. base16_decode_loop str result (j + 1))"
proof -
  have "base16_table ! unat (base16_chars ! n) = of_nat n" "base16_chars ! n < 0x80" if "n \<in> set [0..<16]" for n
    using base16_chars_table that by blast+
  from this [OF nibble_range(1) [of ch]] this [OF nibble_range(2) [of ch]]
  show ?thesis
    by (simp only: base16_digits_def append.simps base16_decode_loop.simps nibbles_join word_of_unat not_le [symmetric]
        simp_thms if_False)
qed

lemma base16_decode_loop_digits:
  "base16_decode_loop (concat (map base16_digits str)) (pre @ replicate (length str) 0) (length pre) = Inr (pre @ str)"
proof (induction str arbitrary: pre)
  case (Cons ch str)
  then show ?case using Cons [of "pre @ [ch]"]
    by (simp add: base16_decode_digits write_bytes_zeros)
qed simp

lemma length_base16_digits: "length (concat (map base16_digits str)) = 2 * length str"
  by (induction str) (auto simp: base16_digits_def)

lemma Base16_decode_encode: "bind_result (Base16Encode str) Base16Decode = Inr str"
  using base16_decode_loop_digits [of str "[]"]
  by (simp add: Base16Encode_digits Base16Decode_def length_base16_digits)

lemma hex_digits_decode:
  assumes "h \<in> set [0..<16]" "l \<in> set [0..<16]"
  shows "URLDecode (0x25 # base16_chars ! h # base16_chars ! l # s) = of_nat (h * 16 + l) # URLDecode s"
proof -
  have "find_index (toupper (base16_chars ! n)) base16_chars = n" if "n \<in> set [0..<16]" for n
    using base16_chars_table that by blast
  from this [OF assms(1)] this [OF assms(2)] assms show ?thesis by (simp add: Let_def)
qed

lemma nibble_value: "of_nat (unat (drop_bit 4 ch AND 0x0F) * 16 + unat (ch AND 0x0F)) = (ch :: u8)"
proof -
  have "unat ch = unat ch div 16 * 16 + unat ch mod 16" by simp
  moreover have "unat (drop_bit 4 ch AND 0x0F) = unat ch div 16"
  proof -
    have "unat (drop_bit 4 ch AND 0x0F) = unat (drop_bit 4 ch) mod 16"
      using unat_and_mask_pow2 [of 4 "drop_bit 4 ch"] by simp
    also have "unat (drop_bit 4 ch) = unat ch div 16"
      by (simp add: drop_bit_eq_div unat_div_distrib)
    moreover have "unat ch < 2 ^ 8" by (rule order_less_le_trans [OF unsigned_less]) simp
    ultimately show ?thesis by (simp add: div_less_dividend less_mult_imp_div_less)
  qed
  moreover have "unat (ch AND 0x0F) = unat ch mod 16" using unat_and_mask_pow2 [of 4 ch] by simp
  ultimately show ?thesis by (metis word_of_unat)
qed

lemma URL_decode_encode: "URLDecode (URLEncode str) = str"
proof (induction str)
  case (Cons ch str)
  consider (plain) "url_plain ch" | (space) "\<not> url_plain ch" "ch = 0x20" | (hex) "\<not> url_plain ch" "ch \<noteq> 0x20" by blast
  then show ?case
  proof cases
    case plain
    then have "ch \<noteq> 0x25" "ch \<noteq> 0x2B" by (auto simp: url_plain_def isalnum_def)
    with plain Cons show ?thesis by simp
  next
    case hex
    have "URLEncode (ch # str) = 0x25 # base16_chars ! unat (drop_bit 4 ch AND 0x0F) # base16_chars ! unat (ch AND 0x0F) # URLEncode str"
      using hex by simp
    moreover have "unat (drop_bit 4 ch AND 0x0F) \<in> set [0..<16]" "unat (ch AND 0x0F) \<in> set [0..<16]"
      using unat_and_mask_pow2 [of 4 ch] unat_and_mask_pow2 [of 4 "drop_bit 4 ch"] by simp_all
    ultimately show ?thesis by (simp only: hex_digits_decode nibble_value Cons)
  qed (use Cons in simp)
qed simp

subsection \<open>Base32: the decoder inverts the encoder\<close>

lemma base32_chars_table:
  "\<forall>n \<in> set [0..<33]. base32_table ! unat (base32_chars ! n) = of_nat n \<and> base32_chars ! n < 0x80"
  by code_simp

lemma base32_inverse:
  assumes "v \<le> 32"
  shows "base32_table ! unat (base32_chars ! unat v) = v" "base32_chars ! unat v < 0x80"
proof -
  have "unat v \<in> set [0..<33]" using assms by (simp add: word_le_nat_alt)
  then show "base32_table ! unat (base32_chars ! unat v) = v" "base32_chars ! unat v < 0x80"
    using base32_chars_table by (auto simp del: set_upt)
qed

lemma base32_text_Nil [simp]: "base32_text [] = []" by (simp add: base32_text.simps)

lemma length_base32_groups [simp]: "length (base32_groups s b) = 8"
  by (simp add: base32_groups_def Let_def)

lemma blocks_of_0 [simp]: "blocks_of k 0 = 0" by (simp add: blocks_of_def)

lemma blocks_of_step:
  "0 < k \<Longrightarrow> 0 < n \<Longrightarrow> blocks_of k n = Suc (blocks_of k (n - (if n < k then n else k)))"
  by (auto simp: blocks_of_def le_div_geq le_mod_geq)

lemma base32_encode_loop_step:
  "str \<noteq> [] \<Longrightarrow> base32_encode_loop str result j =
     bind_result
       (write_bytes result j (map (\<lambda>n. base32_chars ! unat n) (base32_groups str (block32 str))))
       (\<lambda>result. base32_encode_loop (drop (block32 str) str) result (j + 8))"
  by (subst base32_encode_loop.simps) (simp only: Let_def if_False)

lemma base32_encode_loop_text:
  "base32_encode_loop str (pre @ replicate (8 * blocks_of 5 (length str)) 0) (length pre)
   = Inr (pre @ base32_text str)"
proof (induction str arbitrary: pre rule: base32_text.induct)
  case (1 str)
  show ?case
  proof (cases "str = []")
    case False
    define g where "g = map (\<lambda>n. base32_chars ! unat n) (base32_groups str (block32 str))"
    define r where "r = drop (block32 str) str"
    have b: "blocks_of 5 (length str) = Suc (blocks_of 5 (length r))"
      using blocks_of_step [of 5 "length str"] False by (simp add: r_def)
    have len: "length g = 8" by (simp add: g_def)
    have w: "write_bytes (pre @ replicate (8 * blocks_of 5 (length str)) 0) (length pre) g
      = Inr ((pre @ g) @ replicate (8 * blocks_of 5 (length r)) 0)"
      unfolding b by (simp add: write_bytes_zeros len)
    have "base32_encode_loop r ((pre @ g) @ replicate (8 * blocks_of 5 (length r)) 0) (length (pre @ g))
      = Inr ((pre @ g) @ base32_text r)"
      using 1 [OF False, of "pre @ g"] by (simp only: r_def)
    moreover have "base32_text str = g @ base32_text r"
      by (subst base32_text.simps) (simp only: g_def r_def False if_False)
    ultimately show ?thesis
      by (simp only: base32_encode_loop_step [OF False] g_def [symmetric] r_def [symmetric] w
        bind_result_simps append_assoc len length_append)
  qed (simp add: base32_encode_loop.simps)
qed

lemma Base32Encode_text: "Base32Encode str = Inr (base32_text str)"
  using base32_encode_loop_text [of str "[]"]
  by (simp add: Base32Encode_def blocks_of_def add_mult_distrib2 mult.commute split: if_splits)

lemma length_base32_text: "length (base32_text str) = 8 * blocks_of 5 (length str)"
proof (induction str rule: base32_text.induct)
  case (1 str)
  then show ?case
    using blocks_of_step [of 5 "length str"] by (cases "str = []") (simp_all add: base32_text.simps [of str])
qed

lemma base32_decode_block:
  assumes len: "length n = 8" and vals: "\<forall>v \<in> set n. v \<le> 32" and n01: "n ! 0 < 32" "n ! 1 < 32"
  shows "base32_decode_loop (map (\<lambda>v. base32_chars ! unat v) n @ str) result j =
     bind_result (write_bytes result j (base32_bytes n))
       (\<lambda>result. base32_decode_loop str (take (length result - base32_pad n) result) (j + 5))"
proof -
  have tab: "map ((\<lambda>c. base32_table ! unat c) \<circ> (\<lambda>v. base32_chars ! unat v)) n = n"
    using vals by (intro map_idI) (simp add: base32_inverse)
  have asc: "\<not> (\<exists>c \<in> set (map (\<lambda>v. base32_chars ! unat v) n). c \<ge> 0x80)"
    using vals base32_inverse(2) by (auto simp: not_le)
  have "\<not> (\<exists>v \<in> set (drop 2 n). v > 32)" using vals by (meson in_set_dropD leD)
  moreover have "\<not> (n ! 0 > 31 \<or> n ! 1 > 31)"
    using n01 by (auto simp: word_less_nat_alt)
  ultimately show ?thesis
    using asc by (subst base32_decode_loop.simps) (simp add: len tab Let_def)
qed

lemma list8_cases: "length xs = 8 \<Longrightarrow> \<exists>a b c d e f g h. xs = [a, b, c, d, e, f, g, h]"
  by (auto simp: numeral_eq_Suc length_Suc_conv)

lemma base32_groups_shape:
  "\<exists>p q. base32_groups [a] 1 = [p, q, 32, 32, 32, 32, 32, 32] \<and> p < 32 \<and> q < 32"
  "\<exists>p q r t. base32_groups [a, b] 2 = [p, q, r, t, 32, 32, 32, 32] \<and> p < 32 \<and> q < 32 \<and> r < 32 \<and> t < 32"
  "\<exists>p q r t u. base32_groups [a, b, c] 3 = [p, q, r, t, u, 32, 32, 32]
     \<and> p < 32 \<and> q < 32 \<and> r < 32 \<and> t < 32 \<and> u < 32"
  "\<exists>p q r t u v w. base32_groups [a, b, c, d] 4 = [p, q, r, t, u, v, w, 32]
     \<and> p < 32 \<and> q < 32 \<and> r < 32 \<and> t < 32 \<and> u < 32 \<and> v < 32 \<and> w < 32"
  "\<exists>p q r t u v w x. base32_groups (a # b # c # d # e # s) 5 = [p, q, r, t, u, v, w, x]
     \<and> p < 32 \<and> q < 32 \<and> r < 32 \<and> t < 32 \<and> u < 32 \<and> v < 32 \<and> w < 32 \<and> x < 32"
  using list8_cases [OF length_base32_groups, of "[a]" 1]
    base32_groups_values(5) [of a] base32_groups_padding(4) [of a] apply auto[1]
  using list8_cases [OF length_base32_groups, of "[a, b]" 2]
    base32_groups_values(4) [of a b] base32_groups_padding(3) [of a b] apply auto[1]
  using list8_cases [OF length_base32_groups, of "[a, b, c]" 3]
    base32_groups_values(3) [of a b c] base32_groups_padding(2) [of a b c] apply auto[1]
  using list8_cases [OF length_base32_groups, of "[a, b, c, d]" 4]
    base32_groups_values(2) [of a b c d] base32_groups_padding(1) [of a b c d] apply auto[1]
  using list8_cases [OF length_base32_groups, of "a # b # c # d # e # s" 5]
    base32_groups_values(1) [of a b c d e s] apply auto[1]
  done

lemma base32_pad_shape:
  "base32_pad [p, q, 32, 32, 32, 32, 32, 32] = 4"
  "r < 32 \<Longrightarrow> base32_pad [p, q, r, t, 32, 32, 32, 32] = 3"
  "u < 32 \<Longrightarrow> base32_pad [p, q, r, t, u, 32, 32, 32] = 2"
  "v < 32 \<Longrightarrow> base32_pad [p, q, r, t, u, v, w, 32] = 1"
  "x < 32 \<Longrightarrow> base32_pad [p, q, r, t, u, v, w, x] = 0"
  by (auto simp: base32_pad_def)

lemma base32_groups_block_ok:
  assumes "str \<noteq> []"
  shows "base32_block_ok str (base32_groups str (block32 str))"
proof -
  consider (c1) a where "str = [a]" | (c2) a b where "str = [a, b]" | (c3) a b c where "str = [a, b, c]"
    | (c4) a b c d where "str = [a, b, c, d]" | (c5) a b c d e s where "str = a # b # c # d # e # s"
    using assms(1) by (metis neq_Nil_conv)
  then show ?thesis
  proof cases
    case c1
    obtain p q where "base32_groups [a] 1 = [p, q, 32, 32, 32, 32, 32, 32]" "p < 32" "q < 32"
      using base32_groups_shape(1) by blast
    then show ?thesis using base32_bytes_groups(5) [of a]
      by (simp add: c1 base32_block_ok_def base32_pad_shape less_imp_le numeral_eq_Suc)
  next
    case c2
    obtain p q r t where "base32_groups [a, b] 2 = [p, q, r, t, 32, 32, 32, 32]" "p < 32" "q < 32" "r < 32" "t < 32"
      using base32_groups_shape(2) by blast
    then show ?thesis using base32_bytes_groups(4) [of a b]
      by (simp add: c2 base32_block_ok_def base32_pad_shape less_imp_le numeral_eq_Suc)
  next
    case c3
    obtain p q r t u where "base32_groups [a, b, c] 3 = [p, q, r, t, u, 32, 32, 32]"
        "p < 32" "q < 32" "r < 32" "t < 32" "u < 32"
      using base32_groups_shape(3) by blast
    then show ?thesis using base32_bytes_groups(3) [of a b c]
      by (simp add: c3 base32_block_ok_def base32_pad_shape less_imp_le numeral_eq_Suc)
  next
    case c4
    obtain p q r t u v w where "base32_groups [a, b, c, d] 4 = [p, q, r, t, u, v, w, 32]"
        "p < 32" "q < 32" "r < 32" "t < 32" "u < 32" "v < 32" "w < 32"
      using base32_groups_shape(4) by blast
    then show ?thesis using base32_bytes_groups(2) [of a b c d]
      by (simp add: c4 base32_block_ok_def base32_pad_shape less_imp_le numeral_eq_Suc)
  next
    case c5
    obtain p q r t u v w x where "base32_groups (a # b # c # d # e # s) 5 = [p, q, r, t, u, v, w, x]"
        "p < 32" "q < 32" "r < 32" "t < 32" "u < 32" "v < 32" "w < 32" "x < 32"
      using base32_groups_shape(5) [of a b c d e s] by metis
    then show ?thesis using base32_bytes_groups(1) [of a b c d e s]
      by (simp add: c5 base32_block_ok_def base32_pad_shape less_imp_le)
  qed
qed

lemma base32_decode_loop_text:
  "base32_decode_loop (base32_text str) (pre @ replicate (5 * blocks_of 5 (length str)) 0) (length pre)
   = Inr (pre @ str)"
proof (induction str arbitrary: pre rule: base32_text.induct)
  case (1 str)
  show ?case
  proof (cases "str = []")
    case True
    then show ?thesis by (simp add: base32_decode_loop.simps)
  next
    case False
    define g where "g = base32_groups str (block32 str)"
    define r where "r = drop (block32 str) str"
    define p where "p = 5 - block32 str"
    have ok: "base32_block_ok str g" using base32_groups_block_ok [OF False] by (simp only: g_def)
    have len: "length g = 8" by (simp add: g_def)
    have b: "blocks_of 5 (length str) = Suc (blocks_of 5 (length r))"
      using blocks_of_step [of 5 "length str"] False by (simp add: r_def)
    have bytes: "base32_bytes g = take 5 str @ replicate p 0" "length (base32_bytes g) = 5"
      using ok by (simp_all add: base32_block_ok_def p_def base32_bytes_def)
    have w: "write_bytes (pre @ replicate (5 * blocks_of 5 (length str)) 0) (length pre) (base32_bytes g)
      = Inr (pre @ base32_bytes g @ replicate (5 * blocks_of 5 (length r)) 0)"
      unfolding b by (simp add: write_bytes_zeros bytes(2))
    have enc: "base32_text str = map (\<lambda>n. base32_chars ! unat n) g @ base32_text r"
      by (subst base32_text.simps) (simp only: g_def r_def False if_False)
    have "base32_decode_loop r' (take (length res - base32_pad g) res) (length pre + 5) = Inr (pre @ str)"
      if "r' = base32_text r" "res = pre @ base32_bytes g @ replicate (5 * blocks_of 5 (length r)) 0" for r' res
    proof (cases "length str < 5")
      case True
      then have "r = []" by (simp add: r_def)
      moreover have "base32_pad g = p" using ok by (simp add: base32_block_ok_def p_def)
      ultimately show ?thesis using that True bytes by (simp add: base32_decode_loop.simps)
    next
      case False
      then have "p = 0" "base32_pad g = 0" using ok by (simp_all add: base32_block_ok_def p_def)
      moreover have "base32_decode_loop (base32_text r)
          ((pre @ take 5 str) @ replicate (5 * blocks_of 5 (length r)) 0) (length (pre @ take 5 str))
        = Inr ((pre @ take 5 str) @ r)"
        using 1 [OF \<open>str \<noteq> []\<close>, of "pre @ take 5 str"] by (simp only: r_def)
      moreover have "length (take 5 str) = 5" "take 5 str @ r = str" using False by (simp_all add: r_def)
      ultimately show ?thesis using that by (simp add: bytes(1))
    qed
    note rest = this [OF refl refl]
    have side: "\<forall>v \<in> set g. v \<le> 32" "g ! 0 < 32" "g ! 1 < 32"
      using ok by (simp_all add: base32_block_ok_def)
    show ?thesis
      by (simp only: enc w base32_decode_block [OF len side] bind_result_simps rest)
  qed
qed

lemma Base32_decode_encode: "bind_result (Base32Encode str) Base32Decode = Inr str"
proof -
  have "length (base32_text str) div 8 * 5 = 5 * blocks_of 5 (length str)"
    by (simp add: length_base32_text)
  then show ?thesis
    using base32_decode_loop_text [of str "[]"]
    by (simp add: Base32Encode_text Base32Decode_def length_base32_text mult.commute)
qed

subsection \<open>Base64: the decoder inverts the encoder\<close>

lemma u8_ucast_bits: "bit (ucast (x :: u8) :: u32) n \<longleftrightarrow> n < 8 \<and> bit x n"
  using bit_imp_le_length [of x n] by (auto simp: bit_simps)

lemma triple_or:
  "push_bit 16 (ucast (a :: u8)) + push_bit 8 (ucast (b :: u8)) + ucast (c :: u8)
   = (push_bit 16 (ucast a) OR push_bit 8 (ucast b) OR ucast c :: u32)"
proof -
  have "push_bit 16 (ucast a) + push_bit 8 (ucast b) = (push_bit 16 (ucast a) OR push_bit 8 (ucast b) :: u32)"
    by (rule disjunctive_add) (auto simp: bit_push_bit_iff u8_ucast_bits)
  moreover have "(push_bit 16 (ucast a) OR push_bit 8 (ucast b)) + ucast c
     = ((push_bit 16 (ucast a) OR push_bit 8 (ucast b)) OR ucast c :: u32)"
    by (rule disjunctive_add) (auto simp: bit_push_bit_iff bit_or_iff u8_ucast_bits)
  ultimately show ?thesis by (simp add: or.assoc)
qed

lemma sextets_join:
  fixes t :: u32
  assumes "\<forall>n \<ge> 24. \<not> bit t n"
  shows "push_bit 18 (drop_bit 18 t AND 0x3F) + push_bit 12 (drop_bit 12 t AND 0x3F) +
    push_bit 6 (drop_bit 6 t AND 0x3F) + (t AND 0x3F) = t"
proof -
  have m: "(0x3F :: u32) = mask 6" by (simp add: mask_eq_exp_minus_1)
  define s where "s k = push_bit k (drop_bit k t AND mask 6)" for k
  have b: "bit (s k) n \<longleftrightarrow> k \<le> n \<and> n < k + 6 \<and> bit t n" for k n
    using bit_imp_le_length [of t n] by (auto simp: s_def bit_simps)
  have "s 18 + s 12 = s 18 OR s 12"
    by (rule disjunctive_add) (auto simp: b)
  moreover have "(s 18 OR s 12) + s 6 = (s 18 OR s 12) OR s 6"
    by (rule disjunctive_add) (auto simp: b bit_or_iff)
  moreover have "((s 18 OR s 12) OR s 6) + s 0 = ((s 18 OR s 12) OR s 6) OR s 0"
    by (rule disjunctive_add) (auto simp: b bit_or_iff)
  ultimately have "s 18 + s 12 + s 6 + s 0 = ((s 18 OR s 12) OR s 6) OR s 0" by simp
  also have "\<dots> = t"
    using assms by (intro bit_word_eqI) (auto simp: b bit_or_iff not_le)
  finally show ?thesis by (simp only: s_def m push_bit_0_id drop_bit_0 id_apply)
qed

lemma u8_no_bit: "8 \<le> n \<Longrightarrow> \<not> bit (x :: u8) n"
  using bit_imp_le_length [of x n] by auto

lemma octets_of_triple:
  defines "t a b c \<equiv> (push_bit 16 (ucast (a :: u8)) OR push_bit 8 (ucast (b :: u8)) OR ucast (c :: u8) :: u32)"
  shows "ucast (drop_bit 16 (t a b c) AND 0xFF) = a"
    and "ucast (drop_bit 8 (t a b c) AND 0xFF) = b"
    and "ucast (t a b c AND 0xFF) = c"
  unfolding t_def by (rule u8_eqI; simp add: bit_simps u8_no_bit)+

lemma base64_chars_table:
  "\<forall>n \<in> set [0..<64]. sextet (base64_chars ! n) = of_nat n \<and> base64_chars ! n \<noteq> 0x3D"
  by code_simp

lemma base64_inverse:
  fixes w :: u32
  shows "sextet (base64_chars ! unat (w AND 0x3F)) = w AND 0x3F"
    and "base64_chars ! unat (w AND 0x3F) \<noteq> 0x3D"
proof -
  have "unat (w AND 0x3F) \<in> set [0..<64]"
    using unat_and_mask_pow2 [of 6 w] by simp
  then show "sextet (base64_chars ! unat (w AND 0x3F)) = w AND 0x3F"
    and "base64_chars ! unat (w AND 0x3F) \<noteq> 0x3D"
    using base64_chars_table by (auto simp del: set_upt)
qed
lemma write_guarded_zeros:
  "write_guarded (length pre + m) (pre @ replicate m 0) (length pre) vs
   = Inr (pre @ take m vs @ replicate (m - length vs) 0, length pre + min m (length vs))"
proof (induction vs arbitrary: pre m)
  case (Cons v vs)
  show ?case
  proof (cases m)
    case 0
    then show ?thesis using Cons.IH [of pre 0] by simp
  next
    case (Suc k)
    then show ?thesis using Cons.IH [of "pre @ [v]" k] by simp
  qed
qed simp

lemma length_base64_fill [simp]: "length (base64_fill m r) = length r"
  by (induction m) auto

lemma base64_fill_append: "m \<le> length r \<Longrightarrow> base64_fill m (pre @ r) = pre @ base64_fill m r"
proof (induction m)
  case (Suc m)
  then have "\<not> length pre + length r - 1 - m < length pre" by simp
  moreover have "length pre + length r - 1 - m - length pre = length r - 1 - m" by simp
  ultimately show ?case using Suc by (simp add: list_update_append)
qed simp

lemma length_base64_sextets [simp]: "length (base64_sextets t) = 4" by (simp add: base64_sextets_def)

lemma base64_encode_loop_step:
  "str \<noteq> [] \<Longrightarrow> base64_encode_loop str result j =
     bind_result
       (write_bytes result j (base64_sextets (base64_triple (octet str 0) (octet str 1) (octet str 2))))
       (\<lambda>result. base64_encode_loop (drop 3 str) result (j + 4))"
  by (subst base64_encode_loop.simps) (simp only: Let_def if_False base64_triple_def)

lemma length_base64_raw: "length (base64_raw str) = 4 * ((length str + 2) div 3)"
proof (induction str rule: base64_raw.induct)
  case (4 a b c s)
  have "(length (a # b # c # s) + 2) div 3 = Suc ((length s + 2) div 3)" by simp
  then show ?case using 4 by (simp only: base64_raw.simps length_append length_base64_sextets mult_Suc_right)
qed simp_all

lemma base64_encode_loop_raw:
  "base64_encode_loop str (pre @ replicate (length (base64_raw str)) 0) (length pre) = Inr (pre @ base64_raw str)"
proof (induction str arbitrary: pre rule: base64_raw.induct)
  case (4 a b c s)
  let ?g = "base64_sextets (base64_triple (ucast a) (ucast b) (ucast c))"
  have "write_bytes (pre @ replicate (4 + length (base64_raw s)) 0) (length pre) ?g
    = Inr ((pre @ ?g) @ replicate (length (base64_raw s)) 0)"
    by (simp add: write_bytes_zeros)
  then show ?case using 4 [of "pre @ ?g"]
    by (simp add: base64_encode_loop_step octet_def numeral_eq_Suc)
qed (simp_all add: base64_encode_loop_step octet_def write_bytes_zeros base64_encode_loop.simps [of "[]"])

lemma base64_mods_simps:
  "base64_mods ! (length [] mod 3) = 0" "base64_mods ! (length [a] mod 3) = 2"
  "base64_mods ! (length [a, b] mod 3) = 1"
  "base64_mods ! (length (a # b # c # s) mod 3) = base64_mods ! (length s mod 3)"
proof -
  have "length (a # b # c # s) mod 3 = length s mod 3" by simp
  then show "base64_mods ! (length (a # b # c # s) mod 3) = base64_mods ! (length s mod 3)" by (simp only:)
qed (simp_all add: base64_mods_def)

lemma base64_mods_le: "base64_mods ! (length s mod 3) \<le> length (base64_raw s)"
proof (induction s rule: base64_raw.induct)
  case (4 a b c s)
  then show ?case by (simp only: base64_mods_simps base64_raw.simps length_append)
qed (simp_all add: base64_mods_def)

lemma base64_fill_sextets:
  "base64_fill 2 (base64_sextets t) = take 2 (base64_sextets t) @ [0x3D, 0x3D]"
  "base64_fill 1 (base64_sextets t) = take 3 (base64_sextets t) @ [0x3D]"
proof -
  obtain p q r u where "base64_sextets t = [p, q, r, u]" by (simp add: base64_sextets_def)
  then show "base64_fill 2 (base64_sextets t) = take 2 (base64_sextets t) @ [0x3D, 0x3D]"
    "base64_fill 1 (base64_sextets t) = take 3 (base64_sextets t) @ [0x3D]"
    by (simp_all add: numeral_2_eq_2)
qed

lemma base64_fill_text:
  "base64_fill (base64_mods ! (length str mod 3)) (base64_raw str) = base64_text str"
proof (induction str rule: base64_text.induct)
  case (4 a b c s)
  then show ?case
    by (simp only: base64_mods_simps base64_raw.simps base64_text.simps base64_fill_append [OF base64_mods_le])
qed (simp_all only: base64_mods_simps base64_raw.simps base64_text.simps base64_fill_sextets base64_fill.simps)

lemma Base64Encode_text: "Base64Encode str = Inr (base64_text str)"
  using base64_encode_loop_raw [of str "[]"]
  by (simp only: Base64Encode_def length_base64_raw base64_fill_text append_Nil list.size bind_result_simps)
lemma base64_decode_step:
  "base64_decode_loop olength (p # q # r # u # s) result j =
     (let triple = push_bit 18 (sextet p) + push_bit 12 (sextet q) + push_bit 6 (sextet r) + sextet u
      in bind_result (write_guarded olength result j (map (\<lambda>k. ucast (drop_bit k triple AND 0xFF)) [16, 8, 0]))
           (\<lambda>(result, j). base64_decode_loop olength s result j))"
  by (subst base64_decode_loop.simps) (simp add: numeral_eq_Suc [of "num.Bit0 (num.Bit0 num.One)"] eval_nat_numeral)

lemma base64_triple_octets:
  "map (\<lambda>k. ucast (drop_bit k (base64_triple (ucast a) (ucast b) (ucast c)) AND 0xFF)) [16, 8, 0]
   = [a, b, c :: u8]"
  unfolding base64_triple_def triple_or by (simp only: list.map octets_of_triple drop_bit_0 id_apply)

lemma base64_triple_join:
  fixes a b c :: u8
  defines "t \<equiv> base64_triple (ucast a) (ucast b) (ucast c)"
  shows "push_bit 18 (drop_bit 18 t AND 0x3F) + push_bit 12 (drop_bit 12 t AND 0x3F) +
    push_bit 6 (drop_bit 6 t AND 0x3F) + (t AND 0x3F) = t"
  unfolding t_def base64_triple_def triple_or
  by (rule sextets_join) (auto simp: bit_or_iff bit_push_bit_iff u8_ucast_bits)

lemma base64_triple_low:
  "base64_triple (ucast (a::u8)) 0 0 AND 0x3F = 0" "drop_bit 6 (base64_triple (ucast (a::u8)) 0 0) AND 0x3F = 0"
  "base64_triple (ucast (a::u8)) (ucast (b::u8)) 0 AND 0x3F = 0"
proof -
  have m: "(0x3F :: u32) = mask 6" by (simp add: mask_eq_exp_minus_1)
  have t: "base64_triple (ucast (a::u8)) (ucast (b::u8)) 0 = (push_bit 16 (ucast a) OR push_bit 8 (ucast b))" for a b
    using triple_or [of a b 0] by (simp add: base64_triple_def)
  from t [of a 0] have t0: "base64_triple (ucast (a::u8)) 0 0 = push_bit 16 (ucast a)" by simp
  show "base64_triple (ucast a) 0 0 AND 0x3F = 0" "drop_bit 6 (base64_triple (ucast a) 0 0) AND 0x3F = 0"
   "base64_triple (ucast (a::u8)) (ucast (b::u8)) 0 AND 0x3F = 0"
    unfolding m t t0 by (rule bit_word_eqI; auto simp: bit_simps)+
qed

lemma base64_decode_loop_text:
  "base64_decode_loop (length pre + length str) (base64_text str) (pre @ replicate (length str) 0) (length pre)
   = Inr (pre @ str)"
proof (induction str arbitrary: pre rule: base64_text.induct)
  case 1
  then show ?case by (simp add: base64_decode_loop.simps)
next
  case (2 a)
  show ?case
    using base64_triple_join [of a 0 0] base64_triple_octets [of a 0 0] write_guarded_zeros [of pre 1 "[a, 0, 0]"]
    by (simp add: base64_sextets_def base64_decode_step base64_inverse Let_def base64_triple_low sextet_def [of 61]
       base64_decode_loop.simps [of _ "[]"])
next
  case (3 a b)
  show ?case
    using base64_triple_join [of a b 0] base64_triple_octets [of a b 0] write_guarded_zeros [of pre 2 "[a, b, 0]"]
    by (simp add: base64_sextets_def base64_decode_step base64_inverse Let_def base64_triple_low sextet_def [of 61]
       base64_decode_loop.simps [of _ "[]"] numeral_2_eq_2)
next
  case (4 a b c s)
  then show ?case
    using base64_triple_join [of a b c] base64_triple_octets [of a b c]
      write_guarded_zeros [of pre "3 + length s" "[a, b, c]"] 4 [of "pre @ [a, b, c]"]
    by (simp add: base64_sextets_def base64_decode_step base64_inverse Let_def numeral_3_eq_3)
qed

lemma length_base64_text: "length (base64_text str) = 4 * ((length str + 2) div 3)"
  unfolding base64_fill_text [symmetric] length_base64_fill length_base64_raw ..

lemma base64_text_tail:
  "str \<noteq> [] \<Longrightarrow> (base64_text str ! (length (base64_text str) - 1) = 0x3D \<longleftrightarrow> length str mod 3 \<noteq> 0) \<and>
   (base64_text str ! (length (base64_text str) - 2) = 0x3D \<longleftrightarrow> length str mod 3 = 1)"
proof (induction str rule: base64_text.induct)
  case (4 a b c s)
  have m: "length (a # b # c # s) mod 3 = length s mod 3" by simp
  show ?case
  proof (cases "s = []")
    case True
    then show ?thesis by (simp add: base64_sextets_def base64_inverse)
  next
    case False
    let ?n = "length (base64_text s)"
    have n: "4 \<le> ?n" using False by (cases s) (simp_all add: length_base64_text)
    have "base64_text (a # b # c # s) ! (length (base64_text (a # b # c # s)) - i) = base64_text s ! (?n - i)"
      if "i \<le> ?n" for i
      using that by (auto simp: nth_append)
    from this [of 1] this [of 2] show ?thesis using 4(1) [OF False] n by (simp only: m; simp)
  qed
qed (simp_all add: base64_sextets_def base64_inverse)

lemma base64_blocks:
  "3 * ((n + 2) div 3) = (if n mod 3 = 0 then n else if n mod 3 = 1 then n + 2 else n + (1 :: nat))"
  by presburger

lemma Base64_decode_encode: "str \<noteq> [] \<Longrightarrow> bind_result (Base64Encode str) Base64Decode = Inr str"
proof -
  assume ne: "str \<noteq> []"
  define n where "n = length str"
  have n: "0 < n" using ne by (simp add: n_def)
  let ?t = "base64_text str"
  have len: "length ?t = 4 * ((n + 2) div 3)" by (simp add: length_base64_text n_def)
  moreover have "(n + 2) div 3 > 0" using n by (simp add: div_greater_zero_iff)
  ultimately have l0: "length ?t \<noteq> 0" "length ?t mod 4 = 0" "length ?t div 4 * 3 = (n + 2) div 3 * 3" by simp_all
  define o1 where "o1 = (if ?t ! (length ?t - 1) = 0x3D then length ?t div 4 * 3 - 1 else length ?t div 4 * 3)"
  define o2 where "o2 = (if ?t ! (length ?t - 2) = 0x3D then o1 - 1 else o1)"
  have "o2 = n"
    unfolding o2_def o1_def l0(3) n_def using base64_text_tail [OF ne] base64_blocks [of "length str"]
    by (simp add: mult.commute split: if_splits)
  moreover have "Base64Decode ?t = base64_decode_loop o2 ?t (replicate o2 0) 0"
    using l0 by (simp only: Base64Decode_def Let_def o1_def o2_def simp_thms if_False)
  ultimately show ?thesis
    using base64_decode_loop_text [of "[]" str] by (simp add: Base64Encode_text n_def)
qed

subsection \<open>The decoders on arbitrary input\<close>

lemma write_bytes_one_ok: "j < length buf \<Longrightarrow> \<exists>buf'. write_bytes buf j [v] = Inr buf' \<and> length buf' = length buf"
  by (auto simp: write_at_def)

lemma base16_decode_loop_total:
  "j + length str div 2 \<le> length result \<Longrightarrow> \<exists>r. base16_decode_loop str result j = Inr r"
proof (induction str result j rule: base16_decode_loop.induct)
  case (1 a b str result j)
  obtain buf where "write_bytes result j [push_bit 4 (base16_table ! unat a) OR base16_table ! unat b] = Inr buf"
      "length buf = length result"
    using write_bytes_one_ok [of j result] 1(2) by auto
  then show ?case using 1 by (auto simp del: write_bytes.simps)
qed simp_all

lemma Base16Decode_total: "\<exists>r. Base16Decode str = Inr r"
  using base16_decode_loop_total [of 0 str] by (simp add: Base16Decode_def)

lemma write_guarded_total:
  "length result = olength \<Longrightarrow>
   \<exists>result' j'. write_guarded olength result j vs = Inr (result', j') \<and> length result' = olength"
  by (induction olength result j vs rule: write_guarded.induct) (auto simp: write_at_def)

lemma base64_decode_loop_total:
  "length result = olength \<Longrightarrow> \<exists>r. base64_decode_loop olength str result j = Inr r \<and> length r = olength"
proof (induction olength str result j rule: base64_decode_loop.induct)
  case (1 olength str result j)
  show ?case
  proof (cases "length str < 4")
    case False
    let ?t = "push_bit 18 (sextet (str ! 0)) + push_bit 12 (sextet (str ! 1)) + push_bit 6 (sextet (str ! 2)) + sextet (str ! 3)"
    obtain result' j' where
      w: "write_guarded olength result j (map (\<lambda>k. ucast (drop_bit k ?t AND 0xFF)) [16, 8, 0]) = Inr (result', j')"
      and len: "length result' = olength"
      using write_guarded_total [OF 1(2)] by blast
    show ?thesis
      using 1(1) [OF False refl len]
      by (subst base64_decode_loop.simps) (simp only: False if_False Let_def w bind_result_simps prod.case)
  qed (use 1 in \<open>simp add: base64_decode_loop.simps\<close>)
qed

lemma Base64Decode_total: "str \<noteq> [] \<Longrightarrow> \<exists>r. Base64Decode str = Inr r"
proof -
  have "\<exists>r. base64_decode_loop m str (replicate m 0) 0 = Inr r" for m
    using base64_decode_loop_total [OF length_replicate] by blast
  then show "str \<noteq> [] \<Longrightarrow> \<exists>r. Base64Decode str = Inr r" by (simp add: Base64Decode_def Let_def)
qed

subsection \<open>The codecs of the library\<close>

interpretation base16: codec Base16Encode Base16Decode "\<lambda>_. True"
  by unfold_locales (rule Base16_decode_encode)

interpretation base32: codec Base32Encode Base32Decode "\<lambda>_. True"
  by unfold_locales (rule Base32_decode_encode)

interpretation base64: codec Base64Encode Base64Decode "\<lambda>s. s \<noteq> []"
  by unfold_locales (rule Base64_decode_encode)

interpretation url: codec "\<lambda>s. Inr (URLEncode s)" "\<lambda>t. Inr (URLDecode t)" "\<lambda>_. True"
  by unfold_locales (simp add: URL_decode_encode)

text \<open>
  Every byte string has a Base16 text of exactly two characters per byte, no store of the encoder
  or of the decoder leaves its buffer, and decoding the text gives the string back.
\<close>

theorem Base16_roundtrip:
  "\<exists>t. Base16Encode s = Inr t \<and> length t = 2 * length s \<and> Base16Decode t = Inr s"
  using base16.encode_total [of s] by (auto simp: Base16Encode_digits length_base16_digits)

text \<open>
  C9. Every byte string has a Base32 text of eight characters per started block of five bytes, all
  of the alphabet, and the decoder, which shrinks its buffer by the padding it finds, gives the string
  back.
\<close>

theorem Base32_roundtrip:
  "\<exists>t. Base32Encode s = Inr t \<and> length t = 8 * ((length s + 4) div 5) \<and> Base32Decode t = Inr s"
proof -
  have "blocks_of 5 (length s) = (length s + 4) div 5" unfolding blocks_of_def by presburger
  then show ?thesis using base32.encode_total [of s] by (auto simp: Base32Encode_text length_base32_text)
qed

text \<open>
  C16. Every nonempty byte string has a Base64 text of four characters per started block of three
  bytes, and the decoder, which takes the output length from the padding at the end, gives the string back.
\<close>

theorem Base64_roundtrip:
  assumes "s \<noteq> []"
  shows "\<exists>t. Base64Encode s = Inr t \<and> length t = 4 * ((length s + 2) div 3) \<and> Base64Decode t = Inr s"
  using base64.encode_total [OF assms] by (auto simp: Base64Encode_text length_base64_text)

theorem Base64_roundtrip_witness:
  "\<exists>t. Base64Encode (ascii ''fooba'') = Inr t \<and> length t = 8 \<and> Base64Decode t = Inr (ascii ''fooba'')"
proof -
  have "ascii ''fooba'' \<noteq> []" "length (ascii ''fooba'') = 5" by (simp_all add: ascii_def)
  then show ?thesis using Base64_roundtrip [of "ascii ''fooba''"] by simp
qed

text \<open>
  URL decoding inverts URL encoding on every byte string.
\<close>

theorem URL_roundtrip: "URLDecode (URLEncode s) = s"
  using url.encode_total [of s] by simp

text \<open>
  The Base16 decoder on any input and the Base64 decoder on any nonempty input return a string:
  no index leaves its array, whatever the bytes are.
\<close>

theorem decoders_in_bounds:
  "(\<exists>r. Base16Decode s = Inr r) \<and> (s = [] \<or> (\<exists>r. Base64Decode s = Inr r))"
  using Base16Decode_total [of s] Base64Decode_total [of s] by blast


end
