(* ===== verification/StringUtils.thy ===== *)
theory StringUtils
  imports Prelude
begin

text \<open>
  The string utilities of \<^verbatim>\<open>source/string/string_utils.cpp\<close> and
  \<^verbatim>\<open>include/string/string_utils.inl\<close>. A \<^verbatim>\<open>std::string\<close> is a list of bytes and a
  position is a natural number; \<^verbatim>\<open>std::string::npos\<close> is \<^const>\<open>None\<close>. The search loops of
  \<^verbatim>\<open>CountAll\<close>, \<^verbatim>\<open>ReplaceAll\<close> and \<^verbatim>\<open>Split\<close> do not end on every input: they are
  partial functions whose value is \<^const>\<open>None\<close> when the C++ loop runs forever.
\<close>

type_synonym bytes = "u8 list"

subsection \<open>Characters\<close>

text \<open>\<^verbatim>\<open>std::isspace\<close> and \<^verbatim>\<open>std::tolower\<close> of the C locale.\<close>

definition isspace :: "u8 \<Rightarrow> bool" where
  "isspace ch \<longleftrightarrow> ch = 0x20 \<or> (0x09 \<le> ch \<and> ch \<le> 0x0D)"

definition tolower :: "u8 \<Rightarrow> u8" where
  "tolower ch = (if 0x41 \<le> ch \<and> ch \<le> 0x5A then ch + 0x20 else ch)"

fun IsBlank :: "bytes \<Rightarrow> bool" where
  "IsBlank [] = True"
| "IsBlank (ch # str) = (if \<not> isspace ch then False else IsBlank str)"

definition Lower :: "bytes \<Rightarrow> bytes" where
  "Lower str = map tolower str"

definition Upper :: "bytes \<Rightarrow> bytes" where
  "Upper str = map toupper str"

definition RemoveBlank :: "bytes \<Rightarrow> bytes" where
  "RemoveBlank str = filter (\<lambda>ch. \<not> isspace ch) str"

subsection \<open>Trimming\<close>

text \<open>\<^verbatim>\<open>std::find_if\<close>: the offset of the first element with the property, the length without one.\<close>

fun find_if :: "(u8 \<Rightarrow> bool) \<Rightarrow> bytes \<Rightarrow> nat" where
  "find_if p [] = 0"
| "find_if p (c # str) = (if p c then 0 else Suc (find_if p str))"

text \<open>The base of the reverse iterator \<^verbatim>\<open>find_if(rbegin, rend, p)\<close>.\<close>

definition rfind_if_base :: "(u8 \<Rightarrow> bool) \<Rightarrow> bytes \<Rightarrow> nat" where
  "rfind_if_base p str = length str - find_if p (rev str)"

definition ToLTrim :: "bytes \<Rightarrow> bytes" where
  "ToLTrim str = drop (find_if (\<lambda>c. \<not> isspace c) str) str"

definition ToRTrim :: "bytes \<Rightarrow> bytes" where
  "ToRTrim str = take (rfind_if_base (\<lambda>c. \<not> isspace c) str) str"

definition ToTrim :: "bytes \<Rightarrow> bytes" where
  "ToTrim str =
     (let start = find_if (\<lambda>c. \<not> isspace c) str;
          end = rfind_if_base (\<lambda>c. \<not> isspace c) str
      in if start \<noteq> length str then take (end - start) (drop start str) else [])"

text \<open>\<^verbatim>\<open>std::string::erase(first, last)\<close> on positions.\<close>

definition erase_range :: "bytes \<Rightarrow> nat \<Rightarrow> nat \<Rightarrow> bytes" where
  "erase_range str b e = take b str @ drop e str"

definition LTrim :: "bytes \<Rightarrow> bytes" where
  "LTrim str = erase_range str 0 (find_if (\<lambda>c. \<not> isspace c) str)"

definition RTrim :: "bytes \<Rightarrow> bytes" where
  "RTrim str = erase_range str (rfind_if_base (\<lambda>c. \<not> isspace c) str) (length str)"

definition Trim :: "bytes \<Rightarrow> bytes" where
  "Trim str = LTrim (RTrim str)"

subsection \<open>Comparison and search\<close>

definition Compare :: "bytes \<Rightarrow> bytes \<Rightarrow> bool" where
  "Compare str1 str2 \<longleftrightarrow> str1 = str2"

definition CompareNoCase :: "bytes \<Rightarrow> bytes \<Rightarrow> bool" where
  "CompareNoCase str1 str2 \<longleftrightarrow>
     (if length str1 \<noteq> length str2 then False
      else list_all2 (\<lambda>l r. tolower l = tolower r) str1 str2)"

text \<open>
  \<^verbatim>\<open>find(substr, pos)\<close>, \<^verbatim>\<open>find_first_of(chars, pos)\<close> and \<^verbatim>\<open>rfind(substr)\<close> of the
  standard string.
\<close>

function find_from :: "bytes \<Rightarrow> bytes \<Rightarrow> nat \<Rightarrow> nat option" where
  "find_from str substr pos =
     (if length str < pos + length substr then None
      else if take (length substr) (drop pos str) = substr then Some pos
      else find_from str substr (Suc pos))"
  by pat_completeness auto
termination
  by (relation "measure (\<lambda>(str, substr, pos). Suc (length str) - pos)") auto

function find_first_of :: "bytes \<Rightarrow> bytes \<Rightarrow> nat \<Rightarrow> nat option" where
  "find_first_of str chars pos =
     (if length str \<le> pos then None
      else if str ! pos \<in> set chars then Some pos
      else find_first_of str chars (Suc pos))"
  by pat_completeness auto
termination
  by (relation "measure (\<lambda>(str, chars, pos). length str - pos)") auto

fun rfind_from :: "bytes \<Rightarrow> bytes \<Rightarrow> nat \<Rightarrow> nat option" where
  "rfind_from str substr pos =
     (if take (length substr) (drop pos str) = substr then Some pos
      else (case pos of 0 \<Rightarrow> None | Suc p \<Rightarrow> rfind_from str substr p))"

declare find_from.simps [simp del] find_first_of.simps [simp del] rfind_from.simps [simp del]

definition rfind :: "bytes \<Rightarrow> bytes \<Rightarrow> nat option" where
  "rfind str substr =
     (if length str < length substr then None else rfind_from str substr (length str - length substr))"

definition Contains :: "bytes \<Rightarrow> bytes \<Rightarrow> bool" where
  "Contains str substr \<longleftrightarrow> find_from str substr 0 \<noteq> None"

definition StartsWith :: "bytes \<Rightarrow> bytes \<Rightarrow> bool" where
  "StartsWith str prefix \<longleftrightarrow> length str \<ge> length prefix \<and> take (length prefix) str = prefix"

definition EndsWith :: "bytes \<Rightarrow> bytes \<Rightarrow> bool" where
  "EndsWith str suffix \<longleftrightarrow>
     length str \<ge> length suffix \<and> take (length suffix) (drop (length str - length suffix) str) = suffix"

partial_function (option) count_loop :: "bytes \<Rightarrow> bytes \<Rightarrow> nat \<Rightarrow> nat \<Rightarrow> nat option" where
  "count_loop str substr pos count =
     (case find_from str substr pos of
        None \<Rightarrow> Some count
      | Some p \<Rightarrow> count_loop str substr (p + length substr) (Suc count))"

definition CountAll :: "bytes \<Rightarrow> bytes \<Rightarrow> nat option" where
  "CountAll str substr = count_loop str substr 0 0"

subsection \<open>Replacement\<close>

text \<open>\<^verbatim>\<open>std::string::replace(pos, len, with)\<close>; each operation returns the flag and the new string.\<close>

definition replace_at :: "bytes \<Rightarrow> nat \<Rightarrow> nat \<Rightarrow> bytes \<Rightarrow> bytes" where
  "replace_at str pos len w = take pos str @ w @ drop (pos + len) str"

definition ReplaceFirst :: "bytes \<Rightarrow> bytes \<Rightarrow> bytes \<Rightarrow> bool \<times> bytes" where
  "ReplaceFirst str substr w =
     (case find_from str substr 0 of
        None \<Rightarrow> (False, str)
      | Some pos \<Rightarrow> (True, replace_at str pos (length substr) w))"

definition ReplaceLast :: "bytes \<Rightarrow> bytes \<Rightarrow> bytes \<Rightarrow> bool \<times> bytes" where
  "ReplaceLast str substr w =
     (case rfind str substr of
        None \<Rightarrow> (False, str)
      | Some pos \<Rightarrow> (True, replace_at str pos (length substr) w))"

partial_function (option) replace_loop ::
  "bytes \<Rightarrow> bytes \<Rightarrow> bytes \<Rightarrow> nat \<Rightarrow> bool \<Rightarrow> (bool \<times> bytes) option" where
  "replace_loop substr w str pos result =
     (case find_from str substr pos of
        None \<Rightarrow> Some (result, str)
      | Some p \<Rightarrow> replace_loop substr w (replace_at str p (length substr) w) (p + length w) True)"

definition ReplaceAll :: "bytes \<Rightarrow> bytes \<Rightarrow> bytes \<Rightarrow> (bool \<times> bytes) option" where
  "ReplaceAll str substr w = replace_loop substr w str 0 False"

subsection \<open>Splitting and joining\<close>

text \<open>
  The loop the three splitting functions share, over the search call \<open>search\<close> and the number \<open>step\<close>
  of characters skipped after a match.
\<close>

partial_function (option) split_loop ::
  "(bytes \<Rightarrow> nat \<Rightarrow> nat option) \<Rightarrow> nat \<Rightarrow> bool \<Rightarrow> bytes \<Rightarrow> nat \<Rightarrow> bytes list \<Rightarrow> bytes list option" where
  "split_loop search step skip_empty str pos_last tokens =
     (let pos_current = (case search str pos_last of None \<Rightarrow> length str | Some p \<Rightarrow> p);
          len = pos_current - pos_last;
          tokens = (if \<not> skip_empty \<or> len \<noteq> 0 then tokens @ [take len (drop pos_last str)] else tokens)
      in if pos_current = length str then Some tokens
         else split_loop search step skip_empty str (pos_current + step) tokens)"

definition Split_char :: "bytes \<Rightarrow> u8 \<Rightarrow> bool \<Rightarrow> bytes list option" where
  "Split_char str delimiter skip_empty =
     split_loop (\<lambda>str. find_from str [delimiter]) 1 skip_empty str 0 []"

definition Split :: "bytes \<Rightarrow> bytes \<Rightarrow> bool \<Rightarrow> bytes list option" where
  "Split str delimiter skip_empty =
     split_loop (\<lambda>str. find_from str delimiter) (length delimiter) skip_empty str 0 []"

definition SplitByAny :: "bytes \<Rightarrow> bytes \<Rightarrow> bool \<Rightarrow> bytes list option" where
  "SplitByAny str delimiters skip_empty =
     split_loop (\<lambda>str. find_first_of str delimiters) 1 skip_empty str 0 []"

definition join_skips :: "bool \<Rightarrow> bool \<Rightarrow> bytes \<Rightarrow> bool" where
  "join_skips skip_empty skip_blank token \<longleftrightarrow>
     (skip_empty \<and> token = []) \<or> (skip_blank \<and> IsBlank token)"

fun Join_plain :: "bytes list \<Rightarrow> bool \<Rightarrow> bool \<Rightarrow> bytes" where
  "Join_plain [] skip_empty skip_blank = []"
| "Join_plain (t # ts) skip_empty skip_blank =
     (if \<not> join_skips skip_empty skip_blank t then t else []) @ Join_plain ts skip_empty skip_blank"

fun Join :: "bytes list \<Rightarrow> bytes \<Rightarrow> bool \<Rightarrow> bool \<Rightarrow> bytes" where
  "Join [] delimiter skip_empty skip_blank = []"
| "Join [t] delimiter skip_empty skip_blank =
     (if \<not> join_skips skip_empty skip_blank t then t else [])"
| "Join (t # ts) delimiter skip_empty skip_blank =
     (if \<not> join_skips skip_empty skip_blank t then t @ delimiter else [])
     @ Join ts delimiter skip_empty skip_blank"

subsection \<open>Patterns and boolean values\<close>

text \<open>
  \<open>regex pattern str\<close> stands for \<^verbatim>\<open>std::regex\<close>: \<^const>\<open>None\<close> when the pattern is rejected with
  \<^verbatim>\<open>std::regex_error\<close>, otherwise whether the whole string matches.
\<close>

fun pattern_loop :: "(bytes \<Rightarrow> bytes \<Rightarrow> bool option) \<Rightarrow> bytes \<Rightarrow> bytes list \<Rightarrow> bool \<Rightarrow> bool" where
  "pattern_loop regex str [] result = result"
| "pattern_loop regex str (key # keys) result =
     (let negative = StartsWith key [0x21];
          pattern = (if negative then drop 1 key else key)
      in if regex pattern str = Some True then \<not> negative
         else pattern_loop regex str keys negative)"

definition IsPatternMatch :: "(bytes \<Rightarrow> bytes \<Rightarrow> bool option) \<Rightarrow> bytes \<Rightarrow> bytes \<Rightarrow> bool option" where
  "IsPatternMatch regex patterns str =
     (case Split_char patterns 0x3B False of
        None \<Rightarrow> None
      | Some keys \<Rightarrow> Some (pattern_loop regex str keys False))"

definition FromString_bool :: "bytes \<Rightarrow> bool" where
  "FromString_bool str =
     (let value = Lower str
      in if value = map of_char ''true'' \<or> value = map of_char ''yes'' \<or> value = map of_char ''on''
           \<or> value = map of_char ''1'' then True
         else if value = map of_char ''false'' \<or> value = map of_char ''no'' \<or> value = map of_char ''off''
           \<or> value = map of_char ''0'' then False
         else False)"

subsection \<open>Reference definitions\<close>

text \<open>
  A cut of a string around the first match of a search, and the tokens between all matches.
\<close>

fun cut_at :: "bytes \<Rightarrow> bytes \<Rightarrow> (bytes \<times> bytes) option" where
  "cut_at d s =
     (if length d \<le> length s \<and> take (length d) s = d then Some ([], drop (length d) s)
      else (case s of [] \<Rightarrow> None
            | c # s \<Rightarrow> map_option (\<lambda>(a, b). (c # a, b)) (cut_at d s)))"

fun cut_any :: "bytes \<Rightarrow> bytes \<Rightarrow> (bytes \<times> bytes) option" where
  "cut_any ds [] = None"
| "cut_any ds (c # s) =
     (if c \<in> set ds then Some ([], s) else map_option (\<lambda>(a, b). (c # a, b)) (cut_any ds s))"

function tokens_by :: "(bytes \<Rightarrow> (bytes \<times> bytes) option) \<Rightarrow> bytes \<Rightarrow> bytes list" where
  "tokens_by cutter s =
     (case cutter s of None \<Rightarrow> [s]
      | Some (a, b) \<Rightarrow> if length b < length s then a # tokens_by cutter b else [a])"
  by pat_completeness auto
termination
  by (relation "measure (\<lambda>(cutter, s). length s)") auto

declare cut_at.simps [simp del] tokens_by.simps [simp del]


subsection \<open>Cuts\<close>

lemma cut_at_Nil: "cut_at d [] = (if d = [] then Some ([], []) else None)"
  by (subst cut_at.simps) auto

lemma cut_at_Cons:
  "cut_at d (c # s) = (if length d \<le> Suc (length s) \<and> take (length d) (c # s) = d then Some ([], drop (length d) (c # s))
     else map_option (\<lambda>(a, b). (c # a, b)) (cut_at d s))"
  by (subst cut_at.simps) auto

lemma cut_at_Some: "cut_at d s = Some (a, b) \<Longrightarrow> s = a @ d @ b"
proof (induction s arbitrary: a)
  case Nil
  then show ?case by (auto simp: cut_at_Nil split: if_splits)
next
  case (Cons c s)
  then show ?case by (auto simp: cut_at_Cons split: if_splits) (metis append_take_drop_id)
qed

lemma cut_at_None: "cut_at d s = None \<longleftrightarrow> \<not> (\<exists>a b. s = a @ d @ b)"
proof (induction s)
  case Nil
  then show ?case by (auto simp: cut_at_Nil)
next
  case (Cons c s)
  have "(\<exists>a b. c # s = a @ d @ b) \<longleftrightarrow> (\<exists>b. c # s = d @ b) \<or> (\<exists>a b. s = a @ d @ b)"
    by (metis append_Cons append_Nil append_eq_Cons_conv list.inject)
  moreover have "(\<exists>b. c # s = d @ b) \<longleftrightarrow> length d \<le> Suc (length s) \<and> take (length d) (c # s) = d"
    by (metis append_eq_conv_conj append_take_drop_id length_Cons length_append le_add1)
  ultimately show ?case using Cons by (auto simp: cut_at_Cons)
qed

lemma cut_at_short: "length s < length d \<Longrightarrow> cut_at d s = None"
  by (auto simp: cut_at_None)

lemma find_from_cut:
  "pos \<le> length str \<Longrightarrow>
   find_from str d pos = map_option (\<lambda>(a, b). pos + length a) (cut_at d (drop pos str))"
proof (induction str d pos rule: find_from.induct)
  case (1 str d pos)
  consider (short) "length str < pos + length d" | (here) "\<not> length str < pos + length d" "take (length d) (drop pos str) = d"
    | (later) "\<not> length str < pos + length d" "take (length d) (drop pos str) \<noteq> d" by blast
  then show ?case
  proof cases
    case short
    then show ?thesis using 1 by (subst find_from.simps) (simp add: cut_at_short)
  next
    case here
    then show ?thesis by (subst find_from.simps, subst cut_at.simps) auto
  next
    case later
    then have lt: "pos < length str" by (cases d) auto
    then have dr: "drop pos str = str ! pos # drop (Suc pos) str" by (simp add: Cons_nth_drop_Suc)
    from later lt have "cut_at d (drop pos str) = map_option (\<lambda>(a, b). (str ! pos # a, b)) (cut_at d (drop (Suc pos) str))"
      unfolding dr by (subst cut_at_Cons) auto
    moreover have "find_from str d (Suc pos) = map_option (\<lambda>(a, b). Suc pos + length a) (cut_at d (drop (Suc pos) str))"
      using 1 later lt by simp
    ultimately show ?thesis using later by (subst find_from.simps) (auto simp: option.map_comp o_def split_def)
  qed
qed

lemma cut_any_Some: "cut_any ds s = Some (a, b) \<Longrightarrow> \<exists>d \<in> set ds. s = a @ d # b"
  by (induction s arbitrary: a) (auto split: if_splits)

lemma find_first_of_cut:
  "find_first_of str ds pos = map_option (\<lambda>(a, b). pos + length a) (cut_any ds (drop pos str))"
proof (induction str ds pos rule: find_first_of.induct)
  case (1 str ds pos)
  show ?case
  proof (cases "length str \<le> pos")
    case False
    then have "drop pos str = str ! pos # drop (Suc pos) str" by (simp add: Cons_nth_drop_Suc)
    then show ?thesis using 1 False by (subst find_first_of.simps) (auto simp: option.map_comp o_def split_def)
  qed (simp add: find_first_of.simps)
qed

subsection \<open>Tokens\<close>

text \<open>
  What a search must give for the splitting loop: a position is the end of the text before the next
  match of the remaining string, and a match is \<open>step\<close> characters long, at least one.
\<close>

locale string_search =
  fixes search :: "bytes \<Rightarrow> nat \<Rightarrow> nat option"
    and step :: nat
    and cutter :: "bytes \<Rightarrow> (bytes \<times> bytes) option"
  assumes step_pos: "0 < step"
    and find_cut: "pos \<le> length str \<Longrightarrow> search str pos = map_option (\<lambda>(a, b). pos + length a) (cutter (drop pos str))"
    and cut_match: "cutter s = Some (a, b) \<Longrightarrow> \<exists>d. length d = step \<and> s = a @ d @ b"
begin

lemma tokens_None: "cutter s = None \<Longrightarrow> tokens_by cutter s = [s]"
  by (subst tokens_by.simps) simp

lemma tokens_Some: "cutter s = Some (a, b) \<Longrightarrow> tokens_by cutter s = a # tokens_by cutter b"
  using cut_match [of s a b] step_pos by (subst tokens_by.simps) auto

lemma tokens_ne: "tokens_by cutter s \<noteq> []"
  by (subst tokens_by.simps) (auto split: option.splits)

lemma tokens_induct [case_names none some]:
  assumes "\<And>s. cutter s = None \<Longrightarrow> P s"
    and "\<And>s a b. cutter s = Some (a, b) \<Longrightarrow> P b \<Longrightarrow> P s"
  shows "P s"
proof (induction s rule: length_induct)
  case (1 s)
  show ?case
  proof (cases "cutter s")
    case (Some ab)
    obtain a b where ab: "ab = (a, b)" by (cases ab)
    with Some cut_match [of s a b] step_pos have "length b < length s" by auto
    with 1 Some ab assms(2) show ?thesis by blast
  qed (use assms(1) in blast)
qed

lemma split_loop_tokens:
  "pos \<le> length str \<Longrightarrow>
   split_loop search step skip_empty str pos tokens
   = Some (tokens @ filter (\<lambda>t. \<not> skip_empty \<or> t \<noteq> []) (tokens_by cutter (drop pos str)))"
proof (induction "drop pos str" arbitrary: pos tokens rule: tokens_induct)
  case none
  have "search str pos = None" using find_cut [of pos str] none by simp
  then show ?case using none
    by (subst split_loop.simps) (auto simp: tokens_None Let_def)
next
  case (some a b)
  obtain d where d: "length d = step" "drop pos str = a @ d @ b" using cut_match some(1) by blast
  have f: "search str pos = Some (pos + length a)" using find_cut [of pos str] some by simp
  have len: "length str = pos + length a + step + length b"
    using arg_cong [OF d(2), of length] d(1) some.prems by simp
  have b: "b = drop (pos + length a + step) str"
  proof -
    have "drop (length a + length d) (drop pos str) = b" by (simp add: d(2))
    then show ?thesis by (simp add: d(1) add.commute add.left_commute)
  qed
  have t: "take (length a) (drop pos str) = a" by (simp add: d(2))
  have "split_loop search step skip_empty str pos tokens
    = split_loop search step skip_empty str (pos + length a + step)
        (if \<not> skip_empty \<or> a \<noteq> [] then tokens @ [a] else tokens)"
  proof -
    have "pos + length a \<noteq> length str" using len step_pos by simp
    moreover have "pos + length a - pos = length a" by simp
    ultimately show ?thesis
      by (simp only: split_loop.simps [of search step skip_empty str pos tokens] f option.case Let_def t
        length_0_conv if_False)
  qed
  also have "\<dots> = Some ((if \<not> skip_empty \<or> a \<noteq> [] then tokens @ [a] else tokens)
      @ filter (\<lambda>t. \<not> skip_empty \<or> t \<noteq> []) (tokens_by cutter b))"
  proof -
    have "pos + length a + step \<le> length str" using len by simp
    from some(2) [OF b this] show ?thesis by (simp only: b [symmetric])
  qed
  finally show ?case by (simp add: tokens_Some [OF some(1)])
qed

end

interpretation by_string: string_search "\<lambda>str. find_from str (c # d)" "length (c # d)" "cut_at (c # d)" for c d
  by unfold_locales (simp_all add: find_from_cut cut_at_Some, metis append_Cons cut_at_Some length_Cons)

interpretation by_any: string_search "\<lambda>str. find_first_of str ds" 1 "cut_any ds" for ds
proof
  fix s a b assume "cut_any ds s = Some (a, b)"
  then obtain d where "s = a @ [d] @ b" using cut_any_Some by fastforce
  then show "\<exists>d. length d = 1 \<and> s = a @ d @ b" by (metis length_Cons list.size(3) One_nat_def)
qed (simp_all add: find_first_of_cut)

abbreviation tokens_at :: "bytes \<Rightarrow> bytes \<Rightarrow> bytes list" where
  "tokens_at d \<equiv> tokens_by (cut_at d)"

lemma join_skips_off [simp]: "\<not> join_skips False False t"
  by (simp add: join_skips_def)

lemma Join_Cons: "ts \<noteq> [] \<Longrightarrow> Join (t # ts) d False False = t @ d @ Join ts d False False"
  by (cases ts) auto

lemma Join_one: "Join [t] d False False = t"
  by simp

lemma tokens_at_None: "d \<noteq> [] \<Longrightarrow> cut_at d s = None \<Longrightarrow> tokens_at d s = [s]"
  by (cases d) (auto simp: by_string.tokens_None)

lemma tokens_at_Some: "d \<noteq> [] \<Longrightarrow> cut_at d s = Some (a, b) \<Longrightarrow> tokens_at d s = a # tokens_at d b"
  by (cases d) (auto simp: by_string.tokens_Some)

lemma tokens_at_ne: "d \<noteq> [] \<Longrightarrow> tokens_at d s \<noteq> []"
  by (cases d) (auto simp: by_string.tokens_ne)

lemma tokens_at_cases [consumes 1, case_names none some]:
  assumes "d \<noteq> []" "\<And>s. cut_at d s = None \<Longrightarrow> P s"
    "\<And>s a b. cut_at d s = Some (a, b) \<Longrightarrow> P b \<Longrightarrow> P s"
  shows "P s"
proof -
  obtain x xs where d: "d = x # xs" using assms(1) by (cases d) auto
  show ?thesis by (rule by_string.tokens_induct [of x xs P]) (use assms(2,3) d in blast)+
qed

lemma Join_tokens_at:
  assumes d: "d \<noteq> []"
  shows "Join (tokens_at d s) d False False = s"
  using d
proof (induction s rule: tokens_at_cases)
  case (some s a b)
  then show ?case by (simp add: tokens_at_Some [OF d] Join_Cons tokens_at_ne [OF d] cut_at_Some [symmetric])
qed (simp add: tokens_at_None [OF d] Join_one)

lemma Split_tokens_at:
  "d \<noteq> [] \<Longrightarrow> Split s d skip_empty = Some (filter (\<lambda>t. \<not> skip_empty \<or> t \<noteq> []) (tokens_at d s))"
  by (cases d) (use by_string.split_loop_tokens [of 0 s] in \<open>simp_all add: Split_def\<close>)

lemma Split_char_Split: "Split_char s c = Split s [c]"
  by (simp add: Split_char_def Split_def fun_eq_iff)

lemma replace_loop_tokens:
  assumes d: "d \<noteq> []"
  shows "replace_loop d w (pre @ s) (length pre) r
    = Some (r \<or> length (tokens_at d s) \<noteq> 1, pre @ Join (tokens_at d s) w False False)"
  using d
proof (induction s arbitrary: pre r rule: tokens_at_cases)
  case (none s)
  then have "find_from (pre @ s) d (length pre) = None" by (simp add: find_from_cut)
  then show ?case using none by (subst replace_loop.simps) (simp add: tokens_at_None [OF d] Join_one)
next
  case (some s a b)
  then have f: "find_from (pre @ s) d (length pre) = Some (length pre + length a)" by (simp add: find_from_cut)
  have r: "replace_at (pre @ s) (length pre + length a) (length d) w = (pre @ a @ w) @ b"
    using cut_at_Some [OF some(1)] by (simp add: replace_at_def)
  have "replace_loop d w (pre @ s) (length pre) r
    = replace_loop d w ((pre @ a @ w) @ b) (length (pre @ a @ w)) True"
    by (subst replace_loop.simps) (simp only: f option.case r, simp add: add.assoc)
  also have "\<dots> = Some (True, (pre @ a @ w) @ Join (tokens_at d b) w False False)"
    using some.IH [of "pre @ a @ w" True] some.prems by simp
  finally show ?case using some by (simp add: tokens_at_Some [OF d] Join_Cons tokens_at_ne [OF d])
qed

lemma count_loop_tokens:
  assumes d: "d \<noteq> []"
  shows "pos \<le> length str \<Longrightarrow> count_loop str d pos n = Some (n + (length (tokens_at d (drop pos str)) - 1))"
  using d
proof (induction "drop pos str" arbitrary: pos n rule: tokens_at_cases)
  case none
  then show ?case by (subst count_loop.simps) (simp add: find_from_cut tokens_at_None [OF d])
next
  case (some a b)
  let ?p = "pos + length a + length d"
  have eq: "drop pos str = a @ d @ b" using cut_at_Some some(1) by blast
  have b: "b = drop ?p str"
  proof -
    have "drop (length a + length d) (drop pos str) = b" by (simp add: eq)
    then show ?thesis by (simp add: add.commute add.left_commute)
  qed
  have "?p \<le> length str" using arg_cong [OF eq, of length] some.prems by simp
  then have "count_loop str d ?p (Suc n) = Some (Suc n + (length (tokens_at d b) - 1))"
    using some(2) [of ?p "Suc n"] b some.prems by simp
  moreover have "length (tokens_at d b) \<noteq> 0" using tokens_at_ne [OF d] by simp
  ultimately show ?case using some
    by (subst count_loop.simps) (simp add: find_from_cut tokens_at_Some [OF d] add.assoc)
qed

subsection \<open>Loops that do not end\<close>

lemma find_from_empty: "pos \<le> length str \<Longrightarrow> find_from str [] pos = Some pos"
  by (subst find_from.simps) simp


lemma count_loop_empty:
  assumes "count_loop str substr pos n = Some r"
  shows "substr = [] \<longrightarrow> length str < pos"
proof (rule count_loop.raw_induct [where P = "\<lambda>str substr pos n r. substr = [] \<longrightarrow> length str < pos", OF _ assms])
  fix f str substr pos count r
  assume IH: "\<And>str substr pos count y. f str substr pos count = Some y \<Longrightarrow> substr = [] \<longrightarrow> length str < pos"
    and step: "(case find_from str substr pos of None \<Rightarrow> Some count
      | Some p \<Rightarrow> f str substr (p + length substr) (Suc count)) = Some r"
  show "substr = [] \<longrightarrow> length str < pos"
  proof (intro impI, rule ccontr)
    assume e: "substr = []" "\<not> length str < pos"
    with step have "f str substr pos (Suc count) = Some r" by (simp add: find_from_empty)
    from IH [OF this] e show False by simp
  qed
qed

lemma replace_loop_empty:
  assumes "replace_loop substr w str pos r = Some y"
  shows "substr = [] \<longrightarrow> length str < pos"
proof (rule replace_loop.raw_induct [where P = "\<lambda>substr w str pos r y. substr = [] \<longrightarrow> length str < pos", OF _ assms])
  fix f substr w str pos r y
  assume IH: "\<And>substr w str pos r y. f substr w str pos r = Some y \<Longrightarrow> substr = [] \<longrightarrow> length str < pos"
    and step: "(case find_from str substr pos of None \<Rightarrow> Some (r, str)
      | Some p \<Rightarrow> f substr w (replace_at str p (length substr) w) (p + length w) True) = Some y"
  show "substr = [] \<longrightarrow> length str < pos"
  proof (intro impI, rule ccontr)
    assume e: "substr = []" "\<not> length str < pos"
    with step have "f substr w (replace_at str pos 0 w) (pos + length w) True = Some y"
      by (simp add: find_from_empty)
    from IH [OF this] e show False by (simp add: replace_at_def)
  qed
qed

lemma split_loop_empty:
  assumes "split_loop search step skip_empty str pos tokens = Some y"
  shows "search = (\<lambda>str. find_from str []) \<and> step = 0 \<longrightarrow> length str \<le> pos"
proof (rule split_loop.raw_induct [where P = "\<lambda>search step skip_empty str pos tokens y.
    search = (\<lambda>str. find_from str []) \<and> step = 0 \<longrightarrow> length str \<le> pos", OF _ assms])
  fix f search step skip_empty str pos tokens y
  assume IH: "\<And>search step skip_empty str pos tokens y. f search step skip_empty str pos tokens = Some y \<Longrightarrow>
      search = (\<lambda>str. find_from str []) \<and> step = 0 \<longrightarrow> length str \<le> pos"
    and eq: "(let pos_current = (case search str pos of None \<Rightarrow> length str | Some p \<Rightarrow> p);
          len = pos_current - pos;
          tokens = (if \<not> skip_empty \<or> len \<noteq> 0 then tokens @ [take len (drop pos str)] else tokens)
      in if pos_current = length str then Some tokens
         else f search step skip_empty str (pos_current + step) tokens) = Some y"
  show "search = (\<lambda>str. find_from str []) \<and> step = 0 \<longrightarrow> length str \<le> pos"
  proof (intro impI, rule ccontr)
    assume e: "search = (\<lambda>str. find_from str []) \<and> step = 0" "\<not> length str \<le> pos"
    then obtain ts where "f search step skip_empty str pos ts = Some y"
      using eq by (simp add: find_from_empty Let_def)
    from IH [OF this] e show False by simp
  qed
qed

subsection \<open>Trims\<close>

lemma LTrim_ToLTrim: "LTrim str = ToLTrim str"
  by (simp add: LTrim_def ToLTrim_def erase_range_def)

lemma RTrim_ToRTrim: "RTrim str = ToRTrim str"
  by (simp add: RTrim_def ToRTrim_def erase_range_def)

lemma find_if_prefix:
  "\<forall>c \<in> set pre. \<not> p c \<Longrightarrow> mid \<noteq> [] \<Longrightarrow> p (hd mid) \<Longrightarrow> find_if p (pre @ mid) = length pre"
  by (induction pre) (auto simp: neq_Nil_conv)

text \<open>A string of blanks, or blanks around a text that starts and ends with other characters.\<close>

lemma blank_decomposition:
  "(\<forall>c \<in> set str. isspace c) \<or>
   (\<exists>pre mid post. str = pre @ mid @ post \<and> (\<forall>c \<in> set pre. isspace c) \<and> (\<forall>c \<in> set post. isspace c) \<and>
      mid \<noteq> [] \<and> \<not> isspace (hd mid) \<and> \<not> isspace (last mid))"
proof (cases "\<forall>c \<in> set str. isspace c")
  case False
  define core where "core = dropWhile isspace str"
  define mid where "mid = rev (dropWhile isspace (rev core))"
  have core: "core \<noteq> []" "\<not> isspace (hd core)"
    using False by (simp_all add: core_def dropWhile_eq_Nil_conv hd_dropWhile)
  have "core = mid @ rev (takeWhile isspace (rev core))"
    unfolding mid_def by (metis rev_append rev_rev_ident takeWhile_dropWhile_id)
  moreover have mid: "mid \<noteq> []" using core by (auto simp: mid_def dropWhile_eq_Nil_conv)
  moreover have "hd mid = hd core" using calculation by (metis hd_append2)
  moreover have "\<not> isspace (last mid)" using mid by (simp add: mid_def last_rev hd_dropWhile)
  moreover have "str = takeWhile isspace str @ core" by (simp add: core_def)
  moreover have "\<forall>c \<in> set (takeWhile isspace str). isspace c"
     "\<forall>c \<in> set (rev (takeWhile isspace (rev core))). isspace c" by (auto dest: set_takeWhileD)
  ultimately show ?thesis using core(2) by metis
qed simp

lemma trims_blank:
  assumes "\<forall>c \<in> set str. isspace c"
  shows "ToTrim str = []" "ToLTrim str = []" "ToRTrim str = []"
proof -
  have "find_if (\<lambda>c. \<not> isspace c) xs = length xs" if "\<forall>c \<in> set xs. isspace c" for xs
    using that by (induction xs) auto
  from this [of str] this [of "rev str"] assms show "ToTrim str = []" "ToLTrim str = []" "ToRTrim str = []"
    by (simp_all add: ToTrim_def ToLTrim_def ToRTrim_def rfind_if_base_def)
qed

lemma trims_core:
  assumes str: "str = pre @ mid @ post" and blank: "\<forall>c \<in> set pre. isspace c" "\<forall>c \<in> set post. isspace c"
    and mid: "mid \<noteq> []" "\<not> isspace (hd mid)" "\<not> isspace (last mid)"
  shows "ToTrim str = mid" "ToLTrim str = mid @ post" "ToRTrim str = pre @ mid"
proof -
  have s: "find_if (\<lambda>c. \<not> isspace c) str = length pre"
    using find_if_prefix [of pre "\<lambda>c. \<not> isspace c" "mid @ post"] assms by simp
  have e: "find_if (\<lambda>c. \<not> isspace c) (rev str) = length post"
    using find_if_prefix [of "rev post" "\<lambda>c. \<not> isspace c" "rev mid @ rev pre"] assms by (simp add: hd_rev)
  show "ToTrim str = mid" "ToLTrim str = mid @ post" "ToRTrim str = pre @ mid"
    unfolding ToTrim_def ToLTrim_def ToRTrim_def rfind_if_base_def s e using mid by (simp_all add: str Let_def)
qed

lemma Trim_ToTrim: "Trim str = ToTrim str"
proof -
  consider "\<forall>c \<in> set str. isspace c" | pre mid post where "str = pre @ mid @ post" "\<forall>c \<in> set pre. isspace c"
      "\<forall>c \<in> set post. isspace c" "mid \<noteq> []" "\<not> isspace (hd mid)" "\<not> isspace (last mid)"
    using blank_decomposition [of str] by blast
  then show ?thesis
  proof cases
    case 1
    then show ?thesis using trims_blank by (simp add: Trim_def LTrim_ToLTrim RTrim_ToRTrim)
  next
    case 2
    then show ?thesis
      using trims_core [OF 2] trims_core(2) [of "pre @ mid" pre mid "[]"]
      by (simp add: Trim_def LTrim_ToLTrim RTrim_ToRTrim)
  qed
qed

lemma CompareNoCase_Lower: "CompareNoCase s t \<longleftrightarrow> Lower s = Lower t"
proof -
  have "list_all2 (\<lambda>l r. tolower l = tolower r) s t \<longleftrightarrow> map tolower s = map tolower t"
    by (auto simp: list_all2_conv_all_nth list_eq_iff_nth_eq)
  then show ?thesis by (auto simp: CompareNoCase_def Lower_def dest: map_eq_imp_length_eq)
qed

lemma Contains_iff: "Contains s d \<longleftrightarrow> (\<exists>a b. s = a @ d @ b)"
  using find_from_cut [of 0 s d] cut_at_None [of d s] by (simp add: Contains_def)

lemma StartsWith_iff: "StartsWith s p \<longleftrightarrow> (\<exists>t. s = p @ t)"
  by (auto simp: StartsWith_def) (metis append_take_drop_id)

lemma EndsWith_iff: "EndsWith s p \<longleftrightarrow> (\<exists>t. s = t @ p)"
  by (auto simp: EndsWith_def) (metis append_take_drop_id)

subsection \<open>Splitting inverts joining\<close>

lemma cut_at_first: "d \<noteq> [] \<Longrightarrow> cut_at d s = Some (a, b) \<Longrightarrow> cut_at d a = None"
proof (induction s arbitrary: a)
  case (Cons c s)
  show ?case
  proof (cases "length d \<le> Suc (length s) \<and> take (length d) (c # s) = d")
    case True
    then show ?thesis using Cons.prems by (simp add: cut_at_Cons cut_at_Nil)
  next
    case False
    then obtain a' where a: "a = c # a'" "cut_at d s = Some (a', b)" using Cons.prems by (auto simp: cut_at_Cons)
    then have s: "s = a' @ d @ b" by (simp add: cut_at_Some)
    have "\<not> (length d \<le> Suc (length a') \<and> take (length d) (c # a') = d)"
    proof
      assume t: "length d \<le> Suc (length a') \<and> take (length d) (c # a') = d"
      have "c # s = (c # a') @ d @ b" by (simp add: s)
      with t have "take (length d) (c # s) = take (length d) (c # a')" by (simp only: take_append) simp
      with t s False show False by simp
    qed
    with Cons.IH [OF Cons.prems(1) a(2)] show ?thesis by (simp add: a(1) cut_at_Cons)
  qed
qed (simp add: cut_at_Nil split: if_splits)

lemma tokens_at_no_delimiter:
  assumes d: "d \<noteq> []"
  shows "t \<in> set (tokens_at d s) \<Longrightarrow> \<not> Contains t d"
  using d
proof (induction s rule: tokens_at_cases)
  case (some s a b)
  then show ?case
    using cut_at_first [OF d some(1)] by (auto simp: tokens_at_Some [OF d] Contains_iff cut_at_None)
qed (auto simp: tokens_at_None [OF d] Contains_iff cut_at_None)

lemma cut_at_char: "c \<notin> set t \<Longrightarrow> cut_at [c] (t @ c # rest) = Some (t, rest)"
  by (induction t) (auto simp: cut_at_Cons)

lemma cut_at_char_None: "c \<notin> set t \<Longrightarrow> cut_at [c] t = None"
  by (auto simp: cut_at_None)

lemma tokens_at_Join:
  "ts \<noteq> [] \<Longrightarrow> \<forall>t \<in> set ts. c \<notin> set t \<Longrightarrow> tokens_at [c] (Join ts [c] False False) = ts"
proof (induction ts)
  case (Cons t ts)
  show ?case
  proof (cases "ts = []")
    case True
    then show ?thesis using Cons.prems by (simp add: tokens_at_None cut_at_char_None)
  next
    case False
    then have "cut_at [c] (Join (t # ts) [c] False False) = Some (t, Join ts [c] False False)"
      using Cons.prems by (simp add: Join_Cons cut_at_char)
    then show ?thesis using Cons False by (simp add: tokens_at_Some)
  qed
qed simp

lemma tokens_at_length: "d \<noteq> [] \<Longrightarrow> length (tokens_at d s) \<noteq> 1 \<longleftrightarrow> Contains s d"
proof -
  assume d: "d \<noteq> []"
  show ?thesis
  proof (cases "cut_at d s")
    case None
    then show ?thesis using cut_at_None [of d s] by (simp add: tokens_at_None [OF d] Contains_iff)
  next
    case (Some ab)
    then obtain a b where ab: "cut_at d s = Some (a, b)" by (cases ab) simp
    then have "Contains s d" using cut_at_None [of d s] by (simp add: Contains_iff)
    then show ?thesis using tokens_at_ne [OF d, of b] by (simp add: tokens_at_Some [OF d ab])
  qed
qed

subsection \<open>Properties\<close>

text \<open>
  C12. Splitting by a nonempty delimiter always ends; the tokens do not contain the delimiter
  and joining them gives the string back. \<^verbatim>\<open>CountAll\<close> counts the gaps between them, and
  \<^verbatim>\<open>ReplaceAll\<close> gives the tokens joined with the replacement, with the flag that says
  whether the substring occurs, although it searches the string it is rewriting.
\<close>

theorem Split_Join_Replace:
  assumes "d \<noteq> []"
  shows "\<exists>ts. Split s d False = Some ts \<and> Join ts d False False = s \<and> (\<forall>t \<in> set ts. \<not> Contains t d) \<and>
     CountAll s d = Some (length ts - 1) \<and>
     ReplaceAll s d w = Some (Contains s d, Join ts w False False)"
proof -
  have "CountAll s d = Some (length (tokens_at d s) - 1)"
    using count_loop_tokens [OF assms, of 0 s 0] by (simp add: CountAll_def)
  moreover have "ReplaceAll s d w = Some (Contains s d, Join (tokens_at d s) w False False)"
    using replace_loop_tokens [OF assms, of w "[]" s False] tokens_at_length [OF assms, of s] by (simp add: ReplaceAll_def)
  ultimately show ?thesis
    using tokens_at_no_delimiter [OF assms] Join_tokens_at [OF assms] by (auto simp: Split_tokens_at [OF assms])
qed

theorem Split_Join_Replace_witness:
  "\<exists>ts. Split [1, 2, 3, 4] [2, 3] False = Some ts \<and> Join ts [2, 3] False False = [1, 2, 3, 4] \<and>
     (\<forall>t \<in> set ts. \<not> Contains t [2, 3]) \<and> CountAll [1, 2, 3, 4] [2, 3] = Some (length ts - 1) \<and>
     ReplaceAll [1, 2, 3, 4] [2, 3] [2] = Some (Contains [1, 2, 3, 4] [2, 3], Join ts [2] False False)"
  by (rule Split_Join_Replace) simp



text \<open>
  C19. With an empty substring the loops of \<^verbatim>\<open>CountAll\<close> and \<^verbatim>\<open>ReplaceAll\<close> never
  end, and with an empty delimiter the loop of \<^verbatim>\<open>Split\<close> never ends on a nonempty string.
\<close>

theorem empty_pattern_never_returns:
  "CountAll s [] = None \<and> ReplaceAll s [] w = None \<and> (s = [] \<or> Split s [] skip_empty = None)"
proof (intro conjI)
  show "CountAll s [] = None"
    using count_loop_empty [of s "[]" 0 0] by (cases "CountAll s []") (auto simp: CountAll_def)
  show "ReplaceAll s [] w = None"
    using replace_loop_empty [of "[]" w s 0 False] by (cases "ReplaceAll s [] w") (auto simp: ReplaceAll_def)
  show "s = [] \<or> Split s [] skip_empty = None"
    using split_loop_empty [of "\<lambda>str. find_from str []" 0 skip_empty s 0 "[]"]
    by (cases "Split s [] skip_empty") (auto simp: Split_def)
qed

text \<open>
  Trimming in place and trimming a copy agree: both remove exactly the blanks
  before the first and after the last other character.
\<close>

theorem Trim_removes_outer_blanks:
  "\<exists>pre post. str = pre @ Trim str @ post \<and> IsBlank pre \<and> IsBlank post \<and> ToTrim str = Trim str \<and>
     (Trim str = [] \<or> \<not> isspace (hd (Trim str)) \<and> \<not> isspace (last (Trim str)))"
proof -
  have blank: "IsBlank s \<longleftrightarrow> (\<forall>c \<in> set s. isspace c)" for s by (induction s) auto
  consider "\<forall>c \<in> set str. isspace c" | pre mid post where "str = pre @ mid @ post" "\<forall>c \<in> set pre. isspace c"
      "\<forall>c \<in> set post. isspace c" "mid \<noteq> []" "\<not> isspace (hd mid)" "\<not> isspace (last mid)"
    using blank_decomposition [of str] by blast
  then show ?thesis
  proof cases
    case 1
    then have "str = str @ Trim str @ []" "Trim str = []" using trims_blank by (simp_all add: Trim_ToTrim)
    with 1 show ?thesis unfolding blank Trim_ToTrim by (metis empty_iff list.set(1))
  next
    case 2
    show ?thesis unfolding blank Trim_ToTrim trims_core(1) [OF 2]
      by (intro exI [of _ pre] exI [of _ post]) (simp add: 2)
  qed
qed

text \<open>
  The searches and the comparison mean what their names say: \<^verbatim>\<open>Contains\<close>, \<^verbatim>\<open>StartsWith\<close>
  and \<^verbatim>\<open>EndsWith\<close> decide the factor, prefix and suffix relations, and \<^verbatim>\<open>CompareNoCase\<close>
  compares the strings in lower case.
\<close>

theorem search_relations:
  "(Contains s d \<longleftrightarrow> (\<exists>a b. s = a @ d @ b)) \<and> (StartsWith s d \<longleftrightarrow> (\<exists>b. s = d @ b)) \<and>
   (EndsWith s d \<longleftrightarrow> (\<exists>a. s = a @ d)) \<and> (CompareNoCase s t \<longleftrightarrow> Lower s = Lower t)"
  by (simp only: Contains_iff StartsWith_iff EndsWith_iff CompareNoCase_Lower simp_thms)

lemma pattern_loop_first:
  defines "pat key \<equiv> (if StartsWith key [0x21] then drop 1 key else key)"
  shows "pattern_loop regex str keys result =
     (case find (\<lambda>key. regex (pat key) str = Some True) keys of
        Some key \<Rightarrow> \<not> StartsWith key [0x21]
      | None \<Rightarrow> if keys = [] then result else StartsWith (last keys) [0x21])"
  by (induction keys arbitrary: result) (auto simp: pat_def Let_def split: option.splits)

text \<open>
  A pattern list always gives an answer, whatever the regular expressions do: the first key that
  matches decides (positively, or negatively with a leading exclamation mark), a rejected expression
  counts as no match, and without a match the sign of the last key decides.
\<close>

theorem IsPatternMatch_first_match:
  "\<exists>keys. Split_char patterns 0x3B False = Some keys \<and> keys \<noteq> [] \<and>
     IsPatternMatch regex patterns str =
       Some (case find (\<lambda>key. regex (if StartsWith key [0x21] then drop 1 key else key) str = Some True) keys of
               Some key \<Rightarrow> \<not> StartsWith key [0x21]
             | None \<Rightarrow> StartsWith (last keys) [0x21])"
proof -
  have "Split_char patterns 0x3B False = Some (tokens_at [0x3B] patterns)"
    using Split_tokens_at [of "[0x3B]" patterns False] by (simp add: Split_char_Split)
  then show ?thesis
    using tokens_at_ne [of "[0x3B]" patterns] by (simp add: IsPatternMatch_def pattern_loop_first)
qed

end
