(* ===== verification/WideInt.thy ===== *)
theory WideInt
  imports Prelude
begin

text \<open>
  The contract of an unsigned integer type of \<open>w\<close> bits, and the facts by which an integer of twice the
  width is built from two of them. The contract is met by \<^verbatim>\<open>uint64_t\<close>, by \<^verbatim>\<open>uint128_t\<close>
  (built on \<^verbatim>\<open>uint64_t\<close>) and by \<^verbatim>\<open>uint256_t\<close> (built on \<^verbatim>\<open>uint128_t\<close>);
  the carry, borrow and shift arguments of the two classes are made once, here.
\<close>

definition hex_digits :: "string" where
  "hex_digits = ''0123456789abcdef''"

definition pad_left :: "nat \<Rightarrow> string \<Rightarrow> string" where
  "pad_left len out = (if length out < len then replicate (len - length out) (CHR ''0'') @ out else out)"

text \<open>Reference definitions: the number of significant bits, and the number a text denotes.\<close>

fun bitlen :: "nat \<Rightarrow> nat" where
  "bitlen n = (if n = 0 then 0 else Suc (bitlen (n div 2)))"

declare bitlen.simps [simp del]

fun char_index :: "char \<Rightarrow> string \<Rightarrow> nat" where
  "char_index c [] = 0"
| "char_index c (d # ds) = (if c = d then 0 else Suc (char_index c ds))"

definition read_digits :: "nat \<Rightarrow> string \<Rightarrow> nat" where
  "read_digits base cs = foldl (\<lambda>n c. n * base + char_index c hex_digits) 0 cs"

locale unsigned_int =
  fixes w :: nat
    and val :: "'a \<Rightarrow> nat"
    and lit :: "nat \<Rightarrow> 'a"
    and add :: "'a \<Rightarrow> 'a \<Rightarrow> 'a"
    and sub :: "'a \<Rightarrow> 'a \<Rightarrow> 'a"
    and lt :: "'a \<Rightarrow> 'a \<Rightarrow> bool"
    and shl :: "'a \<Rightarrow> 'a \<Rightarrow> 'a"
    and shr :: "'a \<Rightarrow> 'a \<Rightarrow> 'a"
  assumes w_range: "64 \<le> w" "w \<le> 256"
    and val_bound: "val a < 2 ^ w"
    and val_inj: "val a = val b \<longleftrightarrow> a = b"
    and val_lit: "n \<le> 512 \<Longrightarrow> val (lit n) = n"
    and val_add: "val (add a b) = (val a + val b) mod 2 ^ w"
    and val_sub: "val (sub a b) = (if val b \<le> val a then val a - val b else 2 ^ w + val a - val b)"
    and val_lt: "lt a b \<longleftrightarrow> val a < val b"
    and val_shl: "val s < w \<Longrightarrow> val (shl a s) = (val a * 2 ^ val s) mod 2 ^ w"
    and val_shr: "val s < w \<Longrightarrow> val (shr a s) = val a div 2 ^ val s"
begin

lemma val_lit_0 [simp]: "val (lit 0) = 0" and val_lit_1 [simp]: "val (lit (Suc 0)) = 1" and val_lit_w: "val (lit w) = w"
  using val_lit w_range by auto

text \<open>A sum is below its first summand exactly when a carry is lost, a difference above the minuend
  exactly when a borrow is.\<close>

lemma carry: "lt (add a b) a \<longleftrightarrow> 2 ^ w \<le> val a + val b"
proof (cases "val a + val b < 2 ^ w")
  case False
  then have "val (add a b) = val a + val b - 2 ^ w"
    using val_bound [of a] val_bound [of b] by (simp add: val_add le_mod_geq)
  with False val_bound [of b] show ?thesis by (simp add: val_lt)
qed (simp add: val_lt val_add)

lemma borrow: "lt a (sub a b) \<longleftrightarrow> val a < val b"
  using val_bound [of a] val_bound [of b] by (auto simp: val_lt val_sub)

text \<open>The value of an upper and a lower half.\<close>

definition wval :: "'a \<Rightarrow> 'a \<Rightarrow> nat" where
  "wval u l = val u * 2 ^ w + val l"

lemma wval_bound: "wval u l < 2 ^ (w + w)"
proof -
  have "wval u l < (val u + 1) * 2 ^ w" using val_bound [of l] by (simp add: wval_def)
  also have "\<dots> \<le> 2 ^ w * 2 ^ w" using val_bound [of u] by (intro mult_right_mono) simp_all
  finally show ?thesis by (simp add: power_add)
qed

lemma wval_inj: "wval u l = wval u' l' \<longleftrightarrow> u = u' \<and> l = l'"
proof
  assume eq: "wval u l = wval u' l'"
  have "wval a b mod 2 ^ w = val b" "wval a b div 2 ^ w = val a" for a b
    using val_bound [of b] by (simp_all add: wval_def)
  with eq have "val l = val l'" "val u = val u'" by metis+
  then show "u = u' \<and> l = l'" by (simp add: val_inj)
qed simp

lemma wval_lt: "(if u = u' then lt l l' else lt u u') \<longleftrightarrow> wval u l < wval u' l'"
proof -
  have "a * 2 ^ w + b < c * 2 ^ w + d" if "a < c" "b < 2 ^ w" for a b c d :: nat
  proof -
    have "a * 2 ^ w + b < (a + 1) * 2 ^ w" using that by simp
    also have "\<dots> \<le> c * 2 ^ w" using that by (intro mult_right_mono) simp_all
    finally show ?thesis by simp
  qed
  note less = this
  consider "val u = val u'" | "val u < val u'" | "val u' < val u" by linarith
  then show ?thesis
  proof cases
    case 1
    then show ?thesis by (simp add: val_inj val_lt wval_def)
  next
    case 2
    then show ?thesis using less [OF 2 val_bound] by (auto simp: val_lt wval_def)
  next
    case 3
    then show ?thesis using less [OF 3 val_bound [of l'], of "val l"] by (auto simp: val_lt wval_def)
  qed
qed

lemma mod_pow_double: "(a * 2 ^ w + b) mod 2 ^ (w + w) = (a mod 2 ^ w) * 2 ^ w + b" if "b < 2 ^ w" for a b :: nat
proof -
  have "(a * 2 ^ w + b) mod (2 ^ w * 2 ^ w) = 2 ^ w * ((a * 2 ^ w + b) div 2 ^ w mod 2 ^ w) + (a * 2 ^ w + b) mod 2 ^ w"
    by (rule mod_mult2_eq)
  then show ?thesis using that by (simp add: power_add mult.commute)
qed

lemma wval_add:
  "wval (add (add u u') (if lt (add l l') l then lit 1 else lit 0)) (add l l')
   = (wval u l + wval u' l') mod 2 ^ (w + w)"
proof -
  let ?c = "if 2 ^ w \<le> val l + val l' then 1 else 0 :: nat"
  have low: "val (add l l') = val l + val l' - ?c * 2 ^ w" "?c * 2 ^ w \<le> val l + val l'"
    using val_bound [of l] val_bound [of l'] by (auto simp: val_add le_mod_geq)
  have sum: "wval u l + wval u' l' = (val u + val u' + ?c) * 2 ^ w + val (add l l')"
    unfolding wval_def using low by (simp add: algebra_simps)
  have "val (add (add u u') (if lt (add l l') l then lit 1 else lit 0)) = (val u + val u' + ?c) mod 2 ^ w"
    by (simp add: carry val_add mod_add_left_eq)
  then show ?thesis
    unfolding sum mod_pow_double [OF val_bound] by (simp add: wval_def)
qed

text \<open>Subtraction, over the integers.\<close>

lemma int_val_bound: "int (val a) < 2 ^ w"
  using val_bound [of a] by (metis of_nat_less_iff of_nat_numeral of_nat_power)

lemma int_val_sub: "int (val (sub a b)) = (int (val a) - int (val b)) mod 2 ^ w"
proof (cases "val b \<le> val a")
  case True
  then have "int (val (sub a b)) = int (val a) - int (val b)" by (simp add: val_sub)
  moreover have "int (val a) - int (val b) < 2 ^ w" using int_val_bound [of a] by linarith
  ultimately show ?thesis using True by simp
next
  case False
  then have "int (val (sub a b)) = int (val a) - int (val b) + 2 ^ w"
    using val_bound [of b] by (simp add: val_sub of_nat_diff)
  moreover have "0 \<le> \<dots>" using val_bound [of b] calculation by simp
  moreover have "\<dots> < 2 ^ w" using False by simp
  ultimately show ?thesis by (metis add.commute mod_add_self1 mod_pos_pos_trivial)
qed

lemma int_mod_pow_double:
  "(a * 2 ^ w + b) mod 2 ^ (w + w) = (a mod 2 ^ w) * 2 ^ w + b" if "0 \<le> b" "b < 2 ^ w" for a b :: int
proof -
  have "(a * 2 ^ w + b) mod (2 ^ w * 2 ^ w) = 2 ^ w * ((a * 2 ^ w + b) div 2 ^ w mod 2 ^ w) + (a * 2 ^ w + b) mod 2 ^ w"
    by (rule zmod_zmult2_eq) simp
  then show ?thesis using that by (simp add: power_add mult.commute)
qed

lemma int_wval_sub:
  "int (wval (sub (sub u u') (if lt l (sub l l') then lit 1 else lit 0)) (sub l l'))
   = (int (wval u l) - int (wval u' l')) mod 2 ^ (w + w)"
proof -
  let ?c = "if val l < val l' then 1 else 0 :: int"
  have low: "int (val l) - int (val l') = int (val (sub l l')) - ?c * 2 ^ w"
    using val_bound [of l'] by (auto simp: val_sub of_nat_diff)
  have b: "0 \<le> int (val (sub l l'))" "int (val (sub l l')) < 2 ^ w"
    by (simp, rule int_val_bound)
  have diff: "int (wval u l) - int (wval u' l') = (int (val u) - int (val u') - ?c) * 2 ^ w + int (val (sub l l'))"
    unfolding wval_def using low by (simp add: algebra_simps)
  have "int (val (sub (sub u u') (if lt l (sub l l') then lit 1 else lit 0))) = (int (val u) - int (val u') - ?c) mod 2 ^ w"
    by (simp add: borrow int_val_sub mod_diff_left_eq)
  then show ?thesis
    unfolding diff int_mod_pow_double [OF b] by (simp add: wval_def)
qed

lemma wval_sub:
  "wval (sub (sub u u') (if lt l (sub l l') then lit 1 else lit 0)) (sub l l')
   = (if wval u' l' \<le> wval u l then wval u l - wval u' l' else 2 ^ (w + w) + wval u l - wval u' l')"
proof -
  let ?d = "wval (sub (sub u u') (if lt l (sub l l') then lit 1 else lit 0)) (sub l l')"
  let ?r = "if wval u' l' \<le> wval u l then wval u l - wval u' l' else 2 ^ (w + w) + wval u l - wval u' l'"
  have lt: "?r < 2 ^ (w + w)" using wval_bound [of u l] wval_bound [of u' l'] by auto
  have "int ?r = (if wval u' l' \<le> wval u l then 0 else 2 ^ (w + w)) + (int (wval u l) - int (wval u' l'))"
    using wval_bound [of u' l'] by (simp add: of_nat_diff)
  then have "int ?r mod 2 ^ (w + w) = int ?d" unfolding int_wval_sub by (simp split: if_splits)
  moreover have "int ?r mod 2 ^ (w + w) = int ?r"
    using lt by (metis mod_less of_nat_mod of_nat_numeral of_nat_power)
  ultimately show ?thesis by linarith
qed

subsection \<open>Shifts across the halves\<close>

lemma val_sub_lit_w: "val s \<le> w \<Longrightarrow> val (sub (lit w) s) = w - val s"
  by (simp add: val_sub val_lit_w)

lemma val_sub_w: "w \<le> val s \<Longrightarrow> val (sub s (lit w)) = val s - w"
  by (simp add: val_sub val_lit_w)

lemma pow_split: "k \<le> w \<Longrightarrow> (2 :: nat) ^ w = 2 ^ (w - k) * 2 ^ k"
  by (simp add: power_add [symmetric])

lemma wval_shl_small:
  assumes "0 < val s" "val s < w"
  shows "wval (add (shl u s) (shr l (sub (lit w) s))) (shl l s) = wval u l * 2 ^ val s mod 2 ^ (w + w)"
proof -
  let ?s = "val s"
  have high: "val (add (shl u s) (shr l (sub (lit w) s))) = (val u * 2 ^ ?s + val l div 2 ^ (w - ?s)) mod 2 ^ w"
    using assms by (simp add: val_add val_shl val_shr val_sub_lit_w mod_add_left_eq)
  have "val l * 2 ^ ?s div 2 ^ w = val l div 2 ^ (w - ?s)"
    using assms by (simp add: pow_split [of ?s])
  then have "val l * 2 ^ ?s = (val l div 2 ^ (w - ?s)) * 2 ^ w + val (shl l s)"
    using assms by (simp add: val_shl) (metis div_mult_mod_eq)
  then have "wval u l * 2 ^ ?s = (val u * 2 ^ ?s + val l div 2 ^ (w - ?s)) * 2 ^ w + val (shl l s)"
    by (simp add: wval_def algebra_simps)
  then show ?thesis by (simp only: mod_pow_double [OF val_bound] wval_def high)
qed

lemma wval_shl_large:
  assumes "w \<le> val s" "val s < w + w"
  shows "wval (shl l (sub s (lit w))) (lit 0) = wval u l * 2 ^ val s mod 2 ^ (w + w)"
proof -
  have s: "val s = w + (val s - w)" using assms by simp
  have "wval u l * 2 ^ val s = (val u * 2 ^ val s + val l * 2 ^ (val s - w)) * 2 ^ w + 0"
    by (subst (1) s) (simp add: wval_def power_add algebra_simps, subst (1) s, simp add: power_add algebra_simps)
  moreover have "(val u * 2 ^ val s + val l * 2 ^ (val s - w)) mod 2 ^ w = val (shl l (sub s (lit w)))"
  proof -
    have "val u * 2 ^ val s = 2 ^ w * (val u * 2 ^ (val s - w))" by (subst s) (simp add: power_add)
    then have "(val u * 2 ^ val s + val l * 2 ^ (val s - w)) mod 2 ^ w = val l * 2 ^ (val s - w) mod 2 ^ w"
      by (simp only: mod_mult_self4)
    then show ?thesis using assms by (simp add: val_shl val_sub_w)
  qed
  ultimately show ?thesis by (simp only: mod_pow_double [OF zero_less_power [OF zero_less_numeral]]) (simp add: wval_def)
qed

lemma wval_shr_small:
  assumes "0 < val s" "val s < w"
  shows "wval (shr u s) (add (shl u (sub (lit w) s)) (shr l s)) = wval u l div 2 ^ val s"
proof -
  let ?s = "val s"
  have su: "val (shl u (sub (lit w) s)) = (val u mod 2 ^ ?s) * 2 ^ (w - ?s)"
    using assms by (simp add: val_shl val_sub_lit_w pow_split [of ?s] mult.commute [of "2 ^ (w - ?s)"] mod_mult_mult2 del: power_Suc)
  have sl: "val (shr l s) = val l div 2 ^ ?s" using assms by (simp add: val_shr)
  have "val l div 2 ^ ?s < 2 ^ (w - ?s)"
    using val_bound [of l] assms by (simp add: less_mult_imp_div_less pow_split [of ?s])
  moreover have "(val u mod 2 ^ ?s) * 2 ^ (w - ?s) + 2 ^ (w - ?s) \<le> 2 ^ w"
  proof -
    have "(val u mod 2 ^ ?s + 1) * 2 ^ (w - ?s) \<le> 2 ^ ?s * 2 ^ (w - ?s)"
      by (intro mult_right_mono) (simp_all add: Suc_leI)
    then show ?thesis using assms by (simp add: pow_split [of ?s] mult.commute)
  qed
  ultimately have low: "val (add (shl u (sub (lit w) s)) (shr l s)) = (val u mod 2 ^ ?s) * 2 ^ (w - ?s) + val l div 2 ^ ?s"
    by (simp add: val_add su sl)
  have "wval u l = (val u * 2 ^ (w - ?s)) * 2 ^ ?s + val l"
    using assms by (simp add: wval_def pow_split [of ?s])
  then have "wval u l div 2 ^ ?s = val u * 2 ^ (w - ?s) + val l div 2 ^ ?s" by simp
  also have "val u * 2 ^ (w - ?s) = (val u div 2 ^ ?s) * 2 ^ w + (val u mod 2 ^ ?s) * 2 ^ (w - ?s)"
  proof -
    have "val u * 2 ^ (w - ?s) = (val u div 2 ^ ?s * 2 ^ ?s + val u mod 2 ^ ?s) * 2 ^ (w - ?s)"
      by (simp only: div_mult_mod_eq)
    also have "\<dots> = (val u div 2 ^ ?s) * (2 ^ (w - ?s) * 2 ^ ?s) + (val u mod 2 ^ ?s) * 2 ^ (w - ?s)"
      by (simp only: add_mult_distrib mult.assoc mult.commute [of "2 ^ ?s"])
    finally show ?thesis using assms by (simp only: pow_split [of ?s, symmetric] less_imp_le)
  qed
  finally show ?thesis using assms by (simp add: wval_def val_shr low)
qed

lemma wval_shr_large:
  assumes "w \<le> val s" "val s < w + w"
  shows "wval (lit 0) (shr u (sub s (lit w))) = wval u l div 2 ^ val s"
proof -
  have "wval u l div 2 ^ w = val u" using val_bound [of l] by (simp add: wval_def)
  moreover have "wval u l div 2 ^ (w + (val s - w)) = wval u l div 2 ^ w div 2 ^ (val s - w)"
    by (simp add: power_add div_mult2_eq)
  ultimately show ?thesis using assms by (simp add: wval_def val_shr val_sub_w)
qed

end

subsection \<open>Significant bits\<close>

lemma bitlen_0 [simp]: "bitlen 0 = 0"
  by (simp add: bitlen.simps)

lemma bitlen_pos: "0 < n \<Longrightarrow> bitlen n = Suc (bitlen (n div 2))"
  by (subst bitlen.simps) simp

lemma less_pow_bitlen: "n < 2 ^ bitlen n"
proof (induction n rule: bitlen.induct)
  case (1 n)
  then show ?case by (cases "n = 0") (auto simp: bitlen_pos)
qed

lemma pow_bitlen_le: "0 < n \<Longrightarrow> 2 ^ (bitlen n - 1) \<le> n"
proof (induction n rule: bitlen.induct)
  case (1 n)
  show ?case
  proof (cases "n div 2 = 0")
    case False
    then have "2 ^ (bitlen (n div 2) - 1) \<le> n div 2" "bitlen (n div 2) = Suc (bitlen (n div 2) - 1)"
      using 1 by (simp_all add: bitlen_pos [of "n div 2"])
    then have "2 ^ bitlen (n div 2) \<le> 2 * (n div 2)" by (metis mult_le_mono2 power_Suc)
    also have "\<dots> \<le> n" by simp
    finally show ?thesis using 1(2) by (simp add: bitlen_pos [of n])
  qed (use 1 in \<open>simp add: bitlen_pos\<close>)
qed

lemma bitlen_le: "n < 2 ^ k \<Longrightarrow> bitlen n \<le> k"
proof (cases "n = 0")
  case False
  assume "n < 2 ^ k"
  with pow_bitlen_le [of n] False have "(2 :: nat) ^ (bitlen n - 1) < 2 ^ k"
    by (meson le_less_trans neq0_conv)
  then have "bitlen n - 1 < k" by simp
  then show ?thesis by simp
qed simp

lemma bitlen_upper: "0 < u \<Longrightarrow> l < 2 ^ k \<Longrightarrow> bitlen (u * 2 ^ k + l) = k + bitlen u"
proof (induction k arbitrary: l)
  case (Suc k)
  have "(u * 2 ^ Suc k + l) div 2 = u * 2 ^ k + l div 2" by simp
  moreover have "0 < u * 2 ^ Suc k + l" using Suc.prems by simp
  ultimately show ?case using Suc.IH [of "l div 2"] Suc.prems by (simp add: bitlen_pos [of "u * 2 ^ Suc k + l"] del: power_Suc) (simp add: less_mult_imp_div_less mult.commute)
qed simp

subsection \<open>Text\<close>

lemma read_digits_append: "read_digits base (cs @ [c]) = read_digits base cs * base + char_index c hex_digits"
  by (simp add: read_digits_def)

lemma char_index_hex: "n < 16 \<Longrightarrow> char_index (hex_digits ! n) hex_digits = n"
proof -
  assume "n < 16"
  then have "n \<in> set [0..<16]" by simp
  moreover have "\<forall>n \<in> set [0..<16]. char_index (hex_digits ! n) hex_digits = n" by code_simp
  ultimately show ?thesis by blast
qed

lemma read_digits_zeros: "read_digits base (replicate k (CHR ''0'') @ cs) = read_digits base cs"
proof -
  have "char_index (CHR ''0'') hex_digits = 0" by (simp add: hex_digits_def)
  then show ?thesis by (induction k) (simp_all add: read_digits_def)
qed

lemma read_digits_pad: "read_digits base (pad_left len cs) = read_digits base cs"
  by (simp add: pad_left_def read_digits_zeros)

lemma length_pad_left: "length (pad_left len cs) = max len (length cs)"
  by (simp add: pad_left_def)

text \<open>
  What the conversion to text relies on: each round of the loop prepends the digit of the remainder
  by the base and goes on with the quotient, until that is zero.
\<close>

locale digit_printer =
  fixes val :: "'a \<Rightarrow> nat"
    and low8 :: "'a \<Rightarrow> u8"
    and loop :: "nat \<Rightarrow> 'a \<Rightarrow> string \<Rightarrow> string result option"
  assumes low8_val: "val r < 256 \<Longrightarrow> unat (low8 r) = val r"
    and loop_step: "2 \<le> base \<Longrightarrow> base \<le> 16 \<Longrightarrow>
      \<exists>q r. val q = val x div base \<and> val r = val x mod base \<and>
        (\<forall>out. loop base x out = (if val q \<noteq> 0 then loop base q (hex_digits ! unat (low8 r) # out)
           else Some (Inr (hex_digits ! unat (low8 r) # out))))"
begin

lemma loop_digits:
  assumes base: "2 \<le> base" "base \<le> 16"
  shows "\<exists>s. loop base x out = Some (Inr (s @ out)) \<and> read_digits base s = val x \<and> s \<noteq> []"
proof (induction "val x" arbitrary: x out rule: less_induct)
  case less
  obtain q r where qr: "val q = val x div base" "val r = val x mod base"
    and step: "\<And>out. loop base x out = (if val q \<noteq> 0 then loop base q (hex_digits ! unat (low8 r) # out)
           else Some (Inr (hex_digits ! unat (low8 r) # out)))"
    using loop_step [OF base, of x] by auto
  define c where "c = hex_digits ! unat (low8 r)"
  have "val r < 16" using qr(2) base mod_less_divisor [of base "val x"] by linarith
  then have c: "char_index c hex_digits = val x mod base"
    by (simp add: c_def low8_val char_index_hex qr(2) [symmetric])
  show ?case
  proof (cases "val q = 0")
    case True
    then have "loop base x out = Some (Inr ([c] @ out))" using step [of out] by (simp add: c_def)
    moreover have "read_digits base [c] = val x"
      using True qr(1) c base by (simp add: read_digits_def div_eq_0_iff)
    ultimately show ?thesis by blast
  next
    case False
    then have "val x \<noteq> 0" using qr(1) by (metis div_0)
    then have "val q < val x" using qr(1) base by simp
    from less [OF this, of "c # out"] obtain s where
      s: "loop base q (c # out) = Some (Inr (s @ c # out))" "read_digits base s = val q" by blast
    have "loop base x out = Some (Inr ((s @ [c]) @ out))"
      using step [of out] False s(1) by (simp add: c_def)
    moreover have "read_digits base (s @ [c]) = val x" by (simp add: read_digits_append s(2) c qr(1))
    ultimately show ?thesis by blast
  qed
qed

text \<open>The text of a value, padded to a length, with the value zero written as a single digit.\<close>

lemma print_denotes:
  fixes x :: 'a and len :: nat
  assumes base: "2 \<le> base" "base \<le> 16"
  defines "r \<equiv> (if val x = 0 then Some (Inr (pad_left len ''0''))
      else map_option (\<lambda>r. bind_result r (\<lambda>out. Inr (pad_left len out))) (loop base x []))"
  shows "\<exists>s. r = Some (Inr s) \<and> len \<le> length s \<and> s \<noteq> [] \<and> read_digits base s = val x"
proof -
  obtain s where s: "val x \<noteq> 0 \<longrightarrow> loop base x [] = Some (Inr s)" "val x = 0 \<longrightarrow> s = ''0''" "read_digits base s = val x" "s \<noteq> []"
  proof (cases "val x = 0")
    case True
    moreover have "read_digits base ''0'' = 0" by (simp add: read_digits_def hex_digits_def)
    ultimately show ?thesis using that [of "''0''"] by simp
  next
    case False
    then show ?thesis using loop_digits [OF base, of x "[]"] that by auto
  qed
  then have "r = Some (Inr (pad_left len s))" by (auto simp: r_def)
  moreover have "len \<le> length (pad_left len s)" "pad_left len s \<noteq> []"
    using s(4) by (simp_all add: length_pad_left pad_left_def)
  ultimately show ?thesis using s(3) by (simp add: read_digits_pad)
qed

end

end
