(* ===== verification/UInt128.thy ===== *)
theory UInt128
  imports WideInt
begin

text \<open>
  The 128-bit unsigned integer of \<^verbatim>\<open>include/common/uint128.h\<close>,
  \<^verbatim>\<open>include/common/uint128.inl\<close> and \<^verbatim>\<open>source/common/uint128.cpp\<close>: two 64-bit halves with
  the carries, partial products and shifts written out as in the source. The value of a
  pair of halves is \<open>val128\<close>; the operations are shown to be arithmetic modulo \<open>2 ^ 128\<close>.
\<close>

datatype uint128 = U128 (u128_upper: u64) (u128_lower: u64)

definition val128 :: "uint128 \<Rightarrow> nat" where
  "val128 x = unat (u128_upper x) * 2 ^ 64 + unat (u128_lower x)"

text \<open>The conversion of an unsigned value, and of a signed one: the upper half is zero in both.\<close>

definition UInt128_of :: "u64 \<Rightarrow> uint128" where
  "UInt128_of value = U128 0 value"

definition UInt128_of_int :: "int \<Rightarrow> uint128" where
  "UInt128_of_int value = U128 0 (word_of_int value)"

abbreviation lit128 :: "nat \<Rightarrow> uint128" where
  "lit128 n \<equiv> UInt128_of (word_of_nat n)"

subsection \<open>Operators\<close>

definition UInt128_add :: "uint128 \<Rightarrow> uint128 \<Rightarrow> uint128" where
  "UInt128_add value1 value2 =
     U128 (u128_upper value1 + u128_upper value2 +
             (if u128_lower value1 + u128_lower value2 < u128_lower value1 then 1 else 0))
          (u128_lower value1 + u128_lower value2)"

definition UInt128_sub :: "uint128 \<Rightarrow> uint128 \<Rightarrow> uint128" where
  "UInt128_sub value1 value2 =
     U128 (u128_upper value1 - u128_upper value2 -
             (if u128_lower value1 - u128_lower value2 > u128_lower value1 then 1 else 0))
          (u128_lower value1 - u128_lower value2)"

definition UInt128_not :: "uint128 \<Rightarrow> uint128" where
  "UInt128_not x = U128 (NOT (u128_upper x)) (NOT (u128_lower x))"

definition UInt128_neg :: "uint128 \<Rightarrow> uint128" where
  "UInt128_neg x = UInt128_add (UInt128_not x) (lit128 1)"

definition UInt128_inc :: "uint128 \<Rightarrow> uint128" where
  "UInt128_inc x = UInt128_add x (lit128 1)"

definition UInt128_dec :: "uint128 \<Rightarrow> uint128" where
  "UInt128_dec x = UInt128_sub x (lit128 1)"

definition UInt128_and :: "uint128 \<Rightarrow> uint128 \<Rightarrow> uint128" where
  "UInt128_and value1 value2 =
     U128 (u128_upper value1 AND u128_upper value2) (u128_lower value1 AND u128_lower value2)"

definition UInt128_or :: "uint128 \<Rightarrow> uint128 \<Rightarrow> uint128" where
  "UInt128_or value1 value2 =
     U128 (u128_upper value1 OR u128_upper value2) (u128_lower value1 OR u128_lower value2)"

definition UInt128_xor :: "uint128 \<Rightarrow> uint128 \<Rightarrow> uint128" where
  "UInt128_xor value1 value2 =
     U128 (u128_upper value1 XOR u128_upper value2) (u128_lower value1 XOR u128_lower value2)"

definition UInt128_bool :: "uint128 \<Rightarrow> bool" where
  "UInt128_bool x \<longleftrightarrow> u128_upper x OR u128_lower x \<noteq> 0"

definition UInt128_eq :: "uint128 \<Rightarrow> uint128 \<Rightarrow> bool" where
  "UInt128_eq value1 value2 \<longleftrightarrow>
     u128_upper value1 = u128_upper value2 \<and> u128_lower value1 = u128_lower value2"

definition UInt128_less :: "uint128 \<Rightarrow> uint128 \<Rightarrow> bool" where
  "UInt128_less value1 value2 \<longleftrightarrow>
     (if u128_upper value1 = u128_upper value2 then u128_lower value1 < u128_lower value2
      else u128_upper value1 < u128_upper value2)"

definition UInt128_greater :: "uint128 \<Rightarrow> uint128 \<Rightarrow> bool" where
  "UInt128_greater value1 value2 \<longleftrightarrow>
     (if u128_upper value1 = u128_upper value2 then u128_lower value1 > u128_lower value2
      else u128_upper value1 > u128_upper value2)"

definition UInt128_less_eq :: "uint128 \<Rightarrow> uint128 \<Rightarrow> bool" where
  "UInt128_less_eq value1 value2 \<longleftrightarrow> UInt128_less value1 value2 \<or> UInt128_eq value1 value2"

definition UInt128_greater_eq :: "uint128 \<Rightarrow> uint128 \<Rightarrow> bool" where
  "UInt128_greater_eq value1 value2 \<longleftrightarrow> UInt128_greater value1 value2 \<or> UInt128_eq value1 value2"

text \<open>The shifts of the half type, with the amount of the half type (below 64 where they are used).\<close>

definition shl64 :: "u64 \<Rightarrow> u64 \<Rightarrow> u64" where
  "shl64 x s = push_bit (unat s) x"

definition shr64 :: "u64 \<Rightarrow> u64 \<Rightarrow> u64" where
  "shr64 x s = drop_bit (unat s) x"

definition UInt128_shl :: "uint128 \<Rightarrow> uint128 \<Rightarrow> uint128" where
  "UInt128_shl value1 value2 =
     (let shift = u128_lower value2
      in if u128_upper value2 \<noteq> 0 \<or> shift \<ge> 128 then lit128 0
         else if shift = 64 then U128 (u128_lower value1) 0
         else if shift = 0 then value1
         else if shift < 64 then
           U128 (shl64 (u128_upper value1) shift + shr64 (u128_lower value1) (64 - shift))
                (shl64 (u128_lower value1) shift)
         else if 128 > shift \<and> shift > 64 then U128 (shl64 (u128_lower value1) (shift - 64)) 0
         else lit128 0)"

definition UInt128_shr :: "uint128 \<Rightarrow> uint128 \<Rightarrow> uint128" where
  "UInt128_shr value1 value2 =
     (let shift = u128_lower value2
      in if u128_upper value2 \<noteq> 0 \<or> shift \<ge> 128 then lit128 0
         else if shift = 64 then U128 0 (u128_upper value1)
         else if shift = 0 then value1
         else if shift < 64 then
           U128 (shr64 (u128_upper value1) shift)
                (shl64 (u128_upper value1) (64 - shift) + shr64 (u128_lower value1) shift)
         else if 128 > shift \<and> shift > 64 then U128 0 (shr64 (u128_upper value1) (shift - 64))
         else lit128 0)"

subsection \<open>Multiplication by 32-bit parts\<close>

definition hi32 :: "u64 \<Rightarrow> u64" where
  "hi32 x = drop_bit 32 x"

definition lo32 :: "u64 \<Rightarrow> u64" where
  "lo32 x = x AND 0xFFFFFFFF"

definition UInt128_mul :: "uint128 \<Rightarrow> uint128 \<Rightarrow> uint128" where
  "UInt128_mul value1 value2 =
     (let top = [hi32 (u128_upper value1), lo32 (u128_upper value1), hi32 (u128_lower value1), lo32 (u128_lower value1)];
          bottom = [hi32 (u128_upper value2), lo32 (u128_upper value2), hi32 (u128_lower value2), lo32 (u128_lower value2)];
          products = (\<lambda>r y. top ! (3 - r) * bottom ! y);
          fourth32 = lo32 (products 0 3);
          third32 = lo32 (products 0 2) + hi32 (products 0 3);
          second32 = lo32 (products 0 1) + hi32 (products 0 2);
          first32 = lo32 (products 0 0) + hi32 (products 0 1);
          third32 = third32 + lo32 (products 1 3);
          second32 = second32 + (lo32 (products 1 2) + hi32 (products 1 3));
          first32 = first32 + (lo32 (products 1 1) + hi32 (products 1 2));
          second32 = second32 + lo32 (products 2 3);
          first32 = first32 + (lo32 (products 2 2) + hi32 (products 2 3));
          first32 = first32 + lo32 (products 3 3);
          third32 = third32 + hi32 fourth32;
          second32 = second32 + hi32 third32;
          first32 = first32 + hi32 second32;
          fourth32 = lo32 fourth32;
          third32 = lo32 third32;
          second32 = lo32 second32;
          first32 = lo32 first32
      in U128 (push_bit 32 first32 OR second32) (push_bit 32 third32 OR fourth32))"

subsection \<open>Bit count, division and text\<close>

function bits_loop64 :: "u64 \<Rightarrow> nat \<Rightarrow> nat" where
  "bits_loop64 x result = (if x \<noteq> 0 then bits_loop64 (drop_bit 1 x) (Suc result) else result)"
  by pat_completeness auto
termination
proof (relation "measure (\<lambda>(x, _). unat x)")
  fix x :: u64 and result :: nat
  assume "x \<noteq> 0"
  then have "0 < unat x" by (simp add: unat_gt_0)
  then have "unat (drop_bit 1 x) < unat x"
    by (simp add: drop_bit_eq_div unat_div_distrib)
  then show "((drop_bit 1 x, Suc result), x, result) \<in> measure (\<lambda>(x, _). unat x)" by simp
qed simp

declare bits_loop64.simps [simp del]

definition UInt128_bits :: "uint128 \<Rightarrow> nat" where
  "UInt128_bits x =
     (if u128_upper x \<noteq> 0 then bits_loop64 (u128_upper x) 64 else bits_loop64 (u128_lower x) 0)"

fun divmod_loop128 :: "uint128 \<Rightarrow> uint128 \<Rightarrow> nat \<Rightarrow> uint128 \<times> uint128 \<Rightarrow> uint128 \<times> uint128" where
  "divmod_loop128 x y 0 result = result"
| "divmod_loop128 x y (Suc i) (q, r) =
     (let q = UInt128_shl q (lit128 1);
          r = UInt128_shl r (lit128 1);
          r = (if UInt128_bool (UInt128_and (UInt128_shr x (lit128 i)) (lit128 1)) then UInt128_inc r else r)
      in if UInt128_greater_eq r y
         then divmod_loop128 x y i (UInt128_inc q, UInt128_sub r y)
         else divmod_loop128 x y i (q, r))"

definition UInt128_divmod :: "uint128 \<Rightarrow> uint128 \<Rightarrow> (uint128 \<times> uint128) result" where
  "UInt128_divmod x y =
     (if UInt128_eq y (lit128 0) then Inl DomainError
      else if UInt128_eq y (lit128 1) then Inr (x, lit128 0)
      else if UInt128_eq x y then Inr (lit128 1, lit128 0)
      else if UInt128_eq x (lit128 0) \<or> UInt128_less x y then Inr (lit128 0, x)
      else Inr (divmod_loop128 x y (UInt128_bits x) (lit128 0, lit128 0)))"

definition UInt128_div :: "uint128 \<Rightarrow> uint128 \<Rightarrow> uint128 result" where
  "UInt128_div value1 value2 = bind_result (UInt128_divmod value1 value2) (\<lambda>(q, r). Inr q)"

definition UInt128_mod :: "uint128 \<Rightarrow> uint128 \<Rightarrow> uint128 result" where
  "UInt128_mod value1 value2 = bind_result (UInt128_divmod value1 value2) (\<lambda>(q, r). Inr r)"

partial_function (option) string_loop128 :: "nat \<Rightarrow> uint128 \<Rightarrow> string \<Rightarrow> string result option" where
  "string_loop128 base x out =
     (case UInt128_divmod x (lit128 base) of
        Inl e \<Rightarrow> Some (Inl e)
      | Inr (q, r) \<Rightarrow>
          (let out = hex_digits ! unat (ucast (u128_lower r) :: u8) # out
           in if \<not> UInt128_eq q (lit128 0) then string_loop128 base q out else Some (Inr out)))"

definition UInt128_string :: "uint128 \<Rightarrow> nat \<Rightarrow> nat \<Rightarrow> string result option" where
  "UInt128_string x base len =
     (if base < 2 \<or> base > 16 then Some (Inl InvalidArgument)
      else if \<not> UInt128_bool x then Some (Inr (pad_left len ''0''))
      else map_option (\<lambda>r. bind_result r (\<lambda>out. Inr (pad_left len out))) (string_loop128 base x []))"

subsection \<open>The half type meets the contract\<close>

lemma unat_drop_bit: "unat (drop_bit n x) = unat (x :: 'a::len word) div 2 ^ n"
  by (subst unsigned_drop_bit_eq) (simp add: drop_bit_eq_div take_bit_eq_mod mod_less [OF unsigned_less])

lemma unat_push_bit: "unat (push_bit n x) = unat (x :: 'a::len word) * 2 ^ n mod 2 ^ LENGTH('a)"
  by (subst unsigned_push_bit_eq) (simp add: push_bit_eq_mult take_bit_eq_mod)

interpretation u64: unsigned_int 64 unat "word_of_nat :: nat \<Rightarrow> u64" "(+)" "(-)" "(<)" shl64 shr64
proof
  fix a b s :: u64 and n :: nat
  show "unat a < 2 ^ 64" by (rule order_less_le_trans [OF unsigned_less]) simp
  show "unat (a + b) = (unat a + unat b) mod 2 ^ 64" by (simp add: unat_word_ariths)
  show "unat (a - b) = (if unat b \<le> unat a then unat a - unat b else 2 ^ 64 + unat a - unat b)"
    by (auto simp: unat_sub_if')
  show "n \<le> 512 \<Longrightarrow> unat (word_of_nat n :: u64) = n" by (simp add: unat_of_nat take_bit_nat_eq_self_iff)
  show "unat (shl64 a s) = unat a * 2 ^ unat s mod 2 ^ 64" by (simp add: shl64_def unat_push_bit)
  show "unat (shr64 a s) = unat a div 2 ^ unat s" by (simp add: shr64_def unat_drop_bit)
qed (auto simp: word_less_nat_alt word_unat_eq_iff)

lemma double64: "(64 :: nat) + 64 = 128"
  by simp

lemma lit64: "(word_of_nat 0 :: u64) = 0" "(word_of_nat 1 :: u64) = 1" "(word_of_nat 64 :: u64) = 64"
  by simp_all

lemmas u64_wide =
  u64.wval_add [unfolded lit64 double64]
  u64.wval_sub [unfolded lit64 double64]
  u64.wval_shl_small [unfolded lit64 double64]
  u64.wval_shl_large [unfolded lit64 double64]
  u64.wval_shr_small [unfolded lit64 double64]
  u64.wval_shr_large [unfolded lit64 double64]

lemma val128_wval: "val128 (U128 u l) = u64.wval u l"
  by (simp add: val128_def u64.wval_def)

lemma val128_inj: "val128 a = val128 b \<longleftrightarrow> a = b"
  by (cases a; cases b) (simp add: val128_wval u64.wval_inj)

lemma val128_bound: "val128 a < 2 ^ 128"
  using u64.wval_bound [of "u128_upper a" "u128_lower a"] by (simp add: val128_def u64.wval_def)

lemma val128_of: "val128 (UInt128_of v) = unat v"
  by (simp add: val128_def UInt128_of_def)

lemma val128_lit: "n \<le> 512 \<Longrightarrow> val128 (lit128 n) = n"
  by (simp add: val128_of u64.val_lit)

lemma val128_lit_simps [simp]: "val128 (UInt128_of 0) = 0" "val128 (UInt128_of 1) = 1"
  by (simp_all add: val128_of)

lemma val128_add: "val128 (UInt128_add a b) = (val128 a + val128 b) mod 2 ^ 128"
  by (cases a; cases b) (simp only: UInt128_add_def val128_wval uint128.sel u64_wide)

lemma val128_sub:
  "val128 (UInt128_sub a b) = (if val128 b \<le> val128 a then val128 a - val128 b else 2 ^ 128 + val128 a - val128 b)"
  by (cases a; cases b) (simp only: UInt128_sub_def val128_wval uint128.sel u64_wide)

lemma val128_less: "UInt128_less a b \<longleftrightarrow> val128 a < val128 b"
  by (cases a; cases b) (simp only: UInt128_less_def val128_wval uint128.sel u64.wval_lt)

lemma val128_greater: "UInt128_greater a b \<longleftrightarrow> val128 b < val128 a"
  using val128_less [of b a] by (auto simp: UInt128_less_def UInt128_greater_def split: if_splits)

lemma UInt128_eq_iff: "UInt128_eq a b \<longleftrightarrow> a = b"
  by (cases a; cases b) (simp add: UInt128_eq_def)

text \<open>A shift amount is out of range, zero, or below or above the width of a half.\<close>

lemma shift_cases [case_names big zero small large]:
  fixes v s :: u64
  assumes "v \<noteq> 0 \<or> s \<ge> 128 \<Longrightarrow> P" "v = 0 \<Longrightarrow> s = 0 \<Longrightarrow> P"
    "v = 0 \<Longrightarrow> 0 < unat s \<Longrightarrow> unat s < 64 \<Longrightarrow> P" "v = 0 \<Longrightarrow> 64 \<le> unat s \<Longrightarrow> unat s < 128 \<Longrightarrow> P"
  shows P
  using assms by (cases "v = 0"; cases "s = 0"; cases "s < 64"; cases "s < 128")
    (auto simp: not_less word_less_nat_alt word_le_nat_alt unat_gt_0)

lemma shift_big: "v \<noteq> 0 \<or> s \<ge> 128 \<Longrightarrow> 128 \<le> val128 (U128 v s)"
proof -
  assume "v \<noteq> 0 \<or> s \<ge> 128"
  then have "1 \<le> unat v \<or> 128 \<le> unat s" by (auto simp: word_le_nat_alt unat_gt_0 Suc_le_eq)
  then show ?thesis by (auto simp: val128_def)
qed

lemma val128_shl: "val128 (UInt128_shl a b) = val128 a * 2 ^ val128 b mod 2 ^ 128"
proof -
  obtain u l where a: "a = U128 u l" by (cases a)
  obtain v s where b: "b = U128 v s" by (cases b)
  show ?thesis
  proof (cases v s rule: shift_cases)
    case big
    have "2 ^ 128 dvd val128 a * 2 ^ val128 b"
      using shift_big [OF big] unfolding b by (intro dvd_mult le_imp_power_dvd)
    moreover have "UInt128_shl a b = lit128 0" using big by (simp add: UInt128_shl_def b)
    ultimately show ?thesis by (simp add: val128_lit)
  next
    case zero
    then show ?thesis using val128_bound [of a] by (simp add: b UInt128_shl_def val128_def)
  next
    case small
    then have s: "s \<noteq> 64" "s \<noteq> 0" "s < 64" "\<not> s \<ge> 128" by (auto simp: word_less_nat_alt word_le_nat_alt)
    have "UInt128_shl a b = U128 (shl64 u s + shr64 l (64 - s)) (shl64 l s)"
      using small s by (simp add: UInt128_shl_def a b)
    moreover have "val128 b = unat s" using small by (simp add: b val128_def)
    ultimately show ?thesis by (simp only: a val128_wval u64_wide(3) small)
  next
    case large
    then have s: "s \<noteq> 0" "\<not> s < 64" "s < 128" "s \<noteq> 64 \<longrightarrow> s > 64"
      by (auto simp: word_less_nat_alt word_le_nat_alt le_less unat_arith_simps)
    have "UInt128_shl a b = U128 (shl64 l (s - 64)) 0"
      using large s by (auto simp: UInt128_shl_def a b Let_def not_le shl64_def)
    moreover have "val128 b = unat s" using large by (simp add: b val128_def)
    ultimately show ?thesis by (simp only: a val128_wval u64_wide(4) large)
  qed
qed

lemma val128_shr: "val128 (UInt128_shr a b) = val128 a div 2 ^ val128 b"
proof -
  obtain u l where a: "a = U128 u l" by (cases a)
  obtain v s where b: "b = U128 v s" by (cases b)
  show ?thesis
  proof (cases v s rule: shift_cases)
    case big
    have "val128 a < 2 ^ 128" by (rule val128_bound)
    also have "\<dots> \<le> 2 ^ val128 b" using shift_big [OF big] by (simp add: b power_increasing del: power_numeral)
    finally have "val128 a div 2 ^ val128 b = 0" by simp
    moreover have "UInt128_shr a b = lit128 0" using big by (simp add: UInt128_shr_def b)
    ultimately show ?thesis by (simp add: val128_lit)
  next
    case zero
    then show ?thesis by (simp add: b UInt128_shr_def val128_def)
  next
    case small
    then have s: "s \<noteq> 64" "s \<noteq> 0" "s < 64" "\<not> s \<ge> 128" by (auto simp: word_less_nat_alt word_le_nat_alt)
    have "UInt128_shr a b = U128 (shr64 u s) (shl64 u (64 - s) + shr64 l s)"
      using small s by (simp add: UInt128_shr_def a b)
    moreover have "val128 b = unat s" using small by (simp add: b val128_def)
    ultimately show ?thesis by (simp only: a val128_wval u64_wide(5) small)
  next
    case large
    then have s: "s \<noteq> 0" "\<not> s < 64" "s < 128" "s \<noteq> 64 \<longrightarrow> s > 64"
      by (auto simp: word_less_nat_alt word_le_nat_alt le_less unat_arith_simps)
    have "UInt128_shr a b = U128 0 (shr64 u (s - 64))"
      using large s by (auto simp: UInt128_shr_def a b Let_def not_le shr64_def)
    moreover have "val128 b = unat s" using large by (simp add: b val128_def)
    ultimately show ?thesis by (simp only: a val128_wval u64_wide(6) large)
  qed
qed

interpretation u128: unsigned_int 128 val128 lit128 UInt128_add UInt128_sub UInt128_less UInt128_shl UInt128_shr
  by unfold_locales
    (simp, simp, rule val128_bound, rule val128_inj, erule val128_lit, rule val128_add, rule val128_sub,
      rule val128_less, rule val128_shl, rule val128_shr)

subsection \<open>Products\<close>

lemma unat_hi32: "unat (hi32 x) = unat x div 2 ^ 32"
  by (simp add: hi32_def unat_drop_bit)

lemma unat_lo32: "unat (lo32 x) = unat x mod 2 ^ 32"
  using unat_and_mask_pow2 [of 32 x] by (simp add: lo32_def)

lemma unat_hi32_bound: "unat (hi32 x) < 2 ^ 32"
proof -
  have "unat x < 2 ^ 64" by (rule u64.val_bound)
  also have "\<dots> = 2 ^ 32 * 2 ^ 32" by simp
  finally show ?thesis unfolding unat_hi32 by (rule less_mult_imp_div_less)
qed

lemma unat_lo32_bound: "unat (lo32 x) < 2 ^ 32"
  by (simp add: unat_lo32)

lemma unat_mul32:
  assumes "unat x < 2 ^ 32" "unat y < 2 ^ 32"
  shows "unat (x * y :: u64) = unat x * unat y"
proof -
  have "unat x * unat y < 2 ^ 32 * 2 ^ 32" using assms by (intro mult_strict_mono) simp_all
  then show ?thesis by (simp add: unat_word_ariths)
qed

lemma unat_join32: "unat (push_bit 32 (lo32 f) OR lo32 s) = unat f mod 2 ^ 32 * 2 ^ 32 + unat s mod 2 ^ 32"
proof -
  have lo: "lo32 x = take_bit 32 x" for x
    by (simp add: lo32_def take_bit_eq_mask mask_eq_exp_minus_1)
  have "push_bit 32 (lo32 f) + lo32 s = push_bit 32 (lo32 f) OR lo32 s"
    by (rule disjunctive_add) (auto simp: lo bit_simps)
  moreover have "unat (push_bit 32 (lo32 f)) = unat f mod 2 ^ 32 * 2 ^ 32"
  proof -
    have "unat f mod 2 ^ 32 * 2 ^ 32 < 2 ^ 32 * (2 ^ 32 :: nat)" by (intro mult_strict_right_mono) simp_all
    then show ?thesis by (simp add: unat_push_bit unat_lo32)
  qed
  moreover have "unat f mod 2 ^ 32 * 2 ^ 32 + unat s mod 2 ^ 32 < 2 ^ 32 * (2 ^ 32 :: nat)"
  proof -
    have "unat f mod 2 ^ 32 * 2 ^ 32 + unat s mod 2 ^ 32 < (unat f mod 2 ^ 32 + 1) * 2 ^ 32" by simp
    also have "\<dots> \<le> 2 ^ 32 * 2 ^ 32" by (intro mult_right_mono) (simp_all add: Suc_leI)
    finally show ?thesis .
  qed
  ultimately show ?thesis by (metis (no_types, lifting) mod_less power_add double64 unat_lo32 u64.val_add numeral_Bit0)
qed

text \<open>Four digits with their carries.\<close>

lemma carry_digits:
  fixes B p q r s :: nat
  defines "q' \<equiv> q + p div B" defines "r' \<equiv> r + q' div B" defines "s' \<equiv> s + r' div B"
  assumes B: "0 < B"
  shows "(s' mod B * B + r' mod B) * B ^ 2 + (q' mod B * B + p mod B) = (p + q * B + r * B ^ 2 + s * B ^ 3) mod B ^ 4"
proof -
  have m2: "(x + y * B) mod (B * M) = x mod B + B * ((y + x div B) mod M)" for x y M :: nat
    using mod_mult2_eq [of "x + y * B" B M] B by (simp add: add.commute)
  have "(p + (q + (r + s * B) * B) * B) mod (B * (B * (B * B)))
     = p mod B + B * (q' mod B + B * (r' mod B + B * (s' mod B)))"
  proof -
    have "q + (r + s * B) * B + p div B = q' + (r + s * B) * B" "r + s * B + q' div B = r' + s * B"
      by (simp_all add: q'_def r'_def)
    then show ?thesis by (simp only: m2 s'_def)
  qed
  moreover have "p + q * B + r * B ^ 2 + s * B ^ 3 = p + (q + (r + s * B) * B) * B"
    by (simp add: power2_eq_square power3_eq_cube algebra_simps)
  moreover have "B ^ 4 = B * (B * (B * B))" by (simp add: power4_eq_xxxx mult.assoc)
  ultimately have "(p + q * B + r * B ^ 2 + s * B ^ 3) mod B ^ 4
     = p mod B + B * (q' mod B + B * (r' mod B + B * (s' mod B)))" by (simp only:)
  then show ?thesis by (simp add: power2_eq_square algebra_simps)
qed

text \<open>The low four digits of a product of two numbers of four digits.\<close>

lemma product_digits:
  fixes B :: nat and a b l h :: "nat \<Rightarrow> nat"
  assumes B: "0 < B"
  defines "L i j \<equiv> a i * b j mod B" and "H i j \<equiv> a i * b j div B"
  shows "(a 0 + a 1 * B + a 2 * B ^ 2 + a 3 * B ^ 3) * (b 0 + b 1 * B + b 2 * B ^ 2 + b 3 * B ^ 3) mod B ^ 4
    = (L 0 0 + (L 0 1 + H 0 0 + L 1 0) * B + (L 0 2 + H 0 1 + (L 1 1 + H 1 0) + L 2 0) * B ^ 2 +
       (L 0 3 + H 0 2 + (L 1 2 + H 1 1) + (L 2 1 + H 2 0) + L 3 0) * B ^ 3) mod B ^ 4"
    (is "?lhs mod _ = ?rhs mod _")
proof -
  define X where "X = H 0 3 + H 1 2 + H 2 1 + H 3 0 + (a 1 * b 3 + a 2 * b 2 + a 3 * b 1) + (a 2 * b 3 + a 3 * b 2) * B + a 3 * b 3 * B ^ 2"
  have p: "a i * b j = L i j + H i j * B" for i j by (simp add: L_def H_def)
  have "?lhs = a 0 * b 0 + (a 0 * b 1 + a 1 * b 0) * B + (a 0 * b 2 + a 1 * b 1 + a 2 * b 0) * B ^ 2
     + (a 0 * b 3 + a 1 * b 2 + a 2 * b 1 + a 3 * b 0) * B ^ 3
     + ((a 1 * b 3 + a 2 * b 2 + a 3 * b 1) + (a 2 * b 3 + a 3 * b 2) * B + a 3 * b 3 * B ^ 2) * B ^ 4"
    by (simp add: algebra_simps power2_eq_square power3_eq_cube power4_eq_xxxx)
  also have "\<dots> = ?rhs + X * B ^ 4"
    unfolding X_def p [of 0 0] p [of 0 1] p [of 1 0] p [of 0 2] p [of 1 1] p [of 2 0] p [of 0 3] p [of 1 2] p [of 2 1] p [of 3 0]
    by (simp add: algebra_simps power2_eq_square power3_eq_cube power4_eq_xxxx)
  finally show ?thesis by simp
qed

lemma nth4:
  "[p, q, r, s] ! 0 = p" "[p, q, r, s] ! 1 = q" "[p, q, r, s] ! 2 = r" "[p, q, r, s] ! 3 = s"
  "[p, q, r, s] ! (3 - 0) = s" "[p, q, r, s] ! (3 - 1) = r" "[p, q, r, s] ! (3 - 2) = q" "[p, q, r, s] ! (3 - 3) = p"
  by simp_all

lemma unat_digits: "unat x = unat (lo32 x) + unat (hi32 x) * 2 ^ 32"
  unfolding unat_lo32 unat_hi32 by (rule mod_div_mult_eq [symmetric])

text \<open>The four 32-bit digits of a value, and the halves of their products.\<close>

definition digit32 :: "uint128 \<Rightarrow> nat \<Rightarrow> u64" where
  "digit32 x i = [lo32 (u128_lower x), hi32 (u128_lower x), lo32 (u128_upper x), hi32 (u128_upper x)] ! i"

lemma digit32_bound: "i < 4 \<Longrightarrow> unat (digit32 x i) < 2 ^ 32"
proof -
  assume "i < 4"
  then have "i = 0 \<or> i = 1 \<or> i = 2 \<or> i = 3" by linarith
  then show ?thesis by (elim disjE; simp only: digit32_def nth4 unat_lo32_bound unat_hi32_bound)
qed

lemma val128_digits:
  "val128 x = unat (digit32 x 0) + unat (digit32 x 1) * 2 ^ 32 + unat (digit32 x 2) * (2 ^ 32) ^ 2
     + unat (digit32 x 3) * (2 ^ 32) ^ 3"
  unfolding val128_def unat_digits [of "u128_upper x"] unat_digits [of "u128_lower x"] digit32_def nth4 by simp

lemma digit32_product:
  assumes "i < 4" "j < 4"
  shows "unat (lo32 (digit32 x i * digit32 y j)) = unat (digit32 x i) * unat (digit32 y j) mod 2 ^ 32"
    and "unat (hi32 (digit32 x i * digit32 y j)) = unat (digit32 x i) * unat (digit32 y j) div 2 ^ 32"
  using unat_mul32 [OF digit32_bound [OF assms(1)] digit32_bound [OF assms(2)], of x y]
  by (simp_all add: unat_lo32 unat_hi32)

lemma val128_mul: "val128 (UInt128_mul x y) = val128 x * val128 y mod 2 ^ 128"
proof -
  define a where "a = digit32 x"
  define b where "b = digit32 y"
  define L where "L i j = unat (a i) * unat (b j) mod 2 ^ 32" for i j
  define H where "H i j = unat (a i) * unat (b j) div 2 ^ 32" for i j
  define fourth where "fourth = lo32 (a 0 * b 0)"
  define third where "third = lo32 (a 0 * b 1) + hi32 (a 0 * b 0) + lo32 (a 1 * b 0) + hi32 fourth"
  define second where "second = lo32 (a 0 * b 2) + hi32 (a 0 * b 1) + (lo32 (a 1 * b 1) + hi32 (a 1 * b 0)) + lo32 (a 2 * b 0) + hi32 third"
  define first where "first = lo32 (a 0 * b 3) + hi32 (a 0 * b 2) + (lo32 (a 1 * b 2) + hi32 (a 1 * b 1)) +
     (lo32 (a 2 * b 1) + hi32 (a 2 * b 0)) + lo32 (a 3 * b 0) + hi32 second"
  have mul: "UInt128_mul x y = U128 (push_bit 32 (lo32 first) OR lo32 second) (push_bit 32 (lo32 third) OR lo32 fourth)"
    unfolding UInt128_mul_def Let_def first_def second_def third_def fourth_def a_def b_def digit32_def
    by (simp only: nth4)
  have p: "unat (lo32 (a i * b j)) = L i j" "unat (hi32 (a i * b j)) = H i j" if "i < 4" "j < 4" for i j
    using that by (simp_all only: a_def b_def L_def H_def digit32_product)
  note parts = p [of 0 0] p [of 0 1] p [of 1 0] p [of 0 2] p [of 1 1] p [of 2 0] p [of 0 3] p [of 1 2] p [of 2 1] p [of 3 0]
  have "L i j < 2 ^ 32" "H i j < 2 ^ 32" if "i < 4" "j < 4" for i j
    using unat_lo32_bound [of "a i * b j"] unat_hi32_bound [of "a i * b j"] p [OF that] by simp_all
  note small = this [of 0 0] this [of 0 1] this [of 1 0] this [of 0 2] this [of 1 1] this [of 2 0]
    this [of 0 3] this [of 1 2] this [of 2 1] this [of 3 0]
  let ?p = "L 0 0" and ?q = "L 0 1 + H 0 0 + L 1 0" and ?r = "L 0 2 + H 0 1 + (L 1 1 + H 1 0) + L 2 0"
    and ?s = "L 0 3 + H 0 2 + (L 1 2 + H 1 1) + (L 2 1 + H 2 0) + L 3 0"
  have f4: "unat fourth = ?p" by (simp add: fourth_def parts)
  have "unat third = (?q + ?p div 2 ^ 32) mod 2 ^ 64"
    by (simp only: third_def u64.val_add unat_hi32 [of fourth] f4 mod_add_left_eq mod_add_right_eq) (simp add: parts del: One_nat_def)
  then have f3: "unat third = ?q + ?p div 2 ^ 32" using small by simp
  have "unat second = (?r + unat third div 2 ^ 32) mod 2 ^ 64"
    by (simp only: second_def u64.val_add unat_hi32 [of third] mod_add_left_eq mod_add_right_eq) (simp add: parts del: One_nat_def)
  then have f2: "unat second = ?r + unat third div 2 ^ 32" using small f3 by simp
  have "unat first = (?s + unat second div 2 ^ 32) mod 2 ^ 64"
    by (simp only: first_def u64.val_add unat_hi32 [of second] mod_add_left_eq mod_add_right_eq) (simp add: parts del: One_nat_def)
  then have f1: "unat first = ?s + unat second div 2 ^ 32" using small f2 f3 by simp
  have "val128 (UInt128_mul x y) = (unat first mod 2 ^ 32 * 2 ^ 32 + unat second mod 2 ^ 32) * (2 ^ 32) ^ 2
      + (unat third mod 2 ^ 32 * 2 ^ 32 + unat fourth mod 2 ^ 32)"
    by (simp only: mul val128_def uint128.sel unat_join32) simp
  also have "\<dots> = (?p + ?q * 2 ^ 32 + ?r * (2 ^ 32) ^ 2 + ?s * (2 ^ 32) ^ 3) mod (2 ^ 32) ^ 4"
    unfolding f1 f2 f3 f4 by (rule carry_digits) simp
  also have "\<dots> = val128 x * val128 y mod (2 ^ 32) ^ 4"
    unfolding val128_digits L_def H_def a_def b_def by (rule product_digits [symmetric]) simp
  finally show ?thesis by simp
qed

subsection \<open>Bits and division\<close>

lemma bits_loop64_bitlen: "bits_loop64 x r = r + bitlen (unat x)"
proof (induction x r rule: bits_loop64.induct)
  case (1 x r)
  show ?case
  proof (cases "x = 0")
    case False
    then have "0 < unat x" by (simp add: unat_gt_0)
    moreover have "unat (drop_bit 1 x) = unat x div 2" using unat_drop_bit [of 1 x] by simp
    ultimately show ?thesis using 1 [OF False] False by (subst bits_loop64.simps) (simp add: bitlen_pos)
  qed (simp add: bits_loop64.simps)
qed

lemma UInt128_bits_bitlen: "UInt128_bits x = bitlen (val128 x)"
proof (cases "u128_upper x = 0")
  case False
  then have "0 < unat (u128_upper x)" by (simp add: unat_gt_0)
  then have "bitlen (val128 x) = 64 + bitlen (unat (u128_upper x))"
    unfolding val128_def by (rule bitlen_upper) (rule u64.val_bound)
  with False show ?thesis by (simp add: UInt128_bits_def bits_loop64_bitlen)
qed (simp add: UInt128_bits_def bits_loop64_bitlen val128_def)

lemma UInt128_bool_iff: "UInt128_bool x \<longleftrightarrow> val128 x \<noteq> 0"
  by (cases x) (auto simp: UInt128_bool_def val128_def or_eq_0_iff unat_eq_zero)

lemma val128_and_1: "val128 (UInt128_and a (UInt128_of 1)) = val128 a mod 2"
proof -
  have "unat (u128_lower a AND 1) = unat (u128_lower a) mod 2" using unat_and_mask_pow2 [of 1 "u128_lower a"] by simp
  moreover have "val128 a mod 2 = unat (u128_lower a) mod 2" by (simp add: val128_def mod_add_eq [symmetric])
  ultimately show ?thesis by (simp add: UInt128_and_def UInt128_of_def val128_def)
qed

lemma val128_greater_eq: "UInt128_greater_eq a b \<longleftrightarrow> val128 b \<le> val128 a"
  by (auto simp: UInt128_greater_eq_def val128_greater UInt128_eq_iff val128_inj [symmetric])

text \<open>One step of a restoring division, on numbers.\<close>

lemma divmod_near:
  fixes Y r k :: nat
  assumes "0 < Y" "r < 2 * Y"
  shows "(Y * k + r) div Y = k + (if Y \<le> r then 1 else 0)" "(Y * k + r) mod Y = (if Y \<le> r then r - Y else r)"
  using assms by (simp_all add: le_div_geq le_mod_geq)

lemma divmod_double:
  fixes X Y b :: nat
  assumes "0 < Y" "b < 2"
  defines "r \<equiv> 2 * (X mod Y) + b"
  shows "(2 * X + b) div Y = 2 * (X div Y) + (if Y \<le> r then 1 else 0)"
    and "(2 * X + b) mod Y = (if Y \<le> r then r - Y else r)"
proof -
  have "2 * X + b = Y * (2 * (X div Y)) + r" 
  proof -
    have "X = Y * (X div Y) + X mod Y" by simp
    then have "2 * X = Y * (2 * (X div Y)) + 2 * (X mod Y)" by (metis distrib_left mult.left_commute)
    then show ?thesis by (simp add: r_def)
  qed
  moreover have "r < 2 * Y" using assms(1,2) mod_less_divisor [of Y X] unfolding r_def by linarith
  ultimately show "(2 * X + b) div Y = 2 * (X div Y) + (if Y \<le> r then 1 else 0)"
    and "(2 * X + b) mod Y = (if Y \<le> r then r - Y else r)"
    using assms(1) divmod_near [of Y r "2 * (X div Y)"] by simp_all
qed

lemma val128_double: "2 * val128 a < 2 ^ 128 \<Longrightarrow> val128 (UInt128_shl a (lit128 1)) = 2 * val128 a"
  by (simp add: val128_shl mult.commute)

lemma val128_inc: "val128 a + 1 < 2 ^ 128 \<Longrightarrow> val128 (UInt128_inc a) = val128 a + 1"
  by (simp add: UInt128_inc_def val128_add)

lemma divmod_loop128_val:
  assumes y: "0 < val128 y"
  shows "i \<le> 128 \<Longrightarrow> val128 q = val128 x div 2 ^ i div val128 y \<Longrightarrow> val128 r = val128 x div 2 ^ i mod val128 y \<Longrightarrow>
    divmod_loop128 x y i (q, r) = (q', r') \<Longrightarrow> val128 q' = val128 x div val128 y \<and> val128 r' = val128 x mod val128 y"
proof (induction i arbitrary: q r)
  case (Suc i)
  let ?X = "val128 x" and ?Y = "val128 y"
  let ?Z = "?X div 2 ^ Suc i"
  define b where "b = ?X div 2 ^ i mod 2"
  have Z: "?X div 2 ^ i = 2 * ?Z + b"
  proof -
    have "?Z = ?X div 2 ^ i div 2" by (simp only: power_Suc2 div_mult2_eq)
    then show ?thesis by (simp add: b_def)
  qed
  have bound: "2 * ?Z + b < 2 ^ 128"
    using val128_bound [of x] div_le_dividend [of ?X "2 ^ i"] by (simp only: Z [symmetric] le_less_trans)
  define q1 where "q1 = UInt128_shl q (lit128 1)"
  define r1 where "r1 = UInt128_shl r (lit128 1)"
  define r2 where "r2 = (if UInt128_bool (UInt128_and (UInt128_shr x (lit128 i)) (lit128 1)) then UInt128_inc r1 else r1)"
  have le: "2 * (?Z div ?Y) \<le> 2 * ?Z + b" "2 * (?Z mod ?Y) \<le> 2 * ?Z + b"
    by (meson div_le_dividend mod_less_eq_dividend mult_le_mono2 trans_le_add1)+
  have q1: "val128 q1 = 2 * (?Z div ?Y)" and r1: "val128 r1 = 2 * (?Z mod ?Y)"
    using val128_double [of q] val128_double [of r] le_less_trans [OF le(1) bound] le_less_trans [OF le(2) bound]
    by (simp_all only: Suc.prems q1_def r1_def)
  have odd: "UInt128_bool (UInt128_and (UInt128_shr x (lit128 i)) (lit128 1)) \<longleftrightarrow> b = 1"
    using Suc.prems(1) by (simp add: UInt128_bool_iff val128_and_1 val128_shr val128_lit b_def)
  have b2: "b < 2" by (simp add: b_def)
  have r2: "val128 r2 = 2 * (?Z mod ?Y) + b"
  proof -
    have "2 * (?Z mod ?Y) + b \<le> 2 * ?Z + b" by simp
    then have "2 * (?Z mod ?Y) + b < 2 ^ 128" using bound by (rule le_less_trans)
    then show ?thesis using b2 val128_inc [of r1] unfolding r2_def odd by (auto simp: r1)
  qed
  note step = divmod_double [OF y b2, of ?Z]
  have loop: "divmod_loop128 x y (Suc i) (q, r) =
      (if UInt128_greater_eq r2 y then divmod_loop128 x y i (UInt128_inc q1, UInt128_sub r2 y) else divmod_loop128 x y i (q1, r2))"
    by (simp add: q1_def r1_def r2_def Let_def)
  show ?case
  proof (cases "?Y \<le> 2 * (?Z mod ?Y) + b")
    case True
    have "2 * (?Z div ?Y) + 1 \<le> 2 * ?Z + b"
      using step(1) True div_le_dividend [of "2 * ?Z + b" ?Y] by simp
    then have "val128 (UInt128_inc q1) = 2 * (?Z div ?Y) + 1"
      using bound val128_inc [of q1] by (simp add: q1)
    moreover have "val128 (UInt128_sub r2 y) = 2 * (?Z mod ?Y) + b - ?Y"
      using True by (simp add: val128_sub r2)
    ultimately show ?thesis
      using Suc.IH [of "UInt128_inc q1" "UInt128_sub r2 y"] Suc.prems loop True step
      by (simp add: val128_greater_eq r2 Z)
  next
    case False
    then show ?thesis
      using Suc.IH [of q1 r2] Suc.prems loop step by (simp add: val128_greater_eq r2 Z q1)
  qed
qed simp

lemma UInt128_divmod_val:
  assumes "val128 y \<noteq> 0"
  shows "\<exists>q r. UInt128_divmod x y = Inr (q, r) \<and> val128 q = val128 x div val128 y \<and> val128 r = val128 x mod val128 y"
proof -
  have eq: "UInt128_eq a b \<longleftrightarrow> val128 a = val128 b" for a b by (simp add: UInt128_eq_iff val128_inj)
  consider "val128 y = 1" | "val128 y \<noteq> 1" "val128 x = val128 y" | "val128 y \<noteq> 1" "val128 x < val128 y"
    | "val128 y \<noteq> 1" "val128 y < val128 x" by linarith
  then show ?thesis
  proof cases
    case 4
    obtain q r where qr: "divmod_loop128 x y (UInt128_bits x) (lit128 0, lit128 0) = (q, r)"
      by (cases "divmod_loop128 x y (UInt128_bits x) (lit128 0, lit128 0)")
    have "UInt128_bits x \<le> 128" unfolding UInt128_bits_bitlen by (rule bitlen_le [OF val128_bound])
    moreover have "val128 x div 2 ^ UInt128_bits x = 0"
      unfolding UInt128_bits_bitlen using less_pow_bitlen [of "val128 x"] by simp
    ultimately have "val128 q = val128 x div val128 y \<and> val128 r = val128 x mod val128 y"
      using divmod_loop128_val [of y "UInt128_bits x" "lit128 0" x "lit128 0" q r] qr assms by simp
    then show ?thesis using 4 assms qr by (simp add: UInt128_divmod_def eq val128_less)
  qed (use assms in \<open>simp_all add: UInt128_divmod_def eq val128_less\<close>)
qed

interpretation print128: digit_printer val128 "\<lambda>r. ucast (u128_lower r)" string_loop128
proof
  fix x r :: uint128 and base :: nat
  show "val128 r < 256 \<Longrightarrow> unat (ucast (u128_lower r) :: u8) = val128 r"
  proof -
    assume r: "val128 r < 256"
    then have "u128_upper r = 0" by (cases "unat (u128_upper r)") (auto simp: val128_def unat_eq_zero)
    with r show ?thesis by (simp add: val128_def unsigned_ucast_eq take_bit_nat_eq_self_iff)
  qed
  assume base: "2 \<le> base" "base \<le> 16"
  then have b: "val128 (lit128 base) = base" by (simp add: val128_lit)
  with base obtain q r where qr: "UInt128_divmod x (lit128 base) = Inr (q, r)" "val128 q = val128 x div base"
      "val128 r = val128 x mod base"
    using UInt128_divmod_val [of "lit128 base" x] by auto
  have "string_loop128 base x out =
      (if val128 q \<noteq> 0 then string_loop128 base q (hex_digits ! unat (ucast (u128_lower r) :: u8) # out)
       else Some (Inr (hex_digits ! unat (ucast (u128_lower r) :: u8) # out)))" for out
    using qr(1) by (subst string_loop128.simps) (simp add: Let_def UInt128_eq_iff val128_inj [symmetric])
  with qr(2,3) show "\<exists>q r. val128 q = val128 x div base \<and> val128 r = val128 x mod base \<and> (\<forall>out. string_loop128 base x out =
      (if val128 q \<noteq> 0 then string_loop128 base q (hex_digits ! unat (ucast (u128_lower r) :: u8) # out)
       else Some (Inr (hex_digits ! unat (ucast (u128_lower r) :: u8) # out))))" by blast
qed

subsection \<open>Bitwise operators and order\<close>

lemma bit_val128: "bit (val128 x) n \<longleftrightarrow> (if n < 64 then bit (u128_lower x) n else bit (u128_upper x) (n - 64))"
proof -
  have low: "bit (unat w) n \<longleftrightarrow> bit w n" for w :: u64 and n
    by (simp add: bit_unsigned_iff)
  have "val128 x = push_bit 64 (unat (u128_upper x)) OR unat (u128_lower x)"
  proof -
    have "val128 x = push_bit 64 (unat (u128_upper x)) + unat (u128_lower x)"
      by (simp add: val128_def push_bit_eq_mult)
    also have "\<dots> = push_bit 64 (unat (u128_upper x)) OR unat (u128_lower x)"
      by (rule disjunctive_add) (auto simp: bit_push_bit_iff low dest: bit_imp_le_length)
    finally show ?thesis .
  qed
  then show ?thesis by (auto simp: bit_or_iff bit_push_bit_iff low dest: bit_imp_le_length)
qed

lemma val128_bitwise:
  "val128 (UInt128_and a b) = val128 a AND val128 b"
  "val128 (UInt128_or a b) = val128 a OR val128 b"
  "val128 (UInt128_xor a b) = val128 a XOR val128 b"
  by (rule bit_eqI; simp add: UInt128_and_def UInt128_or_def UInt128_xor_def bit_val128 bit_and_iff bit_or_iff bit_xor_iff)+

lemma unat_not: "unat (NOT w :: u64) = 2 ^ 64 - 1 - unat w"
proof -
  have "NOT w = - 1 - w" by (simp add: not_eq_complement)
  moreover have m: "unat (- 1 :: u64) = 2 ^ 64 - 1" by (simp add: unsigned_minus_1_eq_mask mask_eq_exp_minus_1)
  moreover have "unat w \<le> 2 ^ 64 - 1" using u64.val_bound [of w] by simp
  ultimately show ?thesis by (simp only: u64.val_sub m if_True)
qed

lemma val128_neg: "val128 (UInt128_neg a) = (2 ^ 128 - val128 a) mod 2 ^ 128"
proof -
  have b: "unat (u128_upper a) < 2 ^ 64" "unat (u128_lower a) < 2 ^ 64" by (rule u64.val_bound)+
  then have "val128 (UInt128_not a) = 2 ^ 128 - 1 - val128 a"
    by (simp add: UInt128_not_def val128_def unat_not)
  then have "val128 (UInt128_neg a) = (2 ^ 128 - 1 - val128 a + 1) mod 2 ^ 128"
    by (simp add: UInt128_neg_def val128_add)
  moreover have "2 ^ 128 - 1 - val128 a + 1 = 2 ^ 128 - val128 a" using val128_bound [of a] by linarith
  ultimately show ?thesis by (simp only:)
qed

instantiation uint128 :: linorder
begin

definition less_uint128 :: "uint128 \<Rightarrow> uint128 \<Rightarrow> bool" where
  "less_uint128 = UInt128_less"

definition less_eq_uint128 :: "uint128 \<Rightarrow> uint128 \<Rightarrow> bool" where
  "less_eq_uint128 = UInt128_less_eq"

instance
  by standard
    (auto simp: less_uint128_def less_eq_uint128_def UInt128_less_eq_def val128_less UInt128_eq_iff val128_inj [symmetric])

end

lemma uint128_order: "(a :: uint128) < b \<longleftrightarrow> val128 a < val128 b" "(a :: uint128) \<le> b \<longleftrightarrow> val128 a \<le> val128 b"
  by (auto simp: less_uint128_def less_eq_uint128_def UInt128_less_eq_def val128_less UInt128_eq_iff val128_inj [symmetric])

subsection \<open>Properties\<close>


text \<open>
  Division of 128-bit integers returns the quotient and the remainder of the values for
  every nonzero divisor, and the only failure is the domain error of a zero divisor.
\<close>

theorem UInt128_divmod_correct:
  "(if val128 y = 0 then UInt128_divmod x y = Inl DomainError
    else \<exists>q r. UInt128_divmod x y = Inr (q, r) \<and> val128 q = val128 x div val128 y \<and> val128 r = val128 x mod val128 y)"
proof (cases "val128 y = 0")
  case True
  then have "UInt128_eq y (lit128 0)" by (simp add: UInt128_eq_iff val128_inj [symmetric])
  with True show ?thesis by (simp add: UInt128_divmod_def)
qed (use UInt128_divmod_val in simp)

text \<open>
  The text of a 128-bit integer in a base from 2 to 16 is always produced (the
  digit loop ends), has at least the requested length, and denotes the value; any other base is refused.
\<close>

theorem UInt128_string_denotes:
  "(if 2 \<le> base \<and> base \<le> 16
    then \<exists>s. UInt128_string x base len = Some (Inr s) \<and> len \<le> length s \<and> s \<noteq> [] \<and> read_digits base s = val128 x
    else UInt128_string x base len = Some (Inl InvalidArgument))"
  using print128.print_denotes [of base x len]
  by (auto simp: UInt128_string_def UInt128_bool_iff)

text \<open>
  A signed value converts to a 128-bit integer with a zero upper half: the sign is not
  extended, so the conversion of -1 differs from the negation of the conversion of 1.
\<close>

theorem UInt128_no_sign_extension:
  "val128 (UInt128_of_int v) = nat (v mod 2 ^ 64) \<and> UInt128_of_int (- 1) \<noteq> UInt128_neg (UInt128_of_int 1)"
proof
  show v: "val128 (UInt128_of_int v) = nat (v mod 2 ^ 64)" for v
  proof -
    have "unat (word_of_int v :: u64) = nat (uint (word_of_int v :: u64))" by simp
    also have "\<dots> = nat (v mod 2 ^ 64)" by (simp only: uint_word_of_int) simp
    finally show ?thesis by (simp add: UInt128_of_int_def val128_def)
  qed
  show "UInt128_of_int (- 1) \<noteq> UInt128_neg (UInt128_of_int 1)"
    by (simp add: val128_inj [symmetric] val128_neg v)
qed

end
