(* ===== verification/UInt256.thy ===== *)
theory UInt256
  imports UInt128
begin

text \<open>
  The 256-bit unsigned integer of \<^verbatim>\<open>include/common/uint256.h\<close>,
  \<^verbatim>\<open>include/common/uint256.inl\<close> and \<^verbatim>\<open>source/common/uint256.cpp\<close>: two 128-bit halves,
  every half operation a call of the 128-bit class. Its division is a different algorithm from the
  128-bit one (aligned subtraction of the divisor); its loop is a partial function, so that a
  result is a proof that it ends.
\<close>

datatype uint256 = U256 (u256_upper: uint128) (u256_lower: uint128)

definition val256 :: "uint256 \<Rightarrow> nat" where
  "val256 x = val128 (u256_upper x) * 2 ^ 128 + val128 (u256_lower x)"

definition UInt256_of :: "uint128 \<Rightarrow> uint256" where
  "UInt256_of value = U256 (lit128 0) value"

abbreviation lit256 :: "nat \<Rightarrow> uint256" where
  "lit256 n \<equiv> UInt256_of (lit128 n)"

subsection \<open>Operators\<close>

definition UInt256_add :: "uint256 \<Rightarrow> uint256 \<Rightarrow> uint256" where
  "UInt256_add value1 value2 =
     U256 (UInt128_add (UInt128_add (u256_upper value1) (u256_upper value2))
             (if UInt128_less (UInt128_add (u256_lower value1) (u256_lower value2)) (u256_lower value1)
              then lit128 1 else lit128 0))
          (UInt128_add (u256_lower value1) (u256_lower value2))"

definition UInt256_sub :: "uint256 \<Rightarrow> uint256 \<Rightarrow> uint256" where
  "UInt256_sub value1 value2 =
     U256 (UInt128_sub (UInt128_sub (u256_upper value1) (u256_upper value2))
             (if UInt128_greater (UInt128_sub (u256_lower value1) (u256_lower value2)) (u256_lower value1)
              then lit128 1 else lit128 0))
          (UInt128_sub (u256_lower value1) (u256_lower value2))"

definition UInt256_not :: "uint256 \<Rightarrow> uint256" where
  "UInt256_not x = U256 (UInt128_not (u256_upper x)) (UInt128_not (u256_lower x))"

definition UInt256_neg :: "uint256 \<Rightarrow> uint256" where
  "UInt256_neg x = UInt256_add (UInt256_not x) (lit256 1)"

definition UInt256_inc :: "uint256 \<Rightarrow> uint256" where
  "UInt256_inc x = UInt256_add x (lit256 1)"

definition UInt256_dec :: "uint256 \<Rightarrow> uint256" where
  "UInt256_dec x = UInt256_sub x (lit256 1)"

definition UInt256_and :: "uint256 \<Rightarrow> uint256 \<Rightarrow> uint256" where
  "UInt256_and value1 value2 =
     U256 (UInt128_and (u256_upper value1) (u256_upper value2)) (UInt128_and (u256_lower value1) (u256_lower value2))"

definition UInt256_or :: "uint256 \<Rightarrow> uint256 \<Rightarrow> uint256" where
  "UInt256_or value1 value2 =
     U256 (UInt128_or (u256_upper value1) (u256_upper value2)) (UInt128_or (u256_lower value1) (u256_lower value2))"

definition UInt256_xor :: "uint256 \<Rightarrow> uint256 \<Rightarrow> uint256" where
  "UInt256_xor value1 value2 =
     U256 (UInt128_xor (u256_upper value1) (u256_upper value2)) (UInt128_xor (u256_lower value1) (u256_lower value2))"

definition UInt256_bool :: "uint256 \<Rightarrow> bool" where
  "UInt256_bool x \<longleftrightarrow> UInt128_bool (UInt128_or (u256_upper x) (u256_lower x))"

definition UInt256_eq :: "uint256 \<Rightarrow> uint256 \<Rightarrow> bool" where
  "UInt256_eq value1 value2 \<longleftrightarrow>
     UInt128_eq (u256_upper value1) (u256_upper value2) \<and> UInt128_eq (u256_lower value1) (u256_lower value2)"

definition UInt256_less :: "uint256 \<Rightarrow> uint256 \<Rightarrow> bool" where
  "UInt256_less value1 value2 \<longleftrightarrow>
     (if UInt128_eq (u256_upper value1) (u256_upper value2) then UInt128_less (u256_lower value1) (u256_lower value2)
      else UInt128_less (u256_upper value1) (u256_upper value2))"

definition UInt256_greater :: "uint256 \<Rightarrow> uint256 \<Rightarrow> bool" where
  "UInt256_greater value1 value2 \<longleftrightarrow>
     (if UInt128_eq (u256_upper value1) (u256_upper value2) then UInt128_greater (u256_lower value1) (u256_lower value2)
      else UInt128_greater (u256_upper value1) (u256_upper value2))"

definition UInt256_less_eq :: "uint256 \<Rightarrow> uint256 \<Rightarrow> bool" where
  "UInt256_less_eq value1 value2 \<longleftrightarrow> UInt256_less value1 value2 \<or> UInt256_eq value1 value2"

definition UInt256_greater_eq :: "uint256 \<Rightarrow> uint256 \<Rightarrow> bool" where
  "UInt256_greater_eq value1 value2 \<longleftrightarrow> UInt256_greater value1 value2 \<or> UInt256_eq value1 value2"

definition UInt256_shl :: "uint256 \<Rightarrow> uint256 \<Rightarrow> uint256" where
  "UInt256_shl value1 value2 =
     (let shift = u256_lower value2
      in if UInt128_bool (u256_upper value2) \<or> UInt128_greater_eq shift (lit128 256) then lit256 0
         else if UInt128_eq shift (lit128 128) then U256 (u256_lower value1) (lit128 0)
         else if UInt128_eq shift (lit128 0) then value1
         else if UInt128_less shift (lit128 128) then
           U256 (UInt128_add (UInt128_shl (u256_upper value1) shift)
                   (UInt128_shr (u256_lower value1) (UInt128_sub (lit128 128) shift)))
                (UInt128_shl (u256_lower value1) shift)
         else if UInt128_greater (lit128 256) shift \<and> UInt128_greater shift (lit128 128) then
           U256 (UInt128_shl (u256_lower value1) (UInt128_sub shift (lit128 128))) (lit128 0)
         else lit256 0)"

definition UInt256_shr :: "uint256 \<Rightarrow> uint256 \<Rightarrow> uint256" where
  "UInt256_shr value1 value2 =
     (let shift = u256_lower value2
      in if UInt128_bool (u256_upper value2) \<or> UInt128_greater_eq shift (lit128 256) then lit256 0
         else if UInt128_eq shift (lit128 128) then UInt256_of (u256_upper value1)
         else if UInt128_eq shift (lit128 0) then value1
         else if UInt128_less shift (lit128 128) then
           U256 (UInt128_shr (u256_upper value1) shift)
                (UInt128_add (UInt128_shl (u256_upper value1) (UInt128_sub (lit128 128) shift))
                   (UInt128_shr (u256_lower value1) shift))
         else if UInt128_greater (lit128 256) shift \<and> UInt128_greater shift (lit128 128) then
           UInt256_of (UInt128_shr (u256_upper value1) (UInt128_sub shift (lit128 128)))
         else lit256 0)"

definition UInt256_mul :: "uint256 \<Rightarrow> uint256 \<Rightarrow> uint256" where
  "UInt256_mul value1 value2 =
     (let top = map UInt128_of [u128_upper (u256_upper value1), u128_lower (u256_upper value1),
                                u128_upper (u256_lower value1), u128_lower (u256_lower value1)];
          bottom = map UInt128_of [u128_upper (u256_upper value2), u128_lower (u256_upper value2),
                                   u128_upper (u256_lower value2), u128_lower (u256_lower value2)];
          products = (\<lambda>r y. UInt128_mul (top ! (3 - r)) (bottom ! y));
          lo = (\<lambda>p. UInt128_of (u128_lower p));
          hi = (\<lambda>p. UInt128_of (u128_upper p));
          fourth64 = lo (products 0 3);
          third64 = UInt128_add (lo (products 0 2)) (hi (products 0 3));
          second64 = UInt128_add (lo (products 0 1)) (hi (products 0 2));
          first64 = UInt128_add (lo (products 0 0)) (hi (products 0 1));
          third64 = UInt128_add third64 (lo (products 1 3));
          second64 = UInt128_add second64 (UInt128_add (lo (products 1 2)) (hi (products 1 3)));
          first64 = UInt128_add first64 (UInt128_add (lo (products 1 1)) (hi (products 1 2)));
          second64 = UInt128_add second64 (lo (products 2 3));
          first64 = UInt128_add first64 (UInt128_add (lo (products 2 2)) (hi (products 2 3)));
          first64 = UInt128_add first64 (lo (products 3 3))
      in UInt256_add
           (UInt256_add
              (UInt256_add (U256 (UInt128_shl first64 (lit128 64)) (lit128 0))
                           (U256 (UInt128_of (u128_upper third64)) (UInt128_shl third64 (lit128 64))))
              (U256 second64 (lit128 0)))
           (UInt256_of fourth64))"

subsection \<open>Bit count, division and text\<close>

function bits_loop128 :: "uint128 \<Rightarrow> nat \<Rightarrow> nat" where
  "bits_loop128 x result =
     (if UInt128_bool x then bits_loop128 (UInt128_shr x (lit128 1)) (Suc result) else result)"
  by pat_completeness auto
termination
  by (relation "measure (\<lambda>(x, _). val128 x)") (simp_all add: UInt128_bool_iff val128_shr)

declare bits_loop128.simps [simp del]

definition UInt256_bits :: "uint256 \<Rightarrow> nat" where
  "UInt256_bits x =
     (if UInt128_bool (u256_upper x) then bits_loop128 (u256_upper x) 128 else bits_loop128 (u256_lower x) 0)"

partial_function (option) divmod_loop256 ::
  "uint256 \<Rightarrow> uint256 \<Rightarrow> uint256 \<Rightarrow> uint256 \<Rightarrow> uint256 \<Rightarrow> (uint256 \<times> uint256) option" where
  "divmod_loop256 y q r copyd adder =
     (if UInt256_greater_eq r y then
        (if UInt256_greater_eq r copyd
         then divmod_loop256 y (UInt256_or q adder) (UInt256_sub r copyd)
                (UInt256_shr copyd (lit256 1)) (UInt256_shr adder (lit256 1))
         else divmod_loop256 y q r (UInt256_shr copyd (lit256 1)) (UInt256_shr adder (lit256 1)))
      else Some (q, r))"

definition UInt256_divmod :: "uint256 \<Rightarrow> uint256 \<Rightarrow> (uint256 \<times> uint256) result option" where
  "UInt256_divmod x y =
     (if UInt256_eq y (lit256 0) then Some (Inl DomainError)
      else if UInt256_eq y (lit256 1) then Some (Inr (x, lit256 0))
      else if UInt256_eq x y then Some (Inr (lit256 1, lit256 0))
      else if UInt256_eq x (lit256 0) \<or> UInt256_less x y then Some (Inr (lit256 0, x))
      else
        let delta = lit256 (UInt256_bits x - UInt256_bits y);
            copyd = UInt256_shl y delta;
            adder = UInt256_shl (lit256 1) delta
        in map_option Inr
             (if UInt256_greater copyd x
              then divmod_loop256 y (lit256 0) x (UInt256_shr copyd (lit256 1)) (UInt256_shr adder (lit256 1))
              else divmod_loop256 y (lit256 0) x copyd adder))"

definition UInt256_div :: "uint256 \<Rightarrow> uint256 \<Rightarrow> uint256 result option" where
  "UInt256_div value1 value2 = map_option (\<lambda>r. bind_result r (\<lambda>(q, r). Inr q)) (UInt256_divmod value1 value2)"

definition UInt256_mod :: "uint256 \<Rightarrow> uint256 \<Rightarrow> uint256 result option" where
  "UInt256_mod value1 value2 = map_option (\<lambda>r. bind_result r (\<lambda>(q, r). Inr r)) (UInt256_divmod value1 value2)"

partial_function (option) string_loop256 :: "nat \<Rightarrow> uint256 \<Rightarrow> string \<Rightarrow> string result option" where
  "string_loop256 base x out =
     (case UInt256_divmod x (lit256 base) of
        None \<Rightarrow> None
      | Some (Inl e) \<Rightarrow> Some (Inl e)
      | Some (Inr (q, r)) \<Rightarrow>
          (let out = hex_digits ! unat (ucast (u128_lower (u256_lower r)) :: u8) # out
           in if \<not> UInt256_eq q (lit256 0) then string_loop256 base q out else Some (Inr out)))"

definition UInt256_string :: "uint256 \<Rightarrow> nat \<Rightarrow> nat \<Rightarrow> string result option" where
  "UInt256_string x base len =
     (if base < 2 \<or> base > 16 then Some (Inl InvalidArgument)
      else if \<not> UInt256_bool x then Some (Inr (pad_left len ''0''))
      else map_option (\<lambda>r. bind_result r (\<lambda>out. Inr (pad_left len out))) (string_loop256 base x []))"

subsection \<open>The operators on values\<close>

lemma val256_wval: "val256 (U256 u l) = u128.wval u l"
  by (simp add: val256_def u128.wval_def)

lemma val256_inj: "val256 a = val256 b \<longleftrightarrow> a = b"
  by (cases a; cases b) (simp add: val256_wval u128.wval_inj)

lemma double128: "(128 :: nat) + 128 = 256"
  by simp

lemma val256_bound: "val256 a < 2 ^ 256"
  using u128.wval_bound [of "u256_upper a" "u256_lower a"] by (simp only: double128 val256_def u128.wval_def)

lemma val256_of: "val256 (UInt256_of v) = val128 v"
  by (simp add: val256_def UInt256_of_def)

lemma val256_lit: "n \<le> 512 \<Longrightarrow> val256 (lit256 n) = n"
  by (simp add: val256_of val128_lit)

lemma val256_lit_simps [simp]: "val256 (UInt256_of (UInt128_of 0)) = 0" "val256 (UInt256_of (UInt128_of 1)) = 1"
  by (simp_all add: val256_of)

lemmas u128_wide =
  u128.wval_add [unfolded double128]
  u128.wval_sub [unfolded double128]
  u128.wval_shl_small [unfolded double128]
  u128.wval_shl_large [unfolded double128]
  u128.wval_shr_small [unfolded double128]
  u128.wval_shr_large [unfolded double128]

lemma UInt128_greater_less: "UInt128_greater a b \<longleftrightarrow> UInt128_less b a"
  by (simp add: val128_greater val128_less)

lemma val256_add: "val256 (UInt256_add a b) = (val256 a + val256 b) mod 2 ^ 256"
  by (cases a; cases b) (simp only: UInt256_add_def val256_wval uint256.sel u128_wide)

lemma val256_sub:
  "val256 (UInt256_sub a b) = (if val256 b \<le> val256 a then val256 a - val256 b else 2 ^ 256 + val256 a - val256 b)"
  by (cases a; cases b) (simp only: UInt256_sub_def UInt128_greater_less val256_wval uint256.sel u128_wide)

lemma val256_less: "UInt256_less a b \<longleftrightarrow> val256 a < val256 b"
  by (cases a; cases b) (simp only: UInt256_less_def UInt128_eq_iff val256_wval uint256.sel u128.wval_lt)

lemma val256_greater: "UInt256_greater a b \<longleftrightarrow> val256 b < val256 a"
proof -
  have "UInt256_greater a b \<longleftrightarrow> UInt256_less b a"
    by (simp add: UInt256_greater_def UInt256_less_def UInt128_greater_less UInt128_eq_iff eq_commute)
  then show ?thesis by (simp add: val256_less)
qed

lemma UInt256_eq_iff: "UInt256_eq a b \<longleftrightarrow> a = b"
  by (cases a; cases b) (simp add: UInt256_eq_def UInt128_eq_iff)

lemma val256_greater_eq: "UInt256_greater_eq a b \<longleftrightarrow> val256 b \<le> val256 a"
  by (auto simp: UInt256_greater_eq_def val256_greater UInt256_eq_iff val256_inj [symmetric])

lemma UInt128_or_zero: "UInt128_bool (UInt128_or a b) \<longleftrightarrow> UInt128_bool a \<or> UInt128_bool b"
  by (auto simp: UInt128_bool_iff val128_bitwise or_eq_0_iff)

lemma UInt256_bool_iff: "UInt256_bool x \<longleftrightarrow> val256 x \<noteq> 0"
  unfolding UInt256_bool_def UInt128_or_zero by (simp add: UInt128_bool_iff val256_def)

lemma bit_val256: "bit (val256 x) n \<longleftrightarrow> (if n < 128 then bit (val128 (u256_lower x)) n else bit (val128 (u256_upper x)) (n - 128))"
proof -
  have low: "\<not> bit (val128 w) n" if "128 \<le> n" for w n
    using that by (auto simp: bit_val128 dest: bit_imp_le_length)
  have "val256 x = push_bit 128 (val128 (u256_upper x)) OR val128 (u256_lower x)"
  proof -
    have "val256 x = push_bit 128 (val128 (u256_upper x)) + val128 (u256_lower x)"
      by (simp add: val256_def push_bit_eq_mult)
    also have "\<dots> = push_bit 128 (val128 (u256_upper x)) OR val128 (u256_lower x)"
      by (rule disjunctive_add) (auto simp: bit_push_bit_iff low)
    finally show ?thesis .
  qed
  then show ?thesis using low by (auto simp: bit_or_iff bit_push_bit_iff)
qed

lemma val256_bitwise:
  "val256 (UInt256_and a b) = val256 a AND val256 b"
  "val256 (UInt256_or a b) = val256 a OR val256 b"
  "val256 (UInt256_xor a b) = val256 a XOR val256 b"
  by (rule bit_eqI; simp add: UInt256_and_def UInt256_or_def UInt256_xor_def bit_val256 val128_bitwise
    bit_and_iff bit_or_iff bit_xor_iff)+

text \<open>A shift amount is out of range, zero, or below or above the width of a half.\<close>

lemma shift_cases256 [case_names big zero small large]:
  assumes "128 + 128 \<le> val256 b \<Longrightarrow> P"
    "val128 (u256_upper b) = 0 \<Longrightarrow> val128 (u256_lower b) = 0 \<Longrightarrow> P"
    "val128 (u256_upper b) = 0 \<Longrightarrow> 0 < val128 (u256_lower b) \<Longrightarrow> val128 (u256_lower b) < 128 \<Longrightarrow> P"
    "val128 (u256_upper b) = 0 \<Longrightarrow> 128 \<le> val128 (u256_lower b) \<Longrightarrow> val128 (u256_lower b) < 128 + 128 \<Longrightarrow> P"
  shows P
  using assms by (cases "val128 (u256_upper b) = 0"; cases "val128 (u256_lower b) = 0";
      cases "val128 (u256_lower b) < 128"; cases "val128 (u256_lower b) < 256")
    (auto simp: val256_def)

lemma shift_big256:
  assumes "256 \<le> val256 b"
  shows "UInt128_bool (u256_upper b) \<or> UInt128_greater_eq (u256_lower b) (lit128 256)"
  using assms by (auto simp: UInt128_bool_iff val128_greater_eq val128_of val256_def)

lemmas cmp128 = UInt128_eq_iff val128_inj [symmetric] val128_less val128_greater val128_greater_eq UInt128_bool_iff val128_of

lemma val256_shl: "val256 (UInt256_shl a b) = val256 a * 2 ^ val256 b mod 2 ^ 256"
proof (cases b rule: shift_cases256)
  case big
  then have "2 ^ 256 dvd val256 a * 2 ^ val256 b" by (intro dvd_mult le_imp_power_dvd) simp
  moreover have "UInt256_shl a b = lit256 0"
    using shift_big256 [of b] big by (simp add: UInt256_shl_def)
  ultimately show ?thesis by (simp add: val256_lit)
next
  case zero
  then have "UInt256_shl a b = a" "val256 b = 0" by (simp_all add: UInt256_shl_def cmp128 val256_def)
  then show ?thesis using val256_bound [of a] by simp
next
  case small
  let ?u = "u256_upper a" and ?l = "u256_lower a" and ?s = "u256_lower b"
  have "UInt256_shl a b = U256 (UInt128_add (UInt128_shl ?u ?s) (UInt128_shr ?l (UInt128_sub (lit128 128) ?s))) (UInt128_shl ?l ?s)"
    using small by (simp add: UInt256_shl_def Let_def cmp128)
  moreover have "val256 b = val128 ?s" using small by (simp add: val256_def)
  moreover have "val256 a = u128.wval ?u ?l" by (simp add: val256_def u128.wval_def)
  ultimately show ?thesis by (simp only: val256_wval u128_wide(3) small)
next
  case large
  let ?u = "u256_upper a" and ?l = "u256_lower a" and ?s = "u256_lower b"
  have "UInt256_shl a b = U256 (UInt128_shl ?l (UInt128_sub ?s (lit128 128))) (lit128 0)"
  proof (cases "val128 ?s = 128")
    case True
    then have "UInt128_shl ?l (UInt128_sub ?s (lit128 128)) = ?l"
      using val128_bound [of ?l] by (simp add: val128_inj [symmetric] val128_shl val128_sub val128_of)
    with True large show ?thesis by (simp add: UInt256_shl_def cmp128)
  qed (use large in \<open>simp add: UInt256_shl_def cmp128\<close>)
  moreover have "val256 b = val128 ?s" using large by (simp add: val256_def)
  moreover have "val256 a = u128.wval ?u ?l" by (simp add: val256_def u128.wval_def)
  ultimately show ?thesis using u128_wide(4) [OF large(2) large(3) [unfolded double128], of ?l ?u] by (simp only: val256_wval)
qed

lemma val256_shr: "val256 (UInt256_shr a b) = val256 a div 2 ^ val256 b"
proof (cases b rule: shift_cases256)
  case big
  have "val256 a < 2 ^ 256" by (rule val256_bound)
  also have "(2 :: nat) ^ 256 \<le> 2 ^ val256 b" using big by (intro power_increasing) simp_all
  finally have "val256 a div 2 ^ val256 b = 0" by simp
  moreover have "UInt256_shr a b = lit256 0"
    using shift_big256 [of b] big by (simp add: UInt256_shr_def)
  ultimately show ?thesis by (simp add: val256_lit)
next
  case zero
  then have "UInt256_shr a b = a" "val256 b = 0" by (simp_all add: UInt256_shr_def cmp128 val256_def)
  then show ?thesis by simp
next
  case small
  let ?u = "u256_upper a" and ?l = "u256_lower a" and ?s = "u256_lower b"
  have "UInt256_shr a b = U256 (UInt128_shr ?u ?s) (UInt128_add (UInt128_shl ?u (UInt128_sub (lit128 128) ?s)) (UInt128_shr ?l ?s))"
    using small by (simp add: UInt256_shr_def Let_def cmp128)
  moreover have "val256 b = val128 ?s" using small by (simp add: val256_def)
  moreover have "val256 a = u128.wval ?u ?l" by (simp add: val256_def u128.wval_def)
  ultimately show ?thesis by (simp only: val256_wval u128_wide(5) small)
next
  case large
  let ?u = "u256_upper a" and ?l = "u256_lower a" and ?s = "u256_lower b"
  have "UInt256_shr a b = U256 (lit128 0) (UInt128_shr ?u (UInt128_sub ?s (lit128 128)))"
  proof (cases "val128 ?s = 128")
    case True
    then have "UInt128_shr ?u (UInt128_sub ?s (lit128 128)) = ?u"
      by (simp add: val128_inj [symmetric] val128_shr val128_sub val128_of)
    with True large show ?thesis by (simp add: UInt256_shr_def UInt256_of_def cmp128)
  qed (use large in \<open>simp add: UInt256_shr_def UInt256_of_def cmp128\<close>)
  moreover have "val256 b = val128 ?s" using large by (simp add: val256_def)
  moreover have "val256 a = u128.wval ?u ?l" by (simp add: val256_def u128.wval_def)
  ultimately show ?thesis using u128_wide(6) [OF large(2) large(3) [unfolded double128], of ?u ?l] by (simp only: val256_wval)
qed

interpretation u256: unsigned_int 256 val256 lit256 UInt256_add UInt256_sub UInt256_less UInt256_shl UInt256_shr
  by unfold_locales
    (simp, simp, rule val256_bound, rule val256_inj, erule val256_lit, rule val256_add, rule val256_sub,
      rule val256_less, rule val256_shl, rule val256_shr)

subsection \<open>Products\<close>

definition digit64 :: "uint256 \<Rightarrow> nat \<Rightarrow> uint128" where
  "digit64 x i = map UInt128_of [u128_lower (u256_lower x), u128_upper (u256_lower x),
                                 u128_lower (u256_upper x), u128_upper (u256_upper x)] ! i"

lemma digit64_bound: "i < 4 \<Longrightarrow> val128 (digit64 x i) < 2 ^ 64"
proof -
  assume "i < 4"
  then have "i = 0 \<or> i = 1 \<or> i = 2 \<or> i = 3" by linarith
  then show ?thesis by (elim disjE; simp only: digit64_def list.map nth4 val128_of u64.val_bound)
qed

lemma val256_digits:
  "val256 x = val128 (digit64 x 0) + val128 (digit64 x 1) * 2 ^ 64 + val128 (digit64 x 2) * (2 ^ 64) ^ 2
     + val128 (digit64 x 3) * (2 ^ 64) ^ 3"
  unfolding val256_def val128_def [of "u256_upper x"] val128_def [of "u256_lower x"] digit64_def list.map nth4 val128_of by simp

lemma val128_lower: "unat (u128_lower p) = val128 p mod 2 ^ 64"
  using u64.val_bound [of "u128_lower p"] by (simp add: val128_def)

lemma val128_upper: "unat (u128_upper p) = val128 p div 2 ^ 64"
  using u64.val_bound [of "u128_lower p"] by (simp add: val128_def)

lemma digit64_product:
  fixes x y :: uint256
  assumes "i < 4" "j < 4"
  defines "p \<equiv> UInt128_mul (digit64 x i) (digit64 y j)"
  shows "val128 (UInt128_of (u128_lower p)) = val128 (digit64 x i) * val128 (digit64 y j) mod 2 ^ 64"
    and "val128 (UInt128_of (u128_upper p)) = val128 (digit64 x i) * val128 (digit64 y j) div 2 ^ 64"
proof -
  have "val128 (digit64 x i) * val128 (digit64 y j) < 2 ^ 64 * 2 ^ 64"
    using digit64_bound [OF assms(1)] digit64_bound [OF assms(2)] by (intro mult_strict_mono) simp_all
  then have "val128 p = val128 (digit64 x i) * val128 (digit64 y j)" by (simp add: p_def val128_mul)
  then show "val128 (UInt128_of (u128_lower p)) = val128 (digit64 x i) * val128 (digit64 y j) mod 2 ^ 64"
    and "val128 (UInt128_of (u128_upper p)) = val128 (digit64 x i) * val128 (digit64 y j) div 2 ^ 64"
    by (simp_all only: val128_of val128_lower val128_upper)
qed

text \<open>The four partial sums, recombined with their carries.\<close>

lemma recombine256:
  "val256 (UInt256_add
     (UInt256_add
        (UInt256_add (U256 (UInt128_shl first (lit128 64)) (lit128 0))
                     (U256 (UInt128_of (u128_upper third)) (UInt128_shl third (lit128 64))))
        (U256 second (lit128 0)))
     (UInt256_of fourth))
   = (val128 fourth + val128 third * 2 ^ 64 + val128 second * (2 ^ 64) ^ 2 + val128 first * (2 ^ 64) ^ 3) mod (2 ^ 64) ^ 4"
proof -
  have l64: "val128 (lit128 64) = 64" by (rule val128_lit) simp
  have sh: "val128 (UInt128_shl a (lit128 64)) = val128 a * 2 ^ 64 mod 2 ^ 128" for a
    by (simp only: val128_shl l64)
  let ?F = "(val128 first * 2 ^ 64 mod 2 ^ 128) * 2 ^ 128"
  have F: "val256 (U256 (UInt128_shl first (lit128 64)) (lit128 0)) = ?F"
    by (simp only: val256_def uint256.sel sh) simp
  have T: "val256 (U256 (UInt128_of (u128_upper third)) (UInt128_shl third (lit128 64))) = val128 third * 2 ^ 64"
  proof -
    have "val128 third * 2 ^ 64 mod (2 ^ 64 * 2 ^ 64) = val128 third mod 2 ^ 64 * 2 ^ 64" by (simp only: mod_mult_mult2)
    then have "val128 third * 2 ^ 64 mod 2 ^ 128 = val128 third mod 2 ^ 64 * 2 ^ 64" by simp
    moreover have "val128 third div 2 ^ 64 * 2 ^ 128 + val128 third mod 2 ^ 64 * 2 ^ 64
        = (val128 third div 2 ^ 64 * 2 ^ 64 + val128 third mod 2 ^ 64) * 2 ^ 64"
    proof -
      have "(2 :: nat) ^ 128 = 2 ^ 64 * 2 ^ 64" by simp
      then show ?thesis by (simp only: add_mult_distrib mult.assoc)
    qed
    ultimately show ?thesis
      by (simp only: val256_def uint256.sel sh val128_of val128_upper div_mult_mod_eq)
  qed
  have S: "val256 (U256 second (lit128 0)) = val128 second * 2 ^ 128" by (simp add: val256_def)
  have m: "?F mod 2 ^ 256 = val128 first * (2 ^ 64) ^ 3 mod 2 ^ 256"
  proof -
    have "(val128 first * 2 ^ 64) * 2 ^ 128 mod (2 ^ 128 * 2 ^ 128) = ?F" by (simp only: mod_mult_mult2)
    then show ?thesis by (simp add: mult.assoc)
  qed
  have "val256 (UInt256_add
     (UInt256_add
        (UInt256_add (U256 (UInt128_shl first (lit128 64)) (lit128 0))
                     (U256 (UInt128_of (u128_upper third)) (UInt128_shl third (lit128 64))))
        (U256 second (lit128 0)))
     (UInt256_of fourth)) = (?F + (val128 third * 2 ^ 64 + val128 second * 2 ^ 128 + val128 fourth)) mod 2 ^ 256"
    by (simp only: val256_add F T S val256_of mod_add_left_eq add.assoc)
  also have "\<dots> = (val128 first * (2 ^ 64) ^ 3 + (val128 third * 2 ^ 64 + val128 second * 2 ^ 128 + val128 fourth)) mod 2 ^ 256"
    by (metis m mod_add_left_eq)
  finally show ?thesis by (simp add: ac_simps)
qed

lemma val256_mul: "val256 (UInt256_mul x y) = val256 x * val256 y mod 2 ^ 256"
proof -
  define a where "a = digit64 x"
  define b where "b = digit64 y"
  define lo where "lo i j = UInt128_of (u128_lower (UInt128_mul (a i) (b j)))" for i j
  define hi where "hi i j = UInt128_of (u128_upper (UInt128_mul (a i) (b j)))" for i j
  define L where "L i j = val128 (a i) * val128 (b j) mod 2 ^ 64" for i j
  define H where "H i j = val128 (a i) * val128 (b j) div 2 ^ 64" for i j
  define fourth where "fourth = lo 0 0"
  define third where "third = UInt128_add (UInt128_add (lo 0 1) (hi 0 0)) (lo 1 0)"
  define second where "second = UInt128_add (UInt128_add (UInt128_add (lo 0 2) (hi 0 1)) (UInt128_add (lo 1 1) (hi 1 0))) (lo 2 0)"
  define first where "first = UInt128_add (UInt128_add (UInt128_add (UInt128_add (lo 0 3) (hi 0 2)) (UInt128_add (lo 1 2) (hi 1 1)))
     (UInt128_add (lo 2 1) (hi 2 0))) (lo 3 0)"
  have mul: "UInt256_mul x y = UInt256_add
     (UInt256_add
        (UInt256_add (U256 (UInt128_shl first (lit128 64)) (lit128 0))
                     (U256 (UInt128_of (u128_upper third)) (UInt128_shl third (lit128 64))))
        (U256 second (lit128 0)))
     (UInt256_of fourth)"
    unfolding UInt256_mul_def Let_def first_def second_def third_def fourth_def lo_def hi_def a_def b_def digit64_def list.map
    by (simp only: nth4)
  have p: "val128 (lo i j) = L i j" "val128 (hi i j) = H i j" if "i < 4" "j < 4" for i j
    using that by (simp_all only: lo_def hi_def a_def b_def L_def H_def digit64_product)
  note parts = p [of 0 0] p [of 0 1] p [of 1 0] p [of 0 2] p [of 1 1] p [of 2 0] p [of 0 3] p [of 1 2] p [of 2 1] p [of 3 0]
  have "L i j < 2 ^ 64" "H i j < 2 ^ 64" if "i < 4" "j < 4" for i j
    using that p [OF that, symmetric] by (simp_all only: lo_def hi_def val128_of u64.val_bound)
  note small = this [of 0 0] this [of 0 1] this [of 1 0] this [of 0 2] this [of 1 1] this [of 2 0]
    this [of 0 3] this [of 1 2] this [of 2 1] this [of 3 0]
  let ?p = "L 0 0" and ?q = "L 0 1 + H 0 0 + L 1 0" and ?r = "L 0 2 + H 0 1 + (L 1 1 + H 1 0) + L 2 0"
    and ?s = "L 0 3 + H 0 2 + (L 1 2 + H 1 1) + (L 2 1 + H 2 0) + L 3 0"
  have "val128 third = ?q mod 2 ^ 128" "val128 second = ?r mod 2 ^ 128" "val128 first = ?s mod 2 ^ 128"
    unfolding third_def second_def first_def
    by (simp_all only: val128_add mod_add_left_eq mod_add_right_eq) (simp_all add: parts del: One_nat_def)
  then have "val128 third = ?q" "val128 second = ?r" "val128 first = ?s" using small by simp_all
  moreover have "val128 fourth = ?p" by (simp add: fourth_def parts)
  ultimately have "val256 (UInt256_mul x y) = (?p + ?q * 2 ^ 64 + ?r * (2 ^ 64) ^ 2 + ?s * (2 ^ 64) ^ 3) mod (2 ^ 64) ^ 4"
    by (simp only: mul recombine256)
  also have "\<dots> = val256 x * val256 y mod (2 ^ 64) ^ 4"
    unfolding val256_digits L_def H_def a_def b_def by (rule product_digits [symmetric]) simp
  finally show ?thesis by simp
qed

lemma bits_loop128_bitlen: "bits_loop128 x r = r + bitlen (val128 x)"
proof (induction x r rule: bits_loop128.induct)
  case (1 x r)
  show ?case
  proof (cases "UInt128_bool x")
    case True
    then have "0 < val128 x" "val128 (UInt128_shr x (lit128 1)) = val128 x div 2" by (simp_all add: UInt128_bool_iff val128_shr)
    then show ?thesis using 1 [OF True] True by (subst bits_loop128.simps) (simp add: bitlen_pos)
  qed (simp add: bits_loop128.simps UInt128_bool_iff)
qed

lemma UInt256_bits_bitlen: "UInt256_bits x = bitlen (val256 x)"
proof (cases "UInt128_bool (u256_upper x)")
  case True
  then have "0 < val128 (u256_upper x)" by (simp add: UInt128_bool_iff)
  then have "bitlen (val256 x) = 128 + bitlen (val128 (u256_upper x))"
    unfolding val256_def by (rule bitlen_upper) (rule val128_bound)
  with True show ?thesis by (simp add: UInt256_bits_def bits_loop128_bitlen)
qed (simp add: UInt256_bits_def bits_loop128_bitlen val256_def UInt128_bool_iff)

lemma val256_half: "val256 (UInt256_shr a (lit256 1)) = val256 a div 2"
  by (simp add: val256_shr)

text \<open>Setting a bit below all bits of a number adds it.\<close>

lemma or_power_below: "2 ^ Suc k dvd (q :: nat) \<Longrightarrow> q OR 2 ^ k = q + 2 ^ k"
proof -
  assume "2 ^ Suc k dvd q"
  then obtain m where "q = 2 ^ Suc k * m" by blast
  then have "q = push_bit (Suc k) m" by (simp only: push_bit_eq_mult mult.commute)
  then have "\<not> bit q n \<or> \<not> bit (2 ^ k :: nat) n" for n
    by (simp only: bit_push_bit_iff bit_exp_iff) auto
  then show ?thesis by (simp add: disjunctive_add)
qed

lemma div_mod_unique: "q * y + r = X \<Longrightarrow> r < y \<Longrightarrow> q = X div y \<and> r = X mod (y :: nat)"
  by auto

text \<open>The loop with \<open>k\<close> bits of the quotient left to find.\<close>

lemma divmod_loop256_val:
  assumes "val256 r < 2 ^ k * val256 y" and "2 ^ k dvd val256 q" and "val256 q * val256 y + val256 r = X"
    and "0 < k \<longrightarrow> val256 copyd = val256 y * 2 ^ (k - 1) \<and> val256 adder = 2 ^ (k - 1)"
  shows "\<exists>q' r'. divmod_loop256 y q r copyd adder = Some (q', r') \<and> val256 q' = X div val256 y \<and> val256 r' = X mod val256 y"
  using assms
proof (induction k arbitrary: q r copyd adder)
  case 0
  then have "val256 r < val256 y" by simp
  then have "divmod_loop256 y q r copyd adder = Some (q, r)"
    by (subst divmod_loop256.simps) (simp add: val256_greater_eq)
  then show ?case using div_mod_unique [OF 0(3)] \<open>val256 r < val256 y\<close> by auto
next
  case (Suc k)
  let ?y = "val256 y"
  have copyd: "val256 copyd = ?y * 2 ^ k" "val256 adder = 2 ^ k" using Suc.prems by simp_all
  show ?case
  proof (cases "?y \<le> val256 r")
    case False
    then have "divmod_loop256 y q r copyd adder = Some (q, r)"
      by (subst divmod_loop256.simps) (simp add: val256_greater_eq)
    then show ?thesis using div_mod_unique [OF Suc.prems(3)] False by auto
  next
    case True
    define b where "b = (val256 copyd \<le> val256 r)"
    define q1 where "q1 = (if b then UInt256_or q adder else q)"
    define r1 where "r1 = (if b then UInt256_sub r copyd else r)"
    have loop: "divmod_loop256 y q r copyd adder =
        divmod_loop256 y q1 r1 (UInt256_shr copyd (lit256 1)) (UInt256_shr adder (lit256 1))"
      using True by (subst divmod_loop256.simps) (simp add: val256_greater_eq b_def q1_def r1_def)
    have q1: "val256 q1 = (if b then val256 q + 2 ^ k else val256 q)"
      using or_power_below [OF Suc.prems(2)] by (simp add: q1_def val256_bitwise copyd)
    have r1: "val256 r1 = (if b then val256 r - ?y * 2 ^ k else val256 r)"
      by (simp add: r1_def b_def val256_sub copyd)
    have small: "val256 r1 < 2 ^ k * ?y"
      using Suc.prems(1) by (auto simp: r1 b_def copyd mult.commute)
    have "2 ^ k dvd val256 q" using Suc.prems(2) by (rule dvd_trans [OF le_imp_power_dvd, rotated]) simp
    then have dvd: "2 ^ k dvd val256 q1" by (auto simp: q1 intro: dvd_add)
    have sum: "val256 q1 * ?y + val256 r1 = X"
      using Suc.prems(3) by (auto simp: q1 r1 b_def copyd algebra_simps)
    have half: "0 < k \<longrightarrow> val256 (UInt256_shr copyd (lit256 1)) = ?y * 2 ^ (k - 1) \<and> val256 (UInt256_shr adder (lit256 1)) = 2 ^ (k - 1)"
      by (cases k) (simp_all only: val256_half copyd, simp_all)
    show ?thesis unfolding loop by (rule Suc.IH [OF small dvd sum half])
  qed
qed

lemma pow_bitlen_double: "0 < n \<Longrightarrow> 2 ^ bitlen n \<le> 2 * n"
  using pow_bitlen_le [of n] by (cases "bitlen n") (simp_all add: bitlen_pos)

lemma UInt256_divmod_loop:
  assumes y: "0 < val256 y" and lt: "val256 y < val256 x"
  defines "k \<equiv> UInt256_bits x - UInt256_bits y"
  defines "copyd \<equiv> UInt256_shl y (lit256 k)" and "adder \<equiv> UInt256_shl (lit256 1) (lit256 k)"
  shows "\<exists>q r. (if UInt256_greater copyd x
      then divmod_loop256 y (lit256 0) x (UInt256_shr copyd (lit256 1)) (UInt256_shr adder (lit256 1))
      else divmod_loop256 y (lit256 0) x copyd adder) = Some (q, r) \<and>
    val256 q = val256 x div val256 y \<and> val256 r = val256 x mod val256 y"
proof -
  let ?x = "val256 x" and ?y = "val256 y"
  have bx: "bitlen ?x \<le> 256" by (rule bitlen_le [OF val256_bound])
  have by_le: "bitlen ?y \<le> bitlen ?x"
    by (rule bitlen_le) (rule less_trans [OF lt less_pow_bitlen])
  have k: "k = bitlen ?x - bitlen ?y" by (simp add: k_def UInt256_bits_bitlen)
  then have kle: "k \<le> 256" "bitlen ?x = bitlen ?y + k" using bx by_le by simp_all
  have yk: "?y * 2 ^ k < 2 ^ 256"
  proof -
    have "?y * 2 ^ k < 2 ^ bitlen ?y * 2 ^ k" using less_pow_bitlen [of ?y] by simp
    also have "\<dots> = 2 ^ bitlen ?x" by (simp only: kle(2) power_add)
    also have "\<dots> \<le> 2 ^ 256" using bx by (intro power_increasing) simp_all
    finally show ?thesis .
  qed
  have lk: "val256 (lit256 k) = k" using kle by (simp add: val256_lit)
  have copyd: "val256 copyd = ?y * 2 ^ k" using yk by (simp only: copyd_def val256_shl lk mod_less)
  have "2 ^ k \<le> ?y * 2 ^ k" using y by simp
  then have "2 ^ k < (2 :: nat) ^ 256" using yk by (rule le_less_trans)
  then have adder: "val256 adder = 2 ^ k" by (simp add: adder_def val256_shl lk)
  have xk: "?x < 2 ^ Suc k * ?y"
  proof -
    have "?x < 2 ^ bitlen ?y * 2 ^ k" using less_pow_bitlen [of ?x] by (simp only: kle(2) power_add)
    also have "\<dots> \<le> 2 * ?y * 2 ^ k" using pow_bitlen_double [OF y] by (intro mult_right_mono) simp_all
    finally show ?thesis by (simp add: mult.commute mult.left_commute)
  qed
  show ?thesis
  proof (cases "?x < val256 copyd")
    case False
    then have "\<not> UInt256_greater copyd x" by (simp add: val256_greater)
    moreover have "\<exists>q r. divmod_loop256 y (lit256 0) x copyd adder = Some (q, r) \<and> val256 q = ?x div ?y \<and> val256 r = ?x mod ?y"
      by (rule divmod_loop256_val [OF xk]) (simp_all add: copyd adder)
    ultimately show ?thesis by simp
  next
    case True
    then have k0: "0 < k" using lt by (cases k) (simp_all add: copyd)
    have "\<exists>q r. divmod_loop256 y (lit256 0) x (UInt256_shr copyd (lit256 1)) (UInt256_shr adder (lit256 1)) = Some (q, r)
        \<and> val256 q = ?x div ?y \<and> val256 r = ?x mod ?y"
    proof (rule divmod_loop256_val [of _ k])
      show "?x < 2 ^ k * ?y" using True by (simp add: copyd mult.commute)
      show "0 < k \<longrightarrow> val256 (UInt256_shr copyd (lit256 1)) = ?y * 2 ^ (k - 1) \<and> val256 (UInt256_shr adder (lit256 1)) = 2 ^ (k - 1)"
        by (cases k) (simp_all only: val256_half copyd adder, simp_all)
    qed simp_all
    with True show ?thesis by (simp add: val256_greater)
  qed
qed

lemma UInt256_divmod_val:
  assumes "val256 y \<noteq> 0"
  shows "\<exists>q r. UInt256_divmod x y = Some (Inr (q, r)) \<and> val256 q = val256 x div val256 y \<and> val256 r = val256 x mod val256 y"
proof -
  have eq: "UInt256_eq a b \<longleftrightarrow> val256 a = val256 b" for a b by (simp add: UInt256_eq_iff val256_inj)
  consider "val256 y = 1" | "val256 y \<noteq> 1" "val256 x = val256 y" | "val256 y \<noteq> 1" "val256 x < val256 y"
    | "val256 y \<noteq> 1" "val256 y < val256 x" by linarith
  then show ?thesis
  proof cases
    case 4
    then have "\<not> UInt256_eq y (lit256 0)" "\<not> UInt256_eq y (lit256 1)" "\<not> UInt256_eq x y"
        "\<not> (UInt256_eq x (lit256 0) \<or> UInt256_less x y)"
      using assms by (simp_all add: eq val256_less)
    then show ?thesis using UInt256_divmod_loop [of y x] assms 4
      by (simp only: UInt256_divmod_def if_False Let_def) auto
  qed (use assms in \<open>simp_all add: UInt256_divmod_def eq val256_less\<close>)
qed

interpretation print256: digit_printer val256 "\<lambda>r. ucast (u128_lower (u256_lower r))" string_loop256
proof
  fix x r :: uint256 and base :: nat
  show "val256 r < 256 \<Longrightarrow> unat (ucast (u128_lower (u256_lower r)) :: u8) = val256 r"
  proof -
    assume r: "val256 r < 256"
    then have "val128 (u256_upper r) = 0" by (cases "val128 (u256_upper r)") (auto simp: val256_def)
    with r show ?thesis using print128.low8_val [of "u256_lower r"] by (simp add: val256_def)
  qed
  assume base: "2 \<le> base" "base \<le> 16"
  then have b: "val256 (lit256 base) = base" by (simp add: val256_lit)
  with base obtain q r where qr: "UInt256_divmod x (lit256 base) = Some (Inr (q, r))" "val256 q = val256 x div base"
      "val256 r = val256 x mod base"
    using UInt256_divmod_val [of "lit256 base" x] by auto
  have "string_loop256 base x out =
      (if val256 q \<noteq> 0 then string_loop256 base q (hex_digits ! unat (ucast (u128_lower (u256_lower r)) :: u8) # out)
       else Some (Inr (hex_digits ! unat (ucast (u128_lower (u256_lower r)) :: u8) # out)))" for out
    using qr(1) by (subst string_loop256.simps) (simp add: Let_def UInt256_eq_iff val256_inj [symmetric])
  with qr(2,3) show "\<exists>q r. val256 q = val256 x div base \<and> val256 r = val256 x mod base \<and> (\<forall>out. string_loop256 base x out =
      (if val256 q \<noteq> 0 then string_loop256 base q (hex_digits ! unat (ucast (u128_lower (u256_lower r)) :: u8) # out)
       else Some (Inr (hex_digits ! unat (ucast (u128_lower (u256_lower r)) :: u8) # out))))" by blast
qed

subsection \<open>Properties\<close>


text \<open>
  C14. The aligned-subtraction division of 256-bit integers ends for every nonzero divisor and
  returns the quotient and the remainder of the values; a zero divisor is a domain error.
\<close>

theorem UInt256_divmod_correct:
  "(if val256 y = 0 then UInt256_divmod x y = Some (Inl DomainError)
    else \<exists>q r. UInt256_divmod x y = Some (Inr (q, r)) \<and> val256 q = val256 x div val256 y \<and> val256 r = val256 x mod val256 y)"
proof (cases "val256 y = 0")
  case True
  then have "UInt256_eq y (lit256 0)" by (simp add: UInt256_eq_iff val256_inj [symmetric])
  with True show ?thesis by (simp add: UInt256_divmod_def)
qed (use UInt256_divmod_val in simp)

text \<open>
  The text of a 256-bit integer in a base from 2 to 16 is always produced, has at least the
  requested length, and denotes the value; any other base is refused.
\<close>

theorem UInt256_string_denotes:
  "(if 2 \<le> base \<and> base \<le> 16
    then \<exists>s. UInt256_string x base len = Some (Inr s) \<and> len \<le> length s \<and> s \<noteq> [] \<and> read_digits base s = val256 x
    else UInt256_string x base len = Some (Inl InvalidArgument))"
  using print256.print_denotes [of base x len]
  by (auto simp: UInt256_string_def UInt256_bool_iff)

end
