(* ===== verification/MapContract.thy ===== *)
theory MapContract
  imports Main
begin

text \<open>
  The contract of the library's map containers: insertion of an absent key, the refusal to overwrite a
  present one, and erasure, over a partial map as the abstract state. \<open>None\<close> as the result of an
  operation stands for a C++ loop that does not end, so the laws include termination.
\<close>

datatype ('k, 'v) map_op = Insert 'k 'v | Erase 'k

fun op_key :: "('k, 'v) map_op \<Rightarrow> 'k" where
  "op_key (Insert k v) = k"
| "op_key (Erase k) = k"

fun spec_op :: "('k, 'v) map_op \<Rightarrow> ('k \<rightharpoonup> 'v) \<Rightarrow> ('k \<rightharpoonup> 'v)" where
  "spec_op (Insert k v) m = (if m k = None then m(k \<mapsto> v) else m)"
| "spec_op (Erase k) m = m(k := None)"

definition spec_run :: "('k, 'v) map_op list \<Rightarrow> ('k \<rightharpoonup> 'v) \<Rightarrow> ('k \<rightharpoonup> 'v)" where
  "spec_run ops m = fold spec_op ops m"

fun run_ops ::
  "('m \<Rightarrow> 'k \<Rightarrow> 'v \<Rightarrow> ('m \<times> bool) option) \<Rightarrow> ('m \<Rightarrow> 'k \<Rightarrow> ('m \<times> nat) option) \<Rightarrow>
   ('k, 'v) map_op list \<Rightarrow> 'm \<Rightarrow> 'm option" where
  "run_ops ins era [] m = Some m"
| "run_ops ins era (Insert k v # ops) m =
     (case ins m k v of None \<Rightarrow> None | Some (m', b) \<Rightarrow> run_ops ins era ops m')"
| "run_ops ins era (Erase k # ops) m =
     (case era m k of None \<Rightarrow> None | Some (m', n) \<Rightarrow> run_ops ins era ops m')"

locale map_container =
  fixes inv :: "'m \<Rightarrow> bool"
    and valid :: "'m \<Rightarrow> 'k \<Rightarrow> bool"
    and content :: "'m \<Rightarrow> ('k \<rightharpoonup> 'v)"
    and size :: "'m \<Rightarrow> nat"
    and limit :: nat
    and ins :: "'m \<Rightarrow> 'k \<Rightarrow> 'v \<Rightarrow> ('m \<times> bool) option"
    and era :: "'m \<Rightarrow> 'k \<Rightarrow> ('m \<times> nat) option"
  assumes content_size: "inv m \<Longrightarrow> finite (dom (content m)) \<and> size m = card (dom (content m))"
    and ins_ok: "inv m \<Longrightarrow> valid m k \<Longrightarrow> size m < limit \<Longrightarrow>
      \<exists>m'. ins m k v = Some (m', content m k = None) \<and> inv m' \<and> valid m' = valid m \<and>
           content m' = spec_op (Insert k v) (content m)"
    and era_ok: "inv m \<Longrightarrow> valid m k \<Longrightarrow>
      \<exists>m'. era m k = Some (m', if content m k = None then 0 else 1) \<and> inv m' \<and> valid m' = valid m \<and>
           content m' = spec_op (Erase k) (content m)"
begin

lemma spec_op_size:
  assumes "finite (dom m)"
  shows "card (dom (spec_op op m)) \<le> Suc (card (dom m))"
proof (cases op)
  case (Insert k v)
  then show ?thesis using assms by (simp add: card_insert_if)
next
  case (Erase k)
  have "card (dom m - {k}) \<le> card (dom m)" using assms by (intro card_mono) auto
  then show ?thesis using Erase by simp
qed

lemma run_ops_ok:
  "inv m \<Longrightarrow> \<forall>op \<in> set ops. valid m (op_key op) \<Longrightarrow> size m + length ops \<le> limit \<Longrightarrow>
   \<exists>m'. run_ops ins era ops m = Some m' \<and> inv m' \<and> content m' = spec_run ops (content m) \<and>
     size m' = card (dom (spec_run ops (content m)))"
proof (induction ops arbitrary: m)
  case Nil
  then show ?case using content_size by (simp add: spec_run_def)
next
  case (Cons op ops)
  obtain m1 where m1: "run_ops ins era (op # ops) m = run_ops ins era ops m1" "inv m1" "valid m1 = valid m"
      "content m1 = spec_op op (content m)"
  proof (cases op)
    case (Insert k v)
    then show ?thesis using ins_ok [of m k v] Cons.prems that by auto
  next
    case (Erase k)
    then show ?thesis using era_ok [of m k] Cons.prems that by auto
  qed
  have "size m1 \<le> Suc (size m)"
    using spec_op_size [of "content m" op] content_size [of m] content_size [OF m1(2)] Cons.prems(1) by (simp add: m1(4))
  then show ?case using Cons.IH [of m1] Cons.prems m1 by (simp add: spec_run_def)
qed

end

end
