(* ===== verification/HashMap.thy ===== *)
theory HashMap
  imports Prelude MapContract
begin

text \<open>
  The open-addressing hash map of \<^verbatim>\<open>include/containers/hashmap.h\<close> and
  \<^verbatim>\<open>include/containers/hashmap.inl\<close>: linear probing in a table whose size is a power of two, a
  blank key that marks free buckets, and erasure by moving later buckets back. The probing and shifting
  loops have no bound in the source; they are partial functions here, and a theorem that gives their
  result proves that they end. Indices and sizes are natural numbers: \<^verbatim>\<open>diff\<close>, that relies on it, wraps at 64 bits as
  in the source, and the properties bound the sizes so that no other sum or doubling reaches $2^{64}$. An iterator is a bucket index, \<^const>\<open>None\<close> for \<^verbatim>\<open>end()\<close>.
\<close>

record ('k, 'v) hashmap =
  hm_hash :: "'k \<Rightarrow> u64"
  hm_blank :: 'k
  hm_dflt :: 'v
  hm_size :: nat
  hm_buckets :: "('k \<times> 'v) list"

text \<open>\<^verbatim>\<open>while (reserve < capacity) reserve <<= 1\<close>\<close>

function grow_capacity :: "nat \<Rightarrow> nat \<Rightarrow> nat" where
  "grow_capacity reserve capacity =
     (if 0 < reserve \<and> reserve < capacity then grow_capacity (2 * reserve) capacity else reserve)"
  by pat_completeness auto
termination
  by (relation "measure (\<lambda>(reserve, capacity). capacity - reserve)") auto

declare grow_capacity.simps [simp del]

definition HashMap_init :: "('k \<Rightarrow> u64) \<Rightarrow> 'k \<Rightarrow> 'v \<Rightarrow> nat \<Rightarrow> ('k, 'v) hashmap" where
  "HashMap_init hash blank dflt capacity =
     \<lparr> hm_hash = hash, hm_blank = blank, hm_dflt = dflt, hm_size = 0,
       hm_buckets = replicate (grow_capacity 1 capacity) (blank, dflt) \<rparr>"

definition bucket_count :: "('k, 'v) hashmap \<Rightarrow> nat" where
  "bucket_count hm = length (hm_buckets hm)"

definition bucket_key :: "('k, 'v) hashmap \<Rightarrow> nat \<Rightarrow> 'k" where
  "bucket_key hm index = fst (hm_buckets hm ! index)"

definition key_to_index :: "('k, 'v) hashmap \<Rightarrow> 'k \<Rightarrow> nat" where
  "key_to_index hm key = (let mask = bucket_count hm - 1 in unat (hm_hash hm key) AND mask)"

definition next_index :: "('k, 'v) hashmap \<Rightarrow> nat \<Rightarrow> nat" where
  "next_index hm index = (let mask = bucket_count hm - 1 in (index + 1) AND mask)"

definition diff :: "('k, 'v) hashmap \<Rightarrow> nat \<Rightarrow> nat \<Rightarrow> nat" where
  "diff hm index1 index2 =
     (let mask = bucket_count hm - 1
      in ((bucket_count hm + (index1 + 2 ^ 64 - index2) mod 2 ^ 64) mod 2 ^ 64) AND mask)"

subsection \<open>Lookup and iteration\<close>

partial_function (option) find_loop :: "('k, 'v) hashmap \<Rightarrow> 'k \<Rightarrow> nat \<Rightarrow> nat option option" where
  "find_loop hm key index =
     (if bucket_key hm index = key then Some (Some index)
      else if bucket_key hm index = hm_blank hm then Some None
      else find_loop hm key (next_index hm index))"

definition HashMap_find :: "('k, 'v) hashmap \<Rightarrow> 'k \<Rightarrow> nat option option" where
  "HashMap_find hm key = find_loop hm key (key_to_index hm key)"

definition HashMap_at :: "('k, 'v) hashmap \<Rightarrow> 'k \<Rightarrow> 'v result option" where
  "HashMap_at hm key =
     (case HashMap_find hm key of
        None \<Rightarrow> None
      | Some None \<Rightarrow> Some (Inl OutOfRange)
      | Some (Some index) \<Rightarrow> Some (Inr (snd (hm_buckets hm ! index))))"

definition HashMap_count :: "('k, 'v) hashmap \<Rightarrow> 'k \<Rightarrow> nat option" where
  "HashMap_count hm key = map_option (\<lambda>it. if it = None then 0 else 1) (HashMap_find hm key)"

fun next_used :: "('k, 'v) hashmap \<Rightarrow> nat \<Rightarrow> nat \<Rightarrow> nat option" where
  "next_used hm i 0 = None"
| "next_used hm i (Suc m) = (if bucket_key hm i \<noteq> hm_blank hm then Some i else next_used hm (Suc i) m)"

definition HashMap_begin :: "('k, 'v) hashmap \<Rightarrow> nat option" where
  "HashMap_begin hm = (if hm_size hm = 0 then None else next_used hm 0 (bucket_count hm))"

definition HashMap_next :: "('k, 'v) hashmap \<Rightarrow> nat \<Rightarrow> nat option" where
  "HashMap_next hm index = next_used hm (Suc index) (bucket_count hm - Suc index)"

text \<open>The range \<^verbatim>\<open>for (const auto& item : hashmap)\<close>.\<close>

fun items_from :: "('k, 'v) hashmap \<Rightarrow> nat \<Rightarrow> nat option \<Rightarrow> ('k \<times> 'v) list" where
  "items_from hm 0 it = []"
| "items_from hm (Suc m) None = []"
| "items_from hm (Suc m) (Some index) = hm_buckets hm ! index # items_from hm m (HashMap_next hm index)"

definition HashMap_items :: "('k, 'v) hashmap \<Rightarrow> ('k \<times> 'v) list" where
  "HashMap_items hm = items_from hm (bucket_count hm) (HashMap_begin hm)"

text \<open>The reverse iterator scans the buckets downwards.\<close>

fun prev_used :: "('k, 'v) hashmap \<Rightarrow> nat \<Rightarrow> nat option" where
  "prev_used hm 0 = None"
| "prev_used hm (Suc i) = (if bucket_key hm i \<noteq> hm_blank hm then Some i else prev_used hm i)"

definition HashMap_rbegin :: "('k, 'v) hashmap \<Rightarrow> nat option" where
  "HashMap_rbegin hm = (if hm_size hm = 0 then None else prev_used hm (bucket_count hm))"

definition HashMap_rnext :: "('k, 'v) hashmap \<Rightarrow> nat \<Rightarrow> nat option" where
  "HashMap_rnext hm index = prev_used hm index"

fun ritems_from :: "('k, 'v) hashmap \<Rightarrow> nat \<Rightarrow> nat option \<Rightarrow> ('k \<times> 'v) list" where
  "ritems_from hm 0 it = []"
| "ritems_from hm (Suc m) None = []"
| "ritems_from hm (Suc m) (Some index) = hm_buckets hm ! index # ritems_from hm m (HashMap_rnext hm index)"

definition HashMap_ritems :: "('k, 'v) hashmap \<Rightarrow> ('k \<times> 'v) list" where
  "HashMap_ritems hm = ritems_from hm (bucket_count hm) (HashMap_rbegin hm)"

subsection \<open>Insertion and growth\<close>

text \<open>
  \<^verbatim>\<open>emplace_internal\<close> calls \<^verbatim>\<open>reserve\<close>, that calls \<^verbatim>\<open>rehash\<close>, whose new
  table is filled by \<^verbatim>\<open>insert\<close>, that is \<^verbatim>\<open>emplace_internal\<close> again. The operations are
  written over the insertion they call; \<open>emplace_internal\<close> closes the recursion with a bound on its
  nesting depth.
\<close>

type_synonym ('k, 'v) inserter =
  "('k, 'v) hashmap \<Rightarrow> 'k \<Rightarrow> 'v \<Rightarrow> (('k, 'v) hashmap \<times> nat \<times> bool) option"

fun insert_all :: "('k, 'v) inserter \<Rightarrow> ('k, 'v) hashmap \<Rightarrow> ('k \<times> 'v) list \<Rightarrow> ('k, 'v) hashmap option" where
  "insert_all ins hm [] = Some hm"
| "insert_all ins hm ((k, v) # items) =
     (case ins hm k v of None \<Rightarrow> None | Some (hm', index, inserted) \<Rightarrow> insert_all ins hm' items)"

definition copy_with :: "('k, 'v) inserter \<Rightarrow> ('k, 'v) hashmap \<Rightarrow> nat \<Rightarrow> ('k, 'v) hashmap option" where
  "copy_with ins hm capacity =
     insert_all ins (HashMap_init (hm_hash hm) (hm_blank hm) (hm_dflt hm) capacity) (HashMap_items hm)"

definition rehash_with :: "('k, 'v) inserter \<Rightarrow> ('k, 'v) hashmap \<Rightarrow> nat \<Rightarrow> ('k, 'v) hashmap option" where
  "rehash_with ins hm capacity = copy_with ins hm (max capacity (2 * hm_size hm))"

definition reserve_with :: "('k, 'v) inserter \<Rightarrow> ('k, 'v) hashmap \<Rightarrow> nat \<Rightarrow> ('k, 'v) hashmap option" where
  "reserve_with ins hm count =
     (if bucket_count hm < 2 * count then rehash_with ins hm (2 * count) else Some hm)"

partial_function (option) emplace_loop ::
  "('k, 'v) hashmap \<Rightarrow> 'k \<Rightarrow> 'v \<Rightarrow> nat \<Rightarrow> (('k, 'v) hashmap \<times> nat \<times> bool) option" where
  "emplace_loop hm key value index =
     (if bucket_key hm index = key then Some (hm, index, False)
      else if bucket_key hm index = hm_blank hm then
        Some (hm\<lparr> hm_buckets := (hm_buckets hm)[index := (key, value)], hm_size := hm_size hm + 1 \<rparr>, index, True)
      else emplace_loop hm key value (next_index hm index))"

primrec emplace_internal :: "nat \<Rightarrow> ('k, 'v) inserter" where
  "emplace_internal 0 = (\<lambda>hm key value. None)"
| "emplace_internal (Suc depth) = (\<lambda>hm key value.
     (case reserve_with (emplace_internal depth) hm (hm_size hm + 1) of
        None \<Rightarrow> None
      | Some hm' \<Rightarrow> emplace_loop hm' key value (key_to_index hm' key)))"

definition nesting :: nat where
  "nesting = 2"

definition HashMap_insert :: "('k, 'v) inserter" where
  "HashMap_insert = emplace_internal nesting"

definition HashMap_index :: "('k, 'v) hashmap \<Rightarrow> 'k \<Rightarrow> (('k, 'v) hashmap \<times> nat) option" where
  "HashMap_index hm key =
     map_option (\<lambda>(hm', index, inserted). (hm', index)) (HashMap_insert hm key (hm_dflt hm))"

definition HashMap_rehash :: "('k, 'v) hashmap \<Rightarrow> nat \<Rightarrow> ('k, 'v) hashmap option" where
  "HashMap_rehash hm capacity = rehash_with HashMap_insert hm capacity"

definition HashMap_reserve :: "('k, 'v) hashmap \<Rightarrow> nat \<Rightarrow> ('k, 'v) hashmap option" where
  "HashMap_reserve hm count = reserve_with HashMap_insert hm count"

definition HashMap_copy :: "('k, 'v) hashmap \<Rightarrow> ('k, 'v) hashmap option" where
  "HashMap_copy hm = copy_with HashMap_insert hm (bucket_count hm)"

definition HashMap_clear :: "('k, 'v) hashmap \<Rightarrow> ('k, 'v) hashmap" where
  "HashMap_clear hm =
     hm\<lparr> hm_size := 0, hm_buckets := map (\<lambda>(k, v). (hm_blank hm, v)) (hm_buckets hm) \<rparr>"

text \<open>Assignment from another map, and from itself (the source map is the cleared one).\<close>

definition HashMap_assign :: "('k, 'v) hashmap \<Rightarrow> ('k, 'v) hashmap \<Rightarrow> ('k, 'v) hashmap option" where
  "HashMap_assign hm other =
     (case HashMap_reserve (HashMap_clear hm) (hm_size other) of
        None \<Rightarrow> None
      | Some hm' \<Rightarrow> insert_all HashMap_insert hm' (HashMap_items other))"

definition HashMap_assign_self :: "('k, 'v) hashmap \<Rightarrow> ('k, 'v) hashmap option" where
  "HashMap_assign_self hm =
     (let this = HashMap_clear hm
      in case HashMap_reserve this (hm_size this) of
           None \<Rightarrow> None
         | Some hm' \<Rightarrow> insert_all HashMap_insert hm' (HashMap_items hm'))"

subsection \<open>Erasure\<close>

partial_function (option) erase_loop :: "('k, 'v) hashmap \<Rightarrow> nat \<Rightarrow> nat \<Rightarrow> ('k, 'v) hashmap option" where
  "erase_loop hm current index =
     (if bucket_key hm index = hm_blank hm then
        Some (hm\<lparr> hm_buckets := (hm_buckets hm)[current := (hm_blank hm, snd (hm_buckets hm ! current))],
                  hm_size := hm_size hm - 1 \<rparr>)
      else
        (let base = key_to_index hm (bucket_key hm index)
         in if diff hm current base < diff hm index base
            then let hm' = hm\<lparr> hm_buckets := (hm_buckets hm)[current := hm_buckets hm ! index] \<rparr>
                 in erase_loop hm' index (next_index hm index)
            else erase_loop hm current (next_index hm index)))"

definition erase_internal :: "('k, 'v) hashmap \<Rightarrow> nat \<Rightarrow> ('k, 'v) hashmap option" where
  "erase_internal hm index = erase_loop hm index (next_index hm index)"

definition HashMap_erase :: "('k, 'v) hashmap \<Rightarrow> 'k \<Rightarrow> (('k, 'v) hashmap \<times> nat) option" where
  "HashMap_erase hm key =
     (case HashMap_find hm key of
        None \<Rightarrow> None
      | Some None \<Rightarrow> Some (hm, 0)
      | Some (Some index) \<Rightarrow> map_option (\<lambda>hm'. (hm', 1)) (erase_internal hm index))"


subsection \<open>Cyclic distances\<close>

definition cyc :: "nat \<Rightarrow> nat \<Rightarrow> nat \<Rightarrow> nat" where
  "cyc n b x = (x + n - b) mod n"

lemma cyc_if: "b < n \<Longrightarrow> x < n \<Longrightarrow> cyc n b x = (if b \<le> x then x - b else x + n - b)"
  by (auto simp: cyc_def le_mod_geq)

lemma cyc_less: "b < n \<Longrightarrow> x < n \<Longrightarrow> cyc n b x < n"
  by (auto simp: cyc_def)

lemma cyc_self [simp]: "b < n \<Longrightarrow> cyc n b b = 0"
  by (simp add: cyc_if)

lemma cyc_zero: "b < n \<Longrightarrow> x < n \<Longrightarrow> cyc n b x = 0 \<longleftrightarrow> x = b"
  by (auto simp: cyc_if)

lemma cyc_inj: "b < n \<Longrightarrow> x < n \<Longrightarrow> y < n \<Longrightarrow> cyc n b x = cyc n b y \<longleftrightarrow> x = y"
  by (auto simp: cyc_if split: if_splits)

lemma mod_succ: "x < n \<Longrightarrow> Suc x mod n = (if Suc x = n then 0 else Suc x)"
  by auto

lemma cyc_Suc: "b < n \<Longrightarrow> x < n \<Longrightarrow> cyc n b (Suc x mod n) = (if Suc (cyc n b x) = n then 0 else Suc (cyc n b x))"
  by (auto simp: mod_succ cyc_if)

text \<open>Passing through \<open>c\<close> on the way from \<open>b\<close> splits the distance.\<close>

lemma cyc_through:
  "b < n \<Longrightarrow> c < n \<Longrightarrow> x < n \<Longrightarrow> cyc n b c \<le> cyc n b x \<Longrightarrow> cyc n b x = cyc n b c + cyc n c x"
  by (auto simp: cyc_if split: if_splits)

lemma cyc_before:
  "b < n \<Longrightarrow> c < n \<Longrightarrow> x < n \<Longrightarrow> y < n \<Longrightarrow> cyc n b c \<le> cyc n b x \<Longrightarrow> cyc n c y \<le> cyc n c x \<Longrightarrow>
   cyc n b y = cyc n b c + cyc n c y"
  by (auto simp: cyc_if split: if_splits)

lemma mod_succ_less: "x < n \<Longrightarrow> Suc x mod n < n"
  by simp

subsection \<open>The invariant\<close>

definition used :: "('k, 'v) hashmap \<Rightarrow> nat set" where
  "used hm = {i. i < bucket_count hm \<and> bucket_key hm i \<noteq> hm_blank hm}"

text \<open>No free bucket lies between the home position of a stored key and its bucket.\<close>

definition reachable_from_home :: "('k, 'v) hashmap \<Rightarrow> nat \<Rightarrow> bool" where
  "reachable_from_home hm i \<longleftrightarrow>
     (let n = bucket_count hm; h = key_to_index hm (bucket_key hm i)
      in \<forall>x < n. cyc n h x < cyc n h i \<longrightarrow> x \<in> used hm)"

definition table_ok :: "('k, 'v) hashmap \<Rightarrow> bool" where
  "table_ok hm \<longleftrightarrow> (\<exists>k < 63. bucket_count hm = 2 ^ k)"

definition hm_inv :: "('k, 'v) hashmap \<Rightarrow> bool" where
  "hm_inv hm \<longleftrightarrow> table_ok hm \<and> inj_on (bucket_key hm) (used hm) \<and> (\<forall>i \<in> used hm. reachable_from_home hm i) \<and>
     hm_size hm = card (used hm) \<and> 2 * hm_size hm \<le> bucket_count hm"

definition hm_content :: "('k, 'v) hashmap \<Rightarrow> ('k \<rightharpoonup> 'v)" where
  "hm_content hm = map_of (filter (\<lambda>(k, v). k \<noteq> hm_blank hm) (hm_buckets hm))"

lemma table_pos: "table_ok hm \<Longrightarrow> 0 < bucket_count hm"
  by (auto simp: table_ok_def)

lemma index_functions:
  assumes "table_ok hm"
  shows "key_to_index hm key < bucket_count hm"
    and "next_index hm i = Suc i mod bucket_count hm"
    and "i < bucket_count hm \<Longrightarrow> j < bucket_count hm \<Longrightarrow> diff hm i j = cyc (bucket_count hm) j i"
proof -
  obtain k where k: "k < 63" "bucket_count hm = 2 ^ k" using assms by (auto simp: table_ok_def)
  show "key_to_index hm key < bucket_count hm" "next_index hm i = Suc i mod bucket_count hm"
    by (simp_all add: key_to_index_def next_index_def k(2) nat_and_mask_pow2 [unfolded One_nat_def])
  show "diff hm i j = cyc (bucket_count hm) j i" if "i < bucket_count hm" "j < bucket_count hm"
  proof -
    let ?n = "2 ^ k :: nat"
    have n: "?n \<le> 2 ^ 62" using k(1) by (intro power_increasing) simp_all
    have "(i + 2 ^ 64 - j) mod 2 ^ 64 = (if j \<le> i then i - j else i + 2 ^ 64 - j)"
      using that n by (auto simp: k(2) le_mod_geq)
    then have "(?n + (i + 2 ^ 64 - j) mod 2 ^ 64) mod 2 ^ 64 = ?n + i - j"
      using that n by (auto simp: k(2) le_mod_geq)
    then show ?thesis by (simp add: diff_def k(2) nat_and_mask_pow2 [unfolded One_nat_def] cyc_def add.commute)
  qed
qed


lemma used_finite [simp]: "finite (used hm)"
  by (simp add: used_def)

lemma used_less: "i \<in> used hm \<Longrightarrow> i < bucket_count hm"
  by (simp add: used_def)

lemma hm_invD:
  assumes "hm_inv hm"
  shows "table_ok hm" "inj_on (bucket_key hm) (used hm)" "i \<in> used hm \<Longrightarrow> reachable_from_home hm i"
    "hm_size hm = card (used hm)" "2 * hm_size hm \<le> bucket_count hm"
  using assms by (auto simp: hm_inv_def)

text \<open>At least one bucket of a well-formed table is free.\<close>

lemma free_bucket:
  assumes "hm_inv hm"
  obtains z where "z < bucket_count hm" "z \<notin> used hm"
proof -
  have "card (used hm) < bucket_count hm" using hm_invD(4,5) [OF assms] table_pos [OF hm_invD(1) [OF assms]] by linarith
  moreover have "used hm = {..<bucket_count hm}" if "\<forall>z < bucket_count hm. z \<in> used hm"
    using that by (auto simp: used_def)
  ultimately show ?thesis using that by fastforce
qed

lemma map_of_filter_nth:
  assumes "\<forall>i < length xs. \<forall>j < length xs. P (fst (xs ! i)) \<longrightarrow> fst (xs ! i) = fst (xs ! j) \<longrightarrow> i = j"
  shows "map_of (filter (\<lambda>(k, v). P k) xs) k = Some v \<longleftrightarrow> (\<exists>i < length xs. P (fst (xs ! i)) \<and> xs ! i = (k, v))"
  using assms
proof (induction xs)
  case (Cons x xs)
  have IH: "map_of (filter (\<lambda>(k, v). P k) xs) k = Some v \<longleftrightarrow> (\<exists>i < length xs. P (fst (xs ! i)) \<and> xs ! i = (k, v))"
  proof (rule Cons.IH, intro allI impI)
    fix i j assume "i < length xs" "j < length xs" "P (fst (xs ! i))" "fst (xs ! i) = fst (xs ! j)"
    then show "i = j" using Cons.prems [rule_format, of "Suc i" "Suc j"] by simp
  qed
  have split: "(\<exists>i < length (x # xs). P (fst ((x # xs) ! i)) \<and> (x # xs) ! i = (k, v)) \<longleftrightarrow>
      P (fst x) \<and> x = (k, v) \<or> (\<exists>i < length xs. P (fst (xs ! i)) \<and> xs ! i = (k, v))"
    by (auto simp: less_Suc_eq_0_disj)
  show ?case
  proof (cases "P (fst x) \<and> fst x = k")
    case True
    have "\<not> (\<exists>i < length xs. P (fst (xs ! i)) \<and> xs ! i = (k, v))"
    proof
      assume "\<exists>i < length xs. P (fst (xs ! i)) \<and> xs ! i = (k, v)"
      then obtain i where "i < length xs" "xs ! i = (k, v)" by blast
      then show False using Cons.prems [rule_format, of 0 "Suc i"] True by auto
    qed
    with True show ?thesis unfolding split by (cases x) auto
  next
    case False
    then show ?thesis unfolding split IH [symmetric] by (cases x) auto
  qed
qed simp

lemma hm_content_iff:
  assumes "inj_on (bucket_key hm) (used hm)"
  shows "hm_content hm k = Some v \<longleftrightarrow> (\<exists>i \<in> used hm. hm_buckets hm ! i = (k, v))"
proof -
  have "\<forall>i < length (hm_buckets hm). \<forall>j < length (hm_buckets hm). fst (hm_buckets hm ! i) \<noteq> hm_blank hm \<longrightarrow>
      fst (hm_buckets hm ! i) = fst (hm_buckets hm ! j) \<longrightarrow> i = j"
    using assms by (auto simp: inj_on_def used_def bucket_key_def bucket_count_def)
  from map_of_filter_nth [OF this, of k v] show ?thesis
    by (auto simp: hm_content_def used_def bucket_key_def bucket_count_def)
qed

lemma hm_content_dom:
  assumes "inj_on (bucket_key hm) (used hm)"
  shows "dom (hm_content hm) = bucket_key hm ` used hm"
proof -
  have "k \<in> dom (hm_content hm) \<longleftrightarrow> k \<in> bucket_key hm ` used hm" for k
  proof -
    have "k \<in> dom (hm_content hm) \<longleftrightarrow> (\<exists>v. \<exists>i \<in> used hm. hm_buckets hm ! i = (k, v))"
      using hm_content_iff [OF assms, of k] by (auto simp: dom_def)
    also have "\<dots> \<longleftrightarrow> (\<exists>i \<in> used hm. fst (hm_buckets hm ! i) = k)" by (metis fst_conv prod.collapse)
    finally show ?thesis by (auto simp: bucket_key_def)
  qed
  then show ?thesis by blast
qed

text \<open>Two tables with the same keyed buckets, up to their positions, have the same content.\<close>

lemma hm_content_eqI:
  assumes "inj_on (bucket_key hm) (used hm)" "\<And>k v. m k = Some v \<longleftrightarrow> (\<exists>i \<in> used hm. hm_buckets hm ! i = (k, v))"
  shows "hm_content hm = m"
proof
  fix k
  show "hm_content hm k = m k"
    using hm_content_iff [OF assms(1), of k] assms(2) [of k] by (cases "hm_content hm k"; cases "m k") auto
qed

subsection \<open>Probing\<close>

text \<open>
  A probe that starts at the home position of \<open>key\<close> and has passed only used buckets with other
  keys stops at the bucket of the key, or at the first free bucket when the key is absent.
\<close>

definition passed :: "('k, 'v) hashmap \<Rightarrow> 'k \<Rightarrow> nat \<Rightarrow> bool" where
  "passed hm key index \<longleftrightarrow>
     (let n = bucket_count hm; h = key_to_index hm key
      in index < n \<and> (\<forall>x < n. cyc n h x < cyc n h index \<longrightarrow> x \<in> used hm \<and> bucket_key hm x \<noteq> key))"

lemma passed_home: "table_ok hm \<Longrightarrow> passed hm key (key_to_index hm key)"
  by (simp add: passed_def Let_def index_functions)

lemma passed_next:
  assumes ok: "table_ok hm" and p: "passed hm key index" and u: "index \<in> used hm" "bucket_key hm index \<noteq> key"
    and z: "z < bucket_count hm" "z \<notin> used hm"
  defines "n \<equiv> bucket_count hm" and "h \<equiv> key_to_index hm key"
  shows "passed hm key (next_index hm index)" and "cyc n h (next_index hm index) = Suc (cyc n h index)"
    and "cyc n h (next_index hm index) \<le> cyc n h z"
proof -
  have h: "h < n" and i: "index < n" using index_functions(1) [OF ok] p by (simp_all add: h_def n_def passed_def Let_def)
  have "cyc n h index < cyc n h z"
  proof -
    have "\<not> cyc n h z < cyc n h index" using p z by (auto simp: passed_def Let_def n_def h_def)
    moreover have "cyc n h z \<noteq> cyc n h index" using cyc_inj [OF h _ i, of z] z u by (auto simp: n_def)
    ultimately show ?thesis by simp
  qed
  moreover have "cyc n h z < n" using cyc_less [OF h, of z] z by (simp add: n_def)
  moreover have nx: "next_index hm index = Suc index mod n" using index_functions(2) [OF ok] by (simp add: n_def)
  ultimately show step: "cyc n h (next_index hm index) = Suc (cyc n h index)"
    and "cyc n h (next_index hm index) \<le> cyc n h z"
    using cyc_Suc [OF h i] by simp_all
  show "passed hm key (next_index hm index)"
    unfolding passed_def Let_def n_def [symmetric] h_def [symmetric] step
  proof (intro conjI allI impI)
    show "next_index hm index < n" using i by (simp add: nx)
    fix x assume x: "x < n" "cyc n h x < Suc (cyc n h index)"
    then consider "cyc n h x < cyc n h index" | "x = index" using cyc_inj [OF h x(1) i] by linarith
    then show "x \<in> used hm" "bucket_key hm x \<noteq> key"
      using p u x(1) by (cases; auto simp: passed_def Let_def n_def h_def)+
  qed
qed

lemma passed_free:
  assumes inv: "\<forall>i \<in> used hm. reachable_from_home hm i" and p: "passed hm key index" and f: "index \<notin> used hm"
    and ok: "table_ok hm"
  shows "key \<notin> bucket_key hm ` used hm"
proof
  assume "key \<in> bucket_key hm ` used hm"
  then obtain i where i: "i \<in> used hm" "bucket_key hm i = key" by blast
  let ?n = "bucket_count hm" and ?h = "key_to_index hm key"
  have h: "?h < ?n" using index_functions(1) [OF ok] .
  have idx: "index < ?n" using p by (simp add: passed_def Let_def)
  have "\<not> cyc ?n ?h i < cyc ?n ?h index" using p i used_less [OF i(1)] by (auto simp: passed_def Let_def)
  moreover have "\<not> cyc ?n ?h index < cyc ?n ?h i"
    using inv [rule_format, OF i(1)] i(2) f idx by (auto simp: reachable_from_home_def Let_def)
  ultimately have "i = index" using cyc_inj [OF h used_less [OF i(1)] idx] by simp
  then show False using f i(1) by simp
qed

lemma find_loop_result:
  assumes inv: "hm_inv hm" and key: "key \<noteq> hm_blank hm" and p: "passed hm key index"
  shows "\<exists>r. find_loop hm key index = Some r \<and>
     (case r of None \<Rightarrow> key \<notin> bucket_key hm ` used hm | Some i \<Rightarrow> i \<in> used hm \<and> bucket_key hm i = key)"
proof -
  obtain z where z: "z < bucket_count hm" "z \<notin> used hm" using free_bucket [OF inv] .
  note ok = hm_invD(1) [OF inv]
  let ?n = "bucket_count hm" and ?h = "key_to_index hm key"
  show ?thesis
    using p
  proof (induction "cyc ?n ?h z - cyc ?n ?h index" arbitrary: index rule: less_induct)
    case less
    have i: "index < ?n" using less.prems by (simp add: passed_def Let_def)
    consider (found) "bucket_key hm index = key" | (free) "bucket_key hm index \<noteq> key" "bucket_key hm index = hm_blank hm"
      | (on) "bucket_key hm index \<noteq> key" "bucket_key hm index \<noteq> hm_blank hm" by blast
    then show ?case
    proof cases
      case found
      then show ?thesis using i key by (subst find_loop.simps) (auto simp: used_def)
    next
      case free
      then have "index \<notin> used hm" by (simp add: used_def)
      then have "key \<notin> bucket_key hm ` used hm" using passed_free [OF _ less.prems _ ok] inv by (simp add: hm_inv_def)
      with free show ?thesis by (subst find_loop.simps) simp
    next
      case on
      then have u: "index \<in> used hm" using i by (simp add: used_def)
      note nx = passed_next [OF ok less.prems u on(1) z]
      have "\<exists>r. find_loop hm key (next_index hm index) = Some r \<and>
          (case r of None \<Rightarrow> key \<notin> bucket_key hm ` used hm | Some i \<Rightarrow> i \<in> used hm \<and> bucket_key hm i = key)"
        by (rule less.hyps [OF _ nx(1)]) (use nx(2,3) in linarith)
      with on show ?thesis by (subst find_loop.simps) simp
    qed
  qed
qed


lemma HashMap_find_result:
  assumes inv: "hm_inv hm" and key: "key \<noteq> hm_blank hm"
  shows "\<exists>r. HashMap_find hm key = Some r \<and>
     (case r of None \<Rightarrow> hm_content hm key = None
      | Some i \<Rightarrow> i \<in> used hm \<and> bucket_key hm i = key \<and> hm_content hm key = Some (snd (hm_buckets hm ! i)))"
proof -
  note inj = hm_invD(2) [OF inv]
  obtain r where r: "HashMap_find hm key = Some r"
    "case r of None \<Rightarrow> key \<notin> bucket_key hm ` used hm | Some i \<Rightarrow> i \<in> used hm \<and> bucket_key hm i = key"
    using find_loop_result [OF inv key passed_home [OF hm_invD(1) [OF inv]]] by (auto simp: HashMap_find_def)
  show ?thesis
  proof (cases r)
    case None
    then have "key \<notin> dom (hm_content hm)" using r hm_content_dom [OF inj] by simp
    then show ?thesis using r None by auto
  next
    case (Some i)
    then have "i \<in> used hm" "hm_buckets hm ! i = (key, snd (hm_buckets hm ! i))"
      using r by (auto simp: bucket_key_def)
    then show ?thesis using r Some hm_content_iff [OF inj] by auto
  qed
qed

subsection \<open>Storing into a free bucket\<close>

definition store :: "('k, 'v) hashmap \<Rightarrow> nat \<Rightarrow> 'k \<Rightarrow> 'v \<Rightarrow> ('k, 'v) hashmap" where
  "store hm i key v = hm\<lparr> hm_buckets := (hm_buckets hm)[i := (key, v)], hm_size := hm_size hm + 1 \<rparr>"

lemma store_simps [simp]:
  "bucket_count (store hm i key v) = bucket_count hm" "hm_blank (store hm i key v) = hm_blank hm"
  "hm_hash (store hm i key v) = hm_hash hm" "hm_dflt (store hm i key v) = hm_dflt hm"
  "hm_size (store hm i key v) = Suc (hm_size hm)"
  "key_to_index (store hm i key v) = key_to_index hm"
  "table_ok (store hm i key v) = table_ok hm"
  by (simp_all add: store_def bucket_count_def key_to_index_def table_ok_def fun_eq_iff)

lemma store_key: "i < bucket_count hm \<Longrightarrow> bucket_key (store hm i key v) x = (if x = i then key else bucket_key hm x)"
  by (simp add: store_def bucket_key_def bucket_count_def)

lemma store_bucket: "i < bucket_count hm \<Longrightarrow> hm_buckets (store hm i key v) ! x = (if x = i then (key, v) else hm_buckets hm ! x)"
  by (simp add: store_def bucket_count_def)

lemma store_used:
  "i < bucket_count hm \<Longrightarrow> key \<noteq> hm_blank hm \<Longrightarrow> used (store hm i key v) = insert i (used hm)"
  by (auto simp: used_def store_key)

lemma store_inv:
  assumes inv: "hm_inv hm" and key: "key \<noteq> hm_blank hm" "key \<notin> bucket_key hm ` used hm"
    and p: "passed hm key i" and free: "i \<notin> used hm" and room: "2 * (hm_size hm + 1) \<le> bucket_count hm"
  shows "hm_inv (store hm i key v)" and "hm_content (store hm i key v) = (hm_content hm)(key \<mapsto> v)"
proof -
  let ?s = "store hm i key v"
  have i: "i < bucket_count hm" using p by (simp add: passed_def Let_def)
  note used = store_used [OF i key(1), of v]
  have inj: "inj_on (bucket_key ?s) (used ?s)"
    using hm_invD(2) [OF inv] key(2) free by (auto simp: used inj_on_def store_key [OF i])
  have reach: "reachable_from_home ?s j" if "j \<in> used ?s" for j
  proof (cases "j = i")
    case True
    then show ?thesis using p by (auto simp: reachable_from_home_def Let_def used store_key [OF i] passed_def)
  next
    case False
    then have "reachable_from_home hm j" using that hm_invD(3) [OF inv] by (simp add: used)
    then show ?thesis using False by (auto simp: reachable_from_home_def Let_def used store_key [OF i])
  qed
  show "hm_inv ?s"
    using hm_invD(1,4) [OF inv] inj reach room free by (simp add: hm_inv_def used)
  show "hm_content ?s = (hm_content hm)(key \<mapsto> v)"
  proof (rule hm_content_eqI [OF inj])
    fix k w
    have "(\<exists>j \<in> used ?s. hm_buckets ?s ! j = (k, w)) \<longleftrightarrow> (k = key \<and> w = v) \<or> (\<exists>j \<in> used hm. hm_buckets hm ! j = (k, w))"
      using free by (auto simp: used store_bucket [OF i])
    also have "\<dots> \<longleftrightarrow> ((hm_content hm)(key \<mapsto> v)) k = Some w"
    proof (cases "k = key")
      case True
      then have "\<not> (\<exists>j \<in> used hm. hm_buckets hm ! j = (k, w))" using key(2) by (force simp: bucket_key_def)
      with True show ?thesis by auto
    qed (simp add: hm_content_iff [OF hm_invD(2) [OF inv]])
    finally show "((hm_content hm)(key \<mapsto> v)) k = Some w \<longleftrightarrow> (\<exists>j \<in> used ?s. hm_buckets ?s ! j = (k, w))" by blast
  qed
qed

lemma emplace_loop_result:
  assumes inv: "hm_inv hm" and key: "key \<noteq> hm_blank hm" and p: "passed hm key index"
  shows "\<exists>i. emplace_loop hm key v index = (if key \<in> bucket_key hm ` used hm then Some (hm, i, False) else Some (store hm i key v, i, True)) \<and>
    (if key \<in> bucket_key hm ` used hm then i \<in> used hm \<and> bucket_key hm i = key else passed hm key i \<and> i \<notin> used hm)"
proof -
  obtain z where z: "z < bucket_count hm" "z \<notin> used hm" using free_bucket [OF inv] .
  note ok = hm_invD(1) [OF inv]
  let ?n = "bucket_count hm" and ?h = "key_to_index hm key"
  show ?thesis
    using p
  proof (induction "cyc ?n ?h z - cyc ?n ?h index" arbitrary: index rule: less_induct)
    case less
    have i: "index < ?n" using less.prems by (simp add: passed_def Let_def)
    consider (found) "bucket_key hm index = key" | (free) "bucket_key hm index \<noteq> key" "bucket_key hm index = hm_blank hm"
      | (on) "bucket_key hm index \<noteq> key" "bucket_key hm index \<noteq> hm_blank hm" by blast
    then show ?case
    proof cases
      case found
      then have "index \<in> used hm" using i key by (simp add: used_def)
      with found show ?thesis by (intro exI [of _ index]) (subst emplace_loop.simps, auto)
    next
      case free
      then have u: "index \<notin> used hm" by (simp add: used_def)
      then have "key \<notin> bucket_key hm ` used hm" using passed_free [OF _ less.prems _ ok] inv by (simp add: hm_inv_def)
      with free less.prems u show ?thesis
        by (intro exI [of _ index]) (subst emplace_loop.simps, simp add: store_def)
    next
      case on
      then have u: "index \<in> used hm" using i by (simp add: used_def)
      note nx = passed_next [OF ok less.prems u on(1) z]
      have "cyc ?n ?h z - cyc ?n ?h (next_index hm index) < cyc ?n ?h z - cyc ?n ?h index" using nx(2,3) by linarith
      from less.hyps [OF this nx(1)] on show ?thesis by (subst emplace_loop.simps) simp
    qed
  qed
qed

text \<open>Insertion without growth, at any nesting depth.\<close>

lemma emplace_no_growth:
  assumes inv: "hm_inv hm" and key: "key \<noteq> hm_blank hm" and room: "2 * (hm_size hm + 1) \<le> bucket_count hm"
  shows "\<exists>hm' i. emplace_internal (Suc depth) hm key v = Some (hm', i, hm_content hm key = None) \<and> hm_inv hm' \<and>
     hm_blank hm' = hm_blank hm \<and> hm_hash hm' = hm_hash hm \<and> hm_dflt hm' = hm_dflt hm \<and>
     bucket_count hm' = bucket_count hm \<and> hm_content hm' = (if hm_content hm key = None then (hm_content hm)(key \<mapsto> v) else hm_content hm) \<and>
     hm_size hm' = (if hm_content hm key = None then Suc (hm_size hm) else hm_size hm)"
proof -
  have mem: "hm_content hm key = None \<longleftrightarrow> key \<notin> bucket_key hm ` used hm"
    using hm_content_dom [OF hm_invD(2) [OF inv]] by auto
  obtain i where i: "emplace_loop hm key v (key_to_index hm key) = (if key \<in> bucket_key hm ` used hm then Some (hm, i, False) else Some (store hm i key v, i, True))"
    "if key \<in> bucket_key hm ` used hm then i \<in> used hm \<and> bucket_key hm i = key else passed hm key i \<and> i \<notin> used hm"
    using emplace_loop_result [OF inv key passed_home [OF hm_invD(1) [OF inv]]] by blast
  have e: "emplace_internal (Suc depth) hm key v = emplace_loop hm key v (key_to_index hm key)"
    using room by (simp add: reserve_with_def)
  show ?thesis
  proof (cases "hm_content hm key = None")
    case True
    then show ?thesis unfolding e using store_inv [OF inv key _ _ _ room, of i v] i mem by simp
  next
    case False
    then show ?thesis unfolding e using i mem inv by auto
  qed
qed


subsection \<open>Iteration and copying\<close>

lemma filter_drop_nth:
  "i < length xs \<Longrightarrow> filter P (drop i xs) = (if P (xs ! i) then xs ! i # filter P (drop (Suc i) xs) else filter P (drop (Suc i) xs))"
  by (simp add: Cons_nth_drop_Suc [symmetric])

lemma items_from_filter:
  assumes "i + m = bucket_count hm" "m \<le> fuel"
  shows "items_from hm fuel (next_used hm i m) = filter (\<lambda>(k, v). k \<noteq> hm_blank hm) (drop i (hm_buckets hm))"
  using assms
proof (induction m arbitrary: i fuel)
  case 0
  then show ?case by (cases fuel) (simp_all add: bucket_count_def)
next
  case (Suc m)
  then obtain f where f: "fuel = Suc f" "m \<le> f" by (cases fuel) auto
  have i: "i < length (hm_buckets hm)" using Suc.prems by (simp add: bucket_count_def)
  have rest: "bucket_count hm - Suc i = m" using Suc.prems by simp
  have b: "(case hm_buckets hm ! i of (k, v) \<Rightarrow> k \<noteq> hm_blank hm) \<longleftrightarrow> bucket_key hm i \<noteq> hm_blank hm"
    by (simp add: bucket_key_def split_def)
  show ?case
  proof (cases "bucket_key hm i = hm_blank hm")
    case True
    then show ?thesis using Suc.IH [of "Suc i" fuel] Suc.prems filter_drop_nth [OF i] b by simp
  next
    case False
    then show ?thesis using Suc.IH [of "Suc i" f] Suc.prems f filter_drop_nth [OF i] b
      by (simp add: HashMap_next_def rest)
  qed
qed

lemma HashMap_items_filter:
  assumes "hm_inv hm"
  shows "HashMap_items hm = filter (\<lambda>(k, v). k \<noteq> hm_blank hm) (hm_buckets hm)"
proof (cases "hm_size hm = 0")
  case True
  then have "used hm = {}" using hm_invD(4) [OF assms] by simp
  then have "\<forall>i < length (hm_buckets hm). fst (hm_buckets hm ! i) = hm_blank hm"
    by (auto simp: used_def bucket_count_def bucket_key_def)
  then have "filter (\<lambda>(k, v). k \<noteq> hm_blank hm) (hm_buckets hm) = []"
    by (auto simp: filter_empty_conv in_set_conv_nth) (metis fst_conv)
  moreover have "HashMap_items hm = []"
    using True by (cases "bucket_count hm") (simp_all add: HashMap_items_def HashMap_begin_def)
  ultimately show ?thesis by simp
next
  case False
  then show ?thesis using items_from_filter [of 0 "bucket_count hm" hm "bucket_count hm"]
    by (simp add: HashMap_items_def HashMap_begin_def)
qed

lemma card_used: "card (used hm) = length (filter (\<lambda>(k, v). k \<noteq> hm_blank hm) (hm_buckets hm))"
  by (simp add: used_def length_filter_conv_card bucket_count_def bucket_key_def split_def conj_commute)

lemma HashMap_items_distinct:
  assumes inv: "hm_inv hm"
  shows "distinct (map fst (HashMap_items hm))"
proof -
  let ?xs = "filter (\<lambda>(k, v). k \<noteq> hm_blank hm) (hm_buckets hm)"
  have "set (map fst ?xs) = bucket_key hm ` used hm"
    by (auto simp: used_def bucket_count_def bucket_key_def in_set_conv_nth image_iff split_def) (metis fst_conv)
  then have "card (set (map fst ?xs)) = card (used hm)" using hm_invD(2) [OF inv] by (simp only: card_image)
  then have "card (set (map fst ?xs)) = length (map fst ?xs)" by (simp add: card_used)
  then show ?thesis unfolding HashMap_items_filter [OF inv] by (rule card_distinct)
qed

lemma filter_take_Suc:
  "i < length xs \<Longrightarrow> filter P (take (Suc i) xs) = filter P (take i xs) @ (if P (xs ! i) then [xs ! i] else [])"
  by (simp add: take_Suc_conv_app_nth)

lemma ritems_from_filter:
  assumes "i \<le> bucket_count hm" "i \<le> fuel"
  shows "ritems_from hm fuel (prev_used hm i) = rev (filter (\<lambda>(k, v). k \<noteq> hm_blank hm) (take i (hm_buckets hm)))"
  using assms
proof (induction i arbitrary: fuel)
  case 0
  then show ?case by (cases fuel) simp_all
next
  case (Suc i)
  then obtain f where f: "fuel = Suc f" "i \<le> f" by (cases fuel) auto
  have i: "i < length (hm_buckets hm)" using Suc.prems by (simp add: bucket_count_def)
  have b: "(case hm_buckets hm ! i of (k, v) \<Rightarrow> k \<noteq> hm_blank hm) \<longleftrightarrow> bucket_key hm i \<noteq> hm_blank hm"
    by (simp add: bucket_key_def split_def)
  show ?case
    using Suc.IH [of fuel] Suc.IH [of f] Suc.prems f filter_take_Suc [OF i, of "\<lambda>(k, v). k \<noteq> hm_blank hm"] b
    by (simp add: HashMap_rnext_def)
qed

lemma HashMap_ritems_rev:
  assumes "hm_inv hm"
  shows "HashMap_ritems hm = rev (HashMap_items hm)"
proof (cases "hm_size hm = 0")
  case True
  then have "HashMap_items hm = []" "HashMap_ritems hm = []"
    by (cases "bucket_count hm"; simp add: HashMap_items_def HashMap_ritems_def HashMap_begin_def HashMap_rbegin_def)+
  then show ?thesis by simp
next
  case False
  have "take (bucket_count hm) (hm_buckets hm) = hm_buckets hm" by (simp add: bucket_count_def)
  then show ?thesis using ritems_from_filter [of "bucket_count hm" hm "bucket_count hm"] False
    by (simp add: HashMap_ritems_def HashMap_rbegin_def HashMap_items_filter [OF assms])
qed

text \<open>Filling a table that is large enough from the start.\<close>

definition same_params :: "('k, 'v) hashmap \<Rightarrow> ('k, 'v) hashmap \<Rightarrow> bool" where
  "same_params hm hm' \<longleftrightarrow> hm_blank hm' = hm_blank hm \<and> hm_hash hm' = hm_hash hm \<and> hm_dflt hm' = hm_dflt hm"

lemma insert_all_room:
  assumes "hm_inv hm" "\<forall>k \<in> fst ` set items. k \<noteq> hm_blank hm \<and> hm_content hm k = None" "distinct (map fst items)"
    "2 * (hm_size hm + length items) \<le> bucket_count hm"
  shows "\<exists>hm'. insert_all (emplace_internal (Suc depth)) hm items = Some hm' \<and> hm_inv hm' \<and> same_params hm hm' \<and>
     bucket_count hm' = bucket_count hm \<and> hm_content hm' = hm_content hm ++ map_of items \<and>
     hm_size hm' = hm_size hm + length items"
  using assms
proof (induction items arbitrary: hm)
  case (Cons kv items)
  obtain k v where kv: "kv = (k, v)" by (cases kv)
  obtain hm1 i where hm1: "emplace_internal (Suc depth) hm k v = Some (hm1, i, True)" "hm_inv hm1" "same_params hm hm1"
      "bucket_count hm1 = bucket_count hm" "hm_content hm1 = (hm_content hm)(k \<mapsto> v)" "hm_size hm1 = Suc (hm_size hm)"
    using emplace_no_growth [of hm k depth v] Cons.prems kv by (auto simp: same_params_def)
  have "\<forall>k' \<in> fst ` set items. k' \<noteq> hm_blank hm1 \<and> hm_content hm1 k' = None"
    using Cons.prems hm1(3,5) kv by (auto simp: same_params_def)
  then obtain hm2 where hm2: "insert_all (emplace_internal (Suc depth)) hm1 items = Some hm2" "hm_inv hm2" "same_params hm1 hm2"
      "bucket_count hm2 = bucket_count hm1" "hm_content hm2 = hm_content hm1 ++ map_of items" "hm_size hm2 = hm_size hm1 + length items"
    using Cons.IH [OF hm1(2)] Cons.prems hm1(4,6) by auto
  have content: "hm_content hm2 = hm_content hm ++ map_of (kv # items)"
  proof -
    have "k \<notin> dom (map_of items)" using Cons.prems(3) kv by (simp add: dom_map_of_conv_image_fst)
    then show ?thesis using hm2(5) hm1(5) kv by (simp add: map_add_upd_left)
  qed
  show ?case
  proof (intro exI [of _ hm2] conjI)
    show "insert_all (emplace_internal (Suc depth)) hm (kv # items) = Some hm2"
      using hm1(1) hm2(1) by (simp add: kv del: emplace_internal.simps)
    show "same_params hm hm2" using hm1(3) hm2(3) by (simp add: same_params_def)
  qed (rule hm2(2), simp add: hm1(4) hm2(4), rule content, simp add: hm1(6) hm2(6))
qed (simp add: same_params_def)

lemma grow_capacity_pow2:
  "\<exists>k. grow_capacity (2 ^ j) capacity = 2 ^ k \<and> capacity \<le> 2 ^ k \<and> (\<forall>b. 2 ^ j \<le> (2 :: nat) ^ b \<and> capacity \<le> 2 ^ b \<longrightarrow> k \<le> b)"
proof (induction "capacity - 2 ^ j" arbitrary: j rule: less_induct)
  case less
  show ?case
  proof (cases "2 ^ j < capacity")
    case True
    then have "capacity - 2 ^ Suc j < capacity - 2 ^ j" by (simp add: diff_less_mono2)
    from less [OF this] obtain k where k: "grow_capacity (2 ^ Suc j) capacity = 2 ^ k" "capacity \<le> 2 ^ k"
      "\<forall>b. 2 ^ Suc j \<le> (2 :: nat) ^ b \<and> capacity \<le> 2 ^ b \<longrightarrow> k \<le> b" by blast
    have "grow_capacity (2 ^ j) capacity = 2 ^ k" using True k(1) by (subst grow_capacity.simps) simp
    moreover have "k \<le> b" if "capacity \<le> 2 ^ b" for b
    proof -
      have "(2 :: nat) ^ j < 2 ^ b" using True that by (rule less_le_trans)
      then have "Suc j \<le> b" by (simp add: Suc_le_eq)
      then have "(2 :: nat) ^ Suc j \<le> 2 ^ b" by (intro power_increasing) simp_all
      then show ?thesis using k(3) that by blast
    qed
    ultimately show ?thesis using k(2) by blast
  next
    case False
    then show ?thesis by (subst grow_capacity.simps) auto
  qed
qed

lemma HashMap_init_inv:
  assumes "capacity \<le> 2 ^ 62"
  shows "hm_inv (HashMap_init hash blank dflt capacity)" and "hm_content (HashMap_init hash blank dflt capacity) = Map.empty"
    and "capacity \<le> bucket_count (HashMap_init hash blank dflt capacity)"
proof -
  let ?hm = "HashMap_init hash blank dflt capacity"
  obtain k where k: "grow_capacity 1 capacity = 2 ^ k" "capacity \<le> 2 ^ k" "\<forall>b. 1 \<le> (2 :: nat) ^ b \<and> capacity \<le> 2 ^ b \<longrightarrow> k \<le> b"
    using grow_capacity_pow2 [of 0 capacity] by auto
  have "k \<le> 62" using k(3) assms by simp
  moreover have n: "bucket_count ?hm = 2 ^ k" by (simp add: bucket_count_def HashMap_init_def k(1) [simplified])
  ultimately have ok: "table_ok ?hm" by (auto simp: table_ok_def intro!: exI [of _ k])
  have "used ?hm = {}" by (auto simp: used_def bucket_count_def bucket_key_def HashMap_init_def)
  then show "hm_inv ?hm" using ok by (simp add: hm_inv_def) (simp add: HashMap_init_def)
  show "hm_content ?hm = Map.empty" by (simp add: hm_content_def HashMap_init_def)
  show "capacity \<le> bucket_count ?hm" using n k(2) by simp
qed

text \<open>A copy with room for its items has the same content.\<close>

lemma copy_with_ok:
  assumes inv: "hm_inv hm" and c: "2 * hm_size hm \<le> capacity" "capacity \<le> 2 ^ 62"
  shows "\<exists>hm'. copy_with (emplace_internal (Suc depth)) hm capacity = Some hm' \<and> hm_inv hm' \<and> same_params hm hm' \<and>
     capacity \<le> bucket_count hm' \<and> hm_content hm' = hm_content hm \<and> hm_size hm' = hm_size hm"
proof -
  let ?new = "HashMap_init (hm_hash hm) (hm_blank hm) (hm_dflt hm) capacity"
  have items: "HashMap_items hm = filter (\<lambda>(k, v). k \<noteq> hm_blank hm) (hm_buckets hm)" by (rule HashMap_items_filter [OF inv])
  have len: "length (HashMap_items hm) = hm_size hm" using hm_invD(4) [OF inv] by (simp add: items card_used)
  have blank: "hm_blank ?new = hm_blank hm" by (simp add: HashMap_init_def)
  have keys: "\<forall>k \<in> fst ` set (HashMap_items hm). k \<noteq> hm_blank ?new \<and> hm_content ?new k = None"
    by (auto simp: items blank HashMap_init_inv(2) [OF c(2)])
  have room: "2 * (hm_size ?new + length (HashMap_items hm)) \<le> bucket_count ?new"
    using c(1) HashMap_init_inv(3) [OF c(2), of "hm_hash hm" "hm_blank hm" "hm_dflt hm"]
    by (simp add: len) (simp add: HashMap_init_def)
  obtain hm' where hm': "insert_all (emplace_internal (Suc depth)) ?new (HashMap_items hm) = Some hm'" "hm_inv hm'"
      "same_params ?new hm'" "bucket_count hm' = bucket_count ?new"
      "hm_content hm' = hm_content ?new ++ map_of (HashMap_items hm)" "hm_size hm' = hm_size ?new + length (HashMap_items hm)"
    using insert_all_room [OF HashMap_init_inv(1) [OF c(2)] keys HashMap_items_distinct [OF inv] room] by blast
  have "hm_content hm' = hm_content hm"
    using hm'(5) by (simp add: HashMap_init_inv(2) [OF c(2)] items hm_content_def [of hm])
  moreover have "same_params hm hm'" using hm'(3) by (simp add: same_params_def HashMap_init_def)
  moreover have "hm_size hm' = hm_size hm" using hm'(6) by (simp add: len HashMap_init_def)
  moreover have "capacity \<le> bucket_count hm'" using hm'(4) HashMap_init_inv(3) [OF c(2)] by simp
  ultimately show ?thesis using hm'(1,2) by (simp add: copy_with_def)
qed


lemma reserve_with_ok:
  assumes inv: "hm_inv hm" and c: "count \<le> 2 ^ 61"
  shows "\<exists>hm'. reserve_with (emplace_internal (Suc depth)) hm count = Some hm' \<and> hm_inv hm' \<and> same_params hm hm' \<and>
     2 * count \<le> bucket_count hm' \<and> hm_content hm' = hm_content hm \<and> hm_size hm' = hm_size hm"
proof (cases "bucket_count hm < 2 * count")
  case True
  then have m: "max (2 * count) (2 * hm_size hm) = 2 * count" using hm_invD(5) [OF inv] by simp
  show ?thesis using copy_with_ok [OF inv, of "2 * count" depth] True c m hm_invD(5) [OF inv]
    by (simp add: reserve_with_def rehash_with_def del: emplace_internal.simps)
next
  case False
  then show ?thesis using inv by (simp add: reserve_with_def same_params_def)
qed

lemma HashMap_insert_ok:
  assumes inv: "hm_inv hm" and key: "key \<noteq> hm_blank hm" and room: "hm_size hm < 2 ^ 61"
  shows "\<exists>hm' i. HashMap_insert hm key v = Some (hm', i, hm_content hm key = None) \<and> hm_inv hm' \<and> same_params hm hm' \<and>
     hm_content hm' = (if hm_content hm key = None then (hm_content hm)(key \<mapsto> v) else hm_content hm)"
proof -
  obtain hm1 where hm1: "reserve_with (emplace_internal 1) hm (hm_size hm + 1) = Some hm1" "hm_inv hm1" "same_params hm hm1"
      "2 * (hm_size hm + 1) \<le> bucket_count hm1" "hm_content hm1 = hm_content hm" "hm_size hm1 = hm_size hm"
    using reserve_with_ok [OF inv, of "hm_size hm + 1" 0] room by (auto simp del: emplace_internal.simps)
  have "emplace_internal 2 hm key v = emplace_internal 1 hm1 key v"
  proof -
    have "emplace_internal 2 hm key v = emplace_loop hm1 key v (key_to_index hm1 key)"
      using hm1(1) by (simp add: numeral_2_eq_2)
    moreover have "emplace_internal 1 hm1 key v = emplace_loop hm1 key v (key_to_index hm1 key)"
      using hm1(4,6) by (simp add: reserve_with_def)
    ultimately show ?thesis by simp
  qed
  moreover have "key \<noteq> hm_blank hm1" "2 * (hm_size hm1 + 1) \<le> bucket_count hm1"
    using key hm1 by (simp_all add: same_params_def)
  ultimately show ?thesis using emplace_no_growth [OF hm1(2), of key 0 v] hm1(3,5)
    by (auto simp: HashMap_insert_def nesting_def same_params_def simp del: emplace_internal.simps)
qed

subsection \<open>Erasing with a backward shift\<close>

text \<open>
  The loop keeps a hole at \<open>current\<close> (a bucket whose contents have been moved or are to be
  erased): all used buckets but the hole are reachable from home when the hole counts as used, and the
  buckets between the hole and \<open>index\<close> are used and do not need the hole.
\<close>

definition hole_inv :: "('k, 'v) hashmap \<Rightarrow> nat \<Rightarrow> nat \<Rightarrow> bool" where
  "hole_inv hm c i \<longleftrightarrow>
     (let n = bucket_count hm; home = (\<lambda>j. key_to_index hm (bucket_key hm j))
      in table_ok hm \<and> c \<in> used hm \<and> i < n \<and> i \<noteq> c \<and> inj_on (bucket_key hm) (used hm - {c}) \<and>
         (\<forall>j \<in> used hm - {c}. reachable_from_home hm j) \<and>
         (\<forall>j < n. 0 < cyc n c j \<and> cyc n c j < cyc n c i \<longrightarrow> j \<in> used hm \<and> cyc n (home j) j \<le> cyc n (home j) c))"

definition blank_at :: "('k, 'v) hashmap \<Rightarrow> nat \<Rightarrow> ('k, 'v) hashmap" where
  "blank_at hm c = hm\<lparr> hm_buckets := (hm_buckets hm)[c := (hm_blank hm, snd (hm_buckets hm ! c))], hm_size := hm_size hm - 1 \<rparr>"

definition shift_to :: "('k, 'v) hashmap \<Rightarrow> nat \<Rightarrow> nat \<Rightarrow> ('k, 'v) hashmap" where
  "shift_to hm c i = hm\<lparr> hm_buckets := (hm_buckets hm)[c := hm_buckets hm ! i] \<rparr>"

lemma blank_at_simps [simp]:
  "bucket_count (blank_at hm c) = bucket_count hm" "hm_blank (blank_at hm c) = hm_blank hm" "hm_hash (blank_at hm c) = hm_hash hm"
  "hm_dflt (blank_at hm c) = hm_dflt hm" "key_to_index (blank_at hm c) = key_to_index hm" "table_ok (blank_at hm c) = table_ok hm"
  "hm_size (blank_at hm c) = hm_size hm - 1"
  by (simp_all add: blank_at_def bucket_count_def key_to_index_def table_ok_def fun_eq_iff)

lemma shift_to_simps [simp]:
  "bucket_count (shift_to hm c i) = bucket_count hm" "hm_blank (shift_to hm c i) = hm_blank hm" "hm_hash (shift_to hm c i) = hm_hash hm"
  "hm_dflt (shift_to hm c i) = hm_dflt hm" "key_to_index (shift_to hm c i) = key_to_index hm" "table_ok (shift_to hm c i) = table_ok hm"
  "hm_size (shift_to hm c i) = hm_size hm"
  by (simp_all add: shift_to_def bucket_count_def key_to_index_def table_ok_def fun_eq_iff)

lemma blank_at_used: "c < bucket_count hm \<Longrightarrow> used (blank_at hm c) = used hm - {c}"
  by (auto simp: used_def bucket_key_def blank_at_def bucket_count_def nth_list_update split: if_splits)

lemma blank_at_bucket: "j \<noteq> c \<Longrightarrow> hm_buckets (blank_at hm c) ! j = hm_buckets hm ! j"
  by (simp add: blank_at_def)

lemma shift_to_bucket: "c < bucket_count hm \<Longrightarrow> hm_buckets (shift_to hm c i) ! j = (if j = c then hm_buckets hm ! i else hm_buckets hm ! j)"
  by (simp add: shift_to_def bucket_count_def)

lemma shift_to_key: "c < bucket_count hm \<Longrightarrow> bucket_key (shift_to hm c i) j = bucket_key hm (if j = c then i else j)"
  by (simp add: bucket_key_def shift_to_bucket)

lemma shift_to_used: "c \<in> used hm \<Longrightarrow> i \<in> used hm \<Longrightarrow> used (shift_to hm c i) = used hm"
  by (auto simp: used_def shift_to_key)

lemma hole_closed:
  assumes inv: "hole_inv hm c i" and free: "i \<notin> used hm"
  shows "\<forall>j \<in> used (blank_at hm c). reachable_from_home (blank_at hm c) j"
proof
  let ?n = "bucket_count hm"
  have c: "c < ?n" "c \<in> used hm" "i < ?n" "table_ok hm" using inv by (auto simp: hole_inv_def Let_def used_def)
  fix j assume "j \<in> used (blank_at hm c)"
  then have j: "j \<in> used hm" "j \<noteq> c" "j < ?n" by (auto simp: blank_at_used [OF c(1)] dest: used_less)
  let ?h = "key_to_index hm (bucket_key hm j)"
  have h: "?h < ?n" using index_functions(1) [OF c(4)] .
  have reach: "x \<in> used hm" if "x < ?n" "cyc ?n ?h x < cyc ?n ?h j" for x
    using inv j that by (auto simp: hole_inv_def Let_def reachable_from_home_def)
  have "\<not> cyc ?n ?h c < cyc ?n ?h j"
  proof
    assume lt: "cyc ?n ?h c < cyc ?n ?h j"
    have "cyc ?n c i < cyc ?n c j"
    proof (rule ccontr)
      assume "\<not> ?thesis"
      moreover have "cyc ?n c j \<noteq> cyc ?n c i" using cyc_inj [OF c(1) j(3) c(3)] j(1) free by auto
      moreover have "0 < cyc ?n c j" using cyc_zero [OF c(1) j(3)] j(2) by simp
      ultimately have "cyc ?n ?h j \<le> cyc ?n ?h c" using inv j by (auto simp: hole_inv_def Let_def)
      with lt show False by simp
    qed
    then have "cyc ?n ?h i < cyc ?n ?h j"
      using cyc_before [OF h c(1) j(3) c(3)] cyc_through [OF h c(1) j(3)] lt by simp
    then show False using reach [OF c(3)] free by blast
  qed
  then show "reachable_from_home (blank_at hm c) j"
    using reach j by (auto simp: reachable_from_home_def Let_def blank_at_used [OF c(1)] bucket_key_def blank_at_bucket)
qed

lemma hole_shift:
  assumes inv: "hole_inv hm c i" and u: "i \<in> used hm" and z: "z < bucket_count hm" "z \<notin> used hm"
    and lt: "cyc (bucket_count hm) (key_to_index hm (bucket_key hm i)) c < cyc (bucket_count hm) (key_to_index hm (bucket_key hm i)) i"
  shows "hole_inv (shift_to hm c i) i (next_index hm i)"
proof -
  let ?n = "bucket_count hm" and ?s = "shift_to hm c i"
  have c: "c < ?n" "c \<in> used hm" "i < ?n" "table_ok hm" "i \<noteq> c" and inj: "inj_on (bucket_key hm) (used hm - {c})"
    using inv by (auto simp: hole_inv_def Let_def used_def)
  have nx: "next_index hm i = Suc i mod ?n" using index_functions(2) [OF c(4)] .
  have n2: "Suc 0 < ?n" using c(1,3,5) by linarith
  then have one: "cyc ?n i (next_index hm i) = 1" using cyc_Suc [OF c(3) c(3)] c(3) by (simp add: nx)
  note used = shift_to_used [OF c(2) u]
  have "inj_on (bucket_key ?s) (used hm - {i})"
    using inj u c(2,5) by (auto simp: inj_on_def shift_to_key [OF c(1)])
  moreover have "reachable_from_home ?s j" if j: "j \<in> used hm - {i}" for j
  proof (cases "j = c")
    case True
    have "x \<in> used hm" if "x < ?n" "cyc ?n (key_to_index hm (bucket_key hm i)) x < cyc ?n (key_to_index hm (bucket_key hm i)) c" for x
    proof -
      have "reachable_from_home hm i" using inv u c(5) by (auto simp: hole_inv_def Let_def)
      then show ?thesis using that lt by (auto simp: reachable_from_home_def Let_def)
    qed
    then show ?thesis using True by (auto simp: reachable_from_home_def Let_def shift_to_key [OF c(1)] used)
  next
    case False
    then have "reachable_from_home hm j" using inv j by (auto simp: hole_inv_def Let_def)
    then show ?thesis using False by (auto simp: reachable_from_home_def Let_def shift_to_key [OF c(1)] used)
  qed
  moreover have "next_index hm i \<noteq> i" using one cyc_self [OF c(3)] by auto
  moreover have "next_index hm i < ?n" using c(3) by (simp add: nx)
  ultimately show ?thesis using c u one by (auto simp: hole_inv_def Let_def used)
qed

lemma hole_skip:
  assumes inv: "hole_inv hm c i" and u: "i \<in> used hm" and z: "z < bucket_count hm" "z \<notin> used hm"
    and le: "cyc (bucket_count hm) (key_to_index hm (bucket_key hm i)) i \<le> cyc (bucket_count hm) (key_to_index hm (bucket_key hm i)) c"
  shows "hole_inv hm c (next_index hm i)"
proof -
  let ?n = "bucket_count hm"
  have c: "c < ?n" "c \<in> used hm" "i < ?n" "table_ok hm" "i \<noteq> c" using inv by (auto simp: hole_inv_def Let_def used_def)
  have nx: "next_index hm i = Suc i mod ?n" using index_functions(2) [OF c(4)] .
  have "cyc ?n c i < cyc ?n c z"
  proof -
    have "0 < cyc ?n c z" using cyc_zero [OF c(1) z(1)] c(2) z(2) by auto
    then have "\<not> cyc ?n c z < cyc ?n c i" using inv z by (auto simp: hole_inv_def Let_def)
    moreover have "cyc ?n c z \<noteq> cyc ?n c i" using cyc_inj [OF c(1) z(1) c(3)] u z(2) by auto
    ultimately show ?thesis by simp
  qed
  then have "Suc (cyc ?n c i) < ?n" using cyc_less [OF c(1) z(1)] by simp
  then have step: "cyc ?n c (next_index hm i) = Suc (cyc ?n c i)" using cyc_Suc [OF c(1) c(3)] by (simp add: nx)
  have "j \<in> used hm \<and> cyc ?n (key_to_index hm (bucket_key hm j)) j \<le> cyc ?n (key_to_index hm (bucket_key hm j)) c"
    if "j < ?n" "0 < cyc ?n c j" "cyc ?n c j < Suc (cyc ?n c i)" for j
  proof (cases "j = i")
    case False
    then have "cyc ?n c j < cyc ?n c i" using that cyc_inj [OF c(1) that(1) c(3)] by linarith
    then show ?thesis using inv that by (auto simp: hole_inv_def Let_def)
  qed (use u le in simp)
  moreover have "next_index hm i \<noteq> c" using step cyc_self [OF c(1)] by auto
  moreover have "next_index hm i < ?n" using c(3) by (simp add: nx)
  ultimately show ?thesis using inv step by (auto simp: hole_inv_def Let_def)
qed

lemma cyc_next_left: "i < n \<Longrightarrow> z < n \<Longrightarrow> i \<noteq> z \<Longrightarrow> cyc n (Suc i mod n) z < cyc n i z"
  by (auto simp: mod_succ cyc_if split: if_splits)

text \<open>The items of a table at all positions but one.\<close>

definition items_except :: "('k, 'v) hashmap \<Rightarrow> nat \<Rightarrow> ('k \<times> 'v) set" where
  "items_except hm c = (\<lambda>j. hm_buckets hm ! j) ` (used hm - {c})"

definition erased :: "('k, 'v) hashmap \<Rightarrow> nat \<Rightarrow> ('k, 'v) hashmap \<Rightarrow> bool" where
  "erased hm c hm' \<longleftrightarrow> table_ok hm' \<and> inj_on (bucket_key hm') (used hm') \<and> (\<forall>j \<in> used hm'. reachable_from_home hm' j) \<and>
     card (used hm') = card (used hm) - 1 \<and> hm_size hm' = hm_size hm - 1 \<and> bucket_count hm' = bucket_count hm \<and>
     same_params hm hm' \<and> (\<lambda>j. hm_buckets hm' ! j) ` used hm' = items_except hm c"

lemma erased_blank:
  assumes inv: "hole_inv hm c i" and free: "i \<notin> used hm"
  shows "erased hm c (blank_at hm c)"
proof -
  have c: "c \<in> used hm" "c < bucket_count hm" "table_ok hm" "inj_on (bucket_key hm) (used hm - {c})"
    using inv by (auto simp: hole_inv_def Let_def used_def)
  note used = blank_at_used [OF c(2)]
  have "inj_on (bucket_key (blank_at hm c)) (used hm - {c})"
    using c(4) by (auto simp: inj_on_def bucket_key_def blank_at_bucket)
  moreover have "(\<lambda>j. hm_buckets (blank_at hm c) ! j) ` (used hm - {c}) = items_except hm c"
    unfolding items_except_def by (rule image_cong) (auto simp: blank_at_bucket)
  ultimately show ?thesis
    using hole_closed [OF assms] c by (simp add: erased_def used same_params_def)
qed

lemma erased_shift:
  assumes "c \<in> used hm" "i \<in> used hm" "i \<noteq> c" and e: "erased (shift_to hm c i) i hm'"
  shows "erased hm c hm'"
proof -
  have c: "c < bucket_count hm" using assms(1) by (rule used_less)
  have "items_except (shift_to hm c i) i = items_except hm c"
    using assms(1-3) by (auto simp: items_except_def shift_to_used shift_to_bucket [OF c] image_iff)
  then show ?thesis using e assms by (simp add: erased_def shift_to_used same_params_def)
qed

lemma erase_loop_result:
  assumes "hole_inv hm c i" "z < bucket_count hm" "z \<notin> used hm"
  shows "\<exists>hm'. erase_loop hm c i = Some hm' \<and> erased hm c hm'"
  using assms
proof (induction "cyc (bucket_count hm) i z" arbitrary: hm c i rule: less_induct)
  case less
  let ?n = "bucket_count hm" and ?h = "key_to_index hm (bucket_key hm i)"
  have c: "c < ?n" "c \<in> used hm" "i < ?n" "i \<noteq> c" and ok: "table_ok hm"
    using less.prems(1) by (auto simp: hole_inv_def Let_def used_def)
  show ?case
  proof (cases "i \<in> used hm")
    case False
    then have "erase_loop hm c i = Some (blank_at hm c)"
      using c by (subst erase_loop.simps) (simp add: used_def blank_at_def)
    then show ?thesis using erased_blank [OF less.prems(1) False] by blast
  next
    case u: True
    then have nb: "bucket_key hm i \<noteq> hm_blank hm" by (simp add: used_def)
    have "i \<noteq> z" using u less.prems(3) by blast
    then have dec: "cyc ?n (next_index hm i) z < cyc ?n i z"
      using cyc_next_left [OF c(3) less.prems(2)] index_functions(2) [OF ok] by simp
    have d: "diff hm c ?h = cyc ?n ?h c" "diff hm i ?h = cyc ?n ?h i"
      using index_functions [OF ok] c by simp_all
    show ?thesis
    proof (cases "cyc ?n ?h c < cyc ?n ?h i")
      case True
      note inv' = hole_shift [OF less.prems(1) u less.prems(2,3) True]
      have "\<exists>hm'. erase_loop (shift_to hm c i) i (next_index hm i) = Some hm' \<and> erased (shift_to hm c i) i hm'"
        by (rule less.hyps [OF _ inv']) (use dec less.prems in \<open>simp_all add: shift_to_used [OF c(2) u]\<close>)
      moreover have "erase_loop hm c i = erase_loop (shift_to hm c i) i (next_index hm i)"
        using nb True d by (subst erase_loop.simps) (simp add: Let_def shift_to_def)
      ultimately show ?thesis using erased_shift [OF c(2) u c(4)] by auto
    next
      case False
      note inv' = hole_skip [OF less.prems(1) u less.prems(2,3)]
      have "\<exists>hm'. erase_loop hm c (next_index hm i) = Some hm' \<and> erased hm c hm'"
        by (rule less.hyps [OF dec inv']) (use False less.prems in simp_all)
      moreover have "erase_loop hm c i = erase_loop hm c (next_index hm i)"
        using nb False d by (subst erase_loop.simps) (simp add: Let_def)
      ultimately show ?thesis by simp
    qed
  qed
qed

lemma erase_internal_ok:
  assumes inv: "hm_inv hm" and c: "c \<in> used hm"
  shows "\<exists>hm'. erase_internal hm c = Some hm' \<and> hm_inv hm' \<and> same_params hm hm' \<and>
     hm_content hm' = (hm_content hm)(bucket_key hm c := None)"
proof -
  let ?n = "bucket_count hm"
  obtain z where z: "z < ?n" "z \<notin> used hm" using free_bucket [OF inv] .
  note ok = hm_invD(1) [OF inv] and inj = hm_invD(2) [OF inv]
  have cn: "c < ?n" "z \<noteq> c" using c z by (auto dest: used_less)
  then have "Suc 0 < ?n" using z by linarith
  then have one: "cyc ?n c (next_index hm c) = 1"
    using cyc_Suc [OF cn(1) cn(1)] cn(1) index_functions(2) [OF ok] by simp
  have "next_index hm c \<noteq> c" "next_index hm c < ?n" using one cn index_functions(2) [OF ok] by auto
  then have "hole_inv hm c (next_index hm c)"
    using c ok one hm_invD(3) [OF inv] inj by (auto simp: hole_inv_def Let_def inj_on_diff)
  from erase_loop_result [OF this z] obtain hm' where hm': "erase_internal hm c = Some hm'" "erased hm c hm'"
    by (auto simp: erase_internal_def)
  have inj': "inj_on (bucket_key hm') (used hm')" using hm'(2) by (simp add: erased_def)
  have "hm_inv hm'" using hm'(2) hm_invD(4,5) [OF inv] by (auto simp: hm_inv_def erased_def)
  moreover have "hm_content hm' = (hm_content hm)(bucket_key hm c := None)"
  proof (rule hm_content_eqI [OF inj'])
    fix k v
    have img: "items_except hm c = (\<lambda>j. hm_buckets hm' ! j) ` used hm'" using hm'(2) by (simp add: erased_def)
    have "(\<exists>j \<in> used hm'. hm_buckets hm' ! j = (k, v)) \<longleftrightarrow> (k, v) \<in> items_except hm c"
      unfolding img by force
    also have "\<dots> \<longleftrightarrow> k \<noteq> bucket_key hm c \<and> (\<exists>j \<in> used hm. hm_buckets hm ! j = (k, v))"
    proof -
      have "hm_buckets hm ! j = (k, v) \<longrightarrow> (k \<noteq> bucket_key hm c \<longleftrightarrow> j \<noteq> c)" if "j \<in> used hm" for j
        using inj_on_eq_iff [OF inj that c] by (auto simp: bucket_key_def)
      note same = this
      show ?thesis
      proof
        assume "(k, v) \<in> items_except hm c"
        then obtain j where "j \<in> used hm" "j \<noteq> c" "hm_buckets hm ! j = (k, v)"
          by (auto simp: items_except_def dest: sym)
        then show "k \<noteq> bucket_key hm c \<and> (\<exists>j \<in> used hm. hm_buckets hm ! j = (k, v))" using same by blast
      next
        assume "k \<noteq> bucket_key hm c \<and> (\<exists>j \<in> used hm. hm_buckets hm ! j = (k, v))"
        then obtain j where j: "j \<in> used hm" "hm_buckets hm ! j = (k, v)" "k \<noteq> bucket_key hm c" by blast
        then have "j \<noteq> c" using same by blast
        then show "(k, v) \<in> items_except hm c" using j unfolding items_except_def by force
      qed
    qed
    finally show "((hm_content hm)(bucket_key hm c := None)) k = Some v \<longleftrightarrow> (\<exists>j \<in> used hm'. hm_buckets hm' ! j = (k, v))"
      by (simp add: hm_content_iff [OF inj])
  qed
  ultimately show ?thesis using hm' by (auto simp: erased_def)
qed

lemma HashMap_erase_ok:
  assumes inv: "hm_inv hm" and key: "key \<noteq> hm_blank hm"
  shows "\<exists>hm'. HashMap_erase hm key = Some (hm', if hm_content hm key = None then 0 else 1) \<and> hm_inv hm' \<and>
     same_params hm hm' \<and> hm_content hm' = (hm_content hm)(key := None)"
proof -
  obtain r where r: "HashMap_find hm key = Some r"
    "case r of None \<Rightarrow> hm_content hm key = None
      | Some i \<Rightarrow> i \<in> used hm \<and> bucket_key hm i = key \<and> hm_content hm key = Some (snd (hm_buckets hm ! i))"
    using HashMap_find_result [OF inv key] by blast
  show ?thesis
  proof (cases r)
    case None
    then show ?thesis using r inv by (auto simp: HashMap_erase_def same_params_def fun_upd_idem)
  next
    case (Some i)
    then show ?thesis using r erase_internal_ok [OF inv, of i] by (auto simp: HashMap_erase_def)
  qed
qed


subsection \<open>The remaining operations\<close>

lemma HashMap_clear_ok:
  assumes "hm_inv hm"
  shows "hm_inv (HashMap_clear hm)" "hm_content (HashMap_clear hm) = Map.empty" "same_params hm (HashMap_clear hm)"
    "hm_size (HashMap_clear hm) = 0" "bucket_count (HashMap_clear hm) = bucket_count hm"
proof -
  let ?c = "HashMap_clear hm"
  have n: "bucket_count ?c = bucket_count hm" by (simp add: HashMap_clear_def bucket_count_def)
  have "used ?c = {}" by (auto simp: used_def bucket_count_def bucket_key_def HashMap_clear_def split_def)
  moreover have "table_ok ?c" using hm_invD(1) [OF assms] n by (simp add: table_ok_def)
  ultimately show "hm_inv ?c" by (simp add: hm_inv_def) (simp add: HashMap_clear_def)
  show "hm_content ?c = Map.empty" by (simp add: hm_content_def HashMap_clear_def filter_map o_def split_def)
  show "same_params hm ?c" "hm_size ?c = 0" "bucket_count ?c = bucket_count hm"
    by (simp_all add: same_params_def HashMap_clear_def bucket_count_def)
qed

lemma insert_all_ok:
  assumes "hm_inv hm" "\<forall>k \<in> fst ` set items. k \<noteq> hm_blank hm" "hm_size hm + length items \<le> 2 ^ 61"
  shows "\<exists>hm'. insert_all HashMap_insert hm items = Some hm' \<and> hm_inv hm' \<and> same_params hm hm' \<and>
     hm_content hm' = fold (\<lambda>(k, v). spec_op (Insert k v)) items (hm_content hm)"
  using assms
proof (induction items arbitrary: hm)
  case (Cons kv items)
  obtain k v where kv: "kv = (k, v)" by (cases kv)
  obtain hm1 i where hm1: "HashMap_insert hm k v = Some (hm1, i, hm_content hm k = None)" "hm_inv hm1" "same_params hm hm1"
      "hm_content hm1 = (if hm_content hm k = None then (hm_content hm)(k \<mapsto> v) else hm_content hm)"
    using HashMap_insert_ok [of hm k v] Cons.prems kv by auto
  have "hm_size hm1 \<le> Suc (hm_size hm)"
  proof -
    have s: "hm_size h = card (dom (hm_content h))" if "hm_inv h" for h
      using hm_invD(2,4) [OF that] hm_content_dom [of h] by (simp add: card_image)
    have "finite (dom (hm_content hm))" using hm_content_dom [OF hm_invD(2) [OF Cons.prems(1)]] by simp
    then show ?thesis using s [OF Cons.prems(1)] s [OF hm1(2)] hm1(4) by (auto simp: card_insert_if)
  qed
  then obtain hm2 where hm2: "insert_all HashMap_insert hm1 items = Some hm2" "hm_inv hm2" "same_params hm1 hm2"
      "hm_content hm2 = fold (\<lambda>(k, v). spec_op (Insert k v)) items (hm_content hm1)"
    using Cons.IH [OF hm1(2)] Cons.prems hm1(3) by (auto simp: same_params_def simp del: spec_op.simps)
  have c: "hm_content hm1 = spec_op (Insert k v) (hm_content hm)" using hm1(4) by simp
  have "insert_all HashMap_insert hm (kv # items) = Some hm2" using hm1(1) hm2(1) kv by simp
  moreover have "same_params hm hm2" using hm1(3) hm2(3) by (simp add: same_params_def)
  moreover have "hm_content hm2 = fold (\<lambda>(k, v). spec_op (Insert k v)) (kv # items) (hm_content hm)"
    using hm2(4) c kv by (simp del: spec_op.simps)
  ultimately show ?case using hm2(2) by blast
qed (simp add: same_params_def)

lemma hm_size_content: "hm_inv hm \<Longrightarrow> finite (dom (hm_content hm)) \<and> hm_size hm = card (dom (hm_content hm))"
  using hm_invD(2,4) [of hm] hm_content_dom [of hm] by (simp add: card_image)

interpretation hash_map: map_container hm_inv "\<lambda>hm k. k \<noteq> hm_blank hm" hm_content hm_size "2 ^ 61"
  "\<lambda>hm k v. map_option (\<lambda>(hm', i, b). (hm', b)) (HashMap_insert hm k v)" HashMap_erase
proof
  fix m :: "('a, 'b) hashmap" and k v
  assume inv: "hm_inv m"
  show "finite (dom (hm_content m)) \<and> hm_size m = card (dom (hm_content m))" by (rule hm_size_content [OF inv])
  assume k: "k \<noteq> hm_blank m"
  show "\<exists>m'. HashMap_erase m k = Some (m', if hm_content m k = None then 0 else 1) \<and> hm_inv m' \<and>
      (\<lambda>k. k \<noteq> hm_blank m') = (\<lambda>k. k \<noteq> hm_blank m) \<and> hm_content m' = spec_op (Erase k) (hm_content m)"
    using HashMap_erase_ok [OF inv k] by (auto simp: same_params_def)
  assume "hm_size m < 2 ^ 61"
  from HashMap_insert_ok [OF inv k this, of v] show "\<exists>m'. map_option (\<lambda>(hm', i, b). (hm', b)) (HashMap_insert m k v) = Some (m', hm_content m k = None) \<and> hm_inv m' \<and>
      (\<lambda>k. k \<noteq> hm_blank m') = (\<lambda>k. k \<noteq> hm_blank m) \<and> hm_content m' = spec_op (Insert k v) (hm_content m)"
    by (auto simp: same_params_def)
qed

subsection \<open>Properties\<close>

text \<open>
  C6. A hash map behaves as a partial map under any sequence of insertions and erasures of keys other than
  the blank one, from any initial capacity and for any hash function: every probing and shifting
  loop ends, the table invariant is kept, the stored items are those of the specification, and the size
  is their number.
\<close>

theorem HashMap_refines_map:
  assumes "capacity \<le> 2 ^ 62" and "\<forall>op \<in> set ops. op_key op \<noteq> blank" and "length ops \<le> 2 ^ 61"
  shows "\<exists>hm. run_ops (\<lambda>hm k v. map_option (\<lambda>(hm', i, b). (hm', b)) (HashMap_insert hm k v)) HashMap_erase ops
       (HashMap_init hash blank dflt capacity) = Some hm \<and>
     hm_inv hm \<and> hm_content hm = spec_run ops Map.empty \<and> hm_size hm = card (dom (spec_run ops Map.empty))"
proof -
  let ?hm = "HashMap_init hash blank dflt capacity"
  have "hm_blank ?hm = blank" "hm_size ?hm = 0" by (simp_all add: HashMap_init_def)
  then show ?thesis
    using hash_map.run_ops_ok [OF HashMap_init_inv(1) [OF assms(1)], of ops hash blank dflt] assms
    by (simp add: HashMap_init_inv(2) [OF assms(1)])
qed

theorem HashMap_refines_map_witness:
  "\<exists>hm. run_ops (\<lambda>hm k v. map_option (\<lambda>(hm', i, b). (hm', b)) (HashMap_insert hm k v)) HashMap_erase
       [Insert 1 True, Insert 2 False, Erase 1] (HashMap_init (\<lambda>k. word_of_nat k) 0 False 4) = Some hm \<and>
     hm_inv hm \<and> hm_content hm = spec_run [Insert 1 True, Insert 2 False, Erase 1] Map.empty \<and>
     hm_size hm = card (dom (spec_run [Insert (1 :: nat) True, Insert 2 False, Erase 1] Map.empty))"
  by (rule HashMap_refines_map) simp_all

text \<open>
  A lookup in a well-formed hash map ends and finds exactly the stored keys: \<^verbatim>\<open>find\<close> gives a
  bucket with the key or the end, \<^verbatim>\<open>at\<close> the stored value or the out-of-range error, and
  \<^verbatim>\<open>count\<close> one or zero.
\<close>

theorem HashMap_lookup:
  assumes "hm_inv hm" and "key \<noteq> hm_blank hm"
  shows "(case hm_content hm key of
       None \<Rightarrow> HashMap_find hm key = Some None \<and> HashMap_at hm key = Some (Inl OutOfRange) \<and> HashMap_count hm key = Some 0
     | Some v \<Rightarrow> (\<exists>i. HashMap_find hm key = Some (Some i) \<and> i < bucket_count hm \<and> hm_buckets hm ! i = (key, v)) \<and>
         HashMap_at hm key = Some (Inr v) \<and> HashMap_count hm key = Some 1)"
proof -
  obtain r where r: "HashMap_find hm key = Some r"
    "case r of None \<Rightarrow> hm_content hm key = None
      | Some i \<Rightarrow> i \<in> used hm \<and> bucket_key hm i = key \<and> hm_content hm key = Some (snd (hm_buckets hm ! i))"
    using HashMap_find_result [OF assms] by blast
  then show ?thesis
    by (cases r) (auto simp: HashMap_at_def HashMap_count_def bucket_key_def prod_eq_iff dest: used_less)
qed

theorem HashMap_lookup_witness:
  "HashMap_find (HashMap_init (\<lambda>k. word_of_nat k) (0 :: nat) False 4) 5 = Some None"
proof -
  let ?hm = "HashMap_init (\<lambda>k. word_of_nat k) (0 :: nat) False 4"
  have "hm_inv ?hm" "hm_content ?hm = Map.empty" by (rule HashMap_init_inv; simp)+
  moreover have "5 \<noteq> hm_blank ?hm" by (simp add: HashMap_init_def)
  ultimately show ?thesis using HashMap_lookup [of ?hm 5] by simp
qed

text \<open>
  Growing and copying keep the content: rehashing, reserving and copying a well-formed hash map give a
  well-formed map with the same items, and a reserved map has at least twice as many buckets as asked for.
\<close>

theorem HashMap_growth_keeps_content:
  assumes "hm_inv hm" and "capacity \<le> 2 ^ 62" and "count \<le> 2 ^ 61"
  shows "(\<exists>hm'. HashMap_rehash hm capacity = Some hm' \<and> hm_inv hm' \<and> hm_content hm' = hm_content hm \<and> capacity \<le> bucket_count hm') \<and>
     (\<exists>hm'. HashMap_reserve hm count = Some hm' \<and> hm_inv hm' \<and> hm_content hm' = hm_content hm \<and> 2 * count \<le> bucket_count hm') \<and>
     (\<exists>hm'. HashMap_copy hm = Some hm' \<and> hm_inv hm' \<and> hm_content hm' = hm_content hm)"
proof -
  have n: "bucket_count hm \<le> 2 ^ 62"
  proof -
    obtain k where "k < 63" "bucket_count hm = 2 ^ k" using hm_invD(1) [OF assms(1)] by (auto simp: table_ok_def)
    then show ?thesis by (simp add: power_increasing del: power_numeral)
  qed
  have ins: "HashMap_insert = emplace_internal (Suc 1)" by (simp add: HashMap_insert_def nesting_def numeral_2_eq_2)
  have s: "2 * hm_size hm \<le> bucket_count hm" by (rule hm_invD(5) [OF assms(1)])
  have "max capacity (2 * hm_size hm) \<le> 2 ^ 62" using assms(2) n s by simp
  from copy_with_ok [OF assms(1) _ this, of 1] have 1: "\<exists>hm'. HashMap_rehash hm capacity = Some hm' \<and> hm_inv hm' \<and>
      hm_content hm' = hm_content hm \<and> capacity \<le> bucket_count hm'"
    by (auto simp: HashMap_rehash_def rehash_with_def ins simp del: emplace_internal.simps)
  from reserve_with_ok [OF assms(1,3), of 1] have 2: "\<exists>hm'. HashMap_reserve hm count = Some hm' \<and> hm_inv hm' \<and>
      hm_content hm' = hm_content hm \<and> 2 * count \<le> bucket_count hm'"
    by (auto simp: HashMap_reserve_def ins simp del: emplace_internal.simps)
  from copy_with_ok [OF assms(1) s n, of 1] have 3: "\<exists>hm'. HashMap_copy hm = Some hm' \<and> hm_inv hm' \<and> hm_content hm' = hm_content hm"
    by (auto simp: HashMap_copy_def ins simp del: emplace_internal.simps)
  from 1 2 3 show ?thesis by blast
qed

theorem HashMap_growth_keeps_content_witness:
  "\<exists>hm'. HashMap_rehash (HashMap_init (\<lambda>k. word_of_nat k) (0 :: nat) False 4) 16 = Some hm' \<and> hm_inv hm' \<and> 16 \<le> bucket_count hm'"
  using HashMap_growth_keeps_content [of "HashMap_init (\<lambda>k. word_of_nat k) (0 :: nat) False 4" 16 0]
    HashMap_init_inv(1) [of 4 "\<lambda>k. word_of_nat k" 0 False] by auto

text \<open>
  Assigning another hash map copies its items, but a hash map assigned to itself loses all of them:
  the assignment clears the target before it reads the source.
\<close>

theorem HashMap_assignment:
  assumes "hm_inv hm" and "hm_inv other" and "hm_blank other = hm_blank hm" and "hm_size other \<le> 2 ^ 61"
  shows "(\<exists>hm'. HashMap_assign hm other = Some hm' \<and> hm_inv hm' \<and> hm_content hm' = hm_content other) \<and>
     (\<exists>hm'. HashMap_assign_self hm = Some hm' \<and> hm_inv hm' \<and> hm_content hm' = Map.empty)"
proof -
  have ins: "HashMap_insert = emplace_internal (Suc 1)" by (simp add: HashMap_insert_def nesting_def numeral_2_eq_2)
  note clear = HashMap_clear_ok [OF assms(1)]
  obtain r where r: "HashMap_reserve (HashMap_clear hm) (hm_size other) = Some r" "hm_inv r" "same_params hm r"
      "hm_content r = Map.empty" "2 * hm_size other \<le> bucket_count r"
    using reserve_with_ok [OF clear(1) assms(4), of 1] clear
    by (auto simp: HashMap_reserve_def ins same_params_def simp del: emplace_internal.simps)
  obtain q where q: "HashMap_reserve (HashMap_clear hm) 0 = Some q" "hm_inv q" "hm_content q = Map.empty"
    using reserve_with_ok [OF clear(1), of 0 1] clear
    by (auto simp: HashMap_reserve_def ins simp del: emplace_internal.simps)
  have nil: "HashMap_items q = []" and r0: "hm_size r = 0"
    using q r HashMap_items_filter [OF q(2)] hm_size_content [OF r(2)] by (simp_all add: hm_content_def)
  have "\<forall>k \<in> fst ` set (HashMap_items other). k \<noteq> hm_blank r \<and> hm_content r k = None"
    using r assms(3) by (auto simp: HashMap_items_filter [OF assms(2)] same_params_def)
  moreover have "length (HashMap_items other) = hm_size other"
    using hm_invD(4) [OF assms(2)] by (simp add: HashMap_items_filter [OF assms(2)] card_used)
  ultimately have "\<exists>hm'. insert_all (emplace_internal (Suc 1)) r (HashMap_items other) = Some hm' \<and> hm_inv hm' \<and>
      hm_content hm' = hm_content r ++ map_of (HashMap_items other)"
    using insert_all_room [OF r(2) _ HashMap_items_distinct [OF assms(2)], of 1] r(5) r0 by fastforce
  moreover have "map_of (HashMap_items other) = hm_content other"
    by (simp add: HashMap_items_filter [OF assms(2)] hm_content_def)
  ultimately show ?thesis using r q nil clear(4)
    by (simp add: HashMap_assign_def HashMap_assign_self_def ins Let_def del: emplace_internal.simps)
qed

theorem HashMap_assignment_witness:
  "\<exists>hm i hm'. HashMap_insert (HashMap_init (\<lambda>k. word_of_nat k) (0 :: nat) False 4) 5 True = Some (hm, i, True) \<and>
     hm_content hm 5 = Some True \<and> HashMap_assign_self hm = Some hm' \<and> hm_content hm' = Map.empty"
proof -
  let ?hm = "HashMap_init (\<lambda>k. word_of_nat k) (0 :: nat) False 4"
  have init: "hm_inv ?hm" "hm_content ?hm = Map.empty" by (rule HashMap_init_inv; simp)+
  have "5 \<noteq> hm_blank ?hm" "hm_size ?hm < 2 ^ 61" by (simp_all add: HashMap_init_def)
  from HashMap_insert_ok [OF init(1) this, of True] init(2) obtain hm i where
    hm: "HashMap_insert ?hm 5 True = Some (hm, i, True)" "hm_inv hm" "hm_content hm = [5 \<mapsto> True]" by auto
  have "hm_size hm \<le> 2 ^ 61" using hm_size_content [OF hm(2)] hm(3) by simp
  then show ?thesis using HashMap_assignment [OF hm(2) hm(2)] hm by auto
qed

text \<open>
  Iteration over a well-formed hash map visits every stored item exactly once, and the reverse iterators
  visit the items in the opposite order.
\<close>

theorem HashMap_iteration:
  assumes "hm_inv hm"
  shows "map_of (HashMap_items hm) = hm_content hm \<and> distinct (map fst (HashMap_items hm)) \<and>
     length (HashMap_items hm) = hm_size hm \<and> HashMap_ritems hm = rev (HashMap_items hm)"
  using HashMap_items_filter [OF assms] HashMap_items_distinct [OF assms] HashMap_ritems_rev [OF assms] hm_invD(4) [OF assms]
  by (simp add: hm_content_def card_used)

theorem HashMap_iteration_witness:
  "\<exists>hm i. HashMap_insert (HashMap_init (\<lambda>k. word_of_nat k) (0 :: nat) False 4) 5 True = Some (hm, i, True) \<and>
     map_of (HashMap_items hm) = [5 \<mapsto> True]"
proof -
  let ?hm = "HashMap_init (\<lambda>k. word_of_nat k) (0 :: nat) False 4"
  have init: "hm_inv ?hm" "hm_content ?hm = Map.empty" by (rule HashMap_init_inv; simp)+
  have "5 \<noteq> hm_blank ?hm" "hm_size ?hm < 2 ^ 61" by (simp_all add: HashMap_init_def)
  from HashMap_insert_ok [OF init(1) this, of True] init(2) obtain hm i where
    hm: "HashMap_insert ?hm 5 True = Some (hm, i, True)" "hm_inv hm" "hm_content hm = [5 \<mapsto> True]" by auto
  then show ?thesis using HashMap_iteration [OF hm(2)] by auto
qed

end
