(* ===== verification/FlatMap.thy ===== *)
theory FlatMap
  imports Prelude MapContract
begin

text \<open>
  The flat map of \<^verbatim>\<open>include/containers/flatmap.h\<close> and \<^verbatim>\<open>include/containers/flatmap.inl\<close>: a
  vector of items sorted by key, searched by bisection. The key comparator is a field of the map, and
  \<^verbatim>\<open>std::lower_bound\<close> and \<^verbatim>\<open>std::upper_bound\<close> are the bisection of the standard
  library. An iterator is an index into the vector, its length for \<^verbatim>\<open>end()\<close>.
\<close>

record ('k, 'v) flatmap =
  fm_less :: "'k \<Rightarrow> 'k \<Rightarrow> bool"
  fm_dflt :: 'v
  fm_items :: "('k \<times> 'v) list"

text \<open>The bisection of \<^verbatim>\<open>std::lower_bound\<close> and \<^verbatim>\<open>std::upper_bound\<close>.\<close>

function bisect :: "('a \<Rightarrow> bool) \<Rightarrow> 'a list \<Rightarrow> nat \<Rightarrow> nat \<Rightarrow> nat" where
  "bisect before xs first count =
     (if count = 0 then first
      else let step = count div 2; it = first + step
           in if before (xs ! it) then bisect before xs (it + 1) (count - (step + 1))
              else bisect before xs first step)"
  by pat_completeness auto
termination
  by (relation "measure (\<lambda>(before, xs, first, count). count)") auto

declare bisect.simps [simp del]

definition FlatMap_init :: "('k \<Rightarrow> 'k \<Rightarrow> bool) \<Rightarrow> 'v \<Rightarrow> ('k, 'v) flatmap" where
  "FlatMap_init compare dflt = \<lparr> fm_less = compare, fm_dflt = dflt, fm_items = [] \<rparr>"

definition FlatMap_size :: "('k, 'v) flatmap \<Rightarrow> nat" where
  "FlatMap_size fm = length (fm_items fm)"

definition FlatMap_lower_bound :: "('k, 'v) flatmap \<Rightarrow> 'k \<Rightarrow> nat" where
  "FlatMap_lower_bound fm key =
     bisect (\<lambda>item. fm_less fm (fst item) key) (fm_items fm) 0 (FlatMap_size fm)"

definition FlatMap_upper_bound :: "('k, 'v) flatmap \<Rightarrow> 'k \<Rightarrow> nat" where
  "FlatMap_upper_bound fm key =
     bisect (\<lambda>item. \<not> fm_less fm key (fst item)) (fm_items fm) 0 (FlatMap_size fm)"

definition FlatMap_equal_range :: "('k, 'v) flatmap \<Rightarrow> 'k \<Rightarrow> nat \<times> nat" where
  "FlatMap_equal_range fm key = (FlatMap_lower_bound fm key, FlatMap_upper_bound fm key)"

definition FlatMap_find :: "('k, 'v) flatmap \<Rightarrow> 'k \<Rightarrow> nat" where
  "FlatMap_find fm key =
     (let it = FlatMap_lower_bound fm key
      in if it \<noteq> FlatMap_size fm \<and> fm_less fm key (fst (fm_items fm ! it)) then FlatMap_size fm else it)"

definition FlatMap_count :: "('k, 'v) flatmap \<Rightarrow> 'k \<Rightarrow> nat" where
  "FlatMap_count fm key = (if FlatMap_find fm key = FlatMap_size fm then 0 else 1)"

definition FlatMap_at :: "('k, 'v) flatmap \<Rightarrow> 'k \<Rightarrow> 'v result" where
  "FlatMap_at fm key =
     (let it = FlatMap_find fm key
      in if it = FlatMap_size fm then Inl OutOfRange else Inr (snd (fm_items fm ! it)))"

definition FlatMap_emplace_internal ::
  "('k, 'v) flatmap \<Rightarrow> 'k \<Rightarrow> 'v \<Rightarrow> ('k, 'v) flatmap \<times> nat \<times> bool" where
  "FlatMap_emplace_internal fm key value =
     (let it = FlatMap_lower_bound fm key
      in if it = FlatMap_size fm \<or> fm_less fm key (fst (fm_items fm ! it))
         then (fm\<lparr> fm_items := take it (fm_items fm) @ (key, value) # drop it (fm_items fm) \<rparr>, it, True)
         else (fm, it, False))"

definition FlatMap_insert :: "('k, 'v) flatmap \<Rightarrow> 'k \<Rightarrow> 'v \<Rightarrow> ('k, 'v) flatmap \<times> nat \<times> bool" where
  "FlatMap_insert fm key value = FlatMap_emplace_internal fm key value"

definition FlatMap_index :: "('k, 'v) flatmap \<Rightarrow> 'k \<Rightarrow> ('k, 'v) flatmap \<times> nat" where
  "FlatMap_index fm key =
     (let (fm', it, inserted) = FlatMap_emplace_internal fm key (fm_dflt fm) in (fm', it))"

fun FlatMap_insert_range :: "('k, 'v) flatmap \<Rightarrow> ('k \<times> 'v) list \<Rightarrow> ('k, 'v) flatmap" where
  "FlatMap_insert_range fm [] = fm"
| "FlatMap_insert_range fm ((k, v) # items) = FlatMap_insert_range (fst (FlatMap_insert fm k v)) items"

text \<open>
  \<^verbatim>\<open>erase(position)\<close> returns the position after the given one in the old vector; the
  following item has moved down to the given position by then.
\<close>

definition FlatMap_erase_at :: "('k, 'v) flatmap \<Rightarrow> nat \<Rightarrow> ('k, 'v) flatmap \<times> nat" where
  "FlatMap_erase_at fm position =
     (fm\<lparr> fm_items := take position (fm_items fm) @ drop (position + 1) (fm_items fm) \<rparr>, position + 1)"

definition FlatMap_erase_range :: "('k, 'v) flatmap \<Rightarrow> nat \<Rightarrow> nat \<Rightarrow> ('k, 'v) flatmap \<times> nat" where
  "FlatMap_erase_range fm first stop =
     (fm\<lparr> fm_items := take first (fm_items fm) @ drop stop (fm_items fm) \<rparr>, stop)"

definition FlatMap_erase :: "('k, 'v) flatmap \<Rightarrow> 'k \<Rightarrow> ('k, 'v) flatmap \<times> nat" where
  "FlatMap_erase fm key =
     (let it = FlatMap_find fm key
      in if it = FlatMap_size fm then (fm, 0)
         else (fm\<lparr> fm_items := take it (fm_items fm) @ drop (it + 1) (fm_items fm) \<rparr>, 1))"

definition FlatMap_clear :: "('k, 'v) flatmap \<Rightarrow> ('k, 'v) flatmap" where
  "FlatMap_clear fm = fm\<lparr> fm_items := [] \<rparr>"

definition FlatMap_copy :: "('k, 'v) flatmap \<Rightarrow> ('k, 'v) flatmap" where
  "FlatMap_copy fm = FlatMap_insert_range (FlatMap_init (fm_less fm) (fm_dflt fm)) (fm_items fm)"

text \<open>Assignment from another map, and from itself (the source map is the cleared one).\<close>

definition FlatMap_assign :: "('k, 'v) flatmap \<Rightarrow> ('k, 'v) flatmap \<Rightarrow> ('k, 'v) flatmap" where
  "FlatMap_assign fm other = FlatMap_insert_range (FlatMap_clear fm) (fm_items other)"

definition FlatMap_assign_self :: "('k, 'v) flatmap \<Rightarrow> ('k, 'v) flatmap" where
  "FlatMap_assign_self fm = (let this = FlatMap_clear fm in FlatMap_insert_range this (fm_items this))"

subsection \<open>Bisection\<close>

text \<open>On a vector split by the predicate, the bisection finds the split point.\<close>

lemma bisect_split:
  assumes "\<forall>i j. i < j \<longrightarrow> j < length xs \<longrightarrow> before (xs ! j) \<longrightarrow> before (xs ! i)"
    and "first + count \<le> length xs"
    and "\<forall>i < first. before (xs ! i)" and "\<forall>i. first + count \<le> i \<longrightarrow> i < length xs \<longrightarrow> \<not> before (xs ! i)"
  shows "bisect before xs first count \<le> length xs \<and> (\<forall>i < bisect before xs first count. before (xs ! i)) \<and>
     (\<forall>i. bisect before xs first count \<le> i \<longrightarrow> i < length xs \<longrightarrow> \<not> before (xs ! i))"
  using assms
proof (induction before xs first count rule: bisect.induct)
  case (1 before xs first count)
  show ?case
  proof (cases "count = 0")
    case True
    then show ?thesis using 1(3-) by (simp add: bisect.simps)
  next
    case False
    let ?step = "count div 2" let ?it = "first + ?step"
    have it: "?it < length xs" using 1(4) False by linarith
    show ?thesis
    proof (cases "before (xs ! ?it)")
      case True
      have "\<forall>i < ?it + 1. before (xs ! i)" using 1(3) it True by (auto simp: less_Suc_eq)
      moreover have "?it + 1 + (count - (?step + 1)) = first + count" using False by linarith
      ultimately have IH: "?it + 1 + (count - (?step + 1)) \<le> length xs" "\<forall>i < ?it + 1. before (xs ! i)"
        "\<forall>i. ?it + 1 + (count - (?step + 1)) \<le> i \<longrightarrow> i < length xs \<longrightarrow> \<not> before (xs ! i)"
        using 1(4,6) by simp_all
      have eq: "bisect before xs first count = bisect before xs (?it + 1) (count - (?step + 1))"
        using False True by (subst bisect.simps) (simp add: Let_def)
      show ?thesis unfolding eq by (rule 1(1) [OF False refl refl True 1(3) IH])
    next
      case False': False
      have "\<forall>i. first + ?step \<le> i \<longrightarrow> i < length xs \<longrightarrow> \<not> before (xs ! i)" using 1(3) False' by (metis order_le_imp_less_or_eq)
      moreover have "first + ?step \<le> length xs" using it by simp
      moreover have eq: "bisect before xs first count = bisect before xs first ?step"
        using False False' by (subst bisect.simps) (simp add: Let_def)
      ultimately show ?thesis unfolding eq by (intro 1(2) [OF False refl refl False' 1(3)] 1(5)) simp_all
    qed
  qed
qed

subsection \<open>The invariant\<close>

definition strict_total :: "('k \<Rightarrow> 'k \<Rightarrow> bool) \<Rightarrow> bool" where
  "strict_total lt \<longleftrightarrow> (\<forall>a. \<not> lt a a) \<and> (\<forall>a b c. lt a b \<longrightarrow> lt b c \<longrightarrow> lt a c) \<and> (\<forall>a b. a \<noteq> b \<longrightarrow> lt a b \<or> lt b a)"

definition fm_inv :: "('k, 'v) flatmap \<Rightarrow> bool" where
  "fm_inv fm \<longleftrightarrow> strict_total (fm_less fm) \<and> sorted_wrt (\<lambda>x y. fm_less fm (fst x) (fst y)) (fm_items fm)"

definition fm_content :: "('k, 'v) flatmap \<Rightarrow> ('k \<rightharpoonup> 'v)" where
  "fm_content fm = map_of (fm_items fm)"

lemma strict_totalD:
  assumes "strict_total lt"
  shows "\<not> lt a a" "lt a b \<Longrightarrow> lt b c \<Longrightarrow> lt a c" "\<not> lt a b \<Longrightarrow> \<not> lt b a \<Longrightarrow> a = b"
  using assms unfolding strict_total_def by blast+

lemma strict_total_less: "strict_total ((<) :: 'a :: linorder \<Rightarrow> 'a \<Rightarrow> bool)"
  by (auto simp: strict_total_def)

lemma fm_inv_nth:
  "fm_inv fm \<Longrightarrow> i < j \<Longrightarrow> j < length (fm_items fm) \<Longrightarrow> fm_less fm (fst (fm_items fm ! i)) (fst (fm_items fm ! j))"
  by (simp add: fm_inv_def sorted_wrt_iff_nth_less)

lemma fm_inv_distinct:
  assumes "fm_inv fm"
  shows "distinct (map fst (fm_items fm))"
proof -
  have "sorted_wrt (fm_less fm) (map fst (fm_items fm))" using assms by (simp add: fm_inv_def sorted_wrt_map)
  moreover have "irreflp (fm_less fm)" using assms by (auto simp: fm_inv_def strict_total_def irreflp_def)
  ultimately show ?thesis unfolding distinct_conv_nth sorted_wrt_iff_nth_less
    by (metis irreflpD nat_neq_iff)
qed

lemma fm_content_dom: "dom (fm_content fm) = fst ` set (fm_items fm)"
  by (simp add: fm_content_def dom_map_of_conv_image_fst)

lemma lower_bound_split:
  assumes "fm_inv fm"
  shows "FlatMap_lower_bound fm key \<le> length (fm_items fm)"
    and "i < FlatMap_lower_bound fm key \<Longrightarrow> fm_less fm (fst (fm_items fm ! i)) key"
    and "FlatMap_lower_bound fm key \<le> i \<Longrightarrow> i < length (fm_items fm) \<Longrightarrow> \<not> fm_less fm (fst (fm_items fm ! i)) key"
proof -
  note o = strict_totalD [of "fm_less fm"]
  have "strict_total (fm_less fm)" using assms by (simp add: fm_inv_def)
  then have "\<forall>i j. i < j \<longrightarrow> j < length (fm_items fm) \<longrightarrow> fm_less fm (fst (fm_items fm ! j)) key \<longrightarrow> fm_less fm (fst (fm_items fm ! i)) key"
    using fm_inv_nth [OF assms] o(2) by blast
  from bisect_split [OF this, of 0 "length (fm_items fm)"]
  show "FlatMap_lower_bound fm key \<le> length (fm_items fm)"
    "i < FlatMap_lower_bound fm key \<Longrightarrow> fm_less fm (fst (fm_items fm ! i)) key"
    "FlatMap_lower_bound fm key \<le> i \<Longrightarrow> i < length (fm_items fm) \<Longrightarrow> \<not> fm_less fm (fst (fm_items fm ! i)) key"
    by (simp_all add: FlatMap_lower_bound_def FlatMap_size_def)
qed

lemma upper_bound_split:
  assumes "fm_inv fm"
  shows "FlatMap_upper_bound fm key \<le> length (fm_items fm)"
    and "i < FlatMap_upper_bound fm key \<Longrightarrow> \<not> fm_less fm key (fst (fm_items fm ! i))"
    and "FlatMap_upper_bound fm key \<le> i \<Longrightarrow> i < length (fm_items fm) \<Longrightarrow> fm_less fm key (fst (fm_items fm ! i))"
proof -
  note o = strict_totalD [of "fm_less fm"]
  have "strict_total (fm_less fm)" using assms by (simp add: fm_inv_def)
  then have "\<forall>i j. i < j \<longrightarrow> j < length (fm_items fm) \<longrightarrow> \<not> fm_less fm key (fst (fm_items fm ! j)) \<longrightarrow> \<not> fm_less fm key (fst (fm_items fm ! i))"
    using fm_inv_nth [OF assms] o(2) by blast
  from bisect_split [OF this, of 0 "length (fm_items fm)"]
  show "FlatMap_upper_bound fm key \<le> length (fm_items fm)"
    "i < FlatMap_upper_bound fm key \<Longrightarrow> \<not> fm_less fm key (fst (fm_items fm ! i))"
    "FlatMap_upper_bound fm key \<le> i \<Longrightarrow> i < length (fm_items fm) \<Longrightarrow> fm_less fm key (fst (fm_items fm ! i))"
    by (simp_all add: FlatMap_upper_bound_def FlatMap_size_def)
qed

text \<open>The lower bound of a stored key is its position; that of an absent key is where it belongs.\<close>

lemma lower_bound_cases:
  assumes inv: "fm_inv fm"
  obtains (found) it v where "FlatMap_lower_bound fm key = it" "it < length (fm_items fm)" "fm_items fm ! it = (key, v)"
      "fm_content fm key = Some v" "\<not> fm_less fm key (fst (fm_items fm ! it))"
  | (absent) it where "FlatMap_lower_bound fm key = it" "it \<le> length (fm_items fm)" "fm_content fm key = None"
      "it = length (fm_items fm) \<or> fm_less fm key (fst (fm_items fm ! it))"
      "\<forall>i < it. fm_less fm (fst (fm_items fm ! i)) key"
      "\<forall>i. it \<le> i \<longrightarrow> i < length (fm_items fm) \<longrightarrow> fm_less fm key (fst (fm_items fm ! i))"
proof -
  let ?it = "FlatMap_lower_bound fm key" and ?xs = "fm_items fm"
  have tot: "strict_total (fm_less fm)" using inv by (simp add: fm_inv_def)
  note lb = lower_bound_split [OF inv, where key = key] and o = strict_totalD [OF tot]
  show thesis
  proof (cases "?it = length ?xs \<or> fm_less fm key (fst (?xs ! ?it))")
    case True
    have up: "fm_less fm key (fst (?xs ! i))" if "?it \<le> i" "i < length ?xs" for i
    proof (cases "?it = i")
      case True
      then show ?thesis using that \<open>?it = length ?xs \<or> _\<close> by simp
    next
      case False
      then have "fm_less fm (fst (?xs ! ?it)) (fst (?xs ! i))" using fm_inv_nth [OF inv] that by simp
      moreover have "fm_less fm key (fst (?xs ! ?it))" using True that by simp
      ultimately show ?thesis using o(2) by blast
    qed
    have "key \<notin> fst ` set ?xs"
    proof
      assume "key \<in> fst ` set ?xs"
      then obtain i where i: "i < length ?xs" "fst (?xs ! i) = key" by (auto simp: in_set_conv_nth)
      then show False using lb(2) [of i] up [of i] o(1) by (cases "i < ?it") auto
    qed
    then have "fm_content fm key = None" by (simp add: fm_content_def map_of_eq_None_iff)
    then show thesis using absent [OF refl lb(1)] True lb(2) up by blast
  next
    case False
    then have it: "?it < length ?xs" using lb(1) by simp
    then have "fst (?xs ! ?it) = key" using False lb(3) [OF order_refl it] o(3) by blast
    then obtain v where v: "?xs ! ?it = (key, v)" by (cases "?xs ! ?it") auto
    then have "(key, v) \<in> set ?xs" using it nth_mem by metis
    then have "fm_content fm key = Some v" using fm_inv_distinct [OF inv] by (simp add: fm_content_def)
    then show thesis using found [OF refl it v] False by blast
  qed
qed

subsection \<open>Lookup\<close>

lemma FlatMap_find_result:
  assumes "fm_inv fm"
  shows "case fm_content fm key of None \<Rightarrow> FlatMap_find fm key = FlatMap_size fm
     | Some v \<Rightarrow> FlatMap_find fm key < FlatMap_size fm \<and> fm_items fm ! FlatMap_find fm key = (key, v)"
  by (rule lower_bound_cases [OF assms, of key]) (auto simp: FlatMap_find_def FlatMap_size_def Let_def)

subsection \<open>Insertion and erasure\<close>

lemma FlatMap_insert_ok:
  assumes inv: "fm_inv fm"
  shows "\<exists>fm' it. FlatMap_insert fm key v = (fm', it, fm_content fm key = None) \<and> fm_inv fm' \<and>
     fm_content fm' = spec_op (Insert key v) (fm_content fm) \<and> it < FlatMap_size fm' \<and> fst (fm_items fm' ! it) = key \<and>
     fm_less fm' = fm_less fm \<and> fm_dflt fm' = fm_dflt fm"
  using inv
proof (cases rule: lower_bound_cases [where key = key])
  case (found it w)
  then show ?thesis using inv by (auto simp: FlatMap_insert_def FlatMap_emplace_internal_def FlatMap_size_def Let_def)
next
  case (absent it)
  let ?xs = "fm_items fm" and ?L = "\<lambda>x y. fm_less fm (fst x) (fst y)"
  let ?fm = "fm\<lparr> fm_items := take it ?xs @ (key, v) # drop it ?xs \<rparr>"
  have ins: "FlatMap_insert fm key v = (?fm, it, True)"
    using absent by (auto simp: FlatMap_insert_def FlatMap_emplace_internal_def FlatMap_size_def Let_def)
  have tot: "strict_total (fm_less fm)" and xs: "sorted_wrt ?L (take it ?xs @ drop it ?xs)" using inv by (simp_all add: fm_inv_def)
  have low: "?L x (key, v)" if "x \<in> set (take it ?xs)" for x
    using absent(5) that by (auto simp: in_set_conv_nth)
  have high: "?L (key, v) x" if "x \<in> set (drop it ?xs)" for x
    using absent(6) that by (auto simp: in_set_conv_nth)
  have "fm_inv ?fm" using tot xs low high
    by (auto simp: fm_inv_def sorted_wrt_append simp del: append_take_drop_id)
  moreover have "fm_content ?fm = (fm_content fm)(key \<mapsto> v)"
  proof -
    have "map_of ?xs = map_of (take it ?xs @ drop it ?xs)" by simp
    then have xs: "map_of ?xs = map_of (drop it ?xs) ++ map_of (take it ?xs)" by (simp only: map_of_append)
    then have "map_of (take it ?xs) key = None" using absent(3) by (auto simp: fm_content_def map_add_None)
    then show ?thesis by (auto simp: fm_content_def xs map_add_def fun_eq_iff split: option.splits)
  qed
  ultimately show ?thesis using ins absent(2,3) by (auto simp: FlatMap_size_def nth_append)
qed

lemma fm_remove:
  assumes inv: "fm_inv fm" and it: "it < length (fm_items fm)" and key: "fm_items fm ! it = (key, v)"
  shows "fm_inv (fm\<lparr> fm_items := take it (fm_items fm) @ drop (Suc it) (fm_items fm) \<rparr>)"
    and "fm_content (fm\<lparr> fm_items := take it (fm_items fm) @ drop (Suc it) (fm_items fm) \<rparr>) = (fm_content fm)(key := None)"
proof -
  let ?xs = "fm_items fm"
  have xs: "?xs = take it ?xs @ (key, v) # drop (Suc it) ?xs" using id_take_nth_drop [OF it] key by simp
  have "sorted_wrt (\<lambda>x y. fm_less fm (fst x) (fst y)) (take it ?xs @ (key, v) # drop (Suc it) ?xs)"
    using inv xs by (simp add: fm_inv_def)
  then show "fm_inv (fm\<lparr> fm_items := take it ?xs @ drop (Suc it) ?xs \<rparr>)"
    using inv by (auto simp: fm_inv_def sorted_wrt_append)
  have "distinct (map fst (take it ?xs @ (key, v) # drop (Suc it) ?xs))" using fm_inv_distinct [OF inv] xs by simp
  then have none: "map_of (take it ?xs) key = None" "map_of (drop (Suc it) ?xs) key = None"
    by (auto simp: map_of_eq_None_iff)
  have "map_of ?xs = (map_of (drop (Suc it) ?xs))(key \<mapsto> v) ++ map_of (take it ?xs)"
    by (subst xs) (simp only: map_of_append map_of.simps fst_conv snd_conv)
  then show "fm_content (fm\<lparr> fm_items := take it ?xs @ drop (Suc it) ?xs \<rparr>) = (fm_content fm)(key := None)"
    using none by (auto simp: fm_content_def map_add_def fun_eq_iff split: option.splits)
qed

lemma FlatMap_erase_ok:
  assumes inv: "fm_inv fm"
  shows "\<exists>fm'. FlatMap_erase fm key = (fm', if fm_content fm key = None then 0 else 1) \<and> fm_inv fm' \<and>
     fm_content fm' = (fm_content fm)(key := None)"
proof (cases "fm_content fm key")
  case None
  then show ?thesis using FlatMap_find_result [OF inv, of key] inv by (auto simp: FlatMap_erase_def Let_def fun_upd_idem)
next
  case (Some v)
  then show ?thesis using FlatMap_find_result [OF inv, of key] fm_remove [OF inv, of "FlatMap_find fm key" key v]
    by (auto simp: FlatMap_erase_def Let_def FlatMap_size_def)
qed

text \<open>Inserting the items of a sorted vector into an empty map rebuilds the vector.\<close>

lemma insert_range_append:
  assumes "strict_total (fm_less fm)" "sorted_wrt (\<lambda>x y. fm_less fm (fst x) (fst y)) (fm_items fm @ items)"
  shows "FlatMap_insert_range fm items = fm\<lparr> fm_items := fm_items fm @ items \<rparr>"
  using assms
proof (induction items arbitrary: fm)
  case (Cons kv items)
  obtain k v where kv: "kv = (k, v)" by (cases kv)
  have inv: "fm_inv fm" using Cons.prems by (simp add: fm_inv_def sorted_wrt_append)
  have "\<forall>i < length (fm_items fm). fm_less fm (fst (fm_items fm ! i)) k"
    using Cons.prems(2) kv by (simp add: sorted_wrt_append)
  then have "FlatMap_lower_bound fm k = length (fm_items fm)"
    using lower_bound_split(1,3) [OF inv, of k] by (meson le_neq_implies_less order_refl)
  then have "fst (FlatMap_insert fm k v) = fm\<lparr> fm_items := fm_items fm @ [(k, v)] \<rparr>"
    by (simp add: FlatMap_insert_def FlatMap_emplace_internal_def FlatMap_size_def Let_def)
  then show ?case using Cons.IH [of "fst (FlatMap_insert fm k v)"] Cons.prems kv by simp
qed simp

interpretation flat_map: map_container fm_inv "\<lambda>fm k. True" fm_content FlatMap_size "2 ^ 61"
  "\<lambda>fm k v. case FlatMap_insert fm k v of (fm', it, b) \<Rightarrow> Some (fm', b)" "\<lambda>fm k. Some (FlatMap_erase fm k)"
proof
  fix fm :: "('a, 'b) flatmap" and k v
  assume inv: "fm_inv fm"
  show "finite (dom (fm_content fm)) \<and> FlatMap_size fm = card (dom (fm_content fm))"
    using distinct_card [OF fm_inv_distinct [OF inv]] by (simp add: fm_content_dom FlatMap_size_def)
  show "\<exists>m'. (case FlatMap_insert fm k v of (fm', it, b) \<Rightarrow> Some (fm', b)) = Some (m', fm_content fm k = None) \<and>
      fm_inv m' \<and> (\<lambda>_. True) = (\<lambda>_. True) \<and> fm_content m' = spec_op (Insert k v) (fm_content fm)"
    using FlatMap_insert_ok [OF inv, of k v] by (auto simp del: spec_op.simps)
  show "\<exists>m'. Some (FlatMap_erase fm k) = Some (m', if fm_content fm k = None then 0 else 1) \<and>
      fm_inv m' \<and> (\<lambda>_. True) = (\<lambda>_. True) \<and> fm_content m' = spec_op (Erase k) (fm_content fm)"
    using FlatMap_erase_ok [OF inv, of k] by auto
qed

subsection \<open>Properties\<close>

text \<open>
  C10. A flat map over a strict total order behaves as a partial map under any sequence of insertions and
  erasures: the items stay strictly sorted, and content and size are those of the specification.
\<close>

theorem FlatMap_refines_map:
  assumes "strict_total compare" and "length ops \<le> 2 ^ 61"
  shows "\<exists>fm. run_ops (\<lambda>fm k v. case FlatMap_insert fm k v of (fm', it, b) \<Rightarrow> Some (fm', b)) (\<lambda>fm k. Some (FlatMap_erase fm k)) ops
       (FlatMap_init compare dflt) = Some fm \<and>
     sorted_wrt (\<lambda>x y. fm_less fm (fst x) (fst y)) (fm_items fm) \<and> fm_content fm = spec_run ops Map.empty \<and>
     FlatMap_size fm = card (dom (spec_run ops Map.empty))"
proof -
  have "fm_inv (FlatMap_init compare dflt)" "fm_content (FlatMap_init compare dflt) = Map.empty" "FlatMap_size (FlatMap_init compare dflt) = 0"
    using assms(1) by (simp_all add: FlatMap_init_def fm_inv_def fm_content_def FlatMap_size_def)
  then show ?thesis using flat_map.run_ops_ok [of "FlatMap_init compare dflt" ops] assms(2) by (auto simp: fm_inv_def)
qed

theorem FlatMap_refines_map_witness:
  "\<exists>fm. run_ops (\<lambda>fm k v. case FlatMap_insert fm k v of (fm', it, b) \<Rightarrow> Some (fm', b)) (\<lambda>fm k. Some (FlatMap_erase fm k))
       [Insert 3 True, Insert 1 False, Erase 3] (FlatMap_init (<) False) = Some fm \<and>
     sorted_wrt (\<lambda>x y. fm_less fm (fst x) (fst y)) (fm_items fm) \<and>
     fm_content fm = spec_run [Insert (3 :: nat) True, Insert 1 False, Erase 3] Map.empty \<and>
     FlatMap_size fm = card (dom (spec_run [Insert (3 :: nat) True, Insert 1 False, Erase 3] Map.empty))"
  by (rule FlatMap_refines_map) (simp_all add: strict_total_less)

text \<open>
  Lookup in a flat map: the bounds split the items into those before, equal to and after the key,
  \<^verbatim>\<open>find\<close> gives the position of a stored key and the end for an absent one, \<^verbatim>\<open>at\<close> the stored
  value or the out-of-range error, and a copy has the same items.
\<close>

theorem FlatMap_lookup:
  assumes "fm_inv fm"
  shows "(\<forall>i < FlatMap_size fm.
       (i < FlatMap_lower_bound fm key \<longleftrightarrow> fm_less fm (fst (fm_items fm ! i)) key) \<and>
       (FlatMap_upper_bound fm key \<le> i \<longleftrightarrow> fm_less fm key (fst (fm_items fm ! i)))) \<and>
     (case fm_content fm key of
        None \<Rightarrow> FlatMap_find fm key = FlatMap_size fm \<and> FlatMap_at fm key = Inl OutOfRange \<and> FlatMap_count fm key = 0
      | Some v \<Rightarrow> FlatMap_find fm key < FlatMap_size fm \<and> fm_items fm ! FlatMap_find fm key = (key, v) \<and>
          FlatMap_at fm key = Inr v \<and> FlatMap_count fm key = 1) \<and>
     FlatMap_copy fm = fm"
proof -
  have "FlatMap_copy fm = fm"
    using insert_range_append [of "FlatMap_init (fm_less fm) (fm_dflt fm)" "fm_items fm"] assms
    by (simp add: FlatMap_copy_def FlatMap_init_def fm_inv_def)
  moreover have "case fm_content fm key of
        None \<Rightarrow> FlatMap_find fm key = FlatMap_size fm \<and> FlatMap_at fm key = Inl OutOfRange \<and> FlatMap_count fm key = 0
      | Some v \<Rightarrow> FlatMap_find fm key < FlatMap_size fm \<and> fm_items fm ! FlatMap_find fm key = (key, v) \<and>
          FlatMap_at fm key = Inr v \<and> FlatMap_count fm key = 1"
    using FlatMap_find_result [OF assms, of key] by (auto simp: FlatMap_at_def FlatMap_count_def Let_def split: option.splits)
  moreover have "\<forall>i < FlatMap_size fm. (i < FlatMap_lower_bound fm key \<longleftrightarrow> fm_less fm (fst (fm_items fm ! i)) key) \<and>
       (FlatMap_upper_bound fm key \<le> i \<longleftrightarrow> fm_less fm key (fst (fm_items fm ! i)))"
    using lower_bound_split(2,3) [OF assms] upper_bound_split(2,3) [OF assms] by (metis FlatMap_size_def not_le)
  ultimately show ?thesis by blast
qed

theorem FlatMap_lookup_witness:
  "FlatMap_at \<lparr> fm_less = (<), fm_dflt = False, fm_items = [(1 :: nat, True), (4, False)] \<rparr> 4 = Inr False"
  using FlatMap_lookup [of "\<lparr> fm_less = (<), fm_dflt = False, fm_items = [(1 :: nat, True), (4, False)] \<rparr>" 4]
  by (simp add: fm_inv_def strict_total_less fm_content_def)

text \<open>
  Erasing at a position removes exactly that item and keeps the order, but the returned iterator is one
  past the item that follows the erased one; and a flat map assigned to itself loses all items, while the
  assignment of another map copies it.
\<close>

theorem FlatMap_erase_at_skips:
  assumes "fm_inv fm" and "position < FlatMap_size fm" and "fm_inv other" and "fm_less other = fm_less fm"
  shows "fm_inv (fst (FlatMap_erase_at fm position)) \<and>
     fm_content (fst (FlatMap_erase_at fm position)) = (fm_content fm)(fst (fm_items fm ! position) := None) \<and>
     (\<forall>i. position + 2 \<le> i \<longrightarrow> i < FlatMap_size fm \<longrightarrow> fm_items (fst (FlatMap_erase_at fm position)) ! (i - 1) = fm_items fm ! i) \<and>
     snd (FlatMap_erase_at fm position) = position + 1 \<and>
     fm_items (FlatMap_assign fm other) = fm_items other \<and> fm_items (FlatMap_assign_self fm) = []"
proof -
  obtain k v where kv: "fm_items fm ! position = (k, v)" by (cases "fm_items fm ! position")
  have pos: "position < length (fm_items fm)" using assms(2) by (simp add: FlatMap_size_def)
  have "fm_items (FlatMap_assign fm other) = fm_items other"
    using insert_range_append [of "FlatMap_clear fm" "fm_items other"] assms(1,3,4)
    by (simp add: FlatMap_assign_def FlatMap_clear_def fm_inv_def)
  then show ?thesis using fm_remove [OF assms(1) pos kv] kv pos
    by (auto simp: FlatMap_erase_at_def FlatMap_assign_self_def FlatMap_clear_def Let_def FlatMap_size_def nth_append)
qed

theorem FlatMap_erase_at_skips_witness:
  "snd (FlatMap_erase_at \<lparr> fm_less = (<), fm_dflt = False, fm_items = [(1 :: nat, True), (4, False), (6, True)] \<rparr> 0) = 1 \<and>
   fm_items (fst (FlatMap_erase_at \<lparr> fm_less = (<), fm_dflt = False, fm_items = [(1 :: nat, True), (4, False), (6, True)] \<rparr> 0)) ! 1 = (6, True)"
  using FlatMap_erase_at_skips [of "\<lparr> fm_less = (<), fm_dflt = False, fm_items = [(1 :: nat, True), (4, False), (6, True)] \<rparr>" 0
    "\<lparr> fm_less = (<), fm_dflt = False, fm_items = [] \<rparr>"]
  by (auto simp: fm_inv_def strict_total_less FlatMap_size_def dest!: spec [of _ 2])

end
