(* ===== verification/LinkedLists.thy ===== *)
theory LinkedLists
  imports Prelude
begin

text \<open>
  The intrusive containers of \<^verbatim>\<open>include/containers/list.inl\<close>, \<^verbatim>\<open>stack.inl\<close> and
  \<^verbatim>\<open>queue.inl\<close>. The nodes belong to the caller and carry the links; a node is its address, a
  pointer is an optional address (\<^const>\<open>None\<close> for \<^verbatim>\<open>nullptr\<close>), and the links are an explicit
  store that every operation updates, so that two containers over the same store can be compared. The
  refinement relations say which sequence of nodes a store holds.
\<close>

record node_store =
  node_next :: "nat \<Rightarrow> ptr"
  node_prev :: "nat \<Rightarrow> ptr"

definition set_next :: "node_store \<Rightarrow> nat \<Rightarrow> ptr \<Rightarrow> node_store" where
  "set_next h n p = h\<lparr> node_next := (node_next h)(n := p) \<rparr>"

definition set_prev :: "node_store \<Rightarrow> nat \<Rightarrow> ptr \<Rightarrow> node_store" where
  "set_prev h n p = h\<lparr> node_prev := (node_prev h)(n := p) \<rparr>"

lemma node_links [simp]:
  "node_next (set_next h n p) = (node_next h)(n := p)" "node_prev (set_next h n p) = node_prev h"
  "node_next (set_prev h n p) = node_next h" "node_prev (set_prev h n p) = (node_prev h)(n := p)"
  by (simp_all add: set_next_def set_prev_def)

subsection \<open>The doubly linked list\<close>

record dlist =
  list_size :: nat
  list_front :: ptr
  list_back :: ptr

type_synonym list_state = "node_store \<times> dlist"

fun List_push_front :: "list_state \<Rightarrow> nat \<Rightarrow> list_state" where
  "List_push_front (h, l) item =
     (let h = (case list_front l of Some f \<Rightarrow> set_prev h f (Some item) | None \<Rightarrow> h);
          h = set_next h item (list_front l);
          h = set_prev h item None;
          l = l\<lparr> list_front := Some item \<rparr>;
          l = (if list_back l = None then l\<lparr> list_back := list_front l \<rparr> else l)
      in (h, l\<lparr> list_size := list_size l + 1 \<rparr>))"

fun List_push_back :: "list_state \<Rightarrow> nat \<Rightarrow> list_state" where
  "List_push_back (h, l) item =
     (let h = (case list_back l of Some b \<Rightarrow> set_next h b (Some item) | None \<Rightarrow> h);
          h = set_next h item None;
          h = set_prev h item (list_back l);
          l = l\<lparr> list_back := Some item \<rparr>;
          l = (if list_front l = None then l\<lparr> list_front := list_back l \<rparr> else l)
      in (h, l\<lparr> list_size := list_size l + 1 \<rparr>))"

fun List_push_next :: "list_state \<Rightarrow> nat \<Rightarrow> nat \<Rightarrow> list_state" where
  "List_push_next (h, l) base item =
     (let h = set_next h item (node_next h base);
          h = set_prev h item (Some base);
          l = (if list_back l = Some base then l\<lparr> list_back := Some item \<rparr> else l);
          h = (case node_next h base of Some n \<Rightarrow> set_prev h n (Some item) | None \<Rightarrow> h);
          h = set_next h base (Some item)
      in (h, l\<lparr> list_size := list_size l + 1 \<rparr>))"

fun List_push_prev :: "list_state \<Rightarrow> nat \<Rightarrow> nat \<Rightarrow> list_state" where
  "List_push_prev (h, l) base item =
     (let h = set_next h item (Some base);
          h = set_prev h item (node_prev h base);
          l = (if list_front l = Some base then l\<lparr> list_front := Some item \<rparr> else l);
          h = (case node_prev h base of Some n \<Rightarrow> set_next h n (Some item) | None \<Rightarrow> h);
          h = set_prev h base (Some item)
      in (h, l\<lparr> list_size := list_size l + 1 \<rparr>))"

fun List_pop_front :: "list_state \<Rightarrow> list_state \<times> ptr" where
  "List_pop_front (h, l) =
     (case list_front l of
        None \<Rightarrow> ((h, l), None)
      | Some result \<Rightarrow>
          (let l = l\<lparr> list_front := node_next h result \<rparr>;
               h = set_next h result None;
               h = set_prev h result None
           in case list_front l of
                None \<Rightarrow> ((h, l\<lparr> list_back := None, list_size := list_size l - 1 \<rparr>), Some result)
              | Some f \<Rightarrow> ((set_prev h f None, l\<lparr> list_size := list_size l - 1 \<rparr>), Some result)))"

fun List_pop_back :: "list_state \<Rightarrow> list_state \<times> ptr" where
  "List_pop_back (h, l) =
     (case list_back l of
        None \<Rightarrow> ((h, l), None)
      | Some result \<Rightarrow>
          (let l = l\<lparr> list_back := node_prev h result \<rparr>;
               h = set_next h result None;
               h = set_prev h result None
           in case list_back l of
                None \<Rightarrow> ((h, l\<lparr> list_front := None, list_size := list_size l - 1 \<rparr>), Some result)
              | Some b \<Rightarrow> ((set_next h b None, l\<lparr> list_size := list_size l - 1 \<rparr>), Some result)))"

fun List_pop_current :: "list_state \<Rightarrow> nat \<Rightarrow> list_state \<times> ptr" where
  "List_pop_current (h, l) base =
     (let (h, l) = (case node_next h base of
            Some n \<Rightarrow> (set_prev h n (node_prev h base), l)
          | None \<Rightarrow> (h, l\<lparr> list_back := node_prev h base \<rparr>));
          (h, l) = (case node_prev h base of
            Some p \<Rightarrow> (set_next h p (node_next h base), l)
          | None \<Rightarrow> (h, l\<lparr> list_front := node_next h base \<rparr>));
          h = set_next h base None;
          h = set_prev h base None
      in ((h, l\<lparr> list_size := list_size l - 1 \<rparr>), Some base))"

fun List_pop_next :: "list_state \<Rightarrow> nat \<Rightarrow> list_state \<times> ptr" where
  "List_pop_next (h, l) base =
     (case node_next h base of
        None \<Rightarrow> ((h, l), None)
      | Some result \<Rightarrow>
          (let (h, l) = (case node_next h result of
                 Some n \<Rightarrow> (set_prev h n (Some base), l)
               | None \<Rightarrow> (h, l\<lparr> list_back := Some base \<rparr>));
               h = set_next h base (node_next h result);
               h = set_next h result None;
               h = set_prev h result None
           in ((h, l\<lparr> list_size := list_size l - 1 \<rparr>), Some result)))"

fun List_pop_prev :: "list_state \<Rightarrow> nat \<Rightarrow> list_state \<times> ptr" where
  "List_pop_prev (h, l) base =
     (case node_prev h base of
        None \<Rightarrow> ((h, l), None)
      | Some result \<Rightarrow>
          (let (h, l) = (case node_prev h result of
                 Some p \<Rightarrow> (set_next h p (Some base), l)
               | None \<Rightarrow> (h, l\<lparr> list_front := Some base \<rparr>));
               h = set_prev h base (node_prev h result);
               h = set_next h result None;
               h = set_prev h result None
           in ((h, l\<lparr> list_size := list_size l - 1 \<rparr>), Some result)))"

partial_function (option) List_reverse_loop :: "node_store \<Rightarrow> ptr \<Rightarrow> ptr \<Rightarrow> (node_store \<times> ptr) option" where
  "List_reverse_loop h current prev =
     (case current of
        None \<Rightarrow> Some (h, prev)
      | Some c \<Rightarrow>
          (let next = node_next h c;
               h = set_next h c prev;
               h = set_prev h c next
           in List_reverse_loop h next (Some c)))"

fun List_reverse :: "list_state \<Rightarrow> list_state option" where
  "List_reverse (h, l) =
     (case List_reverse_loop h (list_front l) None of
        None \<Rightarrow> None
      | Some (h', prev) \<Rightarrow> Some (h', l\<lparr> list_back := list_front l, list_front := prev \<rparr>))"

definition List_clear :: "dlist \<Rightarrow> dlist" where
  "List_clear l = l\<lparr> list_size := 0, list_front := None, list_back := None \<rparr>"

definition List_swap :: "dlist \<Rightarrow> dlist \<Rightarrow> dlist \<times> dlist" where
  "List_swap l1 l2 =
     (l1\<lparr> list_size := list_size l2, list_front := list_front l2, list_back := list_back l2 \<rparr>,
      l2\<lparr> list_size := list_size l1, list_front := list_front l1, list_back := list_back l1 \<rparr>)"

text \<open>A \<^verbatim>\<open>for\<close> loop with an iterator, that follows \<^verbatim>\<open>next\<close> (or \<^verbatim>\<open>prev\<close>).\<close>

partial_function (option) walk :: "(nat \<Rightarrow> ptr) \<Rightarrow> ptr \<Rightarrow> nat list option" where
  "walk link p =
     (case p of
        None \<Rightarrow> Some []
      | Some n \<Rightarrow> Option.bind (walk link (link n)) (\<lambda>ns. Some (n # ns)))"

definition List_items :: "list_state \<Rightarrow> nat list option" where
  "List_items s = walk (node_next (fst s)) (list_front (snd s))"

definition List_ritems :: "list_state \<Rightarrow> nat list option" where
  "List_ritems s = walk (node_prev (fst s)) (list_back (snd s))"

subsection \<open>The stack\<close>

record nstack =
  stack_size :: nat
  stack_top :: ptr

type_synonym stack_state = "(nat \<Rightarrow> ptr) \<times> nstack"

fun Stack_push :: "stack_state \<Rightarrow> nat \<Rightarrow> stack_state" where
  "Stack_push (next, s) item =
     (next(item := stack_top s), s\<lparr> stack_top := Some item, stack_size := stack_size s + 1 \<rparr>)"

fun Stack_pop :: "stack_state \<Rightarrow> stack_state \<times> ptr" where
  "Stack_pop (next, s) =
     (case stack_top s of
        None \<Rightarrow> ((next, s), None)
      | Some result \<Rightarrow>
          ((next(result := None), s\<lparr> stack_top := next result, stack_size := stack_size s - 1 \<rparr>), Some result))"

partial_function (option) reverse_loop :: "(nat \<Rightarrow> ptr) \<Rightarrow> ptr \<Rightarrow> ptr \<Rightarrow> ((nat \<Rightarrow> ptr) \<times> ptr) option" where
  "reverse_loop next current prev =
     (case current of
        None \<Rightarrow> Some (next, prev)
      | Some c \<Rightarrow> reverse_loop (next(c := prev)) (next c) (Some c))"

fun Stack_reverse :: "stack_state \<Rightarrow> stack_state option" where
  "Stack_reverse (next, s) =
     (case reverse_loop next (stack_top s) None of
        None \<Rightarrow> None
      | Some (next', prev) \<Rightarrow> Some (next', s\<lparr> stack_top := prev \<rparr>))"

definition Stack_clear :: "nstack \<Rightarrow> nstack" where
  "Stack_clear s = s\<lparr> stack_size := 0, stack_top := None \<rparr>"

definition Stack_items :: "stack_state \<Rightarrow> nat list option" where
  "Stack_items s = walk (fst s) (stack_top (snd s))"

subsection \<open>The queue\<close>

record nqueue =
  queue_size :: nat
  queue_front :: ptr
  queue_back :: ptr

type_synonym queue_state = "(nat \<Rightarrow> ptr) \<times> nqueue"

fun Queue_push :: "queue_state \<Rightarrow> nat \<Rightarrow> queue_state" where
  "Queue_push (next, q) item =
     (let next = (case queue_back q of Some b \<Rightarrow> next(b := Some item) | None \<Rightarrow> next);
          next = next(item := None);
          q = q\<lparr> queue_back := Some item \<rparr>;
          q = (if queue_front q = None then q\<lparr> queue_front := queue_back q \<rparr> else q)
      in (next, q\<lparr> queue_size := queue_size q + 1 \<rparr>))"

fun Queue_pop :: "queue_state \<Rightarrow> queue_state \<times> ptr" where
  "Queue_pop (next, q) =
     (case queue_front q of
        None \<Rightarrow> ((next, q), None)
      | Some result \<Rightarrow>
          (let q = q\<lparr> queue_front := next result \<rparr>;
               next = next(result := None);
               q = (if queue_front q = None then q\<lparr> queue_back := None \<rparr> else q)
           in ((next, q\<lparr> queue_size := queue_size q - 1 \<rparr>), Some result)))"

fun Queue_reverse :: "queue_state \<Rightarrow> queue_state option" where
  "Queue_reverse (next, q) =
     (case reverse_loop next (queue_front q) None of
        None \<Rightarrow> None
      | Some (next', prev) \<Rightarrow> Some (next', q\<lparr> queue_back := queue_front q, queue_front := prev \<rparr>))"

definition Queue_clear :: "nqueue \<Rightarrow> nqueue" where
  "Queue_clear q = q\<lparr> queue_size := 0, queue_front := None, queue_back := None \<rparr>"

definition Queue_items :: "queue_state \<Rightarrow> nat list option" where
  "Queue_items s = walk (fst s) (queue_front (snd s))"

subsection \<open>Segments\<close>

text \<open>The links lead through the nodes in order and end in \<open>q\<close>.\<close>

fun seg :: "(nat \<Rightarrow> ptr) \<Rightarrow> nat list \<Rightarrow> ptr \<Rightarrow> bool" where
  "seg link [] q \<longleftrightarrow> True"
| "seg link (x # xs) q \<longleftrightarrow> link x = hd_ptr xs q \<and> seg link xs q"

lemma seg_append [simp]: "seg link (xs @ ys) q \<longleftrightarrow> seg link xs (hd_ptr ys q) \<and> seg link ys q"
  by (induction xs) auto

lemma seg_frame [simp]: "n \<notin> set xs \<Longrightarrow> seg (link(n := p)) xs q = seg link xs q"
  by (induction xs) auto

lemma walk_seg: "seg link xs None \<Longrightarrow> walk link (hd_ptr xs None) = Some xs"
  by (induction xs) (simp_all add: walk.simps [of link None] walk.simps [of link "Some _"])

definition is_list :: "list_state \<Rightarrow> nat list \<Rightarrow> bool" where
  "is_list s xs \<longleftrightarrow> distinct xs \<and> seg (node_next (fst s)) xs None \<and> seg (node_prev (fst s)) (rev xs) None \<and>
     list_front (snd s) = hd_ptr xs None \<and> list_back (snd s) = hd_ptr (rev xs) None \<and> list_size (snd s) = length xs"

definition is_stack :: "stack_state \<Rightarrow> nat list \<Rightarrow> bool" where
  "is_stack s xs \<longleftrightarrow> distinct xs \<and> seg (fst s) xs None \<and> stack_top (snd s) = hd_ptr xs None \<and> stack_size (snd s) = length xs"

definition is_queue :: "queue_state \<Rightarrow> nat list \<Rightarrow> bool" where
  "is_queue s xs \<longleftrightarrow> distinct xs \<and> seg (fst s) xs None \<and> queue_front (snd s) = hd_ptr xs None \<and>
     queue_back (snd s) = hd_ptr (rev xs) None \<and> queue_size (snd s) = length xs"

text \<open>A store that differs from another only in some nodes.\<close>

definition only_changes :: "nat set \<Rightarrow> node_store \<Rightarrow> node_store \<Rightarrow> bool" where
  "only_changes A h h' \<longleftrightarrow> (\<forall>n. n \<notin> A \<longrightarrow> node_next h' n = node_next h n \<and> node_prev h' n = node_prev h n)"

lemma only_changes_list:
  assumes "only_changes A h h'" "set xs \<inter> A = {}"
  shows "is_list (h', l) xs = is_list (h, l) xs"
proof -
  have "seg (node_next h') ys q = seg (node_next h) ys q" "seg (node_prev h') ys q = seg (node_prev h) ys q"
    if "set ys \<inter> A = {}" for ys q
    using that assms(1) by (induction ys) (auto simp: only_changes_def)
  then show ?thesis using assms(2) by (simp add: is_list_def)
qed

subsection \<open>List operations\<close>

lemma List_push_front_ok:
  assumes "is_list s xs" "item \<notin> set xs"
  shows "is_list (List_push_front s item) (item # xs)"
  using assms by (cases s; cases xs) (auto simp: is_list_def Let_def hd_ptr_eq dest: hd_ptr_mem)

lemma List_push_back_ok:
  assumes "is_list s xs" "item \<notin> set xs"
  shows "is_list (List_push_back s item) (xs @ [item])"
  using assms by (cases s; cases xs rule: rev_cases) (auto simp: is_list_def Let_def hd_ptr_eq dest: hd_ptr_mem)

lemma List_push_next_ok:
  assumes "is_list s (xs @ base # ys)" "item \<notin> set (xs @ base # ys)"
  shows "is_list (List_push_next s base item) (xs @ base # item # ys)"
  using assms by (cases s; cases ys) (auto simp: is_list_def Let_def hd_ptr_eq dest: hd_ptr_mem)

lemma List_push_prev_ok:
  assumes "is_list s (xs @ base # ys)" "item \<notin> set (xs @ base # ys)"
  shows "is_list (List_push_prev s base item) (xs @ item # base # ys)"
  using assms by (cases s; cases xs rule: rev_cases) (auto simp: is_list_def Let_def hd_ptr_eq dest: hd_ptr_mem)


lemma List_pop_front_ok:
  "is_list s [] \<Longrightarrow> List_pop_front s = (s, None)"
  "is_list s (x # xs) \<Longrightarrow> \<exists>s'. List_pop_front s = (s', Some x) \<and> is_list s' xs"
  by (cases s; cases xs; auto simp: is_list_def Let_def hd_ptr_eq dest: hd_ptr_mem)+

lemma List_pop_back_ok:
  "is_list s [] \<Longrightarrow> List_pop_back s = (s, None)"
  "is_list s (xs @ [x]) \<Longrightarrow> \<exists>s'. List_pop_back s = (s', Some x) \<and> is_list s' xs"
  by (cases s; cases xs rule: rev_cases; auto simp: is_list_def Let_def hd_ptr_eq dest: hd_ptr_mem)+

lemma List_pop_current_ok:
  assumes "is_list s (xs @ base # ys)"
  shows "\<exists>s'. List_pop_current s base = (s', Some base) \<and> is_list s' (xs @ ys)"
  using assms by (cases s; cases xs rule: rev_cases; cases ys) (auto simp: is_list_def Let_def hd_ptr_eq dest: hd_ptr_mem)

lemma List_pop_next_ok:
  "is_list s (xs @ [base]) \<Longrightarrow> List_pop_next s base = (s, None)"
  "is_list s (xs @ base # x # ys) \<Longrightarrow> \<exists>s'. List_pop_next s base = (s', Some x) \<and> is_list s' (xs @ base # ys)"
  by (cases s; cases ys; auto simp: is_list_def Let_def hd_ptr_eq dest: hd_ptr_mem)+

lemma List_pop_prev_ok:
  "is_list s (base # ys) \<Longrightarrow> List_pop_prev s base = (s, None)"
  "is_list s (xs @ x # base # ys) \<Longrightarrow> \<exists>s'. List_pop_prev s base = (s', Some x) \<and> is_list s' (xs @ base # ys)"
  by (cases s; cases xs rule: rev_cases; auto simp: is_list_def Let_def hd_ptr_eq dest: hd_ptr_mem)+

text \<open>Reversal: \<open>ds\<close> are the nodes already turned, \<open>ys\<close> those still to come.\<close>

lemma List_reverse_loop_result:
  assumes "distinct (rev ds @ ys)" "seg (node_next h) ys None" "seg (node_next h) ds None"
    "seg (node_prev h) (rev ds) (hd_ptr ys None)"
  shows "\<exists>h'. List_reverse_loop h (hd_ptr ys None) (hd_ptr ds None) = Some (h', hd_ptr (rev ys @ ds) None) \<and>
     seg (node_next h') (rev ys @ ds) None \<and> seg (node_prev h') (rev ds @ ys) None"
  using assms
proof (induction ys arbitrary: ds h)
  case Nil
  then show ?case by (simp add: List_reverse_loop.simps [of h None])
next
  case (Cons y ys)
  let ?h = "set_prev (set_next h y (hd_ptr ds None)) y (hd_ptr ys None)"
  have "\<exists>h'. List_reverse_loop ?h (hd_ptr ys None) (hd_ptr (y # ds) None) = Some (h', hd_ptr (rev ys @ y # ds) None) \<and>
     seg (node_next h') (rev ys @ y # ds) None \<and> seg (node_prev h') (rev (y # ds) @ ys) None"
    using Cons.IH [of "y # ds" ?h] Cons.prems by (simp add: fun_upd_same del: fun_upd_apply)
  then show ?case using Cons.prems(2) by (simp add: List_reverse_loop.simps [of h "Some y"] Let_def)
qed

lemma List_reverse_ok:
  assumes "is_list s xs"
  shows "\<exists>s'. List_reverse s = Some s' \<and> is_list s' (rev xs)"
  using assms List_reverse_loop_result [of "[]" xs "fst s"] by (cases s) (auto simp: is_list_def)

lemma List_items_ok: "is_list s xs \<Longrightarrow> List_items s = Some xs \<and> List_ritems s = Some (rev xs)"
  by (simp add: is_list_def List_items_def List_ritems_def walk_seg)

subsection \<open>Stack and queue operations\<close>

lemma Stack_push_ok: "is_stack s xs \<Longrightarrow> item \<notin> set xs \<Longrightarrow> is_stack (Stack_push s item) (item # xs)"
  by (cases s) (auto simp: is_stack_def)

lemma Stack_pop_ok:
  "is_stack s [] \<Longrightarrow> Stack_pop s = (s, None)"
  "is_stack s (x # xs) \<Longrightarrow> \<exists>s'. Stack_pop s = (s', Some x) \<and> is_stack s' xs"
  by (cases s; auto simp: is_stack_def)+

lemma Queue_push_ok: "is_queue s xs \<Longrightarrow> item \<notin> set xs \<Longrightarrow> is_queue (Queue_push s item) (xs @ [item])"
  by (cases s; cases xs rule: rev_cases) (auto simp: is_queue_def Let_def hd_ptr_eq)

lemma Queue_pop_ok:
  "is_queue s [] \<Longrightarrow> Queue_pop s = (s, None)"
  "is_queue s (x # xs) \<Longrightarrow> \<exists>s'. Queue_pop s = (s', Some x) \<and> is_queue s' xs"
  by (cases s; cases xs; auto simp: is_queue_def Let_def hd_ptr_eq)+

lemma reverse_loop_result:
  assumes "distinct (rev ds @ ys)" "seg link ys None" "seg link ds None"
  shows "\<exists>link'. reverse_loop link (hd_ptr ys None) (hd_ptr ds None) = Some (link', hd_ptr (rev ys @ ds) None) \<and>
     seg link' (rev ys @ ds) None"
  using assms
proof (induction ys arbitrary: ds link)
  case Nil
  then show ?case by (simp add: reverse_loop.simps [of link None])
next
  case (Cons y ys)
  have "\<exists>link'. reverse_loop (link(y := hd_ptr ds None)) (hd_ptr ys None) (hd_ptr (y # ds) None) = Some (link', hd_ptr (rev ys @ y # ds) None) \<and>
     seg link' (rev ys @ y # ds) None"
    using Cons.IH [of "y # ds" "link(y := hd_ptr ds None)"] Cons.prems by (simp add: fun_upd_same del: fun_upd_apply)
  then show ?case using Cons.prems(2) by (simp add: reverse_loop.simps [of link "Some y"])
qed

lemma Stack_reverse_ok: "is_stack s xs \<Longrightarrow> \<exists>s'. Stack_reverse s = Some s' \<and> is_stack s' (rev xs)"
  using reverse_loop_result [of "[]" xs "fst s"] by (cases s) (auto simp: is_stack_def)

lemma Queue_reverse_ok: "is_queue s xs \<Longrightarrow> \<exists>s'. Queue_reverse s = Some s' \<and> is_queue s' (rev xs)"
  using reverse_loop_result [of "[]" xs "fst s"] by (cases s) (auto simp: is_queue_def)


lemma items_ok:
  "is_stack s xs \<Longrightarrow> Stack_items s = Some xs" "is_queue q xs \<Longrightarrow> Queue_items q = Some xs"
  by (simp_all add: is_stack_def is_queue_def Stack_items_def Queue_items_def walk_seg)

subsection \<open>The contract of the linear containers\<close>

datatype linear_op = Push nat | Pop

text \<open>
  The specification keeps the sequence of contained nodes, the next one to leave first; pushing a node
  that is already inside has no specified result. It also collects what the removals return.
\<close>

fun spec_linear :: "(nat \<Rightarrow> nat list \<Rightarrow> nat list) \<Rightarrow> linear_op list \<Rightarrow> nat list \<Rightarrow> (nat list \<times> ptr list) option" where
  "spec_linear put [] xs = Some (xs, [])"
| "spec_linear put (Push x # ops) xs = (if x \<in> set xs then None else spec_linear put ops (put x xs))"
| "spec_linear put (Pop # ops) [] = map_option (\<lambda>(ys, outs). (ys, None # outs)) (spec_linear put ops [])"
| "spec_linear put (Pop # ops) (x # xs) = map_option (\<lambda>(ys, outs). (ys, Some x # outs)) (spec_linear put ops xs)"

fun run_linear :: "('s \<Rightarrow> nat \<Rightarrow> 's) \<Rightarrow> ('s \<Rightarrow> 's \<times> ptr) \<Rightarrow> linear_op list \<Rightarrow> 's \<Rightarrow> 's \<times> ptr list" where
  "run_linear push pop [] s = (s, [])"
| "run_linear push pop (Push x # ops) s = run_linear push pop ops (push s x)"
| "run_linear push pop (Pop # ops) s =
     (let (s', r) = pop s; (s'', outs) = run_linear push pop ops s' in (s'', r # outs))"

locale linear_container =
  fixes repr :: "'s \<Rightarrow> nat list \<Rightarrow> bool"
    and push :: "'s \<Rightarrow> nat \<Rightarrow> 's"
    and pop :: "'s \<Rightarrow> 's \<times> ptr"
    and put :: "nat \<Rightarrow> nat list \<Rightarrow> nat list"
  assumes push_ok: "repr s xs \<Longrightarrow> x \<notin> set xs \<Longrightarrow> repr (push s x) (put x xs)"
    and pop_empty: "repr s [] \<Longrightarrow> pop s = (s, None)"
    and pop_first: "repr s (x # xs) \<Longrightarrow> \<exists>s'. pop s = (s', Some x) \<and> repr s' xs"
begin

lemma run_refines:
  "repr s xs \<Longrightarrow> spec_linear put ops xs = Some (ys, outs) \<Longrightarrow>
   \<exists>s'. run_linear push pop ops s = (s', outs) \<and> repr s' ys"
proof (induction ops arbitrary: s xs ys outs)
  case (Cons op ops)
  show ?case
  proof (cases op)
    case (Push x)
    then have "x \<notin> set xs" "spec_linear put ops (put x xs) = Some (ys, outs)" using Cons.prems by (auto split: if_splits)
    then show ?thesis using Cons.IH [OF push_ok [OF Cons.prems(1)]] Push by simp
  next
    case Pop
    obtain s1 r xs1 outs1 where s1: "pop s = (s1, r)" "repr s1 xs1" "spec_linear put ops xs1 = Some (ys, outs1)" "outs = r # outs1"
    proof (cases xs)
      case Nil
      then show ?thesis using that [of s None "[]"] Cons.prems Pop pop_empty by auto
    next
      case xs: (Cons x xs')
      then show ?thesis using that Cons.prems Pop pop_first [of s x xs'] by auto
    qed
    then show ?thesis using Cons.IH [OF s1(2,3)] Pop by auto
  qed
qed simp

end

interpretation stack: linear_container is_stack Stack_push Stack_pop "(#)"
  by unfold_locales (use Stack_push_ok Stack_pop_ok in blast)+

interpretation queue: linear_container is_queue Queue_push Queue_pop "\<lambda>x xs. xs @ [x]"
  by unfold_locales (use Queue_push_ok Queue_pop_ok in blast)+

interpretation list_lifo: linear_container is_list List_push_front List_pop_front "(#)"
  by unfold_locales (use List_push_front_ok List_pop_front_ok in blast)+

interpretation list_fifo: linear_container is_list List_push_back List_pop_front "\<lambda>x xs. xs @ [x]"
  by unfold_locales (use List_push_back_ok List_pop_front_ok in blast)+

subsection \<open>Two lists over one store\<close>

lemma push_back_changes:
  assumes "is_list (h, l) xs"
  shows "only_changes (set (item # xs)) h (fst (List_push_back (h, l) item))"
  using assms by (cases xs rule: rev_cases) (auto simp: is_list_def only_changes_def Let_def)

lemma pop_current_changes:
  assumes "is_list (h, l) (xs @ base # ys)"
  shows "only_changes (set (xs @ base # ys)) h (fst (fst (List_pop_current (h, l) base)))"
  using assms by (cases xs rule: rev_cases; cases ys) (auto simp: is_list_def only_changes_def Let_def hd_ptr_eq)

subsection \<open>Properties\<close>



text \<open>
  A queue gives the nodes back in the order of their insertion and a stack in the opposite order, for any
  sequence of insertions of absent nodes and removals, removals from the empty container included; the list
  does either when used as one; and reversal of both ends and reverses the contained sequence.
\<close>

theorem Stack_Queue_order:
  assumes "spec_linear (#) ops [] = Some (xs, outs)" and "spec_linear (\<lambda>x ys. ys @ [x]) ops [] = Some (ys, outq)"
    and "is_stack s []" and "is_queue q []" and "is_list l []"
  shows "(\<exists>s'. run_linear Stack_push Stack_pop ops s = (s', outs) \<and> is_stack s' xs \<and> Stack_items s' = Some xs \<and>
       (\<exists>s''. Stack_reverse s' = Some s'' \<and> is_stack s'' (rev xs))) \<and>
     (\<exists>q'. run_linear Queue_push Queue_pop ops q = (q', outq) \<and> is_queue q' ys \<and> Queue_items q' = Some ys \<and>
       (\<exists>q''. Queue_reverse q' = Some q'' \<and> is_queue q'' (rev ys))) \<and>
     (\<exists>l'. run_linear List_push_front List_pop_front ops l = (l', outs) \<and> is_list l' xs) \<and>
     (\<exists>l'. run_linear List_push_back List_pop_front ops l = (l', outq) \<and> is_list l' ys)"
  using stack.run_refines [OF assms(3,1)] queue.run_refines [OF assms(4,2)] list_lifo.run_refines [OF assms(5,1)]
    list_fifo.run_refines [OF assms(5,2)] Stack_reverse_ok Queue_reverse_ok items_ok by blast

theorem Stack_Queue_order_witness:
  "\<exists>q'. run_linear Queue_push Queue_pop [Push 5, Push 3, Pop, Pop, Push 5, Pop] (Map.empty, \<lparr> queue_size = 0, queue_front = None, queue_back = None \<rparr>) =
     (q', [Some 5, Some 3, Some 5]) \<and> is_queue q' []"
  using Stack_Queue_order [of "[Push 5, Push 3, Pop, Pop, Push 5, Pop]" "[]" "[Some 3, Some 5, Some 5]" "[]" "[Some 5, Some 3, Some 5]"
    "(Map.empty, \<lparr> stack_size = 0, stack_top = None \<rparr>)" "(Map.empty, \<lparr> queue_size = 0, queue_front = None, queue_back = None \<rparr>)"
    "(\<lparr> node_next = Map.empty, node_prev = Map.empty \<rparr>, \<lparr> list_size = 0, list_front = None, list_back = None \<rparr>)"]
  by (simp add: is_queue_def is_stack_def is_list_def)

text \<open>
  Moving a node from one list to the back of another list over the same nodes leaves both lists well
  formed, whatever its position: neither operation touches a node of the other list.
\<close>

theorem List_transfer:
  assumes "is_list (h, l1) (xs @ base # ys)" and "is_list (h, l2) zs" and "set (xs @ base # ys) \<inter> set zs = {}"
  shows "\<exists>h' l1' h'' l2'. List_pop_current (h, l1) base = ((h', l1'), Some base) \<and>
     List_push_back (h', l2) base = (h'', l2') \<and>
     is_list (h'', l1') (xs @ ys) \<and> is_list (h'', l2') (zs @ [base])"
proof -
  obtain h' l1' where p: "List_pop_current (h, l1) base = ((h', l1'), Some base)" "is_list (h', l1') (xs @ ys)"
    using List_pop_current_ok [OF assms(1)] by (metis surj_pair)
  obtain h'' l2' where q: "List_push_back (h', l2) base = (h'', l2')" by (metis surj_pair)
  have "is_list (h', l2) zs"
    using only_changes_list [OF pop_current_changes [OF assms(1)], of zs l2] p assms(2,3) by (simp add: Int_commute)
  then have "is_list (h'', l2') (zs @ [base])" "only_changes (set (base # zs)) h' h''"
    using List_push_back_ok [of "(h', l2)" zs base] push_back_changes [of h' l2 zs base] q assms(3) by auto
  moreover have "set (xs @ ys) \<inter> set (base # zs) = {}" using assms(1,3) by (auto simp: is_list_def)
  ultimately show ?thesis using p q only_changes_list [of "set (base # zs)" h' h'' "xs @ ys" l1'] by blast
qed

theorem List_transfer_witness:
  "\<exists>h' l1' h'' l2'. List_pop_current (\<lparr> node_next = [1 \<mapsto> 2], node_prev = [2 \<mapsto> 1] \<rparr>,
       \<lparr> list_size = 2, list_front = Some 1, list_back = Some 2 \<rparr>) 1 = ((h', l1'), Some 1) \<and>
     List_push_back (h', \<lparr> list_size = 1, list_front = Some 3, list_back = Some 3 \<rparr>) 1 = (h'', l2') \<and>
     is_list (h'', l1') [2] \<and> is_list (h'', l2') [3, 1]"
  using List_transfer [of "\<lparr> node_next = [1 \<mapsto> 2], node_prev = [2 \<mapsto> 1] \<rparr>"
    "\<lparr> list_size = 2, list_front = Some 1, list_back = Some 2 \<rparr>" "[]" 1 "[2]"
    "\<lparr> list_size = 1, list_front = Some 3, list_back = Some 3 \<rparr>" "[3]"]
  by (simp add: is_list_def)

end
