(* ===== verification/TreeLinks.thy ===== *)
theory TreeLinks
  imports Prelude "HOL-Library.Tree"
begin

text \<open>
  The links of the intrusive binary trees: every node carries pointers to its parent and its children,
  in an explicit store. A tree of node addresses describes the shape the links form; a subtree in focus
  and the path to the root above it describe a node in the middle of a tree, where the loops of the
  containers stop and change links.
\<close>

record tree_store =
  t_parent :: "nat \<Rightarrow> ptr"
  t_left :: "nat \<Rightarrow> ptr"
  t_right :: "nat \<Rightarrow> ptr"

definition set_parent :: "'a tree_store_scheme \<Rightarrow> nat \<Rightarrow> ptr \<Rightarrow> 'a tree_store_scheme" where
  "set_parent h n p = h\<lparr> t_parent := (t_parent h)(n := p) \<rparr>"

definition set_left :: "'a tree_store_scheme \<Rightarrow> nat \<Rightarrow> ptr \<Rightarrow> 'a tree_store_scheme" where
  "set_left h n p = h\<lparr> t_left := (t_left h)(n := p) \<rparr>"

definition set_right :: "'a tree_store_scheme \<Rightarrow> nat \<Rightarrow> ptr \<Rightarrow> 'a tree_store_scheme" where
  "set_right h n p = h\<lparr> t_right := (t_right h)(n := p) \<rparr>"

lemma set_links [simp]:
  "t_parent (set_parent h n p) = (t_parent h)(n := p)" "t_left (set_parent h n p) = t_left h" "t_right (set_parent h n p) = t_right h"
  "t_parent (set_left h n p) = t_parent h" "t_left (set_left h n p) = (t_left h)(n := p)" "t_right (set_left h n p) = t_right h"
  "t_parent (set_right h n p) = t_parent h" "t_left (set_right h n p) = t_left h" "t_right (set_right h n p) = (t_right h)(n := p)"
  by (simp_all add: set_parent_def set_left_def set_right_def)

fun rt :: "nat tree \<Rightarrow> ptr" where
  "rt Leaf = None"
| "rt (Node l n r) = Some n"

lemma rt_eq [simp]: "rt t = None \<longleftrightarrow> t = Leaf" "None = rt t \<longleftrightarrow> t = Leaf"
  by (cases t; simp)+

lemma rt_Some: "rt t = Some n \<longleftrightarrow> (\<exists>l r. t = Node l n r)"
  by (cases t) auto

lemma rt_mem: "rt t = Some n \<Longrightarrow> n \<in> set_tree t"
  by (auto simp: rt_Some)

text \<open>The links form the tree below a node with the given parent.\<close>

fun linked :: "'a tree_store_scheme \<Rightarrow> ptr \<Rightarrow> nat tree \<Rightarrow> bool" where
  "linked h par Leaf \<longleftrightarrow> True"
| "linked h par (Node l n r) \<longleftrightarrow> t_parent h n = par \<and> t_left h n = rt l \<and> t_right h n = rt r \<and>
     linked h (Some n) l \<and> linked h (Some n) r"

lemma linked_cong:
  "\<forall>n \<in> set_tree t. t_parent h' n = t_parent h n \<and> t_left h' n = t_left h n \<and> t_right h' n = t_right h n \<Longrightarrow>
   linked h' par t = linked h par t"
  by (induction t arbitrary: par) auto

lemma linked_frame [simp]:
  "n \<notin> set_tree t \<Longrightarrow> linked (set_parent h n p) par t = linked h par t"
  "n \<notin> set_tree t \<Longrightarrow> linked (set_left h n p) par t = linked h par t"
  "n \<notin> set_tree t \<Longrightarrow> linked (set_right h n p) par t = linked h par t"
  by (auto intro!: linked_cong)

text \<open>Only the root of a tree points to the parent.\<close>

lemma linked_reparent:
  "linked h par (Node l n r) \<Longrightarrow> n \<notin> set_tree l \<Longrightarrow> n \<notin> set_tree r \<Longrightarrow> linked (set_parent h n par') par' (Node l n r)"
  by simp

subsection \<open>A subtree in focus\<close>

text \<open>A step of the path to the root: the focus is the left or the right child of the node.\<close>

datatype step = L nat "nat tree" | R "nat tree" nat

type_synonym path = "step list"

fun plug :: "nat tree \<Rightarrow> path \<Rightarrow> nat tree" where
  "plug t [] = t"
| "plug t (L n r # c) = plug (Node t n r) c"
| "plug t (R l n # c) = plug (Node l n t) c"

fun up :: "path \<Rightarrow> ptr" where
  "up [] = None"
| "up (L n r # c) = Some n"
| "up (R l n # c) = Some n"

fun nodes_path :: "path \<Rightarrow> nat set" where
  "nodes_path [] = {}"
| "nodes_path (L n r # c) = insert n (set_tree r \<union> nodes_path c)"
| "nodes_path (R l n # c) = insert n (set_tree l \<union> nodes_path c)"

text \<open>The nodes before and after the focus in symmetric order.\<close>

fun before :: "path \<Rightarrow> nat list" where
  "before [] = []"
| "before (L n r # c) = before c"
| "before (R l n # c) = before c @ inorder l @ [n]"

fun after :: "path \<Rightarrow> nat list" where
  "after [] = []"
| "after (L n r # c) = n # inorder r @ after c"
| "after (R l n # c) = after c"

lemma inorder_plug: "inorder (plug t c) = before c @ inorder t @ after c"
  by (induction t c rule: plug.induct) simp_all

lemma set_plug: "set_tree (plug t c) = set_tree t \<union> nodes_path c"
  by (induction t c rule: plug.induct) auto

lemma set_path: "nodes_path c = set (before c) \<union> set (after c)"
  by (induction c rule: nodes_path.induct) auto

text \<open>The links along the path, above a focus with root pointer \<open>q\<close>.\<close>

fun linked_path :: "'a tree_store_scheme \<Rightarrow> ptr \<Rightarrow> path \<Rightarrow> bool" where
  "linked_path h q [] \<longleftrightarrow> True"
| "linked_path h q (L n r # c) \<longleftrightarrow> t_left h n = q \<and> t_right h n = rt r \<and> t_parent h n = up c \<and> linked h (Some n) r \<and> linked_path h (Some n) c"
| "linked_path h q (R l n # c) \<longleftrightarrow> t_right h n = q \<and> t_left h n = rt l \<and> t_parent h n = up c \<and> linked h (Some n) l \<and> linked_path h (Some n) c"

lemma linked_plug: "linked h None (plug t c) \<longleftrightarrow> linked h (up c) t \<and> linked_path h (rt t) c"
  by (induction t c rule: plug.induct) auto

lemma linked_path_cong:
  "\<forall>n \<in> nodes_path c. t_parent h' n = t_parent h n \<and> t_left h' n = t_left h n \<and> t_right h' n = t_right h n \<Longrightarrow>
   linked_path h' q c = linked_path h q c"
proof (induction h q c rule: linked_path.induct)
  case (2 h q n r c)
  then show ?case using linked_cong [of r h' h] by simp
next
  case (3 h q l n c)
  then show ?case using linked_cong [of l h' h] by simp
qed simp

lemma linked_path_frame [simp]:
  "n \<notin> nodes_path c \<Longrightarrow> linked_path (set_parent h n p) q c = linked_path h q c"
  "n \<notin> nodes_path c \<Longrightarrow> linked_path (set_left h n p) q c = linked_path h q c"
  "n \<notin> nodes_path c \<Longrightarrow> linked_path (set_right h n p) q c = linked_path h q c"
  by (auto intro!: linked_path_cong)

fun root_of :: "ptr \<Rightarrow> path \<Rightarrow> ptr" where
  "root_of q [] = q"
| "root_of q (L n r # c) = root_of (Some n) c"
| "root_of q (R l n # c) = root_of (Some n) c"

lemma rt_plug: "rt (plug t c) = root_of (rt t) c"
  by (induction t c rule: plug.induct) simp_all

lemma root_of_step: "c \<noteq> [] \<Longrightarrow> root_of q c = root_of q' c"
  by (cases c rule: nodes_path.cases) simp_all

text \<open>Every node of a tree can be brought into focus.\<close>

lemma focus_ex: "n \<in> set_tree t \<Longrightarrow> \<exists>l r c. t = plug (Node l n r) c"
proof -
  have "n \<in> set_tree t \<Longrightarrow> \<exists>l r c. plug t c0 = plug (Node l n r) (c @ c0)" for c0
  proof (induction t arbitrary: c0)
    case (Node a m b)
    consider "n = m" | "n \<in> set_tree a" | "n \<in> set_tree b" using Node.prems by auto
    then show ?case
    proof cases
      case 1
      then show ?thesis by (metis append_Nil)
    next
      case 2
      from Node.IH(1) [OF 2, of "L m b # c0"] obtain l r c where "plug a (L m b # c0) = plug (Node l n r) (c @ L m b # c0)" by blast
      then show ?thesis by (intro exI [of _ l] exI [of _ r] exI [of _ "c @ [L m b]"]) simp
    next
      case 3
      from Node.IH(2) [OF 3, of "R a m # c0"] obtain l r c where "plug b (R a m # c0) = plug (Node l n r) (c @ R a m # c0)" by blast
      then show ?thesis by (intro exI [of _ l] exI [of _ r] exI [of _ "c @ [R a m]"]) simp
    qed
  qed simp
  from this [of "[]"] show "n \<in> set_tree t \<Longrightarrow> \<exists>l r c. t = plug (Node l n r) c" by simp
qed

subsection \<open>Mirror images\<close>

text \<open>Exchanging left and right turns the reverse loops of the containers into the forward ones.\<close>

definition flip :: "'a tree_store_scheme \<Rightarrow> 'a tree_store_scheme" where
  "flip h = h\<lparr> t_left := t_right h, t_right := t_left h \<rparr>"

lemma flip_links [simp]: "t_parent (flip h) = t_parent h" "t_left (flip h) = t_right h" "t_right (flip h) = t_left h" "flip (flip h) = h"
  by (simp_all add: flip_def)

lemma rt_mirror [simp]: "rt (mirror t) = rt t"
  by (cases t) simp_all

lemma linked_flip: "linked (flip h) par (mirror t) = linked h par t"
  by (induction t arbitrary: par) auto

end
