(* ===== verification/OrderContract.thy ===== *)
theory OrderContract
  imports Prelude
begin

text \<open>
  The contract of the ordered intrusive containers: a sequence of nodes sorted by a comparator that is a
  strict weak order, insertion of a node unless one with an equal key is present, and erasure of the node
  with an equal key. \<^const>\<open>None\<close> as the result of an operation stands for a C++ loop that does not end.
\<close>

type_synonym order = "nat \<Rightarrow> nat \<Rightarrow> bool"

definition weak_order :: "order \<Rightarrow> bool" where
  "weak_order cmp \<longleftrightarrow> (\<forall>a. \<not> cmp a a) \<and> (\<forall>a b c. cmp a b \<longrightarrow> cmp b c \<longrightarrow> cmp a c) \<and>
     (\<forall>a b c. \<not> cmp a b \<longrightarrow> \<not> cmp b c \<longrightarrow> \<not> cmp a c)"

definition same_key :: "order \<Rightarrow> nat \<Rightarrow> nat \<Rightarrow> bool" where
  "same_key cmp a b \<longleftrightarrow> \<not> cmp a b \<and> \<not> cmp b a"

definition spec_insert :: "order \<Rightarrow> nat \<Rightarrow> nat list \<Rightarrow> nat list" where
  "spec_insert cmp x xs =
     (if \<exists>y \<in> set xs. same_key cmp x y then xs else filter (\<lambda>y. cmp y x) xs @ x # filter (\<lambda>y. cmp x y) xs)"

definition spec_erase :: "order \<Rightarrow> nat \<Rightarrow> nat list \<Rightarrow> nat list" where
  "spec_erase cmp x xs = (case List.find (same_key cmp x) xs of None \<Rightarrow> xs | Some n \<Rightarrow> remove1 n xs)"

lemma weak_orderD:
  assumes "weak_order cmp"
  shows "\<not> cmp a a" "cmp a b \<Longrightarrow> cmp b c \<Longrightarrow> cmp a c" "\<not> cmp a b \<Longrightarrow> \<not> cmp b c \<Longrightarrow> \<not> cmp a c"
  using assms unfolding weak_order_def by blast+

lemma sorted_distinct: "weak_order cmp \<Longrightarrow> sorted_wrt cmp xs \<Longrightarrow> distinct xs"
  by (induction xs) (auto dest: weak_orderD)

datatype order_op = Add nat | Del nat

text \<open>Inserting a node that is already linked has no specified result.\<close>

fun spec_order :: "order \<Rightarrow> order_op list \<Rightarrow> nat list \<Rightarrow> nat list option" where
  "spec_order cmp [] xs = Some xs"
| "spec_order cmp (Add x # ops) xs = (if x \<in> set xs then None else spec_order cmp ops (spec_insert cmp x xs))"
| "spec_order cmp (Del x # ops) xs = spec_order cmp ops (spec_erase cmp x xs)"

fun run_order :: "('s \<Rightarrow> nat \<Rightarrow> ('s \<times> nat \<times> bool) option) \<Rightarrow> ('s \<Rightarrow> nat \<Rightarrow> ('s \<times> ptr) option) \<Rightarrow>
    order_op list \<Rightarrow> 's \<Rightarrow> 's option" where
  "run_order ins era [] s = Some s"
| "run_order ins era (Add x # ops) s = (case ins s x of None \<Rightarrow> None | Some (s', n, inserted) \<Rightarrow> run_order ins era ops s')"
| "run_order ins era (Del x # ops) s = (case era s x of None \<Rightarrow> None | Some (s', n) \<Rightarrow> run_order ins era ops s')"

locale ordered_container =
  fixes cmp :: order
    and repr :: "'s \<Rightarrow> nat list \<Rightarrow> bool"
    and ins :: "'s \<Rightarrow> nat \<Rightarrow> ('s \<times> nat \<times> bool) option"
    and era :: "'s \<Rightarrow> nat \<Rightarrow> ('s \<times> ptr) option"
  assumes sorted: "repr s xs \<Longrightarrow> sorted_wrt cmp xs"
    and ins_ok: "repr s xs \<Longrightarrow> x \<notin> set xs \<Longrightarrow>
      \<exists>s' n. ins s x = Some (s', n, \<not> (\<exists>y \<in> set xs. same_key cmp x y)) \<and> repr s' (spec_insert cmp x xs)"
    and era_ok: "repr s xs \<Longrightarrow>
      \<exists>s'. era s x = Some (s', List.find (same_key cmp x) xs) \<and> repr s' (spec_erase cmp x xs)"
begin

lemma run_order_ok:
  "repr s xs \<Longrightarrow> spec_order cmp ops xs = Some ys \<Longrightarrow>
   \<exists>s'. run_order ins era ops s = Some s' \<and> repr s' ys \<and> sorted_wrt cmp ys"
proof (induction ops arbitrary: s xs)
  case Nil
  then show ?case using sorted by auto
next
  case (Cons op ops)
  show ?case
  proof (cases op)
    case (Add x)
    then have "x \<notin> set xs" "spec_order cmp ops (spec_insert cmp x xs) = Some ys" using Cons.prems by (auto split: if_splits)
    then show ?thesis using ins_ok [OF Cons.prems(1), of x] Cons.IH Add by fastforce
  next
    case (Del x)
    then show ?thesis using era_ok [OF Cons.prems(1), of x] Cons.IH Cons.prems by fastforce
  qed
qed

end

end
