(* ===== verification/BinTree.thy ===== *)
theory BinTree
  imports TreeLinks OrderContract
begin

text \<open>
  The intrusive binary search tree of \<^verbatim>\<open>include/containers/bintree.h\<close> and
  \<^verbatim>\<open>include/containers/bintree.inl\<close>, over the store of links of \<^theory_text>\<open>TreeLinks\<close>. The comparator
  is a parameter; the searching and climbing loops are partial functions (\<^const>\<open>None\<close> for a loop that
  does not end), and the container refines the sorted sequence of its nodes.
\<close>

record bintree =
  bt_size :: nat
  bt_root :: ptr

type_synonym 'a tree_state = "'a tree_store_scheme \<times> bintree"

subsection \<open>Ends and search\<close>

partial_function (option) leftmost :: "'a tree_store_scheme \<Rightarrow> nat \<Rightarrow> nat option" where
  "leftmost h n = (case t_left h n of None \<Rightarrow> Some n | Some m \<Rightarrow> leftmost h m)"

partial_function (option) rightmost :: "'a tree_store_scheme \<Rightarrow> nat \<Rightarrow> nat option" where
  "rightmost h n = (case t_right h n of None \<Rightarrow> Some n | Some m \<Rightarrow> rightmost h m)"

fun InternalLowest :: "'a tree_state \<Rightarrow> ptr option" where
  "InternalLowest (h, b) = (case bt_root b of None \<Rightarrow> Some None | Some n \<Rightarrow> map_option Some (leftmost h n))"

fun InternalHighest :: "'a tree_state \<Rightarrow> ptr option" where
  "InternalHighest (h, b) = (case bt_root b of None \<Rightarrow> Some None | Some n \<Rightarrow> map_option Some (rightmost h n))"

partial_function (option) find_node :: "order \<Rightarrow> 'a tree_store_scheme \<Rightarrow> ptr \<Rightarrow> nat \<Rightarrow> ptr option" where
  "find_node cmp h current item =
     (case current of
        None \<Rightarrow> Some None
      | Some n \<Rightarrow>
          if cmp item n then find_node cmp h (t_left h n) item
          else if cmp n item then find_node cmp h (t_right h n) item
          else Some (Some n))"

partial_function (option) lower_node :: "order \<Rightarrow> 'a tree_store_scheme \<Rightarrow> ptr \<Rightarrow> ptr \<Rightarrow> nat \<Rightarrow> ptr option" where
  "lower_node cmp h current previous item =
     (case current of
        None \<Rightarrow> Some previous
      | Some n \<Rightarrow>
          if cmp item n then lower_node cmp h (t_left h n) (Some n) item
          else if cmp n item then lower_node cmp h (t_right h n) previous item
          else Some (Some n))"

partial_function (option) upper_node :: "order \<Rightarrow> 'a tree_store_scheme \<Rightarrow> ptr \<Rightarrow> ptr \<Rightarrow> nat \<Rightarrow> ptr option" where
  "upper_node cmp h current previous item =
     (case current of
        None \<Rightarrow> Some previous
      | Some n \<Rightarrow>
          if cmp item n then upper_node cmp h (t_left h n) (Some n) item
          else upper_node cmp h (t_right h n) previous item)"

fun InternalFind :: "order \<Rightarrow> 'a tree_state \<Rightarrow> nat \<Rightarrow> ptr option" where
  "InternalFind cmp (h, b) item = find_node cmp h (bt_root b) item"

fun InternalLowerBound :: "order \<Rightarrow> 'a tree_state \<Rightarrow> nat \<Rightarrow> ptr option" where
  "InternalLowerBound cmp (h, b) item = lower_node cmp h (bt_root b) None item"

fun InternalUpperBound :: "order \<Rightarrow> 'a tree_state \<Rightarrow> nat \<Rightarrow> ptr option" where
  "InternalUpperBound cmp (h, b) item = upper_node cmp h (bt_root b) None item"

subsection \<open>Iteration\<close>

partial_function (option) climb_next :: "order \<Rightarrow> 'a tree_store_scheme \<Rightarrow> nat \<Rightarrow> ptr option" where
  "climb_next cmp h n =
     (case t_parent h n of
        None \<Rightarrow> Some None
      | Some p \<Rightarrow> if cmp p n then climb_next cmp h p else Some (Some p))"

partial_function (option) climb_prev :: "order \<Rightarrow> 'a tree_store_scheme \<Rightarrow> nat \<Rightarrow> ptr option" where
  "climb_prev cmp h n =
     (case t_parent h n of
        None \<Rightarrow> Some None
      | Some p \<Rightarrow> if cmp n p then climb_prev cmp h p else Some (Some p))"

definition next_node :: "order \<Rightarrow> 'a tree_store_scheme \<Rightarrow> nat \<Rightarrow> ptr option" where
  "next_node cmp h n =
     (case t_right h n of Some m \<Rightarrow> map_option Some (leftmost h m) | None \<Rightarrow> climb_next cmp h n)"

definition prev_node :: "order \<Rightarrow> 'a tree_store_scheme \<Rightarrow> nat \<Rightarrow> ptr option" where
  "prev_node cmp h n =
     (case t_left h n of Some m \<Rightarrow> map_option Some (rightmost h m) | None \<Rightarrow> climb_prev cmp h n)"

text \<open>A \<^verbatim>\<open>for\<close> loop with an iterator whose increment is \<open>step\<close>.\<close>

partial_function (option) visit :: "(nat \<Rightarrow> ptr option) \<Rightarrow> ptr \<Rightarrow> nat list option" where
  "visit step p =
     (case p of
        None \<Rightarrow> Some []
      | Some n \<Rightarrow> Option.bind (step n) (\<lambda>q. Option.bind (visit step q) (\<lambda>ns. Some (n # ns))))"

definition BinTree_items :: "order \<Rightarrow> 'a tree_state \<Rightarrow> nat list option" where
  "BinTree_items cmp s = Option.bind (InternalLowest s) (visit (next_node cmp (fst s)))"

definition BinTree_ritems :: "order \<Rightarrow> 'a tree_state \<Rightarrow> nat list option" where
  "BinTree_ritems cmp s = Option.bind (InternalHighest s) (visit (prev_node cmp (fst s)))"

subsection \<open>Insertion\<close>

partial_function (option) insert_descend ::
  "order \<Rightarrow> 'a tree_store_scheme \<Rightarrow> nat \<Rightarrow> nat \<Rightarrow> ('a tree_store_scheme \<times> nat \<times> bool) option" where
  "insert_descend cmp h current item =
     (if cmp item current then
        (case t_left h current of
           Some n \<Rightarrow> insert_descend cmp h n item
         | None \<Rightarrow> Some (set_left h current (Some item), current, True))
      else if cmp current item then
        (case t_right h current of
           Some n \<Rightarrow> insert_descend cmp h n item
         | None \<Rightarrow> Some (set_right h current (Some item), current, True))
      else Some (h, current, False))"

fun link_item :: "'a tree_state \<Rightarrow> ptr \<Rightarrow> nat \<Rightarrow> 'a tree_state" where
  "link_item (h, b) current item =
     (let h = set_parent h item current;
          h = set_left h item None;
          h = set_right h item None;
          b = (if bt_root b = None then b\<lparr> bt_root := Some item \<rparr> else b)
      in (h, b\<lparr> bt_size := bt_size b + 1 \<rparr>))"

fun BinTree_insert_at :: "order \<Rightarrow> 'a tree_state \<Rightarrow> ptr \<Rightarrow> nat \<Rightarrow> ('a tree_state \<times> nat \<times> bool) option" where
  "BinTree_insert_at cmp (h, b) position item =
     (case position of
        None \<Rightarrow> Some (link_item (h, b) None item, item, True)
      | Some n \<Rightarrow>
          (case insert_descend cmp h n item of
             None \<Rightarrow> None
           | Some (h', current, attached) \<Rightarrow>
               if attached then Some (link_item (h', b) (Some current) item, item, True)
               else Some ((h', b), current, False)))"

definition BinTree_insert :: "order \<Rightarrow> 'a tree_state \<Rightarrow> nat \<Rightarrow> ('a tree_state \<times> nat \<times> bool) option" where
  "BinTree_insert cmp s item = BinTree_insert_at cmp s (bt_root (snd s)) item"

subsection \<open>Erasure\<close>

fun replace_child :: "'a tree_state \<Rightarrow> ptr \<Rightarrow> nat \<Rightarrow> ptr \<Rightarrow> 'a tree_state" where
  "replace_child (h, b) parent result child =
     (case parent of
        Some p \<Rightarrow> (if t_left h p = Some result then set_left h p child else set_right h p child, b)
      | None \<Rightarrow> (h, b\<lparr> bt_root := child \<rparr>))"

fun unlink_item :: "'a tree_state \<Rightarrow> nat \<Rightarrow> 'a tree_state" where
  "unlink_item (h, b) result =
     (let h = set_parent h result None;
          h = set_left h result None;
          h = set_right h result None
      in (h, b\<lparr> bt_size := bt_size b - 1 \<rparr>))"

fun BinTree_erase_at :: "'a tree_state \<Rightarrow> ptr \<Rightarrow> ('a tree_state \<times> ptr) option" where
  "BinTree_erase_at (h, b) it =
     (case it of
        None \<Rightarrow> Some ((h, b), None)
      | Some result \<Rightarrow>
          (let parent = t_parent h result; left = t_left h result; right = t_right h result
           in case left of
                None \<Rightarrow>
                  (let (h, b) = replace_child (h, b) parent result right;
                       h = (case right of Some r \<Rightarrow> set_parent h r parent | None \<Rightarrow> h)
                   in Some (unlink_item (h, b) result, Some result))
              | Some l \<Rightarrow>
                  (case right of
                     None \<Rightarrow>
                       (let (h, b) = replace_child (h, b) parent result left;
                            h = set_parent h l parent
                        in Some (unlink_item (h, b) result, Some result))
                   | Some r \<Rightarrow>
                       (let (h, b) = replace_child (h, b) parent result left;
                            h = set_parent h l parent
                        in case rightmost h l of
                             None \<Rightarrow> None
                           | Some temp \<Rightarrow>
                               (let h = set_right h temp right;
                                    h = set_parent h r (Some temp)
                                in Some (unlink_item (h, b) result, Some result))))))"

definition BinTree_erase :: "order \<Rightarrow> 'a tree_state \<Rightarrow> nat \<Rightarrow> ('a tree_state \<times> ptr) option" where
  "BinTree_erase cmp s item = Option.bind (InternalFind cmp s item) (BinTree_erase_at s)"

definition BinTree_clear :: "bintree \<Rightarrow> bintree" where
  "BinTree_clear b = b\<lparr> bt_size := 0, bt_root := None \<rparr>"

declare leftmost.simps [code] rightmost.simps [code] find_node.simps [code] lower_node.simps [code] upper_node.simps [code]
  climb_next.simps [code] climb_prev.simps [code] visit.simps [code] insert_descend.simps [code]

subsection \<open>The refinement relation\<close>

definition shaped :: "'a tree_state \<Rightarrow> nat tree \<Rightarrow> bool" where
  "shaped s t \<longleftrightarrow> linked (fst s) None t \<and> bt_root (snd s) = rt t \<and> bt_size (snd s) = length (inorder t)"

definition is_bst :: "order \<Rightarrow> 'a tree_state \<Rightarrow> nat list \<Rightarrow> bool" where
  "is_bst cmp s xs \<longleftrightarrow> weak_order cmp \<and> sorted_wrt cmp xs \<and> (\<exists>t. inorder t = xs \<and> shaped s t)"

lemma rt_inorder: "rt t = Some n \<Longrightarrow> inorder t \<noteq> []"
  by (cases t) simp_all

lemma leftmost_hd: "linked h par t \<Longrightarrow> rt t = Some n \<Longrightarrow> leftmost h n = Some (hd (inorder t))"
proof (induction t arbitrary: par n)
  case (Node l m r)
  show ?case
  proof (cases "rt l")
    case None
    then show ?thesis using Node.prems by (simp add: leftmost.simps [of h n])
  next
    case (Some k)
    then show ?thesis using Node.IH(1) [OF _ Some, of "Some n"] Node.prems rt_inorder [OF Some] by (simp add: leftmost.simps [of h n])
  qed
qed simp

lemma rightmost_last: "linked h par t \<Longrightarrow> rt t = Some n \<Longrightarrow> rightmost h n = Some (last (inorder t))"
proof (induction t arbitrary: par n)
  case (Node l m r)
  show ?case
  proof (cases "rt r")
    case None
    then show ?thesis using Node.prems by (simp add: rightmost.simps [of h n])
  next
    case (Some k)
    then show ?thesis using Node.IH(2) [OF _ Some, of "Some n"] Node.prems rt_inorder [OF Some] by (simp add: rightmost.simps [of h n])
  qed
qed simp

lemma hd_ptr_hd: "xs \<noteq> [] \<Longrightarrow> hd_ptr xs q = Some (hd xs)"
  by (cases xs) simp_all

lemma lowest_ok: "shaped s t \<Longrightarrow> InternalLowest s = Some (hd_ptr (inorder t) None)"
  using leftmost_hd [of "fst s" None t] by (cases s; cases "rt t") (auto simp: shaped_def hd_ptr_hd [OF rt_inorder])

lemma highest_ok: "shaped s t \<Longrightarrow> InternalHighest s = Some (hd_ptr (rev (inorder t)) None)"
  using rightmost_last [of "fst s" None t] 
  by (cases s; cases "rt t") (auto simp: shaped_def hd_ptr_hd hd_rev dest: rt_inorder)

text \<open>The search loops on a sorted tree find the first node with the property.\<close>

lemma find_append: "List.find P (xs @ ys) = (case List.find P xs of None \<Rightarrow> List.find P ys | Some x \<Rightarrow> Some x)"
  by (induction xs) auto

lemma find_none: "\<forall>x \<in> set xs. \<not> P x \<Longrightarrow> List.find P xs = None"
  by (simp add: find_None_iff)


lemma find_node_ok:
  assumes ord: "weak_order cmp"
  shows "linked h par t \<Longrightarrow> sorted_wrt cmp (inorder t) \<Longrightarrow>
     find_node cmp h (rt t) item = Some (List.find (same_key cmp item) (inorder t))"
proof (induction t arbitrary: par)
  case Leaf
  then show ?case by (simp add: find_node.simps [of cmp h None])
next
  case (Node l n r)
  note o = weak_orderD [OF ord]
  have s: "\<forall>y \<in> set (inorder l). cmp y n" "\<forall>y \<in> set (inorder r). cmp n y"
    using Node.prems(2) by (auto simp: sorted_wrt_append)
  consider "cmp item n" | "\<not> cmp item n" "cmp n item" | "same_key cmp item n" by (auto simp: same_key_def)
  then show ?case
  proof cases
    case 1
    have "List.find (same_key cmp item) (n # inorder r) = None"
      using 1 s(2) o(2) [OF 1] by (intro find_none) (auto simp: same_key_def)
    then show ?thesis using 1 Node by (auto simp: find_node.simps [of cmp h "Some n"] find_append sorted_wrt_append split: option.splits)
  next
    case 2
    have "List.find (same_key cmp item) (inorder l @ [n]) = None"
      using 2 s(1) o(2) [OF _ 2(2)] by (intro find_none) (auto simp: same_key_def)
    then show ?thesis using 2 Node by (auto simp: find_node.simps [of cmp h "Some n"] find_append sorted_wrt_append split: option.splits)
  next
    case 3
    have "cmp y item" if "y \<in> set (inorder l)" for y using 3 s(1) that o(3) [of y item n] by (auto simp: same_key_def)
    then have "List.find (same_key cmp item) (inorder l) = None" by (intro find_none) (auto simp: same_key_def)
    then show ?thesis using 3 by (simp add: find_node.simps [of cmp h "Some n"] find_append) (simp add: same_key_def)
  qed
qed

lemma lower_node_ok:
  assumes ord: "weak_order cmp"
  shows "linked h par t \<Longrightarrow> sorted_wrt cmp (inorder t) \<Longrightarrow>
     lower_node cmp h (rt t) q item =
       Some (case List.find (\<lambda>y. \<not> cmp y item) (inorder t) of None \<Rightarrow> q | Some y \<Rightarrow> Some y)"
proof (induction t arbitrary: par q)
  case Leaf
  then show ?case by (simp add: lower_node.simps [of cmp h None])
next
  case (Node l n r)
  note o = weak_orderD [OF ord]
  have s: "\<forall>y \<in> set (inorder l). cmp y n" using Node.prems(2) by (auto simp: sorted_wrt_append)
  consider "cmp item n" "\<not> cmp n item" | "\<not> cmp item n" "cmp n item" | "\<not> cmp item n" "\<not> cmp n item" using o by blast
  then show ?case
  proof cases
    case 1
    then show ?thesis using Node by (auto simp: lower_node.simps [of cmp h "Some n"] find_append sorted_wrt_append split: option.splits)
  next
    case 2
    have "List.find (\<lambda>y. \<not> cmp y item) (inorder l @ [n]) = None" 
      using 2 s o(2) [OF _ 2(2)] by (intro find_none) auto
    then show ?thesis using 2 Node by (auto simp: lower_node.simps [of cmp h "Some n"] find_append sorted_wrt_append split: option.splits)
  next
    case 3
    have "\<forall>y \<in> set (inorder l). cmp y item" using 3 s o by metis
    then have "List.find (\<lambda>y. \<not> cmp y item) (inorder l) = None" by (intro find_none) simp
    then show ?thesis using 3 by (auto simp: lower_node.simps [of cmp h "Some n"] find_append)
  qed
qed

lemma upper_node_ok:
  assumes ord: "weak_order cmp"
  shows "linked h par t \<Longrightarrow> sorted_wrt cmp (inorder t) \<Longrightarrow>
     upper_node cmp h (rt t) q item =
       Some (case List.find (cmp item) (inorder t) of None \<Rightarrow> q | Some y \<Rightarrow> Some y)"
proof (induction t arbitrary: par q)
  case Leaf
  then show ?case by (simp add: upper_node.simps [of cmp h None])
next
  case (Node l n r)
  note o = weak_orderD [OF ord]
  have s: "\<forall>y \<in> set (inorder l). cmp y n" using Node.prems(2) by (auto simp: sorted_wrt_append)
  show ?case
  proof (cases "cmp item n")
    case True
    then show ?thesis using Node by (auto simp: upper_node.simps [of cmp h "Some n"] find_append sorted_wrt_append split: option.splits)
  next
    case False
    have "List.find (cmp item) (inorder l @ [n]) = None" 
      using False s o(3) [OF False] o(2) by (intro find_none) auto
    then show ?thesis using False Node by (auto simp: upper_node.simps [of cmp h "Some n"] find_append sorted_wrt_append split: option.splits)
  qed
qed

subsection \<open>Iteration visits the nodes in order\<close>

lemma climb_next_ok:
  assumes ord: "weak_order cmp"
  shows "linked_path h (Some n) c \<Longrightarrow> t_parent h n = up c \<Longrightarrow> sorted_wrt cmp (before c @ n # after c) \<Longrightarrow>
     climb_next cmp h n = Some (hd_ptr (after c) None)"
proof (induction c arbitrary: n)
  case Nil
  then show ?case by (simp add: climb_next.simps [of cmp h n])
next
  case (Cons s c)
  note o = weak_orderD [OF ord]
  show ?case
  proof (cases s)
    case (L p r)
    then have "cmp n p" using Cons.prems by (simp add: sorted_wrt_append)
    then have "\<not> cmp p n" using o by blast
    then show ?thesis using Cons.prems L by (simp add: climb_next.simps [of cmp h n])
  next
    case (R l p)
    then have "cmp p n" "sorted_wrt cmp (before c @ p # after c)" using Cons.prems by (simp_all add: sorted_wrt_append)
    then show ?thesis using Cons.IH [of p] Cons.prems R by (simp add: climb_next.simps [of cmp h n])
  qed
qed

lemma climb_prev_ok:
  assumes ord: "weak_order cmp"
  shows "linked_path h (Some n) c \<Longrightarrow> t_parent h n = up c \<Longrightarrow> sorted_wrt cmp (before c @ n # after c) \<Longrightarrow>
     climb_prev cmp h n = Some (hd_ptr (rev (before c)) None)"
proof (induction c arbitrary: n)
  case Nil
  then show ?case by (simp add: climb_prev.simps [of cmp h n])
next
  case (Cons s c)
  note o = weak_orderD [OF ord]
  show ?case
  proof (cases s)
    case (L p r)
    then have "cmp n p" "sorted_wrt cmp (before c @ p # after c)" using Cons.prems by (simp_all add: sorted_wrt_append)
    then show ?thesis using Cons.IH [of p] Cons.prems L by (simp add: climb_prev.simps [of cmp h n])
  next
    case (R l p)
    then have "cmp p n" using Cons.prems by (simp add: sorted_wrt_append)
    then have "\<not> cmp n p" using o by blast
    then show ?thesis using Cons.prems R by (simp add: climb_prev.simps [of cmp h n])
  qed
qed

text \<open>The two steps of the iterators, from a node in the middle of the sequence.\<close>

lemma neighbours:
  assumes "weak_order cmp" "linked h None t" "sorted_wrt cmp (inorder t)" "inorder t = xs @ n # ys"
  shows "next_node cmp h n = Some (hd_ptr ys None)" "prev_node cmp h n = Some (hd_ptr (rev xs) None)"
proof -
  have "n \<in> set_tree t" using assms(4) set_inorder [of t] by auto
  then obtain l r c where t: "t = plug (Node l n r) c" using focus_ex by blast
  have "distinct (xs @ n # ys)" using sorted_distinct assms(1,3,4) by metis
  then have d: "n \<notin> set xs" "n \<notin> set ys" by auto
  have "xs @ n # ys = (before c @ inorder l) @ n # (inorder r @ after c)" using assms(4) by (simp add: t inorder_plug)
  then have xs: "xs = before c @ inorder l" "ys = inorder r @ after c"
    using append_Cons_eq_iff [OF d, of "before c @ inorder l" "inorder r @ after c"] by simp_all
  have s: "sorted_wrt cmp (before c @ n # after c)" using assms(3) by (auto simp: t inorder_plug sorted_wrt_append)
  have lk: "linked h (up c) (Node l n r)" "linked_path h (Some n) c" using assms(2) by (simp_all add: t linked_plug)
  show "next_node cmp h n = Some (hd_ptr ys None)"
    using climb_next_ok [OF assms(1) lk(2) _ s] leftmost_hd [of h "Some n" r] lk(1)
    by (cases "rt r") (auto simp: next_node_def xs hd_ptr_hd dest: rt_inorder)
  show "prev_node cmp h n = Some (hd_ptr (rev xs) None)"
    using climb_prev_ok [OF assms(1) lk(2) _ s] rightmost_last [of h "Some n" l] lk(1)
    by (cases "rt l") (auto simp: prev_node_def xs hd_ptr_hd hd_rev dest: rt_inorder)
qed

lemma visit_ok:
  assumes "\<And>ys n zs. xs = ys @ n # zs \<Longrightarrow> step n = Some (hd_ptr zs None)"
  shows "visit step (hd_ptr xs None) = Some xs"
proof -
  have "xs = ys @ zs \<Longrightarrow> visit step (hd_ptr zs None) = Some zs" for ys zs
  proof (induction zs arbitrary: ys)
    case (Cons z zs)
    then show ?case using Cons.IH [of "ys @ [z]"] assms [of ys z zs] by (simp add: visit.simps [of step "Some z"])
  qed (simp add: visit.simps [of step None])
  from this [of "[]"] show ?thesis by simp
qed

lemma iteration_ok:
  assumes "is_bst cmp s xs"
  shows "BinTree_items cmp s = Some xs" "BinTree_ritems cmp s = Some (rev xs)"
proof -
  obtain t where t: "inorder t = xs" "shaped s t" "linked (fst s) None t" "weak_order cmp" "sorted_wrt cmp (inorder t)"
    using assms by (auto simp: is_bst_def shaped_def)
  have "visit (next_node cmp (fst s)) (hd_ptr xs None) = Some xs"
    by (rule visit_ok) (rule neighbours(1) [OF t(4,3,5)], simp add: t(1))
  then show "BinTree_items cmp s = Some xs" using lowest_ok [OF t(2)] t(1) by (simp add: BinTree_items_def)
  have "visit (prev_node cmp (fst s)) (hd_ptr (rev xs) None) = Some (rev xs)"
  proof (rule visit_ok)
    fix ys n zs
    assume "rev xs = ys @ n # zs"
    then have "xs = rev zs @ n # rev ys" by (metis rev.simps(2) rev_append rev_rev_ident append_assoc append_Cons append_Nil)
    then show "prev_node cmp (fst s) n = Some (hd_ptr zs None)" using neighbours(2) [OF t(4,3,5), of "rev zs" n "rev ys"] t(1) by simp
  qed
  then show "BinTree_ritems cmp s = Some (rev xs)" using highest_ok [OF t(2)] t(1) by (simp add: BinTree_ritems_def)
qed

subsection \<open>Insertion\<close>

text \<open>Storing a child pointer in the last node of a path.\<close>

fun set_child :: "'a tree_store_scheme \<Rightarrow> path \<Rightarrow> ptr \<Rightarrow> 'a tree_store_scheme" where
  "set_child h [] q = h"
| "set_child h (L n r # c) q = set_left h n q"
| "set_child h (R l n # c) q = set_right h n q"

lemma set_child_path:
  assumes "linked_path h q c" "distinct (before c @ after c)"
  shows "linked_path (set_child h c q') q' c"
proof (cases c)
  case (Cons s d)
  then show ?thesis using assms set_path [of d] by (cases s) (auto simp: set_inorder [symmetric] simp del: set_inorder)
qed simp

lemma set_child_frame:
  "up c = Some p \<Longrightarrow> p \<notin> set_tree t \<Longrightarrow> linked (set_child h c q) par t = linked h par t"
  by (cases c rule: nodes_path.cases) auto

lemma set_child_parent [simp]: "t_parent (set_child h c q) = t_parent h"
  by (cases c rule: nodes_path.cases) auto

text \<open>The place of a new item: an empty subtree with all smaller nodes before and all larger ones after it.\<close>

definition place :: "order \<Rightarrow> nat \<Rightarrow> path \<Rightarrow> bool" where
  "place cmp item c \<longleftrightarrow> (\<forall>y \<in> set (before c). cmp y item) \<and> (\<forall>y \<in> set (after c). cmp item y)"

lemma insert_descend_ok:
  assumes ord: "weak_order cmp"
  shows "linked h None (plug (Node l n r) c) \<Longrightarrow> sorted_wrt cmp (inorder (plug (Node l n r) c)) \<Longrightarrow> place cmp item c \<Longrightarrow>
     (\<exists>m. insert_descend cmp h n item = Some (h, m, False) \<and> m \<in> set_tree (plug (Node l n r) c) \<and> same_key cmp item m) \<or>
     (\<exists>c' p. insert_descend cmp h n item = Some (set_child h c' (Some item), p, True) \<and> plug Leaf c' = plug (Node l n r) c \<and>
        up c' = Some p \<and> place cmp item c')"
proof (induction "Node l n r" arbitrary: l n r c)
  case (Node l n r)
  note o = weak_orderD [OF ord]
  have lk: "t_left h n = rt l" "t_right h n = rt r" using Node.prems(1) by (simp_all add: linked_plug)
  have s: "\<forall>y \<in> set (inorder l). cmp y n" "\<forall>y \<in> set (inorder r). cmp n y"
    using Node.prems(2) by (simp_all add: inorder_plug sorted_wrt_append)
  consider (lt) "cmp item n" | (gt) "\<not> cmp item n" "cmp n item" | (eq) "same_key cmp item n" by (auto simp: same_key_def)
  then show ?case
  proof cases
    case lt
    have pl: "place cmp item (L n r # c)" using Node.prems(3) lt s(2) o(2) [OF lt] by (auto simp: place_def)
    show ?thesis
    proof (cases l)
      case Leaf
      then show ?thesis using lk lt pl
        by (intro disjI2 exI [of _ "L n r # c"]) (simp add: insert_descend.simps [of cmp h n])
    next
      case (Node l1 n1 r1)
      then show ?thesis using Node.hyps(1) [OF Node, of "L n r # c"] Node.prems pl lk lt
        by (simp add: insert_descend.simps [of cmp h n])
    qed
  next
    case gt
    have pl: "place cmp item (R l n # c)" using Node.prems(3) gt s(1) o(2) [OF _ gt(2)] by (auto simp: place_def)
    show ?thesis
    proof (cases r)
      case Leaf
      then show ?thesis using lk gt pl
        by (intro disjI2 exI [of _ "R l n # c"]) (simp add: insert_descend.simps [of cmp h n])
    next
      case (Node l1 n1 r1)
      then show ?thesis using Node.hyps(2) [OF Node, of "R l n # c"] Node.prems pl lk gt
        by (simp add: insert_descend.simps [of cmp h n])
    qed
  next
    case eq
    then show ?thesis by (auto simp: insert_descend.simps [of cmp h n] same_key_def set_plug)
  qed
qed

lemma place_unique:
  assumes "weak_order cmp" "place cmp item c"
  shows "spec_insert cmp item (before c @ after c) = before c @ item # after c"
proof -
  note o = weak_orderD [OF assms(1)]
  have b: "\<forall>y \<in> set (before c). cmp y item \<and> \<not> cmp item y" "\<forall>y \<in> set (after c). cmp item y \<and> \<not> cmp y item"
    using assms(2) o unfolding place_def by blast+
  then have "filter (\<lambda>y. cmp y item) (before c) = before c" "filter (\<lambda>y. cmp y item) (after c) = []"
    "filter (\<lambda>y. cmp item y) (before c) = []" "filter (\<lambda>y. cmp item y) (after c) = after c"
    by (simp_all add: filter_id_conv filter_empty_conv)
  moreover have "\<not> (\<exists>y \<in> set (before c @ after c). same_key cmp item y)" using b by (auto simp: same_key_def)
  ultimately show ?thesis by (simp add: spec_insert_def)
qed

lemma place_sorted:
  assumes "weak_order cmp" "place cmp item c" "sorted_wrt cmp (before c @ after c)"
  shows "sorted_wrt cmp (before c @ item # after c)"
  using assms by (simp add: sorted_wrt_append place_def)

text \<open>Linking the new node at its place.\<close>

lemma link_at_place:
  assumes "linked h None (plug Leaf c)" "distinct (before c @ after c)" "item \<notin> set (before c @ after c)" "up c = p"
  shows "linked (set_right (set_left (set_parent (set_child h c (Some item)) item p) item None) item None) None (plug (Node Leaf item Leaf) c)"
proof -
  have i: "item \<notin> nodes_path c" using assms(3) by (simp add: set_path)
  have "linked_path (set_child h c (Some item)) (Some item) c"
    using set_child_path [OF _ assms(2)] assms(1) by (simp add: linked_plug)
  then show ?thesis using i assms(4) by (simp add: linked_plug)
qed

lemma more_links [simp]:
  "tree_store.more (set_parent h n p) = tree_store.more h" "tree_store.more (set_left h n p) = tree_store.more h"
  "tree_store.more (set_right h n p) = tree_store.more h" "tree_store.more (set_child h c q) = tree_store.more h"
  by (simp_all add: set_parent_def set_left_def set_right_def) (cases c rule: nodes_path.cases; simp add: set_left_def set_right_def)

text \<open>Insertion finds a node with the same key, or links the item at its place in the tree.\<close>

lemma BinTree_insert_cases:
  assumes "weak_order cmp" "sorted_wrt cmp (inorder t)" "shaped s t" "item \<notin> set (inorder t)"
  obtains (dup) m where "BinTree_insert cmp s item = Some (s, m, False)" "m \<in> set (inorder t)" "same_key cmp item m"
  | (new) c s' where "BinTree_insert cmp s item = Some (s', item, True)" "plug Leaf c = t" "place cmp item c"
      "shaped s' (plug (Node Leaf item Leaf) c)" "tree_store.more (fst s') = tree_store.more (fst s)"
proof -
  obtain h b where s: "s = (h, b)" by (cases s)
  have t: "linked h None t" "bt_root b = rt t" "bt_size b = length (inorder t)" using assms(3) by (auto simp: shaped_def s)
  have pl: "place cmp item []" by (simp add: place_def)
  show thesis
  proof (cases t)
    case Leaf
    show thesis
      by (rule new [of "link_item (h, b) None item" "[]"]) (use Leaf t pl in \<open>auto simp: BinTree_insert_def s shaped_def Let_def\<close>)
  next
    case (Node l n r)
    from insert_descend_ok [OF assms(1), of h l n r "[]", OF _ _ pl] t assms(2) Node consider
      (1) m where "insert_descend cmp h n item = Some (h, m, False)" "m \<in> set_tree t" "same_key cmp item m"
    | (2) c p where "insert_descend cmp h n item = Some (set_child h c (Some item), p, True)" "plug Leaf c = t" "up c = Some p" "place cmp item c"
      by auto
    then show thesis
    proof cases
      case 1
      then show thesis using dup [of m] t(2) Node by (simp add: BinTree_insert_def s)
    next
      case 2
      have ba: "inorder t = before c @ after c" using 2(2) inorder_plug [of Leaf c] by simp
      have "linked (set_right (set_left (set_parent (set_child h c (Some item)) item (Some p)) item None) item None) None (plug (Node Leaf item Leaf) c)"
        using link_at_place [of h c item "Some p"] 2(2,3) t(1) assms(4) sorted_distinct [OF assms(1,2)] ba by simp
      moreover have "rt (plug (Node Leaf item Leaf) c) = rt t"
        using 2(2,3) rt_plug root_of_step [of c] by (cases c) auto
      moreover have "length (inorder (plug (Node Leaf item Leaf) c)) = Suc (length (inorder t))" unfolding ba by (simp only: inorder_plug) simp
      ultimately have "shaped (link_item (set_child h c (Some item), b) (Some p) item) (plug (Node Leaf item Leaf) c)"
        using t(2,3) Node by (simp add: shaped_def Let_def del: length_inorder)
      then show thesis using new [OF _ 2(2,4)] 2 t(2) Node by (simp add: BinTree_insert_def s Let_def)
    qed
  qed
qed

lemma place_split:
  assumes "weak_order cmp" "sorted_wrt cmp (inorder t)" "plug Leaf c = t" "place cmp item c"
  shows "inorder (plug (Node Leaf item Leaf) c) = spec_insert cmp item (inorder t)" "sorted_wrt cmp (spec_insert cmp item (inorder t))"
    "\<not> (\<exists>y \<in> set (inorder t). same_key cmp item y)"
proof -
  have ba: "inorder t = before c @ after c" using assms(3) inorder_plug [of Leaf c] by simp
  note pu = place_unique [OF assms(1,4)]
  show "inorder (plug (Node Leaf item Leaf) c) = spec_insert cmp item (inorder t)" by (simp add: ba pu inorder_plug)
  show "sorted_wrt cmp (spec_insert cmp item (inorder t))" using place_sorted [OF assms(1,4)] assms(2) by (simp add: ba pu)
  show "\<not> (\<exists>y \<in> set (inorder t). same_key cmp item y)" using assms(4) by (auto simp: ba place_def same_key_def simp del: set_inorder)
qed

lemma BinTree_insert_ok:
  assumes "is_bst cmp s xs" "item \<notin> set xs"
  shows "\<exists>s' n. BinTree_insert cmp s item = Some (s', n, \<not> (\<exists>y \<in> set xs. same_key cmp item y)) \<and>
     is_bst cmp s' (spec_insert cmp item xs)"
proof -
  obtain t where t: "weak_order cmp" "sorted_wrt cmp (inorder t)" "shaped s t" "inorder t = xs" using assms(1) by (auto simp: is_bst_def)
  have "item \<notin> set (inorder t)" using assms(2) t(4) by simp
  with t(1-3) show ?thesis
  proof (cases rule: BinTree_insert_cases)
    case (dup m)
    then show ?thesis using assms(1) t(4) by (auto simp: spec_insert_def)
  next
    case (new c s')
    then show ?thesis using place_split [OF t(1,2) new(2,3)] t(1,4) by (auto simp: is_bst_def simp del: set_inorder)
  qed
qed

subsection \<open>Erasure\<close>

lemma replace_child_ok:
  assumes "linked h None (plug (Node l n r) c)" "distinct (inorder (plug (Node l n r) c))"
  shows "replace_child (h, b) (up c) n q = (set_child h c q, if c = [] then b\<lparr> bt_root := q \<rparr> else b)"
proof (cases c)
  case (Cons s d)
  then show ?thesis using assms by (cases s) (auto simp: linked_plug inorder_plug dest: rt_mem)
qed simp

text \<open>Hanging a subtree under the last node of a path.\<close>

lemma graft:
  assumes "linked h par t" "linked_path h q c" "distinct (before c @ inorder t @ after c)"
  shows "linked (case rt t of Some m \<Rightarrow> set_parent (set_child h c (rt t)) m (up c) | None \<Rightarrow> set_child h c (rt t)) None (plug t c)"
proof -
  have lp: "linked_path (set_child h c (rt t)) (rt t) c" using assms(2,3) by (intro set_child_path) auto
  have d: "nodes_path c \<inter> set_tree t = {}" using assms(3) by (auto simp: set_path)
  have lt: "linked (set_child h c (rt t)) par t" using assms(1) d by (cases c rule: nodes_path.cases) auto
  show ?thesis
  proof (cases t)
    case Leaf
    then show ?thesis using lp by (simp add: linked_plug)
  next
    case (Node l m r)
    then show ?thesis using lp lt d assms(3) by (auto simp: linked_plug)
  qed
qed

fun join :: "nat tree \<Rightarrow> nat tree \<Rightarrow> nat tree" where
  "join Leaf r = r"
| "join (Node a m b) r = Node a m (join b r)"

lemma inorder_join [simp]: "inorder (join l r) = inorder l @ inorder r"
  by (induction l) simp_all

lemma rt_join: "l \<noteq> Leaf \<Longrightarrow> rt (join l r) = rt l"
  by (cases l) simp_all

lemma join_ok:
  assumes "linked h q r" "rt r = Some rn"
  shows "linked h par l \<Longrightarrow> rt l = Some ln \<Longrightarrow> distinct (inorder l @ inorder r) \<Longrightarrow>
     linked (set_parent (set_right h (last (inorder l)) (Some rn)) rn (Some (last (inorder l)))) par (join l r)"
proof (induction l arbitrary: par ln)
  case (Node a m b)
  obtain r1 r2 where r: "r = Node r1 rn r2" using assms(2) by (auto simp: rt_Some)
  show ?case
  proof (cases b)
    case Leaf
    then show ?thesis using Node.prems assms(1) r by auto
  next
    case b: (Node b1 k b2)
    define x where "x = last (inorder b)"
    have x: "x \<in> set_tree b" "last (inorder (Node a m b)) = x" using b last_in_set [of "inorder b"] by (simp_all add: x_def del: last_in_set)
    moreover have "linked (set_parent (set_right h x (Some rn)) rn (Some x)) (Some m) (join b r)"
      using Node.IH(2) [of "Some m" k] Node.prems b by (simp add: x_def)
    moreover have "x \<notin> set_tree a" "x \<noteq> m" "rn \<notin> set_tree a" "rn \<noteq> m" using x(1) Node.prems(3) r by auto
    ultimately show ?thesis using Node.prems(1) rt_join [of b r] b by (simp del: inorder.simps)
  qed
qed simp


lemma graft_path:
  assumes "linked h par t" "linked_path h q c" "distinct (before c @ inorder t @ after c)" "rt t = Some m"
  shows "linked (set_parent (set_child h c (Some m)) m (up c)) None (plug t c)"
  using graft [OF assms(1-3)] assms(4) by simp

lemma set_child_linked:
  "set_tree t \<inter> nodes_path c = {} \<Longrightarrow> linked (set_child h c q) par t = linked h par t"
  by (cases c rule: nodes_path.cases) auto

lemma root_after_graft: "root_of q c = (if c = [] then q else root_of q' c)"
  using root_of_step [of c q q'] by simp

lemma unlink_ok:
  assumes "linked h None t" "n \<notin> set_tree t" "bt_root b = rt t" "bt_size b = Suc (length (inorder t))"
  shows "shaped (unlink_item (h, b) n) t"
  using assms by (simp add: shaped_def Let_def)

lemma BinTree_erase_at_ok:
  assumes "linked h None (plug (Node l n r) c)" "distinct (inorder (plug (Node l n r) c))"
    "bt_root b = rt (plug (Node l n r) c)" "bt_size b = length (inorder (plug (Node l n r) c))"
  shows "\<exists>s'. BinTree_erase_at (h, b) (Some n) = Some (s', Some n) \<and> shaped s' (plug (join l r) c)"
proof -
  note rep = replace_child_ok [OF assms(1,2), of b]
  have lk: "t_parent h n = up c" "t_left h n = rt l" "t_right h n = rt r" "linked h (Some n) l" "linked h (Some n) r" "linked_path h (Some n) c"
    using assms(1) by (simp_all add: linked_plug)
  have d: "distinct (before c @ inorder l @ n # inorder r @ after c)" using assms(2) by (simp add: inorder_plug)
  have n: "n \<notin> set_tree (plug (join l r) c)"
    using d by (auto simp: set_inorder [symmetric] inorder_plug simp del: set_inorder)
  have fin: "shaped (unlink_item (h', if c = [] then b\<lparr> bt_root := rt (join l r) \<rparr> else b) n) (plug (join l r) c)"
    if "linked h' None (plug (join l r) c)" for h'
    using assms(3,4) that n root_after_graft [of "Some n" c "rt (join l r)"]
    by (intro unlink_ok) (auto simp: rt_plug inorder_plug)
  consider "l = Leaf" | ln where "rt l = Some ln" "r = Leaf" | ln rn where "rt l = Some ln" "rt r = Some rn"
    by (cases "rt l"; cases "rt r") auto
  then show ?thesis
  proof cases
    case 1
    have "linked (case rt r of Some m \<Rightarrow> set_parent (set_child h c (rt r)) m (up c) | None \<Rightarrow> set_child h c (rt r)) None (plug r c)"
      using graft [OF lk(5,6)] d by auto
    then show ?thesis using fin 1 lk rep by (auto simp: Let_def simp del: unlink_item.simps)
  next
    case 2
    have "linked (set_parent (set_child h c (Some ln)) ln (up c)) None (plug l c)"
      using graft_path [OF lk(4,6) _ 2(1)] d by auto
    moreover have "join l Leaf = l" by (induction l) simp_all
    ultimately show ?thesis using fin 2 lk rep by (auto simp: Let_def simp del: unlink_item.simps)
  next
    case 3
    let ?h = "set_parent (set_child h c (Some ln)) ln (up c)" and ?x = "last (inorder l)"
    have g: "linked ?h None (plug l c)" using graft_path [OF lk(4,6) _ 3(1)] d by auto
    then have gl: "linked ?h (up c) l" "linked_path ?h (Some ln) c" using 3 by (simp_all add: linked_plug)
    have "ln \<notin> set_tree r" using rt_mem [OF 3(1)] d by auto
    then have gr: "linked ?h (Some n) r" using lk(5) d set_child_linked [of r c h "Some ln"] by (auto simp: set_path)
    have xr: "?x \<in> set_tree l" "rn \<in> set_tree r" using 3 rt_inorder [OF 3(1)] rt_mem last_in_set set_inorder by metis+
    then have "?x \<notin> nodes_path c" "rn \<notin> nodes_path c" using d by (auto simp: set_path)
    moreover have "l \<noteq> Leaf" "distinct (inorder l @ inorder r)" using 3 d by auto
    ultimately have "linked (set_parent (set_right ?h ?x (Some rn)) rn (Some ?x)) None (plug (join l r) c)"
      using join_ok [OF gr 3(2) gl(1) 3(1)] gl(2) 3 by (simp add: linked_plug rt_join)
    moreover have "rightmost ?h ln = Some ?x" by (rule rightmost_last [OF gl(1) 3(1)])
    ultimately show ?thesis using fin 3 lk rep \<open>l \<noteq> Leaf\<close> by (auto simp: Let_def rt_join simp del: unlink_item.simps)
  qed
qed

lemma remove1_middle: "n \<notin> set xs \<Longrightarrow> remove1 n (xs @ n # ys) = xs @ ys"
  by (simp add: remove1_append)

lemma BinTree_erase_node:
  assumes "is_bst cmp s xs" "n \<in> set xs"
  shows "\<exists>s'. BinTree_erase_at s (Some n) = Some (s', Some n) \<and> is_bst cmp s' (remove1 n xs)"
proof -
  obtain h b where s: "s = (h, b)" by (cases s)
  obtain t where t: "inorder t = xs" "linked h None t" "bt_root b = rt t" "bt_size b = length (inorder t)" and ord: "weak_order cmp"
    and srt: "sorted_wrt cmp xs" using assms(1) by (auto simp: is_bst_def shaped_def s)
  obtain l r c where f: "t = plug (Node l n r) c" using focus_ex assms(2) t(1) set_inorder by metis
  have d: "distinct (inorder t)" using sorted_distinct [OF ord srt] t(1) by simp
  have xs: "xs = (before c @ inorder l) @ n # (inorder r @ after c)" using t(1) f by (simp add: inorder_plug)
  have r: "remove1 n xs = inorder (plug (join l r) c)"
    unfolding xs using d t(1) xs by (subst remove1_middle) (auto simp: inorder_plug)
  have "sorted_wrt cmp (remove1 n xs)"
    using srt unfolding r unfolding xs by (simp add: inorder_plug sorted_wrt_append)
  then show ?thesis using BinTree_erase_at_ok [of h l n r c b] t d f ord r by (auto simp: is_bst_def s simp del: BinTree_erase_at.simps)
qed

lemma BinTree_find_ok: "is_bst cmp s xs \<Longrightarrow> InternalFind cmp s item = Some (List.find (same_key cmp item) xs)"
  using find_node_ok by (cases s) (fastforce simp: is_bst_def shaped_def)


lemma find_SomeD: "List.find P xs = Some n \<Longrightarrow> n \<in> set xs \<and> P n"
  by (auto simp: find_Some_iff)

lemma BinTree_erase_ok:
  assumes "is_bst cmp s xs"
  shows "\<exists>s'. BinTree_erase cmp s item = Some (s', List.find (same_key cmp item) xs) \<and> is_bst cmp s' (spec_erase cmp item xs)"
proof (cases "List.find (same_key cmp item) xs")
  case None
  then show ?thesis using BinTree_find_ok [OF assms, of item] assms by (cases s) (auto simp: BinTree_erase_def spec_erase_def)
next
  case (Some n)
  then show ?thesis using BinTree_find_ok [OF assms, of item] BinTree_erase_node [OF assms, of n] find_SomeD [OF Some]
    by (auto simp: BinTree_erase_def spec_erase_def)
qed

interpretation bin_tree: ordered_container cmp "is_bst cmp" "BinTree_insert cmp" "BinTree_erase cmp"
proof
  fix s :: "'a tree_state" and xs x
  show "is_bst cmp s xs \<Longrightarrow> sorted_wrt cmp xs" by (simp add: is_bst_def)
  show "is_bst cmp s xs \<Longrightarrow> x \<notin> set xs \<Longrightarrow> \<exists>s' n. BinTree_insert cmp s x = Some (s', n, \<not> (\<exists>y \<in> set xs. same_key cmp x y)) \<and>
      is_bst cmp s' (spec_insert cmp x xs)"
    using BinTree_insert_ok by blast
  show "is_bst cmp s xs \<Longrightarrow> \<exists>s'. BinTree_erase cmp s x = Some (s', List.find (same_key cmp x) xs) \<and> is_bst cmp s' (spec_erase cmp x xs)"
    by (rule BinTree_erase_ok)
qed

text \<open>
  Insertion with the end iterator as the position hint attaches the item to nothing when the tree is not
  empty: the item is counted but not linked, and the tree is no longer well formed.
\<close>

lemma insert_at_end_loses_item:
  assumes "is_bst cmp s xs" "xs \<noteq> []" "item \<notin> set xs"
  shows "\<exists>s'. BinTree_insert_at cmp s None item = Some (s', item, True) \<and> BinTree_items cmp s' = Some xs \<and>
     bt_size (snd s') = Suc (length xs)"
proof -
  obtain h b where s: "s = (h, b)" by (cases s)
  obtain t where t: "inorder t = xs" "linked h None t" "bt_root b = rt t" "bt_size b = length xs"
    using assms(1) by (auto simp: is_bst_def shaped_def s)
  let ?h = "set_right (set_left (set_parent h item None) item None) item None"
  have "item \<notin> set_tree t" using assms(3) t(1) by auto
  then have "is_bst cmp (?h, b) xs" using assms(1) t by (auto simp: is_bst_def shaped_def s)
  from iteration_ok(1) [OF this] have "BinTree_items cmp (?h, b\<lparr> bt_size := bt_size b + 1 \<rparr>) = Some xs"
    by (simp add: BinTree_items_def)
  moreover have "rt t \<noteq> None" using assms(2) t(1) by auto
  ultimately show ?thesis using t(3,4) by (auto simp: s Let_def)
qed

subsection \<open>Properties\<close>

text \<open>
  C13. The binary tree refines a sorted sequence of nodes: from the empty tree, any sequence of insertions of
  unlinked nodes and erasures by key ends, keeps the links a binary search tree whose symmetric order
  is the specified sequence, and iteration in both directions visits exactly that sequence.
\<close>

theorem BinTree_refines_sorted:
  assumes "weak_order cmp" and "spec_order cmp ops [] = Some xs"
  shows "\<exists>s. run_order (BinTree_insert cmp) (BinTree_erase cmp) ops (h, \<lparr> bt_size = 0, bt_root = None \<rparr>) = Some s \<and>
     is_bst cmp s xs \<and> sorted_wrt cmp xs \<and> bt_size (snd s) = length xs \<and>
     BinTree_items cmp s = Some xs \<and> BinTree_ritems cmp s = Some (rev xs)"
proof -
  have "is_bst cmp (h, \<lparr> bt_size = 0, bt_root = None \<rparr>) []"
    using assms(1) by (auto simp: is_bst_def shaped_def intro!: exI [of _ Leaf])
  then obtain s where s: "run_order (BinTree_insert cmp) (BinTree_erase cmp) ops (h, \<lparr> bt_size = 0, bt_root = None \<rparr>) = Some s"
    "is_bst cmp s xs" "sorted_wrt cmp xs"
    using bin_tree.run_order_ok [OF _ assms(2)] by blast
  moreover have "bt_size (snd s) = length xs" using s(2) by (auto simp: is_bst_def shaped_def)
  ultimately show ?thesis using iteration_ok [OF s(2)] by blast
qed

theorem BinTree_refines_sorted_witness:
  "\<exists>s. run_order (BinTree_insert (<)) (BinTree_erase (<)) [Add 5, Add 2, Add 8, Del 5, Add 3]
       (\<lparr> t_parent = Map.empty, t_left = Map.empty, t_right = Map.empty \<rparr>, \<lparr> bt_size = 0, bt_root = None \<rparr>) = Some s \<and>
     is_bst (<) s [2, 3, 8]"
  using BinTree_refines_sorted [of "(<)" "[Add 5, Add 2, Add 8, Del 5, Add 3]" "[2, 3, 8]" "\<lparr> t_parent = Map.empty, t_left = Map.empty, t_right = Map.empty \<rparr>"]
  by (auto simp: weak_order_def spec_insert_def spec_erase_def same_key_def)

lemma search_ok:
  assumes "is_bst cmp s xs"
  shows "InternalLowest s = Some (hd_ptr xs None) \<and> InternalHighest s = Some (hd_ptr (rev xs) None) \<and>
     InternalFind cmp s item = Some (List.find (same_key cmp item) xs) \<and>
     InternalLowerBound cmp s item = Some (List.find (\<lambda>y. \<not> cmp y item) xs) \<and>
     InternalUpperBound cmp s item = Some (List.find (\<lambda>y. cmp item y) xs)"
proof -
  obtain h b where s: "s = (h, b)" by (cases s)
  obtain t where t: "inorder t = xs" "shaped s t" "linked h None t" "bt_root b = rt t" "sorted_wrt cmp (inorder t)" "weak_order cmp"
    using assms by (auto simp: is_bst_def shaped_def s)
  have "lower_node cmp h (rt t) None item = Some (List.find (\<lambda>y. \<not> cmp y item) xs)"
    "upper_node cmp h (rt t) None item = Some (List.find (\<lambda>y. cmp item y) xs)"
    using lower_node_ok [OF t(6,3,5), of None item] upper_node_ok [OF t(6,3,5), of None item]
    by (simp_all add: t(1) split: option.splits)
  then show ?thesis using lowest_ok [OF t(2)] highest_ok [OF t(2)] BinTree_find_ok [OF assms, of item] t(1,4) by (simp add: s)
qed

text \<open>
  Search in a binary tree ends and finds the right nodes: the lowest and highest nodes are the ends of
  the sequence, \<^verbatim>\<open>find\<close> gives the node with an equal key, the lower bound the first node that is
  not less and the upper bound the first one that is greater, or the end when there is none.
\<close>

theorem BinTree_search:
  assumes "is_bst cmp s xs"
  shows "InternalLowest s = Some (hd_ptr xs None) \<and> InternalHighest s = Some (hd_ptr (rev xs) None) \<and>
     InternalFind cmp s item = Some (List.find (same_key cmp item) xs) \<and>
     InternalLowerBound cmp s item = Some (List.find (\<lambda>y. \<not> cmp y item) xs) \<and>
     InternalUpperBound cmp s item = Some (List.find (\<lambda>y. cmp item y) xs)"
  using assms by (rule search_ok)

theorem BinTree_search_witness:
  "InternalLowerBound (<) (\<lparr> t_parent = [1 \<mapsto> 4], t_left = [4 \<mapsto> 1], t_right = Map.empty \<rparr>, \<lparr> bt_size = 2, bt_root = Some 4 \<rparr>) 2 = Some (Some 4)"
proof -
  let ?s = "(\<lparr> t_parent = [1 \<mapsto> 4], t_left = [4 \<mapsto> 1], t_right = Map.empty \<rparr>, \<lparr> bt_size = 2, bt_root = Some 4 \<rparr>)"
  have "is_bst (<) ?s [1, 4]"
    by (auto simp: is_bst_def shaped_def weak_order_def intro!: exI [of _ "Node (Node Leaf 1 Leaf) 4 Leaf"])
  from BinTree_search [OF this, of 2] show ?thesis by simp
qed

end
