(* ===== verification/TreeRotate.thy ===== *)
theory TreeRotate
  imports BinTree
begin

text \<open>
  The pointer manoeuvres that the balanced trees share: a subtree moves under another parent, and two nodes
  exchange their places in the tree. Both are described by the shape the links form afterwards.
\<close>

subsection \<open>Moving a subtree\<close>

text \<open>The parent of a node gets another child in its place.\<close>

definition relink_parent :: "'a tree_store_scheme \<Rightarrow> nat \<Rightarrow> nat \<Rightarrow> 'a tree_store_scheme" where
  "relink_parent h node current =
     (case t_parent h node of
        Some p \<Rightarrow> if t_left h p = Some node then set_left h p (Some current) else set_right h p (Some current)
      | None \<Rightarrow> h)"

definition adopt :: "'a tree_store_scheme \<Rightarrow> ptr \<Rightarrow> nat \<Rightarrow> 'a tree_store_scheme" where
  "adopt h child parent = (case child of Some m \<Rightarrow> set_parent h m (Some parent) | None \<Rightarrow> h)"

lemma relink_ok:
  assumes "linked h None (plug (Node l n r) c)" "distinct (inorder (plug (Node l n r) c))"
  shows "relink_parent h n m = set_child h c (Some m)"
proof (cases c)
  case (Cons s d)
  then show ?thesis using assms by (cases s) (auto simp: relink_parent_def linked_plug inorder_plug dest: rt_mem)
qed (use assms in \<open>simp add: relink_parent_def\<close>)

lemma adopt_linked: "linked h par t \<Longrightarrow> distinct (inorder t) \<Longrightarrow> linked (adopt h (rt t) n) (Some n) t"
  by (cases t) (auto simp: adopt_def)

lemma adopt_frame: "set_tree t \<inter> set_tree u = {} \<Longrightarrow> linked (adopt h (rt t) n) par u = linked h par u"
  by (cases t) (auto simp: adopt_def)

lemma adopt_links [simp]: "t_left (adopt h q n) = t_left h" "t_right (adopt h q n) = t_right h"
  "t_parent (adopt h q n) m = (if q = Some m then Some n else t_parent h m)"
  by (auto simp: adopt_def split: option.splits)

lemma adopt_path: "set_tree t \<inter> nodes_path c = {} \<Longrightarrow> linked_path (adopt h (rt t) n) p c = linked_path h p c"
  by (cases t) (auto simp: adopt_def)

lemma set_child_links:
  "up c \<noteq> Some n \<Longrightarrow> t_left (set_child h c q) n = t_left h n" "up c \<noteq> Some n \<Longrightarrow> t_right (set_child h c q) n = t_right h n"
  by (cases c rule: nodes_path.cases; auto)+

lemma up_path: "up c = Some n \<Longrightarrow> n \<in> nodes_path c"
  by (cases c rule: nodes_path.cases) auto

subsection \<open>Exchanging two nodes\<close>

definition is_left :: "'a tree_store_scheme \<Rightarrow> ptr \<Rightarrow> nat \<Rightarrow> bool" where
  "is_left h parent node = (case parent of Some p \<Rightarrow> t_left h p = Some node | None \<Rightarrow> False)"

definition set_side :: "'a tree_store_scheme \<Rightarrow> ptr \<Rightarrow> bool \<Rightarrow> ptr \<Rightarrow> 'a tree_store_scheme" where
  "set_side h parent side q = (case parent of Some p \<Rightarrow> if side then set_left h p q else set_right h p q | None \<Rightarrow> h)"

text \<open>The neighbours of the two nodes point to the other one.\<close>

definition redirect_neighbours :: "'a tree_store_scheme \<Rightarrow> nat \<Rightarrow> nat \<Rightarrow> 'a tree_store_scheme" where
  "redirect_neighbours h node1 node2 =
     (let first_parent = t_parent h node1; first_left = t_left h node1; first_right = t_right h node1;
          second_parent = t_parent h node2; second_left = t_left h node2; second_right = t_right h node2;
          first_is_left = is_left h first_parent node1;
          second_is_left = is_left h second_parent node2;
          h = set_side h first_parent first_is_left (Some node2);
          h = adopt h first_left node2;
          h = adopt h first_right node2;
          h = set_side h second_parent second_is_left (Some node1);
          h = adopt h second_left node1
      in adopt h second_right node1)"

definition exchange_links :: "'a tree_store_scheme \<Rightarrow> nat \<Rightarrow> nat \<Rightarrow> 'a tree_store_scheme" where
  "exchange_links h node1 node2 =
     (let h = set_parent (set_parent h node1 (t_parent h node2)) node2 (t_parent h node1);
          h = set_left (set_left h node1 (t_left h node2)) node2 (t_left h node1)
      in set_right (set_right h node1 (t_right h node2)) node2 (t_right h node1))"

definition exchange_nodes :: "'a tree_store_scheme \<Rightarrow> nat \<Rightarrow> nat \<Rightarrow> 'a tree_store_scheme" where
  "exchange_nodes h node1 node2 = exchange_links (redirect_neighbours h node1 node2) node1 node2"

definition exch :: "nat \<Rightarrow> nat \<Rightarrow> nat \<Rightarrow> nat" where
  "exch n1 n2 x = (if x = n1 then n2 else if x = n2 then n1 else x)"

definition well_linked :: "'a tree_store_scheme \<Rightarrow> nat set \<Rightarrow> bool" where
  "well_linked h S \<longleftrightarrow> (\<forall>x \<in> S.
     (\<forall>y. t_left h x = Some y \<longrightarrow> y \<in> S \<and> t_parent h y = Some x \<and> t_right h x \<noteq> Some y \<and> y \<noteq> x) \<and>
     (\<forall>y. t_right h x = Some y \<longrightarrow> y \<in> S \<and> t_parent h y = Some x \<and> y \<noteq> x) \<and>
     (\<forall>y. t_parent h x = Some y \<longrightarrow> y \<in> S \<and> (t_left h y = Some x \<or> t_right h y = Some x) \<and> y \<noteq> x))"

lemma linked_well:
  assumes "linked h None t" "distinct (inorder t)"
  shows "well_linked h (set_tree t)"
  unfolding well_linked_def
proof
  fix x
  assume "x \<in> set_tree t"
  then obtain l r c where t: "t = plug (Node l x r) c" using focus_ex by blast
  have lk: "t_parent h x = up c" "t_left h x = rt l" "t_right h x = rt r" "linked h (Some x) l" "linked h (Some x) r" "linked_path h (Some x) c"
    using assms(1) by (simp_all add: t linked_plug)
  have d: "distinct (before c @ inorder l @ x # inorder r @ after c)" using assms(2) by (simp add: t inorder_plug)
  have st: "set_tree t = insert x (set_tree l \<union> set_tree r \<union> nodes_path c)" by (auto simp: t set_plug)
  have left: "y \<in> set_tree t \<and> t_parent h y = Some x \<and> t_right h x \<noteq> Some y \<and> y \<noteq> x" if y: "rt l = Some y" for y
  proof -
    obtain l1 l2 where "l = Node l1 y l2" using y by (auto simp: rt_Some)
    then show ?thesis using lk d st by (auto dest: rt_mem)
  qed
  have right: "y \<in> set_tree t \<and> t_parent h y = Some x \<and> y \<noteq> x" if y: "rt r = Some y" for y
  proof -
    obtain l1 l2 where "r = Node l1 y l2" using y by (auto simp: rt_Some)
    then show ?thesis using lk d st by auto
  qed
  have parent: "y \<in> set_tree t \<and> (t_left h y = Some x \<or> t_right h y = Some x) \<and> y \<noteq> x" if y: "up c = Some y" for y
    using y lk(6) d st by (cases c rule: nodes_path.cases) (auto simp: set_path)
  show "(\<forall>y. t_left h x = Some y \<longrightarrow> y \<in> set_tree t \<and> t_parent h y = Some x \<and> t_right h x \<noteq> Some y \<and> y \<noteq> x) \<and>
     (\<forall>y. t_right h x = Some y \<longrightarrow> y \<in> set_tree t \<and> t_parent h y = Some x \<and> y \<noteq> x) \<and>
     (\<forall>y. t_parent h x = Some y \<longrightarrow> y \<in> set_tree t \<and> (t_left h y = Some x \<or> t_right h y = Some x) \<and> y \<noteq> x)"
    using left right parent lk by simp
qed

lemma linked_rename:
  assumes "\<forall>x \<in> set_tree t. t_parent h' (f x) = map_option f (t_parent h x) \<and> t_left h' (f x) = map_option f (t_left h x) \<and>
      t_right h' (f x) = map_option f (t_right h x)" "linked h par t"
  shows "linked h' (map_option f par) (map_tree f t)"
proof -
  have rt: "rt (map_tree f u) = map_option f (rt u)" for u by (cases u) simp_all
  show ?thesis using assms
  proof (induction t arbitrary: par)
    case (Node l n r)
    then show ?case using Node.IH(1) [of "Some n"] Node.IH(2) [of "Some n"] by (simp add: rt)
  qed simp
qed

lemma side_links [simp]:
  "t_parent (set_side h p s q) = t_parent h"
  "t_left (set_side h p s q) x = (if p = Some x \<and> s then q else t_left h x)"
  "t_right (set_side h p s q) x = (if p = Some x \<and> \<not> s then q else t_right h x)"
  by (auto simp: set_side_def split: option.splits)

lemma exchange_links_exch:
  assumes "n1 \<noteq> n2"
  shows "t_parent (exchange_links h n1 n2) y = t_parent h (exch n1 n2 y)" "t_left (exchange_links h n1 n2) y = t_left h (exch n1 n2 y)"
    "t_right (exchange_links h n1 n2) y = t_right h (exch n1 n2 y)"
  using assms by (simp_all add: exchange_links_def Let_def exch_def)

lemma redirect_links:
  "t_parent (redirect_neighbours h n1 n2) y = (if t_right h n2 = Some y \<or> t_left h n2 = Some y then Some n1
     else if t_right h n1 = Some y \<or> t_left h n1 = Some y then Some n2 else t_parent h y)"
  "t_left (redirect_neighbours h n1 n2) y = (if t_parent h n2 = Some y \<and> is_left h (t_parent h n2) n2 then Some n1
     else if t_parent h n1 = Some y \<and> is_left h (t_parent h n1) n1 then Some n2 else t_left h y)"
  "t_right (redirect_neighbours h n1 n2) y = (if t_parent h n2 = Some y \<and> \<not> is_left h (t_parent h n2) n2 then Some n1
     else if t_parent h n1 = Some y \<and> \<not> is_left h (t_parent h n1) n1 then Some n2 else t_right h y)"
  unfolding redirect_neighbours_def Let_def by (simp_all only: adopt_links side_links) auto

lemma more_exchange [simp]: "tree_store.more (exchange_nodes h n1 n2) = tree_store.more h"
  by (auto simp: exchange_nodes_def exchange_links_def redirect_neighbours_def adopt_def set_side_def Let_def split: option.splits)

lemma exchange_nodes_links:
  assumes wl: "well_linked h S" and n: "n1 \<in> S" "n2 \<in> S" "n1 \<noteq> n2" and x: "x \<in> S"
  shows "t_parent (exchange_nodes h n1 n2) (exch n1 n2 x) = map_option (exch n1 n2) (t_parent h x)"
    "t_left (exchange_nodes h n1 n2) (exch n1 n2 x) = map_option (exch n1 n2) (t_left h x)"
    "t_right (exchange_nodes h n1 n2) (exch n1 n2 x) = map_option (exch n1 n2) (t_right h x)"
proof -
  have L: "t_left h a = Some b \<Longrightarrow> b \<in> S \<and> t_parent h b = Some a \<and> t_right h a \<noteq> Some b \<and> b \<noteq> a"
    and R: "t_right h a = Some b \<Longrightarrow> b \<in> S \<and> t_parent h b = Some a \<and> b \<noteq> a"
    and P: "t_parent h a = Some b \<Longrightarrow> b \<in> S \<and> (t_left h b = Some a \<or> t_right h b = Some a) \<and> b \<noteq> a" if "a \<in> S" for a b
    using wl that unfolding well_linked_def by blast+
  have inv: "exch n1 n2 (exch n1 n2 x) = x" by (simp add: exch_def)
  note sw = exchange_links_exch [OF n(3)]
  have child: "t_right h m = Some x \<or> t_left h m = Some x \<longleftrightarrow> t_parent h x = Some m"
    "t_parent h m = Some x \<and> is_left h (t_parent h m) m \<longleftrightarrow> t_left h x = Some m"
    "t_parent h m = Some x \<and> \<not> is_left h (t_parent h m) m \<longleftrightarrow> t_right h x = Some m" if "m \<in> S" for m
    using L [OF x] R [OF x] P [OF x] L [OF that] R [OF that] P [OF that] by (auto simp: is_left_def)
  note child = child [OF n(1)] child [OF n(2)]
  show "t_parent (exchange_nodes h n1 n2) (exch n1 n2 x) = map_option (exch n1 n2) (t_parent h x)"
    unfolding exchange_nodes_def sw inv redirect_links child using n(3) by (cases "t_parent h x") (auto simp: exch_def)
  show "t_left (exchange_nodes h n1 n2) (exch n1 n2 x) = map_option (exch n1 n2) (t_left h x)"
    unfolding exchange_nodes_def sw inv redirect_links child using n(3) by (cases "t_left h x") (auto simp: exch_def)
  show "t_right (exchange_nodes h n1 n2) (exch n1 n2 x) = map_option (exch n1 n2) (t_right h x)"
    unfolding exchange_nodes_def sw inv redirect_links child using n(3) by (cases "t_right h x") (auto simp: exch_def)
qed

text \<open>Exchanging two nodes of a tree renames them in the shape.\<close>

lemma exchange_ok:
  assumes "linked h None t" "distinct (inorder t)" "n1 \<in> set_tree t" "n2 \<in> set_tree t" "n1 \<noteq> n2"
  shows "linked (exchange_nodes h n1 n2) None (map_tree (exch n1 n2) t)"
  using linked_rename [of t "exchange_nodes h n1 n2" "exch n1 n2" h None]
    exchange_nodes_links [OF linked_well [OF assms(1,2)] assms(3-5)] assms(1) by simp

subsection \<open>Places in a tree\<close>

lemma plug_append: "plug t (d @ c) = plug (plug t d) c"
  by (induction t d rule: plug.induct) simp_all

lemma map_tree_id: "\<forall>x \<in> set_tree t. f x = x \<Longrightarrow> map_tree f t = t"
  by (induction t) auto

lemma map_plug_id: "\<forall>x \<in> nodes_path c. f x = x \<Longrightarrow> map_tree f (plug t c) = plug (map_tree f t) c"
  by (induction t c rule: plug.induct) (auto simp: map_tree_id)

lemma exch_simps [simp]: "exch n m n = m" "exch n m m = n" "x \<noteq> n \<Longrightarrow> x \<noteq> m \<Longrightarrow> exch n m x = x"
  by (simp_all add: exch_def)

lemma up_None [simp]: "up c = None \<longleftrightarrow> c = []"
  by (cases c rule: nodes_path.cases) simp_all

lemma root_in_path: "c \<noteq> [] \<Longrightarrow> \<exists>x \<in> nodes_path c. root_of q c = Some x"
proof (induction q c rule: root_of.induct)
  case (2 q n r c)
  then show ?case by (cases c) auto
next
  case (3 q l n c)
  then show ?case by (cases c) auto
qed simp

text \<open>The rightmost node of a subtree, brought into focus.\<close>

lemma rightmost_focus:
  "t \<noteq> Leaf \<Longrightarrow> \<exists>l d. t = plug (Node l (last (inorder t)) Leaf) d \<and> after d = []"
proof -
  have "t \<noteq> Leaf \<Longrightarrow> \<exists>l d. plug t e = plug (Node l (last (inorder t)) Leaf) (d @ e) \<and> after d = []" for e
  proof (induction t arbitrary: e)
    case (Node a m b)
    show ?case
    proof (cases "b = Leaf")
      case True
      then show ?thesis by (intro exI [of _ a] exI [of _ "[]"]) simp
    next
      case False
      then obtain l d where "plug b (R a m # e) = plug (Node l (last (inorder b)) Leaf) (d @ R a m # e)" "after d = []"
        using Node.IH(2) [of "R a m # e"] by auto
      moreover have "after (d @ [R a m]) = after d" by (induction d rule: after.induct) simp_all
      ultimately show ?thesis using False by (intro exI [of _ l] exI [of _ "d @ [R a m]"]) simp
    qed
  qed simp
  from this [of "[]"] show "t \<noteq> Leaf \<Longrightarrow> \<exists>l d. t = plug (Node l (last (inorder t)) Leaf) d \<and> after d = []" by simp
qed

lemma before_append: "before (d @ c) = before c @ before d" "after (d @ c) = after d @ after c" "nodes_path (d @ c) = nodes_path d \<union> nodes_path c"
  by (induction d rule: nodes_path.induct) auto

lemma leftmost_focus:
  "t \<noteq> Leaf \<Longrightarrow> \<exists>r d. t = plug (Node Leaf (hd (inorder t)) r) d \<and> before d = []"
proof -
  have "t \<noteq> Leaf \<Longrightarrow> \<exists>r d. plug t e = plug (Node Leaf (hd (inorder t)) r) (d @ e) \<and> before d = []" for e
  proof (induction t arbitrary: e)
    case (Node a m b)
    show ?case
    proof (cases "a = Leaf")
      case True
      then show ?thesis by (intro exI [of _ b] exI [of _ "[]"]) simp
    next
      case False
      then obtain r d where "plug a (L m b # e) = plug (Node Leaf (hd (inorder a)) r) (d @ L m b # e)" "before d = []"
        using Node.IH(1) [of "L m b # e"] by auto
      moreover have "before (d @ [L m b]) = before d" by (induction d rule: before.induct) simp_all
      moreover have "inorder a \<noteq> []" using False by (cases a) simp_all
      ultimately show ?thesis by (intro exI [of _ r] exI [of _ "d @ [L m b]"]) simp
    qed
  qed simp
  from this [of "[]"] show "t \<noteq> Leaf \<Longrightarrow> \<exists>r d. t = plug (Node Leaf (hd (inorder t)) r) d \<and> before d = []" by simp
qed

text \<open>A tree of the given shape is at the root.\<close>

definition rooted :: "'a tree_state \<Rightarrow> nat tree \<Rightarrow> bool" where
  "rooted s t \<longleftrightarrow> linked (fst s) None t \<and> bt_root (snd s) = rt t \<and> distinct (inorder t)"

lemma rooted_links:
  assumes "rooted s (plug (Node l n r) c)"
  shows "t_parent (fst s) n = up c" "t_left (fst s) n = rt l" "t_right (fst s) n = rt r" "linked (fst s) (Some n) l" "linked (fst s) (Some n) r"
    "linked_path (fst s) (Some n) c"
  using assms by (simp_all add: rooted_def linked_plug)

lemma replace_child_path:
  assumes "linked_path h (Some n) c" "n \<notin> nodes_path c" "\<And>q. up c = Some q \<Longrightarrow> t_left h' q = t_left h q"
  shows "replace_child (h', b) (up c) n q' = (set_child h' c q', if c = [] then b\<lparr> bt_root := q' \<rparr> else b)"
  using assms by (cases c rule: nodes_path.cases; auto dest: rt_mem)

lemma set_child_set_parent: "set_child (set_parent h m p) c q = set_parent (set_child h c q) m p"
  by (cases c rule: nodes_path.cases) (simp_all add: set_left_def set_right_def set_parent_def)

text \<open>Two nodes and the three subtrees between them, in symmetric order under a path.\<close>

lemma pair_facts:
  assumes "distinct (before c @ inorder a @ n # inorder b @ p # inorder r @ after c)"
  shows "set_tree a \<inter> nodes_path c = {}" "set_tree b \<inter> nodes_path c = {}" "set_tree r \<inter> nodes_path c = {}"
    "set_tree b \<inter> set_tree a = {}" "set_tree b \<inter> set_tree r = {}" "n \<notin> nodes_path c" "p \<notin> nodes_path c"
    "n \<notin> set_tree a" "n \<notin> set_tree b" "n \<notin> set_tree r" "p \<notin> set_tree a" "p \<notin> set_tree b" "p \<notin> set_tree r" "n \<noteq> p" "p \<noteq> n"
    "rt b \<noteq> Some n" "rt b \<noteq> Some p" "distinct (inorder b)" "up c \<noteq> Some n" "up c \<noteq> Some p" "distinct (before c @ after c)"
  using assms by (auto simp: set_path dest!: rt_mem up_path)

lemma linked_unique:
  "linked h par t \<Longrightarrow> linked h par' u \<Longrightarrow> rt t = rt u \<Longrightarrow> t = u"
proof (induction t arbitrary: u par par')
  case Leaf
  then show ?case by (cases u) simp_all
next
  case (Node l n r)
  obtain l' r' where u: "u = Node l' n r'" using Node.prems(3) by (cases u) auto
  then show ?case using Node.IH(1) [of "Some n" "Some n" l'] Node.IH(2) [of "Some n" "Some n" r'] Node.prems by simp
qed

lemma shaped_unique: "shaped s t \<Longrightarrow> shaped s u \<Longrightarrow> t = u"
  using linked_unique [of "fst s" None t None u] by (simp add: shaped_def)

lemma sorted_wrt_remove1: "sorted_wrt P xs \<Longrightarrow> sorted_wrt P (remove1 n xs)"
  by (induction xs) (use notin_set_remove1 in fastforce)+

text \<open>Following a pointer that may be null.\<close>

definition deref :: "ptr \<Rightarrow> (nat \<Rightarrow> 'a result) \<Rightarrow> 'a result" where
  "deref q f = (case q of None \<Rightarrow> Inl NullDereference | Some n \<Rightarrow> f n)"

end
