(* ===== verification/AVL.thy ===== *)
theory AVL
  imports TreeRotate
begin

text \<open>
  The balanced tree of \<^verbatim>\<open>include/containers/bintree_avl.h\<close> and
  \<^verbatim>\<open>include/containers/bintree_avl.inl\<close>: the binary tree with a balance level in every node.
  Searching, descending and iterating are the loops of the binary tree (the source repeats them); this
  theory adds the rotations and the loops that walk up the parents and restore the balance.
\<close>

record avl_store = tree_store +
  t_balance :: "nat \<Rightarrow> int"

type_synonym avl_state = "avl_store \<times> bintree"

definition set_balance :: "avl_store \<Rightarrow> nat \<Rightarrow> int \<Rightarrow> avl_store" where
  "set_balance h n x = h\<lparr> t_balance := (t_balance h)(n := x) \<rparr>"

subsection \<open>Ends and search\<close>

text \<open>
  \<^verbatim>\<open>BinTreeAVL\<close> has its own copies of the search loops, with the bodies of those of
  \<^verbatim>\<open>BinTree\<close>.
\<close>

definition AVL_lowest :: "avl_state \<Rightarrow> ptr option" where
  "AVL_lowest s = (case bt_root (snd s) of None \<Rightarrow> Some None | Some n \<Rightarrow> map_option Some (leftmost (fst s) n))"

definition AVL_highest :: "avl_state \<Rightarrow> ptr option" where
  "AVL_highest s = (case bt_root (snd s) of None \<Rightarrow> Some None | Some n \<Rightarrow> map_option Some (rightmost (fst s) n))"

definition AVL_find :: "order \<Rightarrow> avl_state \<Rightarrow> nat \<Rightarrow> ptr option" where
  "AVL_find cmp s item = find_node cmp (fst s) (bt_root (snd s)) item"

definition AVL_lower_bound :: "order \<Rightarrow> avl_state \<Rightarrow> nat \<Rightarrow> ptr option" where
  "AVL_lower_bound cmp s item = lower_node cmp (fst s) (bt_root (snd s)) None item"

definition AVL_upper_bound :: "order \<Rightarrow> avl_state \<Rightarrow> nat \<Rightarrow> ptr option" where
  "AVL_upper_bound cmp s item = upper_node cmp (fst s) (bt_root (snd s)) None item"

lemmas AVL_search_defs = AVL_lowest_def AVL_highest_def AVL_find_def AVL_lower_bound_def AVL_upper_bound_def

lemma AVL_search_BinTree:
  "AVL_lowest s = InternalLowest s" "AVL_highest s = InternalHighest s" "AVL_find cmp s item = InternalFind cmp s item"
  "AVL_lower_bound cmp s item = InternalLowerBound cmp s item" "AVL_upper_bound cmp s item = InternalUpperBound cmp s item"
  by (cases s, simp only: AVL_search_defs InternalLowest.simps InternalHighest.simps InternalFind.simps InternalLowerBound.simps InternalUpperBound.simps fst_conv snd_conv)+

subsection \<open>Rotations\<close>

definition RotateLeft :: "avl_store \<Rightarrow> nat \<Rightarrow> avl_store" where
  "RotateLeft h node =
     (case t_right h node of
        None \<Rightarrow> h
      | Some current \<Rightarrow>
          (let h = set_parent (relink_parent h node current) current (t_parent h node);
               h = set_right h node (t_left h current);
               h = set_left h current (Some node);
               h = set_parent h node (Some current);
               h = adopt h (t_right h node) node
           in if t_balance h current = 0
              then set_balance (set_balance h node 1) current (-1)
              else set_balance (set_balance h node 0) current 0))"

definition RotateRight :: "avl_store \<Rightarrow> nat \<Rightarrow> avl_store" where
  "RotateRight h node =
     (case t_left h node of
        None \<Rightarrow> h
      | Some current \<Rightarrow>
          (let h = set_parent (relink_parent h node current) current (t_parent h node);
               h = set_left h node (t_right h current);
               h = set_right h current (Some node);
               h = set_parent h node (Some current);
               h = adopt h (t_left h node) node
           in if t_balance h current = 0
              then set_balance (set_balance h node (-1)) current 1
              else set_balance (set_balance h node 0) current 0))"

definition RotateLeftLeft :: "avl_store \<Rightarrow> nat \<Rightarrow> avl_store" where
  "RotateLeftLeft h node =
     (case t_left h node of
        None \<Rightarrow> h
      | Some current \<Rightarrow>
          (case t_right h current of
             None \<Rightarrow> h
           | Some next \<Rightarrow>
               (let h = relink_parent h node next;
                    h = set_right h current (t_left h next);
                    h = set_left h node (t_right h next);
                    h = set_left h next (Some current);
                    h = set_right h next (Some node);
                    h = set_parent h next (t_parent h node);
                    h = set_parent h node (Some next);
                    h = set_parent h current (Some next);
                    h = adopt h (t_right h current) current;
                    h = adopt h (t_left h node) node;
                    h = (if t_balance h next = -1 then set_balance (set_balance h node 1) current 0
                         else if t_balance h next = 0 then set_balance (set_balance h node 0) current 0
                         else if t_balance h next = 1 then set_balance (set_balance h node 0) current (-1)
                         else h)
                in set_balance h next 0)))"

definition RotateRightRight :: "avl_store \<Rightarrow> nat \<Rightarrow> avl_store" where
  "RotateRightRight h node =
     (case t_right h node of
        None \<Rightarrow> h
      | Some current \<Rightarrow>
          (case t_left h current of
             None \<Rightarrow> h
           | Some next \<Rightarrow>
               (let h = relink_parent h node next;
                    h = set_right h node (t_left h next);
                    h = set_left h current (t_right h next);
                    h = set_left h next (Some node);
                    h = set_right h next (Some current);
                    h = set_parent h next (t_parent h node);
                    h = set_parent h node (Some next);
                    h = set_parent h current (Some next);
                    h = adopt h (t_right h node) node;
                    h = adopt h (t_left h current) current;
                    h = (if t_balance h next = -1 then set_balance (set_balance h node 0) current 1
                         else if t_balance h next = 0 then set_balance (set_balance h node 0) current 0
                         else if t_balance h next = 1 then set_balance (set_balance h node (-1)) current 0
                         else h)
                in set_balance h next 0)))"

subsection \<open>Insertion\<close>

text \<open>
  The balancing loop of \<^verbatim>\<open>insert\<close>. When no rule applies the C++ loop repeats without a change,
  that is it does not end.
\<close>

partial_function (option) balance_insert :: "avl_store \<Rightarrow> nat \<Rightarrow> avl_store option" where
  "balance_insert h node =
     (case t_parent h node of
        None \<Rightarrow> Some h
      | Some p \<Rightarrow>
          if t_left h p = Some node \<and> t_balance h p = 0 then balance_insert (set_balance h p (-1)) p
          else if t_right h p = Some node \<and> t_balance h p = 0 then balance_insert (set_balance h p 1) p
          else if t_left h p = Some node \<and> t_balance h p = 1 then Some (set_balance h p 0)
          else if t_right h p = Some node \<and> t_balance h p = -1 then Some (set_balance h p 0)
          else if t_left h p = Some node \<and> t_balance h p = -1 then
            Some (if t_balance h node = 1 then RotateLeftLeft h p else RotateRight h p)
          else if t_right h p = Some node \<and> t_balance h p = 1 then
            Some (if t_balance h node = -1 then RotateRightRight h p else RotateLeft h p)
          else balance_insert h node)"

partial_function (option) correct_root :: "'a tree_store_scheme \<Rightarrow> nat \<Rightarrow> nat option" where
  "correct_root h n = (case t_parent h n of None \<Rightarrow> Some n | Some p \<Rightarrow> correct_root h p)"

definition AVL_rebalance :: "avl_state \<Rightarrow> nat \<Rightarrow> avl_state option" where
  "AVL_rebalance s item =
     Option.bind (balance_insert (set_balance (fst s) item 0) item) (\<lambda>h.
       case bt_root (snd s) of
         None \<Rightarrow> None
       | Some root \<Rightarrow> Option.bind (correct_root h root) (\<lambda>r. Some (h, (snd s)\<lparr> bt_root := Some r \<rparr>)))"

definition AVL_insert_at :: "order \<Rightarrow> avl_state \<Rightarrow> ptr \<Rightarrow> nat \<Rightarrow> (avl_state \<times> nat \<times> bool) option" where
  "AVL_insert_at cmp s position item =
     Option.bind (BinTree_insert_at cmp s position item) (\<lambda>(s', n, inserted).
       if inserted then Option.bind (AVL_rebalance s' item) (\<lambda>s''. Some (s'', n, True))
       else Some (s', n, False))"

definition AVL_insert :: "order \<Rightarrow> avl_state \<Rightarrow> nat \<Rightarrow> (avl_state \<times> nat \<times> bool) option" where
  "AVL_insert cmp s item = AVL_insert_at cmp s (bt_root (snd s)) item"

subsection \<open>Links and balance levels\<close>

lemma set_balance_links [simp]:
  "t_parent (set_balance h n x) = t_parent h" "t_left (set_balance h n x) = t_left h" "t_right (set_balance h n x) = t_right h"
  "t_balance (set_balance h n x) = (t_balance h)(n := x)"
  by (simp_all add: set_balance_def)

lemma balance_links [simp]:
  "t_balance (set_parent h n p) = t_balance h" "t_balance (set_left h n p) = t_balance h" "t_balance (set_right h n p) = t_balance h"
  by (simp_all add: set_parent_def set_left_def set_right_def)

lemma balance_relink [simp]:
  "t_balance (relink_parent h n m) = t_balance h" "t_balance (adopt h q m) = t_balance h" "t_balance (set_child h c q) = t_balance h"
  by (simp_all add: relink_parent_def adopt_def split: option.splits) (cases c rule: nodes_path.cases; simp)

lemma linked_balance [simp]: "linked (set_balance h n x) par t = linked h par t" "linked_path (set_balance h n x) q c = linked_path h q c"
  by (auto intro!: linked_cong linked_path_cong)

lemma RotateRight_ok:
  assumes lk: "linked h None (plug (Node (Node a n b) p r) c)" and d: "distinct (inorder (plug (Node (Node a n b) p r) c))"
  shows "linked (RotateRight h p) None (plug (Node a n (Node b p r)) c)"
    "t_balance (RotateRight h p) = (if t_balance h n = 0 then (t_balance h)(p := -1, n := 1) else (t_balance h)(p := 0, n := 0))"
proof -
  let ?g = "set_child h c (Some n)"
  let ?h = "adopt (set_parent (set_right (set_left (set_parent ?g n (up c)) p (rt b)) n (Some p)) p (Some n)) (rt b) p"
  have ds: "distinct (before c @ inorder a @ n # inorder b @ p # inorder r @ after c)" using d by (simp add: inorder_plug)
  then have "up c \<noteq> Some n" "up c \<noteq> Some p" by (auto dest!: up_path simp: set_path)
  note up = set_child_links [OF this(1)] set_child_links [OF this(2)]
  have eq: "RotateRight h p = (if t_balance h n = 0 then set_balance (set_balance ?h p (-1)) n 1 else set_balance (set_balance ?h p 0) n 0)"
    using lk relink_ok [OF lk d] by (simp add: RotateRight_def linked_plug Let_def up)
  show "t_balance (RotateRight h p) = (if t_balance h n = 0 then (t_balance h)(p := -1, n := 1) else (t_balance h)(p := 0, n := 0))"
    by (simp add: eq)
  have dis: "set_tree a \<inter> nodes_path c = {}" "set_tree b \<inter> nodes_path c = {}" "set_tree r \<inter> nodes_path c = {}"
    "set_tree b \<inter> set_tree a = {}" "set_tree b \<inter> set_tree r = {}" "n \<notin> nodes_path c" "p \<notin> nodes_path c"
    "n \<notin> set_tree a" "n \<notin> set_tree b" "n \<notin> set_tree r" "p \<notin> set_tree a" "p \<notin> set_tree b" "p \<notin> set_tree r" "n \<noteq> p" "p \<noteq> n"
    "rt b \<noteq> Some n" "rt b \<noteq> Some p" "distinct (inorder b)"
    using ds by (auto simp: set_path dest!: rt_mem)
  have "linked_path ?g (Some n) c" using lk ds by (intro set_child_path) (auto simp: linked_plug)
  then show "linked (RotateRight h p) None (plug (Node a n (Node b p r)) c)"
    using lk by (simp add: eq linked_plug up dis set_child_linked adopt_frame adopt_path adopt_linked [of _ "Some n"])
qed


lemma RotateLeft_ok:
  assumes lk: "linked h None (plug (Node a p (Node b n r)) c)" and d: "distinct (inorder (plug (Node a p (Node b n r)) c))"
  shows "linked (RotateLeft h p) None (plug (Node (Node a p b) n r) c)"
    "t_balance (RotateLeft h p) = (if t_balance h n = 0 then (t_balance h)(p := 1, n := -1) else (t_balance h)(p := 0, n := 0))"
proof -
  let ?g = "set_child h c (Some n)"
  let ?h = "adopt (set_parent (set_left (set_right (set_parent ?g n (up c)) p (rt b)) n (Some p)) p (Some n)) (rt b) p"
  have ds: "distinct (before c @ inorder a @ p # inorder b @ n # inorder r @ after c)" using d by (simp add: inorder_plug)
  then have "up c \<noteq> Some n" "up c \<noteq> Some p" by (auto dest!: up_path simp: set_path)
  note up = set_child_links [OF this(1)] set_child_links [OF this(2)]
  have eq: "RotateLeft h p = (if t_balance h n = 0 then set_balance (set_balance ?h p 1) n (-1) else set_balance (set_balance ?h p 0) n 0)"
    using lk relink_ok [OF lk d] by (simp add: RotateLeft_def linked_plug Let_def up)
  show "t_balance (RotateLeft h p) = (if t_balance h n = 0 then (t_balance h)(p := 1, n := -1) else (t_balance h)(p := 0, n := 0))"
    by (simp add: eq)
  have dis: "set_tree a \<inter> nodes_path c = {}" "set_tree b \<inter> nodes_path c = {}" "set_tree r \<inter> nodes_path c = {}"
    "set_tree b \<inter> set_tree a = {}" "set_tree b \<inter> set_tree r = {}" "n \<notin> nodes_path c" "p \<notin> nodes_path c"
    "n \<notin> set_tree a" "n \<notin> set_tree b" "n \<notin> set_tree r" "p \<notin> set_tree a" "p \<notin> set_tree b" "p \<notin> set_tree r" "n \<noteq> p" "p \<noteq> n"
    "rt b \<noteq> Some n" "rt b \<noteq> Some p" "distinct (inorder b)"
    using ds by (auto simp: set_path dest!: rt_mem)
  have "linked_path ?g (Some n) c" using lk ds by (intro set_child_path) (auto simp: linked_plug)
  then show "linked (RotateLeft h p) None (plug (Node (Node a p b) n r) c)"
    using lk by (simp add: eq linked_plug up dis set_child_linked adopt_frame adopt_path adopt_linked [of _ "Some n"])
qed

lemma RotateLeftLeft_ok:
  assumes lk: "linked h None (plug (Node (Node a n (Node b m e)) p r) c)"
    and d: "distinct (inorder (plug (Node (Node a n (Node b m e)) p r) c))" and bal: "t_balance h m \<in> {-1, 0, 1}"
  shows "linked (RotateLeftLeft h p) None (plug (Node (Node a n b) m (Node e p r)) c)"
    "t_balance (RotateLeftLeft h p) =
      (t_balance h)(p := if t_balance h m = -1 then 1 else 0, n := if t_balance h m = 1 then -1 else 0, m := 0)"
proof -
  let ?g = "set_child h c (Some m)"
  let ?k = "set_right (set_left (set_left (set_right ?g n (rt b)) p (rt e)) m (Some n)) m (Some p)"
  let ?h = "adopt (adopt (set_parent (set_parent (set_parent ?k m (up c)) p (Some m)) n (Some m)) (rt b) n) (rt e) p"
  have ds: "distinct (before c @ inorder a @ n # inorder b @ m # inorder e @ p # inorder r @ after c)" using d by (simp add: inorder_plug)
  then have "up c \<noteq> Some n" "up c \<noteq> Some p" "up c \<noteq> Some m" by (auto dest!: up_path simp: set_path)
  note up = set_child_links [OF this(1)] set_child_links [OF this(2)] set_child_links [OF this(3)]
  have ne: "n \<noteq> m" "n \<noteq> p" "m \<noteq> p" "m \<noteq> n" "p \<noteq> n" "p \<noteq> m" using ds by auto
  have eq: "RotateLeftLeft h p = set_balance (set_balance (set_balance ?h p (if t_balance h m = -1 then 1 else 0)) n (if t_balance h m = 1 then -1 else 0)) m 0"
    using lk bal relink_ok [OF lk d] by (auto simp: RotateLeftLeft_def linked_plug Let_def up ne)
  show "t_balance (RotateLeftLeft h p) =
      (t_balance h)(p := if t_balance h m = -1 then 1 else 0, n := if t_balance h m = 1 then -1 else 0, m := 0)"
    by (simp add: eq)
  have dis: "set_tree a \<inter> nodes_path c = {}" "set_tree b \<inter> nodes_path c = {}" "set_tree e \<inter> nodes_path c = {}" "set_tree r \<inter> nodes_path c = {}"
    "set_tree b \<inter> set_tree a = {}" "set_tree b \<inter> set_tree e = {}" "set_tree b \<inter> set_tree r = {}"
    "set_tree e \<inter> set_tree a = {}" "set_tree e \<inter> set_tree b = {}" "set_tree e \<inter> set_tree r = {}"
    "n \<notin> nodes_path c" "m \<notin> nodes_path c" "p \<notin> nodes_path c"
    "n \<notin> set_tree a" "n \<notin> set_tree b" "n \<notin> set_tree e" "n \<notin> set_tree r"
    "m \<notin> set_tree a" "m \<notin> set_tree b" "m \<notin> set_tree e" "m \<notin> set_tree r"
    "p \<notin> set_tree a" "p \<notin> set_tree b" "p \<notin> set_tree e" "p \<notin> set_tree r"
    "rt b \<noteq> Some n" "rt b \<noteq> Some m" "rt b \<noteq> Some p" "rt e \<noteq> Some n" "rt e \<noteq> Some m" "rt e \<noteq> Some p"
    "distinct (inorder b)" "distinct (inorder e)"
    using ds by (auto simp: set_path dest!: rt_mem)
  have "linked_path ?g (Some m) c" using lk ds by (intro set_child_path) (auto simp: linked_plug)
  then show "linked (RotateLeftLeft h p) None (plug (Node (Node a n b) m (Node e p r)) c)"
    using lk by (simp add: eq linked_plug up dis ne set_child_linked adopt_frame adopt_path adopt_linked [of _ "Some m"])
qed

lemma RotateRightRight_ok:
  assumes lk: "linked h None (plug (Node a p (Node (Node b m e) n r)) c)"
    and d: "distinct (inorder (plug (Node a p (Node (Node b m e) n r)) c))" and bal: "t_balance h m \<in> {-1, 0, 1}"
  shows "linked (RotateRightRight h p) None (plug (Node (Node a p b) m (Node e n r)) c)"
    "t_balance (RotateRightRight h p) =
      (t_balance h)(p := if t_balance h m = 1 then -1 else 0, n := if t_balance h m = -1 then 1 else 0, m := 0)"
proof -
  let ?g = "set_child h c (Some m)"
  let ?k = "set_right (set_left (set_left (set_right ?g p (rt b)) n (rt e)) m (Some p)) m (Some n)"
  let ?h = "adopt (adopt (set_parent (set_parent (set_parent ?k m (up c)) p (Some m)) n (Some m)) (rt b) p) (rt e) n"
  have ds: "distinct (before c @ inorder a @ p # inorder b @ m # inorder e @ n # inorder r @ after c)" using d by (simp add: inorder_plug)
  then have "up c \<noteq> Some n" "up c \<noteq> Some p" "up c \<noteq> Some m" by (auto dest!: up_path simp: set_path)
  note up = set_child_links [OF this(1)] set_child_links [OF this(2)] set_child_links [OF this(3)]
  have ne: "n \<noteq> m" "n \<noteq> p" "m \<noteq> p" "m \<noteq> n" "p \<noteq> n" "p \<noteq> m" using ds by auto
  have eq: "RotateRightRight h p = set_balance (set_balance (set_balance ?h p (if t_balance h m = 1 then -1 else 0)) n (if t_balance h m = -1 then 1 else 0)) m 0"
    using lk bal relink_ok [OF lk d] by (auto simp: RotateRightRight_def linked_plug Let_def up ne)
  show "t_balance (RotateRightRight h p) =
      (t_balance h)(p := if t_balance h m = 1 then -1 else 0, n := if t_balance h m = -1 then 1 else 0, m := 0)"
    by (simp add: eq)
  have dis: "set_tree a \<inter> nodes_path c = {}" "set_tree b \<inter> nodes_path c = {}" "set_tree e \<inter> nodes_path c = {}" "set_tree r \<inter> nodes_path c = {}"
    "set_tree b \<inter> set_tree a = {}" "set_tree b \<inter> set_tree e = {}" "set_tree b \<inter> set_tree r = {}"
    "set_tree e \<inter> set_tree a = {}" "set_tree e \<inter> set_tree b = {}" "set_tree e \<inter> set_tree r = {}"
    "n \<notin> nodes_path c" "m \<notin> nodes_path c" "p \<notin> nodes_path c"
    "n \<notin> set_tree a" "n \<notin> set_tree b" "n \<notin> set_tree e" "n \<notin> set_tree r"
    "m \<notin> set_tree a" "m \<notin> set_tree b" "m \<notin> set_tree e" "m \<notin> set_tree r"
    "p \<notin> set_tree a" "p \<notin> set_tree b" "p \<notin> set_tree e" "p \<notin> set_tree r"
    "rt b \<noteq> Some n" "rt b \<noteq> Some m" "rt b \<noteq> Some p" "rt e \<noteq> Some n" "rt e \<noteq> Some m" "rt e \<noteq> Some p"
    "distinct (inorder b)" "distinct (inorder e)"
    using ds by (auto simp: set_path dest!: rt_mem)
  have "linked_path ?g (Some m) c" using lk ds by (intro set_child_path) (auto simp: linked_plug)
  then show "linked (RotateRightRight h p) None (plug (Node (Node a p b) m (Node e n r)) c)"
    using lk by (simp add: eq linked_plug up dis ne set_child_linked adopt_frame adopt_path adopt_linked [of _ "Some m"])
qed


subsection \<open>The balance invariant\<close>

fun avl :: "(nat \<Rightarrow> int) \<Rightarrow> nat tree \<Rightarrow> bool" where
  "avl bal Leaf \<longleftrightarrow> True"
| "avl bal (Node l n r) \<longleftrightarrow> bal n = int (height r) - int (height l) \<and> bal n \<in> {-1, 0, 1} \<and> avl bal l \<and> avl bal r"

text \<open>The balance levels along a path, above a focus of the given height.\<close>

fun avl_path :: "(nat \<Rightarrow> int) \<Rightarrow> nat \<Rightarrow> path \<Rightarrow> bool" where
  "avl_path bal k [] \<longleftrightarrow> True"
| "avl_path bal k (L n r # c) \<longleftrightarrow> bal n = int (height r) - int k \<and> bal n \<in> {-1, 0, 1} \<and> avl bal r \<and> avl_path bal (Suc (max k (height r))) c"
| "avl_path bal k (R l n # c) \<longleftrightarrow> bal n = int k - int (height l) \<and> bal n \<in> {-1, 0, 1} \<and> avl bal l \<and> avl_path bal (Suc (max (height l) k)) c"

lemma avl_plug: "avl bal (plug t c) \<longleftrightarrow> avl bal t \<and> avl_path bal (height t) c"
  by (induction t c rule: plug.induct) auto

lemma avl_cong: "\<forall>n \<in> set_tree t. bal' n = bal n \<Longrightarrow> avl bal' t = avl bal t"
  by (induction t) auto

lemma avl_path_cong: "\<forall>n \<in> nodes_path c. bal' n = bal n \<Longrightarrow> avl_path bal' k c = avl_path bal k c"
proof (induction bal k c rule: avl_path.induct)
  case (2 bal k n r c)
  then show ?case using avl_cong [of r bal' bal] by simp
next
  case (3 bal k l n c)
  then show ?case using avl_cong [of l bal' bal] by simp
qed simp

lemma avl_frame [simp]: "n \<notin> set_tree t \<Longrightarrow> avl (bal(n := x)) t = avl bal t"
  "n \<notin> nodes_path c \<Longrightarrow> avl_path (bal(n := x)) k c = avl_path bal k c"
  by (auto intro!: avl_cong avl_path_cong)

definition balanced :: "avl_store \<Rightarrow> nat tree \<Rightarrow> bool" where
  "balanced h t \<longleftrightarrow> linked h None t \<and> avl (t_balance h) t \<and> distinct (inorder t)"

lemma RotateRight_avl:
  assumes "linked h None (plug (Node (Node a n b) p r) c)" "distinct (inorder (plug (Node (Node a n b) p r) c))"
    "avl (t_balance h) (Node a n b)" "avl (t_balance h) r" "height (Node a n b) = height r + 2" "t_balance h n \<in> {-1, 0}"
  shows "linked (RotateRight h p) None (plug (Node a n (Node b p r)) c)" "avl (t_balance (RotateRight h p)) (Node a n (Node b p r))"
    "height (Node a n (Node b p r)) = (if t_balance h n = 0 then height r + 3 else height r + 2)"
    "avl_path (t_balance (RotateRight h p)) k c = avl_path (t_balance h) k c"
    "t_balance (RotateRight h p) n = (if t_balance h n = 0 then 1 else 0)"
proof -
  have ne: "n \<noteq> p" "p \<noteq> n" "n \<notin> set_tree a" "n \<notin> set_tree b" "n \<notin> set_tree r" "n \<notin> nodes_path c"
    "p \<notin> set_tree a" "p \<notin> set_tree b" "p \<notin> set_tree r" "p \<notin> nodes_path c"
    using assms(2) by (auto simp: inorder_plug set_path)
  note rot = RotateRight_ok [OF assms(1,2)]
  show "linked (RotateRight h p) None (plug (Node a n (Node b p r)) c)" by (rule rot(1))
  show "avl (t_balance (RotateRight h p)) (Node a n (Node b p r))" using rot(2) assms(3-) ne by (auto simp: max_def split: if_splits)
  show "height (Node a n (Node b p r)) = (if t_balance h n = 0 then height r + 3 else height r + 2)" using assms(3-) by (auto simp: max_def split: if_splits)
  show "avl_path (t_balance (RotateRight h p)) k c = avl_path (t_balance h) k c" by (simp add: rot(2) ne)
  show "t_balance (RotateRight h p) n = (if t_balance h n = 0 then 1 else 0)" by (simp add: rot(2))
qed

lemma RotateLeft_avl:
  assumes "linked h None (plug (Node a p (Node b n r)) c)" "distinct (inorder (plug (Node a p (Node b n r)) c))"
    "avl (t_balance h) (Node b n r)" "avl (t_balance h) a" "height (Node b n r) = height a + 2" "t_balance h n \<in> {1, 0}"
  shows "linked (RotateLeft h p) None (plug (Node (Node a p b) n r) c)" "avl (t_balance (RotateLeft h p)) (Node (Node a p b) n r)"
    "height (Node (Node a p b) n r) = (if t_balance h n = 0 then height a + 3 else height a + 2)"
    "avl_path (t_balance (RotateLeft h p)) k c = avl_path (t_balance h) k c"
    "t_balance (RotateLeft h p) n = (if t_balance h n = 0 then -1 else 0)"
proof -
  have ne: "n \<noteq> p" "p \<noteq> n" "n \<notin> set_tree a" "n \<notin> set_tree b" "n \<notin> set_tree r" "n \<notin> nodes_path c"
    "p \<notin> set_tree a" "p \<notin> set_tree b" "p \<notin> set_tree r" "p \<notin> nodes_path c"
    using assms(2) by (auto simp: inorder_plug set_path)
  note rot = RotateLeft_ok [OF assms(1,2)]
  show "linked (RotateLeft h p) None (plug (Node (Node a p b) n r) c)" by (rule rot(1))
  show "avl (t_balance (RotateLeft h p)) (Node (Node a p b) n r)" using rot(2) assms(3-) ne by (auto simp: max_def split: if_splits)
  show "height (Node (Node a p b) n r) = (if t_balance h n = 0 then height a + 3 else height a + 2)" using assms(3-) by (auto simp: max_def split: if_splits)
  show "avl_path (t_balance (RotateLeft h p)) k c = avl_path (t_balance h) k c" by (simp add: rot(2) ne)
  show "t_balance (RotateLeft h p) n = (if t_balance h n = 0 then -1 else 0)" by (simp add: rot(2))
qed

lemma RotateLeftLeft_avl:
  assumes "linked h None (plug (Node (Node a n (Node b m e)) p r) c)" "distinct (inorder (plug (Node (Node a n (Node b m e)) p r) c))"
    "avl (t_balance h) (Node a n (Node b m e))" "avl (t_balance h) r" "height (Node a n (Node b m e)) = height r + 2" "t_balance h n = 1"
  shows "linked (RotateLeftLeft h p) None (plug (Node (Node a n b) m (Node e p r)) c)" "avl (t_balance (RotateLeftLeft h p)) (Node (Node a n b) m (Node e p r))" "height (Node (Node a n b) m (Node e p r)) = height r + 2"
    "avl_path (t_balance (RotateLeftLeft h p)) k c = avl_path (t_balance h) k c" "t_balance (RotateLeftLeft h p) m = 0"
proof -
  have ne: "n \<noteq> p" "n \<noteq> m" "m \<noteq> p" "p \<noteq> n" "m \<noteq> n" "p \<noteq> m" "n \<notin> set_tree a" "n \<notin> set_tree b" "n \<notin> set_tree e" "n \<notin> set_tree r"
    "n \<notin> nodes_path c" "m \<notin> set_tree a" "m \<notin> set_tree b" "m \<notin> set_tree e" "m \<notin> set_tree r" "m \<notin> nodes_path c"
    "p \<notin> set_tree a" "p \<notin> set_tree b" "p \<notin> set_tree e" "p \<notin> set_tree r" "p \<notin> nodes_path c"
    using assms(2) by (auto simp: inorder_plug set_path)
  have m: "t_balance h m \<in> {-1, 0, 1}" using assms(3) by auto
  note rot = RotateLeftLeft_ok [OF assms(1,2) m]
  show "linked (RotateLeftLeft h p) None (plug (Node (Node a n b) m (Node e p r)) c)" by (rule rot(1))
  show "avl (t_balance (RotateLeftLeft h p)) (Node (Node a n b) m (Node e p r))" using rot(2) assms(3-) ne by (auto simp: max_def split: if_splits)
  show "height (Node (Node a n b) m (Node e p r)) = height r + 2" using assms(3-) by (auto simp: max_def split: if_splits)
  show "avl_path (t_balance (RotateLeftLeft h p)) k c = avl_path (t_balance h) k c" by (simp add: rot(2) ne)
  show "t_balance (RotateLeftLeft h p) m = 0" by (simp add: rot(2))
qed

lemma RotateRightRight_avl:
  assumes "linked h None (plug (Node a p (Node (Node b m e) n r)) c)" "distinct (inorder (plug (Node a p (Node (Node b m e) n r)) c))"
    "avl (t_balance h) (Node (Node b m e) n r)" "avl (t_balance h) a" "height (Node (Node b m e) n r) = height a + 2" "t_balance h n = -1"
  shows "linked (RotateRightRight h p) None (plug (Node (Node a p b) m (Node e n r)) c)" "avl (t_balance (RotateRightRight h p)) (Node (Node a p b) m (Node e n r))" "height (Node (Node a p b) m (Node e n r)) = height a + 2"
    "avl_path (t_balance (RotateRightRight h p)) k c = avl_path (t_balance h) k c" "t_balance (RotateRightRight h p) m = 0"
proof -
  have ne: "n \<noteq> p" "n \<noteq> m" "m \<noteq> p" "p \<noteq> n" "m \<noteq> n" "p \<noteq> m" "n \<notin> set_tree a" "n \<notin> set_tree b" "n \<notin> set_tree e" "n \<notin> set_tree r"
    "n \<notin> nodes_path c" "m \<notin> set_tree a" "m \<notin> set_tree b" "m \<notin> set_tree e" "m \<notin> set_tree r" "m \<notin> nodes_path c"
    "p \<notin> set_tree a" "p \<notin> set_tree b" "p \<notin> set_tree e" "p \<notin> set_tree r" "p \<notin> nodes_path c"
    using assms(2) by (auto simp: inorder_plug set_path)
  have m: "t_balance h m \<in> {-1, 0, 1}" using assms(3) by auto
  note rot = RotateRightRight_ok [OF assms(1,2) m]
  show "linked (RotateRightRight h p) None (plug (Node (Node a p b) m (Node e n r)) c)" by (rule rot(1))
  show "avl (t_balance (RotateRightRight h p)) (Node (Node a p b) m (Node e n r))" using rot(2) assms(3-) ne by (auto simp: max_def split: if_splits)
  show "height (Node (Node a p b) m (Node e n r)) = height a + 2" using assms(3-) by (auto simp: max_def split: if_splits)
  show "avl_path (t_balance (RotateRightRight h p)) k c = avl_path (t_balance h) k c" by (simp add: rot(2) ne)
  show "t_balance (RotateRightRight h p) m = 0" by (simp add: rot(2))
qed

text \<open>A subtree that has grown by one level is balanced again further up.\<close>

lemma balance_insert_ok:
  assumes "linked h None (plug (Node l n r) c)" "distinct (inorder (plug (Node l n r) c))" "avl (t_balance h) (Node l n r)"
    "height (Node l n r) = Suc k" "avl_path (t_balance h) k c" "k = 0 \<or> t_balance h n \<noteq> 0"
  shows "\<exists>h' t'. balance_insert h n = Some h' \<and> balanced h' t' \<and> inorder t' = inorder (plug (Node l n r) c)"
  using assms
proof (induction c arbitrary: h l n r k)
  case Nil
  then show ?case by (auto simp: balanced_def balance_insert.simps [of h n] intro!: exI [of _ "Node l n r"])
next
  case (Cons s c)
  let ?b = "t_balance h"
  show ?case
  proof (cases s)
    case (L p u)
    have lk: "t_parent h n = Some p" "t_left h p = Some n" "t_right h p = rt u" and b: "?b p = int (height u) - int k" "?b p \<in> {-1, 0, 1}"
      using Cons.prems L by (auto simp: linked_plug)
    have pl: "plug (Node l n r) (s # c) = plug (Node (Node l n r) p u) c" by (simp add: L)
    have ne: "p \<notin> set_tree (Node l n r)" "p \<notin> set_tree u" "p \<notin> nodes_path c" "t_right h p \<noteq> Some n"
      using Cons.prems(2) lk(3) by (auto simp: L inorder_plug set_path dest!: rt_mem)
    consider "?b p = 0" | "?b p = 1" | "?b p = -1" using b(2) by auto
    then show ?thesis
    proof cases
      case 1
      have "\<exists>h' t'. balance_insert (set_balance h p (-1)) p = Some h' \<and> balanced h' t' \<and> inorder t' = inorder (plug (Node (Node l n r) p u) c)"
        using Cons.prems b(1) 1 ne unfolding pl
        by (intro Cons.IH [where k = "Suc k"]) (auto simp: L fun_upd_same fun_upd_other simp del: fun_upd_apply)
      then show ?thesis using lk 1 pl by (simp add: balance_insert.simps [of h n])
    next
      case 2
      then have "height u = Suc k" using b(1) by linarith
      then show ?thesis using 2 Cons.prems ne lk unfolding pl
        by (intro exI [of _ "set_balance h p 0"] exI [of _ "plug (Node (Node l n r) p u) c"])
          (auto simp: balance_insert.simps [of h n] balanced_def avl_plug L)
    next
      case 3
      then have k: "k = Suc (height u)" using b(1) by linarith
      show ?thesis
      proof (cases "?b n = 1")
        case True
        then have "height r = Suc (height l)" using Cons.prems(3) by simp
        then obtain e m g where r: "r = Node e m g" by (cases r) auto
        have pre: "linked h None (plug (Node (Node l n (Node e m g)) p u) c)" "distinct (inorder (plug (Node (Node l n (Node e m g)) p u) c))"
          "avl ?b (Node l n (Node e m g))" "avl ?b u" "height (Node l n (Node e m g)) = height u + 2"
          using Cons.prems k unfolding L r by (simp_all del: height_tree.simps avl.simps)
        note rot = RotateLeftLeft_avl [OF pre True]
        have "balanced (RotateLeftLeft h p) (plug (Node (Node l n e) m (Node g p u)) c)"
          unfolding balanced_def avl_plug rot(3,4) using rot(1,2) pre(2) Cons.prems(5) k by (simp add: inorder_plug L del: avl.simps)
        then show ?thesis using lk 3 True ne
          by (intro exI [of _ "RotateLeftLeft h p"] exI [of _ "plug (Node (Node l n e) m (Node g p u)) c"])
            (simp add: balance_insert.simps [of h n] L r inorder_plug)
      next
        case False
        then have "?b n = -1" using Cons.prems(3,6) k by auto
        then have n: "?b n \<in> {-1, 0}" "?b n \<noteq> 0" by auto
        have pre: "linked h None (plug (Node (Node l n r) p u) c)" "distinct (inorder (plug (Node (Node l n r) p u) c))"
          "avl ?b (Node l n r)" "avl ?b u" "height (Node l n r) = height u + 2"
          using Cons.prems k unfolding L by (simp_all del: height_tree.simps avl.simps)
        note rot = RotateRight_avl [OF pre n(1)]
        have "balanced (RotateRight h p) (plug (Node l n (Node r p u)) c)"
          unfolding balanced_def avl_plug rot(3,4) using rot(1,2) pre(2) Cons.prems(5) k n(2) by (simp add: inorder_plug L del: avl.simps)
        then show ?thesis using lk 3 False ne
          by (intro exI [of _ "RotateRight h p"] exI [of _ "plug (Node l n (Node r p u)) c"])
            (simp add: balance_insert.simps [of h n] L inorder_plug)
      qed
    qed
  next
    case (R u p)
    have lk: "t_parent h n = Some p" "t_right h p = Some n" "t_left h p = rt u" and b: "?b p = int k - int (height u)" "?b p \<in> {-1, 0, 1}"
      using Cons.prems R by (auto simp: linked_plug)
    have pl: "plug (Node l n r) (s # c) = plug (Node u p (Node l n r)) c" by (simp add: R)
    have ne: "p \<notin> set_tree (Node l n r)" "p \<notin> set_tree u" "p \<notin> nodes_path c" "t_left h p \<noteq> Some n"
      using Cons.prems(2) lk(3) by (auto simp: R inorder_plug set_path dest!: rt_mem)
    consider "?b p = 0" | "?b p = -1" | "?b p = 1" using b(2) by auto
    then show ?thesis
    proof cases
      case 1
      have "\<exists>h' t'. balance_insert (set_balance h p 1) p = Some h' \<and> balanced h' t' \<and> inorder t' = inorder (plug (Node u p (Node l n r)) c)"
        using Cons.prems b(1) 1 ne unfolding pl
        by (intro Cons.IH [where k = "Suc k"]) (auto simp: R fun_upd_same fun_upd_other simp del: fun_upd_apply)
      then show ?thesis using lk ne 1 pl by (simp add: balance_insert.simps [of h n])
    next
      case 2
      then have "height u = Suc k" using b(1) by linarith
      then show ?thesis using 2 Cons.prems ne lk unfolding pl
        by (intro exI [of _ "set_balance h p 0"] exI [of _ "plug (Node u p (Node l n r)) c"])
          (auto simp: balance_insert.simps [of h n] balanced_def avl_plug R)
    next
      case 3
      then have k: "k = Suc (height u)" using b(1) by linarith
      show ?thesis
      proof (cases "?b n = -1")
        case True
        then have "height l = Suc (height r)" using Cons.prems(3) by simp
        then obtain e m g where l: "l = Node e m g" by (cases l) auto
        have pre: "linked h None (plug (Node u p (Node (Node e m g) n r)) c)" "distinct (inorder (plug (Node u p (Node (Node e m g) n r)) c))"
          "avl ?b (Node (Node e m g) n r)" "avl ?b u" "height (Node (Node e m g) n r) = height u + 2"
          using Cons.prems k unfolding R l by (simp_all del: height_tree.simps avl.simps)
        note rot = RotateRightRight_avl [OF pre True]
        have "balanced (RotateRightRight h p) (plug (Node (Node u p e) m (Node g n r)) c)"
          unfolding balanced_def avl_plug rot(3,4) using rot(1,2) pre(2) Cons.prems(5) k by (simp add: inorder_plug R del: avl.simps)
        then show ?thesis using lk 3 True ne
          by (intro exI [of _ "RotateRightRight h p"] exI [of _ "plug (Node (Node u p e) m (Node g n r)) c"])
            (simp add: balance_insert.simps [of h n] R l inorder_plug)
      next
        case False
        then have "?b n = 1" using Cons.prems(3,6) k by auto
        then have n: "?b n \<in> {1, 0}" "?b n \<noteq> 0" by auto
        have pre: "linked h None (plug (Node u p (Node l n r)) c)" "distinct (inorder (plug (Node u p (Node l n r)) c))"
          "avl ?b (Node l n r)" "avl ?b u" "height (Node l n r) = height u + 2"
          using Cons.prems k unfolding R by (simp_all del: height_tree.simps avl.simps)
        note rot = RotateLeft_avl [OF pre n(1)]
        have "balanced (RotateLeft h p) (plug (Node (Node u p l) n r) c)"
          unfolding balanced_def avl_plug rot(3,4) using rot(1,2) pre(2) Cons.prems(5) k n(2) by (simp add: inorder_plug R del: avl.simps)
        then show ?thesis using lk 3 False ne
          by (intro exI [of _ "RotateLeft h p"] exI [of _ "plug (Node (Node u p l) n r) c"])
            (simp add: balance_insert.simps [of h n] R inorder_plug)
      qed
    qed
  qed
qed


lemma correct_root_ok:
  assumes "linked h None t" "n \<in> set_tree t"
  shows "correct_root h n = rt t"
proof -
  obtain l r c where t: "t = plug (Node l n r) c" using focus_ex [OF assms(2)] by blast
  have "linked_path h (Some n) c \<Longrightarrow> t_parent h n = up c \<Longrightarrow> correct_root h n = root_of (Some n) c" for n
  proof (induction c arbitrary: n)
    case Nil
    then show ?case by (simp add: correct_root.simps [of h n])
  next
    case (Cons s c)
    then show ?case by (cases s) (simp_all add: correct_root.simps [of h n])
  qed
  then show ?thesis using assms(1) by (simp add: t linked_plug rt_plug)
qed

definition is_avl :: "order \<Rightarrow> avl_state \<Rightarrow> nat list \<Rightarrow> bool" where
  "is_avl cmp s xs \<longleftrightarrow> weak_order cmp \<and> sorted_wrt cmp xs \<and>
     (\<exists>t. inorder t = xs \<and> shaped s t \<and> avl (t_balance (fst s)) t)"

lemma is_avl_bst: "is_avl cmp s xs \<Longrightarrow> is_bst cmp s xs"
  by (auto simp: is_avl_def is_bst_def)

lemma more_balance: "tree_store.more h = tree_store.more h' \<Longrightarrow> t_balance h = t_balance (h' :: avl_store)"
  by (cases h; cases h') simp

lemma avl_item_new:
  assumes "avl bal (plug Leaf c)" "item \<notin> nodes_path c"
  shows "avl_path (bal(item := 0)) 0 c" "avl (bal(item := 0)) (Node Leaf item Leaf)"
  using assms by (simp_all add: avl_plug)

lemma AVL_insert_ok:
  assumes "is_avl cmp s xs" "item \<notin> set xs"
  shows "\<exists>s' n. AVL_insert cmp s item = Some (s', n, \<not> (\<exists>y \<in> set xs. same_key cmp item y)) \<and>
     is_avl cmp s' (spec_insert cmp item xs)"
proof -
  obtain t where t: "weak_order cmp" "sorted_wrt cmp (inorder t)" "shaped s t" "inorder t = xs" "avl (t_balance (fst s)) t"
    using assms(1) by (auto simp: is_avl_def)
  have "item \<notin> set (inorder t)" using assms(2) t(4) by simp
  with t(1-3) show ?thesis
  proof (cases rule: BinTree_insert_cases)
    case (dup m)
    then show ?thesis using assms(1) t(4) by (auto simp: AVL_insert_def AVL_insert_at_def BinTree_insert_def spec_insert_def)
  next
    case (new c s')
    obtain h b where s': "s' = (h, b)" by (cases s')
    let ?t = "plug (Node Leaf item Leaf) c"
    have io: "inorder ?t = spec_insert cmp item xs" "sorted_wrt cmp (inorder ?t)" using place_split [OF t(1,2) new(2,3)] t(4) by simp_all
    have bal: "t_balance h = t_balance (fst s)" using more_balance [OF new(5)] by (simp add: s')
    have item: "item \<notin> nodes_path c" using assms(2) t(4) new(2) set_plug [of Leaf c] by auto
    have sh: "linked h None ?t" "bt_root b = rt ?t" "bt_size b = length (inorder ?t)" using new(4) by (simp_all add: shaped_def s')
    have "\<exists>h' t'. balance_insert (set_balance h item 0) item = Some h' \<and> balanced h' t' \<and> inorder t' = inorder ?t"
      using sh(1) sorted_distinct [OF t(1) io(2)] avl_item_new [OF _ item, of "t_balance h"] t(5) new(2)
      by (intro balance_insert_ok [where k = 0]) (simp_all add: bal fun_upd_same del: fun_upd_apply)
    then obtain h' t' where h': "balance_insert (set_balance h item 0) item = Some h'" "balanced h' t'" "inorder t' = inorder ?t" by blast
    have "item \<in> set_tree ?t" by (simp add: set_plug)
    then obtain root where root: "rt ?t = Some root" by (cases ?t) auto
    have "root \<in> set_tree t'" using rt_mem [OF root] h'(3) set_inorder by metis
    then have "correct_root h' root = rt t'" using correct_root_ok [of h' t' root] h'(2) by (simp add: balanced_def)
    moreover have "rt t' \<noteq> None" using \<open>root \<in> set_tree t'\<close> by auto
    ultimately have "AVL_insert cmp s item = Some ((h', b\<lparr> bt_root := rt t' \<rparr>), item, True)"
      by (cases "rt t'") (use new(1) h'(1) sh(2) root in \<open>auto simp: AVL_insert_def AVL_insert_at_def BinTree_insert_def AVL_rebalance_def s'\<close>)
    moreover have "is_avl cmp (h', b\<lparr> bt_root := rt t' \<rparr>) (spec_insert cmp item xs)"
      using h' io sh(3) t(1) by (auto simp: is_avl_def shaped_def balanced_def simp del: length_inorder)
    ultimately show ?thesis using place_split(3) [OF t(1,2) new(2,3)] t(4) by auto
  qed
qed

end
