(* ===== verification/AVL_Erase.thy ===== *)
theory AVL_Erase
  imports AVL
begin

text \<open>
  Erasure from the AVL tree of \<^verbatim>\<open>include/containers/bintree_avl.inl\<close>: the removed node is exchanged with
  its predecessor or only child until it is a leaf and can be cut off, and a loop walks up the parents and
  restores the balance. With this the AVL tree is an instance of the contract of the ordered containers.
\<close>


subsection \<open>Erasure\<close>

text \<open>
  \<^verbatim>\<open>Swap\<close> exchanges two nodes in the tree, their balance levels included; the caller exchanges its
  two variables. \<^const>\<open>None\<close> as a result of the loops below stands for a loop that does not end or a
  null pointer that is followed.
\<close>

definition swap_links :: "avl_store \<Rightarrow> nat \<Rightarrow> nat \<Rightarrow> avl_store" where
  "swap_links h node1 node2 =
     (let h = exchange_links h node1 node2
      in set_balance (set_balance h node1 (t_balance h node2)) node2 (t_balance h node1))"

definition Swap :: "avl_store \<Rightarrow> nat \<Rightarrow> nat \<Rightarrow> avl_store" where
  "Swap h node1 node2 = swap_links (redirect_neighbours h node1 node2) node1 node2"

text \<open>The rotations of the third rules, and the node they leave on top.\<close>

definition rebalance_left :: "avl_store \<Rightarrow> nat \<Rightarrow> avl_store option" where
  "rebalance_left h p =
     (case t_left h p of
        None \<Rightarrow> None
      | Some q \<Rightarrow> Some (if t_balance h q = 1 then RotateLeftLeft h p else RotateRight h p))"

definition rebalance_right :: "avl_store \<Rightarrow> nat \<Rightarrow> avl_store option" where
  "rebalance_right h p =
     (case t_right h p of
        None \<Rightarrow> None
      | Some q \<Rightarrow> Some (if t_balance h q = -1 then RotateRightRight h p else RotateLeft h p))"

partial_function (option) balance_erase :: "avl_store \<Rightarrow> nat \<Rightarrow> avl_store option" where
  "balance_erase h node =
     (case t_parent h node of
        None \<Rightarrow> Some h
      | Some p \<Rightarrow>
          if t_left h p = Some node \<and> t_balance h p = 0 then Some (set_balance h p 1)
          else if t_right h p = Some node \<and> t_balance h p = 0 then Some (set_balance h p (-1))
          else if t_left h p = Some node \<and> t_balance h p = -1 then balance_erase (set_balance h p 0) p
          else if t_right h p = Some node \<and> t_balance h p = 1 then balance_erase (set_balance h p 0) p
          else if t_right h p = Some node \<and> t_balance h p = -1 then
            Option.bind (rebalance_left h p) (\<lambda>h'.
            Option.bind (Option.bind (t_parent h' node) (t_parent h')) (\<lambda>top.
            if t_balance h' top = 1 then Some h' else balance_erase h' top))
          else if t_left h p = Some node \<and> t_balance h p = 1 then
            Option.bind (rebalance_right h p) (\<lambda>h'.
            Option.bind (Option.bind (t_parent h' node) (t_parent h')) (\<lambda>top.
            if t_balance h' top = -1 then Some h' else balance_erase h' top))
          else Some h)"

definition Unlink_right :: "avl_store \<Rightarrow> nat \<Rightarrow> avl_store option" where
  "Unlink_right h node =
     (if t_balance h node = 1 \<and> t_left h node = None then
        Option.bind (rebalance_right h node) (\<lambda>h'.
        Option.bind (t_parent h' node) (\<lambda>top.
        if t_balance h' top = -1 then Some h' else balance_erase h' top))
      else balance_erase h node)"

definition Unlink :: "avl_store \<Rightarrow> nat \<Rightarrow> avl_store option" where
  "Unlink h node =
     (if t_balance h node = 0 \<and> t_left h node = None then Some (set_balance h node 1)
      else if t_balance h node = 0 \<and> t_right h node = None then Some (set_balance h node (-1))
      else
        (let h = (if t_balance h node = -1 \<and> t_left h node = None then set_balance h node 0 else h);
             h = (if t_balance h node = 1 \<and> t_right h node = None then set_balance h node 0 else h)
         in if t_balance h node = -1 \<and> t_right h node = None then
              Option.bind (rebalance_left h node) (\<lambda>h'.
              Option.bind (t_parent h' node) (\<lambda>top.
              if t_balance h' top = 1 then Some h' else Unlink_right h' top))
            else Unlink_right h node))"

text \<open>
  The detachment of a node: the store, the tree, the node still to be handled (null when done) and the node
  where balancing starts.
\<close>

type_synonym detach = "avl_store \<times> bintree \<times> ptr \<times> ptr"

definition set_root :: "bintree \<Rightarrow> ptr \<Rightarrow> ptr \<Rightarrow> bintree" where
  "set_root b parent q = (if parent = None then b\<lparr> bt_root := q \<rparr> else b)"

fun detach_root :: "detach \<Rightarrow> detach" where
  "detach_root (h, b, node, start) =
     (case node of
        None \<Rightarrow> (h, b, node, start)
      | Some n \<Rightarrow>
          if t_parent h n = None \<and> t_left h n = None \<and> t_right h n = None
          then (h, b\<lparr> bt_root := None \<rparr>, None, start) else (h, b, node, start))"

fun detach_leaf :: "detach \<Rightarrow> detach" where
  "detach_leaf (h, b, node, start) =
     (case node of
        None \<Rightarrow> (h, b, node, start)
      | Some n \<Rightarrow>
          if t_left h n = None \<and> t_right h n = None
          then (set_side h (t_parent h n) (is_left h (t_parent h n) n) None, b, None, t_parent h n)
          else (h, b, node, start))"

fun detach_right :: "detach \<Rightarrow> detach" where
  "detach_right (h, b, node, start) =
     (case node of
        None \<Rightarrow> (h, b, node, start)
      | Some n \<Rightarrow>
          (case t_right h n of
             Some a \<Rightarrow>
               if t_left h n = None
               then (set_right (Swap h n a) a None, set_root b (t_parent h n) (Some a), Some a, Some a)
               else (h, b, node, start)
           | None \<Rightarrow> (h, b, node, start)))"

fun detach_left :: "detach \<Rightarrow> detach" where
  "detach_left (h, b, node, start) =
     (case node of
        None \<Rightarrow> (h, b, node, start)
      | Some n \<Rightarrow>
          (case t_left h n of
             Some a \<Rightarrow>
               if t_right h n = None
               then (set_left (Swap h n a) a None, set_root b (t_parent h n) (Some a), Some a, Some a)
               else (h, b, node, start)
           | None \<Rightarrow> (h, b, node, start)))"

text \<open>
  With both children present: the predecessor \<open>a\<close> takes the place of the node, and the node, that is now where
  the predecessor was, is exchanged with its left child \<open>b\<close> or cut off.
\<close>

fun detach_both :: "detach \<Rightarrow> detach option" where
  "detach_both (h, b, node, start) =
     (case node of
        None \<Rightarrow> Some (h, b, node, start)
      | Some n \<Rightarrow>
          (case (t_left h n, t_right h n) of
             (Some l, Some r) \<Rightarrow>
               Option.bind (rightmost h l) (\<lambda>a.
                 (let c = t_left h a;
                      b' = set_root b (t_parent h n) (Some a);
                      h' = Swap h n a
                  in case c of
                       Some m \<Rightarrow>
                         (let b'' = set_root b' (t_parent h' n) (Some m)
                          in Some (set_left (Swap h' n m) m None, b'', Some a, Some m))
                     | None \<Rightarrow>
                         Some (set_side h' (t_parent h' n) (is_left h' (t_parent h' n) n) None, b', Some a, t_parent h' n)))
           | _ \<Rightarrow> Some (h, b, node, start)))"

text \<open>The whole chain of cases.\<close>

definition detach_node :: "avl_store \<Rightarrow> bintree \<Rightarrow> nat \<Rightarrow> detach option" where
  "detach_node h b n = detach_both (detach_left (detach_right (detach_leaf (detach_root (h, b, Some n, None)))))"

definition AVL_unlink :: "avl_store \<Rightarrow> ptr \<Rightarrow> avl_store option" where
  "AVL_unlink h start = (case start of None \<Rightarrow> Some h | Some n \<Rightarrow> Unlink h n)"

definition AVL_correct_root :: "avl_store \<Rightarrow> ptr \<Rightarrow> ptr option" where
  "AVL_correct_root h root = (case root of None \<Rightarrow> Some None | Some r \<Rightarrow> map_option Some (correct_root h r))"

definition AVL_erase_at :: "avl_state \<Rightarrow> ptr \<Rightarrow> (avl_state \<times> ptr) option" where
  "AVL_erase_at s it =
     (case it of
        None \<Rightarrow> Some (s, None)
      | Some result \<Rightarrow>
          Option.bind (detach_node (fst s) (snd s) result) (\<lambda>(h, b, node, start).
          Option.bind (AVL_unlink h start) (\<lambda>h.
          Option.bind (AVL_correct_root h (bt_root b)) (\<lambda>root.
          Some (unlink_item (h, b\<lparr> bt_root := root \<rparr>) result, it)))))"

definition AVL_erase :: "order \<Rightarrow> avl_state \<Rightarrow> nat \<Rightarrow> (avl_state \<times> ptr) option" where
  "AVL_erase cmp s item = Option.bind (AVL_find cmp s item) (AVL_erase_at s)"


subsection \<open>Balancing after an erasure\<close>

text \<open>A node whose right subtree hangs over by two levels.\<close>

lemma rebalance_right_ok:
  assumes "linked h None (plug (Node t p u) c)" "distinct (inorder (plug (Node t p u) c))"
    "avl (t_balance h) t" "avl (t_balance h) u" "height u = height t + 2"
  obtains h' x m y where "rebalance_right h p = Some h'" "linked h' None (plug (Node (Node t p x) m y) c)"
    "avl (t_balance h') (Node (Node t p x) m y)" "inorder (Node (Node t p x) m y) = inorder (Node t p u)"
    "height (Node (Node t p x) m y) = (if t_balance h' m = -1 then height t + 3 else height t + 2)"
    "\<And>k. avl_path (t_balance h') k c = avl_path (t_balance h) k c"
proof -
  obtain a q b where u: "u = Node a q b" using assms(5) by (cases u) auto
  have right: "t_right h p = Some q" using assms(1) by (simp add: linked_plug u)
  have au: "avl (t_balance h) (Node a q b)" "height (Node a q b) = height t + 2" using assms(4,5) u by (simp_all del: avl.simps)
  note lk = assms(1) [unfolded u] and d = assms(2) [unfolded u]
  show thesis
  proof (cases "t_balance h q = -1")
    case True
    then have "height a = Suc (height b)" using au(1) by simp
    then obtain e m g where a: "a = Node e m g" by (cases a) auto
    note rot = RotateRightRight_avl [OF lk [unfolded a] d [unfolded a] au(1) [unfolded a] assms(3) au(2) [unfolded a] True]
    show thesis
      by (rule that [of "RotateRightRight h p" e m "Node g q b"])
        (use rot right True u a in \<open>simp_all add: rebalance_right_def del: avl.simps height_tree.simps\<close>)
  next
    case False
    then have q: "t_balance h q \<in> {1, 0}" using au(1) by auto
    note rot = RotateLeft_avl [OF lk d au(1) assms(3) au(2) q]
    show thesis
      by (rule that [of "RotateLeft h p" a q b])
        (use rot right False u in \<open>simp_all add: rebalance_right_def del: avl.simps height_tree.simps\<close>)
  qed
qed

lemma rebalance_left_ok:
  assumes "linked h None (plug (Node u p t) c)" "distinct (inorder (plug (Node u p t) c))"
    "avl (t_balance h) t" "avl (t_balance h) u" "height u = height t + 2"
  obtains h' x m y where "rebalance_left h p = Some h'" "linked h' None (plug (Node x m (Node y p t)) c)"
    "avl (t_balance h') (Node x m (Node y p t))" "inorder (Node x m (Node y p t)) = inorder (Node u p t)"
    "height (Node x m (Node y p t)) = (if t_balance h' m = 1 then height t + 3 else height t + 2)"
    "\<And>k. avl_path (t_balance h') k c = avl_path (t_balance h) k c"
proof -
  obtain a q b where u: "u = Node a q b" using assms(5) by (cases u) auto
  have left: "t_left h p = Some q" using assms(1) by (simp add: linked_plug u)
  have au: "avl (t_balance h) (Node a q b)" "height (Node a q b) = height t + 2" using assms(4,5) u by (simp_all del: avl.simps)
  note lk = assms(1) [unfolded u] and d = assms(2) [unfolded u]
  show thesis
  proof (cases "t_balance h q = 1")
    case True
    then have "height b = Suc (height a)" using au(1) by simp
    then obtain e m g where b: "b = Node e m g" by (cases b) auto
    note rot = RotateLeftLeft_avl [OF lk [unfolded b] d [unfolded b] au(1) [unfolded b] assms(3) au(2) [unfolded b] True]
    show thesis
      by (rule that [of "RotateLeftLeft h p" "Node a q e" m g])
        (use rot left True u b in \<open>simp_all add: rebalance_left_def del: avl.simps height_tree.simps\<close>)
  next
    case False
    then have q: "t_balance h q \<in> {-1, 0}" using au(1) by auto
    note rot = RotateRight_avl [OF lk d au(1) assms(3) au(2) q]
    show thesis
      by (rule that [of "RotateRight h p" a q b])
        (use rot left False u in \<open>simp_all add: rebalance_left_def del: avl.simps height_tree.simps\<close>)
  qed
qed

text \<open>What a balancing loop delivers.\<close>

definition rebalanced :: "avl_store option \<Rightarrow> nat list \<Rightarrow> bool" where
  "rebalanced r xs \<longleftrightarrow> (\<exists>h t. r = Some h \<and> balanced h t \<and> inorder t = xs)"

lemma rebalancedI: "linked h None (plug t c) \<Longrightarrow> avl (t_balance h) t \<Longrightarrow> avl_path (t_balance h) (height t) c \<Longrightarrow>
   distinct (inorder (plug t c)) \<Longrightarrow> rebalanced (Some h) (inorder (plug t c))"
  by (auto simp: rebalanced_def balanced_def avl_plug)

text \<open>A subtree that has lost one level is balanced again further up.\<close>

lemma balance_erase_ok:
  assumes "linked h None (plug (Node l n r) c)" "distinct (inorder (plug (Node l n r) c))" "avl (t_balance h) (Node l n r)"
    "avl_path (t_balance h) (Suc (height (Node l n r))) c"
  shows "rebalanced (balance_erase h n) (inorder (plug (Node l n r) c))"
  using assms
proof (induction c arbitrary: h l n r)
  case Nil
  then show ?case using rebalancedI [of h "Node l n r" "[]"] by (simp add: balance_erase.simps [of h n] del: avl.simps)
next
  case (Cons s c)
  let ?b = "t_balance h"
  define t where "t = Node l n r"
  have rt: "rt t = Some n" by (simp add: t_def)
  note prems = Cons.prems [folded t_def]
  show ?case
  proof (cases s)
    case (L p u)
    have lk: "t_parent h n = Some p" "t_left h p = Some n" "t_right h p = rt u" "linked h None (plug (Node t p u) c)"
      using prems(1) L by (simp_all add: linked_plug t_def)
    have b: "?b p = int (height u) - int (Suc (height t))" "?b p \<in> {-1, 0, 1}" "avl ?b u" "avl_path ?b (Suc (max (Suc (height t)) (height u))) c"
      using prems(4) L by auto
    have pl: "plug (Node l n r) (s # c) = plug (Node t p u) c" by (simp add: L t_def)
    have d: "distinct (inorder (plug (Node t p u) c))" using prems(2) L by simp
    have ne: "p \<notin> set_tree t" "p \<notin> set_tree u" "p \<notin> nodes_path c" "t_right h p \<noteq> Some n"
      using d lk(3) by (auto simp: t_def inorder_plug set_path dest!: rt_mem)
    consider "?b p = 0" "height u = Suc (height t)" | "?b p = -1" "height u = height t" | "?b p = 1" "height u = height t + 2"
      using b(1,2) by auto
    then show ?thesis
    proof cases
      case 1
      have "rebalanced (Some (set_balance h p 1)) (inorder (plug (Node t p u) c))"
        using lk(4) prems(3) b(3,4) ne d 1 by (intro rebalancedI) (simp_all add: max_def)
      then show ?thesis using lk 1 pl by (simp add: balance_erase.simps [of h n])
    next
      case 2
      have "rebalanced (balance_erase (set_balance h p 0) p) (inorder (plug (Node t p u) c))"
        using lk(4) prems(3) b(3,4) ne d 2 by (intro Cons.IH) (simp_all add: max_def fun_upd_same del: fun_upd_apply)
      then show ?thesis using lk ne(4) 2 pl by (simp add: balance_erase.simps [of h n])
    next
      case 3
      obtain h' x m y where h': "rebalance_right h p = Some h'" "linked h' None (plug (Node (Node t p x) m y) c)"
        "avl (t_balance h') (Node (Node t p x) m y)" "inorder (Node (Node t p x) m y) = inorder (Node t p u)"
        "height (Node (Node t p x) m y) = (if t_balance h' m = -1 then height t + 3 else height t + 2)"
        "\<And>k. avl_path (t_balance h') k c = avl_path ?b k c"
        using rebalance_right_ok [OF lk(4) d prems(3) b(3) 3(2)] by metis
      have par: "t_parent h' n = Some p" "t_parent h' p = Some m" using h'(2) by (simp_all add: linked_plug t_def)
      have io: "inorder (plug (Node (Node t p x) m y) c) = inorder (plug (Node t p u) c)" using h'(4) by (simp only: inorder_plug)
      then have d': "distinct (inorder (plug (Node (Node t p x) m y) c))" using d by simp
      have ht: "Suc (max (Suc (height t)) (height u)) = height t + 3" "Suc (max (height u) (Suc (height t))) = height t + 3" using 3(2) by simp_all
      show ?thesis
      proof (cases "t_balance h' m = -1")
        case True
        then have "rebalanced (Some h') (inorder (plug (Node t p u) c))"
          using rebalancedI [OF h'(2,3) _ d'] b(4) unfolding io h'(5,6) ht by simp
        then show ?thesis using lk ne(4) 3 pl par h'(1) True by (simp add: balance_erase.simps [of h n])
      next
        case False
        then have "Suc (height (Node (Node t p x) m y)) = height t + 3" using h'(5) by simp
        then have "rebalanced (balance_erase h' m) (inorder (plug (Node t p u) c))"
          using Cons.IH [OF h'(2) d' h'(3)] b(4) unfolding io h'(6) ht by (simp add: numeral_3_eq_3 del: height_tree.simps)
        then show ?thesis using lk ne(4) 3 pl par h'(1) False by (simp add: balance_erase.simps [of h n])
      qed
    qed
  next
    case (R u p)
    have lk: "t_parent h n = Some p" "t_right h p = Some n" "t_left h p = rt u" "linked h None (plug (Node u p t) c)"
      using prems(1) R by (simp_all add: linked_plug t_def)
    have b: "?b p = int (Suc (height t)) - int (height u)" "?b p \<in> {-1, 0, 1}" "avl ?b u" "avl_path ?b (Suc (max (height u) (Suc (height t)))) c"
      using prems(4) R by auto
    have pl: "plug (Node l n r) (s # c) = plug (Node u p t) c" by (simp add: R t_def)
    have d: "distinct (inorder (plug (Node u p t) c))" using prems(2) R by simp
    have ne: "p \<notin> set_tree t" "p \<notin> set_tree u" "p \<notin> nodes_path c" "t_left h p \<noteq> Some n"
      using d lk(3) by (auto simp: t_def inorder_plug set_path dest!: rt_mem)
    consider "?b p = 0" "height u = Suc (height t)" | "?b p = 1" "height u = height t" | "?b p = -1" "height u = height t + 2"
      using b(1,2) by auto
    then show ?thesis
    proof cases
      case 1
      have "rebalanced (Some (set_balance h p (-1))) (inorder (plug (Node u p t) c))"
        using lk(4) prems(3) b(3,4) ne d 1 by (intro rebalancedI) (simp_all add: max_def)
      then show ?thesis using lk ne(4) 1 pl by (simp add: balance_erase.simps [of h n])
    next
      case 2
      have "rebalanced (balance_erase (set_balance h p 0) p) (inorder (plug (Node u p t) c))"
        using lk(4) prems(3) b(3,4) ne d 2 by (intro Cons.IH) (simp_all add: max_def fun_upd_same del: fun_upd_apply)
      then show ?thesis using lk ne(4) 2 pl by (simp add: balance_erase.simps [of h n])
    next
      case 3
      obtain h' x m y where h': "rebalance_left h p = Some h'" "linked h' None (plug (Node x m (Node y p t)) c)"
        "avl (t_balance h') (Node x m (Node y p t))" "inorder (Node x m (Node y p t)) = inorder (Node u p t)"
        "height (Node x m (Node y p t)) = (if t_balance h' m = 1 then height t + 3 else height t + 2)"
        "\<And>k. avl_path (t_balance h') k c = avl_path ?b k c"
        using rebalance_left_ok [OF lk(4) d prems(3) b(3) 3(2)] by metis
      have par: "t_parent h' n = Some p" "t_parent h' p = Some m" using h'(2) by (simp_all add: linked_plug t_def)
      have io: "inorder (plug (Node x m (Node y p t)) c) = inorder (plug (Node u p t) c)" using h'(4) by (simp only: inorder_plug)
      then have d': "distinct (inorder (plug (Node x m (Node y p t)) c))" using d by simp
      have ht: "Suc (max (Suc (height t)) (height u)) = height t + 3" "Suc (max (height u) (Suc (height t))) = height t + 3" using 3(2) by simp_all
      show ?thesis
      proof (cases "t_balance h' m = 1")
        case True
        then have "rebalanced (Some h') (inorder (plug (Node u p t) c))"
          using rebalancedI [OF h'(2,3) _ d'] b(4) unfolding io h'(5,6) ht by simp
        then show ?thesis using lk ne(4) 3 pl par h'(1) True by (simp add: balance_erase.simps [of h n])
      next
        case False
        then have "Suc (height (Node x m (Node y p t))) = height t + 3" using h'(5) by simp
        then have "rebalanced (balance_erase h' m) (inorder (plug (Node u p t) c))"
          using Cons.IH [OF h'(2) d' h'(3)] b(4) unfolding io h'(6) ht by (simp add: numeral_3_eq_3 del: height_tree.simps)
        then show ?thesis using lk ne(4) 3 pl par h'(1) False by (simp add: balance_erase.simps [of h n])
      qed
    qed
  qed
qed

lemma Unlink_ok:
  assumes "linked h None (plug Leaf c)" "distinct (inorder (plug Leaf c))" "avl_path (t_balance h) (Suc 0) c" "up c = Some p"
  shows "rebalanced (Unlink h p) (inorder (plug Leaf c))"
proof (cases c rule: nodes_path.cases)
  case 1
  then show ?thesis using assms(4) by simp
next
  case (2 q u d)
  let ?b = "t_balance h"
  have [simp]: "q = p" using assms(4) 2 by simp
  have lk: "t_left h p = None" "t_right h p = rt u" "linked h None (plug (Node Leaf p u) d)" "distinct (inorder (plug (Node Leaf p u) d))"
    using assms(1,2) 2 by (simp_all add: linked_plug)
  have b: "?b p = int (height u) - 1" "?b p \<in> {-1, 0, 1}" "avl ?b u" "avl_path ?b (Suc (max (Suc 0) (height u))) d" using assms(3) 2 by auto
  have ne: "p \<notin> set_tree u" "p \<notin> nodes_path d" using lk(4) by (auto simp: inorder_plug set_path)
  have pl: "plug Leaf c = plug (Node Leaf p u) d" by (simp add: 2)
  consider "?b p = 0" "height u = 1" | "?b p = -1" "u = Leaf" | "?b p = 1" "height u = height (Leaf :: nat tree) + 2"
    using b(1,2) by auto
  then show ?thesis
  proof cases
    case 1
    have "rebalanced (Some (set_balance h p 1)) (inorder (plug (Node Leaf p u) d))"
      using lk b ne 1 by (intro rebalancedI) (simp_all add: max_def)
    then show ?thesis using lk 1 pl by (simp add: Unlink_def)
  next
    case 2
    have "rebalanced (balance_erase (set_balance h p 0) p) (inorder (plug (Node Leaf p u) d))"
      using lk b ne 2 by (intro balance_erase_ok) (simp_all add: max_def fun_upd_same del: fun_upd_apply)
    then show ?thesis using lk 2 pl by (simp add: Unlink_def Unlink_right_def Let_def)
  next
    case 3
    obtain h' x m y where h': "rebalance_right h p = Some h'" "linked h' None (plug (Node (Node Leaf p x) m y) d)"
      "avl (t_balance h') (Node (Node Leaf p x) m y)" "inorder (Node (Node Leaf p x) m y) = inorder (Node Leaf p u)"
      "height (Node (Node Leaf p x) m y) = (if t_balance h' m = -1 then 3 else 2)"
      "\<And>k. avl_path (t_balance h') k d = avl_path ?b k d"
      using rebalance_right_ok [OF lk(3,4) _ b(3) 3(2)] by (metis avl.simps(1) height_tree.simps(1) add_0)
    have par: "t_parent h' p = Some m" using h'(2) by (simp add: linked_plug)
    have io: "inorder (plug (Node (Node Leaf p x) m y) d) = inorder (plug (Node Leaf p u) d)" using h'(4) by (simp only: inorder_plug)
    then have d': "distinct (inorder (plug (Node (Node Leaf p x) m y) d))" using lk(4) by simp
    have ht: "Suc (max (Suc 0) (height u)) = 3" using 3(2) by simp
    have "u \<noteq> Leaf" using 3(2) by auto
    then have un: "Unlink h p = (if t_balance h' m = -1 then Some h' else balance_erase h' m)"
      using lk(1,2) 3(1) h'(1) par by (simp add: Unlink_def Unlink_right_def Let_def)
    show ?thesis
    proof (cases "t_balance h' m = -1")
      case True
      then show ?thesis using rebalancedI [OF h'(2,3) _ d'] b(4) unfolding io h'(5,6) ht pl un by simp
    next
      case False
      then have "Suc (height (Node (Node Leaf p x) m y)) = 3" using h'(5) by simp
      then show ?thesis using balance_erase_ok [OF h'(2) d' h'(3)] b(4) False unfolding io h'(6) ht pl un by (simp add: numeral_3_eq_3 del: height_tree.simps)
    qed
  qed
next
  case (3 u q d)
  let ?b = "t_balance h"
  have [simp]: "q = p" using assms(4) 3 by simp
  have lk: "t_right h p = None" "t_left h p = rt u" "linked h None (plug (Node u p Leaf) d)" "distinct (inorder (plug (Node u p Leaf) d))"
    using assms(1,2) 3 by (simp_all add: linked_plug)
  have b: "?b p = 1 - int (height u)" "?b p \<in> {-1, 0, 1}" "avl ?b u" "avl_path ?b (Suc (max (height u) (Suc 0))) d" using assms(3) 3 by auto
  have ne: "p \<notin> set_tree u" "p \<notin> nodes_path d" using lk(4) by (auto simp: inorder_plug set_path)
  have pl: "plug Leaf c = plug (Node u p Leaf) d" by (simp add: 3)
  consider "?b p = 0" "height u = 1" | "?b p = 1" "u = Leaf" | "?b p = -1" "height u = height (Leaf :: nat tree) + 2"
    using b(1,2) by auto
  then show ?thesis
  proof cases
    case 1
    have "rebalanced (Some (set_balance h p (-1))) (inorder (plug (Node u p Leaf) d))"
      using lk b ne 1 by (intro rebalancedI) (simp_all add: max_def)
    moreover have "u \<noteq> Leaf" using 1(2) by auto
    ultimately show ?thesis using lk 1 pl by (simp add: Unlink_def)
  next
    case 2
    have "rebalanced (balance_erase (set_balance h p 0) p) (inorder (plug (Node u p Leaf) d))"
      using lk b ne 2 by (intro balance_erase_ok) (simp_all add: max_def fun_upd_same del: fun_upd_apply)
    then show ?thesis using lk 2 pl by (simp add: Unlink_def Unlink_right_def Let_def)
  next
    case 3
    obtain h' x m y where h': "rebalance_left h p = Some h'" "linked h' None (plug (Node x m (Node y p Leaf)) d)"
      "avl (t_balance h') (Node x m (Node y p Leaf))" "inorder (Node x m (Node y p Leaf)) = inorder (Node u p Leaf)"
      "height (Node x m (Node y p Leaf)) = (if t_balance h' m = 1 then 3 else 2)"
      "\<And>k. avl_path (t_balance h') k d = avl_path ?b k d"
      using rebalance_left_ok [OF lk(3,4) _ b(3) 3(2)] by (metis avl.simps(1) height_tree.simps(1) add_0)
    have par: "t_parent h' p = Some m" using h'(2) by (simp add: linked_plug)
    have io: "inorder (plug (Node x m (Node y p Leaf)) d) = inorder (plug (Node u p Leaf) d)" using h'(4) by (simp only: inorder_plug)
    then have d': "distinct (inorder (plug (Node x m (Node y p Leaf)) d))" using lk(4) by simp
    have ht: "Suc (max (height u) (Suc 0)) = 3" using 3(2) by simp
    have "u \<noteq> Leaf" using 3(2) by auto
    then have un: "Unlink h p = (if t_balance h' m = 1 then Some h' else balance_erase h' m)"
      using lk(1,2) 3(1) h'(1) par by (simp add: Unlink_def Unlink_right_def Let_def)
    show ?thesis
    proof (cases "t_balance h' m = 1")
      case True
      then show ?thesis using rebalancedI [OF h'(2,3) _ d'] b(4) unfolding io h'(5,6) ht pl un by simp
    next
      case False
      then have "Suc (height (Node x m (Node y p Leaf))) = 3" using h'(5) by simp
      then show ?thesis using balance_erase_ok [OF h'(2) d' h'(3)] b(4) False unfolding io h'(6) ht pl un by (simp add: numeral_3_eq_3 del: height_tree.simps)
    qed
  qed
qed


subsection \<open>Exchanging two nodes\<close>

lemma balance_exchange [simp]: "t_balance (set_side h p s q) = t_balance h" "t_balance (exchange_nodes h n1 n2) = t_balance h"
  by (auto simp: set_side_def exchange_nodes_def exchange_links_def redirect_neighbours_def Let_def split: option.splits)

lemma Swap_eq: "Swap h n1 n2 = set_balance (set_balance (exchange_nodes h n1 n2) n1 (t_balance h n2)) n2 (t_balance h n1)"
  using balance_exchange(2) [of h n1 n2] by (simp add: Swap_def swap_links_def exchange_nodes_def Let_def)

text \<open>Swapping two nodes of a tree renames them in the shape and keeps the balance levels in place.\<close>

lemma avl_rename: "\<forall>x \<in> set_tree t. bal' (f x) = bal x \<Longrightarrow> avl bal' (map_tree f t) = avl bal t"
  by (induction t) auto

lemma Swap_ok:
  assumes "linked h None t" "distinct (inorder t)" "n1 \<in> set_tree t" "n2 \<in> set_tree t" "n1 \<noteq> n2"
  shows "linked (Swap h n1 n2) None (map_tree (exch n1 n2) t)"
    "avl (t_balance (Swap h n1 n2)) (map_tree (exch n1 n2) t) = avl (t_balance h) t"
proof -
  show "linked (Swap h n1 n2) None (map_tree (exch n1 n2) t)" using exchange_ok [OF assms] by (simp add: Swap_eq)
  show "avl (t_balance (Swap h n1 n2)) (map_tree (exch n1 n2) t) = avl (t_balance h) t"
    by (rule avl_rename) (use assms(5) in \<open>auto simp: Swap_eq exch_def\<close>)
qed


subsection \<open>Detaching a node\<close>

lemma root_kept:
  assumes "bt_root b = rt (plug u c)"
  shows "\<exists>x. bt_root (set_root b (up c) (Some a)) = Some x \<and> (x = a \<or> x \<in> nodes_path c)"
  using assms root_in_path [of c "rt u"] by (cases "c = []") (auto simp: set_root_def rt_plug)

text \<open>Cutting off a leaf leaves a hole of one level.\<close>

definition has_hole :: "avl_store \<Rightarrow> path \<Rightarrow> bool" where
  "has_hole h c \<longleftrightarrow> linked h None (plug Leaf c) \<and> avl_path (t_balance h) (Suc 0) c"

lemma cut_leaf:
  assumes "linked h None (plug (Node Leaf n Leaf) c)" "distinct (inorder (plug (Node Leaf n Leaf) c))"
    "avl (t_balance h) (plug (Node Leaf n Leaf) c)"
  shows "has_hole (set_child h c None) c" "set_side h (t_parent h n) (is_left h (t_parent h n) n) None = set_child h c None"
proof -
  show "has_hole (set_child h c None) c"
    using assms set_child_path [of h "Some n" c None] by (auto simp: has_hole_def linked_plug avl_plug inorder_plug)
  show "set_side h (t_parent h n) (is_left h (t_parent h n) n) None = set_child h c None"
    using assms(1,2) by (cases c rule: nodes_path.cases) (auto simp: linked_plug inorder_plug set_side_def is_left_def dest: rt_mem)
qed

lemma height_one: "height t = Suc 0 \<Longrightarrow> \<exists>x. t = Node Leaf x Leaf"
  by (cases t) auto

text \<open>What the detachment of a node delivers.\<close>

definition detached :: "detach option \<Rightarrow> nat \<Rightarrow> nat list \<Rightarrow> bool" where
  "detached res k xs \<longleftrightarrow> (\<exists>h b node c. res = Some (h, b, node, up c) \<and> has_hole h c \<and> inorder (plug Leaf c) = xs \<and> bt_size b = k \<and>
     (case bt_root b of None \<Rightarrow> c = [] | Some x \<Rightarrow> x \<in> nodes_path c))"

lemma swap_leaf:
  assumes "linked h None (plug (Node Leaf n (Node Leaf a Leaf)) c)" "avl (t_balance h) (plug (Node Leaf n (Node Leaf a Leaf)) c)"
    "distinct (inorder (plug (Node Leaf n (Node Leaf a Leaf)) c))"
  shows "has_hole (set_right (Swap h n a) a None) (R Leaf a # c)"
proof -
  let ?t = "plug (Node Leaf n (Node Leaf a Leaf)) c"
  have ne: "n \<noteq> a" "n \<in> set_tree ?t" "a \<in> set_tree ?t" "n \<notin> nodes_path c" "a \<notin> nodes_path c"
    using assms(3) by (auto simp: inorder_plug set_plug set_path)
  have m: "map_tree (exch n a) ?t = plug (Node Leaf n Leaf) (R Leaf a # c)"
    using ne by (subst map_plug_id) (auto simp: exch_def)
  note sw = Swap_ok [OF assms(1,3) ne(2,3,1), unfolded m]
  have "distinct (inorder (plug (Node Leaf n Leaf) (R Leaf a # c)))" using assms(3) by (auto simp: inorder_plug)
  from cut_leaf(1) [OF sw(1) this] sw(2) assms(2) show ?thesis by simp
qed

lemma swap_leaf_left:
  assumes "linked h None (plug (Node (Node Leaf a Leaf) n Leaf) c)" "avl (t_balance h) (plug (Node (Node Leaf a Leaf) n Leaf) c)"
    "distinct (inorder (plug (Node (Node Leaf a Leaf) n Leaf) c))"
  shows "has_hole (set_left (Swap h n a) a None) (L a Leaf # c)"
proof -
  let ?t = "plug (Node (Node Leaf a Leaf) n Leaf) c"
  have ne: "n \<noteq> a" "n \<in> set_tree ?t" "a \<in> set_tree ?t" "n \<notin> nodes_path c" "a \<notin> nodes_path c"
    using assms(3) by (auto simp: inorder_plug set_plug set_path)
  have m: "map_tree (exch n a) ?t = plug (Node Leaf n Leaf) (L a Leaf # c)"
    using ne by (subst map_plug_id) (auto simp: exch_def)
  note sw = Swap_ok [OF assms(1,3) ne(2,3,1), unfolded m]
  have "distinct (inorder (plug (Node Leaf n Leaf) (L a Leaf # c)))" using assms(3) by (auto simp: inorder_plug)
  from cut_leaf(1) [OF sw(1) this] sw(2) assms(2) show ?thesis by simp
qed

lemma detach_both_ok:
  assumes lk: "linked h None (plug (Node l n r) c)" and av: "avl (t_balance h) (plug (Node l n r) c)"
    and ds: "distinct (inorder (plug (Node l n r) c))" and root: "bt_root b = rt (plug (Node l n r) c)" and lr: "l \<noteq> Leaf" "r \<noteq> Leaf"
  shows "detached (detach_both (h, b, Some n, st)) (bt_size b) (before c @ inorder l @ inorder r @ after c)"
proof -
  define a where "a = last (inorder l)"
  obtain l' d where l: "l = plug (Node l' a Leaf) d" and ad: "after d = []" using rightmost_focus [OF lr(1)] by (auto simp: a_def)
  let ?c = "d @ L a r # c"
  have io: "inorder l = before d @ inorder l' @ [a]" using ad by (simp add: l inorder_plug)
  have t: "plug (Node l n r) c = plug (Node l' a Leaf) (d @ L n r # c)" by (simp add: l plug_append)
  have ds': "distinct (before c @ before d @ inorder l' @ a # n # inorder r @ after c)" using ds by (simp add: inorder_plug io)
  then have ne: "n \<noteq> a" "n \<notin> nodes_path c" "a \<notin> nodes_path c" "n \<notin> nodes_path d" "a \<notin> nodes_path d" "n \<notin> set_tree r" "a \<notin> set_tree r"
    "n \<notin> set_tree l'" "a \<notin> set_tree l'" by (auto simp: set_path ad)
  have m: "map_tree (exch n a) (plug (Node l n r) c) = plug (Node l' n Leaf) ?c"
  proof -
    have "map_tree (exch n a) r = r" "map_tree (exch n a) l' = l'" by (rule map_tree_id; use ne in \<open>auto simp: exch_def\<close>)+
    moreover have "map_tree (exch n a) l = plug (map_tree (exch n a) (Node l' a Leaf)) d"
      unfolding l by (rule map_plug_id) (use ne in \<open>auto simp: exch_def\<close>)
    moreover have "map_tree (exch n a) (plug (Node l n r) c) = plug (map_tree (exch n a) (Node l n r)) c"
      by (rule map_plug_id) (use ne in \<open>auto simp: exch_def\<close>)
    ultimately show ?thesis by (simp add: plug_append)
  qed
  have "n \<in> set_tree (plug (Node l n r) c)" "a \<in> set_tree (plug (Node l n r) c)" by (simp_all add: set_plug l)
  note sw = Swap_ok [OF lk ds this ne(1), unfolded m]
  have d1: "distinct (inorder (plug (Node l' n Leaf) ?c))" using ds' by (auto simp: inorder_plug before_append ad)
  have av1: "avl (t_balance (Swap h n a)) (plug (Node l' n Leaf) ?c)" using sw(2) av by simp
  have par: "t_parent (Swap h n a) n = up ?c" using sw(1) by (simp add: linked_plug)
  obtain ln rn where lrn: "rt l = Some ln" "rt r = Some rn" using lr by (cases "rt l"; cases "rt r") auto
  have lkn: "t_left h n = Some ln" "t_right h n = Some rn" "t_parent h n = up c" "linked h (Some n) l" using lk lrn by (simp_all add: linked_plug)
  have rm: "rightmost h ln = Some a" using rightmost_last [OF lkn(4) lrn(1)] by (simp add: a_def)
  have la: "t_left h a = rt l'" using lk unfolding t by (simp add: linked_plug)
  obtain x where x: "bt_root (set_root b (up c) (Some a)) = Some x" "x = a \<or> x \<in> nodes_path c" using root_kept [OF root] by blast
  have x': "x \<in> nodes_path ?c" using x(2) by (auto simp: before_append)
  have sz: "bt_size (set_root b p q) = bt_size b" for p q by (simp add: set_root_def)
  show ?thesis
  proof (cases l')
    case Leaf
    note cut = cut_leaf [of "Swap h n a" n ?c, OF _ _ av1 [unfolded Leaf]]
    have "detach_both (h, b, Some n, st) = Some (set_child (Swap h n a) ?c None, set_root b (up c) (Some a), Some a, up ?c)"
      using lkn rm la Leaf par cut(2) sw(1) d1 by (simp add: Let_def)
    moreover have "inorder (plug Leaf ?c) = before c @ inorder l @ inorder r @ after c" by (simp add: inorder_plug before_append ad io Leaf)
    moreover have "has_hole (set_child (Swap h n a) ?c None) ?c" using cut(1) sw(1) d1 Leaf by simp
    ultimately show ?thesis using x(1) x' sz unfolding detached_def by fastforce
  next
    case (Node l1 m l2)
    have "avl (t_balance h) (Node l' a Leaf)" using av unfolding t by (simp add: avl_plug del: avl.simps)
    then have "height l' = Suc 0" using Node by auto
    then have l': "l' = Node Leaf m Leaf" using height_one Node by blast
    have "has_hole (set_left (Swap (Swap h n a) n m) m None) (L m Leaf # ?c)"
      using swap_leaf_left [of "Swap h n a" m n ?c] sw(1) av1 d1 l' by simp
    moreover have "detach_both (h, b, Some n, st) =
        Some (set_left (Swap (Swap h n a) n m) m None, set_root b (up c) (Some a), Some a, up (L m Leaf # ?c))"
      using lkn rm la l' par by (simp add: Let_def set_root_def)
    moreover have "inorder (plug Leaf (L m Leaf # ?c)) = before c @ inorder l @ inorder r @ after c"
      by (simp add: inorder_plug before_append ad io l')
    moreover have "x \<in> nodes_path (L m Leaf # ?c)" using x' by simp
    ultimately show ?thesis using x(1) sz unfolding detached_def by fastforce
  qed
qed

lemma detach_node_ok:
  assumes lk: "linked h None (plug (Node l n r) c)" and av: "avl (t_balance h) (plug (Node l n r) c)"
    and ds: "distinct (inorder (plug (Node l n r) c))" and root: "bt_root b = rt (plug (Node l n r) c)"
  shows "detached (detach_node h b n) (bt_size b) (before c @ inorder l @ inorder r @ after c)"
proof -
  have lkn: "t_left h n = rt l" "t_right h n = rt r" "t_parent h n = up c" using lk by (simp_all add: linked_plug)
  have avn: "avl (t_balance h) (Node l n r)" using av by (simp add: avl_plug del: avl.simps)
  have sz: "bt_size (set_root b p q) = bt_size b" for p q by (simp add: set_root_def)
  consider (root) "l = Leaf" "r = Leaf" "c = []" | (leaf) "l = Leaf" "r = Leaf" "c \<noteq> []"
    | (right) "l = Leaf" "r \<noteq> Leaf" | (left) "l \<noteq> Leaf" "r = Leaf" | (both) "l \<noteq> Leaf" "r \<noteq> Leaf" by blast
  then show ?thesis
  proof cases
    case root
    then show ?thesis using lkn by (auto simp: detach_node_def detached_def has_hole_def intro!: exI [of _ "[]"])
  next
    case leaf
    note cut = cut_leaf [of h n c]
    have "detach_node h b n = Some (set_child h c None, b, None, up c)"
      using leaf lkn cut(2) lk ds av by (simp add: detach_node_def)
    moreover have "has_hole (set_child h c None) c" using cut(1) lk ds av leaf by simp
    moreover obtain x where "x \<in> nodes_path c" "bt_root b = Some x" using root root_in_path [of c "Some n"] leaf(3) by (auto simp: rt_plug)
    ultimately show ?thesis using leaf by (auto simp: detached_def inorder_plug)
  next
    case right
    then have "height r = Suc 0" using avn by auto
    then obtain a where r: "r = Node Leaf a Leaf" using height_one by blast
    have hole: "has_hole (set_right (Swap h n a) a None) (R Leaf a # c)" using swap_leaf [of h n a c] lk av ds right r by simp
    have "t_left (set_right (Swap h n a) a None) a = None" using hole by (simp add: has_hole_def linked_plug)
    then have "detach_node h b n = Some (set_right (Swap h n a) a None, set_root b (up c) (Some a), Some a, up (R Leaf a # c))"
      using right lkn r by (simp add: detach_node_def)
    moreover obtain x where "bt_root (set_root b (up c) (Some a)) = Some x" "x = a \<or> x \<in> nodes_path c" using root_kept [OF root] by blast
    moreover have "inorder (plug Leaf (R Leaf a # c)) = before c @ inorder l @ inorder r @ after c" using right r by (simp add: inorder_plug)
    ultimately show ?thesis using hole sz unfolding detached_def by fastforce
  next
    case left
    then have "height l = Suc 0" using avn by auto
    then obtain a where l: "l = Node Leaf a Leaf" using height_one by blast
    have hole: "has_hole (set_left (Swap h n a) a None) (L a Leaf # c)" using swap_leaf_left [of h a n c] lk av ds left l by simp
    have "t_right (set_left (Swap h n a) a None) a = None" using hole by (simp add: has_hole_def linked_plug)
    then have "detach_node h b n = Some (set_left (Swap h n a) a None, set_root b (up c) (Some a), Some a, up (L a Leaf # c))"
      using left lkn l by (simp add: detach_node_def)
    moreover obtain x where "bt_root (set_root b (up c) (Some a)) = Some x" "x = a \<or> x \<in> nodes_path c" using root_kept [OF root] by blast
    moreover have "inorder (plug Leaf (L a Leaf # c)) = before c @ inorder l @ inorder r @ after c" using left l by (simp add: inorder_plug)
    ultimately show ?thesis using hole sz unfolding detached_def by fastforce
  next
    case both
    then obtain ln rn where "rt l = Some ln" "rt r = Some rn" by (cases "rt l"; cases "rt r") auto
    then have "detach_node h b n = detach_both (h, b, Some n, None)" using lkn by (simp add: detach_node_def del: detach_both.simps)
    then show ?thesis using detach_both_ok [OF lk av ds root both] by simp
  qed
qed


lemma AVL_erase_node:
  assumes "is_avl cmp s xs" "n \<in> set xs"
  shows "\<exists>s'. AVL_erase_at s (Some n) = Some (s', Some n) \<and> is_avl cmp s' (remove1 n xs)"
proof -
  obtain h b where s: "s = (h, b)" by (cases s)
  obtain t where t: "inorder t = xs" "linked h None t" "bt_root b = rt t" "bt_size b = length (inorder t)" "avl (t_balance h) t"
    and ord: "weak_order cmp" and srt: "sorted_wrt cmp xs" using assms(1) by (auto simp: is_avl_def shaped_def s)
  obtain l r c where f: "t = plug (Node l n r) c" using focus_ex assms(2) t(1) set_inorder by metis
  have ds: "distinct (inorder t)" using sorted_distinct [OF ord srt] t(1) by simp
  have xs: "xs = (before c @ inorder l) @ n # (inorder r @ after c)" using t(1) f by (simp add: inorder_plug)
  have rm: "remove1 n xs = before c @ inorder l @ inorder r @ after c"
    unfolding xs using ds t(1) xs by (subst remove1_middle) auto
  have srt': "sorted_wrt cmp (remove1 n xs)" using srt unfolding rm unfolding xs by (simp add: sorted_wrt_append)
  have n': "n \<notin> set (remove1 n xs)" using ds t(1) by simp
  obtain h1 b1 node d where d: "detach_node h b n = Some (h1, b1, node, up d)" "has_hole h1 d" "inorder (plug Leaf d) = remove1 n xs"
    "bt_size b1 = bt_size b" "case bt_root b1 of None \<Rightarrow> d = [] | Some x \<Rightarrow> x \<in> nodes_path d"
    using detach_node_ok [of h l n r c b] t ds f rm by (auto simp: detached_def)
  have "\<exists>h2 t2. AVL_unlink h1 (up d) = Some h2 \<and> balanced h2 t2 \<and> inorder t2 = remove1 n xs"
  proof (cases "up d")
    case None
    then show ?thesis using d by (auto simp: AVL_unlink_def balanced_def)
  next
    case (Some p)
    have "rebalanced (Unlink h1 p) (inorder (plug Leaf d))"
      using d(2,3) ds t(1) Some by (intro Unlink_ok) (auto simp: has_hole_def)
    then show ?thesis using Some d(3) by (auto simp: rebalanced_def AVL_unlink_def)
  qed
  then obtain h2 t2 where u: "AVL_unlink h1 (up d) = Some h2" "balanced h2 t2" "inorder t2 = remove1 n xs" by blast
  have "AVL_correct_root h2 (bt_root b1) = Some (rt t2)"
  proof (cases "bt_root b1")
    case None
    then have "remove1 n xs = []" using d(3,5) by simp
    then have "t2 = Leaf" using u(3) by (cases t2) auto
    then show ?thesis using None by (simp add: AVL_correct_root_def)
  next
    case (Some x)
    then have "x \<in> set_tree t2" using d(3,5) u(3) set_plug [of Leaf d] by (metis Un_iff option.simps(5) set_inorder)
    then show ?thesis using correct_root_ok [of h2 t2 x] u(2) Some
      by (cases "rt t2") (auto simp: AVL_correct_root_def balanced_def)
  qed
  then have er: "AVL_erase_at s (Some n) = Some (unlink_item (h2, b1\<lparr> bt_root := rt t2 \<rparr>) n, Some n)"
    using d(1) u(1) by (simp add: AVL_erase_at_def s)
  have "n \<notin> set_tree t2" using n' u(3) set_inorder by metis
  moreover have "bt_size b = Suc (length (inorder t2))" using t(1,4) u(3) assms(2) by (simp add: length_remove1) (metis Suc_pred length_pos_if_in_set)
  ultimately have "shaped (unlink_item (h2, b1\<lparr> bt_root := rt t2 \<rparr>) n) t2"
    using u(2) d(4) by (intro unlink_ok) (auto simp: balanced_def)
  moreover have "avl (t_balance (fst (unlink_item (h2, b1\<lparr> bt_root := rt t2 \<rparr>) n))) t2" using u(2) by (simp add: balanced_def Let_def)
  ultimately show ?thesis using er u(3) ord srt' by (auto simp: is_avl_def)
qed

lemma AVL_erase_ok:
  assumes "is_avl cmp s xs"
  shows "\<exists>s'. AVL_erase cmp s item = Some (s', List.find (same_key cmp item) xs) \<and> is_avl cmp s' (spec_erase cmp item xs)"
proof (cases "List.find (same_key cmp item) xs")
  case None
  then show ?thesis using BinTree_find_ok [OF is_avl_bst [OF assms], of item] assms by (auto simp: AVL_erase_def AVL_search_BinTree AVL_erase_at_def spec_erase_def)
next
  case (Some n)
  then show ?thesis using BinTree_find_ok [OF is_avl_bst [OF assms], of item] AVL_erase_node [OF assms, of n] find_SomeD [OF Some]
    by (auto simp: AVL_erase_def AVL_search_BinTree spec_erase_def)
qed

interpretation avl_tree: ordered_container cmp "is_avl cmp" "AVL_insert cmp" "AVL_erase cmp"
proof
  fix s xs x
  show "is_avl cmp s xs \<Longrightarrow> sorted_wrt cmp xs" by (simp add: is_avl_def)
  show "is_avl cmp s xs \<Longrightarrow> x \<notin> set xs \<Longrightarrow> \<exists>s' n. AVL_insert cmp s x = Some (s', n, \<not> (\<exists>y \<in> set xs. same_key cmp x y)) \<and>
      is_avl cmp s' (spec_insert cmp x xs)"
    by (rule AVL_insert_ok)
  show "is_avl cmp s xs \<Longrightarrow> \<exists>s'. AVL_erase cmp s x = Some (s', List.find (same_key cmp x) xs) \<and> is_avl cmp s' (spec_erase cmp x xs)"
    by (rule AVL_erase_ok)
qed

subsection \<open>The height of a balanced tree\<close>

text \<open>The least number of nodes of a balanced tree of a given height grows like the Fibonacci numbers.\<close>

fun min_nodes :: "nat \<Rightarrow> nat" where
  "min_nodes 0 = 0"
| "min_nodes (Suc 0) = 1"
| "min_nodes (Suc (Suc k)) = min_nodes (Suc k) + min_nodes k + 1"

lemma min_nodes_mono: "min_nodes k \<le> min_nodes (Suc k)"
  by (induction k rule: min_nodes.induct) auto

lemma min_nodes_pow: "2 ^ (k div 2) \<le> min_nodes k + 1"
proof (induction k rule: min_nodes.induct)
  case (3 k)
  then show ?case using min_nodes_mono [of k] by simp
qed auto

lemma avl_size: "avl bal t \<Longrightarrow> min_nodes (height t) \<le> size t"
proof (induction t)
  case (Node l n r)
  then have IH: "min_nodes (height l) \<le> size l" "min_nodes (height r) \<le> size r" by auto
  consider "height l = height r" | "height l = Suc (height r)" | "height r = Suc (height l)" using Node.prems by auto
  then show ?case
  proof cases
    case 1
    show ?thesis using IH 1 min_nodes_mono by (cases "height r") (auto intro: order_trans [OF _ add_mono])
  next
    case 2
    then show ?thesis using IH by simp
  next
    case 3
    then show ?thesis using IH by simp
  qed
qed simp


subsection \<open>Properties\<close>

text \<open>
  C1. The AVL tree refines a sorted sequence of nodes and stays balanced: from the empty tree, any sequence of
  insertions of unlinked nodes and erasures by key ends, its links form a binary search tree over the
  specified sequence, every stored balance level is the height difference of the subtrees and is -1, 0 or 1,
  and iteration visits exactly the sequence.
\<close>

theorem AVL_refines_sorted:
  assumes "weak_order cmp" and "spec_order cmp ops [] = Some xs"
  shows "\<exists>s t. run_order (AVL_insert cmp) (AVL_erase cmp) ops (h, \<lparr> bt_size = 0, bt_root = None \<rparr>) = Some s \<and>
     shaped s t \<and> inorder t = xs \<and> sorted_wrt cmp xs \<and> avl (t_balance (fst s)) t \<and>
     BinTree_items cmp s = Some xs \<and> BinTree_ritems cmp s = Some (rev xs)"
proof -
  have "is_avl cmp (h, \<lparr> bt_size = 0, bt_root = None \<rparr>) []"
    using assms(1) by (auto simp: is_avl_def shaped_def intro!: exI [of _ Leaf])
  then obtain s where s: "run_order (AVL_insert cmp) (AVL_erase cmp) ops (h, \<lparr> bt_size = 0, bt_root = None \<rparr>) = Some s" "is_avl cmp s xs"
    using avl_tree.run_order_ok [OF _ assms(2)] by blast
  then show ?thesis using iteration_ok [OF is_avl_bst [OF s(2)]] unfolding is_avl_def by blast
qed

theorem AVL_refines_sorted_witness:
  "\<exists>s t. run_order (AVL_insert (<)) (AVL_erase (<)) [Add 1, Add 2, Add 3, Add 4, Del 2]
       (\<lparr> t_parent = Map.empty, t_left = Map.empty, t_right = Map.empty, t_balance = (\<lambda>_. 0) \<rparr>, \<lparr> bt_size = 0, bt_root = None \<rparr>) = Some s \<and>
     shaped s t \<and> inorder t = [1, 3, 4] \<and> avl (t_balance (fst s)) t"
  using AVL_refines_sorted [of "(<)" "[Add 1, Add 2, Add 3, Add 4, Del 2]" "[1, 3, 4]"
    "\<lparr> t_parent = Map.empty, t_left = Map.empty, t_right = Map.empty, t_balance = (\<lambda>_. 0) \<rparr>"]
  by (fastforce simp: weak_order_def spec_insert_def spec_erase_def same_key_def)

text \<open>
  C21. Search in an AVL tree finds the right nodes on a short path: the lowest and highest nodes are the
  ends of the sequence, find gives the node with an equal key, the bounds the first node not less than and
  the first node greater than the key, and the height of the tree is logarithmic in its size: a tree of
  height $k$ holds at least $2^{k / 2} - 1$ nodes.
\<close>

theorem AVL_search_logarithmic:
  assumes "is_avl cmp s xs"
  shows "AVL_lowest s = Some (hd_ptr xs None) \<and> AVL_highest s = Some (hd_ptr (rev xs) None) \<and>
     AVL_find cmp s item = Some (List.find (same_key cmp item) xs) \<and>
     AVL_lower_bound cmp s item = Some (List.find (\<lambda>y. \<not> cmp y item) xs) \<and>
     AVL_upper_bound cmp s item = Some (List.find (\<lambda>y. cmp item y) xs) \<and>
     (\<exists>t. shaped s t \<and> inorder t = xs \<and> 2 ^ (height t div 2) \<le> bt_size (snd s) + 1)"
proof -
  obtain t where t: "shaped s t" "inorder t = xs" "avl (t_balance (fst s)) t" using assms by (auto simp: is_avl_def)
  have "2 ^ (height t div 2) \<le> bt_size (snd s) + 1"
    using min_nodes_pow [of "height t"] avl_size [OF t(3)] t(1) by (simp add: shaped_def)
  then show ?thesis using t search_ok [OF is_avl_bst [OF assms]] unfolding AVL_search_BinTree by blast
qed

theorem AVL_search_logarithmic_witness:
  "AVL_lower_bound (<) (\<lparr> t_parent = [1 \<mapsto> 4], t_left = [4 \<mapsto> 1], t_right = Map.empty, t_balance = (\<lambda>_. 0)(4 := -1) \<rparr>,
     \<lparr> bt_size = 2, bt_root = Some 4 \<rparr>) 2 = Some (Some 4)"
proof -
  let ?s = "(\<lparr> t_parent = [1 \<mapsto> 4], t_left = [4 \<mapsto> 1], t_right = Map.empty, t_balance = (\<lambda>_. 0)(4 := -1) \<rparr>, \<lparr> bt_size = 2, bt_root = Some 4 \<rparr>)"
  have "is_avl (<) ?s [1, 4]"
    by (auto simp: is_avl_def shaped_def weak_order_def intro!: exI [of _ "Node (Node Leaf 1 Leaf) 4 Leaf"])
  from AVL_search_logarithmic [OF this, of 2] show ?thesis by simp
qed

end
