(* ===== verification/Splay.thy ===== *)
theory Splay
  imports TreeRotate
begin

text \<open>
  The splay tree of \<^verbatim>\<open>include/containers/bintree_splay.h\<close> and \<^verbatim>\<open>include/containers/bintree_splay.inl\<close>:
  every search moves the last node it visits to the root by rotations, and insertion and erasure work at the
  root. \<^const>\<open>None\<close> is the result of a loop that does not end or that follows a null pointer.
\<close>

subsection \<open>Splaying\<close>

definition Zig :: "'a tree_store_scheme \<Rightarrow> nat \<Rightarrow> nat \<Rightarrow> 'a tree_store_scheme" where
  "Zig h x p =
     (if t_left h p = Some x then
        (let b = t_right h x;
             h = set_parent h x None;
             h = set_right h x (Some p);
             h = set_parent h p (Some x);
             h = set_left h p b
         in adopt h b p)
      else
        (let b = t_left h x;
             h = set_parent h x None;
             h = set_left h x (Some p);
             h = set_parent h p (Some x);
             h = set_right h p b
         in adopt h b p))"

text \<open>The parent of \<open>x\<close> gets \<open>x\<close> in place of its child \<open>g\<close>.\<close>

definition hang :: "'a tree_store_scheme \<Rightarrow> nat \<Rightarrow> nat \<Rightarrow> 'a tree_store_scheme" where
  "hang h x g =
     (case t_parent h x of
        Some q \<Rightarrow> if t_left h q = Some g then set_left h q (Some x) else set_right h q (Some x)
      | None \<Rightarrow> h)"

definition ZigZig :: "'a tree_store_scheme \<Rightarrow> nat \<Rightarrow> nat \<Rightarrow> nat \<Rightarrow> 'a tree_store_scheme" where
  "ZigZig h x p g =
     (if t_left h p = Some x then
        (let b = t_right h x; c = t_right h p;
             h = set_parent h x (t_parent h g);
             h = set_right h x (Some p);
             h = set_parent h p (Some x);
             h = set_left h p b;
             h = set_right h p (Some g);
             h = set_parent h g (Some p);
             h = set_left h g c;
             h = hang h x g;
             h = adopt h b p
         in adopt h c g)
      else
        (let b = t_left h p; c = t_left h x;
             h = set_parent h x (t_parent h g);
             h = set_left h x (Some p);
             h = set_parent h p (Some x);
             h = set_left h p (Some g);
             h = set_right h p c;
             h = set_parent h g (Some p);
             h = set_right h g b;
             h = hang h x g;
             h = adopt h b g
         in adopt h c p))"

definition ZigZag :: "'a tree_store_scheme \<Rightarrow> nat \<Rightarrow> nat \<Rightarrow> nat \<Rightarrow> 'a tree_store_scheme" where
  "ZigZag h x p g =
     (if t_right h p = Some x then
        (let b = t_left h x; c = t_right h x;
             h = set_parent h x (t_parent h g);
             h = set_left h x (Some p);
             h = set_right h x (Some g);
             h = set_parent h p (Some x);
             h = set_right h p b;
             h = set_parent h g (Some x);
             h = set_left h g c;
             h = hang h x g;
             h = adopt h b p
         in adopt h c g)
      else
        (let b = t_left h x; c = t_right h x;
             h = set_parent h x (t_parent h g);
             h = set_left h x (Some g);
             h = set_right h x (Some p);
             h = set_parent h p (Some x);
             h = set_left h p c;
             h = set_parent h g (Some x);
             h = set_right h g b;
             h = hang h x g;
             h = adopt h b g
         in adopt h c p))"

partial_function (option) splay_up :: "'a tree_store_scheme \<Rightarrow> nat \<Rightarrow> 'a tree_store_scheme option" where
  "splay_up h x =
     (case t_parent h x of
        None \<Rightarrow> Some h
      | Some p \<Rightarrow>
          (case t_parent h p of
             None \<Rightarrow> splay_up (Zig h x p) x
           | Some g \<Rightarrow>
               if t_left h g = Some p \<and> t_left h p = Some x then splay_up (ZigZig h x p g) x
               else if t_right h g = Some p \<and> t_right h p = Some x then splay_up (ZigZig h x p g) x
               else splay_up (ZigZag h x p g) x))"

fun Splay_node :: "'a tree_state \<Rightarrow> nat \<Rightarrow> 'a tree_state option" where
  "Splay_node (h, b) x = Option.bind (splay_up h x) (\<lambda>h'. Some (h', b\<lparr> bt_root := Some x \<rparr>))"

text \<open>After a search the node that was found, or the last one visited, is moved to the root.\<close>

definition splay_ptr :: "'a tree_state \<Rightarrow> ptr \<Rightarrow> 'a tree_state option" where
  "splay_ptr s q = (case q of None \<Rightarrow> Some s | Some x \<Rightarrow> Splay_node s x)"

subsection \<open>Search\<close>

partial_function (option) splay_find_loop :: "order \<Rightarrow> 'a tree_store_scheme \<Rightarrow> ptr \<Rightarrow> ptr \<Rightarrow> nat \<Rightarrow> (ptr \<times> ptr) option" where
  "splay_find_loop cmp h current previous item =
     (case current of
        None \<Rightarrow> Some (previous, None)
      | Some n \<Rightarrow>
          if cmp item n then splay_find_loop cmp h (t_left h n) (Some n) item
          else if cmp n item then splay_find_loop cmp h (t_right h n) (Some n) item
          else Some (Some n, Some n))"

text \<open>The loops give the node to splay and the result.\<close>

definition Splay_find :: "order \<Rightarrow> 'a tree_state \<Rightarrow> nat \<Rightarrow> ('a tree_state \<times> ptr) option" where
  "Splay_find cmp s item =
     Option.bind (splay_find_loop cmp (fst s) (bt_root (snd s)) None item) (\<lambda>(x, result).
     Option.bind (splay_ptr s x) (\<lambda>s'. Some (s', result)))"

definition Splay_lower_bound :: "order \<Rightarrow> 'a tree_state \<Rightarrow> nat \<Rightarrow> ('a tree_state \<times> ptr) option" where
  "Splay_lower_bound cmp s item =
     Option.bind (lower_node cmp (fst s) (bt_root (snd s)) None item) (\<lambda>x.
     Option.bind (splay_ptr s x) (\<lambda>s'. Some (s', x)))"

definition Splay_upper_bound :: "order \<Rightarrow> 'a tree_state \<Rightarrow> nat \<Rightarrow> ('a tree_state \<times> ptr) option" where
  "Splay_upper_bound cmp s item =
     Option.bind (upper_node cmp (fst s) (bt_root (snd s)) None item) (\<lambda>x.
     Option.bind (splay_ptr s x) (\<lambda>s'. Some (s', x)))"

subsection \<open>Insertion and erasure\<close>

definition splay_link :: "order \<Rightarrow> 'a tree_store_scheme \<Rightarrow> ptr \<Rightarrow> nat \<Rightarrow> 'a tree_store_scheme" where
  "splay_link cmp h root item =
     (let h = set_parent h item None;
          h = set_left h item None;
          h = set_right h item None
      in case root of
           None \<Rightarrow> h
         | Some r \<Rightarrow>
             if cmp item r then
               (let h = set_left h item (t_left h r);
                    h = set_right h item (Some r);
                    h = set_parent h r (Some item);
                    h = adopt h (t_left h r) item
                in set_left h r None)
             else
               (let h = set_right h item (t_right h r);
                    h = set_left h item (Some r);
                    h = set_parent h r (Some item);
                    h = adopt h (t_right h r) item
                in set_right h r None))"

fun Splay_insert_at :: "order \<Rightarrow> 'a tree_state \<Rightarrow> ptr \<Rightarrow> nat \<Rightarrow> 'a tree_state \<times> nat \<times> bool" where
  "Splay_insert_at cmp (h, b) position item =
     (case position of
        Some current \<Rightarrow> ((h, b), current, False)
      | None \<Rightarrow> ((splay_link cmp h (bt_root b) item, b\<lparr> bt_root := Some item, bt_size := bt_size b + 1 \<rparr>), item, True))"

definition Splay_insert :: "order \<Rightarrow> 'a tree_state \<Rightarrow> nat \<Rightarrow> ('a tree_state \<times> nat \<times> bool) option" where
  "Splay_insert cmp s item =
     Option.bind (Splay_find cmp s item) (\<lambda>(s', position). Some (Splay_insert_at cmp s' position item))"

definition clear_parent :: "'a tree_store_scheme \<Rightarrow> ptr \<Rightarrow> 'a tree_store_scheme" where
  "clear_parent h q = (case q of Some m \<Rightarrow> set_parent h m None | None \<Rightarrow> h)"

fun Splay_erase_at :: "'a tree_state \<Rightarrow> ptr \<Rightarrow> ('a tree_state \<times> ptr) option" where
  "Splay_erase_at (h, b) it =
     (case it of
        None \<Rightarrow> Some ((h, b), None)
      | Some result \<Rightarrow>
          (case t_left h result of
             None \<Rightarrow>
               (let root = t_right h result
                in Some (unlink_item (clear_parent h root, b\<lparr> bt_root := root \<rparr>) result, Some result))
           | Some l \<Rightarrow>
               (case t_right h result of
                  None \<Rightarrow> Some (unlink_item (set_parent h l None, b\<lparr> bt_root := Some l \<rparr>) result, Some result)
                | Some r \<Rightarrow>
                    (let h = set_parent h l None
                     in Option.bind (rightmost h l) (\<lambda>highest.
                          (let h = set_right h highest (t_right h result);
                               h = adopt h (t_right h highest) highest
                           in Some (unlink_item (h, b\<lparr> bt_root := Some l \<rparr>) result, Some result)))))))"

definition Splay_erase :: "order \<Rightarrow> 'a tree_state \<Rightarrow> nat \<Rightarrow> ('a tree_state \<times> ptr) option" where
  "Splay_erase cmp s item = Option.bind (Splay_find cmp s item) (\<lambda>(s', it). Splay_erase_at s' it)"


declare splay_up.simps [code] splay_find_loop.simps [code]

subsection \<open>Shapes\<close>

lemma hang_ok:
  assumes "t_parent h' x = up c" "linked_path h (Some g) c" "g \<notin> nodes_path c" "\<And>q. up c = Some q \<Longrightarrow> t_left h' q = t_left h q"
  shows "hang h' x g = set_child h' c (Some x)"
proof (cases c)
  case (Cons s d)
  then show ?thesis using assms by (cases s) (auto simp: hang_def dest: rt_mem)
qed (use assms in \<open>simp add: hang_def\<close>)

lemma Zig_left:
  assumes "linked h None (Node (Node a x b) p r)" "distinct (inorder (Node (Node a x b) p r))"
  shows "linked (Zig h x p) None (Node a x (Node b p r))"
proof -
  have "rt b \<noteq> Some x" "rt b \<noteq> Some p" "set_tree b \<inter> set_tree a = {}" "set_tree b \<inter> set_tree r = {}" "distinct (inorder b)"
    "x \<noteq> p" "x \<notin> set_tree a" "x \<notin> set_tree b" "x \<notin> set_tree r" "p \<notin> set_tree a" "p \<notin> set_tree b" "p \<notin> set_tree r"
    using assms(2) by (auto dest!: rt_mem)
  then show ?thesis using assms(1) by (auto simp: Zig_def Let_def adopt_frame intro: adopt_linked [of _ "Some x"])
qed

lemma Zig_right:
  assumes "linked h None (Node r p (Node a x b))" "distinct (inorder (Node r p (Node a x b)))"
  shows "linked (Zig h x p) None (Node (Node r p a) x b)"
proof -
  have "rt a \<noteq> Some x" "rt a \<noteq> Some p" "set_tree a \<inter> set_tree b = {}" "set_tree a \<inter> set_tree r = {}" "distinct (inorder a)"
    "x \<noteq> p" "x \<notin> set_tree a" "x \<notin> set_tree b" "x \<notin> set_tree r" "p \<notin> set_tree a" "p \<notin> set_tree b" "p \<notin> set_tree r" "rt r \<noteq> Some x"
    using assms(2) by (auto dest!: rt_mem)
  then show ?thesis using assms(1) by (auto simp: Zig_def Let_def adopt_frame intro: adopt_linked [of _ "Some x"])
qed

text \<open>Three nodes and the four subtrees between them, in symmetric order under a path.\<close>

definition row :: "path \<Rightarrow> nat tree \<Rightarrow> nat \<Rightarrow> nat tree \<Rightarrow> nat \<Rightarrow> nat tree \<Rightarrow> nat \<Rightarrow> nat tree \<Rightarrow> bool" where
  "row k a x b p c g d \<longleftrightarrow> distinct (before k @ inorder a @ x # inorder b @ p # inorder c @ g # inorder d @ after k)"

lemma row_facts:
  assumes "row k a x b p c g d"
  shows "set_tree a \<inter> nodes_path k = {}" "set_tree b \<inter> nodes_path k = {}" "set_tree c \<inter> nodes_path k = {}" "set_tree d \<inter> nodes_path k = {}"
    "set_tree b \<inter> set_tree a = {}" "set_tree b \<inter> set_tree c = {}" "set_tree b \<inter> set_tree d = {}" "set_tree c \<inter> set_tree a = {}"
    "set_tree c \<inter> set_tree b = {}" "set_tree c \<inter> set_tree d = {}" "distinct (inorder b)" "distinct (inorder c)"
    "x \<noteq> p" "x \<noteq> g" "p \<noteq> g" "p \<noteq> x" "g \<noteq> x" "g \<noteq> p" "x \<notin> set_tree a" "x \<notin> set_tree b" "x \<notin> set_tree c" "x \<notin> set_tree d" "x \<notin> nodes_path k"
    "p \<notin> set_tree a" "p \<notin> set_tree b" "p \<notin> set_tree c" "p \<notin> set_tree d" "p \<notin> nodes_path k"
    "g \<notin> set_tree a" "g \<notin> set_tree b" "g \<notin> set_tree c" "g \<notin> set_tree d" "g \<notin> nodes_path k"
  using assms by (auto simp: set_path row_def)

lemma row_pointers:
  assumes "row k a x b p c g d"
  shows "up k \<noteq> Some x" "up k \<noteq> Some p" "up k \<noteq> Some g" "rt b \<noteq> Some x" "rt b \<noteq> Some p" "rt b \<noteq> Some g"
    "rt c \<noteq> Some x" "rt c \<noteq> Some p" "rt c \<noteq> Some g" "rt a \<noteq> Some x" "rt a \<noteq> Some p" "rt a \<noteq> Some g"
    "rt d \<noteq> Some x" "rt d \<noteq> Some p" "rt d \<noteq> Some g"
  using row_facts [OF assms] by (auto dest!: up_path rt_mem)

lemma row_path: "row k a x b p c g d \<Longrightarrow> distinct (before k @ after k)"
  by (auto simp: row_def)

lemma ZigZig_left:
  assumes lk: "linked h None (plug (Node (Node (Node a x b) p c) g d) k)" and r: "row k a x b p c g d"
  shows "linked (ZigZig h x p g) None (plug (Node a x (Node b p (Node c g d))) k)"
proof -
  note ne = row_facts [OF r] row_pointers [OF r]
  let ?h = "set_left (set_parent (set_right (set_left (set_parent (set_right (set_parent h x (up k)) x (Some p)) p (Some x)) p (rt b)) p (Some g)) g (Some p)) g (rt c)"
  have "hang ?h x g = set_child ?h k (Some x)"
    by (rule hang_ok [where h = h]) (use lk ne in \<open>auto simp: linked_plug\<close>)
  then have eq: "ZigZig h x p g = adopt (adopt (set_child ?h k (Some x)) (rt b) p) (rt c) g"
    using lk by (simp add: ZigZig_def Let_def linked_plug)
  have "linked_path (set_child ?h k (Some x)) (Some x) k"
    by (rule set_child_path [of _ "Some g"]) (use lk row_path [OF r] ne in \<open>simp_all add: linked_plug\<close>)
  then show ?thesis
    using lk by (simp add: eq linked_plug ne set_child_linked set_child_links adopt_frame adopt_path adopt_linked [of _ "Some x"] adopt_linked [of _ "Some p"])
qed

lemma ZigZig_right:
  assumes lk: "linked h None (plug (Node a g (Node b p (Node c x d))) k)" and r: "row k a g b p c x d"
  shows "linked (ZigZig h x p g) None (plug (Node (Node (Node a g b) p c) x d) k)"
proof -
  note ne = row_facts [OF r] row_pointers [OF r]
  let ?h = "set_right (set_parent (set_right (set_left (set_parent (set_left (set_parent h x (up k)) x (Some p)) p (Some x)) p (Some g)) p (rt c)) g (Some p)) g (rt b)"
  have "hang ?h x g = set_child ?h k (Some x)"
    by (rule hang_ok [where h = h]) (use lk ne in \<open>auto simp: linked_plug\<close>)
  then have eq: "ZigZig h x p g = adopt (adopt (set_child ?h k (Some x)) (rt b) g) (rt c) p"
    using lk ne by (simp add: ZigZig_def Let_def linked_plug)
  have "linked_path (set_child ?h k (Some x)) (Some x) k"
    by (rule set_child_path [of _ "Some g"]) (use lk row_path [OF r] ne in \<open>simp_all add: linked_plug\<close>)
  then show ?thesis
    using lk by (simp add: eq linked_plug ne set_child_linked set_child_links adopt_frame adopt_path adopt_linked [of _ "Some x"] adopt_linked [of _ "Some p"])
qed

lemma ZigZag_left:
  assumes lk: "linked h None (plug (Node (Node a p (Node b x c)) g d) k)" and r: "row k a p b x c g d"
  shows "linked (ZigZag h x p g) None (plug (Node (Node a p b) x (Node c g d)) k)"
proof -
  note ne = row_facts [OF r] row_pointers [OF r]
  let ?h = "set_left (set_parent (set_right (set_parent (set_right (set_left (set_parent h x (up k)) x (Some p)) x (Some g)) p (Some x)) p (rt b)) g (Some x)) g (rt c)"
  have "hang ?h x g = set_child ?h k (Some x)"
    by (rule hang_ok [where h = h]) (use lk ne in \<open>auto simp: linked_plug\<close>)
  then have eq: "ZigZag h x p g = adopt (adopt (set_child ?h k (Some x)) (rt b) p) (rt c) g"
    using lk by (simp add: ZigZag_def Let_def linked_plug)
  have "linked_path (set_child ?h k (Some x)) (Some x) k"
    by (rule set_child_path [of _ "Some g"]) (use lk row_path [OF r] ne in \<open>simp_all add: linked_plug\<close>)
  then show ?thesis
    using lk by (simp add: eq linked_plug ne set_child_linked set_child_links adopt_frame adopt_path adopt_linked [of _ "Some x"] adopt_linked [of _ "Some p"])
qed

lemma ZigZag_right:
  assumes lk: "linked h None (plug (Node a g (Node (Node b x c) p d)) k)" and r: "row k a g b x c p d"
  shows "linked (ZigZag h x p g) None (plug (Node (Node a g b) x (Node c p d)) k)"
proof -
  note ne = row_facts [OF r] row_pointers [OF r]
  let ?h = "set_right (set_parent (set_left (set_parent (set_right (set_left (set_parent h x (up k)) x (Some g)) x (Some p)) p (Some x)) p (rt c)) g (Some x)) g (rt b)"
  have "hang ?h x g = set_child ?h k (Some x)"
    by (rule hang_ok [where h = h]) (use lk ne in \<open>auto simp: linked_plug\<close>)
  then have eq: "ZigZag h x p g = adopt (adopt (set_child ?h k (Some x)) (rt b) g) (rt c) p"
    using lk ne by (simp add: ZigZag_def Let_def linked_plug)
  have "linked_path (set_child ?h k (Some x)) (Some x) k"
    by (rule set_child_path [of _ "Some g"]) (use lk row_path [OF r] ne in \<open>simp_all add: linked_plug\<close>)
  then show ?thesis
    using lk by (simp add: eq linked_plug ne set_child_linked set_child_links adopt_frame adopt_path adopt_linked [of _ "Some x"] adopt_linked [of _ "Some p"])
qed


text \<open>Splaying moves a node to the root and keeps the order.\<close>

lemma splay_up_ok:
  fixes h :: "'a tree_store_scheme"
  assumes "linked h None (plug (Node l x r) c)" "distinct (inorder (plug (Node l x r) c))"
  shows "\<exists>h' l' r'. splay_up h x = Some h' \<and> linked h' None (Node l' x r') \<and> inorder (Node l' x r') = inorder (plug (Node l x r) c)"
  using assms
proof (induction "length c" arbitrary: h l r c rule: less_induct)
  case less
  have IH: "\<exists>h2 l2 r2. splay_up h' x = Some h2 \<and> linked h2 None (Node l2 x r2) \<and> inorder (Node l2 x r2) = inorder (plug (Node l x r) c)"
    if "linked h' None (plug (Node l' x r') c')" "inorder (plug (Node l' x r') c') = inorder (plug (Node l x r) c)" "length c' < length c"
    for h' :: "'a tree_store_scheme" and l' r' c'
    using less.hyps [OF that(3,1)] that(2) less.prems(2) by metis
  note eqn = splay_up.simps [of h x]
  consider (root) "c = []" | (one) s where "c = [s]" | (more) s s' k where "c = s # s' # k" by (cases c; cases "tl c") auto
  then show ?case
  proof cases
    case root
    then show ?thesis using less.prems by (auto simp: eqn)
  next
    case one
    show ?thesis
    proof (cases s)
      case (L p u)
      have "linked (Zig h x p) None (Node l x (Node r p u))" using Zig_left [of h l x r p u] less.prems one L by simp
      moreover have "splay_up h x = splay_up (Zig h x p) x" using less.prems(1) one L by (simp add: eqn)
      ultimately show ?thesis using IH [of "Zig h x p" l "Node r p u" "[]"] one L by simp
    next
      case (R u p)
      have "linked (Zig h x p) None (Node (Node u p l) x r)" using Zig_right [of h u p l x r] less.prems one R by simp
      moreover have "splay_up h x = splay_up (Zig h x p) x" using less.prems(1) one R by (simp add: eqn)
      ultimately show ?thesis using IH [of "Zig h x p" "Node u p l" r "[]"] one R by simp
    qed
  next
    case more
    show ?thesis
    proof (cases s)
      case s: (L p u)
      show ?thesis
      proof (cases s')
        case (L g v)
        have "row k l x r p u g v" using less.prems(2) more s L by (simp add: row_def inorder_plug)
        then have "linked (ZigZig h x p g) None (plug (Node l x (Node r p (Node u g v))) k)"
          using ZigZig_left less.prems(1) more s L by simp
        moreover have "splay_up h x = splay_up (ZigZig h x p g) x" using less.prems(1) more s L by (simp add: eqn linked_plug)
        ultimately show ?thesis using IH [of "ZigZig h x p g" l "Node r p (Node u g v)" k] more s L by (simp add: inorder_plug)
      next
        case (R v g)
        have row: "row k v g l x r p u" using less.prems(2) more s R by (simp add: row_def inorder_plug)
        then have "linked (ZigZag h x p g) None (plug (Node (Node v g l) x (Node r p u)) k)"
          using ZigZag_right less.prems(1) more s R by simp
        moreover have "splay_up h x = splay_up (ZigZag h x p g) x"
          using less.prems(1) more s R row_pointers [OF row] by (simp add: eqn linked_plug)
        ultimately show ?thesis using IH [of "ZigZag h x p g" "Node v g l" "Node r p u" k] more s R by (simp add: inorder_plug)
      qed
    next
      case s: (R u p)
      show ?thesis
      proof (cases s')
        case (L g v)
        have row: "row k u p l x r g v" using less.prems(2) more s L by (simp add: row_def inorder_plug)
        then have "linked (ZigZag h x p g) None (plug (Node (Node u p l) x (Node r g v)) k)"
          using ZigZag_left less.prems(1) more s L by simp
        moreover have "splay_up h x = splay_up (ZigZag h x p g) x"
          using less.prems(1) more s L row_pointers [OF row] by (simp add: eqn linked_plug)
        ultimately show ?thesis using IH [of "ZigZag h x p g" "Node u p l" "Node r g v" k] more s L by (simp add: inorder_plug)
      next
        case (R v g)
        have row: "row k v g u p l x r" using less.prems(2) more s R by (simp add: row_def inorder_plug)
        then have "linked (ZigZig h x p g) None (plug (Node (Node (Node v g u) p l) x r) k)"
          using ZigZig_right less.prems(1) more s R by simp
        moreover have "splay_up h x = splay_up (ZigZig h x p g) x"
          using less.prems(1) more s R row_pointers [OF row] by (simp add: eqn linked_plug)
        ultimately show ?thesis using IH [of "ZigZig h x p g" "Node (Node v g u) p l" r k] more s R by (simp add: inorder_plug)
      qed
    qed
  qed
qed

lemma Splay_node_ok:
  assumes "shaped s t" "distinct (inorder t)" "x \<in> set_tree t"
  shows "\<exists>s' l r. Splay_node s x = Some s' \<and> shaped s' (Node l x r) \<and> inorder (Node l x r) = inorder t"
proof -
  obtain l r c where t: "t = plug (Node l x r) c" using focus_ex [OF assms(3)] by blast
  obtain h b where s: "s = (h, b)" by (cases s)
  obtain h' l' r' where "splay_up h x = Some h'" "linked h' None (Node l' x r')" "inorder (Node l' x r') = inorder t"
    using splay_up_ok [of h l x r c] assms(1,2) t s by (auto simp: shaped_def)
  then show ?thesis using assms(1) unfolding s
    by (intro exI [of _ "(h', b\<lparr> bt_root := Some x \<rparr>)"] exI [of _ l'] exI [of _ r']) (simp add: shaped_def del: inorder.simps length_inorder)
qed

subsection \<open>Search\<close>

text \<open>A search that fails stops at the place of the item.\<close>

lemma splay_find_loop_ok:
  assumes ord: "weak_order cmp"
  shows "linked h None (plug t c) \<Longrightarrow> sorted_wrt cmp (inorder (plug t c)) \<Longrightarrow> place cmp item c \<Longrightarrow>
     (\<exists>m. splay_find_loop cmp h (rt t) (up c) item = Some (Some m, Some m) \<and> m \<in> set_tree (plug t c) \<and> same_key cmp item m) \<or>
     (\<exists>c'. splay_find_loop cmp h (rt t) (up c) item = Some (up c', None) \<and> plug Leaf c' = plug t c \<and> place cmp item c')"
proof (induction t arbitrary: c)
  case Leaf
  then show ?case by (auto simp: splay_find_loop.simps [of cmp h None])
next
  case (Node l n r)
  note o = weak_orderD [OF ord]
  have lk: "t_left h n = rt l" "t_right h n = rt r" using Node.prems(1) by (simp_all add: linked_plug)
  have s: "\<forall>y \<in> set (inorder l). cmp y n" "\<forall>y \<in> set (inorder r). cmp n y"
    using Node.prems(2) by (simp_all add: inorder_plug sorted_wrt_append)
  consider (lt) "cmp item n" | (gt) "\<not> cmp item n" "cmp n item" | (eq) "same_key cmp item n" by (auto simp: same_key_def)
  then show ?case
  proof cases
    case lt
    have "place cmp item (L n r # c)" using Node.prems(3) lt s(2) o(2) [OF lt] by (auto simp: place_def)
    then show ?thesis using Node.IH(1) [of "L n r # c"] Node.prems lk lt by (simp add: splay_find_loop.simps [of cmp h "Some n"])
  next
    case gt
    have "place cmp item (R l n # c)" using Node.prems(3) gt s(1) o(2) [OF _ gt(2)] by (auto simp: place_def)
    then show ?thesis using Node.IH(2) [of "R l n # c"] Node.prems lk gt by (simp add: splay_find_loop.simps [of cmp h "Some n"])
  next
    case eq
    then show ?thesis by (auto simp: splay_find_loop.simps [of cmp h "Some n"] same_key_def set_plug)
  qed
qed


lemma find_same_key:
  assumes "weak_order cmp" "sorted_wrt cmp xs" "m \<in> set xs" "same_key cmp item m"
  shows "List.find (same_key cmp item) xs = Some m"
proof -
  note o = weak_orderD [OF assms(1)]
  obtain ys zs where xs: "xs = ys @ m # zs" using split_list [OF assms(3)] by blast
  have "\<not> same_key cmp item y" if "y \<in> set ys" for y
    using that assms(2,4) o(3) [of y item m] by (auto simp: xs same_key_def sorted_wrt_append)
  then have "List.find (same_key cmp item) ys = None" by (simp add: find_None_iff)
  then show ?thesis using assms(4) by (simp add: xs find_append)
qed

text \<open>After a search that fails the neighbour of the item is at the root.\<close>

definition beside :: "order \<Rightarrow> nat \<Rightarrow> nat tree \<Rightarrow> nat \<Rightarrow> nat tree \<Rightarrow> bool" where
  "beside cmp item l y r \<longleftrightarrow>
     cmp item y \<and> (\<forall>z \<in> set (inorder l). cmp z item) \<or> cmp y item \<and> (\<forall>z \<in> set (inorder r). cmp item z)"

lemma place_beside:
  assumes "place cmp item c" "up c = Some y" "inorder (Node l y r) = before c @ after c" "distinct (before c @ after c)"
  shows "beside cmp item l y r"
proof (cases c)
  case (Cons s k)
  show ?thesis
  proof (cases s)
    case (L n u)
    have "inorder l @ y # inorder r = before c @ y # inorder u @ after k" "y \<notin> set (before c)" "y \<notin> set (inorder u @ after k)"
      using assms(2-4) Cons L by auto
    then have "inorder l = before c" using append_Cons_eq_iff [of y "before c" "inorder u @ after k" "inorder l" "inorder r"] by metis
    then show ?thesis using assms(1,2) Cons L by (auto simp: beside_def place_def simp del: set_inorder)
  next
    case (R u n)
    have "inorder l @ y # inorder r = (before k @ inorder u) @ y # after c" "y \<notin> set (before k @ inorder u)" "y \<notin> set (after c)"
      using assms(2-4) Cons R by auto
    then have "inorder r = after c" using append_Cons_eq_iff [of y "before k @ inorder u" "after c" "inorder l" "inorder r"] by metis
    then show ?thesis using assms(1,2) Cons R by (auto simp: beside_def place_def simp del: set_inorder)
  qed
qed (use assms in simp)

lemma Splay_find_cases:
  assumes ord: "weak_order cmp" and srt: "sorted_wrt cmp (inorder t)" and sh: "shaped s t"
  obtains (found) m s' l r where "Splay_find cmp s item = Some (s', Some m)" "same_key cmp item m" "m \<in> set (inorder t)"
      "shaped s' (Node l m r)" "inorder (Node l m r) = inorder t"
  | (empty) "Splay_find cmp s item = Some (s, None)" "t = Leaf"
  | (missing) s' y l r where "Splay_find cmp s item = Some (s', None)" "\<forall>z \<in> set (inorder t). \<not> same_key cmp item z"
      "shaped s' (Node l y r)" "inorder (Node l y r) = inorder t" "beside cmp item l y r"
proof -
  have d: "distinct (inorder t)" by (rule sorted_distinct [OF ord srt])
  have t: "linked (fst s) None t" "bt_root (snd s) = rt t" using sh by (simp_all add: shaped_def)
  from splay_find_loop_ok [OF ord, of "fst s" t "[]" item] t(1) srt consider
    (1) m where "splay_find_loop cmp (fst s) (rt t) None item = Some (Some m, Some m)" "m \<in> set_tree t" "same_key cmp item m"
  | (2) c where "splay_find_loop cmp (fst s) (rt t) None item = Some (up c, None)" "plug Leaf c = t" "place cmp item c"
    by (auto simp: place_def)
  then show thesis
  proof cases
    case 1
    obtain s' l r where s': "Splay_node s m = Some s'" "shaped s' (Node l m r)" "inorder (Node l m r) = inorder t"
      using Splay_node_ok [OF sh d 1(2)] by blast
    have "Splay_find cmp s item = Some (s', Some m)" using 1(1) s'(1) t(2) by (simp add: Splay_find_def splay_ptr_def)
    then show thesis using found 1(2,3) s'(2,3) by simp
  next
    case 2
    have ba: "inorder t = before c @ after c" using 2(2) inorder_plug [of Leaf c] by simp
    show thesis
    proof (cases "up c")
      case None
      then have "t = Leaf" using 2(2) by simp
      then show thesis using empty 2(1) None t(2) by (simp add: Splay_find_def splay_ptr_def)
    next
      case (Some y)
      then have "y \<in> set_tree t" using up_path [OF Some] 2(2) set_plug [of Leaf c] by simp
      then obtain s' l r where s': "Splay_node s y = Some s'" "shaped s' (Node l y r)" "inorder (Node l y r) = inorder t"
        using Splay_node_ok [OF sh d] by blast
      have "Splay_find cmp s item = Some (s', None)" using 2(1) s'(1) t(2) Some by (simp add: Splay_find_def splay_ptr_def)
      moreover have "\<forall>z \<in> set (inorder t). \<not> same_key cmp item z" using 2(3) ba by (auto simp: place_def same_key_def simp del: set_inorder)
      moreover have "beside cmp item l y r" using place_beside [OF 2(3) Some] s'(3) ba d by simp
      ultimately show thesis using missing s'(2,3) by blast
    qed
  qed
qed

lemma Splay_find_ok:
  assumes "is_bst cmp s xs"
  shows "\<exists>s'. Splay_find cmp s item = Some (s', List.find (same_key cmp item) xs) \<and> is_bst cmp s' xs"
proof -
  obtain t where t: "weak_order cmp" "sorted_wrt cmp (inorder t)" "shaped s t" "inorder t = xs" using assms by (auto simp: is_bst_def)
  have rep: "is_bst cmp s' xs" if "shaped s' u" "inorder u = inorder t" for s' u using that t by (auto simp: is_bst_def)
  from t(1-3) show ?thesis
  proof (cases rule: Splay_find_cases [where item = item])
    case (found m s' l r)
    have "List.find (same_key cmp item) xs = Some m" using find_same_key [OF t(1) _ _ found(2)] t(2,4) found(3) by simp
    then show ?thesis using rep [OF found(4,5)] found(1) by simp
  next
    case empty
    then show ?thesis using assms t(4) by auto
  next
    case (missing s' y l r)
    have "List.find (same_key cmp item) xs = None" using missing(2) t(4) by (simp add: find_None_iff)
    then show ?thesis using rep [OF missing(3,4)] missing(1) by simp
  qed
qed

subsection \<open>Insertion\<close>

lemma splay_link_ok:
  assumes "linked h None (Node l y r)" "distinct (inorder (Node l y r))" "item \<notin> set_tree (Node l y r)"
  shows "cmp item y \<Longrightarrow> linked (splay_link cmp h (Some y) item) None (Node l item (Node Leaf y r))"
    "\<not> cmp item y \<Longrightarrow> linked (splay_link cmp h (Some y) item) None (Node (Node l y Leaf) item r)"
proof -
  have ne: "item \<noteq> y" "y \<noteq> item" "item \<notin> set_tree l" "item \<notin> set_tree r" "y \<notin> set_tree l" "y \<notin> set_tree r" "set_tree l \<inter> set_tree r = {}"
    "set_tree r \<inter> set_tree l = {}" "distinct (inorder l)" "distinct (inorder r)" "rt l \<noteq> Some item" "rt r \<noteq> Some item" "rt l \<noteq> Some y" "rt r \<noteq> Some y"
    using assms(2,3) by (auto dest!: rt_mem)
  show "cmp item y \<Longrightarrow> linked (splay_link cmp h (Some y) item) None (Node l item (Node Leaf y r))"
    "\<not> cmp item y \<Longrightarrow> linked (splay_link cmp h (Some y) item) None (Node (Node l y Leaf) item r)"
    using assms(1) by (simp_all add: splay_link_def Let_def ne adopt_frame adopt_linked [of _ "Some y"])
qed

lemma spec_insert_beside:
  assumes ord: "weak_order cmp" and srt: "sorted_wrt cmp (inorder (Node l y r))" and b: "beside cmp item l y r"
    and new: "\<forall>z \<in> set (inorder (Node l y r)). \<not> same_key cmp item z"
  shows "spec_insert cmp item (inorder (Node l y r)) = (if cmp item y then inorder l @ item # y # inorder r else inorder l @ y # item # inorder r)"
proof -
  note o = weak_orderD [OF ord]
  have s: "\<forall>z \<in> set (inorder l). cmp z y" "\<forall>z \<in> set (inorder r). cmp y z" using srt by (auto simp: sorted_wrt_append)
  have as: "\<not> cmp b a" if "cmp a b" for a b using that o by blast
  show ?thesis
  proof (cases "cmp item y")
    case True
    then have p: "\<forall>z \<in> set (inorder l). cmp z item" "\<forall>z \<in> set (inorder r). cmp item z"
      using b s(2) as [OF True] o(2) [OF True] by (auto simp: beside_def simp del: set_inorder)
    have "filter (\<lambda>z. cmp z item) (inorder l) = inorder l" "filter (\<lambda>z. cmp z item) (inorder r) = []"
      "filter (cmp item) (inorder l) = []" "filter (cmp item) (inorder r) = inorder r"
      using p as by (auto simp: filter_id_conv filter_empty_conv simp del: set_inorder)
    then show ?thesis using True as [OF True] new by (auto simp: spec_insert_def simp del: set_inorder)
  next
    case False
    then have y: "cmp y item" using b by (auto simp: beside_def)
    then have p: "\<forall>z \<in> set (inorder l). cmp z item" "\<forall>z \<in> set (inorder r). cmp item z"
      using b s(1) False o(2) [OF _ y] by (auto simp: beside_def simp del: set_inorder)
    have "filter (\<lambda>z. cmp z item) (inorder l) = inorder l" "filter (\<lambda>z. cmp z item) (inorder r) = []"
      "filter (cmp item) (inorder l) = []" "filter (cmp item) (inorder r) = inorder r"
      using p as by (auto simp: filter_id_conv filter_empty_conv simp del: set_inorder)
    then show ?thesis using False y new by (auto simp: spec_insert_def simp del: set_inorder)
  qed
qed


lemma spec_insert_sorted:
  assumes ord: "weak_order cmp" and "sorted_wrt cmp xs"
  shows "sorted_wrt cmp (spec_insert cmp item xs)"
  using assms(2) sorted_wrt_filter [of cmp xs] weak_orderD(2) [OF ord, of _ item]
  by (auto simp: spec_insert_def sorted_wrt_append)

lemma Splay_insert_ok:
  assumes "is_bst cmp s xs" "item \<notin> set xs"
  shows "\<exists>s' n. Splay_insert cmp s item = Some (s', n, \<not> (\<exists>y \<in> set xs. same_key cmp item y)) \<and> is_bst cmp s' (spec_insert cmp item xs)"
proof -
  obtain t where t: "weak_order cmp" "sorted_wrt cmp (inorder t)" "shaped s t" "inorder t = xs" using assms(1) by (auto simp: is_bst_def)
  from t(1-3) show ?thesis
  proof (cases rule: Splay_find_cases [where item = item])
    case (found m s' l r)
    have "\<exists>y \<in> set xs. same_key cmp item y" using found(2,3) t(4) by auto
    moreover have "is_bst cmp s' xs" using t found(4,5) unfolding is_bst_def by metis
    moreover have "Splay_insert_at cmp s' (Some m) item = (s', m, False)" by (cases s') simp
    ultimately show ?thesis using found(1) by (simp add: Splay_insert_def spec_insert_def)
  next
    case empty
    obtain h b where s: "s = (h, b)" by (cases s)
    have b: "bt_root b = None" "bt_size b = 0" using t(3) empty(2) by (simp_all add: s shaped_def)
    have "is_bst cmp (splay_link cmp h None item, b\<lparr> bt_root := Some item, bt_size := Suc 0 \<rparr>) [item]"
      using t(1) by (auto simp: is_bst_def shaped_def splay_link_def intro!: exI [of _ "Node Leaf item Leaf"])
    then show ?thesis using empty t(4) b by (auto simp: Splay_insert_def s spec_insert_def)
  next
    case (missing s' y l r)
    obtain h b where s': "s' = (h, b)" by (cases s')
    have lk: "linked h None (Node l y r)" "bt_root b = Some y" "bt_size b = length (inorder (Node l y r))"
      using missing(3) by (simp_all add: s' shaped_def)
    have d: "distinct (inorder (Node l y r))" "sorted_wrt cmp (inorder (Node l y r))" using sorted_distinct [OF t(1,2)] missing(4) t(2) by simp_all
    have i: "item \<notin> set_tree (Node l y r)" using assms(2) t(4) missing(4) set_inorder by metis
    have nokey: "\<not> (\<exists>z \<in> set xs. same_key cmp item z)" using missing(2) t(4) by simp
    have new: "\<forall>z \<in> set (inorder (Node l y r)). \<not> same_key cmp item z" using missing(2) by (simp only: missing(4))
    define u where "u = (if cmp item y then Node l item (Node Leaf y r) else Node (Node l y Leaf) item r)"
    have io: "inorder u = spec_insert cmp item xs"
      using spec_insert_beside [OF t(1) d(2) missing(5) new] unfolding t(4) [symmetric] missing(4) [symmetric] by (simp add: u_def)
    have "linked (splay_link cmp h (Some y) item) None u" using splay_link_ok [OF lk(1) d(1) i] by (auto simp: u_def)
    then have "shaped (splay_link cmp h (Some y) item, b\<lparr> bt_root := Some item, bt_size := bt_size b + 1 \<rparr>) u"
      using lk(3) by (auto simp: shaped_def u_def)
    moreover have "sorted_wrt cmp (inorder u)"
      using spec_insert_sorted [OF t(1), of xs item] t(2,4) io by simp
    ultimately have "is_bst cmp (splay_link cmp h (Some y) item, b\<lparr> bt_root := Some item, bt_size := bt_size b + 1 \<rparr>) (spec_insert cmp item xs)"
      using t(1) io by (auto simp: is_bst_def)
    then show ?thesis using missing(1) nokey lk(2) by (auto simp: Splay_insert_def s')
  qed
qed


subsection \<open>Erasure\<close>

lemma Splay_erase_root:
  assumes "linked h None (Node l n r)" "distinct (inorder (Node l n r))" "bt_size b = length (inorder (Node l n r))"
  shows "\<exists>s'. Splay_erase_at (h, b) (Some n) = Some (s', Some n) \<and> shaped s' (join l r)"
proof -
  have lk: "t_left h n = rt l" "t_right h n = rt r" "linked h (Some n) l" "linked h (Some n) r" using assms(1) by simp_all
  have n: "n \<notin> set_tree (join l r)" using assms(2) set_inorder [of "join l r"] by auto
  have fin: "shaped (unlink_item (h', b\<lparr> bt_root := rt (join l r) \<rparr>) n) (join l r)" if "linked h' None (join l r)" for h'
    using assms(3) that n by (intro unlink_ok) auto
  consider "l = Leaf" | ln where "rt l = Some ln" "r = Leaf" | ln rn where "rt l = Some ln" "rt r = Some rn"
    by (cases "rt l"; cases "rt r") auto
  then show ?thesis
  proof cases
    case 1
    have "linked (clear_parent h (rt r)) None r" using lk(4) assms(2) by (cases r) (auto simp: clear_parent_def)
    then show ?thesis using fin 1 lk by (auto simp: Let_def simp del: unlink_item.simps)
  next
    case 2
    have "linked (set_parent h ln None) None l" using lk(3) assms(2) 2(1) by (cases l) auto
    moreover have "join l Leaf = l" by (induction l) simp_all
    ultimately show ?thesis using fin 2 lk by (auto simp: Let_def simp del: unlink_item.simps)
  next
    case 3
    let ?h = "set_parent h ln None" and ?x = "last (inorder l)"
    have l: "linked ?h None l" using lk(3) assms(2) 3(1) by (cases l) auto
    have "ln \<notin> set_tree r" using rt_mem [OF 3(1)] assms(2) by auto
    then have r: "linked ?h (Some n) r" using lk(4) by simp
    have ne: "l \<noteq> Leaf" "distinct (inorder l @ inorder r)" "?x \<noteq> n" "ln \<noteq> n"
      using 3 assms(2) rt_mem [OF 3(1)] last_in_set [of "inorder l"] rt_inorder [OF 3(1)] by (auto simp del: last_in_set)
    have "linked (set_parent (set_right ?h ?x (Some rn)) rn (Some ?x)) None (join l r)" by (rule join_ok [OF r 3(2) l 3(1) ne(2)])
    moreover have "rightmost ?h ln = Some ?x" by (rule rightmost_last [OF l 3(1)])
    ultimately show ?thesis using fin 3 lk ne by (auto simp: Let_def rt_join adopt_def simp del: unlink_item.simps)
  qed
qed

lemma Splay_erase_ok:
  assumes "is_bst cmp s xs"
  shows "\<exists>s'. Splay_erase cmp s item = Some (s', List.find (same_key cmp item) xs) \<and> is_bst cmp s' (spec_erase cmp item xs)"
proof -
  obtain t where t: "weak_order cmp" "sorted_wrt cmp (inorder t)" "shaped s t" "inorder t = xs" using assms(1) by (auto simp: is_bst_def)
  from t(1-3) show ?thesis
  proof (cases rule: Splay_find_cases [where item = item])
    case (found m s' l r)
    obtain h b where s': "s' = (h, b)" by (cases s')
    have d: "distinct (inorder (Node l m r))" using sorted_distinct [OF t(1,2)] found(5) by simp
    obtain s2 where s2: "Splay_erase_at s' (Some m) = Some (s2, Some m)" "shaped s2 (join l r)"
      using Splay_erase_root [of h l m r b] d found(4) by (auto simp: s' shaped_def simp del: Splay_erase_at.simps)
    have f: "List.find (same_key cmp item) xs = Some m" using find_same_key [OF t(1) _ _ found(2)] t(2,4) found(3) by simp
    have xs: "xs = inorder l @ m # inorder r" using found(5) t(4) by simp
    then have "remove1 m xs = inorder (join l r)" using remove1_middle [of m "inorder l" "inorder r"] d by simp
    moreover have "sorted_wrt cmp (inorder (join l r))" using t(2,4) xs by (auto simp: sorted_wrt_append simp del: set_inorder)
    ultimately have "is_bst cmp s2 (spec_erase cmp item xs)" using s2(2) t(1) f
      by (auto simp: is_bst_def spec_erase_def intro!: exI [of _ "join l r"])
    then show ?thesis using found(1) s2(1) f by (simp add: Splay_erase_def)
  next
    case empty
    then show ?thesis using assms t(4) by (cases s) (auto simp: Splay_erase_def spec_erase_def)
  next
    case (missing s' y l r)
    have f: "List.find (same_key cmp item) xs = None" using missing(2) t(4) by (simp add: find_None_iff)
    moreover have "is_bst cmp s' xs" using t missing(3,4) unfolding is_bst_def by metis
    ultimately show ?thesis using missing(1) by (cases s') (simp add: Splay_erase_def spec_erase_def)
  qed
qed

interpretation splay_tree: ordered_container cmp "is_bst cmp" "Splay_insert cmp" "Splay_erase cmp"
proof
  fix s :: "'a tree_state" and xs x
  show "is_bst cmp s xs \<Longrightarrow> sorted_wrt cmp xs" by (simp add: is_bst_def)
qed (fact Splay_insert_ok Splay_erase_ok)+

text \<open>The other searches splay the node they return.\<close>

lemma splay_ptr_ok:
  assumes "is_bst cmp s xs" "\<And>x. q = Some x \<Longrightarrow> x \<in> set xs"
  shows "\<exists>s'. splay_ptr s q = Some s' \<and> is_bst cmp s' xs \<and> (q \<noteq> None \<longrightarrow> bt_root (snd s') = q)"
proof (cases q)
  case None
  then show ?thesis using assms(1) by (simp add: splay_ptr_def)
next
  case (Some x)
  obtain t where t: "weak_order cmp" "sorted_wrt cmp (inorder t)" "shaped s t" "inorder t = xs" using assms(1) by (auto simp: is_bst_def)
  then obtain s' l r where s': "Splay_node s x = Some s'" "shaped s' (Node l x r)" "inorder (Node l x r) = inorder t"
    using Splay_node_ok [OF t(3) sorted_distinct [OF t(1,2)], of x] assms(2) [OF Some] set_inorder by metis
  have "is_bst cmp s' xs" using t s'(2,3) unfolding is_bst_def by metis
  then show ?thesis using s'(1,2) Some by (simp add: splay_ptr_def shaped_def)
qed

lemma Splay_bounds_ok:
  assumes "is_bst cmp s xs"
  shows "\<exists>s'. Splay_lower_bound cmp s item = Some (s', List.find (\<lambda>y. \<not> cmp y item) xs) \<and> is_bst cmp s' xs"
    "\<exists>s'. Splay_upper_bound cmp s item = Some (s', List.find (cmp item) xs) \<and> is_bst cmp s' xs"
proof -
  have b: "lower_node cmp (fst s) (bt_root (snd s)) None item = Some (List.find (\<lambda>y. \<not> cmp y item) xs)"
    "upper_node cmp (fst s) (bt_root (snd s)) None item = Some (List.find (cmp item) xs)"
    using search_ok [OF assms, of item] by (cases s, simp)+
  show "\<exists>s'. Splay_lower_bound cmp s item = Some (s', List.find (\<lambda>y. \<not> cmp y item) xs) \<and> is_bst cmp s' xs"
    using splay_ptr_ok [OF assms, of "List.find (\<lambda>y. \<not> cmp y item) xs"] find_SomeD [of "\<lambda>y. \<not> cmp y item" xs] b(1)
    by (auto simp: Splay_lower_bound_def)
  show "\<exists>s'. Splay_upper_bound cmp s item = Some (s', List.find (cmp item) xs) \<and> is_bst cmp s' xs"
    using splay_ptr_ok [OF assms, of "List.find (cmp item) xs"] find_SomeD [of "cmp item" xs] b(2)
    by (auto simp: Splay_upper_bound_def)
qed


subsection \<open>Properties\<close>



text \<open>
  Erasure and insertion with a position rely on a preceding search: they work at the root whatever the position is.
  Erasing the node of an iterator that is not the root drops every node outside the subtree of that node
  from the tree while the size shrinks by one only, and inserting with the end iterator as the hint can put an
  item on the wrong side of the others, after which iteration misses nodes.
\<close>

theorem Splay_position_needs_search:
  "case run_order (Splay_insert (<)) (Splay_erase (<)) [Add 1, Add 2, Add 3]
       (\<lparr> t_parent = Map.empty, t_left = Map.empty, t_right = Map.empty \<rparr>, \<lparr> bt_size = 0, bt_root = None \<rparr>) of
     None \<Rightarrow> False
   | Some s \<Rightarrow>
       BinTree_items (<) s = Some [1, 2, 3] \<and>
       (case Splay_erase_at s (Some 1) of
          None \<Rightarrow> False
        | Some (s', it) \<Rightarrow> BinTree_items (<) s' = Some [] \<and> bt_size (snd s') = 2) \<and>
       (case Splay_insert_at (<) s None 0 of
          (s', it, inserted) \<Rightarrow> inserted \<and> BinTree_items (<) s' = Some [1, 2] \<and> bt_size (snd s') = 4)"
  by code_simp

end
