(* ===== verification/RedBlack.thy ===== *)
theory RedBlack
  imports TreeRotate
begin

text \<open>
  The red-black tree of \<^verbatim>\<open>include/containers/bintree_rb.h\<close> and \<^verbatim>\<open>include/containers/bintree_rb.inl\<close>:
  the binary tree with a colour in every node. \<^const>\<open>None\<close> is the result of a loop that does not end;
  following a null pointer is the error \<^const>\<open>NullDereference\<close>.
\<close>

record rb_store = tree_store +
  t_red :: "nat \<Rightarrow> bool"

type_synonym rb_state = "rb_store \<times> bintree"

definition set_red :: "rb_store \<Rightarrow> nat \<Rightarrow> bool \<Rightarrow> rb_store" where
  "set_red h n x = h\<lparr> t_red := (t_red h)(n := x) \<rparr>"

definition is_red :: "rb_store \<Rightarrow> ptr \<Rightarrow> bool" where
  "is_red h q = (case q of None \<Rightarrow> False | Some n \<Rightarrow> t_red h n)"

subsection \<open>Ends and search\<close>

text \<open>
  \<^verbatim>\<open>BinTreeRB\<close> has its own copies of the search loops, with the bodies of those of
  \<^verbatim>\<open>BinTree\<close>.
\<close>

definition RB_lowest :: "rb_state \<Rightarrow> ptr option" where
  "RB_lowest s = (case bt_root (snd s) of None \<Rightarrow> Some None | Some n \<Rightarrow> map_option Some (leftmost (fst s) n))"

definition RB_highest :: "rb_state \<Rightarrow> ptr option" where
  "RB_highest s = (case bt_root (snd s) of None \<Rightarrow> Some None | Some n \<Rightarrow> map_option Some (rightmost (fst s) n))"

definition RB_find :: "order \<Rightarrow> rb_state \<Rightarrow> nat \<Rightarrow> ptr option" where
  "RB_find cmp s item = find_node cmp (fst s) (bt_root (snd s)) item"

definition RB_lower_bound :: "order \<Rightarrow> rb_state \<Rightarrow> nat \<Rightarrow> ptr option" where
  "RB_lower_bound cmp s item = lower_node cmp (fst s) (bt_root (snd s)) None item"

definition RB_upper_bound :: "order \<Rightarrow> rb_state \<Rightarrow> nat \<Rightarrow> ptr option" where
  "RB_upper_bound cmp s item = upper_node cmp (fst s) (bt_root (snd s)) None item"

lemmas RB_search_defs = RB_lowest_def RB_highest_def RB_find_def RB_lower_bound_def RB_upper_bound_def

lemma RB_search_BinTree:
  "RB_lowest s = InternalLowest s" "RB_highest s = InternalHighest s" "RB_find cmp s item = InternalFind cmp s item"
  "RB_lower_bound cmp s item = InternalLowerBound cmp s item" "RB_upper_bound cmp s item = InternalUpperBound cmp s item"
  by (cases s, simp only: RB_search_defs InternalLowest.simps InternalHighest.simps InternalFind.simps InternalLowerBound.simps InternalUpperBound.simps fst_conv snd_conv)+

subsection \<open>Rotations\<close>

text \<open>The variant of \<^const>\<open>replace_child\<close> that asks for the right child first.\<close>

fun replace_child_right :: "'a tree_state \<Rightarrow> ptr \<Rightarrow> nat \<Rightarrow> ptr \<Rightarrow> 'a tree_state" where
  "replace_child_right (h, b) parent node child =
     (case parent of
        Some p \<Rightarrow> (if t_right h p = Some node then set_right h p child else set_left h p child, b)
      | None \<Rightarrow> (h, b\<lparr> bt_root := child \<rparr>))"

fun RB_RotateLeft :: "rb_state \<Rightarrow> nat \<Rightarrow> rb_state result" where
  "RB_RotateLeft (h, b) node =
     deref (t_right h node) (\<lambda>current.
       (let h = set_right h node (t_left h current);
            h = adopt h (t_left h current) node;
            h = set_parent h current (t_parent h node);
            (h, b) = replace_child (h, b) (t_parent h node) node (Some current);
            h = set_left h current (Some node);
            h = set_parent h node (Some current)
        in Inr (h, b)))"

fun RB_RotateRight :: "rb_state \<Rightarrow> nat \<Rightarrow> rb_state result" where
  "RB_RotateRight (h, b) node =
     deref (t_left h node) (\<lambda>current.
       (let h = set_left h node (t_right h current);
            h = adopt h (t_right h current) node;
            h = set_parent h current (t_parent h node);
            (h, b) = replace_child_right (h, b) (t_parent h node) node (Some current);
            h = set_right h current (Some node);
            h = set_parent h node (Some current)
        in Inr (h, b)))"

subsection \<open>Insertion\<close>

definition paint :: "rb_state \<Rightarrow> nat \<Rightarrow> bool \<Rightarrow> rb_state" where
  "paint s n x = (set_red (fst s) n x, snd s)"

definition paint_ptr :: "rb_state \<Rightarrow> ptr \<Rightarrow> bool \<Rightarrow> rb_state result" where
  "paint_ptr s q x = deref q (\<lambda>n. Inr (paint s n x))"

text \<open>The parent becomes black, the grandparent red, and the grandparent is rotated.\<close>

definition recolor_rotate :: "(rb_state \<Rightarrow> nat \<Rightarrow> rb_state result) \<Rightarrow> rb_state \<Rightarrow> nat \<Rightarrow> (rb_state \<times> nat) result" where
  "recolor_rotate rot s node =
     deref (t_parent (fst s) node) (\<lambda>p.
     deref (t_parent (fst s) p) (\<lambda>g.
     bind_result (rot (paint (paint s p False) g True) g) (\<lambda>s. Inr (s, node))))"

definition fix_left :: "rb_state \<Rightarrow> nat \<Rightarrow> nat \<Rightarrow> nat \<Rightarrow> (rb_state \<times> nat) result" where
  "fix_left s node p g =
     (let uncle = t_right (fst s) g
      in if is_red (fst s) uncle
         then bind_result (paint_ptr (paint s p False) uncle False) (\<lambda>s. Inr (paint s g True, g))
         else if t_right (fst s) p = Some node
         then bind_result (RB_RotateLeft s p) (\<lambda>s. recolor_rotate RB_RotateRight s p)
         else recolor_rotate RB_RotateRight s node)"

definition fix_right :: "rb_state \<Rightarrow> nat \<Rightarrow> nat \<Rightarrow> nat \<Rightarrow> (rb_state \<times> nat) result" where
  "fix_right s node p g =
     (let uncle = t_left (fst s) g
      in if is_red (fst s) uncle
         then bind_result (paint_ptr (paint s p False) uncle False) (\<lambda>s. Inr (paint s g True, g))
         else if t_left (fst s) p = Some node
         then bind_result (RB_RotateRight s p) (\<lambda>s. recolor_rotate RB_RotateLeft s p)
         else recolor_rotate RB_RotateLeft s node)"

partial_function (option) rb_balance :: "rb_state \<Rightarrow> nat \<Rightarrow> rb_state result option" where
  "rb_balance s node =
     (case t_parent (fst s) node of
        None \<Rightarrow> Some (Inr s)
      | Some p \<Rightarrow>
          if \<not> t_red (fst s) p then Some (Inr s)
          else
            (case t_parent (fst s) p of
               None \<Rightarrow> Some (Inl NullDereference)
             | Some g \<Rightarrow>
                 (case (if t_left (fst s) g = Some p then fix_left s node p g else fix_right s node p g) of
                    Inl e \<Rightarrow> Some (Inl e)
                  | Inr r \<Rightarrow> rb_balance (fst r) (snd r))))"

definition rb_rebalance :: "rb_state \<Rightarrow> nat \<Rightarrow> rb_state result option" where
  "rb_rebalance s item =
     Option.bind (rb_balance (paint s item True) item) (\<lambda>r.
       Some (bind_result r (\<lambda>s. paint_ptr s (bt_root (snd s)) False)))"

definition RB_insert_at :: "order \<Rightarrow> rb_state \<Rightarrow> ptr \<Rightarrow> nat \<Rightarrow> (rb_state \<times> nat \<times> bool) result option" where
  "RB_insert_at cmp s position item =
     Option.bind (BinTree_insert_at cmp s position item) (\<lambda>(s', n, inserted).
       if inserted then Option.bind (rb_rebalance s' item) (\<lambda>r. Some (bind_result r (\<lambda>s''. Inr (s'', n, True))))
       else Some (Inr (s', n, False)))"

definition RB_insert :: "order \<Rightarrow> rb_state \<Rightarrow> nat \<Rightarrow> (rb_state \<times> nat \<times> bool) result option" where
  "RB_insert cmp s item = RB_insert_at cmp s (bt_root (snd s)) item"

subsection \<open>Erasure\<close>

text \<open>
  \<^verbatim>\<open>Swap\<close> exchanges the links of the two nodes and a member \<^verbatim>\<open>balance\<close> that the nodes of this tree do not
  have (it compiles only for a node type that happens to declare one); the colours stay with the nodes.
\<close>

definition RB_Swap :: "rb_store \<Rightarrow> nat \<Rightarrow> nat \<Rightarrow> rb_store" where
  "RB_Swap h node1 node2 = exchange_nodes h node1 node2"

text \<open>
  One pass of the loop of \<^verbatim>\<open>Unlink\<close>: the new node and parent, or no pair when the loop is left.
\<close>

type_synonym unlink_next = "(rb_state \<times> (ptr \<times> ptr) option) result"

definition lift_left :: "rb_state \<Rightarrow> nat \<Rightarrow> rb_state result" where
  "lift_left s parent =
     (if is_red (fst s) (t_right (fst s) parent)
      then bind_result (paint_ptr s (t_right (fst s) parent) False) (\<lambda>s. RB_RotateLeft (paint s parent True) parent)
      else Inr s)"

definition finish_left :: "rb_state \<Rightarrow> nat \<Rightarrow> nat \<Rightarrow> unlink_next" where
  "finish_left s parent w =
     bind_result
       (if \<not> is_red (fst s) (t_right (fst s) w)
        then bind_result (paint_ptr s (t_left (fst s) w) False) (\<lambda>s. RB_RotateRight (paint s w True) w)
        else Inr s) (\<lambda>s.
     deref (t_right (fst s) parent) (\<lambda>w.
     bind_result (paint_ptr (paint (paint s w (t_red (fst s) parent)) parent False) (t_right (fst s) w) False) (\<lambda>s.
     bind_result (RB_RotateLeft s parent) (\<lambda>s.
     Inr (s, Some (bt_root (snd s), None))))))"

definition settle_left :: "rb_state \<Rightarrow> nat \<Rightarrow> unlink_next" where
  "settle_left s parent =
     (case t_right (fst s) parent of
        None \<Rightarrow> Inr (s, None)
      | Some w \<Rightarrow>
          if \<not> is_red (fst s) (t_left (fst s) w) \<and> \<not> is_red (fst s) (t_right (fst s) w)
          then Inr (paint s w True, Some (Some parent, t_parent (fst s) parent))
          else finish_left s parent w)"

definition unlink_left :: "rb_state \<Rightarrow> nat \<Rightarrow> unlink_next" where
  "unlink_left s parent = bind_result (lift_left s parent) (\<lambda>s. settle_left s parent)"

definition lift_right :: "rb_state \<Rightarrow> nat \<Rightarrow> rb_state result" where
  "lift_right s parent =
     (if is_red (fst s) (t_left (fst s) parent)
      then bind_result (paint_ptr s (t_left (fst s) parent) False) (\<lambda>s. RB_RotateRight (paint s parent True) parent)
      else Inr s)"

definition finish_right :: "rb_state \<Rightarrow> nat \<Rightarrow> nat \<Rightarrow> unlink_next" where
  "finish_right s parent w =
     bind_result
       (if \<not> is_red (fst s) (t_left (fst s) w)
        then bind_result (paint_ptr s (t_right (fst s) w) False) (\<lambda>s. RB_RotateLeft (paint s w True) w)
        else Inr s) (\<lambda>s.
     deref (t_left (fst s) parent) (\<lambda>w.
     bind_result (paint_ptr (paint (paint s w (t_red (fst s) parent)) parent False) (t_left (fst s) w) False) (\<lambda>s.
     bind_result (RB_RotateRight s parent) (\<lambda>s.
     Inr (s, Some (bt_root (snd s), None))))))"

definition settle_right :: "rb_state \<Rightarrow> nat \<Rightarrow> unlink_next" where
  "settle_right s parent =
     (case t_left (fst s) parent of
        None \<Rightarrow> Inr (s, None)
      | Some w \<Rightarrow>
          if \<not> is_red (fst s) (t_left (fst s) w) \<and> \<not> is_red (fst s) (t_right (fst s) w)
          then Inr (paint s w True, Some (Some parent, t_parent (fst s) parent))
          else finish_right s parent w)"

definition unlink_right :: "rb_state \<Rightarrow> nat \<Rightarrow> unlink_next" where
  "unlink_right s parent = bind_result (lift_right s parent) (\<lambda>s. settle_right s parent)"

partial_function (option) unlink_loop :: "rb_state \<Rightarrow> ptr \<Rightarrow> ptr \<Rightarrow> (rb_state \<times> ptr) result option" where
  "unlink_loop s node parent =
     (case parent of
        None \<Rightarrow> Some (Inr (s, node))
      | Some p \<Rightarrow>
          if is_red (fst s) node then Some (Inr (s, node))
          else
            (case (if node = t_left (fst s) p then unlink_left s p else unlink_right s p) of
               Inl e \<Rightarrow> Some (Inl e)
             | Inr r \<Rightarrow>
                 (case snd r of
                    None \<Rightarrow> Some (Inr (fst r, node))
                  | Some q \<Rightarrow> unlink_loop (fst r) (fst q) (snd q))))"

definition RB_Unlink :: "rb_state \<Rightarrow> ptr \<Rightarrow> ptr \<Rightarrow> rb_state result option" where
  "RB_Unlink s node parent =
     Option.bind (unlink_loop s node parent) (\<lambda>r.
       Some (bind_result r (\<lambda>r. Inr (case snd r of None \<Rightarrow> fst r | Some n \<Rightarrow> paint (fst r) n False))))"

text \<open>The successor takes the place of a node with two children.\<close>

definition swap_successor :: "rb_state \<Rightarrow> nat \<Rightarrow> rb_state option" where
  "swap_successor s node =
     (case (t_left (fst s) node, t_right (fst s) node) of
        (Some l, Some r) \<Rightarrow>
          Option.bind (leftmost (fst s) r) (\<lambda>y.
            Some (RB_Swap (fst s) node y, if t_parent (fst s) node = None then (snd s)\<lparr> bt_root := Some y \<rparr> else snd s))
      | _ \<Rightarrow> Some s)"

text \<open>The node, which has at most one child now, is taken out of the parent chain.\<close>

definition bypass :: "rb_state \<Rightarrow> nat \<Rightarrow> rb_state \<times> ptr" where
  "bypass s y =
     (let x = (if t_left (fst s) y \<noteq> None then t_left (fst s) y else t_right (fst s) y);
          h = (case x of Some n \<Rightarrow> set_parent (fst s) n (t_parent (fst s) y) | None \<Rightarrow> fst s)
      in (replace_child (h, snd s) (t_parent h y) y x, x))"

definition RB_erase_at :: "rb_state \<Rightarrow> ptr \<Rightarrow> (rb_state \<times> ptr) result option" where
  "RB_erase_at s it =
     (case it of
        None \<Rightarrow> Some (Inr (s, None))
      | Some result \<Rightarrow>
          Option.bind (swap_successor s result) (\<lambda>s.
            (let (s, x) = bypass s result
             in Option.bind
                  (if \<not> t_red (fst s) result then RB_Unlink s x (t_parent (fst s) result) else Some (Inr s)) (\<lambda>r.
                  Some (bind_result r (\<lambda>s. Inr (unlink_item s result, Some result)))))))"

definition RB_erase :: "order \<Rightarrow> rb_state \<Rightarrow> nat \<Rightarrow> (rb_state \<times> ptr) result option" where
  "RB_erase cmp s item = Option.bind (RB_find cmp s item) (RB_erase_at s)"

declare rb_balance.simps [code] unlink_loop.simps [code]

fun rb_run :: "order \<Rightarrow> order_op list \<Rightarrow> rb_state \<Rightarrow> rb_state result option" where
  "rb_run cmp [] s = Some (Inr s)"
| "rb_run cmp (Add x # ops) s =
     Option.bind (RB_insert cmp s x) (\<lambda>r. case r of Inl e \<Rightarrow> Some (Inl e) | Inr (s', n, inserted) \<Rightarrow> rb_run cmp ops s')"
| "rb_run cmp (Del x # ops) s =
     Option.bind (RB_erase cmp s x) (\<lambda>r. case r of Inl e \<Rightarrow> Some (Inl e) | Inr (s', n) \<Rightarrow> rb_run cmp ops s')"

definition rb_empty :: rb_state where
  "rb_empty = (\<lparr> t_parent = Map.empty, t_left = Map.empty, t_right = Map.empty, t_red = \<lambda>_. False \<rparr>, \<lparr> bt_size = 0, bt_root = None \<rparr>)"

subsection \<open>Shapes\<close>

lemma red_links [simp]:
  "t_parent (set_red h n x) = t_parent h" "t_left (set_red h n x) = t_left h" "t_right (set_red h n x) = t_right h"
  "t_red (set_red h n x) = (t_red h)(n := x)" "t_red (set_parent h n p) = t_red h" "t_red (set_left h n p) = t_red h"
  "t_red (set_right h n p) = t_red h" "t_red (adopt h q m) = t_red h" "t_red (set_child h c q) = t_red h"
  "t_red (exchange_nodes h n m) = t_red h"
  by (simp_all add: set_red_def set_parent_def set_left_def set_right_def adopt_def exchange_nodes_def exchange_links_def
        redirect_neighbours_def set_side_def Let_def split: option.splits)
    (cases c rule: nodes_path.cases; simp add: set_left_def set_right_def)

lemma linked_red [simp]: "linked (set_red h n x) par t = linked h par t" "linked_path (set_red h n x) q c = linked_path h q c"
  by (auto intro!: linked_cong linked_path_cong)

lemma paint_simps [simp]:
  "rooted (paint s n x) t = rooted s t" "t_red (fst (paint s n x)) = (t_red (fst s))(n := x)" "snd (paint s n x) = snd s"
  "t_parent (fst (paint s n x)) = t_parent (fst s)" "t_left (fst (paint s n x)) = t_left (fst s)" "t_right (fst (paint s n x)) = t_right (fst s)"
  "linked (fst (paint s n x)) par t = linked (fst s) par t"
  by (simp_all add: paint_def rooted_def)

lemma replace_child_right_path:
  assumes "linked_path h (Some n) c" "n \<notin> nodes_path c" "\<And>q. up c = Some q \<Longrightarrow> t_right h' q = t_right h q"
  shows "replace_child_right (h', b) (up c) n q' = (set_child h' c q', if c = [] then b\<lparr> bt_root := q' \<rparr> else b)"
  using assms by (cases c rule: nodes_path.cases; auto dest: rt_mem)

lemma RB_RotateRight_ok:
  assumes r: "rooted s (plug (Node (Node a n b) p r) c)"
  shows "\<exists>s'. RB_RotateRight s p = Inr s' \<and> rooted s' (plug (Node a n (Node b p r)) c) \<and> t_red (fst s') = t_red (fst s) \<and>
    bt_size (snd s') = bt_size (snd s)"
proof -
  obtain h bt where s: "s = (h, bt)" by (cases s)
  have lk: "linked h None (plug (Node (Node a n b) p r) c)" and root: "bt_root bt = rt (plug (Node (Node a n b) p r) c)"
    and d: "distinct (before c @ inorder a @ n # inorder b @ p # inorder r @ after c)" using r by (simp_all add: s rooted_def inorder_plug)
  note ne = pair_facts [OF d]
  let ?h = "set_parent (adopt (set_left h p (rt b)) (rt b) p) n (up c)"
  have rep: "replace_child_right (?h, bt) (up c) p (Some n) = (set_child ?h c (Some n), if c = [] then bt\<lparr> bt_root := Some n \<rparr> else bt)"
    by (rule replace_child_right_path [where h = h]) (use lk ne in \<open>auto simp: linked_plug\<close>)
  let ?k = "set_parent (set_right (set_child ?h c (Some n)) n (Some p)) p (Some n)"
  have eq: "RB_RotateRight s p = Inr (?k, if c = [] then bt\<lparr> bt_root := Some n \<rparr> else bt)"
    using lk ne by (simp add: s linked_plug deref_def Let_def rep del: replace_child.simps replace_child_right.simps)
  have "linked_path (set_child ?h c (Some n)) (Some n) c"
    by (rule set_child_path [of _ "Some p"]) (use lk ne in \<open>simp_all add: linked_plug adopt_path\<close>)
  then have "linked ?k None (plug (Node a n (Node b p r)) c)"
    using lk by (simp add: linked_plug ne set_child_linked set_child_links adopt_frame adopt_linked [of _ "Some n"])
  moreover have "bt_root (if c = [] then bt\<lparr> bt_root := Some n \<rparr> else bt) = rt (plug (Node a n (Node b p r)) c)"
    using root root_of_step [of c] by (auto simp: rt_plug)
  ultimately show ?thesis using eq d by (auto simp: s rooted_def inorder_plug)
qed

lemma RB_RotateLeft_ok:
  assumes r: "rooted s (plug (Node a p (Node b n r)) c)"
  shows "\<exists>s'. RB_RotateLeft s p = Inr s' \<and> rooted s' (plug (Node (Node a p b) n r) c) \<and> t_red (fst s') = t_red (fst s) \<and>
    bt_size (snd s') = bt_size (snd s)"
proof -
  obtain h bt where s: "s = (h, bt)" by (cases s)
  have lk: "linked h None (plug (Node a p (Node b n r)) c)" and root: "bt_root bt = rt (plug (Node a p (Node b n r)) c)"
    and d: "distinct (before c @ inorder a @ p # inorder b @ n # inorder r @ after c)" using r by (simp_all add: s rooted_def inorder_plug)
  note ne = pair_facts [OF d]
  let ?h = "set_parent (adopt (set_right h p (rt b)) (rt b) p) n (up c)"
  have rep: "replace_child (?h, bt) (up c) p (Some n) = (set_child ?h c (Some n), if c = [] then bt\<lparr> bt_root := Some n \<rparr> else bt)"
    by (rule replace_child_path [where h = h]) (use lk ne in \<open>auto simp: linked_plug\<close>)
  let ?k = "set_parent (set_left (set_child ?h c (Some n)) n (Some p)) p (Some n)"
  have eq: "RB_RotateLeft s p = Inr (?k, if c = [] then bt\<lparr> bt_root := Some n \<rparr> else bt)"
    using lk ne by (simp add: s linked_plug deref_def Let_def rep del: replace_child.simps replace_child_right.simps)
  have "linked_path (set_child ?h c (Some n)) (Some n) c"
    by (rule set_child_path [of _ "Some p"]) (use lk ne in \<open>simp_all add: linked_plug adopt_path\<close>)
  then have "linked ?k None (plug (Node (Node a p b) n r) c)"
    using lk by (simp add: linked_plug ne set_child_linked set_child_links adopt_frame adopt_linked [of _ "Some n"])
  moreover have "bt_root (if c = [] then bt\<lparr> bt_root := Some n \<rparr> else bt) = rt (plug (Node (Node a p b) n r) c)"
    using root root_of_step [of c] by (auto simp: rt_plug)
  ultimately show ?thesis using eq d by (auto simp: s rooted_def inorder_plug)
qed


subsection \<open>Colours\<close>

fun red_root :: "(nat \<Rightarrow> bool) \<Rightarrow> nat tree \<Rightarrow> bool" where
  "red_root col Leaf = False"
| "red_root col (Node l n r) = col n"

fun bh :: "(nat \<Rightarrow> bool) \<Rightarrow> nat tree \<Rightarrow> nat" where
  "bh col Leaf = 0"
| "bh col (Node l n r) = bh col l + (if col n then 0 else 1)"

fun rb :: "(nat \<Rightarrow> bool) \<Rightarrow> nat tree \<Rightarrow> bool" where
  "rb col Leaf \<longleftrightarrow> True"
| "rb col (Node l n r) \<longleftrightarrow> rb col l \<and> rb col r \<and> bh col l = bh col r \<and> (col n \<longrightarrow> \<not> red_root col l \<and> \<not> red_root col r)"

text \<open>The path above a subtree of black height \<open>k\<close> whose root is red if \<open>x\<close>.\<close>

fun rb_path :: "(nat \<Rightarrow> bool) \<Rightarrow> nat \<Rightarrow> bool \<Rightarrow> path \<Rightarrow> bool" where
  "rb_path col k x [] \<longleftrightarrow> True"
| "rb_path col k x (L n r # c) \<longleftrightarrow> rb col r \<and> bh col r = k \<and> (col n \<longrightarrow> \<not> x \<and> \<not> red_root col r) \<and>
     rb_path col (k + (if col n then 0 else 1)) (col n) c"
| "rb_path col k x (R l n # c) \<longleftrightarrow> rb col l \<and> bh col l = k \<and> (col n \<longrightarrow> \<not> x \<and> \<not> red_root col l) \<and>
     rb_path col (k + (if col n then 0 else 1)) (col n) c"

fun top_black :: "(nat \<Rightarrow> bool) \<Rightarrow> path \<Rightarrow> bool" where
  "top_black col [] \<longleftrightarrow> True"
| "top_black col (L n r # c) \<longleftrightarrow> (if c = [] then \<not> col n else top_black col c)"
| "top_black col (R l n # c) \<longleftrightarrow> (if c = [] then \<not> col n else top_black col c)"

lemma rb_plug: "rb col (plug t c) \<longleftrightarrow> rb col t \<and> rb_path col (bh col t) (red_root col t) c"
  by (induction t c rule: plug.induct) auto

lemma red_root_is_red: "is_red h (rt t) = red_root (t_red h) t"
  by (cases t) (simp_all add: is_red_def)

lemma colour_frame [simp]:
  "n \<notin> set_tree t \<Longrightarrow> red_root (col(n := x)) t = red_root col t" "n \<notin> set_tree t \<Longrightarrow> bh (col(n := x)) t = bh col t"
  "n \<notin> set_tree t \<Longrightarrow> rb (col(n := x)) t = rb col t"
proof -
  show a: "n \<notin> set_tree t \<Longrightarrow> red_root (col(n := x)) t = red_root col t" for t by (cases t) auto
  show b: "n \<notin> set_tree t \<Longrightarrow> bh (col(n := x)) t = bh col t" for t by (induction t) auto
  show "n \<notin> set_tree t \<Longrightarrow> rb (col(n := x)) t = rb col t" by (induction t) (auto simp: a b)
qed

lemma path_frame [simp]:
  "n \<notin> nodes_path c \<Longrightarrow> rb_path (col(n := x)) k y c = rb_path col k y c" "n \<notin> nodes_path c \<Longrightarrow> top_black (col(n := x)) c = top_black col c"
  by (induction col k y c rule: rb_path.induct) auto

lemma rb_path_black: "rb_path col k x c \<Longrightarrow> rb_path col k False c"
  by (cases c rule: nodes_path.cases) auto

text \<open>What the loop of the insertion delivers.\<close>

definition rb_done :: "rb_state result option \<Rightarrow> rb_state \<Rightarrow> nat list \<Rightarrow> bool" where
  "rb_done r s xs \<longleftrightarrow> (\<exists>s' t. r = Some (Inr s') \<and> rooted s' t \<and> inorder t = xs \<and> rb (t_red (fst s')) t \<and> bt_size (snd s') = bt_size (snd s))"

lemma rb_balance_stop:
  "t_parent (fst s) n = None \<Longrightarrow> rb_balance s n = Some (Inr s)"
  "t_parent (fst s) n = Some p \<Longrightarrow> \<not> t_red (fst s) p \<Longrightarrow> rb_balance s n = Some (Inr s)"
  by (simp_all add: rb_balance.simps [of s n])

lemma rb_doneI:
  assumes "rooted s' (plug t c)" "rb (t_red (fst s')) t" "rb_path (t_red (fst s')) (bh (t_red (fst s')) t) (red_root (t_red (fst s')) t) c"
    "inorder (plug t c) = xs" "bt_size (snd s') = bt_size (snd s)"
  shows "rb_done (Some (Inr s')) s xs"
  using assms unfolding rb_done_def by (intro exI [of _ s'] exI [of _ "plug t c"]) (simp add: rb_plug)

text \<open>The last rotation of the insertion, about the grandparent.\<close>

lemma recolor_right:
  assumes "rooted s (plug (Node (Node a n b) p u) (L g v # k))" "t_parent (fst s) m = Some p"
  shows "\<exists>s'. recolor_rotate RB_RotateRight s m = Inr (s', m) \<and> rooted s' (plug (Node (Node a n b) p (Node u g v)) k) \<and>
    t_red (fst s') = (t_red (fst s))(p := False, g := True) \<and> bt_size (snd s') = bt_size (snd s)"
  using RB_RotateRight_ok [of "paint (paint s p False) g True" "Node a n b" p u g v k] assms rooted_links(1) [OF assms(1)]
  by (auto simp: recolor_rotate_def deref_def)

lemma recolor_left:
  assumes "rooted s (plug (Node u p (Node a n b)) (R v g # k))" "t_parent (fst s) m = Some p"
  shows "\<exists>s'. recolor_rotate RB_RotateLeft s m = Inr (s', m) \<and> rooted s' (plug (Node (Node v g u) p (Node a n b)) k) \<and>
    t_red (fst s') = (t_red (fst s))(p := False, g := True) \<and> bt_size (snd s') = bt_size (snd s)"
  using RB_RotateLeft_ok [of "paint (paint s p False) g True" v g u p "Node a n b" k] assms rooted_links(1) [OF assms(1)]
  by (auto simp: recolor_rotate_def deref_def)


text \<open>The iterations of the loop, by the places of the node and its parent and the colour of the uncle.\<close>

definition turned :: "rb_state \<Rightarrow> rb_state result option \<Rightarrow> nat tree \<Rightarrow> nat \<Rightarrow> nat \<Rightarrow> bool" where
  "turned s res t p g \<longleftrightarrow> (\<exists>s'. res = Some (Inr s') \<and> rooted s' t \<and> t_red (fst s') = (t_red (fst s))(p := False, g := True) \<and>
     bt_size (snd s') = bt_size (snd s))"

lemma balance_outer_left:
  assumes r: "rooted s (plug (Node l n r) (L p u # L g v # k))" and c: "t_red (fst s) p" "\<not> red_root (t_red (fst s)) v"
  shows "turned s (rb_balance s n) (plug (Node (Node l n r) p (Node u g v)) k) p g"
proof -
  have rp: "rooted s (plug (Node (Node l n r) p u) (L g v # k))" and rg: "rooted s (plug (Node (Node (Node l n r) p u) g v) k)" using r by simp_all
  have lk: "t_parent (fst s) n = Some p" "t_parent (fst s) p = Some g" "t_left (fst s) g = Some p" "t_right (fst s) g = rt v" "t_right (fst s) p = rt u"
    using rooted_links [OF r] rooted_links [OF rp] rooted_links [OF rg] by simp_all
  have ne: "rt u \<noteq> Some n" "p \<noteq> g" using r by (auto simp: rooted_def inorder_plug dest!: rt_mem)
  obtain s' where s': "recolor_rotate RB_RotateRight s n = Inr (s', n)" "rooted s' (plug (Node (Node l n r) p (Node u g v)) k)"
    "t_red (fst s') = (t_red (fst s))(p := False, g := True)" "bt_size (snd s') = bt_size (snd s)"
    using recolor_right [OF rp lk(1)] by blast
  have "t_parent (fst s') n = Some p" using s'(2) by (simp add: rooted_def linked_plug)
  then have "rb_balance s' n = Some (Inr s')" using s'(3) ne(2) by (intro rb_balance_stop(2)) auto
  then show ?thesis using lk c ne s' by (simp add: turned_def rb_balance.simps [of s n] fix_left_def red_root_is_red)
qed

lemma balance_inner_left:
  assumes r: "rooted s (plug (Node l n r) (R u p # L g v # k))" and c: "t_red (fst s) p" "\<not> red_root (t_red (fst s)) v"
  shows "turned s (rb_balance s n) (plug (Node (Node u p l) n (Node r g v)) k) n g"
proof -
  have rp: "rooted s (plug (Node u p (Node l n r)) (L g v # k))" and rg: "rooted s (plug (Node (Node u p (Node l n r)) g v) k)" using r by simp_all
  have lk: "t_parent (fst s) n = Some p" "t_parent (fst s) p = Some g" "t_left (fst s) g = Some p" "t_right (fst s) g = rt v" "t_right (fst s) p = Some n"
    using rooted_links [OF r] rooted_links [OF rp] rooted_links [OF rg] by simp_all
  obtain s1 where s1: "RB_RotateLeft s p = Inr s1" "rooted s1 (plug (Node (Node u p l) n r) (L g v # k))" "t_red (fst s1) = t_red (fst s)"
    "bt_size (snd s1) = bt_size (snd s)"
    using RB_RotateLeft_ok [OF rp] by blast
  have "t_parent (fst s1) p = Some n" using s1(2) by (simp add: rooted_def linked_plug)
  then obtain s' where s': "recolor_rotate RB_RotateRight s1 p = Inr (s', p)" "rooted s' (plug (Node (Node u p l) n (Node r g v)) k)"
    "t_red (fst s') = (t_red (fst s1))(n := False, g := True)" "bt_size (snd s') = bt_size (snd s1)"
    using recolor_right [OF s1(2)] by blast
  have "t_parent (fst s') p = Some n" "n \<noteq> g" using s'(2) by (auto simp: rooted_def linked_plug inorder_plug)
  then have "rb_balance s' p = Some (Inr s')" using s'(3) by (intro rb_balance_stop(2)) auto
  then show ?thesis using lk c s1 s' by (simp add: turned_def rb_balance.simps [of s n] fix_left_def red_root_is_red)
qed

lemma balance_outer_right:
  assumes r: "rooted s (plug (Node l n r) (R u p # R v g # k))" and c: "t_red (fst s) p" "\<not> red_root (t_red (fst s)) v"
  shows "turned s (rb_balance s n) (plug (Node (Node v g u) p (Node l n r)) k) p g"
proof -
  have rp: "rooted s (plug (Node u p (Node l n r)) (R v g # k))" and rg: "rooted s (plug (Node v g (Node u p (Node l n r))) k)" using r by simp_all
  have lk: "t_parent (fst s) n = Some p" "t_parent (fst s) p = Some g" "t_left (fst s) g = rt v" "t_left (fst s) p = rt u"
    using rooted_links [OF r] rooted_links [OF rp] rooted_links [OF rg] by simp_all
  have ne: "rt u \<noteq> Some n" "rt v \<noteq> Some p" "p \<noteq> g" using r by (auto simp: rooted_def inorder_plug dest!: rt_mem)
  obtain s' where s': "recolor_rotate RB_RotateLeft s n = Inr (s', n)" "rooted s' (plug (Node (Node v g u) p (Node l n r)) k)"
    "t_red (fst s') = (t_red (fst s))(p := False, g := True)" "bt_size (snd s') = bt_size (snd s)"
    using recolor_left [OF rp lk(1)] by blast
  have "t_parent (fst s') n = Some p" using s'(2) by (simp add: rooted_def linked_plug)
  then have "rb_balance s' n = Some (Inr s')" using s'(3) ne(3) by (intro rb_balance_stop(2)) auto
  then show ?thesis using lk c ne s' by (simp add: turned_def rb_balance.simps [of s n] fix_right_def red_root_is_red)
qed

lemma balance_inner_right:
  assumes r: "rooted s (plug (Node l n r) (L p u # R v g # k))" and c: "t_red (fst s) p" "\<not> red_root (t_red (fst s)) v"
  shows "turned s (rb_balance s n) (plug (Node (Node v g l) n (Node r p u)) k) n g"
proof -
  have rp: "rooted s (plug (Node (Node l n r) p u) (R v g # k))" and rg: "rooted s (plug (Node v g (Node (Node l n r) p u)) k)" using r by simp_all
  have lk: "t_parent (fst s) n = Some p" "t_parent (fst s) p = Some g" "t_left (fst s) g = rt v" "t_left (fst s) p = Some n"
    using rooted_links [OF r] rooted_links [OF rp] rooted_links [OF rg] by simp_all
  have ne: "rt v \<noteq> Some p" using r by (auto simp: rooted_def inorder_plug dest!: rt_mem)
  obtain s1 where s1: "RB_RotateRight s p = Inr s1" "rooted s1 (plug (Node l n (Node r p u)) (R v g # k))" "t_red (fst s1) = t_red (fst s)"
    "bt_size (snd s1) = bt_size (snd s)"
    using RB_RotateRight_ok [OF rp] by blast
  have "t_parent (fst s1) p = Some n" using s1(2) by (simp add: rooted_def linked_plug)
  then obtain s' where s': "recolor_rotate RB_RotateLeft s1 p = Inr (s', p)" "rooted s' (plug (Node (Node v g l) n (Node r p u)) k)"
    "t_red (fst s') = (t_red (fst s1))(n := False, g := True)" "bt_size (snd s') = bt_size (snd s1)"
    using recolor_left [OF s1(2)] by blast
  have "t_parent (fst s') p = Some n" "n \<noteq> g" using s'(2) by (auto simp: rooted_def linked_plug inorder_plug)
  then have "rb_balance s' p = Some (Inr s')" using s'(3) by (intro rb_balance_stop(2)) auto
  then show ?thesis using lk c ne s1 s' by (simp add: turned_def rb_balance.simps [of s n] fix_right_def red_root_is_red)
qed

lemma balance_uncle:
  assumes "t_parent (fst s) n = Some p" "t_parent (fst s) p = Some g" "t_red (fst s) p" "t_red (fst s) w"
    "t_left (fst s) g = Some p \<and> t_right (fst s) g = Some w \<or> t_left (fst s) g = Some w \<and> w \<noteq> p"
  shows "rb_balance s n = rb_balance (paint (paint (paint s p False) w False) g True) g"
  using assms by (auto simp: rb_balance.simps [of s n] fix_left_def fix_right_def is_red_def paint_ptr_def deref_def)

lemma turned_done:
  assumes "turned s res (plug t k) p g" "inorder (plug t k) = xs"
    "rb ((t_red (fst s))(p := False, g := True)) t" "\<not> red_root ((t_red (fst s))(p := False, g := True)) t"
    "rb_path ((t_red (fst s))(p := False, g := True)) (bh ((t_red (fst s))(p := False, g := True)) t) False k"
  shows "rb_done res s xs"
  using assms unfolding turned_def by (metis rb_doneI)


text \<open>The invariant of the loop: the node is red and the tree is right except that its parent may be red too.\<close>

definition fixable :: "rb_state \<Rightarrow> nat tree \<Rightarrow> nat \<Rightarrow> nat tree \<Rightarrow> path \<Rightarrow> bool" where
  "fixable s l n r c \<longleftrightarrow> rooted s (plug (Node l n r) c) \<and> rb (t_red (fst s)) (Node l n r) \<and> t_red (fst s) n \<and>
     rb_path (t_red (fst s)) (bh (t_red (fst s)) l) False c \<and> top_black (t_red (fst s)) c"

definition goes_on :: "rb_state \<Rightarrow> nat \<Rightarrow> nat list \<Rightarrow> path \<Rightarrow> bool" where
  "goes_on s n xs k \<longleftrightarrow> (\<exists>s' l' g r'. rb_balance s n = rb_balance s' g \<and> fixable s' l' g r' k \<and> inorder (plug (Node l' g r') k) = xs \<and>
     bt_size (snd s') = bt_size (snd s))"

lemma goes_onI:
  "rb_balance s n = rb_balance s' g \<Longrightarrow> fixable s' l' g r' k \<Longrightarrow> inorder (plug (Node l' g r') k) = xs \<Longrightarrow>
     bt_size (snd s') = bt_size (snd s) \<Longrightarrow> goes_on s n xs k"
  unfolding goes_on_def by blast

lemma fix_left_step:
  assumes f: "fixable s l n r (s1 # L g v # k)" and s1: "s1 = L p u \<or> s1 = R u p" and p: "t_red (fst s) p"
  shows "rb_done (rb_balance s n) s (inorder (plug (Node l n r) (s1 # L g v # k))) \<or> goes_on s n (inorder (plug (Node l n r) (s1 # L g v # k))) k"
proof (cases "red_root (t_red (fst s)) v")
  case False
  note f = f [unfolded fixable_def]
  from s1 show ?thesis
  proof
    assume s1: "s1 = L p u"
    show ?thesis using balance_outer_left [OF f [THEN conjunct1, unfolded s1] p False] f p False
      by (intro disjI1 turned_done [where k = k]) (auto simp: s1 rooted_def inorder_plug set_path)
  next
    assume s1: "s1 = R u p"
    show ?thesis using balance_inner_left [OF f [THEN conjunct1, unfolded s1] p False] f p False
      by (intro disjI1 turned_done [where k = k]) (auto simp: s1 rooted_def inorder_plug set_path)
  qed
next
  case True
  then obtain v1 w v2 where v: "v = Node v1 w v2" by (cases v) auto
  let ?s = "paint (paint (paint s p False) w False) g True" and ?t = "if s1 = L p u then Node (Node l n r) p u else Node u p (Node l n r)"
  have "rooted s (plug (Node ?t g v) k)" using f s1 by (auto simp: fixable_def)
  note lk = rooted_links [OF this]
  have "t_parent (fst s) n = Some p" using f s1 by (auto simp: fixable_def rooted_def linked_plug)
  then have "rb_balance s n = rb_balance ?s g"
    using lk True p s1 v by (intro balance_uncle) auto
  moreover have "fixable ?s ?t g v k"
    using s1
  proof
    assume s1: "s1 = L p u"
    show ?thesis unfolding fixable_def
      by (intro conjI; use f p True in \<open>auto simp: fixable_def s1 v rooted_def inorder_plug set_path split: if_splits\<close>)
  next
    assume s1: "s1 = R u p"
    show ?thesis unfolding fixable_def
      by (intro conjI; use f p True in \<open>auto simp: fixable_def s1 v rooted_def inorder_plug set_path split: if_splits\<close>)
  qed
  ultimately show ?thesis by (intro disjI2 goes_onI [where s' = ?s]) (use s1 in \<open>auto simp: inorder_plug\<close>)
qed

lemma fix_right_step:
  assumes f: "fixable s l n r (s1 # R v g # k)" and s1: "s1 = L p u \<or> s1 = R u p" and p: "t_red (fst s) p"
  shows "rb_done (rb_balance s n) s (inorder (plug (Node l n r) (s1 # R v g # k))) \<or> goes_on s n (inorder (plug (Node l n r) (s1 # R v g # k))) k"
proof (cases "red_root (t_red (fst s)) v")
  case False
  note f = f [unfolded fixable_def]
  from s1 show ?thesis
  proof
    assume s1: "s1 = L p u"
    show ?thesis using balance_inner_right [OF f [THEN conjunct1, unfolded s1] p False] f p False
      by (intro disjI1 turned_done [where k = k]) (auto simp: s1 rooted_def inorder_plug set_path)
  next
    assume s1: "s1 = R u p"
    show ?thesis using balance_outer_right [OF f [THEN conjunct1, unfolded s1] p False] f p False
      by (intro disjI1 turned_done [where k = k]) (auto simp: s1 rooted_def inorder_plug set_path)
  qed
next
  case True
  then obtain v1 w v2 where v: "v = Node v1 w v2" by (cases v) auto
  let ?s = "paint (paint (paint s p False) w False) g True" and ?t = "if s1 = L p u then Node (Node l n r) p u else Node u p (Node l n r)"
  have "rooted s (plug (Node v g ?t) k)" using f s1 by (auto simp: fixable_def)
  note lk = rooted_links [OF this]
  have "t_parent (fst s) n = Some p" "w \<noteq> p" using f s1 by (auto simp: fixable_def rooted_def linked_plug inorder_plug v)
  then have "rb_balance s n = rb_balance ?s g"
    using lk True p s1 v by (intro balance_uncle) auto
  moreover have "fixable ?s v g ?t k"
    using s1
  proof
    assume s1: "s1 = L p u"
    show ?thesis unfolding fixable_def
      by (intro conjI; use f p True in \<open>auto simp: fixable_def s1 v rooted_def inorder_plug set_path split: if_splits\<close>)
  next
    assume s1: "s1 = R u p"
    show ?thesis unfolding fixable_def
      by (intro conjI; use f p True in \<open>auto simp: fixable_def s1 v rooted_def inorder_plug set_path split: if_splits\<close>)
  qed
  ultimately show ?thesis by (intro disjI2 goes_onI [where s' = ?s]) (use s1 in \<open>auto simp: inorder_plug\<close>)
qed

lemma rb_balance_ok: "fixable s l n r c \<Longrightarrow> rb_done (rb_balance s n) s (inorder (plug (Node l n r) c))"
proof (induction "length c" arbitrary: s l n r c rule: less_induct)
  case less
  let ?col = "t_red (fst s)" and ?xs = "inorder (plug (Node l n r) c)"
  have f: "rooted s (plug (Node l n r) c)" "rb ?col (Node l n r)" "?col n" "rb_path ?col (bh ?col l) False c" "top_black ?col c"
    using less.prems unfolding fixable_def by blast+
  consider (root) "c = []" | (black) q where "up c = Some q" "\<not> ?col q"
    | (red) s1 s2 k p u where "c = s1 # s2 # k" "s1 = L p u \<or> s1 = R u p" "?col p"
    using f(5) by (cases c rule: nodes_path.cases; cases "tl c") auto
  then show ?case
  proof cases
    case root
    then have "rb_balance s n = Some (Inr s)" using rooted_links(1) [OF f(1)] by (intro rb_balance_stop) simp
    then show ?thesis using rb_doneI [of s "Node l n r" "[]" _ s] f(1,2) root by simp
  next
    case black
    then have "rb_balance s n = Some (Inr s)" using rooted_links(1) [OF f(1)] by (intro rb_balance_stop(2)) auto
    moreover have "rb_path ?col (bh ?col (Node l n r)) True c" using f(3,4) black by (cases c rule: nodes_path.cases) auto
    ultimately show ?thesis using rb_doneI [of s "Node l n r" c _ s] f(1-3) by simp
  next
    case red
    have "rb_done (rb_balance s n) s ?xs \<or> goes_on s n ?xs k"
      using fix_left_step [OF _ red(2,3)] fix_right_step [OF _ red(2,3)] less.prems red(1) by (cases s2) auto
    moreover have "rb_done (rb_balance s n) s ?xs" if "goes_on s n ?xs k"
    proof -
      obtain s' l' g r' where g: "rb_balance s n = rb_balance s' g" "fixable s' l' g r' k" "inorder (plug (Node l' g r') k) = ?xs"
        "bt_size (snd s') = bt_size (snd s)" using \<open>goes_on s n ?xs k\<close> unfolding goes_on_def by blast
      have "length k < length c" using red(1) by simp
      from less.hyps [OF this g(2)] show ?thesis using g(1,3,4) by (simp add: rb_done_def)
    qed
    ultimately show ?thesis by blast
  qed
qed


text \<open>Red-black trees: a search tree with a black root, no red node with a red child, and equal black heights.\<close>

definition is_rb :: "order \<Rightarrow> rb_state \<Rightarrow> nat list \<Rightarrow> bool" where
  "is_rb cmp s xs \<longleftrightarrow> weak_order cmp \<and> sorted_wrt cmp xs \<and>
     (\<exists>t. inorder t = xs \<and> shaped s t \<and> rb (t_red (fst s)) t \<and> \<not> red_root (t_red (fst s)) t)"

lemma is_rb_bst: "is_rb cmp s xs \<Longrightarrow> is_bst cmp s xs"
  by (auto simp: is_rb_def is_bst_def)

lemma more_red: "tree_store.more h = tree_store.more h' \<Longrightarrow> t_red h = t_red (h' :: rb_store)"
  by (cases h; cases h') simp

lemma red_root_path: "rb col (plug Leaf c) \<Longrightarrow> \<not> red_root col (plug Leaf c) \<Longrightarrow> rb_path col 0 False c \<and> top_black col c"
proof -
  have "\<not> red_root col (plug t c) \<Longrightarrow> c \<noteq> [] \<Longrightarrow> top_black col c" for t by (induction t c rule: plug.induct) auto
  moreover assume "rb col (plug Leaf c)" "\<not> red_root col (plug Leaf c)"
  ultimately show ?thesis by (cases "c = []") (auto simp: rb_plug)
qed

lemma paint_root: "rb col (Node l n r) \<Longrightarrow> n \<notin> set_tree l \<Longrightarrow> n \<notin> set_tree r \<Longrightarrow> rb (col(n := False)) (Node l n r)"
  by simp

lemma rb_rebalance_ok:
  assumes "rooted s (plug (Node Leaf n Leaf) c)" "rb_path (t_red (fst s)) 0 False c" "top_black (t_red (fst s)) c"
  shows "\<exists>s' t. rb_rebalance s n = Some (Inr s') \<and> rooted s' t \<and> inorder t = inorder (plug (Node Leaf n Leaf) c) \<and>
    rb (t_red (fst s')) t \<and> \<not> red_root (t_red (fst s')) t \<and> bt_size (snd s') = bt_size (snd s)"
proof -
  have "n \<notin> nodes_path c" using assms(1) by (auto simp: rooted_def inorder_plug set_path)
  then have "fixable (paint s n True) Leaf n Leaf c" using assms by (simp add: fixable_def)
  from rb_balance_ok [OF this] obtain s' t where s': "rb_balance (paint s n True) n = Some (Inr s')" "rooted s' t"
    "inorder t = inorder (plug (Node Leaf n Leaf) c)" "rb (t_red (fst s')) t" "bt_size (snd s') = bt_size (snd s)"
    by (auto simp: rb_done_def)
  obtain l m r where t: "t = Node l m r" using s'(3) by (cases t) (auto simp: inorder_plug)
  have "rb_rebalance s n = Some (Inr (paint s' m False))" using s'(1,2) t by (simp add: rb_rebalance_def paint_ptr_def deref_def rooted_def)
  moreover have "rb (t_red (fst (paint s' m False))) t" using s'(2,4) paint_root [of "t_red (fst s')" l m r] by (simp add: t rooted_def)
  ultimately show ?thesis using s' t by (intro exI [of _ "paint s' m False"] exI [of _ t]) simp
qed

lemma RB_insert_ok:
  assumes "is_rb cmp s xs" "item \<notin> set xs"
  shows "\<exists>s' n. RB_insert cmp s item = Some (Inr (s', n, \<not> (\<exists>y \<in> set xs. same_key cmp item y))) \<and>
     is_rb cmp s' (spec_insert cmp item xs)"
proof -
  obtain t where t: "weak_order cmp" "sorted_wrt cmp (inorder t)" "shaped s t" "inorder t = xs" "rb (t_red (fst s)) t" "\<not> red_root (t_red (fst s)) t"
    using assms(1) by (auto simp: is_rb_def)
  have "item \<notin> set (inorder t)" using assms(2) t(4) by simp
  with t(1-3) show ?thesis
  proof (cases rule: BinTree_insert_cases)
    case (dup m)
    then show ?thesis using assms(1) t(4) by (auto simp: RB_insert_def RB_insert_at_def BinTree_insert_def spec_insert_def)
  next
    case (new c s1)
    let ?t = "plug (Node Leaf item Leaf) c"
    have io: "inorder ?t = spec_insert cmp item xs" "sorted_wrt cmp (inorder ?t)" using place_split [OF t(1,2) new(2,3)] t(4) by simp_all
    have col: "t_red (fst s1) = t_red (fst s)" using more_red [OF new(5)] .
    have "rooted s1 ?t" using new(4) sorted_distinct [OF t(1) io(2)] by (simp add: rooted_def shaped_def)
    then obtain s' u where u: "rb_rebalance s1 item = Some (Inr s')" "rooted s' u" "inorder u = inorder ?t"
      "rb (t_red (fst s')) u" "\<not> red_root (t_red (fst s')) u" "bt_size (snd s') = bt_size (snd s1)"
      using rb_rebalance_ok [of s1 item c] red_root_path [of "t_red (fst s)" c] t(5,6) new(2) col by auto
    have "is_rb cmp s' (spec_insert cmp item xs)"
      using t(1) io u new(4) unfolding is_rb_def shaped_def rooted_def by (metis (no_types))
    then show ?thesis using new(1) u(1) place_split(3) [OF t(1,2) new(2,3)] t(4)
      by (auto simp: RB_insert_def RB_insert_at_def BinTree_insert_def)
  qed
qed


end
