(* ===== verification/RB_Erase.thy ===== *)
theory RB_Erase
  imports RedBlack
begin

text \<open>
  Erasure from the red-black tree of \<^verbatim>\<open>include/containers/bintree_rb.inl\<close>: the links and the order are kept
  whatever the colours are; the colours are restored when the erased node has at most one child.
\<close>

lemma RB_Unlink_stop:
  "RB_Unlink s node None = Some (Inr (case node of None \<Rightarrow> s | Some n \<Rightarrow> paint s n False))"
  "is_red (fst s) node \<Longrightarrow> RB_Unlink s node (Some p) = Some (Inr (case node of None \<Rightarrow> s | Some n \<Rightarrow> paint s n False))"
  by (simp_all add: RB_Unlink_def unlink_loop.simps [of s node] split: option.splits)

lemma RB_Unlink_next:
  assumes "\<not> is_red (fst s) node" "(if node = t_left (fst s) p then unlink_left s p else unlink_right s p) = Inr (s', q)"
  shows "RB_Unlink s node (Some p) =
     (case q of None \<Rightarrow> Some (Inr (case node of None \<Rightarrow> s' | Some n \<Rightarrow> paint s' n False)) | Some (node', parent') \<Rightarrow> RB_Unlink s' node' parent')"
  using assms by (cases q) (auto simp: RB_Unlink_def unlink_loop.simps [of s node] split: option.splits)

subsection \<open>The cases of the loop\<close>

lemma lift_left_red:
  assumes "rooted s (plug x (L p (Node a w b) # c))" "t_red (fst s) w"
  shows "\<exists>s'. lift_left s p = Inr s' \<and> rooted s' (plug x (L p a # L w b # c)) \<and> t_red (fst s') = (t_red (fst s))(w := False, p := True) \<and>
    bt_size (snd s') = bt_size (snd s)"
  using RB_RotateLeft_ok [of "paint (paint s w False) p True" x p a w b c] assms rooted_links(3) [of s x p "Node a w b" c]
  by (auto simp: lift_left_def paint_ptr_def deref_def is_red_def)

lemma lift_right_red:
  assumes "rooted s (plug x (R (Node a w b) p # c))" "t_red (fst s) w"
  shows "\<exists>s'. lift_right s p = Inr s' \<and> rooted s' (plug x (R b p # R a w # c)) \<and> t_red (fst s') = (t_red (fst s))(w := False, p := True) \<and>
    bt_size (snd s') = bt_size (snd s)"
  using RB_RotateRight_ok [of "paint (paint s w False) p True" a w b p x c] assms rooted_links(2) [of s "Node a w b" p x c]
  by (auto simp: lift_right_def paint_ptr_def deref_def is_red_def)

lemma finish_left_outer:
  assumes r: "rooted s (plug x (L p (Node a w (Node b1 z b2)) # c))" and z: "t_red (fst s) z"
  shows "\<exists>s'. finish_left s p w = Inr (s', Some (bt_root (snd s'), None)) \<and> rooted s' (plug (Node (Node x p a) w (Node b1 z b2)) c) \<and>
    t_red (fst s') = (t_red (fst s))(w := t_red (fst s) p, p := False, z := False) \<and> bt_size (snd s') = bt_size (snd s)"
proof -
  have "rooted s (plug (Node x p (Node a w (Node b1 z b2))) c)" "rooted s (plug (Node a w (Node b1 z b2)) (R x p # c))" using r by simp_all
  note lk = rooted_links(3) [OF this(1)] rooted_links(3) [OF this(2)]
  have "\<exists>s'. RB_RotateLeft (paint (paint (paint s w (t_red (fst s) p)) p False) z False) p = Inr s' \<and> rooted s' (plug (Node (Node x p a) w (Node b1 z b2)) c) \<and>
    t_red (fst s') = (t_red (fst s))(w := t_red (fst s) p, p := False, z := False) \<and> bt_size (snd s') = bt_size (snd s)"
    using RB_RotateLeft_ok [of "paint (paint (paint s w (t_red (fst s) p)) p False) z False" x p a w "Node b1 z b2" c] r by simp
  then show ?thesis using lk z by (auto simp: finish_left_def is_red_def deref_def paint_ptr_def)
qed

lemma finish_left_inner:
  assumes r: "rooted s (plug x (L p (Node (Node a1 y a2) w b) # c))" and y: "\<not> red_root (t_red (fst s)) b"
  shows "\<exists>s'. finish_left s p w = Inr (s', Some (bt_root (snd s'), None)) \<and> rooted s' (plug (Node (Node x p a1) y (Node a2 w b)) c) \<and>
    t_red (fst s') = (t_red (fst s))(y := t_red (fst s) p, p := False, w := False) \<and> bt_size (snd s') = bt_size (snd s)"
proof -
  let ?s = "paint (paint s y False) w True"
  have rw: "rooted s (plug (Node (Node a1 y a2) w b) (R x p # c))" using r by simp
  have d: "p \<noteq> y" "p \<noteq> w" "y \<noteq> w" using r by (auto simp: rooted_def inorder_plug)
  obtain s1 where s1: "RB_RotateRight ?s w = Inr s1" "rooted s1 (plug (Node a1 y (Node a2 w b)) (R x p # c))" "t_red (fst s1) = (t_red (fst s))(y := False, w := True)"
    "bt_size (snd s1) = bt_size (snd s)"
    using RB_RotateRight_ok [of ?s a1 y a2 w b "R x p # c"] rw by auto
  have r1: "rooted s1 (plug (Node x p (Node a1 y (Node a2 w b))) c)" using s1(2) by simp
  note lk = rooted_links [OF rw] rooted_links(3) [OF s1(2)] rooted_links(3) [OF r1]
  let ?t = "paint (paint (paint s1 y (t_red (fst s) p)) p False) w False"
  obtain s' where s': "RB_RotateLeft ?t p = Inr s'" "rooted s' (plug (Node (Node x p a1) y (Node a2 w b)) c)"
    "t_red (fst s') = (t_red (fst s1))(y := t_red (fst s) p, p := False, w := False)" "bt_size (snd s') = bt_size (snd s1)"
    using RB_RotateLeft_ok [of ?t x p a1 y "Node a2 w b" c] r1 by auto
  have "finish_left s p w = Inr (s', Some (bt_root (snd s'), None))"
    using lk y s1(1,3) s'(1) d by (simp add: finish_left_def red_root_is_red deref_def paint_ptr_def)
  then show ?thesis using s' s1(3,4) d by (auto simp: fun_upd_twist)
qed


lemma finish_right_outer:
  assumes r: "rooted s (plug x (R (Node (Node b1 z b2) w a) p # c))" and z: "t_red (fst s) z"
  shows "\<exists>s'. finish_right s p w = Inr (s', Some (bt_root (snd s'), None)) \<and> rooted s' (plug (Node (Node b1 z b2) w (Node a p x)) c) \<and>
    t_red (fst s') = (t_red (fst s))(w := t_red (fst s) p, p := False, z := False) \<and> bt_size (snd s') = bt_size (snd s)"
proof -
  have "rooted s (plug (Node (Node (Node b1 z b2) w a) p x) c)" "rooted s (plug (Node (Node b1 z b2) w a) (L p x # c))" using r by simp_all
  note lk = rooted_links(2) [OF this(1)] rooted_links(2) [OF this(2)]
  have "\<exists>s'. RB_RotateRight (paint (paint (paint s w (t_red (fst s) p)) p False) z False) p = Inr s' \<and> rooted s' (plug (Node (Node b1 z b2) w (Node a p x)) c) \<and>
    t_red (fst s') = (t_red (fst s))(w := t_red (fst s) p, p := False, z := False) \<and> bt_size (snd s') = bt_size (snd s)"
    using RB_RotateRight_ok [of "paint (paint (paint s w (t_red (fst s) p)) p False) z False" "Node b1 z b2" w a p x c] r by simp
  then show ?thesis using lk z by (auto simp: finish_right_def is_red_def deref_def paint_ptr_def)
qed

lemma finish_right_inner:
  assumes r: "rooted s (plug x (R (Node b w (Node a1 y a2)) p # c))" and y: "\<not> red_root (t_red (fst s)) b"
  shows "\<exists>s'. finish_right s p w = Inr (s', Some (bt_root (snd s'), None)) \<and> rooted s' (plug (Node (Node b w a1) y (Node a2 p x)) c) \<and>
    t_red (fst s') = (t_red (fst s))(y := t_red (fst s) p, p := False, w := False) \<and> bt_size (snd s') = bt_size (snd s)"
proof -
  let ?s = "paint (paint s y False) w True"
  have rw: "rooted s (plug (Node b w (Node a1 y a2)) (L p x # c))" using r by simp
  have d: "p \<noteq> y" "p \<noteq> w" "y \<noteq> w" using r by (auto simp: rooted_def inorder_plug)
  obtain s1 where s1: "RB_RotateLeft ?s w = Inr s1" "rooted s1 (plug (Node (Node b w a1) y a2) (L p x # c))" "t_red (fst s1) = (t_red (fst s))(y := False, w := True)"
    "bt_size (snd s1) = bt_size (snd s)"
    using RB_RotateLeft_ok [of ?s b w a1 y a2 "L p x # c"] rw by auto
  have r1: "rooted s1 (plug (Node (Node (Node b w a1) y a2) p x) c)" using s1(2) by simp
  note lk = rooted_links [OF rw] rooted_links(2) [OF s1(2)] rooted_links(2) [OF r1]
  let ?t = "paint (paint (paint s1 y (t_red (fst s) p)) p False) w False"
  obtain s' where s': "RB_RotateRight ?t p = Inr s'" "rooted s' (plug (Node (Node b w a1) y (Node a2 p x)) c)"
    "t_red (fst s') = (t_red (fst s1))(y := t_red (fst s) p, p := False, w := False)" "bt_size (snd s') = bt_size (snd s1)"
    using RB_RotateRight_ok [of ?t "Node b w a1" y a2 p x c] r1 by auto
  have "finish_right s p w = Inr (s', Some (bt_root (snd s'), None))"
    using lk y s1(1,3) s'(1) d by (simp add: finish_right_def red_root_is_red deref_def paint_ptr_def)
  then show ?thesis using s' s1(3,4) d by (auto simp: fun_upd_twist)
qed


subsection \<open>The loop\<close>

text \<open>A subtree that has lost one black node on every path; its root and a child may both be red.\<close>

fun rb_below :: "(nat \<Rightarrow> bool) \<Rightarrow> nat tree \<Rightarrow> bool" where
  "rb_below col Leaf \<longleftrightarrow> True"
| "rb_below col (Node l n r) \<longleftrightarrow> rb col l \<and> rb col r \<and> bh col l = bh col r"

lemma rb_below_black: "\<not> red_root col t \<Longrightarrow> rb_below col t = rb col t"
  by (cases t) auto

lemma rb_below: "rb col t \<Longrightarrow> rb_below col t"
  by (cases t) auto

definition hole :: "rb_state \<Rightarrow> nat tree \<Rightarrow> path \<Rightarrow> bool" where
  "hole s x c \<longleftrightarrow> rb_below (t_red (fst s)) x \<and> rb_path (t_red (fst s)) (Suc (bh (t_red (fst s)) x)) False c \<and> top_black (t_red (fst s)) c"

definition paint_black :: "rb_state \<Rightarrow> ptr \<Rightarrow> rb_state" where
  "paint_black s q = (case q of None \<Rightarrow> s | Some n \<Rightarrow> paint s n False)"

lemma paint_black_simps [simp]:
  "rooted (paint_black s q) t = rooted s t" "snd (paint_black s q) = snd s"
  by (auto simp: paint_black_def split: option.splits)

lemmas RB_Unlink_stops = RB_Unlink_stop [folded paint_black_def]
lemmas RB_Unlink_step = RB_Unlink_next [folded paint_black_def]

lemma paint_black_root:
  assumes "rooted s t" "rb_below (t_red (fst s)) t"
  shows "rb (t_red (fst (paint_black s (rt t)))) t \<and> \<not> red_root (t_red (fst (paint_black s (rt t)))) t"
  using assms by (cases t) (auto simp: paint_black_def rooted_def)

lemma top_black_root: "c \<noteq> [] \<Longrightarrow> top_black col c \<Longrightarrow> \<not> red_root col (plug t c)"
  by (induction t c rule: plug.induct) (auto split: if_splits)

text \<open>What the loop delivers.\<close>

definition relinked :: "rb_state \<Rightarrow> nat tree \<Rightarrow> path \<Rightarrow> rb_state result option \<Rightarrow> bool" where
  "relinked s x c res \<longleftrightarrow> (\<exists>s' t. res = Some (Inr s') \<and> rooted s' t \<and> inorder t = inorder (plug x c) \<and> bt_size (snd s') = bt_size (snd s) \<and>
     (hole s x c \<longrightarrow> rb (t_red (fst s')) t \<and> \<not> red_root (t_red (fst s')) t))"

lemma relinkedI:
  assumes "res = Some (Inr s')" "rooted s' t" "inorder t = inorder (plug x c)" "bt_size (snd s') = bt_size (snd s)"
    "hole s x c \<Longrightarrow> rb (t_red (fst s')) t \<and> \<not> red_root (t_red (fst s')) t"
  shows "relinked s x c res"
  using assms unfolding relinked_def by blast

lemma relinked_top:
  assumes "rooted s x"
  shows "relinked s x [] (RB_Unlink s (rt x) None)"
  by (rule relinkedI [of _ "paint_black s (rt x)" x]) (use assms paint_black_root [OF assms] in \<open>auto simp: RB_Unlink_stops hole_def\<close>)

lemma relinked_red:
  assumes "rooted s (plug x c)" "red_root (t_red (fst s)) x" "up c = Some p"
  shows "relinked s x c (RB_Unlink s (rt x) (Some p))"
proof -
  obtain x1 n x2 where x: "x = Node x1 n x2" using assms(2) by (cases x) auto
  have n: "n \<notin> nodes_path c" "n \<notin> set_tree x1" "n \<notin> set_tree x2" using assms(1) by (auto simp: x rooted_def inorder_plug set_path)
  have "c \<noteq> []" using assms(3) by auto
  then have "rb ((t_red (fst s))(n := False)) (plug x c) \<and> \<not> red_root ((t_red (fst s))(n := False)) (plug x c)" if "hole s x c"
    using that assms(2,3) n top_black_root [of c "(t_red (fst s))(n := False)" x] by (auto simp: hole_def rb_plug x)
  then show ?thesis
    by (intro relinkedI [of _ "paint_black s (rt x)" "plug x c"])
      (use assms in \<open>auto simp: RB_Unlink_stops red_root_is_red x paint_black_def is_red_def\<close>)
qed

lemma relinked_break:
  assumes "rooted s' (plug x c')" "inorder (plug x c') = inorder (plug x c)" "bt_size (snd s') = bt_size (snd s)" "\<not> hole s x c"
  shows "relinked s x c (Some (Inr (paint_black s' (rt x))))"
  by (rule relinkedI [of _ "paint_black s' (rt x)" "plug x c'"]) (use assms in simp_all)

text \<open>The last rotation restores the colours.\<close>

lemma relinked_finish:
  assumes "rooted s' (plug t' c')" "inorder (plug t' c') = inorder (plug x c)" "bt_size (snd s') = bt_size (snd s)"
    "hole s x c \<Longrightarrow> rb (t_red (fst s')) t' \<and> rb_path (t_red (fst s')) (bh (t_red (fst s')) t') (red_root (t_red (fst s')) t') c'"
  shows "relinked s x c (RB_Unlink s' (bt_root (snd s')) None)"
proof -
  have rb: "rb (t_red (fst (paint_black s' (rt (plug t' c'))))) (plug t' c') \<and> \<not> red_root (t_red (fst (paint_black s' (rt (plug t' c'))))) (plug t' c')"
    if "hole s x c" using assms(4) [OF that] by (intro paint_black_root [OF assms(1)] rb_below) (simp add: rb_plug)
  have "bt_root (snd s') = rt (plug t' c')" using assms(1) by (simp add: rooted_def)
  then show ?thesis
    by (intro relinkedI [of _ "paint_black s' (rt (plug t' c'))" "plug t' c'"])
      (use assms(2,3) rb assms(1) in \<open>simp_all add: RB_Unlink_stops\<close>)
qed


lemma settle_left_ok:
  assumes r: "rooted s (plug x (L p u # c))" and x: "\<not> red_root (t_red (fst s)) x" and u: "hole s x (L p u # c) \<Longrightarrow> \<not> red_root (t_red (fst s)) u"
    and IH: "\<And>s'. rooted s' (plug (Node x p u) c) \<Longrightarrow> t_red (fst s') p = t_red (fst s) p \<Longrightarrow> relinked s' (Node x p u) c (RB_Unlink s' (Some p) (up c))"
    and st: "RB_Unlink s0 (rt x) (Some p) =
      (case settle_left s p of Inr (s', None) \<Rightarrow> Some (Inr (paint_black s' (rt x))) | Inr (s', Some (n', p')) \<Rightarrow> RB_Unlink s' n' p' | Inl e \<Rightarrow> Some (Inl e))"
  shows "relinked s x (L p u # c) (RB_Unlink s0 (rt x) (Some p))"
proof -
  let ?col = "t_red (fst s)"
  have rp: "rooted s (plug (Node x p u) c)" using r by simp
  note lk = rooted_links [OF rp]
  show ?thesis
  proof (cases u)
    case Leaf
    then have "RB_Unlink s0 (rt x) (Some p) = Some (Inr (paint_black s (rt x)))" using lk(3) st by (simp add: settle_left_def)
    then show ?thesis using relinked_break [OF r, of "L p u # c" s] Leaf by (simp add: hole_def)
  next
    case (Node a w b)
    have rw: "rooted s (plug (Node a w b) (R x p # c))" using r Node by simp
    note lw = rooted_links [OF rw]
    have pw: "p \<noteq> w" using r Node by (auto simp: rooted_def inorder_plug)
    consider (black) "\<not> red_root ?col a" "\<not> red_root ?col b" | (outer) "red_root ?col b" | (inner) "red_root ?col a" "\<not> red_root ?col b" by blast
    then show ?thesis
    proof cases
      case black
      let ?s = "paint s w True"
      have "RB_Unlink s0 (rt x) (Some p) = RB_Unlink ?s (Some p) (up c)"
        using lk lw black Node st by (simp add: settle_left_def red_root_is_red)
      moreover have "relinked ?s (Node x p u) c (RB_Unlink ?s (Some p) (up c))" using rp pw by (intro IH) simp_all
      moreover have "hole ?s (Node x p u) c" if "hole s x (L p u # c)"
        using that r x u [OF that] black
        by (auto simp: hole_def rb_below_black Node rooted_def inorder_plug set_path split: if_splits intro: rb_path_black [of _ _ True])
      ultimately show ?thesis by (auto simp: relinked_def)
    next
      case outer
      then obtain b1 z b2 where b: "b = Node b1 z b2" by (cases b) auto
      obtain s' where s': "finish_left s p w = Inr (s', Some (bt_root (snd s'), None))" "rooted s' (plug (Node (Node x p a) w b) c)"
        "t_red (fst s') = ?col(w := ?col p, p := False, z := False)" "bt_size (snd s') = bt_size (snd s)"
        using finish_left_outer [of s x p a w b1 z b2 c] r outer Node b by auto
      have eq: "RB_Unlink s0 (rt x) (Some p) = RB_Unlink s' (bt_root (snd s')) None"
        using lk lw outer Node st s'(1) by (simp add: settle_left_def red_root_is_red)
      have inv: "rb (t_red (fst s')) (Node (Node x p a) w b) \<and> rb_path (t_red (fst s')) (bh (t_red (fst s')) (Node (Node x p a) w b)) (red_root (t_red (fst s')) (Node (Node x p a) w b)) c"
        if "hole s x (L p u # c)" using that r x u [OF that] outer
        by (auto simp: hole_def rb_below_black s'(3) Node b rooted_def inorder_plug set_path split: if_splits)
      have io: "inorder (plug (Node (Node x p a) w b) c) = inorder (plug x (L p u # c))" by (simp add: Node b inorder_plug)
      show ?thesis unfolding eq by (rule relinked_finish [OF s'(2) io s'(4) inv])
    next
      case inner
      then obtain a1 y a2 where a: "a = Node a1 y a2" by (cases a) auto
      obtain s' where s': "finish_left s p w = Inr (s', Some (bt_root (snd s'), None))" "rooted s' (plug (Node (Node x p a1) y (Node a2 w b)) c)"
        "t_red (fst s') = ?col(y := ?col p, p := False, w := False)" "bt_size (snd s') = bt_size (snd s)"
        using finish_left_inner [of s x p a1 y a2 w b c] r inner Node a by auto
      have eq: "RB_Unlink s0 (rt x) (Some p) = RB_Unlink s' (bt_root (snd s')) None"
        using lk lw inner Node st s'(1) by (simp add: settle_left_def red_root_is_red)
      have inv: "rb (t_red (fst s')) (Node (Node x p a1) y (Node a2 w b)) \<and> rb_path (t_red (fst s')) (bh (t_red (fst s')) (Node (Node x p a1) y (Node a2 w b))) (red_root (t_red (fst s')) (Node (Node x p a1) y (Node a2 w b))) c"
        if "hole s x (L p u # c)" using that r x u [OF that] inner
        by (auto simp: hole_def rb_below_black s'(3) Node a rooted_def inorder_plug set_path split: if_splits)
      have io: "inorder (plug (Node (Node x p a1) y (Node a2 w b)) c) = inorder (plug x (L p u # c))" by (simp add: Node a inorder_plug)
      show ?thesis unfolding eq by (rule relinked_finish [OF s'(2) io s'(4) inv])
    qed
  qed
qed

lemma settle_right_ok:
  assumes r: "rooted s (plug x (R u p # c))" and x: "\<not> red_root (t_red (fst s)) x" and u: "hole s x (R u p # c) \<Longrightarrow> \<not> red_root (t_red (fst s)) u"
    and IH: "\<And>s'. rooted s' (plug (Node u p x) c) \<Longrightarrow> t_red (fst s') p = t_red (fst s) p \<Longrightarrow> relinked s' (Node u p x) c (RB_Unlink s' (Some p) (up c))"
    and st: "RB_Unlink s0 (rt x) (Some p) =
      (case settle_right s p of Inr (s', None) \<Rightarrow> Some (Inr (paint_black s' (rt x))) | Inr (s', Some (n', p')) \<Rightarrow> RB_Unlink s' n' p' | Inl e \<Rightarrow> Some (Inl e))"
  shows "relinked s x (R u p # c) (RB_Unlink s0 (rt x) (Some p))"
proof -
  let ?col = "t_red (fst s)"
  have rp: "rooted s (plug (Node u p x) c)" using r by simp
  note lk = rooted_links [OF rp]
  show ?thesis
  proof (cases u)
    case Leaf
    then have "RB_Unlink s0 (rt x) (Some p) = Some (Inr (paint_black s (rt x)))" using lk(2) st by (simp add: settle_right_def)
    then show ?thesis using relinked_break [OF r, of "R u p # c" s] Leaf by (simp add: hole_def)
  next
    case (Node b w a)
    have rw: "rooted s (plug (Node b w a) (L p x # c))" using r Node by simp
    note lw = rooted_links [OF rw]
    have pw: "p \<noteq> w" using r Node by (auto simp: rooted_def inorder_plug)
    consider (black) "\<not> red_root ?col a" "\<not> red_root ?col b" | (outer) "red_root ?col b" | (inner) "red_root ?col a" "\<not> red_root ?col b" by blast
    then show ?thesis
    proof cases
      case black
      let ?s = "paint s w True"
      have "RB_Unlink s0 (rt x) (Some p) = RB_Unlink ?s (Some p) (up c)"
        using lk lw black Node st by (simp add: settle_right_def red_root_is_red)
      moreover have "relinked ?s (Node u p x) c (RB_Unlink ?s (Some p) (up c))" using rp pw by (intro IH) simp_all
      moreover have "hole ?s (Node u p x) c" if "hole s x (R u p # c)"
        using that r x u [OF that] black
        by (auto simp: hole_def rb_below_black Node rooted_def inorder_plug set_path split: if_splits intro: rb_path_black [of _ _ True])
      ultimately show ?thesis by (auto simp: relinked_def)
    next
      case outer
      then obtain b1 z b2 where b: "b = Node b1 z b2" by (cases b) auto
      obtain s' where s': "finish_right s p w = Inr (s', Some (bt_root (snd s'), None))" "rooted s' (plug (Node b w (Node a p x)) c)"
        "t_red (fst s') = ?col(w := ?col p, p := False, z := False)" "bt_size (snd s') = bt_size (snd s)"
        using finish_right_outer [of s x b1 z b2 w a p c] r outer Node b by auto
      have eq: "RB_Unlink s0 (rt x) (Some p) = RB_Unlink s' (bt_root (snd s')) None"
        using lk lw outer Node st s'(1) by (simp add: settle_right_def red_root_is_red)
      have inv: "rb (t_red (fst s')) (Node b w (Node a p x)) \<and> rb_path (t_red (fst s')) (bh (t_red (fst s')) (Node b w (Node a p x))) (red_root (t_red (fst s')) (Node b w (Node a p x))) c"
        if "hole s x (R u p # c)" using that r x u [OF that] outer
        by (auto simp: hole_def rb_below_black s'(3) Node b rooted_def inorder_plug set_path split: if_splits)
      have io: "inorder (plug (Node b w (Node a p x)) c) = inorder (plug x (R u p # c))" by (simp add: Node b inorder_plug)
      show ?thesis unfolding eq by (rule relinked_finish [OF s'(2) io s'(4) inv])
    next
      case inner
      then obtain a1 y a2 where a: "a = Node a1 y a2" by (cases a) auto
      obtain s' where s': "finish_right s p w = Inr (s', Some (bt_root (snd s'), None))" "rooted s' (plug (Node (Node b w a1) y (Node a2 p x)) c)"
        "t_red (fst s') = ?col(y := ?col p, p := False, w := False)" "bt_size (snd s') = bt_size (snd s)"
        using finish_right_inner [of s x b w a1 y a2 p c] r inner Node a by auto
      have eq: "RB_Unlink s0 (rt x) (Some p) = RB_Unlink s' (bt_root (snd s')) None"
        using lk lw inner Node st s'(1) by (simp add: settle_right_def red_root_is_red)
      have inv: "rb (t_red (fst s')) (Node (Node b w a1) y (Node a2 p x)) \<and> rb_path (t_red (fst s')) (bh (t_red (fst s')) (Node (Node b w a1) y (Node a2 p x))) (red_root (t_red (fst s')) (Node (Node b w a1) y (Node a2 p x))) c"
        if "hole s x (R u p # c)" using that r x u [OF that] inner
        by (auto simp: hole_def rb_below_black s'(3) Node a rooted_def inorder_plug set_path split: if_splits)
      have io: "inorder (plug (Node (Node b w a1) y (Node a2 p x)) c) = inorder (plug x (R u p # c))" by (simp add: Node a inorder_plug)
      show ?thesis unfolding eq by (rule relinked_finish [OF s'(2) io s'(4) inv])
    qed
  qed
qed


lemma RB_Unlink_via:
  assumes "\<not> is_red (fst s0) node" "(if node = t_left (fst s0) p then unlink_left s0 p else unlink_right s0 p) = res"
  shows "RB_Unlink s0 node (Some p) =
      (case res of Inr (s', None) \<Rightarrow> Some (Inr (paint_black s' node)) | Inr (s', Some (n', p')) \<Rightarrow> RB_Unlink s' n' p' | Inl e \<Rightarrow> Some (Inl e))"
proof (cases res)
  case (Inr r)
  then show ?thesis using RB_Unlink_step [OF assms(1), of p "fst r" "snd r"] assms(2) by (auto split: prod.splits option.splits)
qed (use assms in \<open>simp add: RB_Unlink_def unlink_loop.simps [of s0 node]\<close>)


lemma unlink_left_ok:
  assumes r: "rooted s (plug x (L p u # c))" and x: "\<not> red_root (t_red (fst s)) x"
    and IH: "\<And>s' y. rooted s' (plug y c) \<Longrightarrow> relinked s' y c (RB_Unlink s' (rt y) (up c))"
  shows "relinked s x (L p u # c) (RB_Unlink s (rt x) (Some p))"
proof -
  have lk: "t_left (fst s) p = rt x" "t_right (fst s) p = rt u" using r by (simp_all add: rooted_def linked_plug)
  have via: "RB_Unlink s (rt x) (Some p) = (case unlink_left s p of Inr (s', None) \<Rightarrow> Some (Inr (paint_black s' (rt x)))
      | Inr (s', Some (n', p')) \<Rightarrow> RB_Unlink s' n' p' | Inl e \<Rightarrow> Some (Inl e))"
    by (rule RB_Unlink_via) (use lk x in \<open>simp_all add: red_root_is_red\<close>)
  show ?thesis
  proof (cases "red_root (t_red (fst s)) u")
    case False
    then have eq: "unlink_left s p = settle_left s p" using lk by (simp add: unlink_left_def lift_left_def red_root_is_red)
    show ?thesis by (rule settle_left_ok [OF r x _ _ via [unfolded eq]]) (use False IH [of _ "Node x p u"] in simp_all)
  next
    case True
    then obtain a w b where u: "u = Node a w b" by (cases u) auto
    then obtain s' where s': "lift_left s p = Inr s'" "rooted s' (plug x (L p a # L w b # c))"
      "t_red (fst s') = (t_red (fst s))(w := False, p := True)" "bt_size (snd s') = bt_size (snd s)"
      using lift_left_red [of s x p a w b c] r True by auto
    have d: "p \<notin> set_tree x" "w \<notin> set_tree x" "p \<noteq> w" "p \<notin> set_tree a" "w \<notin> set_tree a" "p \<notin> set_tree b" "w \<notin> set_tree b"
      "p \<notin> nodes_path c" "w \<notin> nodes_path c" using r u by (auto simp: rooted_def inorder_plug set_path)
    have eq: "unlink_left s p = settle_left s' p" using s'(1) by (simp add: unlink_left_def)
    have h: "hole s' x (L p a # L w b # c)" "\<not> red_root (t_red (fst s')) a" if "hole s x (L p u # c)"
      using that True x d by (auto simp: hole_def rb_below_black s'(3) u split: if_splits)
    have h': "\<not> red_root (t_red (fst s')) a" if "hole s' x (L p a # L w b # c)"
      using that d by (auto simp: hole_def s'(3))
    have p: "t_red (fst s') p" using s'(3) by simp
    have "relinked s' x (L p a # L w b # c) (RB_Unlink s (rt x) (Some p))"
      by (rule settle_left_ok [OF s'(2) _ h' _ via [unfolded eq]]) (use x d p in \<open>auto simp: s'(3) intro: relinked_red [of _ "Node x p a", simplified]\<close>)
    then show ?thesis using h(1) s'(4) unfolding relinked_def by (auto simp: inorder_plug u)
  qed
qed

lemma unlink_right_ok:
  assumes r: "rooted s (plug x (R u p # c))" and x: "\<not> red_root (t_red (fst s)) x"
    and IH: "\<And>s' y. rooted s' (plug y c) \<Longrightarrow> relinked s' y c (RB_Unlink s' (rt y) (up c))"
    and ne: "rt x \<noteq> rt u"
  shows "relinked s x (R u p # c) (RB_Unlink s (rt x) (Some p))"
proof -
  have lk: "t_left (fst s) p = rt u" "t_right (fst s) p = rt x" using r by (simp_all add: rooted_def linked_plug)
  have via: "RB_Unlink s (rt x) (Some p) = (case unlink_right s p of Inr (s', None) \<Rightarrow> Some (Inr (paint_black s' (rt x)))
      | Inr (s', Some (n', p')) \<Rightarrow> RB_Unlink s' n' p' | Inl e \<Rightarrow> Some (Inl e))"
    by (rule RB_Unlink_via) (use lk x ne in \<open>simp_all add: red_root_is_red\<close>)
  show ?thesis
  proof (cases "red_root (t_red (fst s)) u")
    case False
    then have eq: "unlink_right s p = settle_right s p" using lk by (simp add: unlink_right_def lift_right_def red_root_is_red)
    show ?thesis by (rule settle_right_ok [OF r x _ _ via [unfolded eq]]) (use False IH [of _ "Node u p x"] in simp_all)
  next
    case True
    then obtain b w a where u: "u = Node b w a" by (cases u) auto
    then obtain s' where s': "lift_right s p = Inr s'" "rooted s' (plug x (R a p # R b w # c))"
      "t_red (fst s') = (t_red (fst s))(w := False, p := True)" "bt_size (snd s') = bt_size (snd s)"
      using lift_right_red [of s x b w a p c] r True by auto
    have d: "p \<notin> set_tree x" "w \<notin> set_tree x" "p \<noteq> w" "p \<notin> set_tree a" "w \<notin> set_tree a" "p \<notin> set_tree b" "w \<notin> set_tree b"
      "p \<notin> nodes_path c" "w \<notin> nodes_path c" using r u by (auto simp: rooted_def inorder_plug set_path)
    have eq: "unlink_right s p = settle_right s' p" using s'(1) by (simp add: unlink_right_def)
    have h: "hole s' x (R a p # R b w # c)" "\<not> red_root (t_red (fst s')) a" if "hole s x (R u p # c)"
      using that True x d by (auto simp: hole_def rb_below_black s'(3) u split: if_splits)
    have h': "\<not> red_root (t_red (fst s')) a" if "hole s' x (R a p # R b w # c)"
      using that d by (auto simp: hole_def s'(3))
    have p: "t_red (fst s') p" using s'(3) by simp
    have "relinked s' x (R a p # R b w # c) (RB_Unlink s (rt x) (Some p))"
      by (rule settle_right_ok [OF s'(2) _ h' _ via [unfolded eq]]) (use x d p in \<open>auto simp: s'(3) intro: relinked_red [of _ "Node a p x", simplified]\<close>)
    then show ?thesis using h(1) s'(4) unfolding relinked_def by (auto simp: inorder_plug u)
  qed
qed

lemma RB_Unlink_ok: "rooted s (plug x c) \<Longrightarrow> relinked s x c (RB_Unlink s (rt x) (up c))"
proof (induction c arbitrary: s x)
  case Nil
  then show ?case using relinked_top by simp
next
  case (Cons st c)
  show ?case
  proof (cases "red_root (t_red (fst s)) x")
    case True
    then show ?thesis using relinked_red [OF Cons.prems] by (cases st) auto
  next
    case x: False
    show ?thesis
    proof (cases st)
      case (L p u)
      then show ?thesis using unlink_left_ok [OF _ x Cons.IH] Cons.prems by simp
    next
      case (R u p)
      show ?thesis
      proof (cases "rt x = rt u")
        case True
        have lk: "t_left (fst s) p = rt u" "t_right (fst s) p = rt x" using Cons.prems R by (simp_all add: rooted_def linked_plug)
        have leaf: "u = Leaf" "x = Leaf"
          using Cons.prems True R by (cases u; cases x; auto simp: rooted_def inorder_plug)+
        then have "unlink_left s p = Inr (s, None)" using lk by (simp add: unlink_left_def lift_left_def settle_left_def is_red_def)
        then have "RB_Unlink s (rt x) (Some p) = Some (Inr (paint_black s (rt x)))"
          using RB_Unlink_via [of s "rt x" p "Inr (s, None)"] leaf lk by (simp add: is_red_def)
        then show ?thesis using relinked_break [OF Cons.prems, of "st # c" s] leaf R by (simp add: hole_def)
      next
        case False
        then show ?thesis using unlink_right_ok [OF _ x Cons.IH] Cons.prems R by simp
      qed
    qed
  qed
qed


subsection \<open>Erasing a node\<close>

lemma swap_successor_ok:
  assumes r: "rooted s (plug (Node l n r) c)"
  shows "\<exists>s' l' r' c'. swap_successor s n = Some s' \<and> rooted s' (plug (Node l' n r') c') \<and> (l' = Leaf \<or> r' = Leaf) \<and>
     before c' @ inorder l' @ inorder r' @ after c' = before c @ inorder l @ inorder r @ after c \<and> bt_size (snd s') = bt_size (snd s) \<and>
     (l = Leaf \<or> r = Leaf \<longrightarrow> s' = s \<and> l' = l \<and> r' = r \<and> c' = c)"
proof (cases "l = Leaf \<or> r = Leaf")
  case True
  then have "swap_successor s n = Some s" using rooted_links [OF r] by (auto simp: swap_successor_def split: option.splits)
  then show ?thesis using r True by blast
next
  case False
  define y where "y = hd (inorder r)"
  obtain r' d where rd: "r = plug (Node Leaf y r') d" and bd: "before d = []" using leftmost_focus [of r] False by (auto simp: y_def)
  let ?c = "d @ R l y # c"
  have io: "inorder r = y # inorder r' @ after d" using bd by (simp add: rd inorder_plug)
  have ds: "distinct (before c @ inorder l @ n # y # inorder r' @ after d @ after c)" using r io by (simp add: rooted_def inorder_plug)
  then have ne: "n \<noteq> y" "n \<notin> nodes_path c" "y \<notin> nodes_path c" "n \<notin> nodes_path d" "y \<notin> nodes_path d" "n \<notin> set_tree l" "y \<notin> set_tree l"
    "n \<notin> set_tree r'" "y \<notin> set_tree r'" by (auto simp: set_path bd)
  have m: "map_tree (exch n y) (plug (Node l n r) c) = plug (Node Leaf n r') ?c"
  proof -
    have "map_tree (exch n y) l = l" "map_tree (exch n y) r' = r'" by (rule map_tree_id; use ne in \<open>auto simp: exch_def\<close>)+
    moreover have "map_tree (exch n y) r = plug (map_tree (exch n y) (Node Leaf y r')) d"
      unfolding rd by (rule map_plug_id) (use ne in \<open>auto simp: exch_def\<close>)
    moreover have "map_tree (exch n y) (plug (Node l n r) c) = plug (map_tree (exch n y) (Node l n r)) c"
      by (rule map_plug_id) (use ne in \<open>auto simp: exch_def\<close>)
    ultimately show ?thesis by (simp add: plug_append)
  qed
  have lk: "linked (fst s) None (plug (Node l n r) c)" "bt_root (snd s) = rt (plug (Node l n r) c)" using r by (simp_all add: rooted_def)
  have mem: "n \<in> set_tree (plug (Node l n r) c)" "y \<in> set_tree (plug (Node l n r) c)" by (simp_all add: set_plug rd)
  have "linked (exchange_nodes (fst s) n y) None (plug (Node Leaf n r') ?c)"
    using exchange_ok [OF lk(1) _ mem ne(1)] r unfolding m by (simp add: rooted_def)
  moreover obtain rn ln where rn: "rt r = Some rn" "rt l = Some ln" using False by (cases "rt r"; cases "rt l") auto
  moreover have "leftmost (fst s) rn = Some y" using leftmost_hd [OF _ rn(1)] rooted_links(5) [OF r] by (simp add: y_def)
  moreover have "rt (plug (Node Leaf n r') ?c) = (if c = [] then Some y else bt_root (snd s))"
    using lk(2) root_of_step [of c] by (auto simp: plug_append rt_plug)
  moreover have "distinct (inorder (plug (Node Leaf n r') ?c))" using ds by (auto simp: inorder_plug before_append bd)
  ultimately show ?thesis using rooted_links [OF r] False
    by (intro exI [of _ "(RB_Swap (fst s) n y, if c = [] then (snd s)\<lparr> bt_root := Some y \<rparr> else snd s)"] exI [of _ Leaf] exI [of _ r'] exI [of _ ?c])
      (simp add: swap_successor_def rooted_def RB_Swap_def inorder_plug before_append bd io)
qed

lemma bypass_ok:
  assumes r: "rooted s (plug (Node l n r) c)" and x: "x = (if l = Leaf then r else l)" "l = Leaf \<or> r = Leaf"
  shows "\<exists>s'. bypass s n = (s', rt x) \<and> rooted s' (plug x c) \<and> t_red (fst s') = t_red (fst s) \<and> bt_size (snd s') = bt_size (snd s) \<and>
    t_parent (fst s') n = up c"
proof -
  note lk = rooted_links [OF r]
  have d: "distinct (before c @ inorder x @ after c)" "n \<notin> set_tree x" "n \<notin> nodes_path c"
    using r x by (auto simp: rooted_def inorder_plug set_path split: if_splits)
  let ?h = "case rt x of Some m \<Rightarrow> set_parent (fst s) m (up c) | None \<Rightarrow> fst s"
  have n: "t_parent ?h n = up c" using lk(1) d(2) by (auto split: option.splits dest: rt_mem)
  have left: "t_left ?h q = t_left (fst s) q" for q by (auto split: option.splits)
  have rep: "replace_child (?h, snd s) (up c) n (rt x) = (set_child ?h c (rt x), if c = [] then (snd s)\<lparr> bt_root := rt x \<rparr> else snd s)"
    by (rule replace_child_path [OF lk(6) d(3)]) (rule left)
  have xp: "(if t_left (fst s) n \<noteq> None then t_left (fst s) n else t_right (fst s) n) = rt x" using lk x by auto
  have eq: "bypass s n = ((set_child ?h c (rt x), if c = [] then (snd s)\<lparr> bt_root := rt x \<rparr> else snd s), rt x)"
    unfolding bypass_def Let_def xp lk(1) n rep ..
  have "linked (fst s) (Some n) x" using lk x by auto
  from graft [OF this lk(6) d(1)] have "linked (set_child ?h c (rt x)) None (plug x c)"
    by (cases "rt x") (simp_all add: set_child_set_parent)
  moreover have "bt_root (if c = [] then (snd s)\<lparr> bt_root := rt x \<rparr> else snd s) = rt (plug x c)"
    using r root_of_step [of c] by (auto simp: rooted_def rt_plug)
  moreover have "t_red (set_child ?h c (rt x)) = t_red (fst s)" by (auto split: option.splits)
  moreover have "t_parent (set_child ?h c (rt x)) n = up c" using n by simp
  ultimately show ?thesis using eq d(1) by (auto simp: rooted_def inorder_plug)
qed


text \<open>The colours after a node with at most one child is taken out of the tree.\<close>

lemma bypass_colours:
  assumes "rb col (plug (Node l n r) c)" "\<not> red_root col (plug (Node l n r) c)" "x = (if l = Leaf then r else l)" "l = Leaf \<or> r = Leaf"
    "n \<notin> nodes_path c"
  shows "\<not> col n \<Longrightarrow> rb_below col x \<and> rb_path col (Suc (bh col x)) False c \<and> top_black col c"
    "col n \<Longrightarrow> rb col (plug x c) \<and> \<not> red_root col (plug x c)"
proof -
  have b: "rb col (Node l n r)" "rb_path col (bh col l + (if col n then 0 else 1)) (col n) c"
    using assms(1) by (auto simp: rb_plug)
  have x: "rb col x" "bh col x = bh col l" "col n \<Longrightarrow> \<not> red_root col x" using assms(3,4) b(1) by auto
  have root: "c \<noteq> [] \<Longrightarrow> red_root col (plug t c) = red_root col (plug u c)" for t u
    by (induction t c arbitrary: u rule: plug.induct) (auto, (metis plug.simps(1) red_root.simps(2))+)
  have top: "\<not> red_root col (plug t c) \<Longrightarrow> c \<noteq> [] \<Longrightarrow> top_black col c" for t by (induction t c rule: plug.induct) auto
  show "\<not> col n \<Longrightarrow> rb_below col x \<and> rb_path col (Suc (bh col x)) False c \<and> top_black col c"
    using x b(2) rb_below [of col x] top [OF assms(2)] by (cases "c = []") auto
  show "col n \<Longrightarrow> rb col (plug x c) \<and> \<not> red_root col (plug x c)"
    using x b(2) assms(2) root [of x "Node l n r"] rb_path_black [of col "bh col l" True c] by (cases "c = []") (auto simp: rb_plug)
qed

lemma RB_erase_node:
  assumes bst: "is_bst cmp s xs" and n: "n \<in> set xs"
  shows "\<exists>s'. RB_erase_at s (Some n) = Some (Inr (s', Some n)) \<and> is_bst cmp s' (remove1 n xs) \<and>
    (is_rb cmp s xs \<and> (t_left (fst s) n = None \<or> t_right (fst s) n = None) \<longrightarrow> is_rb cmp s' (remove1 n xs))"
proof -
  obtain t where t: "inorder t = xs" "shaped s t" and ord: "weak_order cmp" and srt: "sorted_wrt cmp xs" using bst by (auto simp: is_bst_def)
  have dx: "distinct xs" by (rule sorted_distinct [OF ord srt])
  obtain l r c where f: "t = plug (Node l n r) c" using focus_ex n t(1) set_inorder by metis
  have rs: "rooted s (plug (Node l n r) c)" "bt_size (snd s) = length xs" using t dx f by (auto simp: shaped_def rooted_def)
  obtain s1 l1 r1 c1 where s1: "swap_successor s n = Some s1" "rooted s1 (plug (Node l1 n r1) c1)" "l1 = Leaf \<or> r1 = Leaf"
    "before c1 @ inorder l1 @ inorder r1 @ after c1 = before c @ inorder l @ inorder r @ after c" "bt_size (snd s1) = bt_size (snd s)"
    "l = Leaf \<or> r = Leaf \<longrightarrow> s1 = s \<and> l1 = l \<and> r1 = r \<and> c1 = c"
    using swap_successor_ok [OF rs(1)] by blast
  define x where "x = (if l1 = Leaf then r1 else l1)"
  obtain s2 where s2: "bypass s1 n = (s2, rt x)" "rooted s2 (plug x c1)" "t_red (fst s2) = t_red (fst s1)" "bt_size (snd s2) = bt_size (snd s1)"
    "t_parent (fst s2) n = up c1"
    using bypass_ok [OF s1(2) x_def s1(3)] by blast
  have xs: "remove1 n xs = inorder (plug x c1)"
    using remove1_middle [of n "before c @ inorder l" "inorder r @ after c"] dx t(1) s1(3,4) by (auto simp: f inorder_plug x_def)
  let ?one = "is_rb cmp s xs \<and> (t_left (fst s) n = None \<or> t_right (fst s) n = None)"
  have nc: "n \<notin> nodes_path c1" "n \<notin> set_tree (plug x c1)"
    using s1(2) by (auto simp: rooted_def inorder_plug set_path set_plug x_def)
  have rb1: "rb (t_red (fst s2)) (plug (Node l1 n r1) c1) \<and> \<not> red_root (t_red (fst s2)) (plug (Node l1 n r1) c1)" if one: ?one
  proof -
    obtain u where u: "inorder u = xs" "shaped s u" "rb (t_red (fst s)) u" "\<not> red_root (t_red (fst s)) u" using one by (auto simp: is_rb_def)
    have "u = t" using shaped_unique [OF u(2) t(2)] u(1) t(1) dx by simp
    moreover have "l = Leaf \<or> r = Leaf" using one rooted_links(2,3) [OF rs(1)] by auto
    ultimately show ?thesis using u(3,4) s1(6) s2(3) f by simp
  qed
  note col = bypass_colours [OF conjunct1 [OF rb1] conjunct2 [OF rb1] x_def s1(3) nc(1)]
  obtain s3 u where s3: "(if \<not> t_red (fst s2) n then RB_Unlink s2 (rt x) (up c1) else Some (Inr s2)) = Some (Inr s3)" "rooted s3 u"
    "inorder u = inorder (plug x c1)" "bt_size (snd s3) = bt_size (snd s2)" "?one \<longrightarrow> rb (t_red (fst s3)) u \<and> \<not> red_root (t_red (fst s3)) u"
  proof (cases "t_red (fst s2) n")
    case True
    then show thesis using that [of s2 "plug x c1"] s2(2) col(2) by auto
  next
    case False
    obtain s3 u where "RB_Unlink s2 (rt x) (up c1) = Some (Inr s3)" "rooted s3 u" "inorder u = inorder (plug x c1)" "bt_size (snd s3) = bt_size (snd s2)"
      "hole s2 x c1 \<longrightarrow> rb (t_red (fst s3)) u \<and> \<not> red_root (t_red (fst s3)) u"
      using RB_Unlink_ok [OF s2(2)] unfolding relinked_def by blast
    moreover have "?one \<longrightarrow> hole s2 x c1" using col(1) False unfolding hole_def by blast
    ultimately show thesis using that [of s3 u] False by auto
  qed
  have "n \<notin> set_tree u" using nc(2) s3(3) set_inorder by metis
  moreover have "length xs = Suc (length (inorder u))" using n length_remove1 [of n xs] xs s3(3) by (cases xs) auto
  ultimately have sh: "shaped (unlink_item s3 n) u"
    using unlink_ok [of "fst s3" u n "snd s3"] s3(2,4) s1(5) s2(4) rs(2) by (simp add: rooted_def)
  have red: "t_red (fst (unlink_item s3 n)) = t_red (fst s3)" by (cases s3) (simp add: Let_def)
  have so: "sorted_wrt cmp (remove1 n xs)" using srt by (rule sorted_wrt_remove1)
  have res: "RB_erase_at s (Some n) = Some (Inr (unlink_item s3 n, Some n))"
    using s1(1) s2(1,5) s3(1) by (auto simp: RB_erase_at_def split: if_splits)
  have bst': "is_bst cmp (unlink_item s3 n) (remove1 n xs)" using ord so sh xs s3(3) unfolding is_bst_def by metis
  have "?one \<longrightarrow> is_rb cmp (unlink_item s3 n) (remove1 n xs)"
    using ord so sh xs s3(3,5) red unfolding is_rb_def by metis
  with res bst' show ?thesis by (intro exI [of _ "unlink_item s3 n"] conjI)
qed

lemma RB_erase_ok:
  assumes "is_bst cmp s xs"
  shows "\<exists>s'. RB_erase cmp s item = Some (Inr (s', List.find (same_key cmp item) xs)) \<and> is_bst cmp s' (spec_erase cmp item xs) \<and>
    (is_rb cmp s xs \<and> (\<forall>n. List.find (same_key cmp item) xs = Some n \<longrightarrow> t_left (fst s) n = None \<or> t_right (fst s) n = None) \<longrightarrow>
       is_rb cmp s' (spec_erase cmp item xs))"
proof (cases "List.find (same_key cmp item) xs")
  case None
  then show ?thesis using BinTree_find_ok [OF assms, of item] assms by (auto simp: RB_erase_def RB_search_BinTree RB_erase_at_def spec_erase_def)
next
  case (Some n)
  then show ?thesis using BinTree_find_ok [OF assms, of item] RB_erase_node [OF assms, of n] find_SomeD [OF Some]
    by (auto simp: RB_erase_def RB_search_BinTree spec_erase_def)
qed

subsection \<open>Height\<close>

lemma bh_size: "rb col t \<Longrightarrow> 2 ^ bh col t \<le> Suc (size t)"
proof (induction t)
  case (Node l n r)
  then have "2 ^ bh col l \<le> Suc (size l)" "2 ^ bh col l \<le> Suc (size r)" by simp_all
  then have "2 * 2 ^ bh col l \<le> Suc (Suc (size l + size r))" by linarith
  then show ?case by simp
qed simp

lemma height_bh: "rb col t \<Longrightarrow> height t \<le> 2 * bh col t + (if red_root col t then 1 else 0)"
  by (induction t) (auto split: if_splits)

lemma rb_height:
  assumes "rb col t" "\<not> red_root col t"
  shows "2 ^ (height t div 2) \<le> Suc (length (inorder t))"
proof -
  have "height t div 2 \<le> bh col t" using height_bh [OF assms(1)] assms(2) by simp
  then have "(2 :: nat) ^ (height t div 2) \<le> 2 ^ bh col t" by (intro power_increasing) simp_all
  also have "\<dots> \<le> Suc (length (inorder t))" using bh_size [OF assms(1)] by simp
  finally show ?thesis .
qed

subsection \<open>Properties\<close>

lemma is_rb_empty: "weak_order cmp \<Longrightarrow> is_rb cmp (h, \<lparr> bt_size = 0, bt_root = None \<rparr>) []"
  by (auto simp: is_rb_def shaped_def intro!: exI [of _ Leaf])

lemma rb_insertions:
  assumes "is_rb cmp s xs" "spec_order cmp (map Add items) xs = Some ys"
  shows "\<exists>s'. rb_run cmp (map Add items) s = Some (Inr s') \<and> is_rb cmp s' ys"
  using assms
proof (induction items arbitrary: s xs)
  case (Cons x items)
  then have x: "x \<notin> set xs" "spec_order cmp (map Add items) (spec_insert cmp x xs) = Some ys" by (auto split: if_splits)
  then show ?case using RB_insert_ok [OF Cons.prems(1) x(1)] Cons.IH by fastforce
qed simp

text \<open>
  C32. Any sequence of insertions of unlinked nodes into an empty red-black tree ends without following a null
  pointer and gives the specified sorted sequence as a red-black tree: the root is black, no red node has a red child and
  all paths have the same number of black nodes, so that the height is at most about twice the logarithm of the
  size. Iteration visits exactly the sequence, and the searches give the specified nodes.
\<close>

theorem RB_insertions_balanced:
  assumes "weak_order cmp" and "spec_order cmp (map Add items) [] = Some xs"
  shows "\<exists>s t. rb_run cmp (map Add items) (h, \<lparr> bt_size = 0, bt_root = None \<rparr>) = Some (Inr s) \<and> is_rb cmp s xs \<and>
     BinTree_items cmp s = Some xs \<and> shaped s t \<and> inorder t = xs \<and> 2 ^ (height t div 2) \<le> Suc (length xs) \<and>
     RB_lowest s = Some (hd_ptr xs None) \<and> RB_highest s = Some (hd_ptr (rev xs) None) \<and>
     RB_find cmp s item = Some (List.find (same_key cmp item) xs) \<and>
     RB_lower_bound cmp s item = Some (List.find (\<lambda>y. \<not> cmp y item) xs) \<and> RB_upper_bound cmp s item = Some (List.find (cmp item) xs)"
proof -
  obtain s where s: "rb_run cmp (map Add items) (h, \<lparr> bt_size = 0, bt_root = None \<rparr>) = Some (Inr s)" "is_rb cmp s xs"
    using rb_insertions [OF is_rb_empty [OF assms(1)] assms(2)] by blast
  then obtain t where t: "shaped s t" "inorder t = xs" "rb (t_red (fst s)) t" "\<not> red_root (t_red (fst s)) t" by (auto simp: is_rb_def)
  then show ?thesis using s iteration_ok(1) [OF is_rb_bst [OF s(2)]] rb_height [OF t(3,4)] search_ok [OF is_rb_bst [OF s(2)], of item]
    by (intro exI [of _ s] exI [of _ t]) (simp add: RB_search_BinTree)
qed

theorem RB_insertions_balanced_witness:
  "\<exists>s. rb_run (<) [Add 3, Add 2, Add 1, Add 4] rb_empty = Some (Inr s) \<and> is_rb (<) s [1, 2, 3, 4]"
proof -
  have "weak_order (<)" "spec_order (<) (map Add [3, 2, 1, 4]) [] = Some [1, 2, 3, 4]"
    by (auto simp: weak_order_def spec_insert_def same_key_def)
  from RB_insertions_balanced [OF this, of "fst rb_empty" 0] show ?thesis by (auto simp: rb_empty_def simp del: rb_run.simps)
qed

text \<open>
  C4. Erasure from a red-black tree ends, follows no null pointer and gives the specified sequence, whatever the colours
  of the nodes are; and when the erased node has at most one child, the tree is a red-black tree again.
\<close>

theorem RB_erase_keeps_order:
  assumes "is_bst cmp s xs"
  shows "\<exists>s'. RB_erase cmp s item = Some (Inr (s', List.find (same_key cmp item) xs)) \<and> is_bst cmp s' (spec_erase cmp item xs) \<and>
    (is_rb cmp s xs \<and> (\<forall>n. List.find (same_key cmp item) xs = Some n \<longrightarrow> t_left (fst s) n = None \<or> t_right (fst s) n = None) \<longrightarrow>
       is_rb cmp s' (spec_erase cmp item xs))"
  using assms by (rule RB_erase_ok)

theorem RB_erase_keeps_order_witness:
  "\<exists>s'. RB_erase (<) (\<lparr> t_parent = [1 \<mapsto> 4], t_left = [4 \<mapsto> 1], t_right = Map.empty, t_red = (\<lambda>n. n = 1) \<rparr>, \<lparr> bt_size = 2, bt_root = Some 4 \<rparr>) 4 =
     Some (Inr (s', Some 4)) \<and> is_rb (<) s' [1]"
proof -
  let ?s = "(\<lparr> t_parent = [1 \<mapsto> 4], t_left = [4 \<mapsto> 1], t_right = Map.empty, t_red = (\<lambda>n. n = 1) \<rparr>, \<lparr> bt_size = 2, bt_root = Some 4 \<rparr>)"
  have "is_rb (<) ?s [1, 4]"
    by (auto simp: is_rb_def shaped_def weak_order_def intro!: exI [of _ "Node (Node Leaf 1 Leaf) 4 Leaf"])
  then show ?thesis using RB_erase_keeps_order [OF is_rb_bst, of "(<)" ?s "[1, 4]" 4] by (auto simp: same_key_def spec_erase_def)
qed


end
