(* ===== verification/AATree.thy ===== *)
theory AATree
  imports TreeRotate
begin

text \<open>
  The AA tree of \<^verbatim>\<open>include/containers/bintree_aa.h\<close> and \<^verbatim>\<open>include/containers/bintree_aa.inl\<close>: the binary
  tree with a level in every node. \<^const>\<open>None\<close> is the result of a loop that does not end; following a null pointer
  is the error \<^const>\<open>NullDereference\<close>.
\<close>

record aa_store = tree_store +
  t_level :: "nat \<Rightarrow> nat"

type_synonym aa_state = "aa_store \<times> bintree"

definition set_level :: "aa_store \<Rightarrow> nat \<Rightarrow> nat \<Rightarrow> aa_store" where
  "set_level h n x = h\<lparr> t_level := (t_level h)(n := x) \<rparr>"

text \<open>The level a node should have: one more than its left child.\<close>

definition above_left :: "aa_store \<Rightarrow> nat \<Rightarrow> nat" where
  "above_left h n = (case t_left h n of Some m \<Rightarrow> t_level h m + 1 | None \<Rightarrow> 1)"

definition above_right :: "aa_store \<Rightarrow> nat \<Rightarrow> nat" where
  "above_right h n = (case t_right h n of Some m \<Rightarrow> t_level h m + 1 | None \<Rightarrow> 1)"

subsection \<open>Ends and search\<close>

text \<open>
  \<^verbatim>\<open>BinTreeAA\<close> has its own copies of the search loops, with the bodies of those of
  \<^verbatim>\<open>BinTree\<close>.
\<close>

definition AA_lowest :: "aa_state \<Rightarrow> ptr option" where
  "AA_lowest s = (case bt_root (snd s) of None \<Rightarrow> Some None | Some n \<Rightarrow> map_option Some (leftmost (fst s) n))"

definition AA_highest :: "aa_state \<Rightarrow> ptr option" where
  "AA_highest s = (case bt_root (snd s) of None \<Rightarrow> Some None | Some n \<Rightarrow> map_option Some (rightmost (fst s) n))"

definition AA_find :: "order \<Rightarrow> aa_state \<Rightarrow> nat \<Rightarrow> ptr option" where
  "AA_find cmp s item = find_node cmp (fst s) (bt_root (snd s)) item"

definition AA_lower_bound :: "order \<Rightarrow> aa_state \<Rightarrow> nat \<Rightarrow> ptr option" where
  "AA_lower_bound cmp s item = lower_node cmp (fst s) (bt_root (snd s)) None item"

definition AA_upper_bound :: "order \<Rightarrow> aa_state \<Rightarrow> nat \<Rightarrow> ptr option" where
  "AA_upper_bound cmp s item = upper_node cmp (fst s) (bt_root (snd s)) None item"

lemmas AA_search_defs = AA_lowest_def AA_highest_def AA_find_def AA_lower_bound_def AA_upper_bound_def

lemma AA_search_BinTree:
  "AA_lowest s = InternalLowest s" "AA_highest s = InternalHighest s" "AA_find cmp s item = InternalFind cmp s item"
  "AA_lower_bound cmp s item = InternalLowerBound cmp s item" "AA_upper_bound cmp s item = InternalUpperBound cmp s item"
  by (cases s, simp only: AA_search_defs InternalLowest.simps InternalHighest.simps InternalFind.simps InternalLowerBound.simps InternalUpperBound.simps fst_conv snd_conv)+

subsection \<open>AA_Skew and split\<close>

fun AA_Skew :: "aa_state \<Rightarrow> ptr \<Rightarrow> aa_state result" where
  "AA_Skew (h, b) q =
     (case q of
        None \<Rightarrow> Inr (h, b)
      | Some node \<Rightarrow>
          deref (t_left h node) (\<lambda>current.
            (let (h, b) = replace_child (h, b) (t_parent h node) node (Some current);
                 h = set_parent h current (t_parent h node);
                 h = set_parent h node (Some current);
                 h = set_left h node (t_right h current);
                 h = adopt h (t_left h node) node;
                 h = set_right h current (Some node)
             in Inr (set_level h node (above_left h node), b))))"

fun AA_Split :: "aa_state \<Rightarrow> ptr \<Rightarrow> aa_state \<times> bool" where
  "AA_Split (h, b) q =
     (case q of
        None \<Rightarrow> ((h, b), False)
      | Some node \<Rightarrow>
          (case t_right h node of
             None \<Rightarrow> ((h, b), False)
           | Some current \<Rightarrow>
               (case t_right h current of
                  None \<Rightarrow> ((h, b), False)
                | Some m \<Rightarrow>
                    if t_level h m = t_level h node then
                      (let (h, b) = replace_child (h, b) (t_parent h node) node (Some current);
                           h = set_parent h current (t_parent h node);
                           h = set_parent h node (Some current);
                           h = set_right h node (t_left h current);
                           h = adopt h (t_right h node) node;
                           h = set_left h current (Some node)
                       in ((set_level h current (t_level h node + 1), b), True))
                    else ((h, b), False))))"

subsection \<open>Insertion\<close>

text \<open>The skew of one iteration, and the node the iteration continues with.\<close>

definition skew_up :: "aa_state \<Rightarrow> nat \<Rightarrow> (aa_state \<times> nat) result" where
  "skew_up s node =
     (if t_level (fst s) node \<noteq> above_left (fst s) node then
        bind_result (AA_Skew s (Some node)) (\<lambda>s.
          if (case t_right (fst s) node of None \<Rightarrow> True | Some r \<Rightarrow> t_level (fst s) node \<noteq> t_level (fst s) r)
          then deref (t_parent (fst s) node) (\<lambda>p. Inr (s, p))
          else Inr (s, node))
      else Inr (s, node))"

partial_function (option) aa_balance :: "aa_state \<Rightarrow> nat \<Rightarrow> aa_state result option" where
  "aa_balance s node =
     (case t_parent (fst s) node of
        None \<Rightarrow> Some (Inr s)
      | Some p \<Rightarrow>
          (case skew_up s p of
             Inl e \<Rightarrow> Some (Inl e)
           | Inr r \<Rightarrow>
               (let sp = AA_Split (fst r) (t_parent (fst (fst r)) (snd r))
                in if snd sp then aa_balance (fst sp) (snd r) else Some (Inr (fst sp)))))"

definition AA_insert_at :: "order \<Rightarrow> aa_state \<Rightarrow> ptr \<Rightarrow> nat \<Rightarrow> (aa_state \<times> nat \<times> bool) result option" where
  "AA_insert_at cmp s position item =
     Option.bind (BinTree_insert_at cmp s position item) (\<lambda>(s', n, inserted).
       if inserted
       then Option.bind (aa_balance (set_level (fst s') item 1, snd s') item) (\<lambda>r. Some (bind_result r (\<lambda>s''. Inr (s'', n, True))))
       else Some (Inr (s', n, False)))"

definition AA_insert :: "order \<Rightarrow> aa_state \<Rightarrow> nat \<Rightarrow> (aa_state \<times> nat \<times> bool) result option" where
  "AA_insert cmp s item = AA_insert_at cmp s (bt_root (snd s)) item"

subsection \<open>Erasure\<close>

text \<open>The node that takes the place of the erased one: the predecessor, the right child, or the node itself.\<close>

definition aa_substitute :: "aa_store \<Rightarrow> nat \<Rightarrow> nat option" where
  "aa_substitute h result =
     (case t_left h result of
        Some l \<Rightarrow> rightmost h l
      | None \<Rightarrow> Some (case t_right h result of Some r \<Rightarrow> r | None \<Rightarrow> result))"

definition aa_detach :: "aa_state \<Rightarrow> nat \<Rightarrow> aa_state" where
  "aa_detach s node = replace_child s (t_parent (fst s) node) node None"

definition aa_take_place :: "aa_state \<Rightarrow> nat \<Rightarrow> nat \<Rightarrow> aa_state" where
  "aa_take_place s result node =
     (if result \<noteq> node then
        (let (h, b) = replace_child s (t_parent (fst s) result) result (Some node);
             h = set_parent h node (t_parent h result);
             h = adopt h (t_left h result) node;
             h = set_left h node (t_left h result);
             h = adopt h (t_right h result) node;
             h = set_right h node (t_right h result)
         in (set_level h node (t_level h result), b))
      else s)"

text \<open>One iteration of the balancing loop: the state and the node to go on with, or no node when the loop is left.\<close>

definition aa_lower :: "aa_state \<Rightarrow> nat \<Rightarrow> (aa_state \<times> ptr) result" where
  "aa_lower s temp =
     (let s = (set_level (fst s) temp (t_level (fst s) temp - 1), snd s);
          first = AA_Split s (Some temp)
      in if snd first then
           (let second = AA_Split (fst first) (Some temp)
            in if snd second then
                 deref (t_parent (fst (fst second)) temp) (\<lambda>p.
                 bind_result (AA_Skew (fst second) (t_parent (fst (fst second)) p)) (\<lambda>s. Inr (s, None)))
               else Inr (fst second, None))
         else Inr (fst first, t_parent (fst (fst first)) temp))"

definition aa_raise :: "aa_state \<Rightarrow> nat \<Rightarrow> (aa_state \<times> ptr) result" where
  "aa_raise s temp =
     bind_result (AA_Skew s (Some temp)) (\<lambda>s.
     deref (t_parent (fst s) temp) (\<lambda>p.
     if t_level (fst s) temp > t_level (fst s) p then
       bind_result (AA_Skew s (Some temp)) (\<lambda>s.
       deref (t_parent (fst s) temp) (\<lambda>p.
       Inr (fst (AA_Split s (t_parent (fst s) p)), None)))
     else Inr (s, t_parent (fst s) p)))"

definition aa_erase_step :: "aa_state \<Rightarrow> nat \<Rightarrow> (aa_state \<times> ptr) result" where
  "aa_erase_step s temp =
     (if t_level (fst s) temp > above_left (fst s) temp then aa_lower s temp
      else if t_level (fst s) temp \<le> above_right (fst s) temp then Inr (s, None)
      else aa_raise s temp)"

partial_function (option) aa_erase_loop :: "aa_state \<Rightarrow> ptr \<Rightarrow> aa_state result option" where
  "aa_erase_loop s q =
     (case q of
        None \<Rightarrow> Some (Inr s)
      | Some temp \<Rightarrow>
          (case aa_erase_step s temp of
             Inl e \<Rightarrow> Some (Inl e)
           | Inr r \<Rightarrow> aa_erase_loop (fst r) (snd r)))"

definition AA_erase_at :: "aa_state \<Rightarrow> ptr \<Rightarrow> (aa_state \<times> ptr) result option" where
  "AA_erase_at s it =
     (case it of
        None \<Rightarrow> Some (Inr (s, None))
      | Some result \<Rightarrow>
          Option.bind (aa_substitute (fst s) result) (\<lambda>node.
            (let temp = (if t_parent (fst s) node = Some result then Some node else t_parent (fst s) node)
             in Option.bind (aa_erase_loop (aa_take_place (aa_detach s node) result node) temp) (\<lambda>r.
                Some (bind_result r (\<lambda>s. Inr (unlink_item s result, Some result)))))))"

definition AA_erase :: "order \<Rightarrow> aa_state \<Rightarrow> nat \<Rightarrow> (aa_state \<times> ptr) result option" where
  "AA_erase cmp s item = Option.bind (AA_find cmp s item) (AA_erase_at s)"

declare aa_balance.simps [code] aa_erase_loop.simps [code]


subsection \<open>Shapes\<close>

lemma level_links [simp]:
  "t_parent (set_level h n x) = t_parent h" "t_left (set_level h n x) = t_left h" "t_right (set_level h n x) = t_right h"
  "t_level (set_level h n x) = (t_level h)(n := x)" "t_level (set_parent h n p) = t_level h" "t_level (set_left h n p) = t_level h"
  "t_level (set_right h n p) = t_level h" "t_level (adopt h q m) = t_level h" "t_level (set_child h c q) = t_level h"
  by (simp_all add: set_level_def set_parent_def set_left_def set_right_def adopt_def split: option.splits)
    (cases c rule: nodes_path.cases; simp add: set_left_def set_right_def)

lemma linked_level [simp]: "linked (set_level h n x) par t = linked h par t" "linked_path (set_level h n x) q c = linked_path h q c"
  by (auto intro!: linked_cong linked_path_cong)

fun lvl :: "(nat \<Rightarrow> nat) \<Rightarrow> nat tree \<Rightarrow> nat" where
  "lvl lv Leaf = 0"
| "lvl lv (Node l n r) = lv n"

lemma above_lvl:
  "t_left h n = rt t \<Longrightarrow> above_left h n = Suc (lvl (t_level h) t)"
  "t_right h n = rt t \<Longrightarrow> above_right h n = Suc (lvl (t_level h) t)"
  by (cases t; simp add: above_left_def above_right_def)+

lemma AA_Skew_ok:
  assumes r: "rooted s (plug (Node (Node a n b) p r) c)"
  shows "\<exists>s'. AA_Skew s (Some p) = Inr s' \<and> rooted s' (plug (Node a n (Node b p r)) c) \<and>
    t_level (fst s') = (t_level (fst s))(p := Suc (lvl (t_level (fst s)) b)) \<and> bt_size (snd s') = bt_size (snd s)"
proof -
  obtain h bt where s: "s = (h, bt)" by (cases s)
  have lk: "linked h None (plug (Node (Node a n b) p r) c)" and root: "bt_root bt = rt (plug (Node (Node a n b) p r) c)"
    and d: "distinct (before c @ inorder a @ n # inorder b @ p # inorder r @ after c)" using r by (simp_all add: s rooted_def inorder_plug)
  note ne = pair_facts [OF d]
  have rep: "replace_child (h, bt) (up c) p (Some n) = (set_child h c (Some n), if c = [] then bt\<lparr> bt_root := Some n \<rparr> else bt)"
    by (rule replace_child_path [where h = h]) (use lk ne in \<open>auto simp: linked_plug\<close>)
  let ?k = "set_right (adopt (set_left (set_parent (set_parent (set_child h c (Some n)) n (up c)) p (Some n)) p (rt b)) (rt b) p) n (Some p)"
  have lvl: "above_left ?k p = Suc (lvl (t_level h) b)" using above_lvl(1) [of ?k p b] ne by simp
  have eq: "AA_Skew s (Some p) = Inr (set_level ?k p (Suc (lvl (t_level h) b)), if c = [] then bt\<lparr> bt_root := Some n \<rparr> else bt)"
    using lk ne lvl by (simp add: s linked_plug deref_def Let_def rep set_child_links del: replace_child.simps)
  have "linked_path (set_child h c (Some n)) (Some n) c"
    by (rule set_child_path [of _ "Some p"]) (use lk ne in \<open>simp_all add: linked_plug\<close>)
  then have "linked ?k None (plug (Node a n (Node b p r)) c)"
    using lk by (simp add: linked_plug ne set_child_linked set_child_links adopt_frame adopt_path adopt_linked [of _ "Some n"])
  moreover have "bt_root (if c = [] then bt\<lparr> bt_root := Some n \<rparr> else bt) = rt (plug (Node a n (Node b p r)) c)"
    using root root_of_step [of c] by (auto simp: rt_plug)
  ultimately show ?thesis using eq d by (auto simp: s rooted_def inorder_plug)
qed

lemma AA_Split_ok:
  assumes r: "rooted s (plug (Node a p (Node b n w)) c)" and z: "lvl (t_level (fst s)) w = t_level (fst s) p" "w \<noteq> Leaf"
  shows "\<exists>s'. AA_Split s (Some p) = (s', True) \<and> rooted s' (plug (Node (Node a p b) n w) c) \<and>
    t_level (fst s') = (t_level (fst s))(n := Suc (t_level (fst s) p)) \<and> bt_size (snd s') = bt_size (snd s)"
proof -
  obtain h bt where s: "s = (h, bt)" by (cases s)
  have lk: "linked h None (plug (Node a p (Node b n w)) c)" and root: "bt_root bt = rt (plug (Node a p (Node b n w)) c)"
    and d: "distinct (before c @ inorder a @ p # inorder b @ n # inorder w @ after c)" using r by (simp_all add: s rooted_def inorder_plug)
  note ne = pair_facts [OF d]
  have rep: "replace_child (h, bt) (up c) p (Some n) = (set_child h c (Some n), if c = [] then bt\<lparr> bt_root := Some n \<rparr> else bt)"
    by (rule replace_child_path [where h = h]) (use lk ne in \<open>auto simp: linked_plug\<close>)
  let ?k = "set_left (adopt (set_right (set_parent (set_parent (set_child h c (Some n)) n (up c)) p (Some n)) p (rt b)) (rt b) p) n (Some p)"
  obtain m where m: "rt w = Some m" "t_level h m = t_level h p" using z by (cases w) (auto simp: s)
  have eq: "AA_Split s (Some p) = ((set_level ?k n (Suc (t_level h p)), if c = [] then bt\<lparr> bt_root := Some n \<rparr> else bt), True)"
    using lk ne m by (simp add: s linked_plug Let_def rep set_child_links del: replace_child.simps)
  have "linked_path (set_child h c (Some n)) (Some n) c"
    by (rule set_child_path [of _ "Some p"]) (use lk ne in \<open>simp_all add: linked_plug\<close>)
  then have "linked ?k None (plug (Node (Node a p b) n w) c)"
    using lk by (simp add: linked_plug ne set_child_linked set_child_links adopt_frame adopt_path adopt_linked [of _ "Some n"])
  moreover have "bt_root (if c = [] then bt\<lparr> bt_root := Some n \<rparr> else bt) = rt (plug (Node (Node a p b) n w) c)"
    using root root_of_step [of c] by (auto simp: rt_plug)
  ultimately show ?thesis using eq d by (auto simp: s rooted_def inorder_plug)
qed

lemma AA_Split_none [simp]: "AA_Split s None = (s, False)"
  by (cases s) simp

lemma AA_Split_keep:
  assumes "rooted s (plug (Node a p r) c)" "\<And>b n w. r = Node b n w \<Longrightarrow> w \<noteq> Leaf \<Longrightarrow> lvl (t_level (fst s)) w \<noteq> t_level (fst s) p"
  shows "AA_Split s (Some p) = (s, False)"
proof -
  obtain h bt where s: "s = (h, bt)" by (cases s)
  have lk: "t_right h p = rt r" "linked h (Some p) r" using assms(1) by (simp_all add: s rooted_def linked_plug)
  show ?thesis
  proof (cases r)
    case Leaf
    then show ?thesis using lk by (simp add: s)
  next
    case (Node b n w)
    then show ?thesis using lk assms(2) [OF Node] by (cases w) (auto simp: s)
  qed
qed

subsection \<open>Levels\<close>

text \<open>A node has the level of its left child plus one; its right child may have the same level if the next right child has not.\<close>

fun one_level :: "(nat \<Rightarrow> nat) \<Rightarrow> nat tree \<Rightarrow> bool" where
  "one_level lv Leaf \<longleftrightarrow> True"
| "one_level lv (Node l n r) \<longleftrightarrow> lvl lv r < lv n"

fun aa :: "(nat \<Rightarrow> nat) \<Rightarrow> nat tree \<Rightarrow> bool" where
  "aa lv Leaf \<longleftrightarrow> True"
| "aa lv (Node l n r) \<longleftrightarrow> aa lv l \<and> aa lv r \<and> lv n = Suc (lvl lv l) \<and> (lvl lv r = lvl lv l \<or> lvl lv r = Suc (lvl lv l) \<and> one_level lv r)"

text \<open>The path above a subtree of level \<open>k\<close> that is single if \<open>x\<close>.\<close>

fun aa_path :: "(nat \<Rightarrow> nat) \<Rightarrow> nat \<Rightarrow> bool \<Rightarrow> path \<Rightarrow> bool" where
  "aa_path lv k x [] \<longleftrightarrow> True"
| "aa_path lv k x (L n r # c) \<longleftrightarrow> aa lv r \<and> lv n = Suc k \<and> (lvl lv r = k \<or> lvl lv r = Suc k \<and> one_level lv r) \<and> aa_path lv (Suc k) (lvl lv r = k) c"
| "aa_path lv k x (R l n # c) \<longleftrightarrow> aa lv l \<and> lv n = Suc (lvl lv l) \<and> (k = lvl lv l \<or> k = Suc (lvl lv l) \<and> x) \<and> aa_path lv (lv n) (k = lvl lv l) c"

lemma aa_plug: "aa lv (plug t c) \<longleftrightarrow> aa lv t \<and> aa_path lv (lvl lv t) (one_level lv t) c"
  by (induction t c rule: plug.induct) auto

lemma level_frame [simp]:
  "n \<notin> set_tree t \<Longrightarrow> lvl (lv(n := x)) t = lvl lv t" "n \<notin> set_tree t \<Longrightarrow> one_level (lv(n := x)) t = one_level lv t"
  "n \<notin> set_tree t \<Longrightarrow> aa (lv(n := x)) t = aa lv t"
proof -
  show a: "n \<notin> set_tree t \<Longrightarrow> lvl (lv(n := x)) t = lvl lv t" for t by (cases t) auto
  show b: "n \<notin> set_tree t \<Longrightarrow> one_level (lv(n := x)) t = one_level lv t" for t by (cases t) (auto simp: a)
  show "n \<notin> set_tree t \<Longrightarrow> aa (lv(n := x)) t = aa lv t" by (induction t) (auto simp: a b)
qed

lemma level_path_frame [simp]: "n \<notin> nodes_path c \<Longrightarrow> aa_path (lv(n := x)) k y c = aa_path lv k y c"
  by (induction lv k y c rule: aa_path.induct) auto

lemma aa_path_weaken: "aa_path lv k False c \<Longrightarrow> aa_path lv k x c"
  by (cases c rule: nodes_path.cases) auto

lemma aa_lvl_0 [simp]: "aa lv t \<Longrightarrow> lvl lv t = 0 \<longleftrightarrow> t = Leaf"
  by (cases t) auto

subsection \<open>The loop of the insertion\<close>

text \<open>A subtree that has grown by one level, under a path for a subtree of two equal levels.\<close>

definition grown :: "aa_state \<Rightarrow> nat tree \<Rightarrow> nat \<Rightarrow> nat tree \<Rightarrow> path \<Rightarrow> bool" where
  "grown s l n r c \<longleftrightarrow> rooted s (plug (Node l n r) c) \<and> aa (t_level (fst s)) (Node l n r) \<and> lvl (t_level (fst s)) r = lvl (t_level (fst s)) l \<and>
     aa_path (t_level (fst s)) (lvl (t_level (fst s)) l) False c"

definition aa_done :: "aa_state result option \<Rightarrow> aa_state \<Rightarrow> nat list \<Rightarrow> bool" where
  "aa_done r s xs \<longleftrightarrow> (\<exists>s' t. r = Some (Inr s') \<and> rooted s' t \<and> inorder t = xs \<and> aa (t_level (fst s')) t \<and> bt_size (snd s') = bt_size (snd s))"

text \<open>After the skew the grown node has a right neighbour of its level; the split of its parent may raise it.\<close>

lemma split_double:
  assumes r: "rooted s (plug (Node a m b) c)" and a: "aa (t_level (fst s)) (Node a m b)" "lvl (t_level (fst s)) b = t_level (fst s) m"
    and p: "aa_path (t_level (fst s)) (t_level (fst s) m) True c"
  shows "(AA_Split s (up c) = (s, False) \<and> aa (t_level (fst s)) (plug (Node a m b) c)) \<or>
    (\<exists>v g k s'. c = R v g # k \<and> AA_Split s (up c) = (s', True) \<and> grown s' (Node v g a) m b k \<and> bt_size (snd s') = bt_size (snd s))"
proof (cases c rule: nodes_path.cases)
  case 1
  then show ?thesis using a by auto
next
  case (2 g u k)
  let ?lv = "t_level (fst s)"
  have "AA_Split s (Some g) = (s, False)"
    by (rule AA_Split_keep [of s "Node a m b" g u k]) (use r p 2 in auto)
  then show ?thesis using a p 2 by (auto simp: aa_plug)
next
  case (3 v g k)
  let ?lv = "t_level (fst s)"
  have rg: "rooted s (plug (Node v g (Node a m b)) k)" using r 3 by simp
  have b: "b \<noteq> Leaf" using a by auto
  show ?thesis
  proof (cases "?lv m = lvl ?lv v")
    case True
    have "AA_Split s (Some g) = (s, False)" by (rule AA_Split_keep [OF rg]) (use p 3 a True in auto)
    then show ?thesis using a p 3 True by (auto simp: aa_plug)
  next
    case False
    then have g: "?lv m = Suc (lvl ?lv v)" "?lv g = Suc (lvl ?lv v)" using p 3 by auto
    obtain s' where s': "AA_Split s (Some g) = (s', True)" "rooted s' (plug (Node (Node v g a) m b) k)" "t_level (fst s') = ?lv(m := Suc (?lv g))"
      "bt_size (snd s') = bt_size (snd s)"
      using AA_Split_ok [OF rg _ b] a(2) g by auto
    have "m \<notin> set_tree v" "m \<notin> set_tree a" "m \<notin> set_tree b" "m \<noteq> g" "m \<notin> nodes_path k" using rg by (auto simp: rooted_def inorder_plug set_path)
    then have "grown s' (Node v g a) m b k" using s'(2,3) a p 3 g by (auto simp: grown_def)
    then show ?thesis using s' 3 by auto
  qed
qed


lemma aa_balance_next:
  assumes "t_parent (fst s) n = Some p" "skew_up s p = Inr (s1, m)" "AA_Split s1 (t_parent (fst s1) m) = (s2, again)"
  shows "aa_balance s n = (if again then aa_balance s2 m else Some (Inr s2))"
  using assms by (simp add: aa_balance.simps [of s n])

lemma aa_done_split:
  assumes r: "rooted s1 (plug (Node a m b) k)" and a: "aa (t_level (fst s1)) (Node a m b)" "lvl (t_level (fst s1)) b = t_level (fst s1) m"
    and p: "aa_path (t_level (fst s1)) (t_level (fst s1) m) True k"
    and st: "\<And>s2 again. AA_Split s1 (up k) = (s2, again) \<Longrightarrow> aa_balance s n = (if again then aa_balance s2 m else Some (Inr s2))"
    and IH: "\<And>s' l r k'. length k' < length k \<Longrightarrow> grown s' l m r k' \<Longrightarrow> aa_done (aa_balance s' m) s' (inorder (plug (Node l m r) k'))"
    and sz: "bt_size (snd s1) = bt_size (snd s)" "inorder (plug (Node a m b) k) = xs"
  shows "aa_done (aa_balance s n) s xs"
  using split_double [OF r a p]
proof
  assume "AA_Split s1 (up k) = (s1, False) \<and> aa (t_level (fst s1)) (plug (Node a m b) k)"
  then have "aa_balance s n = Some (Inr s1)" "aa (t_level (fst s1)) (plug (Node a m b) k)" using st [of s1 False] by simp_all
  then show ?thesis using r sz unfolding aa_done_def by blast
next
  assume "\<exists>v g k' s2. k = R v g # k' \<and> AA_Split s1 (up k) = (s2, True) \<and> grown s2 (Node v g a) m b k' \<and> bt_size (snd s2) = bt_size (snd s1)"
  then obtain v g k' s2 where d: "k = R v g # k'" "AA_Split s1 (up k) = (s2, True)" "grown s2 (Node v g a) m b k'" "bt_size (snd s2) = bt_size (snd s1)" by blast
  have "aa_done (aa_balance s2 m) s2 (inorder (plug (Node (Node v g a) m b) k'))" using d by (intro IH) simp_all
  moreover have "aa_balance s n = aa_balance s2 m" using st [OF d(2)] by simp
  ultimately show ?thesis using d sz by (simp add: aa_done_def inorder_plug)
qed

lemma aa_balance_ok: "grown s l n r c \<Longrightarrow> aa_done (aa_balance s n) s (inorder (plug (Node l n r) c))"
proof (induction "length c" arbitrary: s l n r c rule: less_induct)
  case less
  let ?lv = "t_level (fst s)"
  have g: "rooted s (plug (Node l n r) c)" "aa ?lv (Node l n r)" "lvl ?lv r = lvl ?lv l" "aa_path ?lv (lvl ?lv l) False c"
    using less.prems unfolding grown_def by blast+
  show ?case
  proof (cases c rule: nodes_path.cases)
    case 1
    then have "aa_balance s n = Some (Inr s)" using rooted_links(1) [OF g(1)] by (simp add: aa_balance.simps [of s n])
    then show ?thesis using g 1 by (auto simp: aa_done_def)
  next
    case (2 p u k)
    have rp: "rooted s (plug (Node (Node l n r) p u) k)" using g(1) 2 by simp
    obtain s1 where s1: "AA_Skew s (Some p) = Inr s1" "rooted s1 (plug (Node l n (Node r p u)) k)" "t_level (fst s1) = ?lv(p := Suc (lvl ?lv r))"
      "bt_size (snd s1) = bt_size (snd s)" using AA_Skew_ok [OF rp] by blast
    have lv: "t_level (fst s1) = ?lv" using s1(3) g(3,4) 2 by (simp add: fun_upd_idem)
    have up: "t_parent (fst s) n = Some p" "above_left (fst s) p = Suc (?lv n)" "?lv p = Suc (lvl ?lv l)" "?lv n = Suc (lvl ?lv l)"
      using rooted_links [OF g(1)] rooted_links [OF rp] g(2,4) 2 above_lvl(1) [of "fst s" p "Node l n r"] by simp_all
    have p1: "t_right (fst s1) p = rt u" "t_parent (fst s1) p = Some n" "t_parent (fst s1) n = up k"
      using s1(2) by (simp_all add: rooted_def linked_plug)
    show ?thesis
    proof (cases "lvl ?lv u = lvl ?lv l")
      case True
      then have sk: "skew_up s p = Inr (s1, n)" using up s1(1) p1 lv by (cases u) (auto simp: skew_up_def deref_def)
      have a: "aa (t_level (fst s1)) (Node l n (Node r p u))" "lvl (t_level (fst s1)) (Node r p u) = t_level (fst s1) n"
        "aa_path (t_level (fst s1)) (t_level (fst s1) n) True k" using g(2-4) 2 True up unfolding lv by auto
      show ?thesis
        by (rule aa_done_split [OF s1(2) a _ _ s1(4)])
          (use aa_balance_next [OF up(1) sk] p1(3) less.hyps 2 in \<open>simp_all add: inorder_plug\<close>)
    next
      case False
      then have u: "lvl ?lv u = Suc (lvl ?lv l)" "u \<noteq> Leaf" "aa ?lv u" using g(4) 2 by auto
      then have sk: "skew_up s p = Inr (s1, p)" using up s1(1) p1 lv by (cases u) (auto simp: skew_up_def)
      obtain s2 where s2: "AA_Split s1 (Some n) = (s2, True)" "rooted s2 (plug (Node (Node l n r) p u) k)" "t_level (fst s2) = ?lv(p := Suc (?lv n))"
        "bt_size (snd s2) = bt_size (snd s1)" using AA_Split_ok [OF s1(2) _ u(2)] lv u(1) up(4) by auto
      have "p \<notin> set_tree l" "p \<notin> set_tree r" "p \<notin> set_tree u" "p \<noteq> n" "p \<notin> nodes_path k" using rp by (auto simp: rooted_def inorder_plug set_path)
      then have "grown s2 (Node l n r) p u k" using s2(2,3) g 2 u up by (auto simp: grown_def)
      then have "aa_done (aa_balance s2 p) s2 (inorder (plug (Node (Node l n r) p u) k))" using 2 by (intro less.hyps) simp_all
      moreover have "aa_balance s n = aa_balance s2 p" using aa_balance_next [OF up(1) sk] s2(1) p1(2) by simp
      ultimately show ?thesis using 2 s1(4) s2(4) by (simp add: aa_done_def)
    qed
  next
    case (3 u p k)
    have rp: "rooted s (plug (Node u p (Node l n r)) k)" using g(1) 3 by simp
    have up: "t_parent (fst s) n = Some p" "above_left (fst s) p = ?lv p" "t_parent (fst s) p = up k"
      using rooted_links [OF g(1)] rooted_links [OF rp] g(4) 3 above_lvl(1) [of "fst s" p u] by simp_all
    then have sk: "skew_up s p = Inr (s, p)" by (simp add: skew_up_def)
    have a: "aa ?lv (Node u p (Node l n r))" "lvl ?lv (Node l n r) = ?lv p" "aa_path ?lv (?lv p) True k" using g(2-4) 3 by auto
    show ?thesis
      by (rule aa_done_split [OF rp a]) (use aa_balance_next [OF up(1) sk] up(3) less.hyps 3 in \<open>simp_all add: inorder_plug\<close>)
  qed
qed

end
