(* ===== verification/AA_Erase.thy ===== *)
theory AA_Erase
  imports AATree
begin

text \<open>
  Erasure from the AA tree: the loop that restores the levels on the way up, and the sequence of
  operations it leaves behind.
\<close>

subsection \<open>The loop of the erasure\<close>

text \<open>A subtree that has lost one level, and the node above it that the loop looks at.\<close>

definition shrunk :: "aa_state \<Rightarrow> nat tree \<Rightarrow> path \<Rightarrow> bool" where
  "shrunk s x c \<longleftrightarrow> rooted s (plug x c) \<and> aa (t_level (fst s)) x \<and> (\<exists>g. aa_path (t_level (fst s)) (Suc (lvl (t_level (fst s)) x)) g c)"

definition unbalanced :: "aa_state \<Rightarrow> nat tree \<Rightarrow> nat \<Rightarrow> nat tree \<Rightarrow> path \<Rightarrow> bool" where
  "unbalanced s l t r c \<longleftrightarrow>
     (let lv = t_level (fst s); h = lv t
      in rooted s (plug (Node l t r) c) \<and> aa lv l \<and> aa lv r \<and>
         (h = Suc (lvl lv l) \<and> (h = Suc (lvl lv r) \<or> h = Suc (Suc (lvl lv r)) \<or> h = lvl lv r \<and> one_level lv r) \<or>
          h = Suc (Suc (lvl lv l)) \<and> (h = Suc (lvl lv r) \<or> h = lvl lv r \<and> one_level lv r)) \<and>
         (\<exists>g. aa_path lv h g c \<and> (g \<longrightarrow> lvl lv r < h)))"

lemma shrunk_up:
  assumes "shrunk s x c"
  shows "(up c = None \<and> aa (t_level (fst s)) (plug x c)) \<or>
    (\<exists>l t r k. length k < length c \<and> up c = Some t \<and> plug x c = plug (Node l t r) k \<and> unbalanced s l t r k)"
proof (cases c rule: nodes_path.cases)
  case 1
  then show ?thesis using assms by (auto simp: shrunk_def)
next
  case (2 t r k)
  then have "unbalanced s x t r k" using assms by (auto simp: shrunk_def unbalanced_def Let_def)
  then show ?thesis using 2 by (intro disjI2 exI [of _ x] exI [of _ t] exI [of _ r] exI [of _ k]) simp
next
  case (3 l t k)
  then have "unbalanced s l t x k" using assms by (auto simp: shrunk_def unbalanced_def Let_def)
  then show ?thesis using 3 by (intro disjI2 exI [of _ l] exI [of _ t] exI [of _ x] exI [of _ k]) simp
qed

text \<open>What one iteration leaves: a balanced tree, or a shrunk subtree one step further up.\<close>

definition settled :: "(aa_state \<times> ptr) result \<Rightarrow> aa_state \<Rightarrow> nat tree \<Rightarrow> path \<Rightarrow> bool" where
  "settled res s x c \<longleftrightarrow> (\<exists>s' y. inorder y = inorder x \<and> bt_size (snd s') = bt_size (snd s) \<and>
     (res = Inr (s', None) \<and> rooted s' (plug y c) \<and> aa (t_level (fst s')) (plug y c) \<or> res = Inr (s', up c) \<and> shrunk s' y c))"

lemma settled_done:
  "rooted s' (plug y c) \<Longrightarrow> aa (t_level (fst s')) (plug y c) \<Longrightarrow> inorder y = inorder x \<Longrightarrow> bt_size (snd s') = bt_size (snd s) \<Longrightarrow>
   settled (Inr (s', None)) s x c"
  unfolding settled_def by blast

lemma settled_up:
  "shrunk s' y c \<Longrightarrow> inorder y = inorder x \<Longrightarrow> bt_size (snd s') = bt_size (snd s) \<Longrightarrow> settled (Inr (s', up c)) s x c"
  unfolding settled_def by blast

lemma rooted_level [simp]: "rooted (set_level h n x, b) t = rooted (h, b) t"
  by (simp add: rooted_def)

lemma aa_raise_ok:
  assumes u: "unbalanced s l t r c" and h: "t_level (fst s) t = Suc (lvl (t_level (fst s)) l)" "lvl (t_level (fst s)) l = Suc (lvl (t_level (fst s)) r)"
  shows "settled (aa_raise s t) s (Node l t r) c"
proof -
  let ?lv = "t_level (fst s)"
  obtain g where rt: "rooted s (plug (Node l t r) c)" and a: "aa ?lv l" "aa ?lv r" and g: "aa_path ?lv (?lv t) g c"
    using u by (auto simp: unbalanced_def Let_def)
  have p: "aa_path ?lv (?lv t) True c" using g aa_path_weaken by (cases g) auto
  obtain l1 n l2 where l: "l = Node l1 n l2" using h(2) by (cases l) auto
  have rl: "rooted s (plug (Node (Node l1 n l2) t r) c)" using rt l by simp
  have ne: "t \<notin> set_tree l1" "t \<notin> set_tree l2" "t \<notin> set_tree r" "t \<noteq> n" "t \<notin> nodes_path c" "n \<notin> set_tree l1" "n \<notin> set_tree l2" "n \<notin> set_tree r" "n \<notin> nodes_path c"
    using rl by (auto simp: rooted_def inorder_plug set_path)
  obtain s1 where s1: "AA_Skew s (Some t) = Inr s1" "rooted s1 (plug (Node l1 n (Node l2 t r)) c)" "t_level (fst s1) = ?lv(t := Suc (lvl ?lv l2))"
    "bt_size (snd s1) = bt_size (snd s)" using AA_Skew_ok [OF rl] by blast
  have r1: "rooted s1 (plug (Node l2 t r) (R l1 n # c))" using s1(2) by simp
  have up1: "t_parent (fst s1) t = Some n" "t_parent (fst s1) n = up c" using rooted_links [OF r1] rooted_links [OF s1(2)] by simp_all
  have lvs: "?lv n = lvl ?lv l" "?lv n = Suc (lvl ?lv l1)" "lvl ?lv l2 = lvl ?lv l1 \<or> lvl ?lv l2 = Suc (lvl ?lv l1) \<and> one_level ?lv l2"
    "aa ?lv l1" "aa ?lv l2" using a(1) l by auto
  show ?thesis
  proof (cases "lvl ?lv l2 = lvl ?lv l1")
    case True
    then have "aa_raise s t = Inr (s1, up c)" using s1 up1 ne lvs by (simp add: aa_raise_def deref_def)
    moreover have "shrunk s1 (Node l1 n (Node l2 t r)) c" using s1(2,3) ne lvs True a h g by (auto simp: shrunk_def)
    ultimately show ?thesis using s1(4) by (simp add: settled_up l)
  next
    case False
    then have d: "lvl ?lv l2 = Suc (lvl ?lv l1)" "one_level ?lv l2" using lvs by auto
    then obtain m1 m m2 where l2: "l2 = Node m1 m m2" by (cases l2) auto
    have m: "?lv m = Suc (lvl ?lv l1)" "lvl ?lv m1 = lvl ?lv l1" "lvl ?lv m2 = lvl ?lv l1" "aa ?lv m1" "aa ?lv m2"
      using d lvs(5) l2 by auto
    have r1': "rooted s1 (plug (Node (Node m1 m m2) t r) (R l1 n # c))" using r1 l2 by simp
    have nm: "t \<notin> set_tree m1" "t \<notin> set_tree m2" "t \<noteq> m" "m \<noteq> n" "m \<notin> set_tree l1" "m \<notin> set_tree m1" "m \<notin> set_tree m2" "m \<notin> set_tree r" "m \<notin> nodes_path c"
      using r1' by (auto simp: rooted_def inorder_plug set_path)
    obtain s2 where s2: "AA_Skew s1 (Some t) = Inr s2" "rooted s2 (plug (Node m1 m (Node m2 t r)) (R l1 n # c))"
      "t_level (fst s2) = ?lv(t := Suc (lvl ?lv m2))" "bt_size (snd s2) = bt_size (snd s1)"
      using AA_Skew_ok [OF r1'] s1(3) ne nm by auto
    have r2: "rooted s2 (plug (Node m2 t r) (R m1 m # R l1 n # c))" "rooted s2 (plug (Node l1 n (Node m1 m (Node m2 t r))) c)" using s2(2) by simp_all
    have up2: "t_parent (fst s2) t = Some m" "t_parent (fst s2) m = Some n" using rooted_links [OF r2(1)] rooted_links [OF s2(2)] by simp_all
    obtain s3 where s3: "AA_Split s2 (Some n) = (s3, True)" "rooted s3 (plug (Node (Node l1 n m1) m (Node m2 t r)) c)"
      "t_level (fst s3) = ?lv(t := Suc (lvl ?lv m2), m := Suc (?lv n))" "bt_size (snd s3) = bt_size (snd s2)"
      using AA_Split_ok [OF r2(2)] s2(3) ne nm m lvs by auto
    have "aa_raise s t = Inr (s3, None)"
      using s1 up1 s2(1) up2 s3(1) ne lvs d by (simp add: aa_raise_def deref_def)
    moreover have "aa (t_level (fst s3)) (plug (Node (Node l1 n m1) m (Node m2 t r)) c)"
      using s3(3) ne nm m lvs a h p by (simp add: aa_plug)
    ultimately show ?thesis using s3(2,4) s2(4) s1(4) by (auto intro: settled_done simp: l l2)
  qed
qed


lemma aa_lower_ok:
  assumes u: "unbalanced s l t r c" and h: "t_level (fst s) t = Suc (Suc (lvl (t_level (fst s)) l))"
  shows "settled (aa_lower s t) s (Node l t r) c"
proof -
  let ?lv = "t_level (fst s)" and ?s0 = "(set_level (fst s) t (t_level (fst s) t - 1), snd s)"
  let ?lw = "?lv(t := Suc (lvl ?lv l))"
  obtain g where rt: "rooted s (plug (Node l t r) c)" and a: "aa ?lv l" "aa ?lv r" and g: "aa_path ?lv (?lv t) g c" "g \<longrightarrow> lvl ?lv r < ?lv t"
    and hr: "lvl ?lv r = Suc (lvl ?lv l) \<or> lvl ?lv r = Suc (Suc (lvl ?lv l)) \<and> one_level ?lv r"
    using u h by (auto simp: unbalanced_def Let_def)
  have p: "aa_path ?lv (?lv t) True c" using g aa_path_weaken by (cases g) auto
  have r0: "rooted ?s0 (plug (Node l t r) c)" using rt by (cases s) simp
  have lw: "t_level (fst ?s0) = ?lw" using h by (simp add: fun_upd_def)
  have ne: "t \<notin> set_tree l" "t \<notin> set_tree r" "t \<notin> nodes_path c" using rt by (auto simp: rooted_def inorder_plug set_path)
  obtain r1 n r2 where r: "r = Node r1 n r2" using hr by (cases r) auto
  have rr: "rooted ?s0 (plug (Node l t (Node r1 n r2)) c)" using r0 r by simp
  have nn: "n \<noteq> t" "n \<notin> set_tree l" "n \<notin> set_tree r1" "n \<notin> set_tree r2" "n \<notin> nodes_path c" "t \<notin> set_tree r1" "t \<notin> set_tree r2"
    using rr by (auto simp: rooted_def inorder_plug set_path)
  have lvs: "?lv n = lvl ?lv r" "?lv n = Suc (lvl ?lv r1)" "aa ?lv r1" "aa ?lv r2"
    "lvl ?lv r2 = lvl ?lv r1 \<or> lvl ?lv r2 = Suc (lvl ?lv r1) \<and> one_level ?lv r2" using a(2) r by auto
  show ?thesis
  proof (cases "lvl ?lv r2 = Suc (lvl ?lv l)")
    case True
    then have r2: "r2 \<noteq> Leaf" by auto
    obtain s1 where s1: "AA_Split ?s0 (Some t) = (s1, True)" "rooted s1 (plug (Node (Node l t r1) n r2) c)"
      "t_level (fst s1) = ?lw(n := Suc (Suc (lvl ?lv l)))" "bt_size (snd s1) = bt_size (snd s)"
      using AA_Split_ok [OF rr _ r2] True nn unfolding lw by auto
    have r1: "rooted s1 (plug (Node l t r1) (L n r2 # c))" using s1(2) by simp
    show ?thesis
    proof (cases "\<exists>x m y. r1 = Node x m y \<and> y \<noteq> Leaf \<and> lvl ?lv y = Suc (lvl ?lv l)")
      case False
      then have "AA_Split s1 (Some t) = (s1, False)" using nn s1(3) by (intro AA_Split_keep [OF r1]) auto
      then have "aa_lower s t = Inr (s1, None)" using s1(1) by (simp add: aa_lower_def Let_def)
      moreover have hl: "lvl ?lv r1 = lvl ?lv l \<or> lvl ?lv r1 = Suc (lvl ?lv l) \<and> one_level ?lv r1"
      proof (cases r1)
        case Leaf
        then show ?thesis using lvs hr by auto
      next
        case (Node x m y)
        have "lvl ?lv y = Suc (lvl ?lv l) \<Longrightarrow> y \<noteq> Leaf" by auto
        then show ?thesis using False Node lvs hr by auto
      qed
      moreover have "aa (t_level (fst s1)) (plug (Node (Node l t r1) n r2) c)"
        using s1(3) ne nn lvs a h p True hl by (simp add: aa_plug)
      ultimately show ?thesis using s1(2,4) by (auto intro: settled_done simp: r)
    next
      case True': True
      then obtain x m y where m: "r1 = Node x m y" "y \<noteq> Leaf" "lvl ?lv y = Suc (lvl ?lv l)" by blast
      have hn: "?lv n = Suc (Suc (lvl ?lv l))" "\<not> g" "?lv m = Suc (lvl ?lv l)" "lvl ?lv x = lvl ?lv l" "one_level ?lv y" "aa ?lv x" "aa ?lv y"
        using lvs hr m g(2) h by auto
      have rm: "rooted s1 (plug (Node l t (Node x m y)) (L n r2 # c))" using r1 m by simp
      have nm: "m \<noteq> t" "m \<noteq> n" "m \<notin> set_tree l" "m \<notin> set_tree x" "m \<notin> set_tree y" "m \<notin> set_tree r2" "m \<notin> nodes_path c" "t \<notin> set_tree x" "t \<notin> set_tree y"
        "n \<notin> set_tree x" "n \<notin> set_tree y" using rm by (auto simp: rooted_def inorder_plug set_path)
      obtain s2 where s2: "AA_Split s1 (Some t) = (s2, True)" "rooted s2 (plug (Node (Node l t x) m y) (L n r2 # c))"
        "t_level (fst s2) = ?lw(n := Suc (Suc (lvl ?lv l)), m := Suc (Suc (lvl ?lv l)))" "bt_size (snd s2) = bt_size (snd s1)"
        using AA_Split_ok [OF rm _ m(2)] s1(3) nm nn m by auto
      have r2': "rooted s2 (plug (Node l t x) (L m y # L n r2 # c))" "rooted s2 (plug (Node (Node (Node l t x) m y) n r2) c)" using s2(2) by simp_all
      have up2: "t_parent (fst s2) t = Some m" "t_parent (fst s2) m = Some n" using rooted_links [OF r2'(1)] rooted_links [OF s2(2)] by simp_all
      obtain s3 where s3: "AA_Skew s2 (Some n) = Inr s3" "rooted s3 (plug (Node (Node l t x) m (Node y n r2)) c)"
        "t_level (fst s3) = ?lw(n := Suc (Suc (lvl ?lv l)), m := Suc (Suc (lvl ?lv l)))" "bt_size (snd s3) = bt_size (snd s2)"
        using AA_Skew_ok [OF r2'(2)] s2(3) nm nn m by (auto simp: fun_eq_iff)
      have "aa_lower s t = Inr (s3, None)" using s1(1) s2(1) s3(1) up2 by (simp add: aa_lower_def Let_def deref_def)
      moreover have "aa (t_level (fst s3)) (plug (Node (Node l t x) m (Node y n r2)) c)"
        using s3(3) ne nn nm m hn True lvs a h g by (simp add: aa_plug)
      ultimately show ?thesis using s3(2,4) s2(4) s1(4) by (auto intro: settled_done simp: r m)
    qed
  next
    case False
    then have "AA_Split ?s0 (Some t) = (?s0, False)" using nn lw by (intro AA_Split_keep [OF rr]) auto
    moreover have "t_parent (fst s) t = up c" using rooted_links [OF rt] by simp
    ultimately have "aa_lower s t = Inr (?s0, up c)" by (simp add: aa_lower_def Let_def)
    moreover have sr: "lvl ?lv r = Suc (lvl ?lv l)" "one_level ?lv r" using False lvs hr r by auto
    have "aa_path ?lw (Suc (Suc (lvl ?lv l))) g c" using g(1) h ne by simp
    then have "shrunk ?s0 (Node l t r) c" unfolding shrunk_def lw using r0 ne a sr by (intro conjI exI [of _ g]) simp_all
    ultimately show ?thesis by (auto intro: settled_up)
  qed
qed

lemma aa_erase_step_ok:
  assumes u: "unbalanced s l t r c"
  shows "settled (aa_erase_step s t) s (Node l t r) c"
proof -
  let ?lv = "t_level (fst s)"
  have rt: "rooted s (plug (Node l t r) c)" using u by (auto simp: unbalanced_def Let_def)
  have ab: "above_left (fst s) t = Suc (lvl ?lv l)" "above_right (fst s) t = Suc (lvl ?lv r)"
    using above_lvl rooted_links(2,3) [OF rt] by blast+
  consider "?lv t = Suc (Suc (lvl ?lv l))" | "?lv t = Suc (lvl ?lv l)" "lvl ?lv l = Suc (lvl ?lv r)"
    | "?lv t = Suc (lvl ?lv l)" "lvl ?lv r = lvl ?lv l \<or> lvl ?lv r = Suc (lvl ?lv l) \<and> one_level ?lv r"
    using u by (auto simp: unbalanced_def Let_def)
  then show ?thesis
  proof cases
    case 1
    then show ?thesis using aa_lower_ok [OF u 1] ab by (simp add: aa_erase_step_def)
  next
    case 2
    then show ?thesis using aa_raise_ok [OF u 2] ab by (simp add: aa_erase_step_def)
  next
    case 3
    obtain g where "aa ?lv l" "aa ?lv r" "aa_path ?lv (?lv t) g c" "g \<longrightarrow> lvl ?lv r < ?lv t" using u by (auto simp: unbalanced_def Let_def)
    then have "aa ?lv (plug (Node l t r) c)" using 3 aa_path_weaken by (cases g) (simp_all add: aa_plug)
    then show ?thesis using 3 ab rt by (auto simp: aa_erase_step_def intro: settled_done)
  qed
qed

lemma aa_erase_loop_ok:
  "unbalanced s l t r c \<Longrightarrow> aa_done (aa_erase_loop s (Some t)) s (inorder (plug (Node l t r) c))"
proof (induction "length c" arbitrary: s l t r c rule: less_induct)
  case less
  obtain s' y where y: "inorder y = inorder (Node l t r)" "bt_size (snd s') = bt_size (snd s)"
    and or: "aa_erase_step s t = Inr (s', None) \<and> rooted s' (plug y c) \<and> aa (t_level (fst s')) (plug y c) \<or>
      aa_erase_step s t = Inr (s', up c) \<and> shrunk s' y c"
    using aa_erase_step_ok [OF less.prems] unfolding settled_def by blast
  have fin: ?case if e: "aa_erase_step s t = Inr (s', None)" "rooted s' (plug y c)" "aa (t_level (fst s')) (plug y c)"
  proof -
    have "aa_erase_loop s (Some t) = Some (Inr s')"
      using e(1) by (simp add: aa_erase_loop.simps [of s "Some t"] aa_erase_loop.simps [of s' None])
    moreover have "inorder (plug y c) = inorder (plug (Node l t r) c)" using y(1) by (simp add: inorder_plug)
    ultimately show ?thesis using e(2,3) y(2) unfolding aa_done_def by blast
  qed
  from or show ?case
  proof
    assume "aa_erase_step s t = Inr (s', None) \<and> rooted s' (plug y c) \<and> aa (t_level (fst s')) (plug y c)"
    then show ?thesis using fin by blast
  next
    assume up: "aa_erase_step s t = Inr (s', up c) \<and> shrunk s' y c"
    then have ry: "rooted s' (plug y c)" by (simp add: shrunk_def)
    from up have sh: "shrunk s' y c" by blast
    from shrunk_up [OF sh] show ?thesis
    proof (elim disjE conjE exE)
      assume "up c = None" "aa (t_level (fst s')) (plug y c)"
      then show ?thesis using fin up ry by simp
    next
      fix l' t' r' k
      assume k: "length k < length c" "up c = Some t'" "plug y c = plug (Node l' t' r') k" "unbalanced s' l' t' r' k"
      have "aa_done (aa_erase_loop s' (Some t')) s' (inorder (plug y c))" using less.hyps [OF k(1,4)] k(3) by simp
      then show ?thesis using up k(2) y by (simp add: aa_done_def aa_erase_loop.simps [of s "Some t"] inorder_plug)
    qed
  qed
qed

lemma aa_erase_loop_up:
  assumes "shrunk s x c"
  shows "aa_done (aa_erase_loop s (up c)) s (inorder (plug x c))"
  using shrunk_up [OF assms]
proof (elim disjE conjE exE)
  assume "up c = None" "aa (t_level (fst s)) (plug x c)"
  then show ?thesis using assms by (auto simp: aa_done_def aa_erase_loop.simps [of s None] shrunk_def)
next
  fix l t r k
  assume "up c = Some t" "plug x c = plug (Node l t r) k" "unbalanced s l t r k"
  then show ?thesis using aa_erase_loop_ok [of s l t r k] by simp
qed


subsection \<open>Taking the node out\<close>

lemma aa_detach_ok:
  assumes r: "rooted s (plug (Node Leaf n Leaf) c)"
  shows "rooted (aa_detach s n) (plug Leaf c)" "t_level (fst (aa_detach s n)) = t_level (fst s)"
    "bt_size (snd (aa_detach s n)) = bt_size (snd s)"
proof -
  obtain h b where s: "s = (h, b)" by (cases s)
  have lk: "linked h None (plug (Node Leaf n Leaf) c)" "distinct (inorder (plug (Node Leaf n Leaf) c))" "t_parent h n = up c" "linked_path h (Some n) c"
    using r rooted_links [OF r] by (simp_all add: s rooted_def)
  have eq: "aa_detach s n = (set_child h c None, if c = [] then b\<lparr> bt_root := None \<rparr> else b)"
    using replace_child_ok [OF lk(1,2)] lk(3) by (simp add: aa_detach_def s)
  have d: "distinct (before c @ after c)" using lk(2) by (auto simp: inorder_plug)
  have "linked (set_child h c None) None (plug Leaf c)" using set_child_path [OF lk(4) d] by (simp add: linked_plug)
  moreover have "root_of (Some n) c = root_of None c" if "c \<noteq> []" using root_of_step [OF that] .
  ultimately show "rooted (aa_detach s n) (plug Leaf c)" using r d unfolding eq by (auto simp: rooted_def s rt_plug inorder_plug)
  show "t_level (fst (aa_detach s n)) = t_level (fst s)" "bt_size (snd (aa_detach s n)) = bt_size (snd s)" unfolding eq by (simp_all add: s)
qed

lemma aa_take_place_ok:
  assumes r: "rooted s (plug (Node l m r) c)" and n: "n \<notin> set_tree (plug (Node l m r) c)"
  shows "rooted (aa_take_place s m n) (plug (Node l n r) c)"
    "t_level (fst (aa_take_place s m n)) = (t_level (fst s))(n := t_level (fst s) m)"
    "bt_size (snd (aa_take_place s m n)) = bt_size (snd s)"
proof -
  obtain h b where s: "s = (h, b)" by (cases s)
  have lk: "linked h None (plug (Node l m r) c)" and d: "distinct (before c @ inorder l @ m # inorder r @ after c)"
    using r by (simp_all add: s rooted_def inorder_plug)
  have up: "t_parent h m = up c" "t_left h m = rt l" "t_right h m = rt r" "linked h (Some m) l" "linked h (Some m) r" "linked_path h (Some m) c"
    using rooted_links [OF r] by (simp_all add: s)
  have ne: "n \<noteq> m" "n \<notin> set_tree l" "n \<notin> set_tree r" "n \<notin> nodes_path c" using n by (auto simp: set_plug)
  have dis: "set_tree l \<inter> set_tree r = {}" "set_tree l \<inter> nodes_path c = {}" "set_tree r \<inter> nodes_path c = {}" "m \<notin> nodes_path c"
    "distinct (inorder l)" "distinct (inorder r)" "distinct (before c @ after c)" using d by (auto simp: set_path)
  have un: "up c \<noteq> Some m" "up c \<noteq> Some n" using up_path dis(4) ne(4) by blast+
  have ml: "rt l \<noteq> Some m" "rt r \<noteq> Some m" "rt l \<noteq> Some n" "rt r \<noteq> Some n" using d ne by (auto dest!: rt_mem)
  let ?k = "set_right (adopt (set_left (adopt (set_parent (set_child h c (Some n)) n (up c)) (rt l) n) n (rt l)) (rt r) n) n (rt r)"
  have rep: "replace_child (h, b) (up c) m (Some n) = (set_child h c (Some n), if c = [] then b\<lparr> bt_root := Some n \<rparr> else b)"
    using replace_child_ok [OF lk] d by (simp add: inorder_plug)
  have eq: "aa_take_place s m n = (set_level ?k n (t_level h m), if c = [] then b\<lparr> bt_root := Some n \<rparr> else b)"
    using up ne un ml rep by (simp add: aa_take_place_def s Let_def set_child_links del: replace_child.simps)
  have "linked_path (set_child h c (Some n)) (Some n) c" using set_child_path [OF up(6) dis(7)] .
  moreover have "linked (adopt (set_child h c (Some n)) (rt l) n) (Some n) l" "linked (adopt (set_child h c (Some n)) (rt r) n) (Some n) r"
    using up(4,5) dis by (auto intro!: adopt_linked [of _ "Some m"] simp: set_child_linked)
  moreover have ap: "adopt (set_left g x y) q w = set_left (adopt g q w) x y" "adopt (set_parent g n p) q w = set_parent (adopt g q w) n p" if "q \<noteq> Some n" for g :: aa_store and x y p q w
    using that by (cases q; simp add: adopt_def set_left_def set_parent_def fun_upd_twist)+
  moreover have rl: "set_tree r \<inter> set_tree l = {}" using dis(1) by blast
  have "linked (adopt (adopt (set_child h c (Some n)) (rt l) n) (rt r) n) (Some n) l"
    by (subst adopt_frame [OF rl]) fact
  moreover have "linked (adopt (adopt (set_child h c (Some n)) (rt l) n) (rt r) n) (Some n) r"
    using up(5) dis by (intro adopt_linked [of _ "Some m"]) (simp_all add: adopt_frame set_child_linked)
  ultimately have "linked ?k None (plug (Node l n r) c)"
    using ne dis ml by (simp add: linked_plug adopt_path)
  moreover have "root_of (Some m) c = root_of (Some n) c" if "c \<noteq> []" using root_of_step [OF that] .
  ultimately show "rooted (aa_take_place s m n) (plug (Node l n r) c)" using r d ne unfolding eq by (auto simp: rooted_def s rt_plug inorder_plug set_path)
  show "t_level (fst (aa_take_place s m n)) = (t_level (fst s))(n := t_level (fst s) m)"
    "bt_size (snd (aa_take_place s m n)) = bt_size (snd s)" unfolding eq by (simp_all add: s)
qed

lemma aa_path_rename:
  "a \<notin> nodes_path d \<Longrightarrow> a \<notin> set_tree r \<Longrightarrow> a \<notin> nodes_path c \<Longrightarrow>
   aa_path (lv(a := lv n)) k x (d @ L a r # c) = aa_path lv k x (d @ L n r # c)"
  by (induction lv k x d rule: aa_path.induct) auto


definition is_aa :: "order \<Rightarrow> aa_state \<Rightarrow> nat list \<Rightarrow> bool" where
  "is_aa cmp s xs \<longleftrightarrow> weak_order cmp \<and> sorted_wrt cmp xs \<and> (\<exists>t. inorder t = xs \<and> shaped s t \<and> aa (t_level (fst s)) t)"

lemma is_aa_bst: "is_aa cmp s xs \<Longrightarrow> is_bst cmp s xs"
  by (auto simp: is_aa_def is_bst_def)

lemma more_level: "tree_store.more h = tree_store.more h' \<Longrightarrow> t_level h = t_level (h' :: aa_store)"
  by (cases h; cases h') simp

lemma AA_insert_ok:
  assumes "is_aa cmp s xs" "item \<notin> set xs"
  shows "\<exists>s' n. AA_insert cmp s item = Some (Inr (s', n, \<not> (\<exists>y \<in> set xs. same_key cmp item y))) \<and>
     is_aa cmp s' (spec_insert cmp item xs)"
proof -
  obtain t where t: "weak_order cmp" "sorted_wrt cmp (inorder t)" "shaped s t" "inorder t = xs" "aa (t_level (fst s)) t"
    using assms(1) by (auto simp: is_aa_def)
  have "item \<notin> set (inorder t)" using assms(2) t(4) by simp
  with t(1-3) show ?thesis
  proof (cases rule: BinTree_insert_cases)
    case (dup m)
    then show ?thesis using assms(1) t(4) by (auto simp: AA_insert_def AA_insert_at_def BinTree_insert_def spec_insert_def)
  next
    case (new c s1)
    let ?t = "plug (Node Leaf item Leaf) c" and ?s2 = "(set_level (fst s1) item 1, snd s1)"
    have io: "inorder ?t = spec_insert cmp item xs" "sorted_wrt cmp (inorder ?t)" using place_split [OF t(1,2) new(2,3)] t(4) by simp_all
    have lv: "t_level (fst s1) = t_level (fst s)" using more_level [OF new(5)] .
    have rt: "rooted s1 ?t" using new(4) sorted_distinct [OF t(1) io(2)] by (simp add: rooted_def shaped_def)
    then have ic: "item \<notin> nodes_path c" by (auto simp: rooted_def inorder_plug set_path)
    have "aa_path (t_level (fst s)) 0 False c = aa_path (t_level (fst s)) 0 True c" by (cases c rule: nodes_path.cases) simp_all
    then have "aa_path (t_level (fst s)) 0 False c" using t(5) new(2) aa_plug [of "t_level (fst s)" Leaf c] by simp
    then have "grown ?s2 Leaf item Leaf c" using rt lv ic by (cases s1) (simp add: grown_def)
    from aa_balance_ok [OF this] obtain s' u where u: "aa_balance ?s2 item = Some (Inr s')" "rooted s' u" "inorder u = inorder ?t"
      "aa (t_level (fst s')) u" "bt_size (snd s') = bt_size (snd s1)" by (auto simp: aa_done_def)
    have "is_aa cmp s' (spec_insert cmp item xs)"
      using t(1) io u new(4) unfolding is_aa_def shaped_def rooted_def by (metis (no_types))
    then show ?thesis using new(1) u(1) place_split(3) [OF t(1,2) new(2,3)] t(4)
      by (auto simp: AA_insert_def AA_insert_at_def BinTree_insert_def)
  qed
qed

text \<open>The state in which the loop of the erasure starts, and the node it starts at.\<close>

lemma aa_removal:
  assumes r: "rooted s (plug (Node l n r) c)" and a: "aa (t_level (fst s)) (plug (Node l n r) c)"
  obtains m where "aa_substitute (fst s) n = Some m"
    "aa_done (aa_erase_loop (aa_take_place (aa_detach s m) n m) (if t_parent (fst s) m = Some n then Some m else t_parent (fst s) m)) s
       (before c @ inorder l @ inorder r @ after c)"
proof (cases l)
  case Leaf
  let ?lv = "t_level (fst s)"
  have lk: "t_parent (fst s) n = up c" "t_left (fst s) n = None" "t_right (fst s) n = rt r" using rooted_links [OF r] Leaf by simp_all
  have un: "up c \<noteq> Some n" using r up_path [of c n] by (auto simp: rooted_def inorder_plug set_path)
  show thesis
  proof (cases r)
    case r0: Leaf
    have "shrunk (aa_detach s n) Leaf c" using aa_detach_ok [of s n c] r a Leaf r0 by (auto simp: shrunk_def aa_plug)
    then show thesis using that [of n] aa_erase_loop_up [of "aa_detach s n" Leaf c] aa_detach_ok(3) [of s n c] r lk un Leaf r0
      by (simp add: aa_substitute_def aa_take_place_def aa_done_def inorder_plug)
  next
    case (Node x m y)
    have xy: "x = Leaf" "y = Leaf" using a Leaf Node by (auto simp: aa_plug)
    have rm: "rooted s (plug (Node Leaf m Leaf) (R Leaf n # c))" using r Leaf Node xy by simp
    note d = aa_detach_ok [OF rm]
    have mn: "m \<notin> set_tree (plug (Node Leaf n Leaf) c)" "m \<notin> nodes_path c" using rm by (auto simp: set_plug rooted_def inorder_plug set_path)
    note t = aa_take_place_ok [OF d(1) [unfolded plug.simps] mn(1)]
    have "unbalanced (aa_take_place (aa_detach s m) n m) Leaf m Leaf c"
      unfolding unbalanced_def Let_def t(2) d(2) using t(1) a Leaf Node xy mn(2) by (auto simp: aa_plug)
    from aa_erase_loop_ok [OF this] show thesis
      using that [of m] rooted_links(1) [OF rm] lk(2,3) t(3) d(3) Leaf Node xy by (simp add: aa_substitute_def aa_done_def inorder_plug)
  qed
next
  case (Node x y z)
  let ?lv = "t_level (fst s)" and ?m = "last (inorder l)"
  obtain k d where f: "l = plug (Node k ?m Leaf) d" "after d = []" using rightmost_focus [of l] Node by auto
  define m where "m = last (inorder l)"
  have p: "plug (Node l n r) c = plug (Node k m Leaf) (d @ L n r # c)" using f(1) by (simp add: m_def plug_append)
  have "aa ?lv (Node k m Leaf)" using a unfolding p aa_plug by blast
  then have k: "k = Leaf" "?lv m = 1" by auto
  have rm: "rooted s (plug (Node Leaf m Leaf) (d @ L n r # c))" using r p k by simp
  note dt = aa_detach_ok [OF rm]
  have lk: "t_left (fst s) n = Some y" "linked (fst s) (Some n) l" "rt l = Some y" using rooted_links [OF r] Node by simp_all
  have pm: "t_parent (fst s) m = up (d @ L n r # c)" using rooted_links [OF rm] by simp
  have mn: "m \<notin> set_tree (plug (Node (plug Leaf d) n r) c)" "m \<notin> nodes_path d" "m \<notin> set_tree r" "m \<notin> nodes_path c"
    using rm by (auto simp: set_plug rooted_def inorder_plug set_path before_append)
  have nd: "n \<notin> nodes_path d" using rm by (auto simp: rooted_def inorder_plug set_path before_append)
  note t = aa_take_place_ok [OF dt(1) [unfolded plug_append plug.simps] mn(1)]
  let ?s = "aa_take_place (aa_detach s m) n m" and ?c = "d @ L m r # c"
  have "aa_path ?lv 1 True (d @ L n r # c)" using a k(2) unfolding p aa_plug by (simp add: k(1))
  then have "aa_path (t_level (fst ?s)) 1 True ?c" unfolding t(2) dt(2) using aa_path_rename [OF mn(2-4)] by simp
  moreover have "rooted ?s (plug Leaf ?c)" using t(1) by (simp add: plug_append)
  ultimately have "shrunk ?s Leaf ?c" unfolding shrunk_def by auto
  moreover have "(if t_parent (fst s) m = Some n then Some m else t_parent (fst s) m) = up ?c"
    using pm nd by (cases d rule: nodes_path.cases) auto
  moreover have "inorder l = before d @ [m]" using arg_cong [OF f(1), of inorder] f(2) k(1) by (simp add: m_def inorder_plug)
  then have "inorder (plug Leaf ?c) = before c @ inorder l @ inorder r @ after c" using f(2) by (simp add: inorder_plug before_append)
  ultimately have "aa_done (aa_erase_loop ?s (if t_parent (fst s) m = Some n then Some m else t_parent (fst s) m)) s
       (before c @ inorder l @ inorder r @ after c)"
    using aa_erase_loop_up [of ?s Leaf ?c] t(3) dt(3) unfolding aa_done_def by simp
  moreover have "aa_substitute (fst s) n = Some m" using rightmost_last [OF lk(2,3)] lk(1) by (simp add: aa_substitute_def m_def)
  ultimately show thesis using that by blast
qed

lemma AA_erase_node:
  assumes s: "is_aa cmp s xs" and n: "n \<in> set xs"
  shows "\<exists>s'. AA_erase_at s (Some n) = Some (Inr (s', Some n)) \<and> is_aa cmp s' (remove1 n xs)"
proof -
  obtain t where t: "inorder t = xs" "shaped s t" "aa (t_level (fst s)) t" and ord: "weak_order cmp" and srt: "sorted_wrt cmp xs"
    using s by (auto simp: is_aa_def)
  have dx: "distinct xs" by (rule sorted_distinct [OF ord srt])
  obtain l r c where f: "t = plug (Node l n r) c" using focus_ex n t(1) set_inorder by metis
  have rs: "rooted s (plug (Node l n r) c)" "bt_size (snd s) = length xs" using t dx f by (auto simp: shaped_def rooted_def)
  obtain m s1 u where m: "aa_substitute (fst s) n = Some m" "aa_erase_loop (aa_take_place (aa_detach s m) n m)
      (if t_parent (fst s) m = Some n then Some m else t_parent (fst s) m) = Some (Inr s1)"
    and u: "rooted s1 u" "inorder u = before c @ inorder l @ inorder r @ after c" "aa (t_level (fst s1)) u" "bt_size (snd s1) = bt_size (snd s)"
    using aa_removal [OF rs(1)] t(3) f unfolding aa_done_def by metis
  have xs: "remove1 n xs = inorder u"
    using remove1_middle [of n "before c @ inorder l" "inorder r @ after c"] dx t(1) u(2) by (auto simp: f inorder_plug)
  have "n \<notin> set_tree u" using dx xs set_inorder [of u] set_remove1_eq [OF dx, of n] by auto
  moreover have "length xs = Suc (length (inorder u))" using n length_remove1 [of n xs] xs by (cases xs) auto
  ultimately have "shaped (unlink_item s1 n) u"
    using unlink_ok [of "fst s1" u n "snd s1"] u(1,4) rs(2) by (simp add: rooted_def)
  moreover have "t_level (fst (unlink_item s1 n)) = t_level (fst s1)" by (cases s1) (simp add: Let_def)
  ultimately have "is_aa cmp (unlink_item s1 n) (remove1 n xs)"
    using ord sorted_wrt_remove1 [OF srt] xs u(3) unfolding is_aa_def by metis
  then show ?thesis using m by (simp add: AA_erase_at_def Let_def)
qed

lemma AA_erase_ok:
  assumes "is_aa cmp s xs"
  shows "\<exists>s'. AA_erase cmp s item = Some (Inr (s', List.find (same_key cmp item) xs)) \<and> is_aa cmp s' (spec_erase cmp item xs)"
proof (cases "List.find (same_key cmp item) xs")
  case None
  then show ?thesis using BinTree_find_ok [OF is_aa_bst [OF assms], of item] assms by (auto simp: AA_erase_def AA_search_BinTree AA_erase_at_def spec_erase_def)
next
  case (Some n)
  then show ?thesis using BinTree_find_ok [OF is_aa_bst [OF assms], of item] AA_erase_node [OF assms, of n] find_SomeD [OF Some]
    by (auto simp: AA_erase_def AA_search_BinTree spec_erase_def)
qed

text \<open>A call that ends without following a null pointer.\<close>

definition returned :: "'a result option \<Rightarrow> 'a option" where
  "returned r = (case r of Some (Inr x) \<Rightarrow> Some x | _ \<Rightarrow> None)"

interpretation aa_tree: ordered_container cmp "is_aa cmp" "\<lambda>s x. returned (AA_insert cmp s x)" "\<lambda>s x. returned (AA_erase cmp s x)"
proof
  fix s xs x
  show "is_aa cmp s xs \<Longrightarrow> sorted_wrt cmp xs" by (simp add: is_aa_def)
  show "is_aa cmp s xs \<Longrightarrow> x \<notin> set xs \<Longrightarrow>
      \<exists>s' n. returned (AA_insert cmp s x) = Some (s', n, \<not> (\<exists>y \<in> set xs. same_key cmp x y)) \<and> is_aa cmp s' (spec_insert cmp x xs)"
    using AA_insert_ok [of cmp s xs x] by (auto simp: returned_def)
  show "is_aa cmp s xs \<Longrightarrow> \<exists>s'. returned (AA_erase cmp s x) = Some (s', List.find (same_key cmp x) xs) \<and> is_aa cmp s' (spec_erase cmp x xs)"
    using AA_erase_ok [of cmp s xs x] by (auto simp: returned_def)
qed

lemma is_aa_empty: "weak_order cmp \<Longrightarrow> is_aa cmp (h, \<lparr> bt_size = 0, bt_root = None \<rparr>) []"
  by (auto simp: is_aa_def shaped_def intro!: exI [of _ Leaf])

subsection \<open>Height\<close>

lemma aa_size: "aa lv t \<Longrightarrow> 2 ^ lvl lv t \<le> Suc (size t)"
proof (induction t)
  case (Node l n r)
  then have "2 ^ lvl lv l \<le> Suc (size l)" "2 ^ lvl lv r \<le> Suc (size r)" by simp_all
  moreover have "(2 :: nat) ^ lvl lv l \<le> 2 ^ lvl lv r" using Node.prems by (intro power_increasing) auto
  ultimately have "2 * 2 ^ lvl lv l \<le> Suc (Suc (size l + size r))" by linarith
  then show ?case using Node.prems by simp
qed simp

lemma aa_height: "aa lv t \<Longrightarrow> height t \<le> 2 * lvl lv t \<and> (one_level lv t \<longrightarrow> height t \<le> 2 * lvl lv t - 1)"
proof (induction t)
  case (Node l n r)
  then show ?case by (cases "lvl lv r = lvl lv l") auto
qed simp

lemma aa_balanced:
  assumes "aa lv t"
  shows "2 ^ ((height t + 1) div 2) \<le> Suc (length (inorder t))"
proof -
  have "(height t + 1) div 2 \<le> lvl lv t" using aa_height [OF assms] by arith
  then have "(2 :: nat) ^ ((height t + 1) div 2) \<le> 2 ^ lvl lv t" by (intro power_increasing) simp_all
  also have "\<dots> \<le> Suc (length (inorder t))" using aa_size [OF assms] by simp
  finally show ?thesis .
qed

subsection \<open>Properties\<close>

text \<open>
  C2. The AA tree refines a sorted sequence of nodes: any sequence of insertions of unlinked nodes and erasures
  by key ends without following a null pointer, leaves the specified sequence in symmetric order, and keeps the
  levels, so that the height stays logarithmic in the number of nodes.
\<close>

theorem AA_refines_sorted:
  assumes "weak_order cmp" and "spec_order cmp ops [] = Some xs"
  shows "\<exists>s t. run_order (\<lambda>s x. returned (AA_insert cmp s x)) (\<lambda>s x. returned (AA_erase cmp s x)) ops (h, \<lparr> bt_size = 0, bt_root = None \<rparr>) = Some s \<and>
     is_aa cmp s xs \<and> BinTree_items cmp s = Some xs \<and> shaped s t \<and> inorder t = xs \<and> 2 ^ ((height t + 1) div 2) \<le> Suc (length xs) \<and>
     AA_find cmp s item = Some (List.find (same_key cmp item) xs)"
proof -
  obtain s where s: "run_order (\<lambda>s x. returned (AA_insert cmp s x)) (\<lambda>s x. returned (AA_erase cmp s x)) ops (h, \<lparr> bt_size = 0, bt_root = None \<rparr>) = Some s"
    "is_aa cmp s xs" using aa_tree.run_order_ok [OF is_aa_empty [OF assms(1)] assms(2)] by blast
  then obtain t where t: "shaped s t" "inorder t = xs" "aa (t_level (fst s)) t" by (auto simp: is_aa_def)
  then show ?thesis using s iteration_ok(1) [OF is_aa_bst [OF s(2)]] aa_balanced [OF t(3)] BinTree_find_ok [OF is_aa_bst [OF s(2)], of item]
    by (auto simp: AA_search_BinTree)
qed

theorem AA_refines_sorted_witness:
  "\<exists>s. run_order (\<lambda>s x. returned (AA_insert (<) s x)) (\<lambda>s x. returned (AA_erase (<) s x)) [Add 3, Add 2, Add 1, Add 4, Del 2]
       (\<lparr> t_parent = Map.empty, t_left = Map.empty, t_right = Map.empty, t_level = \<lambda>n. 0 \<rparr>, \<lparr> bt_size = 0, bt_root = None \<rparr>) = Some s \<and>
     is_aa (<) s [1, 3, 4]"
proof -
  have "spec_order (<) [Add 3, Add 2, Add 1, Add 4, Del 2] [] = Some [1, 3, 4]" by (auto simp: spec_insert_def spec_erase_def same_key_def)
  moreover have "weak_order (<)" by (auto simp: weak_order_def)
  ultimately show ?thesis
    using AA_refines_sorted [of "(<)" "[Add 3, Add 2, Add 1, Add 4, Del 2]" "[1, 3, 4]"
        "\<lparr> t_parent = Map.empty, t_left = Map.empty, t_right = Map.empty, t_level = \<lambda>n. 0 \<rparr>" 0] by (auto simp del: run_order.simps)
qed

end
