(* ===== verification/RingQueue.thy ===== *)
theory RingQueue
  imports Interleaving
begin

text \<open>
  The ring queue of \<^verbatim>\<open>include/threads/spsc_ring_queue.h\<close> and \<^verbatim>\<open>include/threads/spsc_ring_queue.inl\<close>
  for one producer and one consumer thread. \<^verbatim>\<open>Enqueue\<close> and \<^verbatim>\<open>Dequeue\<close> are given as sequences of
  accesses to the shared cursors and the buffer, which the two threads interleave in any order. The cursors are
  64-bit words that only grow and wrap around.
\<close>

record 'a ring =
  rq_capacity :: u64
  rq_mask :: u64
  rq_buffer :: "'a list"
  rq_head :: u64
  rq_tail :: u64

definition SPSCRingQueue :: "u64 \<Rightarrow> 'a \<Rightarrow> 'a ring" where
  "SPSCRingQueue capacity blank =
     \<lparr> rq_capacity = capacity - 1, rq_mask = capacity - 1, rq_buffer = replicate (unat capacity) blank,
       rq_head = 0, rq_tail = 0 \<rparr>"

definition SPSC_size :: "'a ring \<Rightarrow> u64" where
  "SPSC_size q = rq_head q - rq_tail q"

definition SPSC_empty :: "'a ring \<Rightarrow> bool" where
  "SPSC_empty q \<longleftrightarrow> SPSC_size q = 0"

subsection \<open>The accesses of the two operations\<close>

datatype 'a enqueue = LoadHead 'a | LoadTail 'a u64 | StoreItem 'a u64 | StoreHead 'a u64

fun Enqueue_step :: "'a ring \<Rightarrow> 'a enqueue \<Rightarrow> 'a ring \<times> ('a enqueue + bool)" where
  "Enqueue_step q (LoadHead item) = (q, Inl (LoadTail item (rq_head q)))"
| "Enqueue_step q (LoadTail item head) =
     (if (head - rq_tail q + 1) AND rq_mask q = 0 then (q, Inr False) else (q, Inl (StoreItem item head)))"
| "Enqueue_step q (StoreItem item head) =
     (q\<lparr> rq_buffer := (rq_buffer q)[unat (head AND rq_mask q) := item] \<rparr>, Inl (StoreHead item head))"
| "Enqueue_step q (StoreHead item head) = (q\<lparr> rq_head := head + 1 \<rparr>, Inr True)"

datatype 'a dequeue = DLoadTail | DLoadHead u64 | DReadItem u64 | DStoreTail u64 'a

fun Dequeue_step :: "'a ring \<Rightarrow> 'a dequeue \<Rightarrow> 'a ring \<times> ('a dequeue + 'a option)" where
  "Dequeue_step q DLoadTail = (q, Inl (DLoadHead (rq_tail q)))"
| "Dequeue_step q (DLoadHead tail) =
     (if (rq_head q - tail) AND rq_mask q = 0 then (q, Inr None) else (q, Inl (DReadItem tail)))"
| "Dequeue_step q (DReadItem tail) = (q, Inl (DStoreTail tail (rq_buffer q ! unat (tail AND rq_mask q))))"
| "Dequeue_step q (DStoreTail tail item) = (q\<lparr> rq_tail := tail + 1 \<rparr>, Inr (Some item))"

text \<open>The operations without interruption.\<close>

definition SPSC_Enqueue :: "'a ring \<Rightarrow> 'a \<Rightarrow> 'a ring \<times> bool" where
  "SPSC_Enqueue q item =
     (let head = rq_head q; tail = rq_tail q
      in if (head - tail + 1) AND rq_mask q = 0 then (q, False)
         else (q\<lparr> rq_buffer := (rq_buffer q)[unat (head AND rq_mask q) := item], rq_head := head + 1 \<rparr>, True))"

definition SPSC_Dequeue :: "'a ring \<Rightarrow> 'a ring \<times> 'a option" where
  "SPSC_Dequeue q =
     (let tail = rq_tail q; head = rq_head q
      in if (head - tail) AND rq_mask q = 0 then (q, None)
         else (q\<lparr> rq_tail := tail + 1 \<rparr>, Some (rq_buffer q ! unat (tail AND rq_mask q))))"

subsection \<open>The system of one producer and one consumer\<close>

text \<open>
  A thread is idle or inside an operation. The system also records the items in the order of the successful
  operations, which the program does not store.
\<close>

record 'a spsc_system =
  sp_ring :: "'a ring"
  sp_producer :: "'a enqueue option"
  sp_consumer :: "'a dequeue option"
  sp_enqueued :: "'a list"
  sp_dequeued :: "'a list"

fun enqueue_item :: "'a enqueue \<Rightarrow> 'a" where
  "enqueue_item (LoadHead x) = x"
| "enqueue_item (LoadTail x head) = x"
| "enqueue_item (StoreItem x head) = x"
| "enqueue_item (StoreHead x head) = x"

inductive spsc_step :: "'a spsc_system \<Rightarrow> 'a spsc_system \<Rightarrow> bool" where
  call_Enqueue: "sp_producer s = None \<Longrightarrow> spsc_step s (s\<lparr> sp_producer := Some (LoadHead x) \<rparr>)"
| run_Enqueue: "sp_producer s = Some p \<Longrightarrow> Enqueue_step (sp_ring s) p = (q, Inl p') \<Longrightarrow>
    spsc_step s (s\<lparr> sp_ring := q, sp_producer := Some p' \<rparr>)"
| return_Enqueue: "sp_producer s = Some p \<Longrightarrow> Enqueue_step (sp_ring s) p = (q, Inr b) \<Longrightarrow>
    spsc_step s (s\<lparr> sp_ring := q, sp_producer := None,
      sp_enqueued := sp_enqueued s @ (if b then [enqueue_item p] else []) \<rparr>)"
| call_Dequeue: "sp_consumer s = None \<Longrightarrow> spsc_step s (s\<lparr> sp_consumer := Some DLoadTail \<rparr>)"
| run_Dequeue: "sp_consumer s = Some c \<Longrightarrow> Dequeue_step (sp_ring s) c = (q, Inl c') \<Longrightarrow>
    spsc_step s (s\<lparr> sp_ring := q, sp_consumer := Some c' \<rparr>)"
| return_Dequeue: "sp_consumer s = Some c \<Longrightarrow> Dequeue_step (sp_ring s) c = (q, Inr r) \<Longrightarrow>
    spsc_step s (s\<lparr> sp_ring := q, sp_consumer := None,
      sp_dequeued := sp_dequeued s @ (case r of None \<Rightarrow> [] | Some x \<Rightarrow> [x]) \<rparr>)"

definition spsc_start :: "u64 \<Rightarrow> 'a \<Rightarrow> 'a spsc_system \<Rightarrow> bool" where
  "spsc_start capacity blank s \<longleftrightarrow>
     s = \<lparr> sp_ring = SPSCRingQueue capacity blank, sp_producer = None, sp_consumer = None,
           sp_enqueued = [], sp_dequeued = [] \<rparr>"

subsection \<open>Cursor arithmetic\<close>

text \<open>The constructor asserts that the capacity is a power of two greater than one.\<close>

definition ring_size :: "u64 \<Rightarrow> nat \<Rightarrow> bool" where
  "ring_size capacity k \<longleftrightarrow> 0 < k \<and> k < 64 \<and> capacity = 2 ^ k"

lemma ring_size_mask:
  assumes "ring_size capacity k"
  shows "capacity - 1 = mask k" "unat capacity = 2 ^ k" "0 < k" "k < 64" "(2 :: nat) \<le> 2 ^ k"
proof -
  have k: "0 < k" "k < 64" using assms by (auto simp: ring_size_def)
  have p: "(2 :: nat) ^ k < 2 ^ 64" using k by (intro power_strict_increasing) simp_all
  show "capacity - 1 = mask k" using assms by (simp add: ring_size_def mask_eq_exp_minus_1)
  have "capacity = of_nat (2 ^ k)" using assms by (simp add: ring_size_def)
  then show "unat capacity = 2 ^ k" using p by (simp only: unsigned_of_nat) (simp add: take_bit_nat_eq_self k)
  show "0 < k" "k < 64" by (fact k)+
  show "(2 :: nat) \<le> 2 ^ k" using k by (cases k) auto
qed

lemma unat_index: "k < 64 \<Longrightarrow> unat ((of_nat n :: u64) AND mask k) = n mod 2 ^ k"
  by (simp add: take_bit_eq_mask [symmetric] unsigned_take_bit_eq unsigned_of_nat take_bit_nat_def [symmetric] min_def)

lemma index_zero: "k < 64 \<Longrightarrow> (of_nat n :: u64) AND mask k = 0 \<longleftrightarrow> n mod 2 ^ k = 0"
  using unat_index [of k n] by (metis unat_0 unat_eq_zero)

lemma cursor_diff: "t \<le> h \<Longrightarrow> (of_nat h :: u64) - of_nat t = of_nat (h - t)"
  by (simp add: of_nat_diff)

lemma full_iff:
  assumes "k < 64" "t \<le> h" "h - t < 2 ^ k"
  shows "((of_nat h :: u64) - of_nat t + 1) AND mask k = 0 \<longleftrightarrow> Suc (h - t) = 2 ^ k"
proof -
  have "(of_nat h :: u64) - of_nat t + 1 = of_nat (Suc (h - t))" using assms(2) by (simp add: of_nat_diff)
  moreover have "Suc (h - t) mod 2 ^ k = 0 \<longleftrightarrow> Suc (h - t) = 2 ^ k"
    using assms(3) by (cases "Suc (h - t) = 2 ^ k") auto
  ultimately show ?thesis using index_zero [OF assms(1), of "Suc (h - t)"] by (simp only:)
qed

lemma empty_iff:
  assumes "k < 64" "t \<le> h" "h - t < 2 ^ k"
  shows "((of_nat h :: u64) - of_nat t) AND mask k = 0 \<longleftrightarrow> h = t"
proof -
  have "(h - t) mod 2 ^ k = 0 \<longleftrightarrow> h = t" using assms(2,3) by auto
  then show ?thesis using index_zero [OF assms(1), of "h - t"] by (simp only: cursor_diff [OF assms(2)])
qed

lemma mod_window: "i < j \<Longrightarrow> j - i < n \<Longrightarrow> i mod n \<noteq> j mod (n :: nat)"
  by (metis mod_eq_dvd_iff_nat nat_dvd_not_less less_imp_le zero_less_diff)

subsection \<open>The items in a ring\<close>

text \<open>The ring holds the given items from the cursor position on, counted without wrap-around.\<close>

definition ring_at :: "nat \<Rightarrow> 'a ring \<Rightarrow> nat \<Rightarrow> 'a list \<Rightarrow> bool" where
  "ring_at k q t xs \<longleftrightarrow> 0 < k \<and> k < 64 \<and> rq_mask q = mask k \<and> rq_capacity q = mask k \<and> length (rq_buffer q) = 2 ^ k \<and>
     rq_tail q = of_nat t \<and> rq_head q = of_nat (t + length xs) \<and> length xs < 2 ^ k \<and>
     (\<forall>i < length xs. rq_buffer q ! ((t + i) mod 2 ^ k) = xs ! i)"

lemma ring_at_start: "ring_size capacity k \<Longrightarrow> ring_at k (SPSCRingQueue capacity blank) 0 []"
  using ring_size_mask [of capacity k] by (simp add: ring_at_def SPSCRingQueue_def)

lemma ring_atD:
  assumes "ring_at k q t xs"
  shows "k < 64" "0 < k" "rq_mask q = mask k" "length (rq_buffer q) = 2 ^ k" "rq_tail q = of_nat t"
    "rq_head q = of_nat (t + length xs)" "length xs < 2 ^ k"
  using assms by (auto simp: ring_at_def)

lemma ring_index:
  assumes "ring_at k q t xs"
  shows "unat (of_nat n AND rq_mask q) = n mod 2 ^ k" "unat (of_nat n AND rq_mask q) < length (rq_buffer q)"
  using ring_atD [OF assms] by (simp_all add: unat_index)

lemma ring_full:
  assumes "ring_at k q t xs"
  shows "(rq_head q - rq_tail q + 1) AND rq_mask q = 0 \<longleftrightarrow> Suc (length xs) = 2 ^ k"
  using full_iff [of k t "t + length xs"] ring_atD [OF assms] by simp

lemma ring_empty:
  assumes "ring_at k q t xs"
  shows "(rq_head q - rq_tail q) AND rq_mask q = 0 \<longleftrightarrow> xs = []"
  using empty_iff [of k t "t + length xs"] ring_atD [OF assms] by simp

lemma ring_SPSC_size:
  assumes "ring_at k q t xs"
  shows "unat (SPSC_size q) = length xs"
proof -
  have "(2 :: nat) ^ k < 2 ^ 64" using ring_atD(1) [OF assms] by (intro power_strict_increasing) simp_all
  then have "length xs < 2 ^ 64" using ring_atD(7) [OF assms] by simp
  then show ?thesis using ring_atD [OF assms] by (simp add: SPSC_size_def unsigned_of_nat take_bit_nat_eq_self)
qed

lemma ring_store:
  assumes "ring_at k q t xs" "q' = q\<lparr> rq_buffer := (rq_buffer q)[unat (rq_head q AND rq_mask q) := x] \<rparr>"
  shows "ring_at k q' t xs" "rq_buffer q' ! ((t + length xs) mod 2 ^ k) = x"
proof -
  note d = ring_atD [OF assms(1)]
  have i: "unat (rq_head q AND rq_mask q) = (t + length xs) mod 2 ^ k" using ring_index(1) [OF assms(1), of "t + length xs"] d by simp
  have "(t + length xs) mod 2 ^ k \<noteq> (t + j) mod 2 ^ k" if "j < length xs" for j
    using mod_window [of "t + j" "t + length xs" "2 ^ k"] that d(7) by (metis add_less_cancel_left diff_add_inverse2 diff_cancel2 diff_le_self add.commute order_le_less_trans)
  moreover have "q' = q\<lparr> rq_buffer := (rq_buffer q)[(t + length xs) mod 2 ^ k := x] \<rparr>" using assms(2) by (simp only: i)
  ultimately show "ring_at k q' t xs" using assms(1) by (auto simp: ring_at_def)
  show "rq_buffer q' ! ((t + length xs) mod 2 ^ k) = x" using assms(2) d(4) by (simp add: i)
qed

lemma ring_push:
  assumes "ring_at k q t xs" "Suc (length xs) < 2 ^ k" "rq_buffer q ! ((t + length xs) mod 2 ^ k) = x"
  shows "ring_at k (q\<lparr> rq_head := rq_head q + 1 \<rparr>) t (xs @ [x])"
  using assms by (auto simp: ring_at_def nth_append less_Suc_eq)

lemma ring_pop:
  assumes "ring_at k q t (x # xs)"
  shows "ring_at k (q\<lparr> rq_tail := rq_tail q + 1 \<rparr>) (Suc t) xs"
  using assms by (auto simp: ring_at_def)

lemma ring_first:
  assumes "ring_at k q t (x # xs)"
  shows "rq_buffer q ! unat (rq_tail q AND rq_mask q) = x"
  using assms ring_index(1) [OF assms, of t] by (auto simp: ring_at_def)

subsection \<open>The operations without interruption\<close>

lemma SPSC_Enqueue_ok:
  assumes "ring_at k q t xs"
  shows "SPSC_Enqueue q x = (if Suc (length xs) = 2 ^ k then (q, False) else (fst (SPSC_Enqueue q x), True))"
    "Suc (length xs) \<noteq> 2 ^ k \<Longrightarrow> ring_at k (fst (SPSC_Enqueue q x)) t (xs @ [x])"
proof -
  show "SPSC_Enqueue q x = (if Suc (length xs) = 2 ^ k then (q, False) else (fst (SPSC_Enqueue q x), True))"
    by (simp add: SPSC_Enqueue_def Let_def ring_full [OF assms])
  assume n: "Suc (length xs) \<noteq> 2 ^ k"
  let ?q = "q\<lparr> rq_buffer := (rq_buffer q)[unat (rq_head q AND rq_mask q) := x] \<rparr>"
  have "ring_at k (?q\<lparr> rq_head := rq_head ?q + 1 \<rparr>) t (xs @ [x])"
    using n ring_atD(7) [OF assms] by (intro ring_push ring_store [OF assms]) auto
  then show "ring_at k (fst (SPSC_Enqueue q x)) t (xs @ [x])" using n by (simp add: SPSC_Enqueue_def Let_def ring_full [OF assms])
qed

lemma SPSC_Dequeue_ok:
  assumes "ring_at k q t xs"
  shows "xs = [] \<Longrightarrow> SPSC_Dequeue q = (q, None)"
    "xs = x # ys \<Longrightarrow> SPSC_Dequeue q = (q\<lparr> rq_tail := rq_tail q + 1 \<rparr>, Some x)"
  using ring_empty [OF assms] ring_first [of k q t x ys] assms by (auto simp: SPSC_Dequeue_def Let_def)

subsection \<open>The invariant of the interleaving\<close>

fun producer_ok :: "nat \<Rightarrow> 'a ring \<Rightarrow> nat \<Rightarrow> nat \<Rightarrow> 'a enqueue \<Rightarrow> bool" where
  "producer_ok k q t n (LoadHead x) \<longleftrightarrow> True"
| "producer_ok k q t n (LoadTail x head) \<longleftrightarrow> head = rq_head q"
| "producer_ok k q t n (StoreItem x head) \<longleftrightarrow> head = rq_head q \<and> Suc n < 2 ^ k"
| "producer_ok k q t n (StoreHead x head) \<longleftrightarrow> head = rq_head q \<and> Suc n < 2 ^ k \<and> rq_buffer q ! ((t + n) mod 2 ^ k) = x"

fun consumer_ok :: "'a ring \<Rightarrow> 'a list \<Rightarrow> 'a dequeue \<Rightarrow> bool" where
  "consumer_ok q xs DLoadTail \<longleftrightarrow> True"
| "consumer_ok q xs (DLoadHead tail) \<longleftrightarrow> tail = rq_tail q"
| "consumer_ok q xs (DReadItem tail) \<longleftrightarrow> tail = rq_tail q \<and> xs \<noteq> []"
| "consumer_ok q xs (DStoreTail tail x) \<longleftrightarrow> tail = rq_tail q \<and> xs \<noteq> [] \<and> hd xs = x"

definition spsc_inv :: "nat \<Rightarrow> 'a spsc_system \<Rightarrow> bool" where
  "spsc_inv k s \<longleftrightarrow> (\<exists>xs. sp_enqueued s = sp_dequeued s @ xs \<and> ring_at k (sp_ring s) (length (sp_dequeued s)) xs \<and>
     pred_option (producer_ok k (sp_ring s) (length (sp_dequeued s)) (length xs)) (sp_producer s) \<and>
     pred_option (consumer_ok (sp_ring s) xs) (sp_consumer s))"

lemma Enqueue_step_continue:
  assumes "ring_at k q t xs" "producer_ok k q t (length xs) p" "Enqueue_step q p = (q', Inl p')"
  shows "ring_at k q' t xs \<and> producer_ok k q' t (length xs) p' \<and> (consumer_ok q xs c \<longrightarrow> consumer_ok q' xs c)"
proof (cases p)
  case (LoadTail x head)
  then show ?thesis using assms ring_full [OF assms(1)] ring_atD(7) [OF assms(1)] by (auto split: if_splits)
next
  case (StoreItem x head)
  then have q: "q' = q\<lparr> rq_buffer := (rq_buffer q)[unat (rq_head q AND rq_mask q) := x] \<rparr>" and p: "p' = StoreHead x (rq_head q)"
    "Suc (length xs) < 2 ^ k" using assms(2,3) by auto
  moreover have "consumer_ok q xs c \<longrightarrow> consumer_ok q' xs c" unfolding q by (cases c) auto
  moreover have "rq_head q' = rq_head q" by (simp add: q)
  ultimately show ?thesis using ring_store [OF assms(1) q] by simp
qed (use assms in auto)

lemma Enqueue_step_return:
  assumes "ring_at k q t xs" "producer_ok k q t (length xs) p" "Enqueue_step q p = (q', Inr b)"
  shows "if b then ring_at k q' t (xs @ [enqueue_item p]) \<and> (consumer_ok q xs c \<longrightarrow> consumer_ok q' (xs @ [enqueue_item p]) c)
    else q' = q \<and> Suc (length xs) = 2 ^ k"
proof (cases p)
  case (LoadTail x head)
  then show ?thesis using assms ring_full [OF assms(1)] by (auto split: if_splits)
next
  case (StoreHead x head)
  then show ?thesis using assms ring_push [OF assms(1)] by (cases c) auto
qed (use assms in auto)

lemma Dequeue_step_continue:
  assumes "ring_at k q t xs" "consumer_ok q xs c" "Dequeue_step q c = (q', Inl c')"
  shows "q' = q \<and> consumer_ok q' xs c'"
proof (cases c)
  case (DLoadHead tail)
  then show ?thesis using assms ring_empty [OF assms(1)] by (auto split: if_splits)
next
  case (DReadItem tail)
  then show ?thesis using assms by (cases xs) (auto dest: ring_first)
qed (use assms in auto)

lemma Dequeue_step_return:
  assumes "ring_at k q t xs" "consumer_ok q xs c" "Dequeue_step q c = (q', Inr r)"
  shows "case r of None \<Rightarrow> q' = q \<and> xs = []
    | Some x \<Rightarrow> (\<exists>ys. xs = x # ys \<and> ring_at k q' (Suc t) ys \<and> (\<forall>p. producer_ok k q t (length xs) p \<longrightarrow> producer_ok k q' (Suc t) (length ys) p))"
proof (cases c)
  case (DLoadHead tail)
  then show ?thesis using assms ring_empty [OF assms(1)] by (auto split: if_splits)
next
  case (DStoreTail tail x)
  then obtain ys where "xs = x # ys" using assms(2) by (cases xs) auto
  moreover have "producer_ok k q t (length xs) p \<longrightarrow> producer_ok k q' (Suc t) (length ys) p" for p
    using calculation DStoreTail assms by (cases p) auto
  ultimately show ?thesis using DStoreTail assms ring_pop [of k q t x ys] by auto
qed (use assms in auto)

lemma spsc_inv_step: "spsc_step s s' \<Longrightarrow> spsc_inv k s \<Longrightarrow> spsc_inv k s'"
proof (induction rule: spsc_step.induct)
  case (run_Enqueue s p q p')
  then obtain xs where xs: "sp_enqueued s = sp_dequeued s @ xs" "ring_at k (sp_ring s) (length (sp_dequeued s)) xs"
    "producer_ok k (sp_ring s) (length (sp_dequeued s)) (length xs) p" "pred_option (consumer_ok (sp_ring s) xs) (sp_consumer s)"
    by (auto simp: spsc_inv_def)
  with Enqueue_step_continue [OF xs(2,3) run_Enqueue.hyps(2)] show ?case
    by (cases "sp_consumer s") (auto simp: spsc_inv_def)
next
  case (return_Enqueue s p q b)
  then obtain xs where xs: "sp_enqueued s = sp_dequeued s @ xs" "ring_at k (sp_ring s) (length (sp_dequeued s)) xs"
    "producer_ok k (sp_ring s) (length (sp_dequeued s)) (length xs) p" "pred_option (consumer_ok (sp_ring s) xs) (sp_consumer s)"
    by (auto simp: spsc_inv_def)
  with Enqueue_step_return [OF xs(2,3) return_Enqueue.hyps(2)] show ?case
    by (cases "sp_consumer s") (auto simp: spsc_inv_def split: if_splits)
next
  case (run_Dequeue s c q c')
  then obtain xs where "sp_enqueued s = sp_dequeued s @ xs" "ring_at k (sp_ring s) (length (sp_dequeued s)) xs"
    "pred_option (producer_ok k (sp_ring s) (length (sp_dequeued s)) (length xs)) (sp_producer s)" "consumer_ok (sp_ring s) xs c"
    by (auto simp: spsc_inv_def)
  with Dequeue_step_continue [OF this(2,4) run_Dequeue.hyps(2)] show ?case by (auto simp: spsc_inv_def)
next
  case (return_Dequeue s c q r)
  then obtain xs where xs: "sp_enqueued s = sp_dequeued s @ xs" "ring_at k (sp_ring s) (length (sp_dequeued s)) xs"
    "pred_option (producer_ok k (sp_ring s) (length (sp_dequeued s)) (length xs)) (sp_producer s)" "consumer_ok (sp_ring s) xs c"
    by (auto simp: spsc_inv_def)
  with Dequeue_step_return [OF xs(2,4) return_Dequeue.hyps(2)] show ?case
    by (cases "sp_producer s") (auto simp: spsc_inv_def split: option.splits)
qed (auto simp: spsc_inv_def)

interpretation spsc: step_invariant "spsc_start capacity blank" spsc_step "\<lambda>s. \<forall>k. ring_size capacity k \<longrightarrow> spsc_inv k s"
proof
  show "spsc_start capacity blank s \<Longrightarrow> \<forall>k. ring_size capacity k \<longrightarrow> spsc_inv k s" for s
    using ring_at_start by (fastforce simp: spsc_start_def spsc_inv_def)
qed (auto intro: spsc_inv_step)

lemma spsc_reach: "reach (spsc_start capacity blank) spsc_step s \<Longrightarrow> ring_size capacity k \<Longrightarrow> spsc_inv k s"
  by (rule spsc.reach_inv [rule_format])

lemma ring_capacity: "ring_at k q t xs \<Longrightarrow> unat (rq_capacity q) = 2 ^ k - 1"
  using unat_index [of k "2 ^ k - 1"] by (simp add: ring_at_def of_nat_diff mask_eq_exp_minus_1 [symmetric])

subsection \<open>Wait freedom\<close>

text \<open>The accesses that an operation still has to make.\<close>

fun enqueue_left :: "'a enqueue \<Rightarrow> nat" where
  "enqueue_left (LoadHead x) = 4"
| "enqueue_left (LoadTail x head) = 3"
| "enqueue_left (StoreItem x head) = 2"
| "enqueue_left (StoreHead x head) = 1"

fun dequeue_left :: "'a dequeue \<Rightarrow> nat" where
  "dequeue_left DLoadTail = 4"
| "dequeue_left (DLoadHead tail) = 3"
| "dequeue_left (DReadItem tail) = 2"
| "dequeue_left (DStoreTail tail x) = 1"

lemma enqueue_left_decreases: "Enqueue_step q p = (q', Inl p') \<Longrightarrow> enqueue_left p' < enqueue_left p"
  by (cases p) (auto split: if_splits)

lemma dequeue_left_decreases: "Dequeue_step q c = (q', Inl c') \<Longrightarrow> dequeue_left c' < dequeue_left c"
  by (cases c) (auto split: if_splits)

subsection \<open>Properties\<close>

text \<open>
  C22. The ring queue is first-in-first-out under every interleaving of one producer and one consumer, also when
  the 64-bit cursors wrap around: the dequeued items are a prefix of the enqueued items, the rest is what
  \<^verbatim>\<open>size\<close> counts and never exceeds the capacity, every index is inside the buffer, \<^verbatim>\<open>Enqueue\<close> fails
  only when the queue is full and \<^verbatim>\<open>Dequeue\<close> only when it is empty.
\<close>

theorem SPSCRingQueue_fifo:
  assumes "ring_size capacity k" and "reach (spsc_start capacity blank) spsc_step s"
  shows "\<exists>xs. sp_enqueued s = sp_dequeued s @ xs \<and> unat (SPSC_size (sp_ring s)) = length xs \<and>
     length xs \<le> unat (rq_capacity (sp_ring s)) \<and> (\<forall>i. unat (of_nat i AND rq_mask (sp_ring s)) < length (rq_buffer (sp_ring s))) \<and>
     (\<forall>p q. sp_producer s = Some p \<longrightarrow> Enqueue_step (sp_ring s) p = (q, Inr False) \<longrightarrow> length xs = unat (rq_capacity (sp_ring s))) \<and>
     (\<forall>c q. sp_consumer s = Some c \<longrightarrow> Dequeue_step (sp_ring s) c = (q, Inr None) \<longrightarrow> xs = [])"
proof -
  obtain xs where xs: "sp_enqueued s = sp_dequeued s @ xs" "ring_at k (sp_ring s) (length (sp_dequeued s)) xs"
    "pred_option (producer_ok k (sp_ring s) (length (sp_dequeued s)) (length xs)) (sp_producer s)"
    "pred_option (consumer_ok (sp_ring s) xs) (sp_consumer s)"
    using spsc_reach [OF assms(2,1)] by (auto simp: spsc_inv_def)
  have "length xs = unat (rq_capacity (sp_ring s))" if "sp_producer s = Some p" "Enqueue_step (sp_ring s) p = (q, Inr False)" for p q
    using Enqueue_step_return [OF xs(2) _ that(2)] that(1) xs(3) ring_capacity [OF xs(2)] by (simp add: eq_diff_iff) (metis diff_Suc_1 One_nat_def)
  moreover have "xs = []" if "sp_consumer s = Some c" "Dequeue_step (sp_ring s) c = (q, Inr None)" for c q
    using Dequeue_step_return [OF xs(2) _ that(2)] that(1) xs(4) by simp
  ultimately show ?thesis
    using xs(1) ring_SPSC_size [OF xs(2)] ring_capacity [OF xs(2)] ring_atD(7) [OF xs(2)] ring_index(2) [OF xs(2)]
    by (intro exI [of _ xs]) auto
qed

theorem SPSCRingQueue_fifo_witness:
  "\<exists>s :: nat spsc_system. reach (spsc_start 4 0) spsc_step s \<and> sp_producer s = Some (LoadHead 7) \<and>
     (\<exists>xs. sp_enqueued s = sp_dequeued s @ xs \<and> unat (SPSC_size (sp_ring s)) = length xs)"
proof -
  let ?s = "\<lparr> sp_ring = SPSCRingQueue 4 0, sp_producer = None, sp_consumer = None, sp_enqueued = [], sp_dequeued = [] \<rparr> :: nat spsc_system"
  have "reach (spsc_start 4 0) spsc_step ?s" by (rule reach_start) (simp add: spsc_start_def)
  from reach_step [OF this call_Enqueue, of 7] have r: "reach (spsc_start 4 0) spsc_step (?s\<lparr> sp_producer := Some (LoadHead 7) \<rparr>)" by simp
  have "ring_size 4 2" by (simp add: ring_size_def)
  from SPSCRingQueue_fifo [OF this r] show ?thesis using r by fastforce
qed

end
