(* ===== verification/MPSCRing.thy ===== *)
theory MPSCRing
  imports RingQueue
begin

text \<open>
  The ring queue for many producers of \<^verbatim>\<open>include/threads/mpsc_ring_queue.h\<close> and
  \<^verbatim>\<open>include/threads/mpsc_ring_queue.inl\<close>: an array of single-producer rings, each with a spin-lock
  (\<^verbatim>\<open>include/threads/spin_lock.inl\<close>) that its producers hold while they enqueue, and one consumer that
  goes around the rings without a lock.
\<close>

subsection \<open>The spin-lock\<close>

definition SpinLock_IsLocked :: "bool \<Rightarrow> bool" where
  "SpinLock_IsLocked lock = lock"

text \<open>The atomic exchange gives the new and the old value of the flag.\<close>

definition SpinLock_TryLock :: "bool \<Rightarrow> bool \<times> bool" where
  "SpinLock_TryLock lock = (True, \<not> lock)"

definition SpinLock_Unlock :: "bool \<Rightarrow> bool" where
  "SpinLock_Unlock lock = False"

text \<open>
  Repeated attempts see the values that the other threads leave in the flag. \<^verbatim>\<open>TryLockSpin\<close> makes one
  attempt and at most \<^verbatim>\<open>spin\<close> more; \<^verbatim>\<open>Lock\<close> has no bound.
\<close>

fun SpinLock_TryLockSpin :: "bool list \<Rightarrow> int \<Rightarrow> bool option" where
  "SpinLock_TryLockSpin [] spin = None"
| "SpinLock_TryLockSpin (seen # later) spin =
     (if snd (SpinLock_TryLock seen) then Some True
      else if spin > 0 then SpinLock_TryLockSpin later (spin - 1) else Some False)"

fun SpinLock_Lock :: "bool list \<Rightarrow> unit option" where
  "SpinLock_Lock [] = None"
| "SpinLock_Lock (seen # later) = (if snd (SpinLock_TryLock seen) then Some () else SpinLock_Lock later)"

subsection \<open>The queue\<close>

record 'a mpsc_ring =
  mq_capacity :: u64
  mq_concurrency :: u64
  mq_producers :: "'a ring list"
  mq_consumer :: u64

definition MPSCRingQueue :: "u64 \<Rightarrow> u64 \<Rightarrow> 'a \<Rightarrow> 'a mpsc_ring" where
  "MPSCRingQueue capacity concurrency blank =
     \<lparr> mq_capacity = capacity - 1, mq_concurrency = concurrency,
       mq_producers = replicate (unat concurrency) (SPSCRingQueue capacity blank), mq_consumer = 0 \<rparr>"

definition MPSC_size :: "'a mpsc_ring \<Rightarrow> u64" where
  "MPSC_size q = sum_list (map SPSC_size (mq_producers q))"

text \<open>The time stamp counter is an input; it chooses the ring.\<close>

definition MPSC_Enqueue :: "'a mpsc_ring \<Rightarrow> u64 \<Rightarrow> 'a \<Rightarrow> 'a mpsc_ring \<times> bool" where
  "MPSC_Enqueue q rdts item =
     (let index = unat (rdts mod mq_concurrency q);
          (ring, ok) = SPSC_Enqueue (mq_producers q ! index) item
      in (q\<lparr> mq_producers := (mq_producers q)[index := ring] \<rparr>, ok))"

fun dequeue_loop :: "nat \<Rightarrow> 'a mpsc_ring \<Rightarrow> 'a mpsc_ring \<times> 'a option" where
  "dequeue_loop 0 q = (q, None)"
| "dequeue_loop (Suc n) q =
     (let index = unat (mq_consumer q mod mq_concurrency q);
          q' = q\<lparr> mq_consumer := mq_consumer q + 1 \<rparr>
      in case SPSC_Dequeue (mq_producers q ! index) of
           (ring, None) \<Rightarrow> dequeue_loop n q'
         | (ring, Some item) \<Rightarrow> (q'\<lparr> mq_producers := (mq_producers q)[index := ring] \<rparr>, Some item))"

definition MPSC_Dequeue :: "'a mpsc_ring \<Rightarrow> 'a mpsc_ring \<times> 'a option" where
  "MPSC_Dequeue q = dequeue_loop (unat (mq_concurrency q)) q"

text \<open>The batch form drains every ring in turn; the handler is called with the items in this order.\<close>

partial_function (option) drain :: "'a ring \<Rightarrow> ('a ring \<times> 'a list) option" where
  "drain r = (case SPSC_Dequeue r of
      (r', None) \<Rightarrow> Some (r', [])
    | (r', Some item) \<Rightarrow> Option.bind (drain r') (\<lambda>(r'', items). Some (r'', item # items)))"

fun drain_all :: "'a ring list \<Rightarrow> ('a ring list \<times> 'a list) option" where
  "drain_all [] = Some ([], [])"
| "drain_all (r # rs) =
     Option.bind (drain r) (\<lambda>(r', items). Option.bind (drain_all rs) (\<lambda>(rs', more). Some (r' # rs', items @ more)))"

definition MPSC_Dequeue_batch :: "'a mpsc_ring \<Rightarrow> ('a mpsc_ring \<times> 'a list \<times> bool) option" where
  "MPSC_Dequeue_batch q =
     map_option (\<lambda>(rings, items). (q\<lparr> mq_producers := rings \<rparr>, items, items \<noteq> [])) (drain_all (mq_producers q))"

subsection \<open>Producers that share one ring\<close>

text \<open>
  A producer is outside, waits for the lock with its item, is inside the critical section, or is about to
  release the lock and return.
\<close>

datatype 'a locked_enqueue = Outside | Acquire 'a | Inside "'a enqueue" | Release bool

record 'a locked_system =
  lr_ring :: "'a ring"
  lr_lock :: bool
  lr_producers :: "nat \<Rightarrow> 'a locked_enqueue"
  lr_consumer :: "'a dequeue option"
  lr_enqueued :: "'a list"
  lr_dequeued :: "'a list"

definition lr_move :: "'a locked_system \<Rightarrow> nat \<Rightarrow> 'a locked_enqueue \<Rightarrow> 'a locked_system" where
  "lr_move s i p = s\<lparr> lr_producers := (lr_producers s)(i := p) \<rparr>"

inductive locked_step :: "'a locked_system \<Rightarrow> 'a locked_system \<Rightarrow> bool" where
  call: "lr_producers s i = Outside \<Longrightarrow> locked_step s (lr_move s i (Acquire x))"
| spin: "lr_producers s i = Acquire x \<Longrightarrow> SpinLock_TryLock (lr_lock s) = (l, False) \<Longrightarrow> locked_step s (s\<lparr> lr_lock := l \<rparr>)"
| acquire: "lr_producers s i = Acquire x \<Longrightarrow> SpinLock_TryLock (lr_lock s) = (l, True) \<Longrightarrow>
    locked_step s ((lr_move s i (Inside (LoadHead x)))\<lparr> lr_lock := l \<rparr>)"
| run: "lr_producers s i = Inside p \<Longrightarrow> Enqueue_step (lr_ring s) p = (q, Inl p') \<Longrightarrow>
    locked_step s ((lr_move s i (Inside p'))\<lparr> lr_ring := q \<rparr>)"
| return: "lr_producers s i = Inside p \<Longrightarrow> Enqueue_step (lr_ring s) p = (q, Inr b) \<Longrightarrow>
    locked_step s ((lr_move s i (Release b))\<lparr> lr_ring := q, lr_enqueued := lr_enqueued s @ (if b then [enqueue_item p] else []) \<rparr>)"
| release: "lr_producers s i = Release b \<Longrightarrow> locked_step s ((lr_move s i Outside)\<lparr> lr_lock := SpinLock_Unlock (lr_lock s) \<rparr>)"
| call_consumer: "lr_consumer s = None \<Longrightarrow> locked_step s (s\<lparr> lr_consumer := Some DLoadTail \<rparr>)"
| run_consumer: "lr_consumer s = Some c \<Longrightarrow> Dequeue_step (lr_ring s) c = (q, Inl c') \<Longrightarrow>
    locked_step s (s\<lparr> lr_ring := q, lr_consumer := Some c' \<rparr>)"
| return_consumer: "lr_consumer s = Some c \<Longrightarrow> Dequeue_step (lr_ring s) c = (q, Inr r) \<Longrightarrow>
    locked_step s (s\<lparr> lr_ring := q, lr_consumer := None,
      lr_dequeued := lr_dequeued s @ (case r of None \<Rightarrow> [] | Some x \<Rightarrow> [x]) \<rparr>)"

definition locked_start :: "u64 \<Rightarrow> 'a \<Rightarrow> 'a locked_system \<Rightarrow> bool" where
  "locked_start capacity blank s \<longleftrightarrow>
     s = \<lparr> lr_ring = SPSCRingQueue capacity blank, lr_lock = False, lr_producers = (\<lambda>_. Outside), lr_consumer = None,
           lr_enqueued = [], lr_dequeued = [] \<rparr>"

subsection \<open>Mutual exclusion\<close>

fun critical :: "'a locked_enqueue \<Rightarrow> bool" where
  "critical (Inside p) \<longleftrightarrow> True"
| "critical (Release b) \<longleftrightarrow> True"
| "critical _ \<longleftrightarrow> False"

definition exclusive :: "'a locked_system \<Rightarrow> bool" where
  "exclusive s \<longleftrightarrow> (\<forall>i j. critical (lr_producers s i) \<longrightarrow> critical (lr_producers s j) \<longrightarrow> i = j) \<and>
     (lr_lock s \<longleftrightarrow> (\<exists>i. critical (lr_producers s i)))"

lemma critical_Inside: "p = Inside x \<Longrightarrow> critical p" "p = Release b \<Longrightarrow> critical p"
  by simp_all

lemma exclusive_step:
  assumes "locked_step s t" "exclusive s"
  shows "exclusive t"
  using assms
proof (induction rule: locked_step.induct)
  case (acquire s i x l)
  then have "\<not> critical (lr_producers s j)" for j by (auto simp: exclusive_def SpinLock_TryLock_def)
  then show ?case using acquire by (auto simp: exclusive_def SpinLock_TryLock_def lr_move_def)
next
  case (release s i b)
  then have "j = i" if "critical (lr_producers s j)" for j using that by (auto simp: exclusive_def)
  then show ?case by (auto simp: exclusive_def SpinLock_Unlock_def lr_move_def)
next
  case (run s i p q p')
  then have "critical (lr_producers s j) \<longleftrightarrow> j = i" for j by (auto simp: exclusive_def)
  then show ?case using run by (auto simp: exclusive_def lr_move_def)
next
  case (return s i p q b)
  then have "critical (lr_producers s j) \<longleftrightarrow> j = i" for j by (auto simp: exclusive_def)
  then show ?case using return by (auto simp: exclusive_def lr_move_def)
next
  case (call s i x)
  then have "critical (lr_producers (lr_move s i (Acquire x)) j) \<longleftrightarrow> critical (lr_producers s j)" for j
    by (auto simp: lr_move_def)
  then show ?case using call by (simp add: exclusive_def) (simp add: lr_move_def)
qed (auto simp: exclusive_def SpinLock_TryLock_def)

subsection \<open>A locked ring behaves like a ring with one producer\<close>

definition holder_is :: "'a locked_system \<Rightarrow> 'a enqueue option \<Rightarrow> bool" where
  "holder_is s p \<longleftrightarrow> (\<forall>i x. lr_producers s i = Inside x \<longrightarrow> p = Some x) \<and> ((\<forall>i x. lr_producers s i \<noteq> Inside x) \<longrightarrow> p = None)"

definition single :: "'a locked_system \<Rightarrow> 'a spsc_system \<Rightarrow> bool" where
  "single s u \<longleftrightarrow> sp_ring u = lr_ring s \<and> sp_consumer u = lr_consumer s \<and> sp_enqueued u = lr_enqueued s \<and>
     sp_dequeued u = lr_dequeued s \<and> holder_is s (sp_producer u)"

lemma holder_is_inside: "lr_producers s i = Inside p \<Longrightarrow> holder_is s q \<Longrightarrow> q = Some p"
  by (auto simp: holder_is_def)

lemma others_outside:
  "exclusive s \<Longrightarrow> critical (lr_producers s i) \<Longrightarrow> j \<noteq> i \<Longrightarrow> lr_producers s j \<noteq> Inside x"
  by (auto simp: exclusive_def)

lemma none_inside: "exclusive s \<Longrightarrow> \<not> lr_lock s \<Longrightarrow> lr_producers s j \<noteq> Inside x"
  by (metis critical.simps(1) exclusive_def)

lemma holder_is_move:
  assumes "\<not> (\<exists>x. lr_producers s i = Inside x)" "\<not> (\<exists>x. p = Inside x)"
  shows "holder_is (lr_move s i p) q \<longleftrightarrow> holder_is s q"
proof -
  have "lr_producers (lr_move s i p) j = Inside x \<longleftrightarrow> lr_producers s j = Inside x" for j x using assms by (auto simp: lr_move_def)
  then show ?thesis by (simp add: holder_is_def)
qed

lemma single_step:
  assumes "locked_step s t" "exclusive s" "single s u"
  shows "\<exists>v. spsc_step\<^sup>*\<^sup>* u v \<and> single t v"
  using assms
proof (induction rule: locked_step.induct)
  case (call s i x)
  then have "single (lr_move s i (Acquire x)) u" using holder_is_move [of s i "Acquire x"] by (simp add: single_def) (simp add: lr_move_def)
  then show ?case by blast
next
  case (spin s i x l)
  then have "single (s\<lparr> lr_lock := l \<rparr>) u" by (auto simp: single_def holder_is_def)
  then show ?case by blast
next
  case (acquire s i x l)
  have n: "\<And>j y. lr_producers s j \<noteq> Inside y" using acquire.hyps(2) none_inside [OF acquire.prems(1)] by (auto simp: SpinLock_TryLock_def)
  then have "spsc_step u (u\<lparr> sp_producer := Some (LoadHead x) \<rparr>)"
    using acquire.prems(2) by (intro call_Enqueue) (auto simp: single_def holder_is_def)
  moreover have "single ((lr_move s i (Inside (LoadHead x)))\<lparr> lr_lock := l \<rparr>) (u\<lparr> sp_producer := Some (LoadHead x) \<rparr>)"
    using acquire.prems(2) n by (auto simp: single_def holder_is_def lr_move_def)
  ultimately show ?case by blast
next
  case (run s i p q p')
  have "sp_producer u = Some p" using holder_is_inside [OF run.hyps(1)] run.prems(2) by (auto simp: single_def)
  then have "spsc_step u (u\<lparr> sp_ring := q, sp_producer := Some p' \<rparr>)"
    using run.hyps run.prems(2) by (intro run_Enqueue) (auto simp: single_def)
  moreover have "single ((lr_move s i (Inside p'))\<lparr> lr_ring := q \<rparr>) (u\<lparr> sp_ring := q, sp_producer := Some p' \<rparr>)"
    using run.prems(2) others_outside [OF run.prems(1), of i] run.hyps(1) by (auto simp: single_def holder_is_def lr_move_def)
  ultimately show ?case by blast
next
  case (return s i p q b)
  have "sp_producer u = Some p" using holder_is_inside [OF return.hyps(1)] return.prems(2) by (auto simp: single_def)
  then have "spsc_step u (u\<lparr> sp_ring := q, sp_producer := None, sp_enqueued := sp_enqueued u @ (if b then [enqueue_item p] else []) \<rparr>)"
    using return.hyps return.prems(2) by (intro return_Enqueue) (auto simp: single_def)
  moreover have "single ((lr_move s i (Release b))\<lparr> lr_ring := q, lr_enqueued := lr_enqueued s @ (if b then [enqueue_item p] else []) \<rparr>)
      (u\<lparr> sp_ring := q, sp_producer := None, sp_enqueued := sp_enqueued u @ (if b then [enqueue_item p] else []) \<rparr>)"
    using return.prems(2) others_outside [OF return.prems(1), of i] return.hyps(1) by (auto simp: single_def holder_is_def lr_move_def)
  ultimately show ?case by blast
next
  case (release s i b)
  then have "single (lr_move s i Outside) u" using holder_is_move [of s i Outside] by (simp add: single_def) (simp add: lr_move_def)
  then have "single ((lr_move s i Outside)\<lparr> lr_lock := SpinLock_Unlock (lr_lock s) \<rparr>) u" by (simp add: single_def holder_is_def)
  then show ?case by blast
next
  case (call_consumer s)
  then have "spsc_step u (u\<lparr> sp_consumer := Some DLoadTail \<rparr>)" by (intro call_Dequeue) (auto simp: single_def)
  moreover have "single (s\<lparr> lr_consumer := Some DLoadTail \<rparr>) (u\<lparr> sp_consumer := Some DLoadTail \<rparr>)"
    using call_consumer.prems(2) by (auto simp: single_def holder_is_def)
  ultimately show ?case by blast
next
  case (run_consumer s c q c')
  then have "spsc_step u (u\<lparr> sp_ring := q, sp_consumer := Some c' \<rparr>)" by (intro run_Dequeue) (auto simp: single_def)
  moreover have "single (s\<lparr> lr_ring := q, lr_consumer := Some c' \<rparr>) (u\<lparr> sp_ring := q, sp_consumer := Some c' \<rparr>)"
    using run_consumer.prems(2) by (auto simp: single_def holder_is_def)
  ultimately show ?case by blast
next
  case (return_consumer s c q r)
  let ?d = "case r of None \<Rightarrow> [] | Some x \<Rightarrow> [x]"
  have "spsc_step u (u\<lparr> sp_ring := q, sp_consumer := None, sp_dequeued := sp_dequeued u @ ?d \<rparr>)"
    using return_consumer by (intro return_Dequeue) (auto simp: single_def)
  moreover have "single (s\<lparr> lr_ring := q, lr_consumer := None, lr_dequeued := lr_dequeued s @ ?d \<rparr>)
      (u\<lparr> sp_ring := q, sp_consumer := None, sp_dequeued := sp_dequeued u @ ?d \<rparr>)"
    using return_consumer.prems(2) by (auto simp: single_def holder_is_def)
  ultimately show ?case by blast
qed

interpretation locked: step_invariant "locked_start capacity blank" locked_step
  "\<lambda>s. exclusive s \<and> (\<exists>u. reach (spsc_start capacity blank) spsc_step u \<and> single s u)"
proof
  fix s :: "'a locked_system"
  assume "locked_start capacity blank s"
  then show "exclusive s \<and> (\<exists>u. reach (spsc_start capacity blank) spsc_step u \<and> single s u)"
    by (auto simp: locked_start_def exclusive_def single_def holder_is_def spsc_start_def
        intro!: exI [of _ "\<lparr> sp_ring = SPSCRingQueue capacity blank, sp_producer = None, sp_consumer = None, sp_enqueued = [], sp_dequeued = [] \<rparr>"] reach_start)
next
  fix s t :: "'a locked_system"
  assume "exclusive s \<and> (\<exists>u. reach (spsc_start capacity blank) spsc_step u \<and> single s u)" "locked_step s t"
  then show "exclusive t \<and> (\<exists>u. reach (spsc_start capacity blank) spsc_step u \<and> single t u)"
    using exclusive_step single_step reach_run by metis
qed

subsection \<open>The queue as a sequence per ring\<close>

definition holds :: "nat \<Rightarrow> 'a ring \<Rightarrow> 'a list \<Rightarrow> bool" where
  "holds k r xs \<longleftrightarrow> (\<exists>t. ring_at k r t xs)"

definition mpsc_holds :: "nat \<Rightarrow> 'a mpsc_ring \<Rightarrow> 'a list list \<Rightarrow> bool" where
  "mpsc_holds k q xss \<longleftrightarrow> mq_concurrency q \<noteq> 0 \<and> length (mq_producers q) = unat (mq_concurrency q) \<and> list_all2 (holds k) (mq_producers q) xss"

lemma mpsc_holds_start:
  "ring_size capacity k \<Longrightarrow> concurrency \<noteq> 0 \<Longrightarrow>
   mpsc_holds k (MPSCRingQueue capacity concurrency blank) (replicate (unat concurrency) [])"
  using ring_at_start [of capacity k blank] by (auto simp: mpsc_holds_def MPSCRingQueue_def holds_def list_all2_conv_all_nth)

lemma unat_mod_less: "n \<noteq> 0 \<Longrightarrow> unat (w mod n) < unat (n :: u64)"
  by (simp add: unat_mod unat_gt_0)

lemma holds_Enqueue:
  "holds k r xs \<Longrightarrow> Suc (length xs) = 2 ^ k \<Longrightarrow> SPSC_Enqueue r x = (r, False)"
  "holds k r xs \<Longrightarrow> Suc (length xs) \<noteq> 2 ^ k \<Longrightarrow> \<exists>r'. SPSC_Enqueue r x = (r', True) \<and> holds k r' (xs @ [x])"
  using SPSC_Enqueue_ok by (fastforce simp: holds_def)+

lemma holds_Dequeue:
  "holds k r [] \<Longrightarrow> SPSC_Dequeue r = (r, None)"
  "holds k r (x # xs) \<Longrightarrow> \<exists>r'. SPSC_Dequeue r = (r', Some x) \<and> holds k r' xs"
  using SPSC_Dequeue_ok ring_pop by (fastforce simp: holds_def)+

lemma MPSC_Enqueue_ok:
  assumes "mpsc_holds k q xss" "i = unat (rdts mod mq_concurrency q)"
  shows "i < length xss \<and> (if Suc (length (xss ! i)) = 2 ^ k then MPSC_Enqueue q rdts x = (q, False)
     else (\<exists>q'. MPSC_Enqueue q rdts x = (q', True) \<and> mpsc_holds k q' (xss[i := xss ! i @ [x]])))"
proof -
  have i: "i < length (mq_producers q)" "length xss = length (mq_producers q)" "holds k (mq_producers q ! i) (xss ! i)"
    using assms unat_mod_less [of "mq_concurrency q" rdts] by (auto simp: mpsc_holds_def list_all2_conv_all_nth)
  show ?thesis
  proof (cases "Suc (length (xss ! i)) = 2 ^ k")
    case True
    then show ?thesis using i holds_Enqueue(1) [OF i(3)] assms(2) by (simp add: MPSC_Enqueue_def)
  next
    case False
    then obtain r where r: "SPSC_Enqueue (mq_producers q ! i) x = (r, True)" "holds k r (xss ! i @ [x])"
      using holds_Enqueue(2) [OF i(3)] by blast
    then have "MPSC_Enqueue q rdts x = (q\<lparr> mq_producers := (mq_producers q)[i := r] \<rparr>, True)"
      using assms(2) by (simp add: MPSC_Enqueue_def)
    moreover have "mpsc_holds k (q\<lparr> mq_producers := (mq_producers q)[i := r] \<rparr>) (xss[i := xss ! i @ [x]])"
      using assms(1) r(2) by (auto simp: mpsc_holds_def intro: list_all2_update_cong)
    ultimately show ?thesis using False i by auto
  qed
qed

definition scanned :: "'a mpsc_ring \<Rightarrow> nat \<Rightarrow> nat" where
  "scanned q i = unat ((mq_consumer q + of_nat i) mod mq_concurrency q)"

definition dequeued :: "nat \<Rightarrow> nat \<Rightarrow> 'a mpsc_ring \<Rightarrow> 'a list list \<Rightarrow> 'a mpsc_ring \<times> 'a option \<Rightarrow> bool" where
  "dequeued k n q xss res \<longleftrightarrow>
     (case res of
        (q', None) \<Rightarrow> mpsc_holds k q' xss \<and> (\<forall>i < n. xss ! scanned q i = [])
      | (q', Some x) \<Rightarrow> (\<exists>i < n. \<exists>ys. xss ! scanned q i = x # ys \<and> (\<forall>j < i. xss ! scanned q j = []) \<and> mpsc_holds k q' (xss[scanned q i := ys])))"

lemma dequeue_loop_ok: "mpsc_holds k q xss \<Longrightarrow> dequeued k n q xss (dequeue_loop n q)"
proof (induction n arbitrary: q)
  case 0
  then show ?case by (simp add: dequeued_def)
next
  case (Suc n)
  let ?q = "q\<lparr> mq_consumer := mq_consumer q + 1 \<rparr>" and ?i = "scanned q 0"
  have i: "unat (mq_consumer q mod mq_concurrency q) = ?i" by (simp add: scanned_def)
  have h: "?i < length xss" "length xss = length (mq_producers q)" "holds k (mq_producers q ! ?i) (xss ! ?i)"
    using Suc.prems unat_mod_less [of "mq_concurrency q" "mq_consumer q"] by (auto simp: mpsc_holds_def list_all2_conv_all_nth i)
  have sc: "scanned ?q j = scanned q (Suc j)" for j by (simp add: scanned_def algebra_simps)
  have q: "mpsc_holds k ?q xss" using Suc.prems by (simp add: mpsc_holds_def)
  show ?case
  proof (cases "xss ! ?i")
    case Nil
    then have "dequeue_loop (Suc n) q = dequeue_loop n ?q" using holds_Dequeue(1) [of k "mq_producers q ! ?i"] h(3) by (simp add: i Let_def)
    moreover have "dequeued k (Suc n) q xss res" if d: "dequeued k n ?q xss res" for res
    proof (cases res)
      case (Pair q' r)
      show ?thesis
      proof (cases r)
        case None
        then show ?thesis using d Pair Nil by (auto simp: dequeued_def sc less_Suc_eq_0_disj)
      next
        case (Some x)
        then obtain i ys where "i < n" "xss ! scanned q (Suc i) = x # ys" "\<forall>j < i. xss ! scanned q (Suc j) = []"
          "mpsc_holds k q' (xss[scanned q (Suc i) := ys])" using d Pair by (auto simp: dequeued_def sc)
        moreover from this Nil have "\<forall>j < Suc i. xss ! scanned q j = []" by (auto simp: less_Suc_eq_0_disj)
        moreover from calculation have "Suc i < Suc n" by simp
        ultimately show ?thesis using Pair Some unfolding dequeued_def by auto
      qed
    qed
    ultimately show ?thesis using Suc.IH [OF q] by simp
  next
    case (Cons x ys)
    then obtain r where r: "SPSC_Dequeue (mq_producers q ! ?i) = (r, Some x)" "holds k r ys"
      using holds_Dequeue(2) h(3) by metis
    then have "mpsc_holds k (?q\<lparr> mq_producers := (mq_producers q)[?i := r] \<rparr>) (xss[?i := ys])"
      using q by (auto simp: mpsc_holds_def intro: list_all2_update_cong)
    then show ?thesis using Cons r(1) by (auto simp: dequeued_def i intro!: exI [of _ 0])
  qed
qed

lemma scan_complete:
  assumes "mq_concurrency q \<noteq> 0" "unat (mq_consumer q) + unat (mq_concurrency q) < 2 ^ 64" "j < unat (mq_concurrency q)"
  shows "\<exists>i < unat (mq_concurrency q). scanned q i = j"
proof -
  let ?n = "unat (mq_concurrency q)" and ?c = "unat (mq_consumer q)"
  let ?i = "(j + (?n - ?c mod ?n)) mod ?n"
  have n: "0 < ?n" using assms(1) by (simp add: unat_gt_0)
  have lt: "?i < ?n" using n by simp
  have c: "?c mod ?n \<le> ?n" using n by (simp add: less_imp_le)
  have "(?c + ?i) mod ?n = (?c mod ?n + (j + (?n - ?c mod ?n))) mod ?n" by (simp add: mod_simps)
  also have "\<dots> = (j + ?n) mod ?n" using c by (simp add: algebra_simps)
  also have "\<dots> = j" using assms(3) by simp
  finally have m: "(?c + ?i) mod ?n = j" .
  have "?c + ?i < 2 ^ 64" using lt assms(2) by linarith
  then have "unat (mq_consumer q + of_nat ?i) = ?c + ?i"
    by (simp add: unat_word_ariths unsigned_of_nat take_bit_nat_eq_self del: take_bit_of_nat)
  then have "scanned q ?i = j" using m by (simp add: scanned_def unat_mod)
  then show ?thesis using lt by blast
qed

lemma drain_ok: "holds k r xs \<Longrightarrow> \<exists>r'. drain r = Some (r', xs) \<and> holds k r' []"
proof (induction xs arbitrary: r)
  case Nil
  then show ?case using holds_Dequeue(1) [OF Nil] by (subst drain.simps) simp
next
  case (Cons x xs)
  then obtain r' where r': "SPSC_Dequeue r = (r', Some x)" "holds k r' xs" using holds_Dequeue(2) [OF Cons.prems] by blast
  obtain r'' where "drain r' = Some (r'', xs)" "holds k r'' []" using Cons.IH [OF r'(2)] by blast
  then show ?case using r'(1) by (simp add: drain.simps [of r] del: drain.simps)
qed

lemma drain_all_ok: "list_all2 (holds k) rs xss \<Longrightarrow> \<exists>rs'. drain_all rs = Some (rs', concat xss) \<and> list_all2 (holds k) rs' (map (\<lambda>_. []) xss)"
proof (induction rule: list_all2_induct)
  case (Cons r rs xs xss)
  obtain rs' where "drain_all rs = Some (rs', concat xss)" "list_all2 (holds k) rs' (map (\<lambda>_. []) xss)" using Cons.IH by blast
  moreover obtain r' where "drain r = Some (r', xs)" "holds k r' []" using drain_ok [OF Cons.hyps(1)] by blast
  ultimately show ?case by simp
qed simp

subsection \<open>Properties\<close>

text \<open>
  C23. Any number of producers that share a ring under its spin-lock exclude each other and see, together with the
  lock-free consumer, a first-in-first-out queue: at most one producer is between acquiring and releasing the
  lock, and the items the consumer took are a prefix of the items enqueued.
\<close>

theorem MPSC_locked_ring_fifo:
  assumes "ring_size capacity k" and "reach (locked_start capacity blank) locked_step s"
  shows "(\<forall>i j. critical (lr_producers s i) \<longrightarrow> critical (lr_producers s j) \<longrightarrow> i = j) \<and>
     (\<exists>xs. lr_enqueued s = lr_dequeued s @ xs \<and> unat (SPSC_size (lr_ring s)) = length xs \<and> length xs \<le> unat (rq_capacity (lr_ring s)))"
proof -
  obtain u where u: "exclusive s" "reach (spsc_start capacity blank) spsc_step u" "single s u"
    using locked.reach_inv [OF assms(2)] by blast
  then obtain xs where "sp_enqueued u = sp_dequeued u @ xs" "ring_at k (sp_ring u) (length (sp_dequeued u)) xs"
    using spsc_reach [OF u(2) assms(1)] by (auto simp: spsc_inv_def)
  then have "lr_enqueued s = lr_dequeued s @ xs \<and> unat (SPSC_size (lr_ring s)) = length xs \<and> length xs \<le> unat (rq_capacity (lr_ring s))"
    using u(3) ring_SPSC_size [of k "sp_ring u"] ring_capacity [of k "sp_ring u"] ring_atD(7) [of k "sp_ring u"] by (fastforce simp: single_def)
  then show ?thesis using u(1) by (auto simp: exclusive_def)
qed

theorem MPSC_locked_ring_fifo_witness:
  "\<exists>s :: nat locked_system. reach (locked_start 8 0) locked_step s \<and> lr_producers s 3 = Acquire 5 \<and>
     (\<exists>xs. lr_enqueued s = lr_dequeued s @ xs)"
proof -
  let ?s = "\<lparr> lr_ring = SPSCRingQueue 8 0, lr_lock = False, lr_producers = (\<lambda>_. Outside), lr_consumer = None,
    lr_enqueued = [], lr_dequeued = [] \<rparr> :: nat locked_system"
  have "reach (locked_start 8 0) locked_step ?s" by (rule reach_start) (simp add: locked_start_def)
  from reach_step [OF this call [of _ 3 5]] have r: "reach (locked_start 8 0) locked_step (lr_move ?s 3 (Acquire 5))" by simp
  have "ring_size 8 3" by (simp add: ring_size_def)
  from MPSC_locked_ring_fifo [OF this r] show ?thesis using r by (intro exI [of _ "lr_move ?s 3 (Acquire 5)"]) (auto simp: lr_move_def)
qed

text \<open>
  The operations of the queue of many producers: \<^verbatim>\<open>Enqueue\<close> appends to the ring that the time stamp
  chooses or fails when that ring is full; \<^verbatim>\<open>Dequeue\<close> takes the oldest item of the first nonempty ring in
  rotation and, as long as the consumer counter does not wrap around, fails only when every ring is empty; the
  batch form ends, hands over all items of all rings in order and leaves the rings empty.
\<close>

theorem MPSCRingQueue_operations:
  assumes "mpsc_holds k q xss"
  shows "(let i = unat (rdts mod mq_concurrency q)
      in i < length xss \<and> (if Suc (length (xss ! i)) = 2 ^ k then MPSC_Enqueue q rdts x = (q, False)
         else (\<exists>q'. MPSC_Enqueue q rdts x = (q', True) \<and> mpsc_holds k q' (xss[i := xss ! i @ [x]])))) \<and>
     (case MPSC_Dequeue q of
        (q', None) \<Rightarrow> mpsc_holds k q' xss \<and> (unat (mq_consumer q) + unat (mq_concurrency q) < 2 ^ 64 \<longrightarrow> concat xss = [])
      | (q', Some y) \<Rightarrow> (\<exists>i < length xss. \<exists>ys. xss ! i = y # ys \<and> mpsc_holds k q' (xss[i := ys]))) \<and>
     (\<exists>q'. MPSC_Dequeue_batch q = Some (q', concat xss, concat xss \<noteq> []) \<and> mpsc_holds k q' (map (\<lambda>_. []) xss))"
proof (intro conjI)
  have c: "mq_concurrency q \<noteq> 0" "length xss = unat (mq_concurrency q)"
    using assms by (auto simp: mpsc_holds_def dest: list_all2_lengthD)
  show "let i = unat (rdts mod mq_concurrency q)
      in i < length xss \<and> (if Suc (length (xss ! i)) = 2 ^ k then MPSC_Enqueue q rdts x = (q, False)
         else (\<exists>q'. MPSC_Enqueue q rdts x = (q', True) \<and> mpsc_holds k q' (xss[i := xss ! i @ [x]])))"
    using MPSC_Enqueue_ok [OF assms] by (simp add: Let_def)
  have d: "dequeued k (unat (mq_concurrency q)) q xss (MPSC_Dequeue q)" unfolding MPSC_Dequeue_def by (rule dequeue_loop_ok [OF assms])
  have e: "concat xss = []" if "\<forall>i < unat (mq_concurrency q). xss ! scanned q i = []" "unat (mq_consumer q) + unat (mq_concurrency q) < 2 ^ 64"
  proof -
    have "xss ! j = []" if "j < length xss" for j
      using scan_complete [OF c(1) \<open>unat (mq_consumer q) + unat (mq_concurrency q) < 2 ^ 64\<close>, of j] that c(2)
        \<open>\<forall>i < unat (mq_concurrency q). xss ! scanned q i = []\<close> by auto
    then show ?thesis by (auto simp: in_set_conv_nth)
  qed
  have n: "scanned q i < length xss" for i using unat_mod_less [OF c(1)] c(2) by (simp add: scanned_def)
  show "case MPSC_Dequeue q of
        (q', None) \<Rightarrow> mpsc_holds k q' xss \<and> (unat (mq_consumer q) + unat (mq_concurrency q) < 2 ^ 64 \<longrightarrow> concat xss = [])
      | (q', Some y) \<Rightarrow> (\<exists>i < length xss. \<exists>ys. xss ! i = y # ys \<and> mpsc_holds k q' (xss[i := ys]))"
  proof (cases "MPSC_Dequeue q")
    case (Pair q' r)
    then show ?thesis using d n e by (cases r) (auto simp: dequeued_def simp del: concat_eq_Nil_conv)
  qed
  obtain rs where "drain_all (mq_producers q) = Some (rs, concat xss)" "list_all2 (holds k) rs (map (\<lambda>_. []) xss)"
    using drain_all_ok [of k "mq_producers q" xss] assms by (auto simp: mpsc_holds_def)
  then show "\<exists>q'. MPSC_Dequeue_batch q = Some (q', concat xss, concat xss \<noteq> []) \<and> mpsc_holds k q' (map (\<lambda>_. []) xss)"
    using c by (auto simp: MPSC_Dequeue_batch_def mpsc_holds_def dest: list_all2_lengthD)
qed

theorem MPSCRingQueue_operations_witness:
  "\<exists>q'. MPSC_Enqueue (MPSCRingQueue 4 3 (0 :: nat)) 7 9 = (q', True) \<and> mpsc_holds 2 q' [[], [9], []]"
proof -
  have "mpsc_holds 2 (MPSCRingQueue 4 3 (0 :: nat)) (replicate (unat (3 :: u64)) [])"
    by (rule mpsc_holds_start) (simp_all add: ring_size_def)
  moreover have "unat (3 :: u64) = 3" by simp
  moreover have "replicate 3 [] = [[], [], [] :: nat list]" by (simp add: numeral_3_eq_3)
  ultimately have "mpsc_holds 2 (MPSCRingQueue 4 3 (0 :: nat)) [[], [], []]" by (simp only:)
  from MPSCRingQueue_operations [OF this, of 7 9, THEN conjunct1] show ?thesis by (simp add: MPSCRingQueue_def)
qed

end
