(* ===== verification/MPMCRing.thy ===== *)
theory MPMCRing
  imports RingQueue
begin

text \<open>
  The ring queue for many producers and many consumers of \<^verbatim>\<open>include/threads/mpmc_ring_queue.h\<close> and
  \<^verbatim>\<open>include/threads/mpmc_ring_queue.inl\<close>. Every cell has a sequence number that tells whose turn it is; a
  thread claims a position by moving the head or the tail with a compare-and-exchange that may also fail for no
  reason, and then works on the cell of this position alone.
\<close>

record 'a mpmc =
  mp_capacity :: u64
  mp_mask :: u64
  mp_sequence :: "u64 list"
  mp_value :: "'a list"
  mp_head :: u64
  mp_tail :: u64

definition MPMCRingQueue :: "u64 \<Rightarrow> 'a \<Rightarrow> 'a mpmc" where
  "MPMCRingQueue capacity blank =
     \<lparr> mp_capacity = capacity, mp_mask = capacity - 1, mp_sequence = map of_nat [0..<unat capacity],
       mp_value = replicate (unat capacity) blank, mp_head = 0, mp_tail = 0 \<rparr>"

definition MPMC_size :: "'a mpmc \<Rightarrow> u64" where
  "MPMC_size q = mp_head q - mp_tail q"

subsection \<open>The accesses of the operations\<close>

definition cell :: "'a mpmc \<Rightarrow> u64 \<Rightarrow> nat" where
  "cell q w = unat (w AND mp_mask q)"

definition turn :: "u64 \<Rightarrow> u64 \<Rightarrow> int" where
  "turn node_sequence expected = sint node_sequence - sint expected"

datatype 'a mpmc_enqueue = ELoadHead 'a | ELoadSequence 'a u64 | EClaim 'a u64 | EStoreValue 'a u64 | EStoreSequence 'a u64

text \<open>The first argument tells whether a compare-and-exchange of equal values succeeds.\<close>

fun MPMC_Enqueue_step :: "bool \<Rightarrow> 'a mpmc \<Rightarrow> 'a mpmc_enqueue \<Rightarrow> 'a mpmc \<times> ('a mpmc_enqueue + bool)" where
  "MPMC_Enqueue_step lucky q (ELoadHead item) = (q, Inl (ELoadSequence item (mp_head q)))"
| "MPMC_Enqueue_step lucky q (ELoadSequence item head_sequence) =
     (let diff = turn (mp_sequence q ! cell q head_sequence) head_sequence
      in if diff = 0 then (q, Inl (EClaim item head_sequence))
         else if diff < 0 then (q, Inr False)
         else (q, Inl (ELoadHead item)))"
| "MPMC_Enqueue_step lucky q (EClaim item head_sequence) =
     (if mp_head q = head_sequence \<and> lucky
      then (q\<lparr> mp_head := head_sequence + 1 \<rparr>, Inl (EStoreValue item head_sequence))
      else (q, Inl (ELoadSequence item (mp_head q))))"
| "MPMC_Enqueue_step lucky q (EStoreValue item head_sequence) =
     (q\<lparr> mp_value := (mp_value q)[cell q head_sequence := item] \<rparr>, Inl (EStoreSequence item head_sequence))"
| "MPMC_Enqueue_step lucky q (EStoreSequence item head_sequence) =
     (q\<lparr> mp_sequence := (mp_sequence q)[cell q head_sequence := head_sequence + 1] \<rparr>, Inr True)"

datatype 'a mpmc_dequeue = DLoadTail | DLoadSequence u64 | DClaim u64 | DReadValue u64 | DStoreSequence u64 'a

fun MPMC_Dequeue_step :: "bool \<Rightarrow> 'a mpmc \<Rightarrow> 'a mpmc_dequeue \<Rightarrow> 'a mpmc \<times> ('a mpmc_dequeue + 'a option)" where
  "MPMC_Dequeue_step lucky q DLoadTail = (q, Inl (DLoadSequence (mp_tail q)))"
| "MPMC_Dequeue_step lucky q (DLoadSequence tail_sequence) =
     (let diff = turn (mp_sequence q ! cell q tail_sequence) (tail_sequence + 1)
      in if diff = 0 then (q, Inl (DClaim tail_sequence))
         else if diff < 0 then (q, Inr None)
         else (q, Inl DLoadTail))"
| "MPMC_Dequeue_step lucky q (DClaim tail_sequence) =
     (if mp_tail q = tail_sequence \<and> lucky
      then (q\<lparr> mp_tail := tail_sequence + 1 \<rparr>, Inl (DReadValue tail_sequence))
      else (q, Inl (DLoadSequence (mp_tail q))))"
| "MPMC_Dequeue_step lucky q (DReadValue tail_sequence) =
     (q, Inl (DStoreSequence tail_sequence (mp_value q ! cell q tail_sequence)))"
| "MPMC_Dequeue_step lucky q (DStoreSequence tail_sequence item) =
     (q\<lparr> mp_sequence := (mp_sequence q)[cell q tail_sequence := tail_sequence + mp_mask q + 1] \<rparr>, Inr (Some item))"

subsection \<open>The system of producers and consumers\<close>

text \<open>
  The history records the items in the order in which their positions were claimed, the number of positions
  claimed by consumers, and what the consumers returned with its position.
\<close>

record 'a mpmc_system =
  ms_queue :: "'a mpmc"
  ms_producers :: "nat \<Rightarrow> 'a mpmc_enqueue option"
  ms_consumers :: "nat \<Rightarrow> 'a mpmc_dequeue option"
  ms_enqueued :: "'a list"
  ms_taken :: nat
  ms_delivered :: "(nat \<times> 'a) list"

fun claimed :: "'a mpmc_enqueue \<Rightarrow> 'a mpmc_enqueue \<Rightarrow> 'a list" where
  "claimed (EClaim x h) (EStoreValue y h') = [x]"
| "claimed _ _ = []"

fun claims :: "'a mpmc_dequeue \<Rightarrow> 'a mpmc_dequeue \<Rightarrow> nat" where
  "claims (DClaim t) (DReadValue t') = 1"
| "claims _ _ = 0"

fun delivery :: "'a mpmc_dequeue \<Rightarrow> 'a option \<Rightarrow> (nat \<times> 'a) list" where
  "delivery (DStoreSequence t x) (Some y) = [(unat t, y)]"
| "delivery _ _ = []"

inductive mpmc_step :: "'a mpmc_system \<Rightarrow> 'a mpmc_system \<Rightarrow> bool" where
  call_producer: "ms_producers s i = None \<Longrightarrow>
    mpmc_step s (s\<lparr> ms_producers := (ms_producers s)(i := Some (ELoadHead x)) \<rparr>)"
| run_producer: "ms_producers s i = Some p \<Longrightarrow> MPMC_Enqueue_step lucky (ms_queue s) p = (q, Inl p') \<Longrightarrow>
    mpmc_step s (s\<lparr> ms_queue := q, ms_producers := (ms_producers s)(i := Some p'), ms_enqueued := ms_enqueued s @ claimed p p' \<rparr>)"
| return_producer: "ms_producers s i = Some p \<Longrightarrow> MPMC_Enqueue_step lucky (ms_queue s) p = (q, Inr b) \<Longrightarrow>
    mpmc_step s (s\<lparr> ms_queue := q, ms_producers := (ms_producers s)(i := None) \<rparr>)"
| call_consumer: "ms_consumers s i = None \<Longrightarrow>
    mpmc_step s (s\<lparr> ms_consumers := (ms_consumers s)(i := Some DLoadTail) \<rparr>)"
| run_consumer: "ms_consumers s i = Some c \<Longrightarrow> MPMC_Dequeue_step lucky (ms_queue s) c = (q, Inl c') \<Longrightarrow>
    mpmc_step s (s\<lparr> ms_queue := q, ms_consumers := (ms_consumers s)(i := Some c'), ms_taken := ms_taken s + claims c c' \<rparr>)"
| return_consumer: "ms_consumers s i = Some c \<Longrightarrow> MPMC_Dequeue_step lucky (ms_queue s) c = (q, Inr r) \<Longrightarrow>
    mpmc_step s (s\<lparr> ms_queue := q, ms_consumers := (ms_consumers s)(i := None), ms_delivered := ms_delivered s @ delivery c r \<rparr>)"

definition mpmc_start :: "u64 \<Rightarrow> 'a \<Rightarrow> 'a mpmc_system \<Rightarrow> bool" where
  "mpmc_start capacity blank s \<longleftrightarrow>
     s = \<lparr> ms_queue = MPMCRingQueue capacity blank, ms_producers = (\<lambda>_. None), ms_consumers = (\<lambda>_. None),
           ms_enqueued = [], ms_taken = 0, ms_delivered = [] \<rparr>"

subsection \<open>The cells\<close>

text \<open>
  The core of the invariant speaks of positions without wrap-around: \<^term>\<open>E\<close> is the history of the claimed
  items, \<^term>\<open>t\<close> the number of positions claimed by consumers, \<^term>\<open>S\<close> and \<^term>\<open>V\<close> the
  sequence number and value of every cell, \<^term>\<open>W\<close> and \<^term>\<open>R\<close> the positions that producers and
  consumers have claimed and not yet released.
\<close>

definition core :: "nat \<Rightarrow> 'a list \<Rightarrow> nat \<Rightarrow> (nat \<Rightarrow> nat) \<Rightarrow> (nat \<Rightarrow> 'a) \<Rightarrow> nat set \<Rightarrow> nat set \<Rightarrow> bool" where
  "core c E t S V W R \<longleftrightarrow> 2 \<le> c \<and> t \<le> length E \<and> length E \<le> t + c \<and>
     (\<forall>j < c. \<exists>i. i mod c = j \<and> (S j = i \<and> i < t + c \<or> S j = Suc i \<and> i < length E)) \<and>
     (\<forall>i. t \<le> i \<longrightarrow> i < length E \<longrightarrow> S (i mod c) = i \<and> i \<in> W \<or> S (i mod c) = Suc i \<and> V (i mod c) = E ! i) \<and>
     (\<forall>i \<in> W. t \<le> i \<and> i < length E \<and> S (i mod c) = i) \<and>
     (\<forall>i \<in> R. i < t \<and> length E \<le> i + c \<and> S (i mod c) = Suc i \<and> V (i mod c) = E ! i)"

lemma turn_clash: "2 \<le> c \<Longrightarrow> i mod c = j mod c \<Longrightarrow> Suc i \<noteq> (j :: nat)"
  using mod_window [of i "Suc i" c] by auto

lemma same_cell: "i mod c = j mod c \<Longrightarrow> i \<le> j \<Longrightarrow> j < i + c \<Longrightarrow> i = (j :: nat)"
  using mod_window [of i j c] by (cases "i = j") auto

lemma coreD:
  assumes "core c E t S V W R"
  shows "2 \<le> c" "t \<le> length E" "length E \<le> t + c"
    "\<And>j. j < c \<Longrightarrow> \<exists>i. i mod c = j \<and> (S j = i \<and> i < t + c \<or> S j = Suc i \<and> i < length E)"
    "\<And>i. t \<le> i \<Longrightarrow> i < length E \<Longrightarrow> S (i mod c) = i \<and> i \<in> W \<or> S (i mod c) = Suc i \<and> V (i mod c) = E ! i"
    "\<And>i. i \<in> W \<Longrightarrow> t \<le> i \<and> i < length E \<and> S (i mod c) = i"
    "\<And>i. i \<in> R \<Longrightarrow> i < t \<and> length E \<le> i + c \<and> S (i mod c) = Suc i \<and> V (i mod c) = E ! i"
  using assms unfolding core_def by blast+

text \<open>A cell whose number equals a position is free for it; one past the position, the item is there.\<close>

lemma core_free:
  assumes "core c E t S V W R" "S (i mod c) = i"
  shows "i < t + c"
proof -
  have "i mod c < c" using coreD(1) [OF assms(1)] by simp
  from coreD(4) [OF assms(1) this] obtain j where "j mod c = i mod c" "S (i mod c) = j \<and> j < t + c \<or> S (i mod c) = Suc j" by blast
  then show ?thesis using turn_clash [OF coreD(1) [OF assms(1)], of j i] assms(2) by metis
qed

lemma core_full:
  assumes "core c E t S V W R" "S (i mod c) = Suc i"
  shows "i < length E"
proof -
  have "i mod c < c" using coreD(1) [OF assms(1)] by simp
  from coreD(4) [OF assms(1) this] obtain j where "j mod c = i mod c" "S (i mod c) = j \<or> S (i mod c) = Suc j \<and> j < length E" by blast
  then show ?thesis using turn_clash [OF coreD(1) [OF assms(1)], of i j] assms(2) by (metis nat.inject)
qed

lemma core_claim_write:
  assumes core: "core c E t S V W R" and free: "S (length E mod c) = length E"
  shows "core c (E @ [x]) t S V (insert (length E) W) R"
proof -
  note d = coreD [OF core]
  have lt: "length E < t + c" by (rule core_free [OF core free])
  have "i < t \<and> length (E @ [x]) \<le> i + c \<and> S (i mod c) = Suc i \<and> V (i mod c) = (E @ [x]) ! i" if "i \<in> R" for i
  proof -
    have i: "i < t" "length E \<le> i + c" "S (i mod c) = Suc i" "V (i mod c) = E ! i" using d(7) [OF that] by auto
    have "length E \<noteq> i + c"
      using turn_clash [OF d(1), of i "length E"] free i(3) by auto
    then show ?thesis using i d(2) by (simp add: nth_append)
  qed
  moreover have "S (i mod c) = i \<and> i \<in> insert (length E) W \<or> S (i mod c) = Suc i \<and> V (i mod c) = (E @ [x]) ! i" if "t \<le> i" "i < length (E @ [x])" for i
    using d(5) [of i] that free by (cases "i = length E") (auto simp: nth_append)
  moreover have "\<exists>i. i mod c = j \<and> (S j = i \<and> i < t + c \<or> S j = Suc i \<and> i < length (E @ [x]))" if "j < c" for j
    using d(4) [OF that] by fastforce
  moreover have "t \<le> i \<and> i < length (E @ [x]) \<and> S (i mod c) = i" if "i \<in> insert (length E) W" for i
    using d(6) [of i] that free d(2) by (metis insertE length_append_singleton less_Suc_eq)
  moreover have "t \<le> length (E @ [x])" "length (E @ [x]) \<le> t + c" using d(2) lt by simp_all
  ultimately show ?thesis using d(1) unfolding core_def by blast
qed

lemma core_store:
  assumes core: "core c E t S V W R" and i: "i \<in> W"
  shows "core c E t S (V(i mod c := x)) W R"
proof -
  note d = coreD [OF core]
  have w: "t \<le> i" "i < length E" "S (i mod c) = i" using d(6) [OF i] by auto
  have "S (j mod c) = j \<and> j \<in> W \<or> S (j mod c) = Suc j \<and> (V(i mod c := x)) (j mod c) = E ! j" if "t \<le> j" "j < length E" for j
    using d(5) [OF that] w(3) turn_clash [OF d(1), of j i] by (metis fun_upd_other)
  moreover have "(V(i mod c := x)) (j mod c) = E ! j" if "j \<in> R" for j
    using d(7) [OF that] w(3) turn_clash [OF d(1), of j i] by (cases "j mod c = i mod c") auto
  ultimately show ?thesis using d unfolding core_def by blast
qed

lemma core_publish:
  assumes core: "core c E t S V W R" and i: "i \<in> W" and v: "V (i mod c) = E ! i"
  shows "core c E t (S(i mod c := Suc i)) V (W - {i}) R"
proof -
  note d = coreD [OF core]
  have w: "t \<le> i" "i < length E" "S (i mod c) = i" using d(6) [OF i] by auto
  have "\<exists>l. l mod c = j \<and> ((S(i mod c := Suc i)) j = l \<and> l < t + c \<or> (S(i mod c := Suc i)) j = Suc l \<and> l < length E)" if "j < c" for j
    using d(4) [OF that] w(2) by (metis fun_upd_apply)
  moreover have "(S(i mod c := Suc i)) (j mod c) = j \<and> j \<in> W - {i} \<or> (S(i mod c := Suc i)) (j mod c) = Suc j \<and> V (j mod c) = E ! j"
    if "t \<le> j" "j < length E" for j
  proof (cases "j mod c = i mod c")
    case True
    moreover have "j < i + c" "i < j + c" using w(1,2) that d(3) by linarith+
    ultimately have "j = i" using same_cell [of i c j] same_cell [of j c i] by (metis nat_le_linear)
    then show ?thesis using v by simp
  next
    case False
    then show ?thesis using d(5) [OF that] by auto
  qed
  moreover have "t \<le> j \<and> j < length E \<and> (S(i mod c := Suc i)) (j mod c) = j" if "j \<in> W - {i}" for j
    using d(6) [of j] that w(3) by (metis DiffE fun_upd_apply insertI1)
  moreover have "j < t \<and> length E \<le> j + c \<and> (S(i mod c := Suc i)) (j mod c) = Suc j \<and> V (j mod c) = E ! j" if "j \<in> R" for j
    using d(7) [OF that] w(3) turn_clash [OF d(1), of j i] by (cases "j mod c = i mod c") auto
  ultimately show ?thesis using d(1,2,3) unfolding core_def by blast
qed

lemma core_claim_read:
  assumes core: "core c E t S V W R" and full: "S (t mod c) = Suc t"
  shows "core c E (Suc t) S V W (insert t R)"
proof -
  note d = coreD [OF core]
  have lt: "t < length E" by (rule core_full [OF core full])
  have v: "V (t mod c) = E ! t" using d(5) [of t] lt full by auto
  have "Suc t \<le> i \<and> i < length E \<and> S (i mod c) = i" if "i \<in> W" for i
    using d(6) [OF that] full by (cases "i = t") auto
  moreover have "\<exists>i. i mod c = j \<and> (S j = i \<and> i < Suc t + c \<or> S j = Suc i \<and> i < length E)" if "j < c" for j
    using d(4) [OF that] by fastforce
  moreover have "i < Suc t \<and> length E \<le> i + c \<and> S (i mod c) = Suc i \<and> V (i mod c) = E ! i" if "i \<in> insert t R" for i
    using d(7) [of i] that full v d(3) by auto
  moreover have "Suc t \<le> length E" "length E \<le> Suc t + c" using lt d(3) by simp_all
  moreover have "S (i mod c) = i \<and> i \<in> W \<or> S (i mod c) = Suc i \<and> V (i mod c) = E ! i" if "Suc t \<le> i" "i < length E" for i
    using d(5) [of i] that by simp
  ultimately show ?thesis using d(1) unfolding core_def by blast
qed

lemma core_release:
  assumes core: "core c E t S V W R" and i: "i \<in> R"
  shows "core c E t (S(i mod c := i + c)) V W (R - {i})"
proof -
  note d = coreD [OF core]
  have r: "i < t" "length E \<le> i + c" "S (i mod c) = Suc i" using d(7) [OF i] by auto
  have "\<exists>l. l mod c = j \<and> ((S(i mod c := i + c)) j = l \<and> l < t + c \<or> (S(i mod c := i + c)) j = Suc l \<and> l < length E)" if "j < c" for j
    using d(4) [OF that] r(1) by (metis fun_upd_apply mod_add_self2 add_less_cancel_right)
  moreover have "(S(i mod c := i + c)) (j mod c) = j \<and> j \<in> W \<or> (S(i mod c := i + c)) (j mod c) = Suc j \<and> V (j mod c) = E ! j"
    if "t \<le> j" "j < length E" for j
    using d(5) [OF that] that r same_cell [of i c j] by (cases "j mod c = i mod c") auto
  moreover have "t \<le> j \<and> j < length E \<and> (S(i mod c := i + c)) (j mod c) = j" if "j \<in> W" for j
    using d(6) [OF that] r(3) turn_clash [OF d(1), of i j] by (metis fun_upd_apply)
  moreover have "j < t \<and> length E \<le> j + c \<and> (S(i mod c := i + c)) (j mod c) = Suc j \<and> V (j mod c) = E ! j" if "j \<in> R - {i}" for j
    using d(7) [of j] that r(3) by (metis DiffE fun_upd_apply insertI1 nat.inject)
  ultimately show ?thesis using d(1,2,3) unfolding core_def by blast
qed

subsection \<open>The threads\<close>

fun writing :: "'a mpmc_enqueue option \<Rightarrow> nat option" where
  "writing (Some (EStoreValue x h)) = Some (unat h)"
| "writing (Some (EStoreSequence x h)) = Some (unat h)"
| "writing _ = None"

fun reading :: "'a mpmc_dequeue option \<Rightarrow> nat option" where
  "reading (Some (DReadValue t)) = Some (unat t)"
| "reading (Some (DStoreSequence t x)) = Some (unat t)"
| "reading _ = None"

definition held :: "('p \<Rightarrow> nat option) \<Rightarrow> nat set" where
  "held f = {i. \<exists>p. f p = Some i}"

definition alone :: "('p \<Rightarrow> nat option) \<Rightarrow> bool" where
  "alone f \<longleftrightarrow> (\<forall>p p' i. f p = Some i \<longrightarrow> f p' = Some i \<longrightarrow> p = p')"

lemma heldI: "f p = Some i \<Longrightarrow> i \<in> held f"
  by (auto simp: held_def)

lemma held_claim: "f p = None \<Longrightarrow> held (f(p := Some i)) = insert i (held f)"
  by (rule set_eqI) (auto simp: held_def, metis option.distinct(1))

lemma held_drop: "alone f \<Longrightarrow> f p = Some i \<Longrightarrow> held (f(p := None)) = held f - {i}"
  by (rule set_eqI) (auto simp: held_def alone_def, metis option.inject)

lemma alone_claim: "alone f \<Longrightarrow> i \<notin> held f \<Longrightarrow> alone (f(p := Some i))"
  by (auto simp: alone_def held_def)

lemma alone_drop: "alone f \<Longrightarrow> alone (f(p := None))"
  by (auto simp: alone_def)

fun producer_at :: "nat \<Rightarrow> 'a list \<Rightarrow> (nat \<Rightarrow> nat) \<Rightarrow> (nat \<Rightarrow> 'a) \<Rightarrow> 'a mpmc_enqueue \<Rightarrow> bool" where
  "producer_at c E S V (ELoadHead x) \<longleftrightarrow> True"
| "producer_at c E S V (ELoadSequence x h) \<longleftrightarrow> unat h \<le> length E"
| "producer_at c E S V (EClaim x h) \<longleftrightarrow> unat h \<le> length E \<and> (unat h = length E \<longrightarrow> S (length E mod c) = length E)"
| "producer_at c E S V (EStoreValue x h) \<longleftrightarrow> unat h < length E \<and> E ! unat h = x"
| "producer_at c E S V (EStoreSequence x h) \<longleftrightarrow> unat h < length E \<and> E ! unat h = x \<and> V (unat h mod c) = x"

fun consumer_at :: "nat \<Rightarrow> 'a list \<Rightarrow> nat \<Rightarrow> (nat \<Rightarrow> nat) \<Rightarrow> 'a mpmc_dequeue \<Rightarrow> bool" where
  "consumer_at c E t S DLoadTail \<longleftrightarrow> True"
| "consumer_at c E t S (DLoadSequence w) \<longleftrightarrow> unat w \<le> t"
| "consumer_at c E t S (DClaim w) \<longleftrightarrow> unat w \<le> t \<and> (unat w = t \<longrightarrow> S (t mod c) = Suc t)"
| "consumer_at c E t S (DReadValue w) \<longleftrightarrow> unat w < t"
| "consumer_at c E t S (DStoreSequence w x) \<longleftrightarrow> unat w < t \<and> x = E ! unat w"

text \<open>The positions claimed by consumers are those held and those returned.\<close>

definition accounted :: "('p \<Rightarrow> nat option) \<Rightarrow> (nat \<times> 'a) list \<Rightarrow> nat \<Rightarrow> bool" where
  "accounted f D t \<longleftrightarrow> distinct (map fst D) \<and> held f \<inter> fst ` set D = {} \<and> held f \<union> fst ` set D = {..<t}"

definition good where
  "good c E t S V P C D \<longleftrightarrow> core c E t S V (held (\<lambda>p. writing (P p))) (held (\<lambda>q. reading (C q))) \<and>
     alone (\<lambda>p. writing (P p)) \<and> alone (\<lambda>q. reading (C q)) \<and>
     (\<forall>p pc. P p = Some pc \<longrightarrow> producer_at c E S V pc) \<and> (\<forall>q pc. C q = Some pc \<longrightarrow> consumer_at c E t S pc) \<and>
     (\<forall>i x. (i, x) \<in> set D \<longrightarrow> i < t \<and> x = E ! i) \<and>
     accounted (\<lambda>q. reading (C q)) D t"

lemma goodD:
  assumes "good c E t S V P C D"
  shows "core c E t S V (held (\<lambda>p. writing (P p))) (held (\<lambda>q. reading (C q)))"
    "alone (\<lambda>p. writing (P p))" "alone (\<lambda>q. reading (C q))"
    "\<And>p pc. P p = Some pc \<Longrightarrow> producer_at c E S V pc" "\<And>q pc. C q = Some pc \<Longrightarrow> consumer_at c E t S pc"
    "\<And>i x. (i, x) \<in> set D \<Longrightarrow> i < t \<and> x = E ! i" "accounted (\<lambda>q. reading (C q)) D t"
  using assms unfolding good_def by blast+

lemma good_producer:
  assumes "good c E t S V P C D" "writing (P p) = None" "writing y = None" "pred_option (producer_at c E S V) y"
  shows "good c E t S V (P(p := y)) C D"
proof -
  have "(\<lambda>q. writing ((P(p := y)) q)) = (\<lambda>q. writing (P q))" using assms(2,3) by auto
  moreover have "producer_at c E S V pc" if "(P(p := y)) q = Some pc" for q pc
    using that goodD(4) [OF assms(1), of q pc] assms(4) by (cases "q = p") auto
  ultimately show ?thesis using goodD [OF assms(1)] unfolding good_def by (simp only:) blast
qed

lemma good_consumer:
  assumes "good c E t S V P C D" "reading (C q) = None" "reading y = None" "pred_option (consumer_at c E t S) y"
  shows "good c E t S V P (C(q := y)) D"
proof -
  have "(\<lambda>p. reading ((C(q := y)) p)) = (\<lambda>p. reading (C p))" using assms(2,3) by auto
  moreover have "consumer_at c E t S pc" if "(C(q := y)) p = Some pc" for p pc
    using that goodD(5) [OF assms(1), of p pc] assms(4) by (cases "p = q") auto
  ultimately show ?thesis using goodD [OF assms(1)] unfolding good_def by (simp only:) blast
qed

lemma good_claim_write:
  assumes g: "good c E t S V P C D" and p: "P p = Some (EClaim x h)" "unat h = length E"
  shows "good c (E @ [x]) t S V (P(p := Some (EStoreValue x h))) C D"
proof -
  note d = goodD [OF g]
  have free: "S (length E mod c) = length E" using d(4) [OF p(1)] p(2) by simp
  have w: "(\<lambda>q. writing ((P(p := Some (EStoreValue x h))) q)) = (\<lambda>q. writing (P q))(p := Some (length E))" using p(2) by auto
  have "length E \<notin> held (\<lambda>q. writing (P q))" using coreD(6) [OF d(1), of "length E"] by auto
  then have a: "alone ((\<lambda>q. writing (P q))(p := Some (length E)))" by (rule alone_claim [OF d(2)])
  have c: "core c (E @ [x]) t S V (held ((\<lambda>q. writing (P q))(p := Some (length E)))) (held (\<lambda>q. reading (C q)))"
    using core_claim_write [OF d(1) free] held_claim [of "\<lambda>q. writing (P q)" p] p(1) by simp
  have "producer_at c (E @ [x]) S V pc" if "(P(p := Some (EStoreValue x h))) q = Some pc" for q pc
  proof (cases "q = p")
    case True
    then show ?thesis using that p(2) by auto
  next
    case False
    then have "producer_at c E S V pc" using that d(4) [of q pc] by simp
    then show ?thesis by (cases pc) (auto simp: nth_append)
  qed
  moreover have "consumer_at c (E @ [x]) t S pc" if "C q = Some pc" for q pc
    using d(5) [OF that] coreD(2) [OF d(1)] by (cases pc) (auto simp: nth_append)
  moreover have "i < t \<and> y = (E @ [x]) ! i" if "(i, y) \<in> set D" for i y
    using d(6) [OF that] coreD(2) [OF d(1)] by (auto simp: nth_append)
  ultimately show ?thesis using c a d(3,7) unfolding good_def w by blast
qed

lemma good_store:
  assumes g: "good c E t S V P C D" and p: "P p = Some (EStoreValue x h)"
  shows "good c E t S (V(unat h mod c := x)) (P(p := Some (EStoreSequence x h))) C D"
proof -
  note d = goodD [OF g]
  have w: "(\<lambda>q. writing ((P(p := Some (EStoreSequence x h))) q)) = (\<lambda>q. writing (P q))" using p by auto
  have i: "unat h \<in> held (\<lambda>q. writing (P q))" using p by (auto intro!: heldI [of _ p])
  have c: "core c E t S (V(unat h mod c := x)) (held (\<lambda>q. writing (P q))) (held (\<lambda>q. reading (C q)))" by (rule core_store [OF d(1) i])
  have "producer_at c E S (V(unat h mod c := x)) pc" if q: "(P(p := Some (EStoreSequence x h))) q = Some pc" for q pc
  proof (cases "q = p")
    case True
    then show ?thesis using q d(4) [OF p] by auto
  next
    case False
    then have at: "P q = Some pc" "producer_at c E S V pc" using q d(4) [of q pc] by auto
    show ?thesis
    proof (cases pc)
      case (EStoreSequence y l)
      then have l: "unat l \<in> held (\<lambda>q. writing (P q))" using at(1) by (auto intro!: heldI [of _ q])
      have "unat l \<noteq> unat h" using d(2) at(1) p EStoreSequence False unfolding alone_def by (metis writing.simps(1,2))
      then have "unat l mod c \<noteq> unat h mod c" using coreD(6) [OF d(1) l] coreD(6) [OF d(1) i] by metis
      then show ?thesis using at(2) EStoreSequence by simp
    qed (use at in auto)
  qed
  then show ?thesis using c d(2,3,5-7) unfolding good_def w by blast
qed

lemma good_publish:
  assumes g: "good c E t S V P C D" and p: "P p = Some (EStoreSequence x h)"
  shows "good c E t (S(unat h mod c := Suc (unat h))) V (P(p := None)) C D"
proof -
  note d = goodD [OF g]
  have w: "(\<lambda>q. writing ((P(p := None)) q)) = (\<lambda>q. writing (P q))(p := None)" by auto
  have wp: "writing (P p) = Some (unat h)" by (simp add: p)
  then have i: "unat h \<in> held (\<lambda>q. writing (P q))" by (rule heldI [of _ p])
  note wi = coreD(6) [OF d(1) i]
  have c: "core c E t (S(unat h mod c := Suc (unat h))) V (held ((\<lambda>q. writing (P q))(p := None))) (held (\<lambda>q. reading (C q)))"
    using core_publish [OF d(1) i] d(4) [OF p] held_drop [OF d(2) wp] by simp
  have "producer_at c E (S(unat h mod c := Suc (unat h))) V pc" if q: "(P(p := None)) q = Some pc" for q pc
  proof -
    have "producer_at c E S V pc" using q d(4) [of q pc] by (auto split: if_splits)
    then show ?thesis using wi by (cases pc) auto
  qed
  moreover have "consumer_at c E t (S(unat h mod c := Suc (unat h))) pc" if "C q = Some pc" for q pc
    using d(5) [OF that] wi turn_clash [OF coreD(1) [OF d(1)], of t "unat h"] by (cases pc) auto
  ultimately show ?thesis using c d(3,6,7) alone_drop [OF d(2)] unfolding good_def w by blast
qed

lemma good_claim_read:
  assumes g: "good c E t S V P C D" and q: "C q = Some (DClaim w)" "unat w = t"
  shows "good c E (Suc t) S V P (C(q := Some (DReadValue w))) D"
proof -
  note d = goodD [OF g]
  have full: "S (t mod c) = Suc t" using d(5) [OF q(1)] q(2) by simp
  have r: "(\<lambda>p. reading ((C(q := Some (DReadValue w))) p)) = (\<lambda>p. reading (C p))(q := Some t)" using q(2) by auto
  have "t \<notin> held (\<lambda>p. reading (C p))" using coreD(7) [OF d(1), of t] by auto
  then have a: "alone ((\<lambda>p. reading (C p))(q := Some t))" by (rule alone_claim [OF d(3)])
  have h: "held ((\<lambda>p. reading (C p))(q := Some t)) = insert t (held (\<lambda>p. reading (C p)))" by (rule held_claim) (simp add: q(1))
  have c: "core c E (Suc t) S V (held (\<lambda>p. writing (P p))) (held ((\<lambda>p. reading (C p))(q := Some t)))"
    using core_claim_read [OF d(1) full] h by simp
  have "consumer_at c E (Suc t) S pc" if "(C(q := Some (DReadValue w))) p = Some pc" for p pc
  proof (cases "p = q")
    case True
    then show ?thesis using that q(2) by auto
  next
    case False
    then have "consumer_at c E t S pc" using that d(5) [of p pc] by simp
    then show ?thesis by (cases pc) auto
  qed
  moreover have "i < Suc t \<and> y = E ! i" if "(i, y) \<in> set D" for i y using d(6) [OF that] by auto
  moreover have "accounted ((\<lambda>p. reading (C p))(q := Some t)) D (Suc t)"
    using d(7) unfolding accounted_def h by (auto simp: lessThan_Suc)
  ultimately show ?thesis using c a d(2,4) unfolding good_def r by blast
qed

lemma good_read:
  assumes g: "good c E t S V P C D" and q: "C q = Some (DReadValue w)"
  shows "good c E t S V P (C(q := Some (DStoreSequence w (V (unat w mod c))))) D"
proof -
  note d = goodD [OF g]
  let ?y = "Some (DStoreSequence w (V (unat w mod c)))"
  have r: "(\<lambda>p. reading ((C(q := ?y)) p)) = (\<lambda>p. reading (C p))" using q by auto
  have "unat w \<in> held (\<lambda>p. reading (C p))" using q by (auto intro!: heldI [of _ q])
  then have v: "unat w < t" "V (unat w mod c) = E ! unat w" using coreD(7) [OF d(1)] by auto
  have "consumer_at c E t S pc" if "(C(q := ?y)) p = Some pc" for p pc
    using that d(5) [of p pc] v by (cases "p = q") auto
  then show ?thesis using d(1-4,6,7) unfolding good_def r by blast
qed

lemma good_release:
  assumes g: "good c E t S V P C D" and q: "C q = Some (DStoreSequence w x)"
  shows "good c E t (S(unat w mod c := unat w + c)) V P (C(q := None)) (D @ [(unat w, x)])"
proof -
  note d = goodD [OF g]
  have r: "(\<lambda>p. reading ((C(q := None)) p)) = (\<lambda>p. reading (C p))(q := None)" by auto
  have rq: "reading (C q) = Some (unat w)" by (simp add: q)
  then have i: "unat w \<in> held (\<lambda>p. reading (C p))" by (rule heldI [of _ q])
  note ri = coreD(7) [OF d(1) i]
  have h: "held ((\<lambda>p. reading (C p))(q := None)) = held (\<lambda>p. reading (C p)) - {unat w}" by (rule held_drop [OF d(3) rq])
  have c: "core c E t (S(unat w mod c := unat w + c)) V (held (\<lambda>p. writing (P p))) (held ((\<lambda>p. reading (C p))(q := None)))"
    using core_release [OF d(1) i] h by simp
  have "producer_at c E (S(unat w mod c := unat w + c)) V pc" if "P p = Some pc" for p pc
    using d(4) [OF that] ri turn_clash [OF coreD(1) [OF d(1)], of "unat w" "length E"] by (cases pc) auto
  moreover have "consumer_at c E t (S(unat w mod c := unat w + c)) pc" if "(C(q := None)) p = Some pc" for p pc
  proof -
    have "consumer_at c E t S pc" using that d(5) [of p pc] by (auto split: if_splits)
    then show ?thesis using ri by (cases pc) auto
  qed
  moreover have "i < t \<and> y = E ! i" if "(i, y) \<in> set (D @ [(unat w, x)])" for i y
    using that d(5) [OF q] d(6) [of i y] by auto
  moreover have "accounted ((\<lambda>p. reading (C p))(q := None)) (D @ [(unat w, x)]) t" using d(7) i unfolding accounted_def h by auto
  ultimately show ?thesis using c d(2) alone_drop [OF d(3)] unfolding good_def r by blast
qed

subsection \<open>The invariant of the system\<close>

text \<open>
  The sequence numbers are compared as 64-bit values: the invariant is about runs in which fewer than $2^{63}$
  positions were claimed, which keeps all sequence numbers apart.
\<close>

definition mpmc_inv :: "nat \<Rightarrow> 'a mpmc_system \<Rightarrow> bool" where
  "mpmc_inv k s \<longleftrightarrow> 0 < k \<and> k < 63 \<and> (length (ms_enqueued s) < 2 ^ 63 \<longrightarrow>
     mp_mask (ms_queue s) = mask k \<and> length (mp_sequence (ms_queue s)) = 2 ^ k \<and> length (mp_value (ms_queue s)) = 2 ^ k \<and>
     unat (mp_head (ms_queue s)) = length (ms_enqueued s) \<and> unat (mp_tail (ms_queue s)) = ms_taken s \<and>
     good (2 ^ k) (ms_enqueued s) (ms_taken s) (\<lambda>j. unat (mp_sequence (ms_queue s) ! j)) (\<lambda>j. mp_value (ms_queue s) ! j)
       (ms_producers s) (ms_consumers s) (ms_delivered s))"

lemma cell_mod: "k < 64 \<Longrightarrow> mp_mask q = mask k \<Longrightarrow> cell q w = unat w mod 2 ^ k"
  using unat_index [of k "unat w"] by (simp add: cell_def)

lemma turn_eq: "turn a b = 0 \<longleftrightarrow> a = b"
  by (auto simp: turn_def intro: signed_word_eqI)

lemma nth_upd: "i < length xs \<Longrightarrow> (\<lambda>j. f (xs[i := x] ! j)) = (\<lambda>j. f (xs ! j))(i := f x)"
  by (auto simp: nth_list_update)

lemma unat_next: "unat (w :: u64) < 2 ^ 63 \<Longrightarrow> unat (w + 1) = Suc (unat w)"
  by (simp add: unat_word_ariths)

lemma unat_lap:
  assumes "k < 63" "unat (w :: u64) < 2 ^ 63"
  shows "unat (w + mask k + 1) = unat w + 2 ^ k"
proof -
  have "(2 :: nat) ^ k \<le> 2 ^ 62" using assms(1) by (intro power_increasing) auto
  then have "unat w + 2 ^ k < 2 ^ 64" using assms(2) by simp
  moreover have "w + mask k + 1 = of_nat (unat w + 2 ^ k)" by (simp add: mask_eq_exp_minus_1)
  ultimately show ?thesis by (simp only: unsigned_of_nat) (simp add: take_bit_nat_eq_self)
qed

lemma mpmc_invD:
  assumes "mpmc_inv k s" "length (ms_enqueued s) < 2 ^ 63"
  shows "k < 63" "mp_mask (ms_queue s) = mask k" "length (mp_sequence (ms_queue s)) = 2 ^ k" "length (mp_value (ms_queue s)) = 2 ^ k"
    "unat (mp_head (ms_queue s)) = length (ms_enqueued s)" "unat (mp_tail (ms_queue s)) = ms_taken s"
    "good (2 ^ k) (ms_enqueued s) (ms_taken s) (\<lambda>j. unat (mp_sequence (ms_queue s) ! j)) (\<lambda>j. mp_value (ms_queue s) ! j)
       (ms_producers s) (ms_consumers s) (ms_delivered s)"
    "cell (ms_queue s) w = unat w mod 2 ^ k"
  using assms by (auto simp: mpmc_inv_def intro!: cell_mod)

lemma mpmc_inv_run_producer:
  assumes inv: "mpmc_inv k s" and p: "ms_producers s i = Some p" and step: "MPMC_Enqueue_step lucky (ms_queue s) p = (q, Inl p')"
  shows "mpmc_inv k (s\<lparr> ms_queue := q, ms_producers := (ms_producers s)(i := Some p'), ms_enqueued := ms_enqueued s @ claimed p p' \<rparr>)"
    (is "mpmc_inv k ?s")
proof (cases "length (ms_enqueued ?s) < 2 ^ 63")
  case True
  then have lt: "length (ms_enqueued s) < 2 ^ 63" by simp
  note d = mpmc_invD [OF inv lt] and at = goodD(4) [OF mpmc_invD(7) [OF inv lt] p]
  show ?thesis
  proof (cases p)
    case (ELoadHead x)
    then show ?thesis using step inv d at good_producer [OF d(7), of i "Some p'"] p by (auto simp: mpmc_inv_def)
  next
    case (ELoadSequence x h)
    have "unat h = length (ms_enqueued s) \<longrightarrow> unat (mp_sequence (ms_queue s) ! (length (ms_enqueued s) mod 2 ^ k)) = length (ms_enqueued s)"
      if "turn (mp_sequence (ms_queue s) ! cell (ms_queue s) h) h = 0" using that d(8) [of h] by (metis turn_eq)
    then show ?thesis using step inv d at good_producer [OF d(7), of i "Some p'"] p ELoadSequence
      by (auto simp: mpmc_inv_def Let_def split: if_splits)
  next
    case (EClaim x h)
    show ?thesis
    proof (cases "mp_head (ms_queue s) = h \<and> lucky")
      case True
      then have e: "p' = EStoreValue x h" "q = (ms_queue s)\<lparr> mp_head := h + 1 \<rparr>" "unat h = length (ms_enqueued s)"
        using step EClaim d(5) by auto
      have "unat (h + 1) = Suc (length (ms_enqueued s))" using unat_next [of h] lt e(3) by simp
      then show ?thesis using inv d e EClaim good_claim_write [OF d(7), of i x h] p by (auto simp: mpmc_inv_def)
    next
      case False
      then have e: "p' = ELoadSequence x (mp_head (ms_queue s))" "q = ms_queue s" using step EClaim by auto
      then show ?thesis using inv d EClaim good_producer [OF d(7), of i "Some p'"] p by (auto simp: mpmc_inv_def)
    qed
  next
    case (EStoreValue x h)
    have e: "p' = EStoreSequence x h" "q = (ms_queue s)\<lparr> mp_value := (mp_value (ms_queue s))[unat h mod 2 ^ k := x] \<rparr>"
      using step EStoreValue d(8) by auto
    then show ?thesis using inv d EStoreValue good_store [OF d(7), of i x h] p nth_upd [of "unat h mod 2 ^ k" "mp_value (ms_queue s)" "\<lambda>y. y" x]
      by (auto simp: mpmc_inv_def fun_upd_def)
  qed (use step in auto)
qed (use inv in \<open>simp add: mpmc_inv_def\<close>)

lemma mpmc_inv_return_producer:
  assumes inv: "mpmc_inv k s" and p: "ms_producers s i = Some p" and step: "MPMC_Enqueue_step lucky (ms_queue s) p = (q, Inr b)"
  shows "mpmc_inv k (s\<lparr> ms_queue := q, ms_producers := (ms_producers s)(i := None) \<rparr>)" (is "mpmc_inv k ?s")
proof (cases "length (ms_enqueued s) < 2 ^ 63")
  case True
  note d = mpmc_invD [OF inv True] and at = goodD(4) [OF mpmc_invD(7) [OF inv True] p]
  show ?thesis
  proof (cases p)
    case (ELoadSequence x h)
    then show ?thesis using step inv d good_producer [OF d(7), of i None] p by (auto simp: mpmc_inv_def Let_def split: if_splits)
  next
    case (EStoreSequence x h)
    have e: "q = (ms_queue s)\<lparr> mp_sequence := (mp_sequence (ms_queue s))[unat h mod 2 ^ k := h + 1] \<rparr>"
      using step EStoreSequence d(8) by auto
    have "unat (h + 1) = Suc (unat h)" using at EStoreSequence True by (intro unat_next) auto
    then show ?thesis using inv d e EStoreSequence good_publish [OF d(7), of i x h] p
        nth_upd [of "unat h mod 2 ^ k" "mp_sequence (ms_queue s)" unat "h + 1"] by (auto simp: mpmc_inv_def)
  qed (use step in \<open>auto split: if_splits\<close>)
qed (use inv in \<open>simp add: mpmc_inv_def\<close>)

lemma mpmc_inv_run_consumer:
  assumes inv: "mpmc_inv k s" and c: "ms_consumers s i = Some c" and step: "MPMC_Dequeue_step lucky (ms_queue s) c = (q, Inl c')"
  shows "mpmc_inv k (s\<lparr> ms_queue := q, ms_consumers := (ms_consumers s)(i := Some c'), ms_taken := ms_taken s + claims c c' \<rparr>)"
    (is "mpmc_inv k ?s")
proof (cases "length (ms_enqueued s) < 2 ^ 63")
  case True
  note d = mpmc_invD [OF inv True] and at = goodD(5) [OF mpmc_invD(7) [OF inv True] c] and lt = coreD(2) [OF goodD(1) [OF mpmc_invD(7) [OF inv True]]]
  show ?thesis
  proof (cases c)
    case DLoadTail
    then show ?thesis using step inv d at good_consumer [OF d(7), of i "Some c'"] c by (auto simp: mpmc_inv_def)
  next
    case (DLoadSequence w)
    have "unat w < 2 ^ 63" using at DLoadSequence lt True by auto
    then have "unat w = ms_taken s \<longrightarrow> unat (mp_sequence (ms_queue s) ! (ms_taken s mod 2 ^ k)) = Suc (ms_taken s)"
      if "turn (mp_sequence (ms_queue s) ! cell (ms_queue s) w) (w + 1) = 0" using that d(8) [of w] unat_next [of w] by (metis turn_eq)
    then show ?thesis using step inv d at good_consumer [OF d(7), of i "Some c'"] c DLoadSequence
      by (auto simp: mpmc_inv_def Let_def split: if_splits)
  next
    case (DClaim w)
    show ?thesis
    proof (cases "mp_tail (ms_queue s) = w \<and> lucky")
      case lucky: True
      then have e: "c' = DReadValue w" "q = (ms_queue s)\<lparr> mp_tail := w + 1 \<rparr>" "unat w = ms_taken s"
        using step DClaim d(6) by auto
      have "unat (w + 1) = Suc (ms_taken s)" using unat_next [of w] e(3) lt True by simp
      then show ?thesis using inv d e DClaim good_claim_read [OF d(7), of i w] c by (auto simp: mpmc_inv_def)
    next
      case False
      then have e: "c' = DLoadSequence (mp_tail (ms_queue s))" "q = ms_queue s" using step DClaim by auto
      then show ?thesis using inv d DClaim good_consumer [OF d(7), of i "Some c'"] c by (auto simp: mpmc_inv_def)
    qed
  next
    case (DReadValue w)
    have e: "c' = DStoreSequence w (mp_value (ms_queue s) ! (unat w mod 2 ^ k))" "q = ms_queue s"
      using step DReadValue d(8) by auto
    then show ?thesis using inv d DReadValue good_read [OF d(7), of i w] c by (auto simp: mpmc_inv_def)
  qed (use step in auto)
qed (use inv in \<open>simp add: mpmc_inv_def\<close>)

lemma mpmc_inv_return_consumer:
  assumes inv: "mpmc_inv k s" and c: "ms_consumers s i = Some c" and step: "MPMC_Dequeue_step lucky (ms_queue s) c = (q, Inr r)"
  shows "mpmc_inv k (s\<lparr> ms_queue := q, ms_consumers := (ms_consumers s)(i := None), ms_delivered := ms_delivered s @ delivery c r \<rparr>)"
    (is "mpmc_inv k ?s")
proof (cases "length (ms_enqueued s) < 2 ^ 63")
  case True
  note d = mpmc_invD [OF inv True] and at = goodD(5) [OF mpmc_invD(7) [OF inv True] c] and lt = coreD(2) [OF goodD(1) [OF mpmc_invD(7) [OF inv True]]]
  show ?thesis
  proof (cases c)
    case (DLoadSequence w)
    then show ?thesis using step inv d good_consumer [OF d(7), of i None] c by (auto simp: mpmc_inv_def Let_def split: if_splits)
  next
    case (DStoreSequence w x)
    have e: "q = (ms_queue s)\<lparr> mp_sequence := (mp_sequence (ms_queue s))[unat w mod 2 ^ k := w + mask k + 1] \<rparr>" "r = Some x"
      using step DStoreSequence d(2,8) by auto
    have "unat (w + mask k + 1) = unat w + 2 ^ k" using at DStoreSequence lt True d(1) by (intro unat_lap) auto
    then show ?thesis using inv d e DStoreSequence good_release [OF d(7), of i w x] c
        nth_upd [of "unat w mod 2 ^ k" "mp_sequence (ms_queue s)" unat "w + mask k + 1"] by (auto simp: mpmc_inv_def)
  qed (use step in \<open>auto split: if_splits\<close>)
qed (use inv in \<open>simp add: mpmc_inv_def\<close>)

lemma mpmc_inv_step: "mpmc_step s s' \<Longrightarrow> mpmc_inv k s \<Longrightarrow> mpmc_inv k s'"
proof (induction rule: mpmc_step.induct)
  case (call_producer s i x)
  then show ?case using good_producer [of "2 ^ k" _ _ _ _ "ms_producers s" _ _ i "Some (ELoadHead x)"] by (auto simp: mpmc_inv_def)
next
  case (call_consumer s i)
  then show ?case using good_consumer [of "2 ^ k" _ _ _ _ _ "ms_consumers s" _ i "Some DLoadTail"] by (auto simp: mpmc_inv_def)
qed (auto intro: mpmc_inv_run_producer mpmc_inv_return_producer mpmc_inv_run_consumer mpmc_inv_return_consumer)

lemma mpmc_inv_start:
  assumes "ring_size capacity k" "k < 63" "mpmc_start capacity blank s"
  shows "mpmc_inv k s"
proof -
  note r = ring_size_mask [OF assms(1)]
  have u: "unat (of_nat j :: u64) = j" if "j < 2 ^ k" for j
  proof -
    have "(2 :: nat) ^ k < 2 ^ 64" using r(4) by (intro power_strict_increasing) simp_all
    then have "j < 2 ^ 64" using that by simp
    then show ?thesis by (simp only: unsigned_of_nat) (simp add: take_bit_nat_eq_self)
  qed
  have "core (2 ^ k) [] 0 (\<lambda>j. unat ((map of_nat [0..<2 ^ k] :: u64 list) ! j)) V (held (\<lambda>p. None)) (held (\<lambda>p. None))" for V
    using r(5) by (auto simp: core_def held_def u)
  then show ?thesis using assms r by (simp add: mpmc_inv_def mpmc_start_def MPMCRingQueue_def good_def alone_def) (simp add: accounted_def held_def)
qed

interpretation mpmc: step_invariant "mpmc_start capacity blank" mpmc_step "\<lambda>s. \<forall>k. ring_size capacity k \<longrightarrow> k < 63 \<longrightarrow> mpmc_inv k s"
  by unfold_locales (auto intro: mpmc_inv_start mpmc_inv_step)

subsection \<open>Properties\<close>

text \<open>
  C3. The ring queue of many producers and consumers delivers every item once and in order of the claimed
  positions, under every interleaving and with compare-and-exchange operations that fail at random, as long as
  fewer than $2^{63}$ items were enqueued: the consumers have claimed a prefix of the enqueued items that leaves
  at most the capacity, what a consumer returned for a position is the item enqueued there, no position is
  returned twice, a claimed position that was not returned is still held by exactly one consumer, and a position
  that is not claimed holds its item unless its producer is still storing it.
\<close>

theorem MPMCRingQueue_exactly_once:
  assumes "ring_size capacity k" and "k < 63" and "reach (mpmc_start capacity blank) mpmc_step s"
    and "length (ms_enqueued s) < 2 ^ 63"
  shows "ms_taken s \<le> length (ms_enqueued s) \<and> length (ms_enqueued s) \<le> ms_taken s + unat capacity \<and>
     (\<forall>i x. (i, x) \<in> set (ms_delivered s) \<longrightarrow> i < ms_taken s \<and> x = ms_enqueued s ! i) \<and> distinct (map fst (ms_delivered s)) \<and>
     (\<forall>i < ms_taken s. i \<in> fst ` set (ms_delivered s) \<or> (\<exists>!c. reading (ms_consumers s c) = Some i)) \<and>
     (\<forall>i. ms_taken s \<le> i \<longrightarrow> i < length (ms_enqueued s) \<longrightarrow>
        (\<exists>p. writing (ms_producers s p) = Some i) \<or> mp_value (ms_queue s) ! (i mod unat capacity) = ms_enqueued s ! i)"
proof -
  have inv: "mpmc_inv k s" using mpmc.reach_inv [OF assms(3)] assms(1,2) by blast
  note d = goodD [OF mpmc_invD(7) [OF inv assms(4)]] and c = ring_size_mask(2) [OF assms(1)]
  have "(\<exists>!c. reading (ms_consumers s c) = Some i)" if "i < ms_taken s" "i \<notin> fst ` set (ms_delivered s)" for i
  proof -
    have "i \<in> held (\<lambda>q. reading (ms_consumers s q))" using that d(7) by (auto simp: accounted_def)
    then show ?thesis using d(3) unfolding held_def alone_def by auto
  qed
  moreover have "(\<exists>p. writing (ms_producers s p) = Some i) \<or> mp_value (ms_queue s) ! (i mod 2 ^ k) = ms_enqueued s ! i"
    if "ms_taken s \<le> i" "i < length (ms_enqueued s)" for i
    using coreD(5) [OF d(1) that] by (auto simp: held_def)
  moreover have "distinct (map fst (ms_delivered s))" using d(7) by (simp add: accounted_def)
  ultimately show ?thesis using coreD(2,3) [OF d(1)] d(6) unfolding c by blast
qed

theorem MPMCRingQueue_exactly_once_witness:
  "\<exists>s :: nat mpmc_system. reach (mpmc_start 4 0) mpmc_step s \<and> ms_producers s 1 = Some (ELoadHead 6) \<and>
     ms_taken s \<le> length (ms_enqueued s) \<and> length (ms_enqueued s) \<le> ms_taken s + 4"
proof -
  let ?s = "\<lparr> ms_queue = MPMCRingQueue 4 0, ms_producers = (\<lambda>_. None), ms_consumers = (\<lambda>_. None),
    ms_enqueued = [], ms_taken = 0, ms_delivered = [] \<rparr> :: nat mpmc_system"
  let ?t = "?s\<lparr> ms_producers := (ms_producers ?s)(1 := Some (ELoadHead 6)) \<rparr>"
  have "reach (mpmc_start 4 0) mpmc_step ?s" by (rule reach_start) (simp add: mpmc_start_def)
  from reach_step [OF this call_producer [of _ 1 6]] have r: "reach (mpmc_start 4 0) mpmc_step ?t" by simp
  have "ring_size 4 2" by (simp add: ring_size_def)
  from MPMCRingQueue_exactly_once [OF this _ r] show ?thesis using r by (intro exI [of _ ?t]) simp
qed

end
