(* ===== verification/LinkedQueue.thy ===== *)
theory LinkedQueue
  imports Interleaving
begin

text \<open>
  The linked queue for many producers and one consumer of \<^verbatim>\<open>include/threads/mpsc_linked_queue.h\<close> and
  \<^verbatim>\<open>include/threads/mpsc_linked_queue.inl\<close>. The nodes live on the heap, a partial map from addresses to nodes: a
  deleted node is no longer in it, and an access to a node that is not in the heap has no result. A node enters the
  queue when a producer exchanges the head, and is linked to its predecessor by a later store.
\<close>

record 'a linked_node =
  ln_next :: "nat option"
  ln_value :: 'a

record 'a linked_queue =
  lq_head :: nat
  lq_tail :: nat
  lq_heap :: "nat \<Rightarrow> 'a linked_node option"

text \<open>The constructor allocates a fake node; \<open>blank\<close> is the value of a node that was not assigned.\<close>

definition MPSCLinkedQueue :: "nat \<Rightarrow> 'a \<Rightarrow> 'a linked_queue" where
  "MPSCLinkedQueue a blank =
     \<lparr> lq_head = a, lq_tail = a, lq_heap = [a \<mapsto> \<lparr> ln_next = None, ln_value = blank \<rparr>] \<rparr>"

subsection \<open>The accesses of the operations\<close>

datatype 'a linked_enqueue = LNew 'a | LFill 'a nat | LExchange 'a nat | LLink nat nat

text \<open>
  The first argument is the result of \<^verbatim>\<open>new Node\<close>. A step gives the new state and either the rest of the operation or
  what it returns.
\<close>

fun LQ_Enqueue_step :: "nat option \<Rightarrow> 'a \<Rightarrow> 'a linked_queue \<Rightarrow> 'a linked_enqueue \<Rightarrow> ('a linked_queue \<times> ('a linked_enqueue + bool)) option" where
  "LQ_Enqueue_step fresh blank q (LNew item) =
     (case fresh of
        None \<Rightarrow> Some (q, Inr False)
      | Some node \<Rightarrow> Some (q\<lparr> lq_heap := (lq_heap q)(node \<mapsto> \<lparr> ln_next = None, ln_value = blank \<rparr>) \<rparr>, Inl (LFill item node)))"
| "LQ_Enqueue_step fresh blank q (LFill item node) =
     (case lq_heap q node of
        None \<Rightarrow> None
      | Some n \<Rightarrow> Some (q\<lparr> lq_heap := (lq_heap q)(node \<mapsto> n\<lparr> ln_value := item, ln_next := None \<rparr>) \<rparr>, Inl (LExchange item node)))"
| "LQ_Enqueue_step fresh blank q (LExchange item node) = Some (q\<lparr> lq_head := node \<rparr>, Inl (LLink node (lq_head q)))"
| "LQ_Enqueue_step fresh blank q (LLink node prev_head) =
     (case lq_heap q prev_head of
        None \<Rightarrow> None
      | Some n \<Rightarrow> Some (q\<lparr> lq_heap := (lq_heap q)(prev_head \<mapsto> n\<lparr> ln_next := Some node \<rparr>) \<rparr>, Inr True))"

datatype 'a linked_dequeue = LLoadTail | LLoadNext nat | LReadValue nat nat | LStoreTail nat nat 'a | LDelete nat 'a

fun LQ_Dequeue_step :: "'a linked_queue \<Rightarrow> 'a linked_dequeue \<Rightarrow> ('a linked_queue \<times> ('a linked_dequeue + 'a option)) option" where
  "LQ_Dequeue_step q LLoadTail = Some (q, Inl (LLoadNext (lq_tail q)))"
| "LQ_Dequeue_step q (LLoadNext t) =
     (case lq_heap q t of
        None \<Rightarrow> None
      | Some n \<Rightarrow> (case ln_next n of None \<Rightarrow> Some (q, Inr None) | Some nx \<Rightarrow> Some (q, Inl (LReadValue t nx))))"
| "LQ_Dequeue_step q (LReadValue t nx) =
     (case lq_heap q nx of None \<Rightarrow> None | Some n \<Rightarrow> Some (q, Inl (LStoreTail t nx (ln_value n))))"
| "LQ_Dequeue_step q (LStoreTail t nx item) = Some (q\<lparr> lq_tail := nx \<rparr>, Inl (LDelete t item))"
| "LQ_Dequeue_step q (LDelete t item) =
     (if lq_heap q t = None then None else Some (q\<lparr> lq_heap := (lq_heap q)(t := None) \<rparr>, Inr (Some item)))"

subsection \<open>Destruction\<close>

text \<open>
  The destructor calls \<^verbatim>\<open>Dequeue\<close> without interruption until it fails and deletes the last node. The result is
  the heap it leaves.
\<close>

definition LQ_Dequeue :: "'a linked_queue \<Rightarrow> ('a linked_queue \<times> 'a option) option" where
  "LQ_Dequeue q =
     Option.bind (lq_heap q (lq_tail q)) (\<lambda>n.
       case ln_next n of
         None \<Rightarrow> Some (q, None)
       | Some nx \<Rightarrow>
           Option.bind (lq_heap q nx) (\<lambda>m.
             Some (q\<lparr> lq_tail := nx, lq_heap := (lq_heap q)(lq_tail q := None) \<rparr>, Some (ln_value m))))"

partial_function (option) LQ_drain :: "'a linked_queue \<Rightarrow> 'a linked_queue option" where
  "LQ_drain q = Option.bind (LQ_Dequeue q) (\<lambda>r. if snd r = None then Some (fst r) else LQ_drain (fst r))"

definition MPSCLinkedQueue_destroy :: "'a linked_queue \<Rightarrow> (nat \<Rightarrow> 'a linked_node option) option" where
  "MPSCLinkedQueue_destroy q =
     Option.bind (LQ_drain q) (\<lambda>q. if lq_heap q (lq_head q) = None then None else Some ((lq_heap q)(lq_head q := None)))"

subsection \<open>The system of producers and one consumer\<close>

text \<open>
  The history records the items in the order in which their nodes were exchanged for the head, and the items that
  the consumer returned.
\<close>

record 'a linked_system =
  ls_queue :: "'a linked_queue"
  ls_producers :: "nat \<Rightarrow> 'a linked_enqueue option"
  ls_consumer :: "'a linked_dequeue option"
  ls_enqueued :: "'a list"
  ls_dequeued :: "'a list"

fun exchanged :: "'a linked_enqueue \<Rightarrow> 'a list" where
  "exchanged (LExchange x a) = [x]"
| "exchanged _ = []"

inductive linked_step :: "'a \<Rightarrow> 'a linked_system \<Rightarrow> 'a linked_system \<Rightarrow> bool" for blank where
  call_LQ_Enqueue: "ls_producers s i = None \<Longrightarrow>
    linked_step blank s (s\<lparr> ls_producers := (ls_producers s)(i := Some (LNew x)) \<rparr>)"
| run_LQ_Enqueue: "ls_producers s i = Some p \<Longrightarrow> \<forall>a. fresh = Some a \<longrightarrow> lq_heap (ls_queue s) a = None \<Longrightarrow>
    LQ_Enqueue_step fresh blank (ls_queue s) p = Some (q, Inl p') \<Longrightarrow>
    linked_step blank s (s\<lparr> ls_queue := q, ls_producers := (ls_producers s)(i := Some p'), ls_enqueued := ls_enqueued s @ exchanged p \<rparr>)"
| return_LQ_Enqueue: "ls_producers s i = Some p \<Longrightarrow> LQ_Enqueue_step fresh blank (ls_queue s) p = Some (q, Inr b) \<Longrightarrow>
    linked_step blank s (s\<lparr> ls_queue := q, ls_producers := (ls_producers s)(i := None) \<rparr>)"
| call_LQ_Dequeue: "ls_consumer s = None \<Longrightarrow> linked_step blank s (s\<lparr> ls_consumer := Some LLoadTail \<rparr>)"
| run_LQ_Dequeue: "ls_consumer s = Some c \<Longrightarrow> LQ_Dequeue_step (ls_queue s) c = Some (q, Inl c') \<Longrightarrow>
    linked_step blank s (s\<lparr> ls_queue := q, ls_consumer := Some c' \<rparr>)"
| return_LQ_Dequeue: "ls_consumer s = Some c \<Longrightarrow> LQ_Dequeue_step (ls_queue s) c = Some (q, Inr r) \<Longrightarrow>
    linked_step blank s (s\<lparr> ls_queue := q, ls_consumer := None,
      ls_dequeued := ls_dequeued s @ (case r of None \<Rightarrow> [] | Some x \<Rightarrow> [x]) \<rparr>)"

definition linked_start :: "nat \<Rightarrow> 'a \<Rightarrow> 'a linked_system \<Rightarrow> bool" where
  "linked_start a blank s \<longleftrightarrow>
     s = \<lparr> ls_queue = MPSCLinkedQueue a blank, ls_producers = (\<lambda>_. None), ls_consumer = None, ls_enqueued = [], ls_dequeued = [] \<rparr>"

subsection \<open>The chain of nodes\<close>

text \<open>
  The nodes from the tail to the head; the links in \<open>W\<close> are not stored yet.
\<close>

definition node_chain :: "(nat \<Rightarrow> 'a linked_node option) \<Rightarrow> (nat \<times> nat) set \<Rightarrow> nat list \<Rightarrow> bool" where
  "node_chain h W ns \<longleftrightarrow> distinct ns \<and>
     (\<forall>i < length ns. \<exists>n. h (ns ! i) = Some n \<and>
        ln_next n = (if Suc i < length ns \<and> (ns ! i, ns ! Suc i) \<notin> W then Some (ns ! Suc i) else None)) \<and>
     (\<forall>(a, b) \<in> W. \<exists>i. Suc i < length ns \<and> a = ns ! i \<and> b = ns ! Suc i)"

definition chain_items :: "(nat \<Rightarrow> 'a linked_node option) \<Rightarrow> nat list \<Rightarrow> 'a list" where
  "chain_items h ns = map (\<lambda>a. ln_value (the (h a))) (tl ns)"

lemma chain_in_heap: "node_chain h W ns \<Longrightarrow> a \<in> set ns \<Longrightarrow> h a \<noteq> None"
  by (auto simp: node_chain_def in_set_conv_nth)

lemma chain_at: "node_chain h W ns \<Longrightarrow> i < length ns \<Longrightarrow> \<exists>n. h (ns ! i) = Some n \<and>
    ln_next n = (if Suc i < length ns \<and> (ns ! i, ns ! Suc i) \<notin> W then Some (ns ! Suc i) else None)"
  by (simp add: node_chain_def)

lemma chain_cong: "node_chain h W ns \<Longrightarrow> (\<And>a. a \<in> set ns \<Longrightarrow> h' a = h a) \<Longrightarrow> node_chain h' W ns \<and> chain_items h' ns = chain_items h ns"
proof
  assume c: "node_chain h W ns" and e: "\<And>a. a \<in> set ns \<Longrightarrow> h' a = h a"
  have "h' (ns ! i) = h (ns ! i)" if "i < length ns" for i using e that by simp
  then show "node_chain h' W ns" using c unfolding node_chain_def by simp
  have "h' a = h a" if "a \<in> set (tl ns)" for a using e that by (cases ns) simp_all
  then show "chain_items h' ns = chain_items h ns" unfolding chain_items_def by (intro map_cong) simp_all
qed

lemma chain_outside:
  assumes "node_chain h W ns" "a \<notin> set ns"
  shows "node_chain (h(a := n)) W ns" "chain_items (h(a := n)) ns = chain_items h ns"
proof -
  have "(h(a := n)) b = h b" if "b \<in> set ns" for b using that assms(2) by auto
  then show "node_chain (h(a := n)) W ns" "chain_items (h(a := n)) ns = chain_items h ns" using chain_cong [OF assms(1)] by blast+
qed

lemma chain_snoc:
  assumes c: "node_chain h W ns" and ns: "ns \<noteq> []" and a: "a \<notin> set ns" "h a = Some n" "ln_next n = None"
  shows "node_chain h (insert (last ns, a) W) (ns @ [a])" "chain_items h (ns @ [a]) = chain_items h ns @ [ln_value n]"
proof -
  show "chain_items h (ns @ [a]) = chain_items h ns @ [ln_value n]" using ns a(2) by (simp add: chain_items_def)
  have la: "last ns = ns ! (length ns - 1)" using ns by (rule last_conv_nth)
  have "\<exists>m. h ((ns @ [a]) ! i) = Some m \<and>
      ln_next m = (if Suc i < length (ns @ [a]) \<and> ((ns @ [a]) ! i, (ns @ [a]) ! Suc i) \<notin> insert (last ns, a) W then Some ((ns @ [a]) ! Suc i) else None)"
    if i: "i < length (ns @ [a])" for i
  proof -
    consider "i = length ns" | "Suc i = length ns" | "Suc i < length ns" using i by fastforce
    then show ?thesis
    proof cases
      case 1
      then show ?thesis using a by simp
    next
      case 2
      then have "i = length ns - 1" "i < length ns" by auto
      then have "ns ! i = last ns" "i < length ns" using la by simp_all
      then show ?thesis using chain_at [OF c, of i] 2 by (auto simp: nth_append)
    next
      case 3
      then have "ns ! Suc i \<noteq> a" using a(1) by auto
      then show ?thesis using chain_at [OF c, of i] 3 by (auto simp: nth_append)
    qed
  qed
  moreover have "\<exists>i. Suc i < length (ns @ [a]) \<and> x = (ns @ [a]) ! i \<and> y = (ns @ [a]) ! Suc i" if xy: "(x, y) \<in> insert (last ns, a) W" for x y
  proof (cases "(x, y) = (last ns, a)")
    case True
    then show ?thesis using ns la by (intro exI [of _ "length ns - 1"]) (auto simp: nth_append)
  next
    case False
    then obtain i where "Suc i < length ns" "x = ns ! i" "y = ns ! Suc i" using xy c unfolding node_chain_def by auto
    then show ?thesis by (intro exI [of _ i]) (simp add: nth_append)
  qed
  ultimately show "node_chain h (insert (last ns, a) W) (ns @ [a])" using c a(1) unfolding node_chain_def by auto
qed

lemma chain_link:
  assumes c: "node_chain h W ns" and w: "(p, a) \<in> W" "h p = Some n"
  shows "node_chain (h(p \<mapsto> n\<lparr> ln_next := Some a \<rparr>)) (W - {(p, a)}) ns" "chain_items (h(p \<mapsto> n\<lparr> ln_next := Some a \<rparr>)) ns = chain_items h ns"
proof -
  let ?h = "h(p \<mapsto> n\<lparr> ln_next := Some a \<rparr>)"
  show "chain_items ?h ns = chain_items h ns" using w(2) by (simp add: chain_items_def)
  obtain j where j: "Suc j < length ns" "p = ns ! j" "a = ns ! Suc j" using c w(1) unfolding node_chain_def by auto
  have d: "distinct ns" using c by (simp add: node_chain_def)
  have "\<exists>m. ?h (ns ! i) = Some m \<and> ln_next m = (if Suc i < length ns \<and> (ns ! i, ns ! Suc i) \<notin> W - {(p, a)} then Some (ns ! Suc i) else None)"
    if i: "i < length ns" for i
  proof (cases "i = j")
    case True
    then show ?thesis using j by simp
  next
    case False
    then have "ns ! i \<noteq> p" using d i j by (simp add: nth_eq_iff_index_eq)
    then show ?thesis using chain_at [OF c i] by auto
  qed
  then show "node_chain ?h (W - {(p, a)}) ns" using c unfolding node_chain_def by auto
qed

lemma chain_drop:
  assumes c: "node_chain h W (t # ns)" and ns: "ns \<noteq> []" and w: "(t, hd ns) \<notin> W"
  shows "node_chain h W ns" "chain_items h (t # ns) = ln_value (the (h (hd ns))) # chain_items h ns"
proof -
  show "chain_items h (t # ns) = ln_value (the (h (hd ns))) # chain_items h ns" using ns by (cases ns) (simp_all add: chain_items_def)
  have "\<exists>i. Suc i < length ns \<and> x = ns ! i \<and> y = ns ! Suc i" if xy: "(x, y) \<in> W" for x y
  proof -
    obtain i where i: "Suc i < length (t # ns)" "x = (t # ns) ! i" "y = (t # ns) ! Suc i" using xy c unfolding node_chain_def by auto
    then have "i \<noteq> 0" using w xy ns by (cases i) (auto simp: hd_conv_nth)
    then show ?thesis using i by (intro exI [of _ "i - 1"]) auto
  qed
  moreover have "\<exists>n. h (ns ! i) = Some n \<and> ln_next n = (if Suc i < length ns \<and> (ns ! i, ns ! Suc i) \<notin> W then Some (ns ! Suc i) else None)"
    if "i < length ns" for i
    using chain_at [OF c, of "Suc i", unfolded nth_Cons_Suc length_Cons Suc_less_eq, OF that] .
  ultimately show "node_chain h W ns" using c unfolding node_chain_def by auto
qed

subsection \<open>What the producers hold\<close>

fun private_node :: "'a linked_enqueue option \<Rightarrow> nat option" where
  "private_node (Some (LFill x a)) = Some a"
| "private_node (Some (LExchange x a)) = Some a"
| "private_node _ = None"

fun missing_link :: "'a linked_enqueue option \<Rightarrow> (nat \<times> nat) option" where
  "missing_link (Some (LLink a p)) = Some (p, a)"
| "missing_link _ = None"

definition owned :: "('p \<Rightarrow> 'b option) \<Rightarrow> (nat \<Rightarrow> 'p) \<Rightarrow> 'b set" where
  "owned f P = {x. \<exists>i. f (P i) = Some x}"

definition sole :: "('p \<Rightarrow> 'b option) \<Rightarrow> (nat \<Rightarrow> 'p) \<Rightarrow> bool" where
  "sole f P \<longleftrightarrow> (\<forall>i j x. f (P i) = Some x \<longrightarrow> f (P j) = Some x \<longrightarrow> i = j)"

lemma owned_iff: "x \<in> owned f (P(i := p)) \<longleftrightarrow> f p = Some x \<or> (\<exists>j. j \<noteq> i \<and> f (P j) = Some x)"
  unfolding owned_def mem_Collect_eq by (metis fun_upd_other fun_upd_same)

lemma sole_iff: "sole f (P(i := p)) \<longleftrightarrow> (\<forall>j k x. j \<noteq> i \<longrightarrow> k \<noteq> i \<longrightarrow> f (P j) = Some x \<longrightarrow> f (P k) = Some x \<longrightarrow> j = k) \<and>
    (\<forall>j x. j \<noteq> i \<longrightarrow> f p = Some x \<longrightarrow> f (P j) \<noteq> Some x)"
  unfolding sole_def by (metis fun_upd_other fun_upd_same)

lemma owned_same:
  assumes "f p = f (P i)"
  shows "owned f (P(i := p)) = owned f P" "sole f (P(i := p)) = sole f P"
proof -
  have eq: "f ((P(i := p)) j) = f (P j)" for j using assms by simp
  show "owned f (P(i := p)) = owned f P" unfolding owned_def eq ..
  show "sole f (P(i := p)) = sole f P" unfolding sole_def eq ..
qed

lemma owned_gain:
  assumes "f (P i) = None" "f p = Some x" "x \<notin> owned f P" "sole f P"
  shows "owned f (P(i := p)) = insert x (owned f P)" "sole f (P(i := p))"
proof -
  have "y \<in> owned f (P(i := p)) \<longleftrightarrow> y \<in> insert x (owned f P)" for y
    unfolding owned_iff using assms(1,2) by (auto simp: owned_def) (metis option.distinct(1))
  then show "owned f (P(i := p)) = insert x (owned f P)" by blast
  show "sole f (P(i := p))" unfolding sole_iff using assms by (auto simp: owned_def sole_def)
qed

lemma owned_lose:
  assumes "f (P i) = Some x" "f p = None" "sole f P"
  shows "owned f (P(i := p)) = owned f P - {x}" "sole f (P(i := p))"
proof -
  have "y \<in> owned f (P(i := p)) \<longleftrightarrow> y \<in> owned f P - {x}" for y
    unfolding owned_iff using assms by (auto simp: owned_def sole_def) (metis option.inject)
  then show "owned f (P(i := p)) = owned f P - {x}" by blast
  show "sole f (P(i := p))" unfolding sole_iff using assms by (auto simp: sole_def)
qed

lemma owned_member: "f (P i) = Some x \<Longrightarrow> x \<in> owned f P"
  by (auto simp: owned_def)

subsection \<open>The invariant\<close>

fun garbage :: "'a linked_dequeue option \<Rightarrow> nat set" where
  "garbage (Some (LDelete t x)) = {t}"
| "garbage _ = {}"

fun in_flight :: "'a linked_dequeue option \<Rightarrow> 'a list" where
  "in_flight (Some (LDelete t x)) = [x]"
| "in_flight _ = []"

fun reader_ok :: "(nat \<Rightarrow> 'a linked_node option) \<Rightarrow> (nat \<times> nat) set \<Rightarrow> nat list \<Rightarrow> 'a linked_dequeue option \<Rightarrow> bool" where
  "reader_ok h W ns (Some (LLoadNext t)) \<longleftrightarrow> t = hd ns"
| "reader_ok h W ns (Some (LReadValue t n)) \<longleftrightarrow> (\<exists>r. ns = t # n # r) \<and> (t, n) \<notin> W"
| "reader_ok h W ns (Some (LStoreTail t n x)) \<longleftrightarrow> (\<exists>r. ns = t # n # r) \<and> (t, n) \<notin> W \<and> ln_value (the (h n)) = x"
| "reader_ok h W ns _ \<longleftrightarrow> True"

definition lq_good :: "'a linked_queue \<Rightarrow> (nat \<Rightarrow> 'a linked_enqueue option) \<Rightarrow> 'a linked_dequeue option \<Rightarrow> 'a list \<Rightarrow> nat list \<Rightarrow> bool" where
  "lq_good q P c xs ns \<longleftrightarrow> node_chain (lq_heap q) (owned missing_link P) ns \<and> ns \<noteq> [] \<and> hd ns = lq_tail q \<and> last ns = lq_head q \<and>
     sole missing_link P \<and> sole private_node P \<and> owned private_node P \<inter> set ns = {} \<and>
     (\<forall>i x a. P i = Some (LExchange x a) \<longrightarrow> lq_heap q a = Some \<lparr> ln_next = None, ln_value = x \<rparr>) \<and>
     dom (lq_heap q) = set ns \<union> owned private_node P \<union> garbage c \<and> garbage c \<inter> (set ns \<union> owned private_node P) = {} \<and>
     reader_ok (lq_heap q) (owned missing_link P) ns c \<and> xs = in_flight c @ chain_items (lq_heap q) ns"

lemma good_chain: "lq_good q P c xs ns \<Longrightarrow> node_chain (lq_heap q) (owned missing_link P) ns"
  by (simp add: lq_good_def)

lemma reader_mono:
  assumes "reader_ok h W ns c" "\<And>n. n \<in> set ns \<Longrightarrow> map_option ln_value (h' n) = map_option ln_value (h n)" "W' \<inter> set (zip ns (tl ns)) \<subseteq> W" "ns \<noteq> []" "\<forall>n \<in> set ns. h n \<noteq> None"
  shows "reader_ok h' W' (ns @ as) c"
proof -
  have v: "ln_value (the (h' n)) = ln_value (the (h n))" if "n \<in> set ns" for n using assms(2) [OF that] assms(5) that by (cases "h n"; cases "h' n") auto
  show ?thesis
  proof (cases "(h, W, ns, c)" rule: reader_ok.cases)
    case (1 h W ns t)
    then show ?thesis using assms by auto
  next
    case (2 h W ns t n)
    then show ?thesis using assms(1,3) by auto
  next
    case (3 h W ns t n x)
    then show ?thesis using assms(1,3) v by auto
  qed auto
qed

lemma fresh_node:
  assumes g: "lq_good q P c xs ns" and p: "P i = Some (LNew x)" and a: "lq_heap q a = None"
  shows "lq_good (q\<lparr> lq_heap := (lq_heap q)(a \<mapsto> n) \<rparr>) (P(i := Some (LFill x a))) c xs ns"
proof -
  have d: "dom (lq_heap q) = set ns \<union> owned private_node P \<union> garbage c" using g by (simp add: lq_good_def)
  have "a \<notin> dom (lq_heap q)" using a by (simp add: domIff)
  then have n: "a \<notin> set ns" "a \<notin> owned private_node P" "a \<notin> garbage c" using d by blast+
  let ?P = "P(i := Some (LFill x a))" and ?h = "(lq_heap q)(a \<mapsto> n)"
  have G: "owned private_node ?P = insert a (owned private_node P)" "sole private_node ?P"
    using owned_gain [of private_node P i "Some (LFill x a)" a] p n g by (simp_all add: lq_good_def)
  have L: "owned missing_link ?P = owned missing_link P" "sole missing_link ?P = sole missing_link P"
    using owned_same [of missing_link "Some (LFill x a)" P i] p by simp_all
  have C: "node_chain ?h (owned missing_link P) ns" "chain_items ?h ns = chain_items (lq_heap q) ns"
    by (rule chain_outside [OF good_chain [OF g] n(1)])+
  have R: "reader_ok ?h (owned missing_link P) (ns @ []) c"
    by (rule reader_mono [of "lq_heap q" "owned missing_link P"]) (use g n chain_in_heap in \<open>auto simp: lq_good_def\<close>)
  have E: "?h b = Some \<lparr> ln_next = None, ln_value = y \<rparr>" if "?P j = Some (LExchange y b)" for j y b
  proof -
    have j: "P j = Some (LExchange y b)" using that by (auto split: if_splits)
    then have "b \<in> owned private_node P" by (intro owned_member [of _ _ j]) simp
    then show ?thesis using j g n by (auto simp: lq_good_def)
  qed
  show ?thesis using g C R E G L d n unfolding lq_good_def by auto
qed

lemma fill_node:
  assumes g: "lq_good q P c xs ns" and p: "P i = Some (LFill x a)"
  shows "\<exists>n. lq_heap q a = Some n \<and> lq_good (q\<lparr> lq_heap := (lq_heap q)(a \<mapsto> n\<lparr> ln_value := x, ln_next := None \<rparr>) \<rparr>) (P(i := Some (LExchange x a))) c xs ns"
proof -
  have o: "a \<in> owned private_node P" by (rule owned_member [of _ _ i]) (simp add: p)
  then have n: "a \<notin> set ns" "a \<notin> garbage c" "a \<in> dom (lq_heap q)" using g unfolding lq_good_def by blast+
  then obtain n where nd: "lq_heap q a = Some n" by blast
  let ?P = "P(i := Some (LExchange x a))" and ?h = "(lq_heap q)(a \<mapsto> n\<lparr> ln_value := x, ln_next := None \<rparr>)"
  have G: "owned private_node ?P = owned private_node P" "sole private_node ?P = sole private_node P"
    "owned missing_link ?P = owned missing_link P" "sole missing_link ?P = sole missing_link P"
    using owned_same [of private_node "Some (LExchange x a)" P i] owned_same [of missing_link "Some (LExchange x a)" P i] p by simp_all
  have C: "node_chain ?h (owned missing_link P) ns" "chain_items ?h ns = chain_items (lq_heap q) ns"
    by (rule chain_outside [OF good_chain [OF g] n(1)])+
  have R: "reader_ok ?h (owned missing_link P) (ns @ []) c"
    by (rule reader_mono [of "lq_heap q" "owned missing_link P"]) (use g n chain_in_heap in \<open>auto simp: lq_good_def\<close>)
  have E: "?h b = Some \<lparr> ln_next = None, ln_value = y \<rparr>" if j: "?P j = Some (LExchange y b)" for j y b
  proof (cases "j = i")
    case True
    then show ?thesis using j by simp
  next
    case False
    then have j': "P j = Some (LExchange y b)" using j by simp
    have "b \<noteq> a"
    proof
      assume "b = a"
      then have "private_node (P j) = private_node (P i)" "private_node (P i) = Some a" using j' p by simp_all
      then show False using g False unfolding lq_good_def sole_def by metis
    qed
    then show ?thesis using j' g by (simp add: lq_good_def)
  qed
  have "dom ?h = dom (lq_heap q)" using nd by auto
  then show ?thesis using g C R E G nd unfolding lq_good_def by auto
qed

lemma exchange_node:
  assumes g: "lq_good q P c xs ns" and p: "P i = Some (LExchange x a)"
  shows "lq_good (q\<lparr> lq_head := a \<rparr>) (P(i := Some (LLink a (lq_head q)))) c (xs @ [x]) (ns @ [a])"
proof -
  have o: "a \<in> owned private_node P" by (rule owned_member [of _ _ i]) (simp add: p)
  then have n: "a \<notin> set ns" "a \<notin> garbage c" using g unfolding lq_good_def by blast+
  have nd: "lq_heap q a = Some \<lparr> ln_next = None, ln_value = x \<rparr>" using g p unfolding lq_good_def by blast
  let ?P = "P(i := Some (LLink a (lq_head q)))" and ?W = "owned missing_link P"
  have ch: "node_chain (lq_heap q) ?W ns" "ns \<noteq> []" "last ns = lq_head q" using g by (simp_all add: lq_good_def)
  have w: "b \<in> set ns" if "(e, b) \<in> ?W" for e b using that ch(1) unfolding node_chain_def by fastforce
  have G: "owned private_node ?P = owned private_node P - {a}" "sole private_node ?P"
    using owned_lose [of private_node P i a "Some (LLink a (lq_head q))"] p g by (simp_all add: lq_good_def)
  have L: "owned missing_link ?P = insert (lq_head q, a) ?W" "sole missing_link ?P"
    using owned_gain [of missing_link P i "Some (LLink a (lq_head q))" "(lq_head q, a)"] p g n(1) w by (auto simp: lq_good_def)
  note C = chain_snoc [OF ch(1,2) n(1) nd]
  have R: "reader_ok (lq_heap q) (insert (lq_head q, a) ?W) (ns @ [a]) c"
  proof (rule reader_mono [of "lq_heap q" ?W])
    show "insert (lq_head q, a) ?W \<inter> set (zip ns (tl ns)) \<subseteq> ?W"
      using n(1) by (auto dest!: set_zip_rightD) (meson list.set_sel(2) ch(2))
  qed (use g chain_in_heap in \<open>auto simp: lq_good_def\<close>)
  have E: "lq_heap q b = Some \<lparr> ln_next = None, ln_value = y \<rparr>" if "?P j = Some (LExchange y b)" for j y b
    using that g by (auto simp: lq_good_def split: if_splits)
  show ?thesis using g C R E G L o n ch(3) unfolding lq_good_def by auto
qed

lemma link_node:
  assumes g: "lq_good q P c xs ns" and p: "P i = Some (LLink a e)"
  shows "\<exists>n. lq_heap q e = Some n \<and> lq_good (q\<lparr> lq_heap := (lq_heap q)(e \<mapsto> n\<lparr> ln_next := Some a \<rparr>) \<rparr>) (P(i := None)) c xs ns"
proof -
  let ?W = "owned missing_link P" and ?P = "P(i := None)"
  have w: "(e, a) \<in> ?W" by (rule owned_member [of _ _ i]) (simp add: p)
  have ch: "node_chain (lq_heap q) ?W ns" using g by (simp add: lq_good_def)
  then obtain j where j: "Suc j < length ns" "e = ns ! j" using w unfolding node_chain_def by fastforce
  then have en: "e \<in> set ns" by simp
  then obtain n where nd: "lq_heap q e = Some n" using chain_in_heap [OF ch] by blast
  let ?h = "(lq_heap q)(e \<mapsto> n\<lparr> ln_next := Some a \<rparr>)"
  have G: "owned private_node ?P = owned private_node P" "sole private_node ?P = sole private_node P"
    using owned_same [of private_node None P i] p by simp_all
  have L: "owned missing_link ?P = ?W - {(e, a)}" "sole missing_link ?P"
    using owned_lose [of missing_link P i "(e, a)" None] p g by (simp_all add: lq_good_def)
  note C = chain_link [OF ch w nd]
  have R: "reader_ok ?h (?W - {(e, a)}) (ns @ []) c"
    by (rule reader_mono [of "lq_heap q" ?W]) (use g nd chain_in_heap in \<open>auto simp: lq_good_def\<close>)
  have E: "?h b = Some \<lparr> ln_next = None, ln_value = y \<rparr>" if "?P k = Some (LExchange y b)" for k y b
  proof -
    have k: "P k = Some (LExchange y b)" using that by (auto split: if_splits)
    then have "b \<in> owned private_node P" by (intro owned_member [of _ _ k]) simp
    then have "b \<noteq> e" using g en unfolding lq_good_def by blast
    then show ?thesis using k g by (simp add: lq_good_def)
  qed
  have "dom ?h = dom (lq_heap q)" using nd by auto
  then show ?thesis using g C R E G L nd unfolding lq_good_def by auto
qed

lemma enqueue_good:
  assumes g: "lq_good q P c xs ns" and p: "P i = Some p" and a: "\<forall>a. fresh = Some a \<longrightarrow> lq_heap q a = None"
  shows "\<exists>q' r ns'. LQ_Enqueue_step fresh blank q p = Some (q', r) \<and>
    lq_good q' (P(i := (case r of Inl p' \<Rightarrow> Some p' | Inr b \<Rightarrow> None))) c (xs @ exchanged p) ns'"
proof (cases p)
  case (LNew x)
  show ?thesis
  proof (cases fresh)
    case None
    have "owned private_node (P(i := None)) = owned private_node P" "sole private_node (P(i := None)) = sole private_node P"
      "owned missing_link (P(i := None)) = owned missing_link P" "sole missing_link (P(i := None)) = sole missing_link P"
      using owned_same [of private_node None P i] owned_same [of missing_link None P i] p LNew by simp_all
    moreover have "P j = Some (LExchange y b)" if "(P(i := None)) j = Some (LExchange y b)" for j y b using that by (auto split: if_splits)
    ultimately have "lq_good q (P(i := None)) c xs ns" using g unfolding lq_good_def by simp
    then show ?thesis using LNew None by auto
  next
    case (Some b)
    then show ?thesis using fresh_node [OF g, of i x b] p a LNew by auto
  qed
next
  case (LFill x b)
  then show ?thesis using fill_node [OF g, of i x b] p by auto
next
  case (LExchange x b)
  then show ?thesis using exchange_node [OF g, of i x b] p by auto
next
  case (LLink b e)
  then show ?thesis using link_node [OF g, of i b e] p by auto
qed

lemma dequeue_good:
  assumes g: "lq_good q P (Some c) xs ns"
  shows "\<exists>q' r ns'. LQ_Dequeue_step q c = Some (q', r) \<and>
    (case r of
       Inl c' \<Rightarrow> lq_good q' P (Some c') xs ns'
     | Inr None \<Rightarrow> q' = q \<and> lq_good q P None xs ns \<and> (xs = [] \<or> (\<exists>a. (lq_tail q, a) \<in> owned missing_link P))
     | Inr (Some x) \<Rightarrow> \<exists>ys. xs = x # ys \<and> lq_good q' P None ys ns')"
proof -
  note ch = good_chain [OF g]
  let ?W = "owned missing_link P"
  have hd: "ns \<noteq> []" "hd ns = lq_tail q" "last ns = lq_head q" using g by (simp_all add: lq_good_def)
  show ?thesis
  proof (cases c)
    case LLoadTail
    then have "lq_good q P (Some (LLoadNext (lq_tail q))) xs ns" using g by (simp add: lq_good_def)
    then show ?thesis using LLoadTail by auto
  next
    case (LLoadNext t)
    then have t: "t = ns ! 0" using g hd(1) by (simp add: lq_good_def hd_conv_nth)
    obtain n where n: "lq_heap q t = Some n" "ln_next n = (if Suc 0 < length ns \<and> (ns ! 0, ns ! Suc 0) \<notin> ?W then Some (ns ! Suc 0) else None)"
      using chain_at [OF ch, of 0] hd(1) t by auto
    show ?thesis
    proof (cases "Suc 0 < length ns \<and> (ns ! 0, ns ! Suc 0) \<notin> ?W")
      case True
      then obtain m r where r: "ns = t # m # r" using t by (cases ns; cases "tl ns") auto
      then have w: "(t, m) \<notin> ?W" "ln_next n = Some m" using True n(2) by simp_all
      then have "lq_good q P (Some (LReadValue t m)) xs ns" using g LLoadNext r by (auto simp: lq_good_def)
      then show ?thesis using LLoadNext n(1) w(2) by auto
    next
      case False
      have "lq_good q P None xs ns" using g LLoadNext by (simp add: lq_good_def)
      moreover have "xs = [] \<or> (\<exists>a. (lq_tail q, a) \<in> ?W)"
      proof (cases "Suc 0 < length ns")
        case True
        then show ?thesis using False hd t by (auto simp: hd_conv_nth)
      next
        case one: False
        then have "tl ns = []" using hd(1) by (cases ns) auto
        then show ?thesis using g LLoadNext by (simp add: lq_good_def chain_items_def)
      qed
      ultimately show ?thesis using LLoadNext n False by auto
    qed
  next
    case (LReadValue t m)
    then obtain r where r: "ns = t # m # r" "(t, m) \<notin> ?W" using g by (auto simp: lq_good_def)
    then obtain n where "lq_heap q m = Some n" using chain_in_heap [OF ch, of m] by auto
    moreover have "lq_good q P (Some (LStoreTail t m (ln_value n))) xs ns" using g r LReadValue calculation by (auto simp: lq_good_def)
    ultimately show ?thesis using LReadValue by auto
  next
    case (LStoreTail t m x)
    then obtain r where r: "ns = t # m # r" "(t, m) \<notin> ?W" "ln_value (the (lq_heap q m)) = x" using g by (auto simp: lq_good_def)
    have D: "node_chain (lq_heap q) ?W (m # r)" "chain_items (lq_heap q) ns = x # chain_items (lq_heap q) (m # r)"
      using chain_drop [of "lq_heap q" ?W t "m # r"] ch r by simp_all
    have "distinct ns" using ch by (simp add: node_chain_def)
    then have "lq_good (q\<lparr> lq_tail := m \<rparr>) P (Some (LDelete t x)) xs (m # r)"
      using g D hd(3) r(1) LStoreTail unfolding lq_good_def by auto
    then show ?thesis using LStoreTail by auto
  next
    case (LDelete t x)
    then have t: "t \<in> dom (lq_heap q)" "t \<notin> set ns" "t \<notin> owned private_node P" using g by (auto simp: lq_good_def)
    let ?q = "q\<lparr> lq_heap := (lq_heap q)(t := None) \<rparr>"
    note C = chain_outside [OF ch t(2), of None]
    have "(lq_heap ?q) b = Some \<lparr> ln_next = None, ln_value = y \<rparr>" if j: "P j = Some (LExchange y b)" for j y b
    proof -
      have "b \<in> owned private_node P" by (rule owned_member [of _ _ j]) (simp add: j)
      then show ?thesis using g j t(3) unfolding lq_good_def by auto
    qed
    then have "lq_good ?q P None (chain_items (lq_heap q) ns) ns" using g C t LDelete unfolding lq_good_def by auto
    moreover have "xs = x # chain_items (lq_heap q) ns" using g LDelete by (simp add: lq_good_def)
    ultimately show ?thesis using LDelete t(1) by auto
  qed
qed

definition linked_inv :: "'a linked_system \<Rightarrow> bool" where
  "linked_inv s \<longleftrightarrow> (\<exists>xs ns. ls_enqueued s = ls_dequeued s @ xs \<and> lq_good (ls_queue s) (ls_producers s) (ls_consumer s) xs ns)"

lemma linked_inv_step: "linked_step blank s s' \<Longrightarrow> linked_inv s \<Longrightarrow> linked_inv s'"
proof (induction rule: linked_step.induct)
  case (call_LQ_Enqueue s i x)
  let ?P = "(ls_producers s)(i := Some (LNew x))"
  have "owned private_node ?P = owned private_node (ls_producers s)" "sole private_node ?P = sole private_node (ls_producers s)"
    "owned missing_link ?P = owned missing_link (ls_producers s)" "sole missing_link ?P = sole missing_link (ls_producers s)"
    using owned_same [of private_node "Some (LNew x)" "ls_producers s" i] owned_same [of missing_link "Some (LNew x)" "ls_producers s" i]
      call_LQ_Enqueue by simp_all
  moreover have "ls_producers s j = Some (LExchange y b)" if "?P j = Some (LExchange y b)" for j y b using that by (auto split: if_splits)
  ultimately have "lq_good (ls_queue s) ?P c xs ns" if "lq_good (ls_queue s) (ls_producers s) c xs ns" for c xs ns using that unfolding lq_good_def by simp
  then show ?case using call_LQ_Enqueue.prems by (simp add: linked_inv_def) blast
next
  case (run_LQ_Enqueue s i p fresh q p')
  then obtain xs ns where x: "ls_enqueued s = ls_dequeued s @ xs" "lq_good (ls_queue s) (ls_producers s) (ls_consumer s) xs ns" by (auto simp: linked_inv_def)
  then show ?case using enqueue_good [OF x(2) run_LQ_Enqueue.hyps(1,2), of blank] run_LQ_Enqueue.hyps(3) by (auto simp: linked_inv_def)
next
  case (return_LQ_Enqueue s i p fresh q b)
  then obtain xs ns where x: "ls_enqueued s = ls_dequeued s @ xs" "lq_good (ls_queue s) (ls_producers s) (ls_consumer s) xs ns" by (auto simp: linked_inv_def)
  have "LQ_Enqueue_step None blank (ls_queue s) p = Some (q, Inr b) \<and> exchanged p = []"
    using return_LQ_Enqueue.hyps(2) by (cases p) (auto split: option.splits)
  then show ?case using enqueue_good [OF x(2) return_LQ_Enqueue.hyps(1), of None blank] x(1) by (auto simp: linked_inv_def)
next
  case (call_LQ_Dequeue s)
  have "lq_good q P (Some LLoadTail) xs ns" if "lq_good q P None xs ns" for q P xs ns using that by (simp add: lq_good_def)
  then show ?case using call_LQ_Dequeue by (simp add: linked_inv_def) blast
next
  case (run_LQ_Dequeue s c q c')
  then obtain xs ns where x: "ls_enqueued s = ls_dequeued s @ xs" "lq_good (ls_queue s) (ls_producers s) (Some c) xs ns" by (auto simp: linked_inv_def)
  then show ?case using dequeue_good [OF x(2)] run_LQ_Dequeue.hyps(2) by (auto simp: linked_inv_def)
next
  case (return_LQ_Dequeue s c q r)
  then obtain xs ns where x: "ls_enqueued s = ls_dequeued s @ xs" "lq_good (ls_queue s) (ls_producers s) (Some c) xs ns" by (auto simp: linked_inv_def)
  then show ?case using dequeue_good [OF x(2)] return_LQ_Dequeue.hyps(2) by (cases r) (auto simp: linked_inv_def)
qed

interpretation linked_queue: step_invariant "linked_start a blank" "linked_step blank" linked_inv
proof
  show "linked_start a blank s \<Longrightarrow> linked_inv s" for s
    by (auto simp: linked_start_def linked_inv_def lq_good_def MPSCLinkedQueue_def node_chain_def owned_def sole_def chain_items_def
        intro!: exI [of _ "[a]"])
qed (rule linked_inv_step)

lemma linked_drain_ok:
  "lq_good q P None xs ns \<Longrightarrow> owned missing_link P = {} \<Longrightarrow> \<exists>q'. LQ_drain q = Some q' \<and> lq_good q' P None [] [lq_head q']"
proof (induction ns arbitrary: q xs)
  case Nil
  then show ?case by (simp add: lq_good_def)
next
  case (Cons t ns)
  note ch = good_chain [OF Cons.prems(1)]
  have tl: "lq_tail q = t" "lq_head q = last (t # ns)" using Cons.prems(1) by (auto simp: lq_good_def)
  obtain n where n: "lq_heap q t = Some n" "ln_next n = (if ns = [] then None else Some (hd ns))"
    using chain_at [OF ch, of 0] Cons.prems(2) by (cases ns) auto
  show ?case
  proof (cases ns)
    case Nil
    then have "LQ_drain q = Some q" using n tl by (simp add: LQ_drain.simps [of q] LQ_Dequeue_def)
    moreover have "xs = []" using Cons.prems(1) Nil by (simp add: lq_good_def chain_items_def)
    ultimately show ?thesis using Cons.prems(1) Nil tl by auto
  next
    case (Cons m r)
    let ?q = "q\<lparr> lq_tail := m, lq_heap := (lq_heap q)(t := None) \<rparr>"
    obtain k where k: "lq_heap q m = Some k" using chain_in_heap [OF ch, of m] Cons by auto
    have d: "t \<notin> set ns" "distinct ns" using ch by (auto simp: node_chain_def)
    have c: "node_chain (lq_heap q) (owned missing_link P) ns" using chain_drop(1) [OF ch] Cons Cons.prems(2) by simp
    note C = chain_outside [OF c d(1), of None]
    have pt: "t \<notin> owned private_node P" using Cons.prems(1) unfolding lq_good_def by auto
    have "(lq_heap ?q) b = Some \<lparr> ln_next = None, ln_value = y \<rparr>" if j: "P j = Some (LExchange y b)" for j y b
    proof -
      have "b \<in> owned private_node P" by (rule owned_member [of _ _ j]) (simp add: j)
      then show ?thesis using Cons.prems(1) j pt unfolding lq_good_def by auto
    qed
    then have "lq_good ?q P None (chain_items (lq_heap q) ns) ns" using Cons.prems(1) C Cons tl d pt unfolding lq_good_def by auto
    moreover have "LQ_drain q = LQ_drain ?q" using n k tl Cons by (subst LQ_drain.simps) (simp add: LQ_Dequeue_def)
    ultimately show ?thesis using Cons.IH Cons.prems(2) by simp
  qed
qed

lemma destroy_ok:
  fixes q :: "'a linked_queue"
  assumes g: "lq_good q (\<lambda>_. None) None xs ns"
  shows "MPSCLinkedQueue_destroy q = Some (\<lambda>_. None)"
proof -
  have o: "owned missing_link (\<lambda>_ :: nat. None :: 'a linked_enqueue option) = {}" "owned private_node (\<lambda>_ :: nat. None :: 'a linked_enqueue option) = {}" by (simp_all add: owned_def)
  obtain q' where q: "LQ_drain q = Some q'" "lq_good q' (\<lambda>_. None) None [] [lq_head q']" using linked_drain_ok [OF g o(1)] by blast
  have "dom (lq_heap q') = {lq_head q'}" using q(2) o by (simp add: lq_good_def)
  then have "lq_heap q' (lq_head q') \<noteq> None" "(lq_heap q')(lq_head q' := None) = (\<lambda>_. None)" by (auto simp: dom_def fun_eq_iff)
  then show ?thesis using q(1) by (simp add: MPSCLinkedQueue_destroy_def)
qed

subsection \<open>Properties\<close>

text \<open>
  C36. The linked queue under every interleaving of any number of producers and one consumer: no operation follows a
  pointer to a deleted node; the consumer returns the items in the order in which their nodes entered the queue, each
  once; \<^verbatim>\<open>Dequeue\<close> fails only when no item is left or the producer of the next one has not linked its node yet; and
  when all threads are at rest the heap holds one node more than there are items, all of which the destructor deletes.
\<close>

theorem MPSCLinkedQueue_fifo:
  assumes "reach (linked_start a blank) (linked_step blank) s"
  shows "\<exists>xs. ls_enqueued s = ls_dequeued s @ xs \<and>
    (\<forall>i p fresh. ls_producers s i = Some p \<longrightarrow> (\<forall>b. fresh = Some b \<longrightarrow> lq_heap (ls_queue s) b = None) \<longrightarrow>
       LQ_Enqueue_step fresh blank (ls_queue s) p \<noteq> None) \<and>
    (\<forall>c. ls_consumer s = Some c \<longrightarrow> LQ_Dequeue_step (ls_queue s) c \<noteq> None) \<and>
    (\<forall>c q. ls_consumer s = Some c \<longrightarrow> LQ_Dequeue_step (ls_queue s) c = Some (q, Inr None) \<longrightarrow>
       xs = [] \<or> (\<exists>i b. ls_producers s i = Some (LLink b (lq_tail (ls_queue s))))) \<and>
    (ls_producers s = (\<lambda>_. None) \<and> ls_consumer s = None \<longrightarrow>
       card (dom (lq_heap (ls_queue s))) = Suc (length xs) \<and> MPSCLinkedQueue_destroy (ls_queue s) = Some (\<lambda>_. None))"
proof -
  obtain xs ns where x: "ls_enqueued s = ls_dequeued s @ xs" "lq_good (ls_queue s) (ls_producers s) (ls_consumer s) xs ns"
    using linked_queue.reach_inv [OF assms] by (auto simp: linked_inv_def)
  have fail: "xs = [] \<or> (\<exists>i b. ls_producers s i = Some (LLink b (lq_tail (ls_queue s))))"
    if "ls_consumer s = Some c" "LQ_Dequeue_step (ls_queue s) c = Some (q, Inr None)" for c q
  proof -
    have "xs = [] \<or> (\<exists>b. (lq_tail (ls_queue s), b) \<in> owned missing_link (ls_producers s))"
      using dequeue_good [of "ls_queue s" "ls_producers s" c xs ns] x(2) that by auto
    moreover have "\<exists>c. p = Some (LLink c t)" if "missing_link p = Some (t, b)" for p :: "'a linked_enqueue option" and t b
      using that by (cases p rule: missing_link.cases) auto
    ultimately show ?thesis unfolding owned_def by blast
  qed
  have rest: "card (dom (lq_heap (ls_queue s))) = Suc (length xs)" if "ls_producers s = (\<lambda>_. None)" "ls_consumer s = None"
  proof -
    have "dom (lq_heap (ls_queue s)) = set ns" "distinct ns" "ns \<noteq> []" "length xs = length ns - 1"
      using x(2) that by (auto simp: lq_good_def owned_def node_chain_def chain_items_def)
    then show ?thesis by (simp add: distinct_card)
  qed
  have en: "LQ_Enqueue_step fresh blank (ls_queue s) p \<noteq> None"
    if "ls_producers s i = Some p" "\<forall>b. fresh = Some b \<longrightarrow> lq_heap (ls_queue s) b = None" for i p fresh
    using enqueue_good [OF x(2) that, of blank] by auto
  have de: "LQ_Dequeue_step (ls_queue s) c \<noteq> None" if "ls_consumer s = Some c" for c
    using dequeue_good [of "ls_queue s" "ls_producers s" c xs ns] x(2) that by auto
  have cl: "MPSCLinkedQueue_destroy (ls_queue s) = Some (\<lambda>_. None)" if "ls_producers s = (\<lambda>_. None)" "ls_consumer s = None"
    by (rule destroy_ok) (use x(2) that in simp)
  show ?thesis
  proof (intro exI [of _ xs] conjI allI impI)
    show "ls_enqueued s = ls_dequeued s @ xs" by (rule x(1))
    show "xs = [] \<or> (\<exists>i b. ls_producers s i = Some (LLink b (lq_tail (ls_queue s))))"
      if "ls_consumer s = Some c" "LQ_Dequeue_step (ls_queue s) c = Some (q, Inr None)" for c q by (rule fail [OF that])
  qed (use en de rest cl in simp_all)
qed

theorem MPSCLinkedQueue_fifo_witness:
  "\<exists>s :: nat linked_system. reach (linked_start 8 0) (linked_step 0) s \<and> ls_enqueued s = [5] \<and> ls_dequeued s = [] \<and>
     card (dom (lq_heap (ls_queue s))) = 2 \<and> MPSCLinkedQueue_destroy (ls_queue s) = Some (\<lambda>_. None)"
proof -
  define st :: "nat linked_queue \<Rightarrow> nat linked_enqueue option \<Rightarrow> nat list \<Rightarrow> nat linked_system" where
    "st q p e = \<lparr> ls_queue = q, ls_producers = (\<lambda>_. None)(0 := p), ls_consumer = None, ls_enqueued = e, ls_dequeued = [] \<rparr>" for q p e
  let ?R = "reach (linked_start 8 (0 :: nat)) (linked_step 0)"
  define q where "q = MPSCLinkedQueue 8 (0 :: nat)"
  have call: "?R (st q None e) \<Longrightarrow> ?R (st q (Some (LNew 5)) e)" for q e
    by (erule reach_step) (use call_LQ_Enqueue [of "st q None e" 0 0 5] in \<open>simp add: st_def\<close>)
  have run: "?R (st q (Some p) e) \<Longrightarrow> \<forall>a. fresh = Some a \<longrightarrow> lq_heap q a = None \<Longrightarrow> LQ_Enqueue_step fresh 0 q p = Some (q', Inl p') \<Longrightarrow>
      ?R (st q' (Some p') (e @ exchanged p))" for q p e fresh q' p'
    by (erule reach_step) (use run_LQ_Enqueue [of "st q (Some p) e" 0 p fresh 0 q' p'] in \<open>simp add: st_def\<close>)
  have ret: "?R (st q (Some p) e) \<Longrightarrow> LQ_Enqueue_step fresh 0 q p = Some (q', Inr b) \<Longrightarrow> ?R (st q' None e)" for q p e fresh q' b
    by (erule reach_step) (use return_LQ_Enqueue [of "st q (Some p) e" 0 p fresh 0 q' b] in \<open>simp add: st_def\<close>)
  have "?R (st q None [])" by (rule reach_start) (auto simp: st_def linked_start_def q_def)
  from call [OF this] have "?R (st q (Some (LNew 5)) [])" .
  from run [OF this, where fresh = "Some 16"] have "?R (st (q\<lparr> lq_heap := (lq_heap q)(16 \<mapsto> \<lparr> ln_next = None, ln_value = 0 \<rparr>) \<rparr>) (Some (LFill 5 16)) [])"
    by (simp add: q_def MPSCLinkedQueue_def)
  from run [OF this, where fresh = None] have "?R (st (q\<lparr> lq_heap := (lq_heap q)(16 \<mapsto> \<lparr> ln_next = None, ln_value = 5 \<rparr>) \<rparr>) (Some (LExchange 5 16)) [])"
    by simp
  from run [OF this, where fresh = None]
  have "?R (st (q\<lparr> lq_heap := (lq_heap q)(16 \<mapsto> \<lparr> ln_next = None, ln_value = 5 \<rparr>), lq_head := 16 \<rparr>) (Some (LLink 16 8)) [5])"
    by (simp add: q_def MPSCLinkedQueue_def)
  from ret [OF this, where fresh = None and b = True] obtain q' where r: "?R (st q' None [5])" by (simp add: q_def MPSCLinkedQueue_def)
  from MPSCLinkedQueue_fifo [OF r] show ?thesis using r by (intro exI [of _ "st q' None [5]"]) (simp add: st_def fun_eq_iff)
qed

end
