(* ===== verification/LinkedBatcher.thy ===== *)
theory LinkedBatcher
  imports LinkedQueue
begin

text \<open>
  The linked batcher for many producers and one consumer of \<^verbatim>\<open>include/threads/mpsc_linked_batcher.h\<close> and
  \<^verbatim>\<open>include/threads/mpsc_linked_batcher.inl\<close>: the producers push nodes on a stack with a compare-and-exchange, the
  consumer takes the whole stack, reverses it and hands the items to the handler. The heap is that of the linked
  queue; addresses of deleted nodes may be used again.
\<close>

record 'a linked_batcher =
  lb_head :: "nat option"
  lb_heap :: "nat \<Rightarrow> 'a linked_node option"

definition MPSCLinkedBatcher :: "'a linked_batcher" where
  "MPSCLinkedBatcher = \<lparr> lb_head = None, lb_heap = (\<lambda>_. None) \<rparr>"

subsection \<open>The accesses of the operations\<close>

datatype 'a batch_enqueue = BNew 'a | BFill 'a nat | BLoadHead 'a nat | BStoreNext 'a nat "nat option" | BExchange 'a nat "nat option"

text \<open>
  The first arguments are the result of \<^verbatim>\<open>new Node\<close> and whether a compare-and-exchange of equal node_values succeeds.
\<close>

fun LB_Enqueue_step :: "nat option \<Rightarrow> bool \<Rightarrow> 'a \<Rightarrow> 'a linked_batcher \<Rightarrow> 'a batch_enqueue \<Rightarrow> ('a linked_batcher \<times> ('a batch_enqueue + bool)) option" where
  "LB_Enqueue_step fresh lucky blank q (BNew item) =
     (case fresh of
        None \<Rightarrow> Some (q, Inr False)
      | Some node \<Rightarrow> Some (q\<lparr> lb_heap := (lb_heap q)(node \<mapsto> \<lparr> ln_next = None, ln_value = blank \<rparr>) \<rparr>, Inl (BFill item node)))"
| "LB_Enqueue_step fresh lucky blank q (BFill item node) =
     (case lb_heap q node of
        None \<Rightarrow> None
      | Some n \<Rightarrow> Some (q\<lparr> lb_heap := (lb_heap q)(node \<mapsto> n\<lparr> ln_value := item \<rparr>) \<rparr>, Inl (BLoadHead item node)))"
| "LB_Enqueue_step fresh lucky blank q (BLoadHead item node) = Some (q, Inl (BStoreNext item node (lb_head q)))"
| "LB_Enqueue_step fresh lucky blank q (BStoreNext item node prev_head) =
     (case lb_heap q node of
        None \<Rightarrow> None
      | Some n \<Rightarrow> Some (q\<lparr> lb_heap := (lb_heap q)(node \<mapsto> n\<lparr> ln_next := prev_head \<rparr>) \<rparr>, Inl (BExchange item node prev_head)))"
| "LB_Enqueue_step fresh lucky blank q (BExchange item node prev_head) =
     (if lb_head q = prev_head \<and> lucky then Some (q\<lparr> lb_head := Some node \<rparr>, Inr True)
      else Some (q, Inl (BStoreNext item node (lb_head q))))"

text \<open>
  One step is the exchange of the head or one iteration of a loop of the consumer, whose nodes no other thread
  reaches. The last component of the result lists the items given to the handler.
\<close>

datatype batch_dequeue = BTake | BReverse nat "nat option" | BProcess nat

fun LB_Dequeue_step :: "'a linked_batcher \<Rightarrow> batch_dequeue \<Rightarrow> ('a linked_batcher \<times> (batch_dequeue + bool) \<times> 'a list) option" where
  "LB_Dequeue_step q BTake =
     (case lb_head q of
        None \<Rightarrow> Some (q\<lparr> lb_head := None \<rparr>, Inr False, [])
      | Some n \<Rightarrow> Some (q\<lparr> lb_head := None \<rparr>, Inl (BReverse n None), []))"
| "LB_Dequeue_step q (BReverse temp first) =
     (case lb_heap q temp of
        None \<Rightarrow> None
      | Some n \<Rightarrow>
          Some (q\<lparr> lb_heap := (lb_heap q)(temp \<mapsto> n\<lparr> ln_next := first \<rparr>) \<rparr>,
            Inl (case ln_next n of Some b \<Rightarrow> BReverse b (Some temp) | None \<Rightarrow> BProcess temp), []))"
| "LB_Dequeue_step q (BProcess temp) =
     (case lb_heap q temp of
        None \<Rightarrow> None
      | Some n \<Rightarrow>
          Some (q\<lparr> lb_heap := (lb_heap q)(temp := None) \<rparr>,
            (case ln_next n of Some b \<Rightarrow> Inl (BProcess b) | None \<Rightarrow> Inr True), [ln_value n]))"

text \<open>\<^verbatim>\<open>Dequeue\<close> without interruption, with the items it gave to the handler; the destructor is one such call.\<close>

partial_function (option) LB_run :: "'a linked_batcher \<Rightarrow> batch_dequeue \<Rightarrow> ('a linked_batcher \<times> bool \<times> 'a list) option" where
  "LB_run q c =
     Option.bind (LB_Dequeue_step q c) (\<lambda>r.
       case fst (snd r) of
         Inr b \<Rightarrow> Some (fst r, b, snd (snd r))
       | Inl c' \<Rightarrow> Option.bind (LB_run (fst r) c') (\<lambda>t. Some (fst t, fst (snd t), snd (snd r) @ snd (snd t))))"

definition LB_Dequeue :: "'a linked_batcher \<Rightarrow> ('a linked_batcher \<times> bool \<times> 'a list) option" where
  "LB_Dequeue q = LB_run q BTake"

definition MPSCLinkedBatcher_destroy :: "'a linked_batcher \<Rightarrow> (nat \<Rightarrow> 'a linked_node option) option" where
  "MPSCLinkedBatcher_destroy q = map_option (\<lambda>r. lb_heap (fst r)) (LB_Dequeue q)"

subsection \<open>The system of producers and one consumer\<close>

record 'a batch_system =
  bs_batcher :: "'a linked_batcher"
  bs_producers :: "nat \<Rightarrow> 'a batch_enqueue option"
  bs_consumer :: "batch_dequeue option"
  bs_enqueued :: "'a list"
  bs_handled :: "'a list"

fun pushed :: "'a batch_enqueue \<Rightarrow> bool \<Rightarrow> 'a list" where
  "pushed (BExchange x a p) b = (if b then [x] else [])"
| "pushed _ b = []"

inductive batch_step :: "'a \<Rightarrow> 'a batch_system \<Rightarrow> 'a batch_system \<Rightarrow> bool" for blank where
  call_LB_Enqueue: "bs_producers s i = None \<Longrightarrow>
    batch_step blank s (s\<lparr> bs_producers := (bs_producers s)(i := Some (BNew x)) \<rparr>)"
| run_LB_Enqueue: "bs_producers s i = Some p \<Longrightarrow> \<forall>a. fresh = Some a \<longrightarrow> lb_heap (bs_batcher s) a = None \<Longrightarrow>
    LB_Enqueue_step fresh lucky blank (bs_batcher s) p = Some (q, Inl p') \<Longrightarrow>
    batch_step blank s (s\<lparr> bs_batcher := q, bs_producers := (bs_producers s)(i := Some p') \<rparr>)"
| return_LB_Enqueue: "bs_producers s i = Some p \<Longrightarrow> LB_Enqueue_step fresh lucky blank (bs_batcher s) p = Some (q, Inr b) \<Longrightarrow>
    batch_step blank s (s\<lparr> bs_batcher := q, bs_producers := (bs_producers s)(i := None), bs_enqueued := bs_enqueued s @ pushed p b \<rparr>)"
| call_LB_Dequeue: "bs_consumer s = None \<Longrightarrow> batch_step blank s (s\<lparr> bs_consumer := Some BTake \<rparr>)"
| run_LB_Dequeue: "bs_consumer s = Some c \<Longrightarrow> LB_Dequeue_step (bs_batcher s) c = Some (q, r, ys) \<Longrightarrow>
    batch_step blank s (s\<lparr> bs_batcher := q, bs_consumer := (case r of Inl c' \<Rightarrow> Some c' | Inr b \<Rightarrow> None), bs_handled := bs_handled s @ ys \<rparr>)"

definition batch_start :: "'a batch_system \<Rightarrow> bool" where
  "batch_start s \<longleftrightarrow>
     s = \<lparr> bs_batcher = MPSCLinkedBatcher, bs_producers = (\<lambda>_. None), bs_consumer = None, bs_enqueued = [], bs_handled = [] \<rparr>"

subsection \<open>Lists of nodes\<close>

fun node_list :: "(nat \<Rightarrow> 'a linked_node option) \<Rightarrow> nat option \<Rightarrow> nat list \<Rightarrow> bool" where
  "node_list h p [] \<longleftrightarrow> p = None"
| "node_list h p (a # as) \<longleftrightarrow> p = Some a \<and> (\<exists>n. h a = Some n \<and> node_list h (ln_next n) as)"

definition node_values :: "(nat \<Rightarrow> 'a linked_node option) \<Rightarrow> nat list \<Rightarrow> 'a list" where
  "node_values h as = map (\<lambda>a. ln_value (the (h a))) as"

lemma node_list_other: "node_list h p as \<Longrightarrow> a \<notin> set as \<Longrightarrow> node_list (h(a := n)) p as"
  by (induction as arbitrary: p) auto

lemma node_values_other: "a \<notin> set as \<Longrightarrow> node_values (h(a := n)) as = node_values h as"
  by (auto simp: node_values_def)

lemma node_values_simps [simp]: "node_values h [] = []" "node_values h (a # as) = ln_value (the (h a)) # node_values h as"
  by (simp_all add: node_values_def)

subsection \<open>The invariant\<close>

fun batch_node :: "'a batch_enqueue option \<Rightarrow> nat option" where
  "batch_node (Some (BFill x a)) = Some a"
| "batch_node (Some (BLoadHead x a)) = Some a"
| "batch_node (Some (BStoreNext x a p)) = Some a"
| "batch_node (Some (BExchange x a p)) = Some a"
| "batch_node _ = None"

fun pusher_ok :: "(nat \<Rightarrow> 'a linked_node option) \<Rightarrow> 'a batch_enqueue option \<Rightarrow> bool" where
  "pusher_ok h (Some (BLoadHead x a)) \<longleftrightarrow> (\<exists>n. h a = Some n \<and> ln_value n = x)"
| "pusher_ok h (Some (BStoreNext x a p)) \<longleftrightarrow> (\<exists>n. h a = Some n \<and> ln_value n = x)"
| "pusher_ok h (Some (BExchange x a p)) \<longleftrightarrow> h a = Some \<lparr> ln_next = p, ln_value = x \<rparr>"
| "pusher_ok h _ \<longleftrightarrow> True"

text \<open>The nodes the consumer still reverses and those it has reversed.\<close>

fun taker_ok :: "(nat \<Rightarrow> 'a linked_node option) \<Rightarrow> batch_dequeue option \<Rightarrow> nat list \<Rightarrow> nat list \<Rightarrow> bool" where
  "taker_ok h (Some (BReverse t f)) as bs \<longleftrightarrow> node_list h (Some t) as \<and> node_list h f bs"
| "taker_ok h (Some (BProcess t)) as bs \<longleftrightarrow> as = [] \<and> node_list h (Some t) bs"
| "taker_ok h _ as bs \<longleftrightarrow> as = [] \<and> bs = []"

definition lb_good :: "'a linked_batcher \<Rightarrow> (nat \<Rightarrow> 'a batch_enqueue option) \<Rightarrow> batch_dequeue option \<Rightarrow> 'a list \<Rightarrow> nat list \<Rightarrow> nat list \<Rightarrow> nat list \<Rightarrow> bool" where
  "lb_good q P c xs ns as bs \<longleftrightarrow> node_list (lb_heap q) (lb_head q) ns \<and> taker_ok (lb_heap q) c as bs \<and> distinct (ns @ as @ bs) \<and>
     sole batch_node P \<and> owned batch_node P \<inter> set (ns @ as @ bs) = {} \<and> (\<forall>i. pusher_ok (lb_heap q) (P i)) \<and>
     dom (lb_heap q) = set (ns @ as @ bs) \<union> owned batch_node P \<and>
     xs = rev (node_values (lb_heap q) as) @ node_values (lb_heap q) bs @ rev (node_values (lb_heap q) ns)"

lemma pusher_other: "pusher_ok h p \<Longrightarrow> batch_node p \<noteq> Some a \<Longrightarrow> pusher_ok (h(a := n)) p"
  by (cases p rule: batch_node.cases) auto

lemma taker_other: "taker_ok h c as bs \<Longrightarrow> a \<notin> set (as @ bs) \<Longrightarrow> taker_ok (h(a := n)) c as bs"
  by (cases "(h, c, as, bs)" rule: taker_ok.cases) (auto simp: node_list_other)

text \<open>A change of a private node, or of one that becomes private.\<close>

lemma good_private:
  assumes g: "lb_good q P c xs ns as bs" and a: "a \<notin> set (ns @ as @ bs)" and n: "batch_node p = Some a" "pusher_ok ((lb_heap q)(a \<mapsto> n)) p"
    and o: "batch_node (P i) = Some a \<or> batch_node (P i) = None \<and> a \<notin> owned batch_node P"
  shows "lb_good (q\<lparr> lb_heap := (lb_heap q)(a \<mapsto> n) \<rparr>) (P(i := p)) c xs ns as bs"
proof -
  let ?h = "(lb_heap q)(a \<mapsto> n)" and ?P = "P(i := p)"
  have s: "sole batch_node P" using g by (simp add: lb_good_def)
  have O: "owned batch_node ?P = insert a (owned batch_node P)" "sole batch_node ?P"
  proof -
    have "owned batch_node ?P = insert a (owned batch_node P) \<and> sole batch_node ?P"
    proof (cases "batch_node (P i) = Some a")
      case True
      then have "a \<in> owned batch_node P" by (rule owned_member)
      then show ?thesis using owned_same [of batch_node p P i] True n(1) s by auto
    next
      case False
      then have "batch_node (P i) = None" "a \<notin> owned batch_node P" using o by simp_all
      then show ?thesis using owned_gain [of batch_node P i p a] n(1) s by simp
    qed
    then show "owned batch_node ?P = insert a (owned batch_node P)" "sole batch_node ?P" by blast+
  qed
  have "pusher_ok ?h (?P j)" for j
  proof (cases "j = i")
    case True
    then show ?thesis using n(2) by simp
  next
    case False
    have "batch_node (P j) \<noteq> Some a" using o s False owned_member [of batch_node P j a] unfolding sole_def by metis
    then show ?thesis using pusher_other [of "lb_heap q" "P j" a "Some n"] g False by (simp add: lb_good_def)
  qed
  moreover have "node_list ?h (lb_head q) ns" "taker_ok ?h c as bs"
    using g a node_list_other [of "lb_heap q" "lb_head q" ns a "Some n"] taker_other [of "lb_heap q" c as bs a "Some n"] by (simp_all add: lb_good_def)
  moreover have "node_values ?h as = node_values (lb_heap q) as" "node_values ?h bs = node_values (lb_heap q) bs" "node_values ?h ns = node_values (lb_heap q) ns"
    using a node_values_other [of a _ "lb_heap q" "Some n"] by simp_all
  ultimately show ?thesis using g O a unfolding lb_good_def by auto
qed

lemma good_same:
  assumes g: "lb_good q P c xs ns as bs" and p: "batch_node p = batch_node (P i)" "pusher_ok (lb_heap q) p"
  shows "lb_good q (P(i := p)) c xs ns as bs"
  using assms owned_same [of batch_node p P i] by (simp add: lb_good_def)

lemma good_push:
  assumes g: "lb_good q P c xs ns as bs" and p: "P i = Some (BExchange x a (lb_head q))"
  shows "lb_good (q\<lparr> lb_head := Some a \<rparr>) (P(i := None)) c (xs @ [x]) (a # ns) as bs"
proof -
  have o: "a \<in> owned batch_node P" by (rule owned_member [of _ _ i]) (simp add: p)
  then have a: "a \<notin> set (ns @ as @ bs)" using g unfolding lb_good_def by blast
  have "pusher_ok (lb_heap q) (P i)" using g unfolding lb_good_def by blast
  then have n: "lb_heap q a = Some \<lparr> ln_next = lb_head q, ln_value = x \<rparr>" by (simp add: p)
  have "sole batch_node P" using g by (simp add: lb_good_def)
  then have O: "owned batch_node (P(i := None)) = owned batch_node P - {a}" "sole batch_node (P(i := None))"
    using owned_lose [of batch_node P i a None] p by simp_all
  then show ?thesis using g n a o unfolding lb_good_def by auto
qed

lemma push_good:
  assumes g: "lb_good q P c xs ns as bs" and p: "P i = Some p" and a: "\<forall>a. fresh = Some a \<longrightarrow> lb_heap q a = None"
  shows "\<exists>q' r ns'. LB_Enqueue_step fresh lucky blank q p = Some (q', r) \<and>
    lb_good q' (P(i := (case r of Inl p' \<Rightarrow> Some p' | Inr b \<Rightarrow> None))) c (xs @ (case r of Inl p' \<Rightarrow> [] | Inr b \<Rightarrow> pushed p b)) ns' as bs"
proof -
  have pi: "pusher_ok (lb_heap q) (Some p)" using g p unfolding lb_good_def by metis
  have own: "b \<in> owned batch_node P \<and> b \<notin> set (ns @ as @ bs) \<and> (\<exists>n. lb_heap q b = Some n)" if "batch_node (Some p) = Some b" for b
  proof -
    have "b \<in> owned batch_node P" using owned_member [of batch_node P i b] that p by simp
    moreover have "b \<in> dom (lb_heap q)" using g calculation unfolding lb_good_def by blast
    ultimately show ?thesis using g unfolding lb_good_def by blast
  qed
  show ?thesis
  proof (cases p)
    case (BNew x)
    show ?thesis
    proof (cases fresh)
      case None
      then show ?thesis using good_same [OF g, of None i] p BNew by auto
    next
      case (Some b)
      then have "b \<notin> dom (lb_heap q)" using a by (simp add: domIff)
      then have "b \<notin> set (ns @ as @ bs)" "b \<notin> owned batch_node P" using g unfolding lb_good_def by blast+
      then show ?thesis using good_private [OF g, of b "Some (BFill x b)" _ i] p BNew Some by auto
    qed
  next
    case (BFill x b)
    then obtain n where "lb_heap q b = Some n" "b \<notin> set (ns @ as @ bs)" using own by auto
    then show ?thesis using good_private [OF g, of b "Some (BLoadHead x b)" "n\<lparr> ln_value := x \<rparr>" i] p BFill by auto
  next
    case (BLoadHead x b)
    then show ?thesis using good_same [OF g, of "Some (BStoreNext x b (lb_head q))" i] p pi by auto
  next
    case (BStoreNext x b e)
    then obtain n where "lb_heap q b = Some n" "ln_value n = x" "b \<notin> set (ns @ as @ bs)" using own pi by auto
    then show ?thesis using good_private [OF g, of b "Some (BExchange x b e)" "n\<lparr> ln_next := e \<rparr>" i] p BStoreNext by auto
  next
    case (BExchange x b e)
    show ?thesis
    proof (cases "lb_head q = e \<and> lucky")
      case True
      then show ?thesis using good_push [OF g, of i x b] p BExchange by auto
    next
      case False
      then show ?thesis using good_same [OF g, of "Some (BStoreNext x b (lb_head q))" i] p pi BExchange by auto
    qed
  qed
qed

text \<open>Every step of the consumer has a result, and the steps it has to make until it returns are counted.\<close>

fun take_left :: "batch_dequeue \<Rightarrow> nat list \<Rightarrow> nat list \<Rightarrow> nat list \<Rightarrow> nat" where
  "take_left BTake ns as bs = 2 * length ns + 1"
| "take_left (BReverse t f) ns as bs = 2 * length as + length bs"
| "take_left (BProcess t) ns as bs = length bs"

lemma take_good:
  assumes g: "lb_good q P (Some c) xs ns as bs"
  shows "\<exists>q' r ys zs ns' as' bs'. LB_Dequeue_step q c = Some (q', r, ys) \<and> xs = ys @ zs \<and>
    (case r of
       Inl c' \<Rightarrow> lb_good q' P (Some c') zs ns' as' bs' \<and> take_left c' ns' as' bs' < take_left c ns as bs \<and> (ns' = [] \<or> c \<noteq> BTake \<and> ns' = ns) \<and> c' \<noteq> BTake \<and> (c = BTake \<longrightarrow> ns \<noteq> [])
     | Inr b \<Rightarrow> lb_good q' P None zs ns' as' bs' \<and> (ns' = [] \<or> c \<noteq> BTake \<and> ns' = ns) \<and> b = (c \<noteq> BTake) \<and> (c = BTake \<longrightarrow> ns = []))"
proof (cases c)
  case BTake
  then have e: "as = []" "bs = []" using g by (simp_all add: lb_good_def)
  show ?thesis
  proof (cases "lb_head q")
    case None
    then have "ns = []" using g by (cases ns) (simp_all add: lb_good_def)
    then have "lb_good (q\<lparr> lb_head := None \<rparr>) P None xs [] [] []" "xs = []" using g e BTake by (simp_all add: lb_good_def)
    then show ?thesis using BTake None \<open>ns = []\<close> by auto
  next
    case (Some t)
    then have "lb_good (q\<lparr> lb_head := None \<rparr>) P (Some (BReverse t None)) xs [] ns []" using g e BTake by (auto simp: lb_good_def)
    moreover have "ns \<noteq> []" using g Some by (auto simp: lb_good_def)
    ultimately show ?thesis using BTake Some by force
  qed
next
  case (BReverse t f)
  then have l: "node_list (lb_heap q) (Some t) as" "node_list (lb_heap q) f bs" using g by (simp_all add: lb_good_def)
  then obtain r n where r: "as = t # r" "lb_heap q t = Some n" "node_list (lb_heap q) (ln_next n) r" by (cases as) auto
  let ?h = "(lb_heap q)(t \<mapsto> n\<lparr> ln_next := f \<rparr>)"
  have d: "t \<notin> set (ns @ r @ bs)" using g r(1) by (auto simp: lb_good_def)
  have tn: "batch_node (P j) \<noteq> Some t" for j using owned_member [of batch_node P j t] g r(1) by (auto simp: lb_good_def)
  have K: "node_list ?h (lb_head q) ns" "node_list ?h (ln_next n) r" "node_list ?h f bs" "node_values ?h r = node_values (lb_heap q) r"
    "node_values ?h bs = node_values (lb_heap q) bs" "node_values ?h ns = node_values (lb_heap q) ns"
    using node_list_other [of "lb_heap q" _ _ t "Some (n\<lparr> ln_next := f \<rparr>)"] node_values_other [of t _ "lb_heap q" "Some (n\<lparr> ln_next := f \<rparr>)"] g d r(3) l(2)
    by (simp_all add: lb_good_def)
  have PK: "\<forall>i. pusher_ok ?h (P i)" using g pusher_other tn unfolding lb_good_def by blast
  let ?c = "case ln_next n of Some b \<Rightarrow> BReverse b (Some t) | None \<Rightarrow> BProcess t"
  have T: "taker_ok ?h (Some ?c) r (t # bs)" using K(2,3) by (cases "ln_next n"; cases r) auto
  have "lb_good (q\<lparr> lb_heap := ?h \<rparr>) P (Some ?c) xs ns r (t # bs)"
    using g K T PK r d unfolding lb_good_def by (auto simp: node_values_def)
  moreover have "take_left ?c ns r (t # bs) < take_left c ns as bs" using BReverse r(1,3) by (cases "ln_next n"; cases r) auto
  moreover have "LB_Dequeue_step q c = Some (q\<lparr> lb_heap := ?h \<rparr>, Inl ?c, [])" using BReverse r(2) by simp
  moreover have "c \<noteq> BTake" "?c \<noteq> BTake" using BReverse by (simp_all split: option.split)
  ultimately show ?thesis
    by (intro exI [of _ "q\<lparr> lb_heap := ?h \<rparr>"] exI [of _ "Inl ?c"] exI [of _ "[]"] exI [of _ xs] exI [of _ ns] exI [of _ r] exI [of _ "t # bs"]) simp
next
  case (BProcess t)
  then have l: "as = []" "node_list (lb_heap q) (Some t) bs" using g by (simp_all add: lb_good_def)
  then obtain r n where r: "bs = t # r" "lb_heap q t = Some n" "node_list (lb_heap q) (ln_next n) r" by (cases bs) auto
  let ?h = "(lb_heap q)(t := None)"
  have d: "t \<notin> set (ns @ r)" using g r(1) by (auto simp: lb_good_def)
  have tn: "t \<notin> owned batch_node P" using g r(1) by (auto simp: lb_good_def)
  then have tj: "batch_node (P j) \<noteq> Some t" for j using owned_member [of batch_node P j t] by blast
  have K: "node_list ?h (lb_head q) ns" "node_list ?h (ln_next n) r" "node_values ?h r = node_values (lb_heap q) r" "node_values ?h ns = node_values (lb_heap q) ns"
    using node_list_other [of "lb_heap q" _ _ t None] node_values_other [of t _ "lb_heap q" None] g d r(3) by (simp_all add: lb_good_def)
  have PK: "\<forall>i. pusher_ok ?h (P i)" using g pusher_other tj unfolding lb_good_def by blast
  let ?r = "case ln_next n of Some b \<Rightarrow> Inl (BProcess b) | None \<Rightarrow> Inr True" and ?zs = "node_values (lb_heap q) r @ rev (node_values (lb_heap q) ns)"
  have T: "taker_ok ?h (case ?r of Inl c' \<Rightarrow> Some c' | Inr b \<Rightarrow> None) [] r" using K(2) by (cases "ln_next n"; cases r) auto
  have G: "lb_good (q\<lparr> lb_heap := ?h \<rparr>) P (case ?r of Inl c' \<Rightarrow> Some c' | Inr b \<Rightarrow> None) ?zs ns [] r"
    using g K T PK r d tn l(1) unfolding lb_good_def by auto
  have x: "xs = [ln_value n] @ ?zs" using g l(1) r by (simp add: lb_good_def)
  have st: "LB_Dequeue_step q c = Some (q\<lparr> lb_heap := ?h \<rparr>, ?r, [ln_value n])" using BProcess r(2) by simp
  show ?thesis
  proof (cases "ln_next n")
    case None
    then show ?thesis using G x st BProcess by force
  next
    case (Some b)
    then show ?thesis using G x st BProcess r(1) l(1) by force
  qed
qed

lemma run_returns:
  "lb_good q P (Some c) xs ns as bs \<Longrightarrow> \<exists>q' b ys zs ns'. LB_run q c = Some (q', b, ys) \<and> xs = ys @ zs \<and> lb_good q' P None zs ns' [] [] \<and>
     (ns' = [] \<or> c \<noteq> BTake \<and> ns' = ns) \<and> b = (c \<noteq> BTake \<or> ns \<noteq> [])"
proof (induction "take_left c ns as bs" arbitrary: q c xs ns as bs rule: less_induct)
  case less
  obtain q' r ys zs ns' as' bs' where S: "LB_Dequeue_step q c = Some (q', r, ys)" "xs = ys @ zs"
    "case r of
       Inl c' \<Rightarrow> lb_good q' P (Some c') zs ns' as' bs' \<and> take_left c' ns' as' bs' < take_left c ns as bs \<and> (ns' = [] \<or> c \<noteq> BTake \<and> ns' = ns) \<and> c' \<noteq> BTake \<and> (c = BTake \<longrightarrow> ns \<noteq> [])
     | Inr b \<Rightarrow> lb_good q' P None zs ns' as' bs' \<and> (ns' = [] \<or> c \<noteq> BTake \<and> ns' = ns) \<and> b = (c \<noteq> BTake) \<and> (c = BTake \<longrightarrow> ns = [])"
    using take_good [OF less.prems] by blast
  show ?case
  proof (cases r)
    case (Inr b)
    then have "lb_good q' P None zs ns' [] []" using S(3) by (auto simp: lb_good_def)
    then show ?thesis using S Inr by (subst LB_run.simps) auto
  next
    case (Inl c')
    then have l: "take_left c' ns' as' bs' < take_left c ns as bs" "lb_good q' P (Some c') zs ns' as' bs'" "ns' = [] \<or> c \<noteq> BTake \<and> ns' = ns" "c' \<noteq> BTake" "c = BTake \<longrightarrow> ns \<noteq> []"
      using S(3) by simp_all
    obtain q2 b ys2 zs2 ns2 where R: "LB_run q' c' = Some (q2, b, ys2)" "zs = ys2 @ zs2" "lb_good q2 P None zs2 ns2 [] []" "ns2 = [] \<or> c' \<noteq> BTake \<and> ns2 = ns'"
      "b = (c' \<noteq> BTake \<or> ns' \<noteq> [])"
      using less.hyps [OF l(1,2)] by blast
    have "LB_run q c = Some (q2, b, ys @ ys2)" using S(1) Inl R(1) by (subst LB_run.simps) simp
    moreover have "ns2 = [] \<or> c \<noteq> BTake \<and> ns2 = ns" using R(4) l(3) by blast
    moreover have "b = (c \<noteq> BTake \<or> ns \<noteq> [])" using R(5) l(4,5) by auto
    ultimately show ?thesis using R(2,3) S(2) by auto
  qed
qed

definition batch_inv :: "'a batch_system \<Rightarrow> bool" where
  "batch_inv s \<longleftrightarrow> (\<exists>xs ns as bs. bs_enqueued s = bs_handled s @ xs \<and> lb_good (bs_batcher s) (bs_producers s) (bs_consumer s) xs ns as bs)"

lemma batch_inv_step: "batch_step blank s s' \<Longrightarrow> batch_inv s \<Longrightarrow> batch_inv s'"
proof (induction rule: batch_step.induct)
  case (call_LB_Enqueue s i x)
  then obtain xs ns as bs where x: "bs_enqueued s = bs_handled s @ xs" "lb_good (bs_batcher s) (bs_producers s) (bs_consumer s) xs ns as bs" by (auto simp: batch_inv_def)
  then have "lb_good (bs_batcher s) ((bs_producers s)(i := Some (BNew x))) (bs_consumer s) xs ns as bs"
    using call_LB_Enqueue by (intro good_same) auto
  then show ?case using x(1) unfolding batch_inv_def by auto
next
  case (run_LB_Enqueue s i p fresh lucky q p')
  then obtain xs ns as bs where x: "bs_enqueued s = bs_handled s @ xs" "lb_good (bs_batcher s) (bs_producers s) (bs_consumer s) xs ns as bs" by (auto simp: batch_inv_def)
  then show ?case using push_good [OF x(2) run_LB_Enqueue.hyps(1,2), of lucky blank] run_LB_Enqueue.hyps(3) unfolding batch_inv_def by auto
next
  case (return_LB_Enqueue s i p fresh lucky q b)
  then obtain xs ns as bs where x: "bs_enqueued s = bs_handled s @ xs" "lb_good (bs_batcher s) (bs_producers s) (bs_consumer s) xs ns as bs" by (auto simp: batch_inv_def)
  have "LB_Enqueue_step None lucky blank (bs_batcher s) p = Some (q, Inr b)"
    using return_LB_Enqueue.hyps(2) by (cases p) (auto split: option.splits)
  then show ?case using push_good [OF x(2) return_LB_Enqueue.hyps(1), of None lucky blank] x(1) unfolding batch_inv_def by auto
next
  case (call_LB_Dequeue s)
  then obtain xs ns as bs where x: "bs_enqueued s = bs_handled s @ xs" "lb_good (bs_batcher s) (bs_producers s) None xs ns as bs" by (auto simp: batch_inv_def)
  then have "lb_good (bs_batcher s) (bs_producers s) (Some BTake) xs ns as bs" by (auto simp: lb_good_def)
  then show ?case using x(1) unfolding batch_inv_def by auto
next
  case (run_LB_Dequeue s c q r ys)
  then obtain xs ns as bs where x: "bs_enqueued s = bs_handled s @ xs" "lb_good (bs_batcher s) (bs_producers s) (Some c) xs ns as bs" by (auto simp: batch_inv_def)
  then show ?case using take_good [OF x(2)] run_LB_Dequeue.hyps(2) unfolding batch_inv_def by (cases r) fastforce+
qed

interpretation linked_batcher: step_invariant batch_start "batch_step blank" batch_inv
proof
  show "batch_start s \<Longrightarrow> batch_inv s" for s :: "'a batch_system"
    by (auto simp: batch_start_def batch_inv_def lb_good_def MPSCLinkedBatcher_def owned_def sole_def)
qed (rule batch_inv_step)

lemma destroy_batch:
  assumes g: "lb_good q (\<lambda>_. None) None xs ns as bs"
  shows "LB_Dequeue q = Some (fst (the (LB_Dequeue q)), xs \<noteq> [], xs)" "MPSCLinkedBatcher_destroy q = Some (\<lambda>_. None)"
proof -
  have "lb_good q (\<lambda>_. None) (Some BTake) xs ns as bs" using g by (auto simp: lb_good_def)
  then obtain q' b ys zs where R: "LB_run q BTake = Some (q', b, ys)" "xs = ys @ zs" "lb_good q' (\<lambda>_. None) None zs [] [] []" "b = (ns \<noteq> [])"
    using run_returns by blast
  have h: "dom (lb_heap q') = {}" "zs = []" using R(3) by (auto simp: lb_good_def owned_def)
  then show "MPSCLinkedBatcher_destroy q = Some (\<lambda>_. None)" using R(1) by (auto simp: MPSCLinkedBatcher_destroy_def LB_Dequeue_def)
  have "as = []" "bs = []" using g by (simp_all add: lb_good_def)
  then have "b = (xs \<noteq> [])" using g R(4) by (simp add: lb_good_def node_values_def)
  then show "LB_Dequeue q = Some (fst (the (LB_Dequeue q)), xs \<noteq> [], xs)" using R(1,2) h(2) by (simp add: LB_Dequeue_def)
qed

subsection \<open>Properties\<close>

text \<open>
  C37. The linked batcher under every interleaving of any number of producers and one consumer, with addresses of
  deleted nodes used again and compare-and-exchange operations that fail for no reason: no operation follows a pointer
  to a deleted node; the items are handled in the order in which they were pushed, each once; and when all threads
  are at rest a call of \<^verbatim>\<open>Dequeue\<close> returns, handles exactly the items that are left, and leaves no node behind.
\<close>

theorem MPSCLinkedBatcher_fifo:
  assumes "reach batch_start (batch_step blank) s"
  shows "\<exists>xs. bs_enqueued s = bs_handled s @ xs \<and>
    (\<forall>i p fresh lucky. bs_producers s i = Some p \<longrightarrow> (\<forall>b. fresh = Some b \<longrightarrow> lb_heap (bs_batcher s) b = None) \<longrightarrow>
       LB_Enqueue_step fresh lucky blank (bs_batcher s) p \<noteq> None) \<and>
    (\<forall>c. bs_consumer s = Some c \<longrightarrow> LB_Dequeue_step (bs_batcher s) c \<noteq> None) \<and>
    (bs_producers s = (\<lambda>_. None) \<and> bs_consumer s = None \<longrightarrow>
       (\<exists>q. LB_Dequeue (bs_batcher s) = Some (q, xs \<noteq> [], xs)) \<and> MPSCLinkedBatcher_destroy (bs_batcher s) = Some (\<lambda>_. None))"
proof -
  obtain xs ns as bs where x: "bs_enqueued s = bs_handled s @ xs" "lb_good (bs_batcher s) (bs_producers s) (bs_consumer s) xs ns as bs"
    using linked_batcher.reach_inv [OF assms] by (auto simp: batch_inv_def)
  have en: "LB_Enqueue_step fresh lucky blank (bs_batcher s) p \<noteq> None"
    if "bs_producers s i = Some p" "\<forall>b. fresh = Some b \<longrightarrow> lb_heap (bs_batcher s) b = None" for i p fresh lucky
    using push_good [OF x(2) that, of lucky blank] by auto
  have de: "LB_Dequeue_step (bs_batcher s) c \<noteq> None" if "bs_consumer s = Some c" for c
    using take_good [of "bs_batcher s" "bs_producers s" c xs ns as bs] x(2) that by auto
  have cl: "(\<exists>q. LB_Dequeue (bs_batcher s) = Some (q, xs \<noteq> [], xs)) \<and> MPSCLinkedBatcher_destroy (bs_batcher s) = Some (\<lambda>_. None)"
    if "bs_producers s = (\<lambda>_. None)" "bs_consumer s = None"
    using destroy_batch [of "bs_batcher s" xs ns as bs] x(2) that by auto
  show ?thesis by (intro exI [of _ xs] conjI allI impI) (use x(1) en de cl in simp_all)
qed

theorem MPSCLinkedBatcher_fifo_witness:
  "\<exists>s :: nat batch_system. reach batch_start (batch_step 0) s \<and> bs_enqueued s = [5] \<and> bs_handled s = [] \<and>
     (\<exists>q. LB_Dequeue (bs_batcher s) = Some (q, True, [5])) \<and> MPSCLinkedBatcher_destroy (bs_batcher s) = Some (\<lambda>_. None)"
proof -
  define st :: "nat linked_batcher \<Rightarrow> nat batch_enqueue option \<Rightarrow> nat list \<Rightarrow> nat batch_system" where
    "st q p e = \<lparr> bs_batcher = q, bs_producers = (\<lambda>_. None)(0 := p), bs_consumer = None, bs_enqueued = e, bs_handled = [] \<rparr>" for q p e
  let ?R = "reach batch_start (batch_step (0 :: nat))"
  have call: "?R (st q None e) \<Longrightarrow> ?R (st q (Some (BNew 5)) e)" for q e
    by (erule reach_step) (use call_LB_Enqueue [of "st q None e" 0 0 5] in \<open>simp add: st_def\<close>)
  have run: "?R (st q (Some p) e) \<Longrightarrow> \<forall>a. fresh = Some a \<longrightarrow> lb_heap q a = None \<Longrightarrow> LB_Enqueue_step fresh True 0 q p = Some (q', Inl p') \<Longrightarrow>
      ?R (st q' (Some p') e)" for q p e fresh q' p'
    by (erule reach_step) (use run_LB_Enqueue [of "st q (Some p) e" 0 p fresh True 0 q' p'] in \<open>simp add: st_def\<close>)
  have ret: "?R (st q (Some p) e) \<Longrightarrow> LB_Enqueue_step None True 0 q p = Some (q', Inr b) \<Longrightarrow> ?R (st q' None (e @ pushed p b))" for q p e q' b
    by (erule reach_step) (use return_LB_Enqueue [of "st q (Some p) e" 0 p None True 0 q' b] in \<open>simp add: st_def\<close>)
  have "?R (st MPSCLinkedBatcher None [])" by (rule reach_start) (auto simp: st_def batch_start_def)
  from call [OF this] have "?R (st MPSCLinkedBatcher (Some (BNew 5)) [])" .
  from run [OF this, where fresh = "Some 16"] have "?R (st \<lparr> lb_head = None, lb_heap = [16 \<mapsto> \<lparr> ln_next = None, ln_value = 0 \<rparr>] \<rparr> (Some (BFill 5 16)) [])"
    by (simp add: MPSCLinkedBatcher_def)
  from run [OF this, where fresh = None] have "?R (st \<lparr> lb_head = None, lb_heap = [16 \<mapsto> \<lparr> ln_next = None, ln_value = 5 \<rparr>] \<rparr> (Some (BLoadHead 5 16)) [])" by simp
  from run [OF this, where fresh = None] have "?R (st \<lparr> lb_head = None, lb_heap = [16 \<mapsto> \<lparr> ln_next = None, ln_value = 5 \<rparr>] \<rparr> (Some (BStoreNext 5 16 None)) [])" by simp
  from run [OF this, where fresh = None] have "?R (st \<lparr> lb_head = None, lb_heap = [16 \<mapsto> \<lparr> ln_next = None, ln_value = 5 \<rparr>] \<rparr> (Some (BExchange 5 16 None)) [])" by simp
  from ret [OF this, where b = True] obtain q where r: "?R (st q None [5])" by simp
  from MPSCLinkedBatcher_fifo [OF r] show ?thesis using r by (intro exI [of _ "st q None [5]"]) (simp add: st_def fun_eq_iff)
qed

end
