(* ===== verification/RingBuffer.thy ===== *)
theory RingBuffer
  imports RingQueue
begin

text \<open>
  The byte buffer of \<^verbatim>\<open>include/threads/spsc_ring_buffer.h\<close> and \<^verbatim>\<open>include/threads/spsc_ring_buffer.inl\<close> for one producer
  and one consumer thread. A block of data is copied in at most two parts, byte by byte, while the other thread runs;
  the cursors are published before and after. The pointer to the data may be null; otherwise it holds as many bytes
  as the given size.
\<close>

record ring_buffer =
  rb_capacity :: u64
  rb_mask :: u64
  rb_buffer :: "u8 list"
  rb_head :: u64
  rb_tail :: u64

definition SPSCRingBuffer :: "u64 \<Rightarrow> ring_buffer" where
  "SPSCRingBuffer capacity =
     \<lparr> rb_capacity = capacity, rb_mask = capacity - 1, rb_buffer = replicate (unat capacity) 0, rb_head = 0, rb_tail = 0 \<rparr>"

definition Buffer_size :: "ring_buffer \<Rightarrow> u64" where
  "Buffer_size q = rb_head q - rb_tail q"

subsection \<open>The accesses of the two operations\<close>

text \<open>
  The place of byte \<open>i\<close> of a copy of \<open>n\<close> bytes that begins at the cursor \<open>here\<close> and is limited by the cursor \<open>there\<close>.
\<close>

definition copy_index :: "ring_buffer \<Rightarrow> u64 \<Rightarrow> u64 \<Rightarrow> u64 \<Rightarrow> nat \<Rightarrow> nat" where
  "copy_index q here there n i =
     (let here_index = here AND rb_mask q;
          there_index = there AND rb_mask q;
          remain = (if there_index > here_index then there_index - here_index else rb_capacity q - here_index);
          first = (if n > remain then remain else n)
      in if i < unat first then unat here_index + i else i - unat first)"

datatype buffer_enqueue =
  BEStart "u8 list option" u64
| BELoadHead "u8 list" u64
| BELoadTail "u8 list" u64 u64
| BECopy "u8 list" u64 u64 u64 nat
| BEStoreHead "u8 list" u64 u64

fun Buffer_Enqueue_step :: "ring_buffer \<Rightarrow> buffer_enqueue \<Rightarrow> ring_buffer \<times> (buffer_enqueue + bool)" where
  "Buffer_Enqueue_step q (BEStart data n) =
     (if n > rb_capacity q then (q, Inr False)
      else if n = 0 then (q, Inr True)
      else case data of None \<Rightarrow> (q, Inr False) | Some bytes \<Rightarrow> (q, Inl (BELoadHead bytes n)))"
| "Buffer_Enqueue_step q (BELoadHead bytes n) = (q, Inl (BELoadTail bytes n (rb_head q)))"
| "Buffer_Enqueue_step q (BELoadTail bytes n head) =
     (if n + head - rb_tail q > rb_capacity q then (q, Inr False) else (q, Inl (BECopy bytes n head (rb_tail q) 0)))"
| "Buffer_Enqueue_step q (BECopy bytes n head tail i) =
     (if i < unat n
      then (q\<lparr> rb_buffer := (rb_buffer q)[copy_index q head tail n i := bytes ! i] \<rparr>, Inl (BECopy bytes n head tail (Suc i)))
      else (q, Inl (BEStoreHead bytes n head)))"
| "Buffer_Enqueue_step q (BEStoreHead bytes n head) = (q\<lparr> rb_head := head + n \<rparr>, Inr True)"

datatype buffer_dequeue =
  BDStart bool u64
| BDLoadTail u64
| BDLoadHead u64 u64
| BDCopy u64 u64 u64 "u8 list"
| BDStoreTail u64 u64 "u8 list"

text \<open>The result is what \<^verbatim>\<open>Dequeue\<close> returns and the bytes it stored; their number is the size it reports.\<close>

fun Buffer_Dequeue_step :: "ring_buffer \<Rightarrow> buffer_dequeue \<Rightarrow> ring_buffer \<times> (buffer_dequeue + bool \<times> u8 list)" where
  "Buffer_Dequeue_step q (BDStart valid n) =
     (if n = 0 then (q, Inr (True, [])) else if \<not> valid then (q, Inr (False, [])) else (q, Inl (BDLoadTail n)))"
| "Buffer_Dequeue_step q (BDLoadTail n) = (q, Inl (BDLoadHead n (rb_tail q)))"
| "Buffer_Dequeue_step q (BDLoadHead n tail) =
     (let available = rb_head q - tail;
          n = (if n > available then available else n)
      in if n = 0 then (q, Inr (False, [])) else (q, Inl (BDCopy n tail (rb_head q) [])))"
| "Buffer_Dequeue_step q (BDCopy n tail head data) =
     (if length data < unat n
      then (q, Inl (BDCopy n tail head (data @ [rb_buffer q ! copy_index q tail head n (length data)])))
      else (q, Inl (BDStoreTail n tail data)))"
| "Buffer_Dequeue_step q (BDStoreTail n tail data) = (q\<lparr> rb_tail := tail + n \<rparr>, Inr (True, data))"

subsection \<open>The system of one producer and one consumer\<close>

record buffer_system =
  bf_buffer :: ring_buffer
  bf_producer :: "buffer_enqueue option"
  bf_consumer :: "buffer_dequeue option"
  bf_enqueued :: "u8 list"
  bf_dequeued :: "u8 list"

fun published :: "buffer_enqueue \<Rightarrow> u8 list" where
  "published (BEStoreHead bytes n head) = bytes"
| "published _ = []"

inductive buffer_step :: "buffer_system \<Rightarrow> buffer_system \<Rightarrow> bool" where
  call_Buffer_Enqueue: "bf_producer s = None \<Longrightarrow> \<forall>bytes. data = Some bytes \<longrightarrow> length bytes = unat n \<Longrightarrow>
    buffer_step s (s\<lparr> bf_producer := Some (BEStart data n) \<rparr>)"
| run_Buffer_Enqueue: "bf_producer s = Some p \<Longrightarrow> Buffer_Enqueue_step (bf_buffer s) p = (q, r) \<Longrightarrow>
    buffer_step s (s\<lparr> bf_buffer := q, bf_producer := (case r of Inl p' \<Rightarrow> Some p' | Inr b \<Rightarrow> None), bf_enqueued := bf_enqueued s @ published p \<rparr>)"
| call_Buffer_Dequeue: "bf_consumer s = None \<Longrightarrow> buffer_step s (s\<lparr> bf_consumer := Some (BDStart valid n) \<rparr>)"
| run_Buffer_Dequeue: "bf_consumer s = Some c \<Longrightarrow> Buffer_Dequeue_step (bf_buffer s) c = (q, Inl c') \<Longrightarrow>
    buffer_step s (s\<lparr> bf_buffer := q, bf_consumer := Some c' \<rparr>)"
| return_Buffer_Dequeue: "bf_consumer s = Some c \<Longrightarrow> Buffer_Dequeue_step (bf_buffer s) c = (q, Inr (b, data)) \<Longrightarrow>
    buffer_step s (s\<lparr> bf_buffer := q, bf_consumer := None, bf_dequeued := bf_dequeued s @ data \<rparr>)"

definition buffer_start :: "u64 \<Rightarrow> buffer_system \<Rightarrow> bool" where
  "buffer_start capacity s \<longleftrightarrow>
     s = \<lparr> bf_buffer = SPSCRingBuffer capacity, bf_producer = None, bf_consumer = None, bf_enqueued = [], bf_dequeued = [] \<rparr>"

subsection \<open>The two parts of a copy\<close>

lemma two_parts:
  fixes a :: nat
  assumes d: "n \<le> d" "d \<le> c" and i: "i < n"
  defines "hi \<equiv> a mod c" and "ti \<equiv> (a + d) mod c"
  defines "remain \<equiv> if ti > hi then ti - hi else c - hi"
  defines "first \<equiv> if n > remain then remain else n"
  shows "(if i < first then hi + i else i - first) = (a + i) mod c"
proof -
  have c: "0 < c" using assms(1-3) by simp
  then have hi: "hi < c" by (simp add: hi_def)
  have ai: "(a + i) mod c = (hi + i) mod c" "ti = (hi + d) mod c" by (simp_all add: hi_def ti_def mod_add_left_eq)
  show ?thesis
  proof (cases "hi + d < c")
    case True
    then have "ti = hi + d" using ai by simp
    then have "remain = d" "first = n" using d i by (auto simp: remain_def first_def)
    then show ?thesis using i d True ai by simp
  next
    case False
    then have "ti = hi + d - c" using ai(2) hi d(2) by (simp add: mod_if)
    then have r: "remain = c - hi" using d(2) hi by (auto simp: remain_def)
    show ?thesis
    proof (cases "i < first")
      case True
      then have "hi + i < c" using r by (auto simp: first_def split: if_splits)
      then show ?thesis using True ai by simp
    next
      case F: False
      then have f: "first = c - hi" "c \<le> hi + i" using r i by (auto simp: first_def split: if_splits)
      then have "(hi + i) mod c = hi + i - c" using hi i d by (simp add: mod_if)
      then show ?thesis using F f ai hi by simp
    qed
  qed
qed

definition buffer_at :: "nat \<Rightarrow> ring_buffer \<Rightarrow> nat \<Rightarrow> u8 list \<Rightarrow> bool" where
  "buffer_at k q t xs \<longleftrightarrow> 0 < k \<and> k < 63 \<and> rb_capacity q = 2 ^ k \<and> rb_mask q = mask k \<and> length (rb_buffer q) = 2 ^ k \<and>
     rb_tail q = of_nat t \<and> rb_head q = of_nat (t + length xs) \<and> length xs \<le> 2 ^ k \<and>
     (\<forall>i < length xs. rb_buffer q ! ((t + i) mod 2 ^ k) = xs ! i)"

lemma small_power: "k < 63 \<Longrightarrow> (2 :: nat) ^ k \<le> 2 ^ 62"
  by (intro power_increasing) simp_all

lemma copy_index_at:
  assumes q: "k < 63" "rb_capacity q = 2 ^ k" "rb_mask q = mask k" and d: "unat n \<le> d" "d \<le> 2 ^ k" and i: "i < unat n"
  shows "copy_index q (of_nat a) (of_nat (a + d)) n i = (a + i) mod 2 ^ k"
proof -
  let ?h = "(of_nat a :: u64) AND mask k" and ?t = "(of_nat (a + d) :: u64) AND mask k"
  have u: "unat ?h = a mod 2 ^ k" "unat ?t = (a + d) mod 2 ^ k" by (rule unat_index; use q(1) in simp)+
  have c: "unat (2 ^ k :: u64) = 2 ^ k" using q(1) by (simp add: unat_pow2)
  let ?r = "if ?t > ?h then ?t - ?h else 2 ^ k - ?h"
  have "?h \<le> 2 ^ k" using u(1) c by (simp add: word_le_nat_alt less_imp_le)
  then have r: "unat ?r = (if (a + d) mod 2 ^ k > a mod 2 ^ k then (a + d) mod 2 ^ k - a mod 2 ^ k else 2 ^ k - a mod 2 ^ k)"
    using u c by (simp add: unat_sub word_less_nat_alt less_imp_le)
  have f: "unat (if n > ?r then ?r else n) = (if unat n > unat ?r then unat ?r else unat n)" by (simp add: word_less_nat_alt)
  show ?thesis using two_parts [OF d i, of a] unfolding copy_index_def q(2,3) Let_def f r u .
qed

lemma copy_index_producer:
  assumes q: "buffer_at k q t xs" and b: "b \<le> t" "t + length xs - b + unat n \<le> 2 ^ k" and i: "i < unat n"
  shows "copy_index q (of_nat (t + length xs)) (of_nat b) n i = (t + length xs + i) mod 2 ^ k"
proof -
  have k: "k < 63" "rb_capacity q = 2 ^ k" "rb_mask q = mask k" using q by (auto simp: buffer_at_def)
  let ?a = "t + length xs" and ?d = "b + 2 ^ k - (t + length xs)"
  have e: "?a + ?d = b + 2 ^ k" "unat n \<le> ?d" "?d \<le> 2 ^ k" using b by simp_all
  have "(of_nat (b + 2 ^ k) :: u64) AND mask k = of_nat b AND mask k"
    using unat_index [of k "b + 2 ^ k"] unat_index [of k b] k(1) by (simp add: word_unat_eq_iff del: of_nat_add)
  then have "copy_index q (of_nat ?a) (of_nat b) n i = copy_index q (of_nat ?a) (of_nat (?a + ?d)) n i"
    unfolding copy_index_def k(3) e(1) by simp
  then show ?thesis using copy_index_at [OF k e(2,3) i, of ?a] by simp
qed

lemma copy_index_consumer:
  assumes q: "buffer_at k q t xs" and h: "t + unat n \<le> h" "h \<le> t + length xs" and i: "i < unat n"
  shows "copy_index q (of_nat t) (of_nat h) n i = (t + i) mod 2 ^ k"
proof -
  have k: "k < 63" "rb_capacity q = 2 ^ k" "rb_mask q = mask k" "length xs \<le> 2 ^ k" using q by (auto simp: buffer_at_def)
  have "t + (h - t) = h" "unat n \<le> h - t" "h - t \<le> 2 ^ k" using h k(4) by simp_all
  then show ?thesis using copy_index_at [OF k(1-3) _ _ i, of "h - t" t] by simp
qed

subsection \<open>The invariant\<close>

definition copied :: "nat \<Rightarrow> ring_buffer \<Rightarrow> nat \<Rightarrow> u8 list \<Rightarrow> nat \<Rightarrow> bool" where
  "copied k q h bytes i \<longleftrightarrow> (\<forall>j < i. rb_buffer q ! ((h + j) mod 2 ^ k) = bytes ! j)"

fun filler_ok :: "nat \<Rightarrow> ring_buffer \<Rightarrow> nat \<Rightarrow> u8 list \<Rightarrow> buffer_enqueue \<Rightarrow> bool" where
  "filler_ok k q t xs (BEStart data n) \<longleftrightarrow> (\<forall>bytes. data = Some bytes \<longrightarrow> length bytes = unat n)"
| "filler_ok k q t xs (BELoadHead bytes n) \<longleftrightarrow> length bytes = unat n \<and> unat n \<le> 2 ^ k"
| "filler_ok k q t xs (BELoadTail bytes n head) \<longleftrightarrow> length bytes = unat n \<and> unat n \<le> 2 ^ k \<and> head = rb_head q"
| "filler_ok k q t xs (BECopy bytes n head tail i) \<longleftrightarrow> length bytes = unat n \<and> head = rb_head q \<and> i \<le> unat n \<and>
     (\<exists>b \<le> t. tail = of_nat b \<and> t + length xs - b + unat n \<le> 2 ^ k) \<and> copied k q (t + length xs) bytes i"
| "filler_ok k q t xs (BEStoreHead bytes n head) \<longleftrightarrow> length bytes = unat n \<and> head = rb_head q \<and>
     length xs + unat n \<le> 2 ^ k \<and> copied k q (t + length xs) bytes (unat n)"

fun drainer_ok :: "ring_buffer \<Rightarrow> nat \<Rightarrow> u8 list \<Rightarrow> buffer_dequeue \<Rightarrow> bool" where
  "drainer_ok q t xs (BDStart valid n) \<longleftrightarrow> True"
| "drainer_ok q t xs (BDLoadTail n) \<longleftrightarrow> n \<noteq> 0"
| "drainer_ok q t xs (BDLoadHead n tail) \<longleftrightarrow> n \<noteq> 0 \<and> tail = rb_tail q"
| "drainer_ok q t xs (BDCopy n tail head data) \<longleftrightarrow> tail = rb_tail q \<and> length data \<le> unat n \<and> data = take (length data) xs \<and>
     (\<exists>h \<le> t + length xs. head = of_nat h \<and> t + unat n \<le> h)"
| "drainer_ok q t xs (BDStoreTail n tail data) \<longleftrightarrow> tail = rb_tail q \<and> length data = unat n \<and> data = take (unat n) xs"

definition buffer_inv :: "nat \<Rightarrow> buffer_system \<Rightarrow> bool" where
  "buffer_inv k s \<longleftrightarrow> (\<exists>xs. bf_enqueued s = bf_dequeued s @ xs \<and> buffer_at k (bf_buffer s) (length (bf_dequeued s)) xs \<and>
     pred_option (filler_ok k (bf_buffer s) (length (bf_dequeued s)) xs) (bf_producer s) \<and>
     pred_option (drainer_ok (bf_buffer s) (length (bf_dequeued s)) xs) (bf_consumer s))"

lemma sum_words:
  fixes n :: u64
  assumes "k < 63" "b \<le> h" "h - b \<le> 2 ^ k" "unat n \<le> 2 ^ k"
  shows "unat (n + of_nat h - of_nat b) = unat n + (h - b)"
proof -
  have "n + of_nat h - of_nat b = of_nat (unat n + (h - b))" using assms(2) by (simp add: of_nat_diff)
  moreover have "unat n + (h - b) < 2 ^ 64" using assms(3,4) small_power [OF assms(1)] by simp
  ultimately show ?thesis by (simp only: unat_of_nat) (simp add: take_bit_nat_eq_self)
qed

lemma buffer_store:
  assumes q: "buffer_at k q t xs" and i: "length xs + i < 2 ^ k"
    and q': "q' = q\<lparr> rb_buffer := (rb_buffer q)[(t + length xs + i) mod 2 ^ k := x] \<rparr>"
  shows "buffer_at k q' t xs" "copied k q (t + length xs) bytes i \<Longrightarrow> bytes ! i = x \<Longrightarrow> copied k q' (t + length xs) bytes (Suc i)"
proof -
  have l: "length (rb_buffer q) = 2 ^ k" using q by (simp add: buffer_at_def)
  have w: "(t + length xs + i) mod 2 ^ k \<noteq> (t + j) mod 2 ^ k" if "j < length xs + i" for j
  proof -
    have "t + j < t + length xs + i" "t + length xs + i - (t + j) < 2 ^ k" using that i by linarith+
    then show ?thesis by (rule mod_window [THEN not_sym])
  qed
  then have "(t + length xs + i) mod 2 ^ k \<noteq> (t + j) mod 2 ^ k" if "j < length xs" for j using that by simp
  then show "buffer_at k q' t xs" using q by (auto simp: buffer_at_def q')
  show "copied k q' (t + length xs) bytes (Suc i)" if c: "copied k q (t + length xs) bytes i" "bytes ! i = x"
    unfolding copied_def
  proof (intro allI impI)
    fix j
    assume "j < Suc i"
    then consider "j = i" | "j < i" by linarith
    then show "rb_buffer q' ! ((t + length xs + j) mod 2 ^ k) = bytes ! j"
    proof cases
      case 1
      then show ?thesis using c(2) l by (simp add: q')
    next
      case 2
      then have "(t + length xs + i) mod 2 ^ k \<noteq> (t + length xs + j) mod 2 ^ k" using w [of "length xs + j"] by (simp add: add.assoc)
      then show ?thesis using c(1) 2 by (simp add: q' copied_def)
    qed
  qed
qed

lemma filler_step:
  assumes q: "buffer_at k q t xs" and p: "filler_ok k q t xs p" and s: "Buffer_Enqueue_step q p = (q', r)"
  shows "buffer_at k q' t (xs @ published p)" "pred_option (filler_ok k q' t (xs @ published p)) (case r of Inl p' \<Rightarrow> Some p' | Inr b \<Rightarrow> None)"
    "drainer_ok q t xs c \<Longrightarrow> drainer_ok q' t (xs @ published p) c"
proof -
  have k: "k < 63" "rb_capacity q = 2 ^ k" "rb_head q = of_nat (t + length xs)" "rb_tail q = of_nat t" "length xs \<le> 2 ^ k" using q by (auto simp: buffer_at_def)
  have c64: "unat (2 ^ k :: u64) = 2 ^ k" using k(1) by (simp add: unat_pow2)
  have "buffer_at k q' t (xs @ published p) \<and> pred_option (filler_ok k q' t (xs @ published p)) (case r of Inl p' \<Rightarrow> Some p' | Inr b \<Rightarrow> None) \<and>
    (drainer_ok q t xs c \<longrightarrow> drainer_ok q' t (xs @ published p) c)"
  proof (cases p)
    case (BEStart data n)
    then show ?thesis using q p s k(2) c64 by (auto simp: word_less_nat_alt not_less split: if_splits option.splits)
  next
    case (BELoadHead bytes n)
    then show ?thesis using q p s by auto
  next
    case (BELoadTail bytes n head)
    have e: "unat (n + rb_head q - rb_tail q) = unat n + length xs" using sum_words [of k t "t + length xs" n] k p BELoadTail by simp
    show ?thesis
    proof (cases "n + head - rb_tail q > rb_capacity q")
      case True
      then show ?thesis using q s BELoadTail by auto
    next
      case False
      then have "unat n + length xs \<le> 2 ^ k" using e k(2) c64 p BELoadTail by (simp add: word_less_nat_alt not_less)
      then have "\<exists>b \<le> t. rb_tail q = of_nat b \<and> t + length xs - b + unat n \<le> 2 ^ k" using k(4) by (intro exI [of _ t]) simp
      moreover have "q' = q" "r = Inl (BECopy bytes n head (rb_tail q) 0)" using s False BELoadTail by auto
      ultimately show ?thesis using q p unfolding BELoadTail by (simp add: copied_def)
    qed
  next
    case (BECopy bytes n head tail i)
    then obtain b where b: "b \<le> t" "tail = of_nat b" "t + length xs - b + unat n \<le> 2 ^ k" using p by auto
    show ?thesis
    proof (cases "i < unat n")
      case True
      have h: "head = of_nat (t + length xs)" using p BECopy k(3) by simp
      have "copy_index q head tail n i = (t + length xs + i) mod 2 ^ k" unfolding h b(2) by (rule copy_index_producer [OF q b(1,3) True])
      then have q': "q' = q\<lparr> rb_buffer := (rb_buffer q)[(t + length xs + i) mod 2 ^ k := bytes ! i] \<rparr>" "r = Inl (BECopy bytes n head tail (Suc i))"
        using s BECopy True by auto
      have "length xs + i < 2 ^ k" using b True by simp
      note B = buffer_store [OF q this q'(1)]
      have "copied k q' (t + length xs) bytes (Suc i)" using B(2) p BECopy by simp
      moreover have "rb_head q' = rb_head q" "rb_tail q' = rb_tail q" by (simp_all add: q'(1))
      ultimately show ?thesis using B(1) p BECopy b True q'(2) by (cases c) auto
    next
      case False
      then have "length xs + unat n \<le> 2 ^ k" using b by simp
      then show ?thesis using False q p s BECopy by auto
    qed
  next
    case (BEStoreHead bytes n head)
    then have b: "length bytes = unat n" "length xs + unat n \<le> 2 ^ k" "copied k q (t + length xs) bytes (unat n)" and q': "q' = q\<lparr> rb_head := rb_head q + n \<rparr>" "r = Inr True"
      using p s by auto
    have "rb_head q + n = of_nat (t + length (xs @ bytes))" using k(3) b(1) by simp
    moreover have "rb_buffer q ! ((t + i) mod 2 ^ k) = (xs @ bytes) ! i" if "i < length (xs @ bytes)" for i
    proof (cases "i < length xs")
      case True
      then show ?thesis using q by (simp add: buffer_at_def nth_append)
    next
      case False
      then have i: "i - length xs < unat n" "t + length xs + (i - length xs) = t + i" using that b(1) by simp_all
      then have "rb_buffer q ! ((t + length xs + (i - length xs)) mod 2 ^ k) = bytes ! (i - length xs)" using b(3) unfolding copied_def by blast
      then show ?thesis unfolding i(2) using False by (simp add: nth_append)
    qed
    ultimately have "buffer_at k q' t (xs @ bytes)" using q b unfolding buffer_at_def q' by simp
    moreover have "drainer_ok q t xs c \<longrightarrow> drainer_ok q' t (xs @ bytes) c"
    proof (cases c)
      case (BDCopy m tail head data)
      have "\<exists>h \<le> t + length (xs @ bytes). head = of_nat h \<and> t + unat m \<le> h" if "\<exists>h \<le> t + length xs. head = of_nat h \<and> t + unat m \<le> h"
        using that by (metis add.assoc length_append trans_le_add1)
      then show ?thesis using BDCopy by (auto simp: q' simp del: length_append)
    qed (auto simp: q')
    ultimately show ?thesis using q'(2) BEStoreHead by simp
  qed
  then show "buffer_at k q' t (xs @ published p)" "pred_option (filler_ok k q' t (xs @ published p)) (case r of Inl p' \<Rightarrow> Some p' | Inr b \<Rightarrow> None)"
    "drainer_ok q t xs c \<Longrightarrow> drainer_ok q' t (xs @ published p) c" by blast+
qed

lemma drainer_run:
  assumes q: "buffer_at k q t xs" and c: "drainer_ok q t xs c" and s: "Buffer_Dequeue_step q c = (q', Inl c')"
  shows "q' = q" "drainer_ok q t xs c'"
proof -
  have k: "k < 63" "rb_head q = of_nat (t + length xs)" "rb_tail q = of_nat t" "length xs \<le> 2 ^ k" using q by (auto simp: buffer_at_def)
  have "q' = q \<and> drainer_ok q t xs c'"
  proof (cases c)
    case (BDLoadHead n tail)
    have a: "unat (rb_head q - rb_tail q) = length xs"
      using sum_words [of k t "t + length xs" 0] k by simp
    let ?n = "if n > rb_head q - tail then rb_head q - tail else n"
    have "unat ?n \<le> length xs" using a c BDLoadHead by (auto simp: word_less_nat_alt)
    then have "\<exists>h \<le> t + length xs. rb_head q = of_nat h \<and> t + unat ?n \<le> h" using k(2) by (intro exI [of _ "t + length xs"]) simp
    then show ?thesis using s c BDLoadHead by (auto simp: Let_def split: if_splits)
  next
    case (BDCopy n tail head data)
    then obtain h where h: "h \<le> t + length xs" "head = of_nat h" "t + unat n \<le> h" using c by auto
    show ?thesis
    proof (cases "length data < unat n")
      case True
      have ta: "tail = of_nat t" using c BDCopy k(3) by simp
      have "copy_index q tail head n (length data) = (t + length data) mod 2 ^ k" unfolding ta h(2) by (rule copy_index_consumer [OF q h(3,1) True])
      moreover have l: "length data < length xs" using True h by simp
      ultimately have e: "rb_buffer q ! copy_index q tail head n (length data) = xs ! length data" using q by (simp add: buffer_at_def)
      have "data @ [xs ! length data] = take (Suc (length data)) xs" using c BDCopy l by (simp add: take_Suc_conv_app_nth)
      then show ?thesis using s c BDCopy True e h by auto
    next
      case False
      then show ?thesis using s c BDCopy by auto
    qed
  qed (use s c in \<open>auto split: if_splits\<close>)
  then show "q' = q" "drainer_ok q t xs c'" by blast+
qed

lemma drainer_return:
  assumes q: "buffer_at k q t xs" and c: "drainer_ok q t xs c" and s: "Buffer_Dequeue_step q c = (q', Inr (b, data))"
  shows "\<exists>ys. xs = data @ ys \<and> buffer_at k q' (t + length data) ys \<and> (\<forall>p. filler_ok k q t xs p \<longrightarrow> filler_ok k q' (t + length data) ys p) \<and>
    (\<not> b \<longrightarrow> xs = [] \<or> (\<exists>n. c = BDStart False n))"
proof (cases c)
  case (BDStoreTail n tail acc)
  then have d: "data = acc" "b" "q' = q\<lparr> rb_tail := tail + n \<rparr>" "tail = of_nat t" "length data = unat n" "data = take (unat n) xs"
    using s c q by (auto simp: buffer_at_def)
  define ys where "ys = drop (unat n) xs"
  have x: "xs = data @ ys" using d(6) by (simp add: ys_def)
  have "rb_buffer q ! ((t + length data + i) mod 2 ^ k) = ys ! i" if "i < length ys" for i
  proof -
    have "rb_buffer q ! ((t + (length data + i)) mod 2 ^ k) = xs ! (length data + i)" using q that x unfolding buffer_at_def by auto
    then show ?thesis using x by (simp add: add.assoc)
  qed
  moreover have "tail + n = of_nat (t + length data)" using d(4,5) by simp
  ultimately have "buffer_at k q' (t + length data) ys" using q x unfolding buffer_at_def d(3) by (auto simp: add.assoc)
  moreover have "filler_ok k q t xs p \<longrightarrow> filler_ok k q' (t + length data) ys p" for p
  proof (cases p)
    case (BECopy bytes m head tl i)
    then show ?thesis using x by (auto simp: d(3) copied_def add.assoc intro: trans_le_add1)
  next
    case (BEStoreHead bytes m head)
    then show ?thesis using x by (auto simp: d(3) copied_def add.assoc)
  qed (auto simp: d(3))
  ultimately show ?thesis using x d(2) by blast
next
  case (BDLoadHead n tail)
  have k: "k < 63" "rb_head q = of_nat (t + length xs)" "rb_tail q = of_nat t" "length xs \<le> 2 ^ k" using q by (auto simp: buffer_at_def)
  have a: "unat (rb_head q - rb_tail q) = length xs" using sum_words [of k t "t + length xs" 0] k by simp
  have "rb_head q - tail = 0" "b = False" "data = []" "q' = q" using s c BDLoadHead by (auto simp: Let_def split: if_splits)
  then have "xs = []" using a c BDLoadHead by simp
  then show ?thesis using q \<open>data = []\<close> \<open>q' = q\<close> by simp
qed (use s q in \<open>auto split: if_splits\<close>)

lemma buffer_inv_step: "buffer_step s s' \<Longrightarrow> buffer_inv k s \<Longrightarrow> buffer_inv k s'"
proof (induction rule: buffer_step.induct)
  case (run_Buffer_Enqueue s p q r)
  then obtain xs where x: "bf_enqueued s = bf_dequeued s @ xs" "buffer_at k (bf_buffer s) (length (bf_dequeued s)) xs"
    "filler_ok k (bf_buffer s) (length (bf_dequeued s)) xs p" "pred_option (drainer_ok (bf_buffer s) (length (bf_dequeued s)) xs) (bf_consumer s)"
    by (auto simp: buffer_inv_def)
  note F = filler_step [OF x(2,3) run_Buffer_Enqueue.hyps(2)]
  have "pred_option (drainer_ok q (length (bf_dequeued s)) (xs @ published p)) (bf_consumer s)" using x(4) F(3) by (cases "bf_consumer s") simp_all
  then show ?case using x(1) F(1,2) unfolding buffer_inv_def by (intro exI [of _ "xs @ published p"]) simp
next
  case (run_Buffer_Dequeue s c q c')
  then obtain xs where x: "bf_enqueued s = bf_dequeued s @ xs" "buffer_at k (bf_buffer s) (length (bf_dequeued s)) xs"
    "pred_option (filler_ok k (bf_buffer s) (length (bf_dequeued s)) xs) (bf_producer s)" "drainer_ok (bf_buffer s) (length (bf_dequeued s)) xs c"
    by (auto simp: buffer_inv_def)
  then show ?case using drainer_run [OF x(2,4) run_Buffer_Dequeue.hyps(2)] by (auto simp: buffer_inv_def)
next
  case (return_Buffer_Dequeue s c q b data)
  then obtain xs where x: "bf_enqueued s = bf_dequeued s @ xs" "buffer_at k (bf_buffer s) (length (bf_dequeued s)) xs"
    "pred_option (filler_ok k (bf_buffer s) (length (bf_dequeued s)) xs) (bf_producer s)" "drainer_ok (bf_buffer s) (length (bf_dequeued s)) xs c"
    by (auto simp: buffer_inv_def)
  obtain ys where y: "xs = data @ ys" "buffer_at k q (length (bf_dequeued s) + length data) ys"
    "\<forall>p. filler_ok k (bf_buffer s) (length (bf_dequeued s)) xs p \<longrightarrow> filler_ok k q (length (bf_dequeued s) + length data) ys p"
    using drainer_return [OF x(2,4) return_Buffer_Dequeue.hyps(2)] by blast
  have "pred_option (filler_ok k q (length (bf_dequeued s) + length data) ys) (bf_producer s)" using x(3) y(3) by (cases "bf_producer s") simp_all
  then show ?case using x(1) y(1,2) by (simp add: buffer_inv_def)
qed (auto simp: buffer_inv_def)

interpretation ring_buffer: step_invariant "buffer_start capacity" buffer_step "\<lambda>s. \<forall>k. ring_size capacity k \<longrightarrow> k < 63 \<longrightarrow> buffer_inv k s"
proof
  show "buffer_start capacity s \<Longrightarrow> \<forall>k. ring_size capacity k \<longrightarrow> k < 63 \<longrightarrow> buffer_inv k s" for s
  proof (intro allI impI)
    fix k
    assume s: "buffer_start capacity s" and k: "ring_size capacity k" "k < 63"
    have c: "capacity = 2 ^ k" using k(1) by (simp add: ring_size_def)
    have "buffer_at k (SPSCRingBuffer capacity) 0 []"
      using ring_size_mask [OF k(1)] k(2) c unfolding buffer_at_def SPSCRingBuffer_def by simp
    then show "buffer_inv k s" using s by (simp add: buffer_start_def buffer_inv_def)
  qed
qed (auto intro: buffer_inv_step)

subsection \<open>Properties\<close>

text \<open>
  C38. The byte buffer under every interleaving of one producer and one consumer, with the two parts of a block copied
  byte by byte and cursors that wrap around: the bytes dequeued are a prefix of the bytes enqueued, the rest is what
  \<^verbatim>\<open>size\<close> counts and fits into the buffer, every byte is copied inside the buffer, and \<^verbatim>\<open>Dequeue\<close> with a valid pointer
  fails only when the buffer is empty. The capacity is a power of two of at most \<open>2 ^ 62\<close>.
\<close>

theorem SPSCRingBuffer_fifo:
  assumes "ring_size capacity k" and "k < 63" and "reach (buffer_start capacity) buffer_step s"
  shows "\<exists>xs. bf_enqueued s = bf_dequeued s @ xs \<and> unat (Buffer_size (bf_buffer s)) = length xs \<and> length xs \<le> unat capacity \<and>
    (\<forall>bytes n head tail i. bf_producer s = Some (BECopy bytes n head tail i) \<longrightarrow> i < unat n \<longrightarrow>
       copy_index (bf_buffer s) head tail n i < length (rb_buffer (bf_buffer s)) \<and> i < length bytes) \<and>
    (\<forall>n tail head data. bf_consumer s = Some (BDCopy n tail head data) \<longrightarrow> length data < unat n \<longrightarrow>
       copy_index (bf_buffer s) tail head n (length data) < length (rb_buffer (bf_buffer s))) \<and>
    (\<forall>c q data. bf_consumer s = Some c \<longrightarrow> Buffer_Dequeue_step (bf_buffer s) c = (q, Inr (False, data)) \<longrightarrow>
       xs = [] \<or> (\<exists>n. c = BDStart False n))"
proof -
  let ?q = "bf_buffer s" and ?t = "length (bf_dequeued s)"
  have "buffer_inv k s" using ring_buffer.reach_inv [OF assms(3)] assms(1,2) by blast
  then obtain xs where x: "bf_enqueued s = bf_dequeued s @ xs" "buffer_at k ?q ?t xs"
    "pred_option (filler_ok k ?q ?t xs) (bf_producer s)" "pred_option (drainer_ok ?q ?t xs) (bf_consumer s)"
    by (auto simp: buffer_inv_def)
  have k: "rb_head ?q = of_nat (?t + length xs)" "rb_tail ?q = of_nat ?t" "length xs \<le> 2 ^ k" "length (rb_buffer ?q) = 2 ^ k" using x(2) by (auto simp: buffer_at_def)
  have m: "j mod 2 ^ k < length (rb_buffer ?q)" for j by (simp add: k(4))
  show ?thesis
  proof (intro exI [of _ xs] conjI allI impI)
    show "unat (Buffer_size ?q) = length xs" using sum_words [of k ?t "?t + length xs" 0] k assms(2) by (simp add: Buffer_size_def)
    show "length xs \<le> unat capacity" using k(3) ring_size_mask(2) [OF assms(1)] by simp
    show "copy_index ?q head tail n i < length (rb_buffer ?q)" "i < length bytes" if "bf_producer s = Some (BECopy bytes n head tail i)" "i < unat n" for bytes n head tail i
    proof -
      have f: "length bytes = unat n" "head = rb_head ?q" "\<exists>b \<le> ?t. tail = of_nat b \<and> ?t + length xs - b + unat n \<le> 2 ^ k" using x(3) that(1) by auto
      then obtain b where "b \<le> ?t" "tail = of_nat b" "?t + length xs - b + unat n \<le> 2 ^ k" by blast
      then show "copy_index ?q head tail n i < length (rb_buffer ?q)" using copy_index_producer [OF x(2), of b n i] that(2) f(2) k(1) m by simp
      show "i < length bytes" using f that by simp
    qed
    show "copy_index ?q tail head n (length data) < length (rb_buffer ?q)" if "bf_consumer s = Some (BDCopy n tail head data)" "length data < unat n" for n tail head data
    proof -
      have f: "tail = rb_tail ?q" "\<exists>h \<le> ?t + length xs. head = of_nat h \<and> ?t + unat n \<le> h" using x(4) that(1) by auto
      then obtain h where "h \<le> ?t + length xs" "head = of_nat h" "?t + unat n \<le> h" by blast
      then show ?thesis using copy_index_consumer [OF x(2), of n h "length data"] that(2) f(1) k(2) m by simp
    qed
    show "xs = [] \<or> (\<exists>n. c = BDStart False n)" if "bf_consumer s = Some c" "Buffer_Dequeue_step ?q c = (q, Inr (False, data))" for c q data
      using drainer_return [OF x(2) _ that(2)] x(4) that(1) by auto
  qed (rule x(1))
qed

theorem SPSCRingBuffer_fifo_witness:
  "\<exists>s. reach (buffer_start 8) buffer_step s \<and> bf_enqueued s = [1, 2] \<and> unat (Buffer_size (bf_buffer s)) = 2"
proof -
  define st where "st q p e = \<lparr> bf_buffer = q, bf_producer = p, bf_consumer = None, bf_enqueued = e, bf_dequeued = [] \<rparr>" for q p e
  let ?R = "reach (buffer_start 8) buffer_step"
  have call: "?R (st q None e) \<Longrightarrow> ?R (st q (Some (BEStart (Some [1, 2]) 2)) e)" for q e
    by (erule reach_step) (use call_Buffer_Enqueue [of "st q None e" "Some [1, 2]" 2] in \<open>simp add: st_def\<close>)
  have run: "?R (st q (Some p) e) \<Longrightarrow> ?R (st (fst (Buffer_Enqueue_step q p)) (case snd (Buffer_Enqueue_step q p) of Inl p' \<Rightarrow> Some p' | Inr b \<Rightarrow> None) (e @ published p))" for q p e
    by (erule reach_step) (use run_Buffer_Enqueue [of "st q (Some p) e" p "fst (Buffer_Enqueue_step q p)" "snd (Buffer_Enqueue_step q p)"] in \<open>simp add: st_def\<close>)
  define q where "q = SPSCRingBuffer 8"
  have q: "rb_capacity q = 8" "rb_head q = 0" "rb_tail q = 0" by (simp_all add: q_def SPSCRingBuffer_def)
  have "?R (st q None [])" by (rule reach_start) (simp add: st_def buffer_start_def q_def)
  from run [OF call [OF this]] have "?R (st q (Some (BELoadHead [1, 2] 2)) [])" using q by simp
  from run [OF this] have "?R (st q (Some (BELoadTail [1, 2] 2 0)) [])" using q by simp
  from run [OF this] have "?R (st q (Some (BECopy [1, 2] 2 0 0 0)) [])" using q by simp
  from run [OF this] have "\<exists>q. ?R (st q (Some (BECopy [1, 2] 2 0 0 1)) [])" by auto
  then obtain q1 where "?R (st q1 (Some (BECopy [1, 2] 2 0 0 1)) [])" by blast
  from run [OF this] have "\<exists>q. ?R (st q (Some (BECopy [1, 2] 2 0 0 (Suc (Suc 0)))) [])" by auto
  then obtain q2 where "?R (st q2 (Some (BECopy [1, 2] 2 0 0 (Suc (Suc 0)))) [])" by blast
  from run [OF this] have "?R (st q2 (Some (BEStoreHead [1, 2] 2 0)) [])" by simp
  from run [OF this] have "\<exists>q. ?R (st q None [1, 2])" by auto
  then obtain q3 where r: "?R (st q3 None [1, 2])" by blast
  have "ring_size 8 3" "(3 :: nat) < 63" by (simp_all add: ring_size_def)
  from SPSCRingBuffer_fifo [OF this r] show ?thesis using r by (intro exI [of _ "st q3 None [1, 2]"]) (auto simp: st_def)
qed

end
