(* ===== verification/Monitor.thy ===== *)
theory Monitor
  imports Interleaving
begin

text \<open>
  Bounded buffers as monitors: a critical section, a condition variable for the consumers and one for the producers
  (\<^verbatim>\<open>include/threads/condition_variable.inl\<close>). A thread runs its operation up to its end or to the point where it
  waits as one step, because it holds the critical section; a waiting thread is woken by a notification, or for no
  reason, and then competes for the critical section again to test its condition. The contract of the operations is
  a locale; the wait queue and the wait ring interpret it.
\<close>

subsection \<open>Sections and notifications\<close>

text \<open>A section of an operation ends with a result or with a call that waits on the condition variable.\<close>

datatype 'r segment = Returned 'r | Waits

datatype 'a waiter = Idle | Sending 'a | SendWoken 'a | Receiving | RecvWoken

fun wake :: "'a waiter \<Rightarrow> 'a waiter" where
  "wake (Sending x) = SendWoken x"
| "wake Receiving = RecvWoken"
| "wake t = t"

fun is_sending :: "'a waiter \<Rightarrow> bool" where
  "is_sending (Sending x) = True"
| "is_sending _ = False"

fun send_woken :: "'a waiter \<Rightarrow> bool" where
  "send_woken (SendWoken x) = True"
| "send_woken _ = False"

text \<open>\<^verbatim>\<open>NotifyOne\<close> wakes one of the threads that wait, if there is one; \<^verbatim>\<open>NotifyAll\<close> wakes all.\<close>

definition notify_one :: "('a waiter \<Rightarrow> bool) \<Rightarrow> (nat \<Rightarrow> 'a waiter) \<Rightarrow> (nat \<Rightarrow> 'a waiter) \<Rightarrow> bool" where
  "notify_one P T T' \<longleftrightarrow> (\<exists>j. P (T j) \<and> T' = T(j := wake (T j))) \<or> (\<forall>j. \<not> P (T j)) \<and> T' = T"

definition notify_all :: "(nat \<Rightarrow> 'a waiter) \<Rightarrow> nat \<Rightarrow> 'a waiter" where
  "notify_all T = (\<lambda>i. wake (T i))"

text \<open>The operations of a buffer, as its class provides them.\<close>

record ('w, 'a) monitor_ops =
  op_send_enter :: "'w \<Rightarrow> 'a \<Rightarrow> 'w \<times> bool segment"
  op_send_woken :: "'w \<Rightarrow> 'a \<Rightarrow> 'w \<times> bool segment"
  op_receive_enter :: "'w \<Rightarrow> 'w \<times> 'a option segment"
  op_receive_woken :: "'w \<Rightarrow> 'w \<times> 'a option segment"
  op_close :: "'w \<Rightarrow> 'w"

record ('w, 'a) monitor_system =
  mn_buffer :: 'w
  mn_threads :: "nat \<Rightarrow> 'a waiter"
  mn_sent :: "'a list"
  mn_received :: "'a list"

text \<open>The sections a thread can run: the first one of a call, or the one after it was woken.\<close>

definition send_section :: "('w, 'a) monitor_ops \<Rightarrow> 'w \<Rightarrow> 'a waiter \<Rightarrow> 'a \<Rightarrow> 'w \<times> bool segment \<Rightarrow> bool" where
  "send_section B w t x r \<longleftrightarrow> t = Idle \<and> r = op_send_enter B w x \<or> t = SendWoken x \<and> r = op_send_woken B w x"

definition receive_section :: "('w, 'a) monitor_ops \<Rightarrow> 'w \<Rightarrow> 'a waiter \<Rightarrow> 'w \<times> 'a option segment \<Rightarrow> bool" where
  "receive_section B w t r \<longleftrightarrow> t = Idle \<and> r = op_receive_enter B w \<or> t = RecvWoken \<and> r = op_receive_woken B w"

inductive monitor_step :: "('w, 'a) monitor_ops \<Rightarrow> ('w, 'a) monitor_system \<Rightarrow> ('w, 'a) monitor_system \<Rightarrow> bool" for B where
  send_waits: "send_section B (mn_buffer s) (mn_threads s i) x (w, Waits) \<Longrightarrow>
    monitor_step B s (s\<lparr> mn_buffer := w, mn_threads := (mn_threads s)(i := Sending x) \<rparr>)"
| send_refused: "send_section B (mn_buffer s) (mn_threads s i) x (w, Returned False) \<Longrightarrow>
    monitor_step B s (s\<lparr> mn_buffer := w, mn_threads := (mn_threads s)(i := Idle) \<rparr>)"
| send_done: "send_section B (mn_buffer s) (mn_threads s i) x (w, Returned True) \<Longrightarrow>
    notify_one (\<lambda>t. t = Receiving) ((mn_threads s)(i := Idle)) T \<Longrightarrow>
    monitor_step B s (s\<lparr> mn_buffer := w, mn_threads := T, mn_sent := mn_sent s @ [x] \<rparr>)"
| receive_waits: "receive_section B (mn_buffer s) (mn_threads s i) (w, Waits) \<Longrightarrow>
    monitor_step B s (s\<lparr> mn_buffer := w, mn_threads := (mn_threads s)(i := Receiving) \<rparr>)"
| receive_refused: "receive_section B (mn_buffer s) (mn_threads s i) (w, Returned None) \<Longrightarrow>
    monitor_step B s (s\<lparr> mn_buffer := w, mn_threads := (mn_threads s)(i := Idle) \<rparr>)"
| receive_done: "receive_section B (mn_buffer s) (mn_threads s i) (w, Returned (Some x)) \<Longrightarrow>
    notify_one is_sending ((mn_threads s)(i := Idle)) T \<Longrightarrow>
    monitor_step B s (s\<lparr> mn_buffer := w, mn_threads := T, mn_received := mn_received s @ [x] \<rparr>)"
| spurious: "monitor_step B s (s\<lparr> mn_threads := (mn_threads s)(i := wake (mn_threads s i)) \<rparr>)"
| close_all: "monitor_step B s (s\<lparr> mn_buffer := op_close B (mn_buffer s), mn_threads := notify_all (mn_threads s) \<rparr>)"

definition monitor_start :: "'w \<Rightarrow> ('w, 'a) monitor_system \<Rightarrow> bool" where
  "monitor_start w s \<longleftrightarrow> s = \<lparr> mn_buffer = w, mn_threads = (\<lambda>_. Idle), mn_sent = [], mn_received = [] \<rparr>"

subsection \<open>Counting threads\<close>

definition how_many :: "('a waiter \<Rightarrow> bool) \<Rightarrow> (nat \<Rightarrow> 'a waiter) \<Rightarrow> nat" where
  "how_many P T = card {i. P (T i)}"

lemma how_many_update:
  assumes "finite {i. T i \<noteq> Idle}" "\<not> P Idle"
  shows "how_many P (T(i := t)) + (if P (T i) then 1 else 0) = how_many P T + (if P t then 1 else 0)"
proof -
  let ?A = "{j. P (T j)}"
  have "?A \<subseteq> {i. T i \<noteq> Idle}" using assms(2) by auto
  then have f: "finite ?A" using assms(1) finite_subset by blast
  define B where "B = ?A - {i}"
  have B: "finite B" "i \<notin> B" using f by (simp_all add: B_def)
  have "{j. P ((T(i := t)) j)} = (if P t then insert i B else B)" by (auto simp: B_def)
  then have "how_many P (T(i := t)) = card B + (if P t then 1 else 0)" using B by (simp add: how_many_def del: fun_upd_apply)
  moreover have "card B + (if P (T i) then 1 else 0) = how_many P T"
    using card_Suc_Diff1 [OF f, of i] by (cases "P (T i)") (auto simp: how_many_def B_def)
  ultimately show ?thesis by simp
qed

lemma finite_update: "finite {i. T i \<noteq> Idle} \<Longrightarrow> finite {j. (T(i := t)) j \<noteq> Idle}"
  by (rule finite_subset [of _ "insert i {i. T i \<noteq> Idle}"]) auto

lemma wake_simps [simp]: "wake t = Idle \<longleftrightarrow> t = Idle" "wake t \<noteq> Receiving" "\<not> is_sending (wake t)"
  by (cases t; simp)+

lemma send_woken_iff: "send_woken t \<longleftrightarrow> (\<exists>x. t = SendWoken x)"
  by (cases t) auto

lemma is_sending_iff: "is_sending t \<longleftrightarrow> (\<exists>x. t = Sending x)"
  by (cases t) auto

subsection \<open>The contract\<close>

text \<open>\<open>limit\<close> is the number of items that fit, if it is bounded.\<close>

definition room :: "nat option \<Rightarrow> 'a list \<Rightarrow> bool" where
  "room limit xs \<longleftrightarrow> (case limit of None \<Rightarrow> True | Some n \<Rightarrow> length xs < n)"

locale bounded_buffer =
  fixes ops :: "('w, 'a) monitor_ops"
    and start :: 'w
    and limit :: "nat option"
    and ok :: "'w \<Rightarrow> bool"
    and content :: "'w \<Rightarrow> 'a list"
    and closed :: "'w \<Rightarrow> bool"
  assumes start_ok: "ok start" "content start = []" "\<not> closed start"
    and limit_positive: "limit \<noteq> Some 0"
    and send_law: "ok w \<Longrightarrow> f = op_send_enter ops \<or> f = op_send_woken ops \<Longrightarrow> f w x = (w', r) \<Longrightarrow>
      ok w' \<and> closed w' = closed w \<and>
      (if closed w then r = Returned False \<and> content w' = content w
       else if room limit (content w) then r = Returned True \<and> content w' = content w @ [x]
       else r = Waits \<and> content w' = content w)"
    and receive_law: "ok w \<Longrightarrow> g = op_receive_enter ops \<or> g = op_receive_woken ops \<Longrightarrow> g w = (w', v) \<Longrightarrow>
      ok w' \<and> closed w' = closed w \<and>
      (case content w of
         y # ys \<Rightarrow> v = Returned (Some y) \<and> content w' = ys
       | [] \<Rightarrow> content w' = [] \<and> v = (if closed w then Returned None else Waits))"
    and close_law: "ok w \<Longrightarrow> ok (op_close ops w) \<and> closed (op_close ops w) \<and> content (op_close ops w) = content w"
begin

lemma send_at:
  assumes "ok w" "send_section ops w t x (w', r)"
  shows "ok w' \<and> closed w' = closed w \<and>
      (if closed w then r = Returned False \<and> content w' = content w
       else if room limit (content w) then r = Returned True \<and> content w' = content w @ [x]
       else r = Waits \<and> content w' = content w)" "t = Idle \<or> t = SendWoken x"
  using assms send_law [OF assms(1), of "op_send_enter ops" x w' r] send_law [OF assms(1), of "op_send_woken ops" x w' r]
  by (auto simp: send_section_def)

lemma receive_at:
  assumes "ok w" "receive_section ops w t (w', r)"
  shows "ok w' \<and> closed w' = closed w \<and>
      (case content w of
         y # ys \<Rightarrow> r = Returned (Some y) \<and> content w' = ys
       | [] \<Rightarrow> content w' = [] \<and> r = (if closed w then Returned None else Waits))" "t = Idle \<or> t = RecvWoken"
proof -
  have t: "t = Idle \<and> op_receive_enter ops w = (w', r) \<or> t = RecvWoken \<and> op_receive_woken ops w = (w', r)"
    using assms(2) by (auto simp: receive_section_def)
  then show "t = Idle \<or> t = RecvWoken" by blast
  show "ok w' \<and> closed w' = closed w \<and>
      (case content w of
         y # ys \<Rightarrow> r = Returned (Some y) \<and> content w' = ys
       | [] \<Rightarrow> content w' = [] \<and> r = (if closed w then Returned None else Waits))"
    using t receive_law [OF assms(1), of "op_receive_enter ops" w' r] receive_law [OF assms(1), of "op_receive_woken ops" w' r] by blast
qed

text \<open>
  No wake-up is lost: while a consumer waits there are at most as many items as consumers on their way, and while a
  producer waits there are at most as many free places as producers on their way.
\<close>

abbreviation receivers :: "(nat \<Rightarrow> 'a waiter) \<Rightarrow> nat" where
  "receivers T \<equiv> how_many (\<lambda>t. t = RecvWoken) T"

abbreviation senders :: "(nat \<Rightarrow> 'a waiter) \<Rightarrow> nat" where
  "senders T \<equiv> how_many send_woken T"

definition balanced :: "nat \<Rightarrow> bool \<Rightarrow> (nat \<Rightarrow> 'a waiter) \<Rightarrow> bool" where
  "balanced len cl T \<longleftrightarrow> finite {i. T i \<noteq> Idle} \<and> (cl \<longrightarrow> (\<forall>i. T i \<noteq> Receiving \<and> \<not> is_sending (T i))) \<and>
     ((\<exists>i. T i = Receiving) \<longrightarrow> len \<le> receivers T) \<and>
     ((\<exists>i. is_sending (T i)) \<longrightarrow> (\<exists>n. limit = Some n \<and> n \<le> len + senders T))"

definition monitor_inv :: "('w, 'a) monitor_system \<Rightarrow> bool" where
  "monitor_inv s \<longleftrightarrow> ok (mn_buffer s) \<and> mn_sent s = mn_received s @ content (mn_buffer s) \<and>
     (\<forall>n. limit = Some n \<longrightarrow> length (content (mn_buffer s)) \<le> n) \<and>
     balanced (length (content (mn_buffer s))) (closed (mn_buffer s)) (mn_threads s)"

lemma balanced_finite: "balanced len cl T \<Longrightarrow> finite {i. T i \<noteq> Idle}"
  by (simp add: balanced_def)

lemma balanced_sending:
  assumes "balanced len cl T" "\<exists>i. is_sending (T i)"
  obtains n where "limit = Some n" "n \<le> len + senders T"
proof -
  have "(\<exists>i. is_sending (T i)) \<longrightarrow> (\<exists>n. limit = Some n \<and> n \<le> len + senders T)" using assms(1) unfolding balanced_def by (elim conjE)
  then show thesis using assms(2) that by blast
qed

lemma balanced_send_waits:
  assumes b: "balanced len False T" and t: "T i = Idle \<or> T i = SendWoken x" and r: "\<not> room limit xs" "len = length xs"
  shows "balanced len False (T(i := Sending x))"
proof -
  note f = balanced_finite [OF b]
  obtain n where n: "limit = Some n" "n \<le> len" using r by (auto simp: room_def split: option.splits)
  have "receivers (T(i := Sending x)) = receivers T" using how_many_update [OF f, of "\<lambda>t. t = RecvWoken" i "Sending x"] t by auto
  moreover have "\<exists>j. T j = Receiving" if "\<exists>j. (T(i := Sending x)) j = Receiving" using that by (auto split: if_splits)
  ultimately show ?thesis using b n finite_update [OF f] unfolding balanced_def by auto
qed

lemma balanced_refused:
  assumes b: "balanced len True T"
  shows "balanced len True (T(i := Idle))"
  using b finite_update [OF balanced_finite [OF b]] unfolding balanced_def by (auto split: if_splits)

lemma balanced_send_done:
  assumes b: "balanced len False T" and t: "T i = Idle \<or> T i = SendWoken x" and n: "notify_one (\<lambda>t. t = Receiving) (T(i := Idle)) T'"
  shows "balanced (Suc len) False T'"
proof -
  let ?T = "T(i := Idle)"
  note f = balanced_finite [OF b] and f1 = finite_update [OF balanced_finite [OF b], of i Idle]
  have r: "receivers ?T = receivers T" using how_many_update [OF f, of "\<lambda>t. t = RecvWoken" i Idle] t by auto
  have s: "senders T \<le> Suc (senders ?T)" using how_many_update [OF f, of send_woken i Idle] by (auto split: if_splits)
  have w: "\<exists>j. T j = Receiving" if "\<exists>j. ?T j = Receiving" using that by (auto split: if_splits)
  have se: "\<exists>j. is_sending (T j)" if "\<exists>j. is_sending (?T j)" using that by (auto split: if_splits)
  have nn: "\<exists>n. limit = Some n \<and> n \<le> Suc len + senders ?T" if "\<exists>j. is_sending (?T j)" using balanced_sending [OF b se [OF that]] s by fastforce
  show ?thesis
  proof (cases "\<exists>j. ?T j = Receiving")
    case True
    then obtain j where j: "?T j = Receiving" "T' = ?T(j := RecvWoken)" using n unfolding notify_one_def by fastforce
    have "receivers T' = Suc (receivers ?T)" using how_many_update [OF f1, of "\<lambda>t. t = RecvWoken" j RecvWoken] j by (simp del: fun_upd_apply)
    moreover have "senders T' = senders ?T" using how_many_update [OF f1, of send_woken j RecvWoken] j by (simp del: fun_upd_apply)
    moreover have "\<exists>j. is_sending (?T j)" if "\<exists>k. is_sending (T' k)" using that j by (auto split: if_splits)
    moreover have "len \<le> receivers T" using b w [OF True] unfolding balanced_def by blast
    ultimately show ?thesis using nn r finite_update [OF f1, of j RecvWoken] unfolding balanced_def j(2) [symmetric] by auto
  next
    case False
    then have "T' = ?T" using n unfolding notify_one_def by blast
    then show ?thesis using False nn f1 unfolding balanced_def by auto
  qed
qed

lemma balanced_receive_waits:
  assumes b: "balanced 0 False T" and t: "T i = Idle \<or> T i = RecvWoken"
  shows "balanced 0 False (T(i := Receiving))"
proof -
  note f = balanced_finite [OF b]
  have "senders (T(i := Receiving)) = senders T" using how_many_update [OF f, of send_woken i Receiving] t by auto
  moreover have "\<exists>j. is_sending (T j)" if "\<exists>j. is_sending ((T(i := Receiving)) j)" using that by (auto split: if_splits)
  ultimately show ?thesis using b finite_update [OF f, of i Receiving] unfolding balanced_def by auto
qed

lemma balanced_receive_done:
  assumes b: "balanced (Suc len) cl T" and t: "T i = Idle \<or> T i = RecvWoken" and n: "notify_one is_sending (T(i := Idle)) T'"
  shows "balanced len cl T'"
proof -
  let ?T = "T(i := Idle)"
  note f = balanced_finite [OF b] and f1 = finite_update [OF balanced_finite [OF b], of i Idle]
  have s: "senders ?T = senders T" using how_many_update [OF f, of send_woken i Idle] t by auto
  have r: "receivers T \<le> Suc (receivers ?T)" using how_many_update [OF f, of "\<lambda>t. t = RecvWoken" i Idle] by (auto split: if_splits)
  have w: "\<exists>j. T j = Receiving" if "\<exists>j. ?T j = Receiving" using that by (auto split: if_splits)
  have se: "\<exists>j. is_sending (T j)" if "\<exists>j. is_sending (?T j)" using that by (auto split: if_splits)
  have cl: "cl \<longrightarrow> (\<forall>i. ?T i \<noteq> Receiving \<and> \<not> is_sending (?T i))" using b unfolding balanced_def by auto
  have lr: "len \<le> receivers ?T" if "\<exists>j. ?T j = Receiving" using b w [OF that] r unfolding balanced_def by fastforce
  show ?thesis
  proof (cases "\<exists>j. is_sending (?T j)")
    case True
    then obtain j where j: "is_sending (?T j)" "T' = ?T(j := wake (?T j))" using n unfolding notify_one_def by blast
    have k: "send_woken (wake (?T j))" "wake (?T j) \<noteq> RecvWoken" "\<not> send_woken (?T j)" "?T j \<noteq> RecvWoken" using j(1) by (cases "?T j"; simp)+
    have "senders T' = Suc (senders ?T)" using how_many_update [OF f1, of send_woken j "wake (?T j)"] k unfolding j(2) by (simp del: fun_upd_apply)
    moreover have "receivers T' = receivers ?T" using how_many_update [OF f1, of "\<lambda>t. t = RecvWoken" j "wake (?T j)"] k unfolding j(2) by (simp del: fun_upd_apply)
    moreover have "\<exists>k. ?T k = Receiving" if "\<exists>k. T' k = Receiving" using that wake_simps(2) unfolding j(2) by (metis fun_upd_apply)
    moreover obtain n where "limit = Some n" "n \<le> Suc len + senders T" by (rule balanced_sending [OF b se [OF True]])
    moreover have "cl \<longrightarrow> (\<forall>k. T' k \<noteq> Receiving \<and> \<not> is_sending (T' k))" using cl True by blast
    ultimately show ?thesis using lr s finite_update [OF f1, of j "wake (?T j)"] unfolding balanced_def j(2) [symmetric] by auto
  next
    case False
    then have "T' = ?T" using n unfolding notify_one_def by blast
    then show ?thesis using False lr f1 cl unfolding balanced_def by auto
  qed
qed

lemma balanced_wake:
  assumes b: "balanced len cl T"
  shows "balanced len cl (T(i := wake (T i)))"
proof -
  note f = balanced_finite [OF b]
  let ?T = "T(i := wake (T i))"
  have "receivers T \<le> receivers ?T" using how_many_update [OF f, of "\<lambda>t. t = RecvWoken" i "wake (T i)"] by (cases "T i") auto
  moreover have "senders T \<le> senders ?T" using how_many_update [OF f, of send_woken i "wake (T i)"] by (cases "T i") auto
  moreover have "\<exists>j. T j = Receiving" if "\<exists>j. ?T j = Receiving" using that wake_simps(2) by (metis fun_upd_apply)
  moreover have "\<exists>j. is_sending (T j)" if "\<exists>j. is_sending (?T j)" using that wake_simps(3) by (metis fun_upd_apply)
  moreover have "cl \<longrightarrow> (\<forall>j. ?T j \<noteq> Receiving \<and> \<not> is_sending (?T j))" using b unfolding balanced_def by auto
  moreover have "\<exists>n. limit = Some n \<and> n \<le> len + senders ?T" if a: "\<exists>j. is_sending (T j)"
  proof -
    obtain n where "limit = Some n" "n \<le> len + senders T" by (rule balanced_sending [OF b a])
    then show ?thesis using \<open>senders T \<le> senders ?T\<close> by auto
  qed
  moreover have "len \<le> receivers T" if "\<exists>j. T j = Receiving" using b that unfolding balanced_def by blast
  ultimately show ?thesis using finite_update [OF f, of i "wake (T i)"] unfolding balanced_def by (meson le_trans)
qed

lemma balanced_close: "balanced len cl T \<Longrightarrow> balanced len True (notify_all T)"
  unfolding balanced_def notify_all_def by simp

lemma monitor_inv_step: "monitor_step ops s s' \<Longrightarrow> monitor_inv s \<Longrightarrow> monitor_inv s'"
proof (induction rule: monitor_step.induct)
  case (send_waits s i x w)
  have b: "ok (mn_buffer s)" "balanced (length (content (mn_buffer s))) (closed (mn_buffer s)) (mn_threads s)" using send_waits.prems by (auto simp: monitor_inv_def)
  note A = send_at [OF b(1) send_waits.hyps]
  have c: "\<not> closed (mn_buffer s)" "\<not> room limit (content (mn_buffer s))" using A(1) by (auto split: if_splits)
  then have "balanced (length (content (mn_buffer s))) False ((mn_threads s)(i := Sending x))" 
    using balanced_send_waits [of "length (content (mn_buffer s))" "mn_threads s" i x "content (mn_buffer s)"] A(2) c b(2) by simp
  then show ?case using A(1) c send_waits.prems by (simp add: monitor_inv_def)
next
  case (send_refused s i x w)
  have b: "ok (mn_buffer s)" "balanced (length (content (mn_buffer s))) (closed (mn_buffer s)) (mn_threads s)" using send_refused.prems by (auto simp: monitor_inv_def)
  note A = send_at [OF b(1) send_refused.hyps]
  have c: "closed (mn_buffer s)" using A(1) by (auto split: if_splits)
  then show ?case using A(1) send_refused.prems balanced_refused [of "length (content (mn_buffer s))" "mn_threads s" i] b(2) by (simp add: monitor_inv_def)
next
  case (send_done s i x w T)
  have b: "ok (mn_buffer s)" "balanced (length (content (mn_buffer s))) (closed (mn_buffer s)) (mn_threads s)" using send_done.prems by (auto simp: monitor_inv_def)
  note A = send_at [OF b(1) send_done.hyps(1)]
  have c: "\<not> closed (mn_buffer s)" "room limit (content (mn_buffer s))" using A(1) by (auto split: if_splits)
  have "balanced (Suc (length (content (mn_buffer s)))) False T" 
    using balanced_send_done [of "length (content (mn_buffer s))" "mn_threads s" i x T] A(2) send_done.hyps(2) b(2) c(1) by simp
  moreover have "\<forall>n. limit = Some n \<longrightarrow> Suc (length (content (mn_buffer s))) \<le> n" using c(2) by (auto simp: room_def)
  ultimately show ?case using A(1) c send_done.prems by (simp add: monitor_inv_def)
next
  case (receive_waits s i w)
  have b: "ok (mn_buffer s)" "balanced (length (content (mn_buffer s))) (closed (mn_buffer s)) (mn_threads s)" using receive_waits.prems by (auto simp: monitor_inv_def)
  note A = receive_at [OF b(1) receive_waits.hyps]
  have c: "\<not> closed (mn_buffer s)" "content (mn_buffer s) = []" "content w = []" using A(1) by (auto split: list.splits if_splits)
  then show ?case using A(1) receive_waits.prems balanced_receive_waits [of "mn_threads s" i] A(2) b(2) by (simp add: monitor_inv_def)
next
  case (receive_refused s i w)
  have b: "ok (mn_buffer s)" "balanced (length (content (mn_buffer s))) (closed (mn_buffer s)) (mn_threads s)" using receive_refused.prems by (auto simp: monitor_inv_def)
  note A = receive_at [OF b(1) receive_refused.hyps]
  have c: "closed (mn_buffer s)" "content (mn_buffer s) = []" "content w = []" using A(1) by (auto split: list.splits if_splits)
  then show ?case using A(1) receive_refused.prems balanced_refused [of 0 "mn_threads s" i] b(2) by (simp add: monitor_inv_def)
next
  case (receive_done s i w x T)
  have b: "ok (mn_buffer s)" "balanced (length (content (mn_buffer s))) (closed (mn_buffer s)) (mn_threads s)" using receive_done.prems by (auto simp: monitor_inv_def)
  note A = receive_at [OF b(1) receive_done.hyps(1)]
  have c: "content (mn_buffer s) = x # content w" using A(1) by (auto split: list.splits if_splits)
  have "balanced (length (content w)) (closed (mn_buffer s)) T" 
    using balanced_receive_done [of "length (content w)" "closed (mn_buffer s)" "mn_threads s" i T] A(2) receive_done.hyps(2) b(2) c by simp
  then show ?case using A(1) c receive_done.prems by (auto simp: monitor_inv_def)
next
  case (spurious s i)
  then show ?case using balanced_wake by (simp add: monitor_inv_def)
next
  case (close_all s)
  then show ?case using close_law [of "mn_buffer s"] balanced_close by (auto simp: monitor_inv_def)
qed

lemma monitor_inv_start: "monitor_start start s \<Longrightarrow> monitor_inv s"
  using start_ok by (auto simp: monitor_start_def monitor_inv_def balanced_def)

end

sublocale bounded_buffer \<subseteq> monitor: step_invariant "monitor_start start" "monitor_step ops" monitor_inv
  by unfold_locales (auto intro: monitor_inv_start monitor_inv_step)

context bounded_buffer
begin

text \<open>What holds of every reachable state, without the counts.\<close>

lemma monitor_reach:
  assumes "reach (monitor_start start) (monitor_step ops) s"
  shows "mn_sent s = mn_received s @ content (mn_buffer s) \<and> (\<forall>n. limit = Some n \<longrightarrow> length (content (mn_buffer s)) \<le> n) \<and>
    (mn_threads s i = Receiving \<longrightarrow> \<not> closed (mn_buffer s) \<and> (content (mn_buffer s) = [] \<or> (\<exists>j. mn_threads s j = RecvWoken))) \<and>
    (is_sending (mn_threads s i) \<longrightarrow> \<not> closed (mn_buffer s) \<and>
       (limit = Some (length (content (mn_buffer s))) \<or> (\<exists>j. send_woken (mn_threads s j))))"
proof -
  have inv: "monitor_inv s" using assms by (rule monitor.reach_inv)
  let ?T = "mn_threads s" and ?xs = "content (mn_buffer s)"
  have b: "balanced (length ?xs) (closed (mn_buffer s)) ?T" using inv by (simp add: monitor_inv_def)
  have le: "\<forall>n. limit = Some n \<longrightarrow> length ?xs \<le> n" using inv by (simp add: monitor_inv_def)
  have none: "how_many P ?T = 0" if "\<not> (\<exists>j. P (?T j))" for P using that by (simp add: how_many_def)
  have "?xs = [] \<or> (\<exists>j. ?T j = RecvWoken)" if "?T i = Receiving"
  proof -
    have "length ?xs \<le> receivers ?T" using b that unfolding balanced_def by blast
    then show ?thesis using none [of "\<lambda>t. t = RecvWoken"] by auto
  qed
  moreover have "limit = Some (length ?xs) \<or> (\<exists>j. send_woken (?T j))" if a: "is_sending (?T i)"
  proof -
    obtain n where n: "limit = Some n" "n \<le> length ?xs + senders ?T" using balanced_sending [OF b] a by blast
    moreover have "length ?xs \<le> n" using le n(1) by blast
    ultimately show ?thesis using none [of send_woken] by fastforce
  qed
  moreover have "\<not> closed (mn_buffer s)" if "?T i = Receiving \<or> is_sending (?T i)" using b that unfolding balanced_def by blast
  ultimately show ?thesis using inv by (simp add: monitor_inv_def)
qed

lemma monitor_sending:
  assumes "reach (monitor_start start) (monitor_step ops) s" "is_sending (mn_threads s i)"
  shows "limit \<noteq> None"
proof -
  have "monitor_inv s" using assms(1) by (rule monitor.reach_inv)
  then have b: "balanced (length (content (mn_buffer s))) (closed (mn_buffer s)) (mn_threads s)" by (simp add: monitor_inv_def)
  show ?thesis using balanced_sending [OF b] assms(2) by blast
qed

end

end
