(* ===== verification/WaitQueue.thy ===== *)
theory WaitQueue
  imports Monitor
begin

text \<open>
  The wait queue of \<^verbatim>\<open>include/threads/wait_queue.h\<close> and \<^verbatim>\<open>include/threads/wait_queue.inl\<close> for any number of producers
  and consumers. Capacity 0 stands for a queue without a limit. The number of queued items is a natural number: a
  \<^verbatim>\<open>std::queue\<close> cannot hold as many items as \<^verbatim>\<open>size_t\<close> has values.
\<close>

record 'a wait_queue =
  wq_closed :: bool
  wq_capacity :: u64
  wq_queue :: "'a list"

definition WaitQueue_init :: "u64 \<Rightarrow> 'a wait_queue" where
  "WaitQueue_init capacity = \<lparr> wq_closed = False, wq_capacity = capacity, wq_queue = [] \<rparr>"

definition WaitQueue_size :: "'a wait_queue \<Rightarrow> nat" where
  "WaitQueue_size w = length (wq_queue w)"

definition WaitQueue_capacity :: "'a wait_queue \<Rightarrow> nat" where
  "WaitQueue_capacity w = (if wq_capacity w > 0 then unat (wq_capacity w) else length (wq_queue w))"

definition wq_has_room :: "'a wait_queue \<Rightarrow> bool" where
  "wq_has_room w \<longleftrightarrow> wq_capacity w = 0 \<or> length (wq_queue w) < unat (wq_capacity w)"

text \<open>
  One turn of the loop of \<^verbatim>\<open>Enqueue\<close>. The predicate of the wait is \<open>_closed\<close> or room; without room it holds only
  when the queue is closed, and then the loop ends.
\<close>

definition WaitQueue_enqueue_turn :: "'a wait_queue \<Rightarrow> 'a \<Rightarrow> 'a wait_queue \<times> bool segment" where
  "WaitQueue_enqueue_turn w item =
     (if wq_has_room w then (w\<lparr> wq_queue := wq_queue w @ [item] \<rparr>, Returned True)
      else if wq_closed w then (w, Returned False)
      else (w, Waits))"

text \<open>\<^verbatim>\<open>Enqueue\<close> from its call, and from the point where its wait is woken and tests the predicate again.\<close>

definition WaitQueue_Enqueue :: "'a wait_queue \<Rightarrow> 'a \<Rightarrow> 'a wait_queue \<times> bool segment" where
  "WaitQueue_Enqueue w item = (if wq_closed w then (w, Returned False) else WaitQueue_enqueue_turn w item)"

definition WaitQueue_Enqueue_woken :: "'a wait_queue \<Rightarrow> 'a \<Rightarrow> 'a wait_queue \<times> bool segment" where
  "WaitQueue_Enqueue_woken w item =
     (if \<not> (wq_closed w \<or> wq_has_room w) then (w, Waits)
      else if \<not> wq_closed w then WaitQueue_enqueue_turn w item
      else (w, Returned False))"

definition WaitQueue_dequeue_turn :: "'a wait_queue \<Rightarrow> 'a wait_queue \<times> 'a option segment" where
  "WaitQueue_dequeue_turn w =
     (case wq_queue w of
        item # rest \<Rightarrow> (w\<lparr> wq_queue := rest \<rparr>, Returned (Some item))
      | [] \<Rightarrow> if wq_closed w then (w, Returned None) else (w, Waits))"

definition WaitQueue_Dequeue :: "'a wait_queue \<Rightarrow> 'a wait_queue \<times> 'a option segment" where
  "WaitQueue_Dequeue w = (if wq_closed w \<and> wq_queue w = [] then (w, Returned None) else WaitQueue_dequeue_turn w)"

definition WaitQueue_Dequeue_woken :: "'a wait_queue \<Rightarrow> 'a wait_queue \<times> 'a option segment" where
  "WaitQueue_Dequeue_woken w =
     (if \<not> (wq_closed w \<or> wq_queue w \<noteq> []) then (w, Waits)
      else if \<not> wq_closed w \<or> wq_queue w \<noteq> [] then WaitQueue_dequeue_turn w
      else (w, Returned None))"

definition WaitQueue_Close :: "'a wait_queue \<Rightarrow> 'a wait_queue" where
  "WaitQueue_Close w = w\<lparr> wq_closed := True \<rparr>"

text \<open>
  The notifications are steps of the monitor: \<^verbatim>\<open>_cv1.NotifyOne()\<close> after an item was stored (\<open>send_done\<close>),
  \<^verbatim>\<open>_cv2.NotifyOne()\<close> after one was taken (\<open>receive_done\<close>), \<^verbatim>\<open>NotifyAll()\<close> on both in \<^verbatim>\<open>Close\<close> (\<open>close_all\<close>).
\<close>

definition WaitQueue_ops :: "('a wait_queue, 'a) monitor_ops" where
  "WaitQueue_ops =
     \<lparr> op_send_enter = WaitQueue_Enqueue, op_send_woken = WaitQueue_Enqueue_woken,
       op_receive_enter = WaitQueue_Dequeue, op_receive_woken = WaitQueue_Dequeue_woken, op_close = WaitQueue_Close \<rparr>"

subsection \<open>The queue is a bounded buffer\<close>

definition wq_limit :: "u64 \<Rightarrow> nat option" where
  "wq_limit capacity = (if capacity = 0 then None else Some (unat capacity))"

lemma wq_room: "wq_capacity w = capacity \<Longrightarrow> room (wq_limit capacity) (wq_queue w) = wq_has_room w"
  by (auto simp: room_def wq_limit_def wq_has_room_def)

lemmas wait_queue_defs = WaitQueue_ops_def WaitQueue_Enqueue_def WaitQueue_Enqueue_woken_def WaitQueue_enqueue_turn_def
  WaitQueue_Dequeue_def WaitQueue_Dequeue_woken_def WaitQueue_dequeue_turn_def WaitQueue_Close_def WaitQueue_init_def

interpretation wait_queue: bounded_buffer WaitQueue_ops "WaitQueue_init capacity" "wq_limit capacity"
  "\<lambda>w. wq_capacity w = capacity" wq_queue wq_closed for capacity :: u64
proof
  show "wq_limit capacity \<noteq> Some 0" by (simp add: wq_limit_def unat_eq_0)
next
  fix w w' :: "'a wait_queue" and f x r
  assume a: "wq_capacity w = capacity" "f = op_send_enter WaitQueue_ops \<or> f = op_send_woken WaitQueue_ops" "f w x = (w', r)"
  show "wq_capacity w' = capacity \<and> wq_closed w' = wq_closed w \<and>
      (if wq_closed w then r = Returned False \<and> wq_queue w' = wq_queue w
       else if room (wq_limit capacity) (wq_queue w) then r = Returned True \<and> wq_queue w' = wq_queue w @ [x]
       else r = Waits \<and> wq_queue w' = wq_queue w)"
    unfolding wq_room [OF a(1)] using a by (auto simp: wait_queue_defs split: if_splits)
next
  fix w w' :: "'a wait_queue" and g v
  assume a: "wq_capacity w = capacity" "g = op_receive_enter WaitQueue_ops \<or> g = op_receive_woken WaitQueue_ops" "g w = (w', v)"
  show "wq_capacity w' = capacity \<and> wq_closed w' = wq_closed w \<and>
      (case wq_queue w of
         y # ys \<Rightarrow> v = Returned (Some y) \<and> wq_queue w' = ys
       | [] \<Rightarrow> wq_queue w' = [] \<and> v = (if wq_closed w then Returned None else Waits))"
    using a by (cases "wq_queue w") (auto simp: wait_queue_defs split: if_splits)
qed (simp_all add: wait_queue_defs)

subsection \<open>Property\<close>

text \<open>
  C39. The wait queue under every interleaving of producers, consumers, spurious wake-ups and \<^verbatim>\<open>Close\<close>: the items come
  out in the order they went in and none is lost or duplicated, a bounded queue never holds more than its capacity, and
  no wake-up is lost: a consumer sleeps only while the queue is open and is empty or another consumer has been woken
  for its items, a producer only while the queue is open and is full or another producer has been woken.
\<close>

theorem WaitQueue_no_lost_wakeup:
  assumes "reach (monitor_start (WaitQueue_init capacity)) (monitor_step WaitQueue_ops) s"
  shows "mn_sent s = mn_received s @ wq_queue (mn_buffer s) \<and>
    (capacity \<noteq> 0 \<longrightarrow> WaitQueue_size (mn_buffer s) \<le> unat capacity) \<and>
    (\<forall>i. mn_threads s i = Receiving \<longrightarrow> \<not> wq_closed (mn_buffer s) \<and>
       (wq_queue (mn_buffer s) = [] \<or> (\<exists>j. mn_threads s j = RecvWoken))) \<and>
    (\<forall>i x. mn_threads s i = Sending x \<longrightarrow> \<not> wq_closed (mn_buffer s) \<and> capacity \<noteq> 0 \<and>
       (WaitQueue_size (mn_buffer s) = unat capacity \<or> (\<exists>j y. mn_threads s j = SendWoken y)))"
proof -
  note r = wait_queue.monitor_reach [OF assms]
  have l: "capacity \<noteq> 0 \<Longrightarrow> wq_limit capacity = Some (unat capacity)" by (simp add: wq_limit_def)
  have c: "capacity \<noteq> 0" if "mn_threads s i = Sending x" for i x using wait_queue.monitor_sending [OF assms, of i] that by (auto simp: wq_limit_def)
  show ?thesis
  proof (intro conjI allI impI)
    show "mn_sent s = mn_received s @ wq_queue (mn_buffer s)" using r by blast
    show "WaitQueue_size (mn_buffer s) \<le> unat capacity" if "capacity \<noteq> 0" using r l [OF that] by (simp add: WaitQueue_size_def)
    show "\<not> wq_closed (mn_buffer s)" "wq_queue (mn_buffer s) = [] \<or> (\<exists>j. mn_threads s j = RecvWoken)" if "mn_threads s i = Receiving" for i
      using r [of i] that by blast+
    show "\<not> wq_closed (mn_buffer s)" "capacity \<noteq> 0" if "mn_threads s i = Sending x" for i x using r [of i] that c [OF that] by simp_all
    show "WaitQueue_size (mn_buffer s) = unat capacity \<or> (\<exists>j y. mn_threads s j = SendWoken y)" if "mn_threads s i = Sending x" for i x
      using r [of i] that l [OF c [OF that]] by (auto simp: send_woken_iff WaitQueue_size_def)
  qed
qed

theorem WaitQueue_no_lost_wakeup_witness:
  "\<exists>s. reach (monitor_start (WaitQueue_init 1)) (monitor_step WaitQueue_ops) s \<and> mn_threads s 0 = Sending (8 :: nat) \<and>
     \<not> wq_closed (mn_buffer s) \<and> mn_sent s = mn_received s @ [7]"
proof -
  define s0 :: "(nat wait_queue, nat) monitor_system" where
    "s0 = \<lparr> mn_buffer = WaitQueue_init 1, mn_threads = (\<lambda>_. Idle), mn_sent = [], mn_received = [] \<rparr>"
  define w where "w = fst (WaitQueue_Enqueue (WaitQueue_init 1) (7 :: nat))"
  let ?R = "reach (monitor_start (WaitQueue_init 1)) (monitor_step WaitQueue_ops)"
  have idle: "(\<lambda>_. Idle)(0 := Idle) = ((\<lambda>_. Idle) :: nat \<Rightarrow> nat waiter)" by auto
  have "?R s0" by (rule reach_start) (simp add: monitor_start_def s0_def)
  moreover have "monitor_step WaitQueue_ops s0 (s0\<lparr> mn_buffer := w, mn_threads := mn_threads s0, mn_sent := [7] \<rparr>)"
    using monitor_step.send_done [of WaitQueue_ops s0 0 7 w "mn_threads s0"]
    by (simp add: send_section_def notify_one_def wait_queue_defs wq_has_room_def s0_def w_def idle)
  ultimately have 1: "?R (s0\<lparr> mn_buffer := w, mn_threads := mn_threads s0, mn_sent := [7] \<rparr>)" by (rule reach_step)
  have "monitor_step WaitQueue_ops (s0\<lparr> mn_buffer := w, mn_threads := mn_threads s0, mn_sent := [7] \<rparr>)
      (s0\<lparr> mn_buffer := w, mn_threads := (mn_threads s0)(0 := Sending 8), mn_sent := [7] \<rparr>)"
    using monitor_step.send_waits [of WaitQueue_ops "s0\<lparr> mn_buffer := w, mn_threads := mn_threads s0, mn_sent := [7] \<rparr>" 0 8 w]
    by (simp add: send_section_def wait_queue_defs wq_has_room_def s0_def w_def)
  with 1 have r: "?R (s0\<lparr> mn_buffer := w, mn_threads := (mn_threads s0)(0 := Sending 8), mn_sent := [7] \<rparr>)" by (rule reach_step)
  have "wq_queue w = [7]" by (simp add: w_def wait_queue_defs wq_has_room_def)
  moreover have "\<not> wq_closed w"
    using WaitQueue_no_lost_wakeup [OF r, THEN conjunct2, THEN conjunct2, THEN conjunct2, rule_format, of 0 8] by simp
  ultimately show ?thesis using r
    by (intro exI [of _ "s0\<lparr> mn_buffer := w, mn_threads := (mn_threads s0)(0 := Sending 8), mn_sent := [7] \<rparr>"]) (simp add: s0_def)
qed

end
