(* ===== verification/WaitRing.thy ===== *)
theory WaitRing
  imports Monitor RingQueue
begin

text \<open>
  The wait ring of \<^verbatim>\<open>include/threads/wait_ring.h\<close> and \<^verbatim>\<open>include/threads/wait_ring.inl\<close> for any number of producers and
  consumers: the cursors and the buffer of the ring queue (\<open>RingQueue\<close>) behind a critical section and two condition
  variables.
\<close>

record 'a wait_ring =
  wr_closed :: bool
  wr_ring :: "'a ring"

text \<open>The vector is created with \<^verbatim>\<open>capacity\<close> default values, here \<open>blank\<close>.\<close>

definition WaitRing_init :: "u64 \<Rightarrow> 'a \<Rightarrow> 'a wait_ring" where
  "WaitRing_init capacity blank =
     \<lparr> wr_closed = False,
       wr_ring = \<lparr> rq_capacity = capacity - 1, rq_mask = capacity - 1, rq_buffer = replicate (unat capacity) blank,
                   rq_head = 0, rq_tail = 0 \<rparr> \<rparr>"

definition WaitRing_size :: "'a wait_ring \<Rightarrow> u64" where
  "WaitRing_size w = rq_head (wr_ring w) - rq_tail (wr_ring w)"

definition wr_has_room :: "'a wait_ring \<Rightarrow> bool" where
  "wr_has_room w \<longleftrightarrow> (rq_head (wr_ring w) - rq_tail (wr_ring w) + 1) AND rq_mask (wr_ring w) \<noteq> 0"

definition wr_has_items :: "'a wait_ring \<Rightarrow> bool" where
  "wr_has_items w \<longleftrightarrow> (rq_head (wr_ring w) - rq_tail (wr_ring w)) AND rq_mask (wr_ring w) \<noteq> 0"

text \<open>One turn of the loops; without room the predicate of the wait holds only for a closed ring, which ends the loop.\<close>

definition WaitRing_enqueue_turn :: "'a wait_ring \<Rightarrow> 'a \<Rightarrow> 'a wait_ring \<times> bool segment" where
  "WaitRing_enqueue_turn w item =
     (if wr_has_room w
      then let q = wr_ring w
           in (w\<lparr> wr_ring := q\<lparr> rq_buffer := (rq_buffer q)[unat (rq_head q AND rq_mask q) := item], rq_head := rq_head q + 1 \<rparr> \<rparr>,
               Returned True)
      else if wr_closed w then (w, Returned False)
      else (w, Waits))"

definition WaitRing_Enqueue :: "'a wait_ring \<Rightarrow> 'a \<Rightarrow> 'a wait_ring \<times> bool segment" where
  "WaitRing_Enqueue w item = (if wr_closed w then (w, Returned False) else WaitRing_enqueue_turn w item)"

definition WaitRing_Enqueue_woken :: "'a wait_ring \<Rightarrow> 'a \<Rightarrow> 'a wait_ring \<times> bool segment" where
  "WaitRing_Enqueue_woken w item =
     (if \<not> (wr_closed w \<or> wr_has_room w) then (w, Waits)
      else if \<not> wr_closed w then WaitRing_enqueue_turn w item
      else (w, Returned False))"

definition WaitRing_dequeue_turn :: "'a wait_ring \<Rightarrow> 'a wait_ring \<times> 'a option segment" where
  "WaitRing_dequeue_turn w =
     (if wr_has_items w
      then let q = wr_ring w
           in (w\<lparr> wr_ring := q\<lparr> rq_tail := rq_tail q + 1 \<rparr> \<rparr>, Returned (Some (rq_buffer q ! unat (rq_tail q AND rq_mask q))))
      else if wr_closed w then (w, Returned None)
      else (w, Waits))"

definition WaitRing_Dequeue :: "'a wait_ring \<Rightarrow> 'a wait_ring \<times> 'a option segment" where
  "WaitRing_Dequeue w = (if wr_closed w \<and> \<not> wr_has_items w then (w, Returned None) else WaitRing_dequeue_turn w)"

definition WaitRing_Dequeue_woken :: "'a wait_ring \<Rightarrow> 'a wait_ring \<times> 'a option segment" where
  "WaitRing_Dequeue_woken w =
     (if \<not> (wr_closed w \<or> wr_has_items w) then (w, Waits)
      else if \<not> wr_closed w \<or> wr_has_items w then WaitRing_dequeue_turn w
      else (w, Returned None))"

definition WaitRing_Close :: "'a wait_ring \<Rightarrow> 'a wait_ring" where
  "WaitRing_Close w = w\<lparr> wr_closed := True \<rparr>"

text \<open>
  The notifications are steps of the monitor: \<^verbatim>\<open>_cv1.NotifyOne()\<close> after an item was stored (\<open>send_done\<close>),
  \<^verbatim>\<open>_cv2.NotifyOne()\<close> after one was taken (\<open>receive_done\<close>), \<^verbatim>\<open>NotifyAll()\<close> on both in \<^verbatim>\<open>Close\<close> (\<open>close_all\<close>).
\<close>

definition WaitRing_ops :: "('a wait_ring, 'a) monitor_ops" where
  "WaitRing_ops =
     \<lparr> op_send_enter = WaitRing_Enqueue, op_send_woken = WaitRing_Enqueue_woken,
       op_receive_enter = WaitRing_Dequeue, op_receive_woken = WaitRing_Dequeue_woken, op_close = WaitRing_Close \<rparr>"

subsection \<open>The ring is a bounded buffer\<close>

text \<open>The items between the cursors.\<close>

definition wr_content :: "'a wait_ring \<Rightarrow> 'a list" where
  "wr_content w = map (\<lambda>i. rq_buffer (wr_ring w) ! unat ((rq_tail (wr_ring w) + of_nat i) AND rq_mask (wr_ring w)))
     [0..<unat (WaitRing_size w)]"

definition wr_ok :: "nat \<Rightarrow> 'a wait_ring \<Rightarrow> bool" where
  "wr_ok k w \<longleftrightarrow> (\<exists>t xs. ring_at k (wr_ring w) t xs)"

lemma wr_content_at:
  assumes "ring_at k (wr_ring w) t xs"
  shows "wr_content w = xs"
proof (rule nth_equalityI)
  have l: "unat (WaitRing_size w) = length xs" using ring_SPSC_size [OF assms] by (simp add: WaitRing_size_def SPSC_size_def)
  then show "length (wr_content w) = length xs" by (simp add: wr_content_def)
  fix i assume "i < length (wr_content w)"
  then have i: "i < length xs" using l by (simp add: wr_content_def)
  have "unat ((of_nat t + of_nat i) AND rq_mask (wr_ring w)) = (t + i) mod 2 ^ k" using ring_index(1) [OF assms, of "t + i"] by simp
  then show "wr_content w ! i = xs ! i" using i l ring_atD(5) [OF assms] assms by (simp add: wr_content_def ring_at_def)
qed

lemma wr_okE:
  assumes "wr_ok k w"
  obtains t where "ring_at k (wr_ring w) t (wr_content w)"
  using assms wr_content_at unfolding wr_ok_def by metis

lemma wr_tests:
  assumes "wr_ok k w"
  shows "wr_has_items w \<longleftrightarrow> wr_content w \<noteq> []" "wr_has_room w \<longleftrightarrow> room (Some (2 ^ k - 1)) (wr_content w)"
proof -
  obtain t where r: "ring_at k (wr_ring w) t (wr_content w)" using wr_okE [OF assms] .
  show "wr_has_items w \<longleftrightarrow> wr_content w \<noteq> []" using ring_empty [OF r] by (simp add: wr_has_items_def)
  show "wr_has_room w \<longleftrightarrow> room (Some (2 ^ k - 1)) (wr_content w)"
    using ring_full [OF r] ring_atD(7) [OF r] by (auto simp: wr_has_room_def room_def)
qed

lemma wr_enqueue_turn:
  assumes "wr_ok k w" "wr_has_room w"
  obtains w' where "WaitRing_enqueue_turn w x = (w', Returned True)" "wr_ok k w'" "wr_content w' = wr_content w @ [x]" "wr_closed w' = wr_closed w"
proof -
  obtain t where r: "ring_at k (wr_ring w) t (wr_content w)" using wr_okE [OF assms(1)] .
  define w' where "w' = w\<lparr> wr_ring := fst (SPSC_Enqueue (wr_ring w) x) \<rparr>"
  have n: "Suc (length (wr_content w)) \<noteq> 2 ^ k" using assms(2) ring_full [OF r] by (simp add: wr_has_room_def)
  have a: "ring_at k (wr_ring w') t (wr_content w @ [x])" using SPSC_Enqueue_ok(2) [OF r n, of x] by (simp add: w'_def)
  show thesis
  proof
    show "WaitRing_enqueue_turn w x = (w', Returned True)"
      using assms(2) by (simp add: WaitRing_enqueue_turn_def w'_def SPSC_Enqueue_def Let_def wr_has_room_def)
    show "wr_ok k w'" using a unfolding wr_ok_def by blast
    show "wr_content w' = wr_content w @ [x]" by (rule wr_content_at [OF a])
  qed (simp add: w'_def)
qed

lemma wr_dequeue_turn:
  assumes "wr_ok k w" "wr_content w = x # ys"
  obtains w' where "WaitRing_dequeue_turn w = (w', Returned (Some x))" "wr_ok k w'" "wr_content w' = ys" "wr_closed w' = wr_closed w"
proof -
  obtain t where r: "ring_at k (wr_ring w) t (x # ys)" using wr_okE [OF assms(1)] assms(2) by metis
  define w' where "w' = w\<lparr> wr_ring := (wr_ring w)\<lparr> rq_tail := rq_tail (wr_ring w) + 1 \<rparr> \<rparr>"
  have a: "ring_at k (wr_ring w') (Suc t) ys" using ring_pop [OF r] by (simp add: w'_def)
  show thesis
  proof
    show "WaitRing_dequeue_turn w = (w', Returned (Some x))"
      using wr_tests(1) [OF assms(1)] assms(2) ring_first [OF r] by (simp add: WaitRing_dequeue_turn_def w'_def Let_def)
    show "wr_ok k w'" using a unfolding wr_ok_def by blast
    show "wr_content w' = ys" by (rule wr_content_at [OF a])
  qed (simp add: w'_def)
qed

lemma wr_close: "wr_ok k w \<Longrightarrow> wr_ok k (WaitRing_Close w) \<and> wr_closed (WaitRing_Close w) \<and> wr_content (WaitRing_Close w) = wr_content w"
  by (simp add: wr_ok_def WaitRing_Close_def wr_content_def WaitRing_size_def)

lemma wr_start:
  assumes "ring_size capacity k"
  shows "wr_ok k (WaitRing_init capacity blank) \<and> wr_content (WaitRing_init capacity blank) = []"
proof -
  have "ring_at k (wr_ring (WaitRing_init capacity blank)) 0 []" using ring_at_start [OF assms, of blank] by (simp add: WaitRing_init_def SPSCRingQueue_def)
  then show ?thesis using wr_content_at unfolding wr_ok_def by blast
qed

text \<open>Rings of every size the constructor admits meet the contract.\<close>

lemma WaitRing_bounded_buffer:
  assumes "ring_size capacity k"
  shows "bounded_buffer WaitRing_ops (WaitRing_init capacity blank) (Some (2 ^ k - 1)) (wr_ok k) wr_content wr_closed"
proof
  show "wr_ok k (WaitRing_init capacity blank)" "wr_content (WaitRing_init capacity blank) = []" using wr_start [OF assms, of blank] by simp_all
  show "\<not> wr_closed (WaitRing_init capacity blank)" by (simp add: WaitRing_init_def)
  show "Some (2 ^ k - 1 :: nat) \<noteq> Some 0" using ring_size_mask(5) [OF assms] by simp
next
  fix w w' :: "'a wait_ring" and f x r
  assume a: "wr_ok k w" "f = op_send_enter WaitRing_ops \<or> f = op_send_woken WaitRing_ops" "f w x = (w', r)"
  have "(w', r) = (if wr_closed w then (w, Returned False) else if wr_has_room w then WaitRing_enqueue_turn w x else (w, Waits))"
    using a(2,3) by (auto simp: WaitRing_ops_def WaitRing_Enqueue_def WaitRing_Enqueue_woken_def WaitRing_enqueue_turn_def split: if_splits)
  note e = this
  show "wr_ok k w' \<and> wr_closed w' = wr_closed w \<and>
      (if wr_closed w then r = Returned False \<and> wr_content w' = wr_content w
       else if room (Some (2 ^ k - 1)) (wr_content w) then r = Returned True \<and> wr_content w' = wr_content w @ [x]
       else r = Waits \<and> wr_content w' = wr_content w)"
  proof (cases "\<not> wr_closed w \<and> wr_has_room w")
    case True
    obtain w1 where "WaitRing_enqueue_turn w x = (w1, Returned True)" "wr_ok k w1" "wr_content w1 = wr_content w @ [x]" "wr_closed w1 = wr_closed w"
      using wr_enqueue_turn [OF a(1)] True by blast
    then show ?thesis using True e wr_tests(2) [OF a(1)] by simp
  next
    case False
    then show ?thesis using e a(1) wr_tests(2) [OF a(1)] by (cases "wr_closed w") simp_all
  qed
next
  fix w w' :: "'a wait_ring" and g v
  assume a: "wr_ok k w" "g = op_receive_enter WaitRing_ops \<or> g = op_receive_woken WaitRing_ops" "g w = (w', v)"
  have e: "(w', v) = (if wr_has_items w then WaitRing_dequeue_turn w else if wr_closed w then (w, Returned None) else (w, Waits))"
    using a(2,3) by (auto simp: WaitRing_ops_def WaitRing_Dequeue_def WaitRing_Dequeue_woken_def WaitRing_dequeue_turn_def split: if_splits)
  show "wr_ok k w' \<and> wr_closed w' = wr_closed w \<and>
      (case wr_content w of
         y # ys \<Rightarrow> v = Returned (Some y) \<and> wr_content w' = ys
       | [] \<Rightarrow> wr_content w' = [] \<and> v = (if wr_closed w then Returned None else Waits))"
  proof (cases "wr_content w")
    case Nil
    then show ?thesis using e a(1) wr_tests(1) [OF a(1)] by (auto split: if_splits)
  next
    case (Cons y ys)
    obtain w1 where "WaitRing_dequeue_turn w = (w1, Returned (Some y))" "wr_ok k w1" "wr_content w1 = ys" "wr_closed w1 = wr_closed w"
      using wr_dequeue_turn [OF a(1) Cons] by blast
    then show ?thesis using Cons e wr_tests(1) [OF a(1)] by simp
  qed
next
  fix w :: "'a wait_ring"
  assume "wr_ok k w"
  then show "wr_ok k (op_close WaitRing_ops w) \<and> wr_closed (op_close WaitRing_ops w) \<and> wr_content (op_close WaitRing_ops w) = wr_content w"
    using wr_close by (simp add: WaitRing_ops_def)
qed

subsection \<open>Property\<close>

text \<open>
  C40. The wait ring under every interleaving of producers, consumers, spurious wake-ups and \<^verbatim>\<open>Close\<close>, with cursors that
  wrap around: the items come out in the order they went in, the ring holds at most \<^verbatim>\<open>capacity - 1\<close> of them, \<^verbatim>\<open>size\<close>
  counts them, and no wake-up is lost: a consumer sleeps only while the ring is open and is empty or another consumer
  has been woken, a producer only while the ring is open and is full or another producer has been woken.
\<close>

theorem WaitRing_no_lost_wakeup:
  assumes "ring_size capacity k"
    and "reach (monitor_start (WaitRing_init capacity blank)) (monitor_step WaitRing_ops) s"
  shows "mn_sent s = mn_received s @ wr_content (mn_buffer s) \<and>
    unat (WaitRing_size (mn_buffer s)) = length (wr_content (mn_buffer s)) \<and>
    unat (WaitRing_size (mn_buffer s)) \<le> unat capacity - 1 \<and>
    (\<forall>i. mn_threads s i = Receiving \<longrightarrow> \<not> wr_closed (mn_buffer s) \<and>
       (WaitRing_size (mn_buffer s) = 0 \<or> (\<exists>j. mn_threads s j = RecvWoken))) \<and>
    (\<forall>i x. mn_threads s i = Sending x \<longrightarrow> \<not> wr_closed (mn_buffer s) \<and>
       (unat (WaitRing_size (mn_buffer s)) = unat capacity - 1 \<or> (\<exists>j y. mn_threads s j = SendWoken y)))"
proof -
  let ?w = "mn_buffer s"
  note r = bounded_buffer.monitor_reach [OF WaitRing_bounded_buffer [OF assms(1)] assms(2)]
  have l: "unat (WaitRing_size ?w) = length (wr_content ?w)" by (simp add: wr_content_def)
  then have z: "WaitRing_size ?w = 0 \<longleftrightarrow> wr_content ?w = []" by (metis length_0_conv unat_eq_0)
  note c = ring_size_mask(2) [OF assms(1)]
  show ?thesis
  proof (intro conjI allI impI)
    show "mn_sent s = mn_received s @ wr_content ?w" using r by blast
    show "unat (WaitRing_size ?w) \<le> unat capacity - 1" using r l c by simp
    show "\<not> wr_closed ?w" "WaitRing_size ?w = 0 \<or> (\<exists>j. mn_threads s j = RecvWoken)" if "mn_threads s i = Receiving" for i
      using r [of i] that z by simp_all
    show "\<not> wr_closed ?w" "unat (WaitRing_size ?w) = unat capacity - 1 \<or> (\<exists>j y. mn_threads s j = SendWoken y)" if "mn_threads s i = Sending x" for i x
      using r [of i] that l c by (auto simp: send_woken_iff)
  qed (rule l)
qed

theorem WaitRing_no_lost_wakeup_witness:
  "\<exists>s. reach (monitor_start (WaitRing_init 2 0)) (monitor_step WaitRing_ops) s \<and> mn_threads s 0 = Sending (8 :: nat) \<and>
     \<not> wr_closed (mn_buffer s) \<and> mn_sent s = mn_received s @ wr_content (mn_buffer s) \<and> mn_sent s = [7]"
proof -
  define w where "w = fst (WaitRing_Enqueue (WaitRing_init 2 0) (7 :: nat))"
  define st where "st w T e = \<lparr> mn_buffer = w, mn_threads = T, mn_sent = e, mn_received = [] \<rparr>"
    for w :: "nat wait_ring" and T :: "nat \<Rightarrow> nat waiter" and e
  let ?R = "reach (monitor_start (WaitRing_init 2 0)) (monitor_step WaitRing_ops)" and ?I = "\<lambda>_. Idle"
  have idle: "(\<lambda>_. Idle)(0 := Idle) = ((\<lambda>_. Idle) :: nat \<Rightarrow> nat waiter)" by auto
  have e: "WaitRing_Enqueue (WaitRing_init 2 0) 7 = (w, Returned True)" "WaitRing_Enqueue w 8 = (w, Waits)"
    by (simp_all add: w_def WaitRing_Enqueue_def WaitRing_enqueue_turn_def WaitRing_init_def wr_has_room_def Let_def)
  have "?R (st (WaitRing_init 2 0) ?I [])" by (rule reach_start) (simp add: monitor_start_def st_def)
  moreover have "monitor_step WaitRing_ops (st (WaitRing_init 2 0) ?I []) (st w ?I [7])"
    using monitor_step.send_done [of WaitRing_ops "st (WaitRing_init 2 0) ?I []" 0 7 w ?I] e(1)
    by (simp add: send_section_def notify_one_def WaitRing_ops_def st_def idle)
  ultimately have 1: "?R (st w ?I [7])" by (rule reach_step)
  have "monitor_step WaitRing_ops (st w ?I [7]) (st w (?I(0 := Sending 8)) [7])"
    using monitor_step.send_waits [of WaitRing_ops "st w ?I [7]" 0 8 w] e(2) by (simp add: send_section_def WaitRing_ops_def st_def)
  with 1 have r: "?R (st w (?I(0 := Sending 8)) [7])" by (rule reach_step)
  have "ring_size 2 1" by (simp add: ring_size_def)
  note t = WaitRing_no_lost_wakeup [OF this r]
  have "\<not> wr_closed w" using t [THEN conjunct2, THEN conjunct2, THEN conjunct2, THEN conjunct2, rule_format, of 0 8] by (simp add: st_def)
  then show ?thesis using r t by (intro exI [of _ "st w (?I(0 := Sending 8)) [7]"]) (simp add: st_def)
qed

end
