(* ===== verification/Cache.thy ===== *)
theory Cache
  imports Prelude
begin

text \<open>
  The memory cache of \<^verbatim>\<open>include/cache/memcache.h\<close> and \<^verbatim>\<open>include/cache/memcache.inl\<close>, and the file cache
  of \<^verbatim>\<open>include/cache/filecache.h\<close> and \<^verbatim>\<open>source/cache/filecache.cpp\<close>. An index by key holds the
  values and a second index, ordered by a timestamp that is made unique, holds the keys of the entries with a
  timeout. The operations run under a lock, so they are modelled as a sequence. The clock is an input of the
  operations that read it. Timestamps are 64-bit words, timeouts signed 64-bit words.
\<close>

subsection \<open>The two indexes\<close>

record 'v entry =
  e_value :: 'v
  e_timestamp :: u64
  e_timespan :: u64

record ('k, 'v) timed =
  by_key :: "('k \<times> 'v entry) list"
  by_timestamp :: "(u64 \<times> 'k) list"

text \<open>
  \<^verbatim>\<open>std::unordered_map\<close> and \<^verbatim>\<open>std::map\<close>: insertion does not replace, the ordered map is kept
  sorted by its keys.
\<close>

definition erase_key :: "'k \<Rightarrow> ('k \<times> 'v) list \<Rightarrow> ('k \<times> 'v) list" where
  "erase_key k m = filter (\<lambda>e. fst e \<noteq> k) m"

definition insert_key :: "'k \<Rightarrow> 'v \<Rightarrow> ('k \<times> 'v) list \<Rightarrow> ('k \<times> 'v) list" where
  "insert_key k v m = (if map_of m k = None then m @ [(k, v)] else m)"

fun insert_sorted :: "u64 \<Rightarrow> 'v \<Rightarrow> (u64 \<times> 'v) list \<Rightarrow> (u64 \<times> 'v) list" where
  "insert_sorted k v [] = [(k, v)]"
| "insert_sorted k v ((l, w) # m) =
     (if k < l then (k, v) # (l, w) # m else if k = l then (l, w) # m else (l, w) # insert_sorted k v m)"

definition expiry :: "'v entry \<Rightarrow> u64" where
  "expiry e = e_timestamp e + e_timespan e"

definition remove_internal :: "('k, 'v) timed \<Rightarrow> 'k \<Rightarrow> ('k, 'v) timed \<times> bool" where
  "remove_internal m key =
     (case map_of (by_key m) key of
        None \<Rightarrow> (m, False)
      | Some e \<Rightarrow>
          (m\<lparr> by_timestamp := (if e_timestamp e > 0 then erase_key (e_timestamp e) (by_timestamp m) else by_timestamp m),
              by_key := erase_key key (by_key m) \<rparr>, True))"

definition next_timestamp :: "u64 \<Rightarrow> u64 \<Rightarrow> u64" where
  "next_timestamp current timestamp = (if current \<le> timestamp then timestamp + 1 else current)"

definition update_entry :: "u64 \<Rightarrow> u64 \<Rightarrow> ('k, 'v) timed \<Rightarrow> 'k \<Rightarrow> 'v \<Rightarrow> u64 \<Rightarrow> u64 \<times> ('k, 'v) timed" where
  "update_entry current timestamp m key value timeout =
     (if sint timeout > 0 then
        (let ts = next_timestamp current timestamp
         in (ts, m\<lparr> by_key := insert_key key \<lparr> e_value = value, e_timestamp = ts, e_timespan = timeout \<rparr> (by_key m),
                    by_timestamp := insert_sorted ts key (by_timestamp m) \<rparr>))
      else (timestamp, m\<lparr> by_key := insert_key key \<lparr> e_value = value, e_timestamp = 0, e_timespan = 0 \<rparr> (by_key m) \<rparr>))"

text \<open>
  The watchdog removes entries from the front of the ordered index until one has not expired. A key that is
  missing in the other index would make it dereference the end iterator.
\<close>

fun expire_loop :: "u64 \<Rightarrow> ('k \<times> 'v entry) list \<Rightarrow> (u64 \<times> 'k) list \<Rightarrow> ('k, 'v) timed result" where
  "expire_loop utc keys [] = Inr \<lparr> by_key = keys, by_timestamp = [] \<rparr>"
| "expire_loop utc keys ((ts, k) # rest) =
     (case map_of keys k of
        None \<Rightarrow> Inl NullDereference
      | Some e \<Rightarrow>
          if expiry e \<le> utc then expire_loop utc (erase_key k keys) rest
          else Inr \<lparr> by_key = keys, by_timestamp = (ts, k) # rest \<rparr>)"

subsection \<open>The memory cache\<close>

record ('k, 'v) memcache =
  mc_timestamp :: u64
  mc_entries :: "('k, 'v) timed"

definition MemCache_new :: "('k, 'v) memcache" where
  "MemCache_new = \<lparr> mc_timestamp = 0, mc_entries = \<lparr> by_key = [], by_timestamp = [] \<rparr> \<rparr>"

definition MemCache_size :: "('k, 'v) memcache \<Rightarrow> nat" where
  "MemCache_size c = length (by_key (mc_entries c))"

definition MemCache_empty :: "('k, 'v) memcache \<Rightarrow> bool" where
  "MemCache_empty c \<longleftrightarrow> by_key (mc_entries c) = []"

definition MemCache_insert :: "u64 \<Rightarrow> ('k, 'v) memcache \<Rightarrow> 'k \<Rightarrow> 'v \<Rightarrow> u64 \<Rightarrow> ('k, 'v) memcache \<times> bool" where
  "MemCache_insert current c key value timeout =
     (let m = fst (remove_internal (mc_entries c) key);
          (ts, m) = update_entry current (mc_timestamp c) m key value timeout
      in (c\<lparr> mc_timestamp := ts, mc_entries := m \<rparr>, True))"

definition MemCache_find :: "('k, 'v) memcache \<Rightarrow> 'k \<Rightarrow> 'v option" where
  "MemCache_find c key = map_option e_value (map_of (by_key (mc_entries c)) key)"

definition MemCache_find_timeout :: "('k, 'v) memcache \<Rightarrow> 'k \<Rightarrow> ('v \<times> u64) option" where
  "MemCache_find_timeout c key = map_option (\<lambda>e. (e_value e, expiry e)) (map_of (by_key (mc_entries c)) key)"

definition MemCache_remove :: "('k, 'v) memcache \<Rightarrow> 'k \<Rightarrow> ('k, 'v) memcache \<times> bool" where
  "MemCache_remove c key = (let (m, found) = remove_internal (mc_entries c) key in (c\<lparr> mc_entries := m \<rparr>, found))"

definition MemCache_clear :: "('k, 'v) memcache \<Rightarrow> ('k, 'v) memcache" where
  "MemCache_clear c = c\<lparr> mc_entries := \<lparr> by_key = [], by_timestamp = [] \<rparr> \<rparr>"

definition MemCache_watchdog :: "('k, 'v) memcache \<Rightarrow> u64 \<Rightarrow> ('k, 'v) memcache result" where
  "MemCache_watchdog c utc =
     bind_result (expire_loop utc (by_key (mc_entries c)) (by_timestamp (mc_entries c))) (\<lambda>m. Inr (c\<lparr> mc_entries := m \<rparr>))"

definition MemCache_swap :: "('k, 'v) memcache \<Rightarrow> ('k, 'v) memcache \<Rightarrow> ('k, 'v) memcache \<times> ('k, 'v) memcache" where
  "MemCache_swap c d = (d, c)"

subsection \<open>The invariant of the indexes\<close>

text \<open>
  The index by key is kept in the order of insertion; the ordered index is what it lists of the entries with a
  timestamp, in increasing order, and no timestamp is above the last one given out.
\<close>

definition index :: "('k \<times> 'v entry) list \<Rightarrow> (u64 \<times> 'k) list" where
  "index m = map (\<lambda>(k, e). (e_timestamp e, k)) (filter (\<lambda>(k, e). 0 < e_timestamp e) m)"

definition timed_ok :: "u64 \<Rightarrow> ('k, 'v) timed \<Rightarrow> bool" where
  "timed_ok last_ts m \<longleftrightarrow> distinct (map fst (by_key m)) \<and> by_timestamp m = index (by_key m) \<and>
     sorted_wrt (<) (map fst (index (by_key m))) \<and> (\<forall>x \<in> set (index (by_key m)). fst x \<le> last_ts)"

lemma map_of_erase_key: "map_of (erase_key k m) = (map_of m)(k := None)"
proof
  fix x
  show "map_of (erase_key k m) x = ((map_of m)(k := None)) x"
    by (induction m) (auto simp: erase_key_def)
qed

lemma map_of_insert_key: "map_of m k = None \<Longrightarrow> map_of (insert_key k v m) = (map_of m)(k \<mapsto> v)"
  by (auto simp: insert_key_def fun_eq_iff map_add_def split: option.splits)

lemma set_erase_key: "set (erase_key k m) = {e \<in> set m. fst e \<noteq> k}"
  by (auto simp: erase_key_def)

lemma distinct_erase_key: "distinct (map fst m) \<Longrightarrow> distinct (map fst (erase_key k m))"
  unfolding erase_key_def by (rule distinct_map_filter)

lemma insert_sorted_above: "\<forall>x \<in> set m. fst x < k \<Longrightarrow> insert_sorted k v m = m @ [(k, v)]"
  by (induction m rule: insert_sorted.induct) auto

lemma sorted_erase_key: "sorted_wrt (<) (map fst m) \<Longrightarrow> sorted_wrt (<) (map fst (erase_key k m))"
  by (simp add: erase_key_def sorted_wrt_map sorted_wrt_filter)

lemma index_simps [simp]:
  "index [] = []" "index ((k, e) # m) = (if 0 < e_timestamp e then [(e_timestamp e, k)] else []) @ index m" "index (m @ n) = index m @ index n"
  by (auto simp: index_def)

lemma in_index: "(ts, k) \<in> set (index m) \<longleftrightarrow> 0 < ts \<and> (\<exists>e. (k, e) \<in> set m \<and> e_timestamp e = ts)"
  by (auto simp: index_def)

lemma index_erase_key:
  assumes "distinct (map fst m)" "sorted_wrt (<) (map fst (index m))" "(k, e) \<in> set m"
  shows "index (erase_key k m) = (if 0 < e_timestamp e then erase_key (e_timestamp e) (index m) else index m)"
proof -
  have d: "distinct (map fst (index m))" using assms(2) by (simp add: strict_sorted_iff)
  have key: "l = k" if "(l, f) \<in> set m" "e_timestamp f = e_timestamp e" "0 < e_timestamp e" for l f
  proof -
    have "(e_timestamp e, l) \<in> set (index m)" "(e_timestamp e, k) \<in> set (index m)" using that assms(3) by (auto simp: in_index)
    then show ?thesis using d by (auto dest: eq_key_imp_eq_value)
  qed
  have ent: "f = e" if "(k, f) \<in> set m" for f using that assms(1,3) by (auto dest: eq_key_imp_eq_value)
  show ?thesis
    unfolding index_def erase_key_def filter_map filter_filter
    by (auto simp: filter_map o_def case_prod_beta intro!: arg_cong [where f = "map _"] filter_cong dest: key ent)
qed

lemma timed_ok_weaken: "timed_ok ts m \<Longrightarrow> ts \<le> ts' \<Longrightarrow> timed_ok ts' m"
  by (fastforce simp: timed_ok_def)

lemma index_erase_subset: "set (index (erase_key k m)) \<subseteq> set (index m)"
  by (auto simp: index_def erase_key_def)

lemma remove_internal_by_key: "by_key (fst (remove_internal m key)) = erase_key key (by_key m)"
proof (cases "map_of (by_key m) key")
  case None
  then have "\<forall>x \<in> set (by_key m). fst x \<noteq> key" by (auto simp: map_of_eq_None_iff)
  then show ?thesis using None by (simp add: remove_internal_def erase_key_def)
qed (simp add: remove_internal_def)

lemma timed_ok_erase:
  assumes "timed_ok ts m" "by_key n = erase_key key (by_key m)" "by_timestamp n = index (by_key n)"
  shows "timed_ok ts n"
proof -
  have "sorted_wrt (<) (map fst (index (erase_key key (by_key m))))"
  proof (cases "\<exists>e. (key, e) \<in> set (by_key m)")
    case True
    then show ?thesis using assms(1) index_erase_key [of "by_key m" key] sorted_erase_key by (auto simp: timed_ok_def)
  next
    case False
    then have "erase_key key (by_key m) = by_key m" by (force simp: erase_key_def filter_id_conv)
    then show ?thesis using assms(1) by (simp add: timed_ok_def)
  qed
  then show ?thesis using assms distinct_erase_key index_erase_subset [of key "by_key m"] by (auto simp: timed_ok_def)
qed

lemma remove_internal_ok:
  assumes "timed_ok ts m"
  shows "timed_ok ts (fst (remove_internal m key))"
proof -
  have "by_timestamp (fst (remove_internal m key)) = index (by_key (fst (remove_internal m key)))"
  proof (cases "map_of (by_key m) key")
    case (Some e)
    then show ?thesis using assms index_erase_key [of "by_key m" key e, OF _ _ map_of_SomeD [OF Some]]
      by (auto simp: remove_internal_def timed_ok_def)
  qed (use assms in \<open>simp add: remove_internal_def timed_ok_def\<close>)
  then show ?thesis using timed_ok_erase [OF assms remove_internal_by_key] by blast
qed

lemma next_timestamp_greater: "unat ts < 2 ^ 64 - 1 \<Longrightarrow> ts < next_timestamp current ts"
  by (auto simp: next_timestamp_def word_less_nat_alt word_le_nat_alt unat_word_ariths)

lemma update_entry_ok:
  assumes "timed_ok ts m" "map_of (by_key m) key = None" "unat ts < 2 ^ 64 - 1" "update_entry current ts m key value timeout = (ts', m')"
  shows "timed_ok ts' m' \<and> ts \<le> ts' \<and> by_key m' = by_key m @
     [(key, if sint timeout > 0 then \<lparr> e_value = value, e_timestamp = ts', e_timespan = timeout \<rparr> else \<lparr> e_value = value, e_timestamp = 0, e_timespan = 0 \<rparr>)] \<and>
     (sint timeout > 0 \<longrightarrow> ts' = next_timestamp current ts \<and> 0 < ts') \<and> (\<not> sint timeout > 0 \<longrightarrow> ts' = ts)"
proof (cases "sint timeout > 0")
  case True
  let ?ts = "next_timestamp current ts"
  have lt: "ts < ?ts" by (rule next_timestamp_greater [OF assms(3)])
  then have above: "\<forall>x \<in> set (by_timestamp m). fst x < ?ts" using assms(1) by (auto simp: timed_ok_def)
  have m': "ts' = ?ts" "by_key m' = by_key m @ [(key, \<lparr> e_value = value, e_timestamp = ?ts, e_timespan = timeout \<rparr>)]"
    "by_timestamp m' = by_timestamp m @ [(?ts, key)]"
    using assms(2,4) True by (auto simp: update_entry_def insert_key_def Let_def insert_sorted_above [OF above])
  have pos: "0 < ?ts" using lt by (metis le_less_trans word_zero_le)
  have "timed_ok ts' m'" using assms(1,2) m' pos lt above
    by (auto simp: timed_ok_def sorted_wrt_append map_of_eq_None_iff)
  then show ?thesis using m' True lt pos by auto
next
  case False
  then show ?thesis using assms by (auto simp: update_entry_def insert_key_def timed_ok_def map_of_eq_None_iff)
qed

subsection \<open>The watchdog\<close>

text \<open>The keys at the front of the ordered index that have expired.\<close>

definition expired :: "u64 \<Rightarrow> 'k \<times> 'v entry \<Rightarrow> bool" where
  "expired utc x \<longleftrightarrow> expiry (snd x) \<le> utc"

definition outdated :: "u64 \<Rightarrow> ('k \<times> 'v entry) list \<Rightarrow> 'k set" where
  "outdated utc m = fst ` set (takeWhile (expired utc) (filter (\<lambda>(k, e). 0 < e_timestamp e) m))"

lemma erase_key_skip: "k \<notin> fst ` set m \<Longrightarrow> erase_key k m = m"
  by (force simp: erase_key_def filter_id_conv)

lemma expire_loop_ok:
  assumes "distinct (map fst m)"
  shows "expire_loop utc m (index m) =
    (let m' = filter (\<lambda>x. fst x \<notin> outdated utc m) m in Inr \<lparr> by_key = m', by_timestamp = index m' \<rparr>)"
proof -
  let ?timed = "\<lambda>(k, e). 0 < e_timestamp e" and ?ix = "map (\<lambda>(k, e). (e_timestamp e, k))"
  have "expire_loop utc (filter (\<lambda>x. fst x \<notin> fst ` set done) m) (?ix todo) =
      (let m' = filter (\<lambda>x. fst x \<notin> fst ` set (done @ takeWhile (expired utc) todo)) m in Inr \<lparr> by_key = m', by_timestamp = index m' \<rparr>)"
    if "filter ?timed m = done @ todo" for "done" todo
    using that
  proof (induction todo arbitrary: "done")
    case Nil
    then have "index (filter (\<lambda>x. fst x \<notin> fst ` set done) m) = []"
      unfolding index_def filter_filter by (auto simp: filter_empty_conv dest: arg_cong [where f = set])
    then show ?case by (simp add: Let_def)
  next
    case (Cons x todo)
    obtain k e where x: "x = (k, e)" by (cases x)
    have k: "(k, e) \<in> set m" "k \<notin> fst ` set done"
    proof -
      have "(k, e) \<in> set (filter ?timed m)" using Cons.prems x by simp
      then show "(k, e) \<in> set m" by simp
      have "distinct (map fst (filter ?timed m))" using assms by (rule distinct_map_filter)
      then show "k \<notin> fst ` set done" using Cons.prems x by auto
    qed
    have "distinct (map fst (filter (\<lambda>x. fst x \<notin> fst ` set done) m))" using assms by (rule distinct_map_filter)
    then have look: "map_of (filter (\<lambda>x. fst x \<notin> fst ` set done) m) k = Some e" using k by (intro map_of_is_SomeI) auto
    show ?case
    proof (cases "expired utc x")
      case True
      have "erase_key k (filter (\<lambda>x. fst x \<notin> fst ` set done) m) = filter (\<lambda>y. fst y \<notin> fst ` set (done @ [x])) m"
        by (auto simp: erase_key_def x intro!: filter_cong)
      then show ?thesis using Cons.IH [of "done @ [x]"] Cons.prems True look x by (simp add: expired_def)
    next
      case False
      have "index (filter (\<lambda>x. fst x \<notin> fst ` set done) m) = ?ix (filter (\<lambda>x. fst x \<notin> fst ` set done) (filter ?timed m))"
        by (simp add: index_def) (metis (mono_tags, lifting) conj_commute filter_cong)
      also have "filter (\<lambda>x. fst x \<notin> fst ` set done) (filter ?timed m) = x # todo"
      proof -
        have "distinct (map fst (done @ x # todo))" using distinct_map_filter [OF assms, of ?timed] Cons.prems by simp
        then have "filter (\<lambda>y. fst y \<notin> fst ` set done) (x # todo) = x # todo" by (intro filter_True) auto
        moreover have "filter (\<lambda>y. fst y \<notin> fst ` set done) done = []" by (intro filter_False) auto
        ultimately show ?thesis unfolding Cons.prems filter_append by simp
      qed
      finally show ?thesis using False look x by (simp add: expired_def Let_def)
    qed
  qed
  from this [of "[]" "filter ?timed m"] show ?thesis by (simp add: index_def outdated_def)
qed

lemma index_filter_subset: "set (index (filter P m)) \<subseteq> set (index m)"
  by (auto simp: index_def)

lemma sorted_index_filter: "sorted_wrt (<) (map fst (index m)) \<Longrightarrow> sorted_wrt (<) (map fst (index (filter P m)))"
proof (induction m)
  case (Cons x m)
  then show ?case using index_filter_subset [of P m] by (cases x) (auto simp: sorted_wrt_append)
qed simp

lemma filter_timed_ok:
  assumes "timed_ok ts m"
  shows "timed_ok ts \<lparr> by_key = filter P (by_key m), by_timestamp = index (filter P (by_key m)) \<rparr>"
  using assms index_filter_subset [of P "by_key m"] sorted_index_filter [of "by_key m" P] distinct_map_filter [of fst "by_key m" P]
  by (auto simp: timed_ok_def)

subsection \<open>The specification\<close>

text \<open>
  A cache is a sequence of keys with a value and an optional time of expiry, in the order of insertion, together
  with the last timestamp given out.
\<close>

type_synonym ('k, 'v) cache_spec = "u64 \<times> ('k \<times> 'v \<times> u64 option) list"

datatype ('k, 'v) cache_op = Put u64 'k 'v u64 | Drop 'k | Purge | Watch u64

fun spec_cache :: "('k, 'v) cache_op \<Rightarrow> ('k, 'v) cache_spec \<Rightarrow> ('k, 'v) cache_spec" where
  "spec_cache (Put current k v timeout) (ts, l) =
     (let ts' = next_timestamp current ts; l' = filter (\<lambda>x. fst x \<noteq> k) l
      in if sint timeout > 0 then (ts', l' @ [(k, v, Some (ts' + timeout))]) else (ts, l' @ [(k, v, None)]))"
| "spec_cache (Drop k) (ts, l) = (ts, filter (\<lambda>x. fst x \<noteq> k) l)"
| "spec_cache Purge (ts, l) = (ts, [])"
| "spec_cache (Watch utc) (ts, l) =
     (let gone = takeWhile (\<lambda>(k, v, x). the x \<le> utc) (filter (\<lambda>(k, v, x). x \<noteq> None) l)
      in (ts, filter (\<lambda>x. fst x \<notin> fst ` set gone) l))"

fun cache_step :: "('k, 'v) cache_op \<Rightarrow> ('k, 'v) memcache \<Rightarrow> ('k, 'v) memcache result" where
  "cache_step (Put current k v timeout) c = Inr (fst (MemCache_insert current c k v timeout))"
| "cache_step (Drop k) c = Inr (fst (MemCache_remove c k))"
| "cache_step Purge c = Inr (MemCache_clear c)"
| "cache_step (Watch utc) c = MemCache_watchdog c utc"

fun cache_run :: "('k, 'v) cache_op list \<Rightarrow> ('k, 'v) memcache \<Rightarrow> ('k, 'v) memcache result" where
  "cache_run [] c = Inr c"
| "cache_run (x # ops) c = bind_result (cache_step x c) (cache_run ops)"

definition abs_entry :: "'k \<times> 'v entry \<Rightarrow> 'k \<times> 'v \<times> u64 option" where
  "abs_entry x = (fst x, e_value (snd x), if 0 < e_timestamp (snd x) then Some (expiry (snd x)) else None)"

definition abs_cache :: "('k, 'v) memcache \<Rightarrow> ('k, 'v) cache_spec" where
  "abs_cache c = (mc_timestamp c, map abs_entry (by_key (mc_entries c)))"

definition mc_ok :: "('k, 'v) memcache \<Rightarrow> bool" where
  "mc_ok c \<longleftrightarrow> timed_ok (mc_timestamp c) (mc_entries c)"

lemma abs_erase_key: "map abs_entry (erase_key k m) = filter (\<lambda>x. fst x \<noteq> k) (map abs_entry m)"
  by (simp add: erase_key_def filter_map o_def abs_entry_def)

lemma MemCache_insert_ok:
  assumes "mc_ok c" "unat (mc_timestamp c) < 2 ^ 64 - 1"
  shows "mc_ok (fst (MemCache_insert current c k v timeout)) \<and>
     abs_cache (fst (MemCache_insert current c k v timeout)) = spec_cache (Put current k v timeout) (abs_cache c)"
proof -
  let ?m = "fst (remove_internal (mc_entries c) k)"
  obtain ts' m' where u: "update_entry current (mc_timestamp c) ?m k v timeout = (ts', m')" by fastforce
  have "map_of (by_key ?m) k = None" by (simp add: remove_internal_by_key map_of_erase_key)
  from update_entry_ok [OF remove_internal_ok this assms(2) u] assms(1)
  have "timed_ok ts' m'" and k: "by_key m' = by_key ?m @
     [(k, if sint timeout > 0 then \<lparr> e_value = v, e_timestamp = ts', e_timespan = timeout \<rparr> else \<lparr> e_value = v, e_timestamp = 0, e_timespan = 0 \<rparr>)]"
     "sint timeout > 0 \<longrightarrow> ts' = next_timestamp current (mc_timestamp c) \<and> 0 < ts'" "\<not> sint timeout > 0 \<longrightarrow> ts' = mc_timestamp c"
    by (auto simp: mc_ok_def)
  moreover have "map abs_entry (by_key m') = filter (\<lambda>x. fst x \<noteq> k) (map abs_entry (by_key (mc_entries c))) @
      [(k, v, if sint timeout > 0 then Some (ts' + timeout) else None)]"
    unfolding k(1) map_append remove_internal_by_key abs_erase_key using k(2) by (auto simp: abs_entry_def expiry_def)
  ultimately show ?thesis using u by (auto simp: MemCache_insert_def mc_ok_def abs_cache_def Let_def)
qed

lemma MemCache_remove_ok:
  assumes "mc_ok c"
  shows "mc_ok (fst (MemCache_remove c k)) \<and> abs_cache (fst (MemCache_remove c k)) = spec_cache (Drop k) (abs_cache c)"
  using assms remove_internal_ok [of "mc_timestamp c" "mc_entries c" k] abs_erase_key remove_internal_by_key [of "mc_entries c" k]
  by (auto simp: MemCache_remove_def mc_ok_def abs_cache_def case_prod_beta Let_def)

lemma MemCache_clear_ok: "mc_ok (MemCache_clear c) \<and> abs_cache (MemCache_clear c) = spec_cache Purge (abs_cache c)"
  by (simp add: MemCache_clear_def mc_ok_def timed_ok_def abs_cache_def)

lemma MemCache_watchdog_eq:
  assumes "mc_ok c"
  shows "MemCache_watchdog c utc = (let m = filter (\<lambda>x. fst x \<notin> outdated utc (by_key (mc_entries c))) (by_key (mc_entries c))
     in Inr (c\<lparr> mc_entries := \<lparr> by_key = m, by_timestamp = index m \<rparr> \<rparr>))"
  using assms expire_loop_ok [of "by_key (mc_entries c)" utc] by (simp add: MemCache_watchdog_def mc_ok_def timed_ok_def Let_def)

lemma outdated_spec:
  "outdated utc m = fst ` set (takeWhile (\<lambda>(k, v, x). the x \<le> utc) (filter (\<lambda>(k, v, x). x \<noteq> None) (map abs_entry m)))"
proof -
  have "filter (\<lambda>(k, v, x). x \<noteq> None) (map abs_entry m) = map abs_entry (filter (\<lambda>(k, e). 0 < e_timestamp e) m)"
    by (auto simp: filter_map o_def abs_entry_def case_prod_beta intro!: arg_cong [where f = "map _"] filter_cong)
  moreover have "takeWhile (\<lambda>(k, v, x). the x \<le> utc) (map abs_entry (filter (\<lambda>(k, e). 0 < e_timestamp e) m)) =
      map abs_entry (takeWhile (expired utc) (filter (\<lambda>(k, e). 0 < e_timestamp e) m))"
    unfolding takeWhile_map by (intro arg_cong [where f = "map _"] takeWhile_cong) (auto simp: abs_entry_def expired_def)
  ultimately show ?thesis by (simp add: outdated_def abs_entry_def image_image)
qed

lemma MemCache_watchdog_ok:
  assumes "mc_ok c"
  shows "\<exists>c'. MemCache_watchdog c utc = Inr c' \<and> mc_ok c' \<and> mc_timestamp c' = mc_timestamp c \<and> abs_cache c' = spec_cache (Watch utc) (abs_cache c)"
proof -
  let ?m = "filter (\<lambda>x. fst x \<notin> outdated utc (by_key (mc_entries c))) (by_key (mc_entries c))"
  let ?c = "c\<lparr> mc_entries := \<lparr> by_key = ?m, by_timestamp = index ?m \<rparr> \<rparr>"
  have "map abs_entry ?m = filter (\<lambda>x. fst x \<notin> outdated utc (by_key (mc_entries c))) (map abs_entry (by_key (mc_entries c)))"
    by (simp add: filter_map o_def abs_entry_def)
  then have "abs_cache ?c = spec_cache (Watch utc) (abs_cache c)" by (simp add: abs_cache_def outdated_spec Let_def)
  moreover have "mc_ok ?c" using assms filter_timed_ok by (simp add: mc_ok_def)
  ultimately show ?thesis using MemCache_watchdog_eq [OF assms] by (simp add: Let_def)
qed

fun clock_of :: "('k, 'v) cache_op \<Rightarrow> nat" where
  "clock_of (Put current k v timeout) = unat current"
| "clock_of _ = 0"

lemma unat_next_timestamp: "unat ts < 2 ^ 64 - 1 \<Longrightarrow> unat (next_timestamp current ts) \<le> max (unat ts + 1) (unat current)"
  by (auto simp: next_timestamp_def unat_word_ariths)

lemma cache_step_ok:
  assumes "mc_ok c" "unat (mc_timestamp c) < 2 ^ 64 - 1"
  shows "\<exists>c'. cache_step x c = Inr c' \<and> mc_ok c' \<and> abs_cache c' = spec_cache x (abs_cache c) \<and>
     unat (mc_timestamp c') \<le> max (unat (mc_timestamp c) + 1) (clock_of x)"
proof (cases x)
  case (Put current k v timeout)
  have "mc_timestamp (fst (MemCache_insert current c k v timeout)) = fst (spec_cache x (abs_cache c))"
    using MemCache_insert_ok [OF assms, of current k v timeout] Put unfolding abs_cache_def by (metis fst_conv)
  then show ?thesis using MemCache_insert_ok [OF assms, of current k v timeout] Put unat_next_timestamp [OF assms(2), of current]
    by (auto simp: abs_cache_def Let_def)
next
  case (Drop k)
  then show ?thesis using MemCache_remove_ok [OF assms(1), of k] by (auto simp: MemCache_remove_def case_prod_beta Let_def)
next
  case Purge
  then show ?thesis using MemCache_clear_ok [of c] by (auto simp: MemCache_clear_def)
next
  case (Watch utc)
  then show ?thesis using MemCache_watchdog_ok [OF assms(1), of utc] by auto
qed

lemma cache_run_ok:
  assumes "mc_ok c" "unat (mc_timestamp c) + length ops < 2 ^ 64 - 1" "\<forall>x \<in> set ops. clock_of x + length ops < 2 ^ 64 - 1"
  shows "\<exists>c'. cache_run ops c = Inr c' \<and> mc_ok c' \<and> abs_cache c' = fold spec_cache ops (abs_cache c)"
  using assms
proof (induction ops arbitrary: c)
  case (Cons x ops)
  have "unat (mc_timestamp c) < 2 ^ 64 - 1" using Cons.prems(2) by simp
  then obtain c' where c': "cache_step x c = Inr c'" "mc_ok c'" "abs_cache c' = spec_cache x (abs_cache c)"
    "unat (mc_timestamp c') \<le> max (unat (mc_timestamp c) + 1) (clock_of x)"
    using cache_step_ok [OF Cons.prems(1)] by blast
  have "unat (mc_timestamp c') + length ops < 2 ^ 64 - 1" using c'(4) Cons.prems(2,3) by (cases "clock_of x \<le> unat (mc_timestamp c) + 1") auto
  moreover have "\<forall>x \<in> set ops. clock_of x + length ops < 2 ^ 64 - 1" using Cons.prems(3) by fastforce
  ultimately show ?case using Cons.IH [OF c'(2)] c' by simp
qed simp

lemma map_of_abs: "map_of (map abs_entry m) k = map_option (\<lambda>e. snd (abs_entry (k, e))) (map_of m k)"
  by (induction m) (auto simp: abs_entry_def)

lemma takeWhile_sorted:
  fixes f :: "'a \<Rightarrow> 'b :: order"
  shows "sorted_wrt (\<le>) (map f xs) \<Longrightarrow> x \<in> set xs \<Longrightarrow> f x \<le> y \<Longrightarrow> x \<in> set (takeWhile (\<lambda>z. f z \<le> y) xs)"
  by (induction xs) (auto intro: order_trans)

lemma abs_distinct: "mc_ok c \<Longrightarrow> distinct (map fst (snd (abs_cache c)))"
  by (simp add: abs_cache_def mc_ok_def timed_ok_def o_def abs_entry_def)

subsection \<open>Properties of the memory cache\<close>

text \<open>
  C24. The memory cache refines its specification and its two indexes stay consistent: from the empty cache any
  sequence of insertions, removals, clearings and watchdog runs ends without dereferencing a missing key, as long
  as fewer than $2^{63}$ operations read clock values below $2^{63}$ nanoseconds; the ordered index lists exactly
  the entries with a timeout, and a lookup finds what the specification holds, with its time of expiry.
\<close>

theorem MemCache_refines:
  fixes ops :: "('k, 'v) cache_op list"
  assumes "length ops < 2 ^ 62" and "\<forall>x \<in> set ops. clock_of x < 2 ^ 63"
  shows "\<exists>c. cache_run ops MemCache_new = Inr c \<and> by_timestamp (mc_entries c) = index (by_key (mc_entries c)) \<and>
     sorted_wrt (<) (map fst (by_timestamp (mc_entries c))) \<and> abs_cache c = fold spec_cache ops (0, []) \<and>
     MemCache_size c = length (snd (abs_cache c)) \<and>
     (\<forall>k. MemCache_find c k = map_option fst (map_of (snd (abs_cache c)) k)) \<and>
     (\<forall>k v x. map_of (snd (abs_cache c)) k = Some (v, Some x) \<longrightarrow> MemCache_find_timeout c k = Some (v, x))"
proof -
  have "mc_ok (MemCache_new :: ('k, 'v) memcache)" by (simp add: MemCache_new_def mc_ok_def timed_ok_def)
  moreover have "\<forall>x \<in> set ops. clock_of x + length ops < 2 ^ 64 - 1" using assms by fastforce
  ultimately obtain c where c: "cache_run ops MemCache_new = Inr c" "mc_ok c" "abs_cache c = fold spec_cache ops (abs_cache MemCache_new)"
    using cache_run_ok [of MemCache_new ops] assms(1) by (auto simp: MemCache_new_def)
  have "MemCache_find c k = map_option fst (map_of (snd (abs_cache c)) k)" for k
    by (simp add: MemCache_find_def abs_cache_def map_of_abs option.map_comp o_def abs_entry_def)
  moreover have "MemCache_find_timeout c k = Some (v, x)" if "map_of (snd (abs_cache c)) k = Some (v, Some x)" for k v x
    using that by (auto simp: MemCache_find_timeout_def abs_cache_def map_of_abs abs_entry_def split: if_splits)
  moreover have "MemCache_size c = length (snd (abs_cache c))" by (simp add: MemCache_size_def abs_cache_def)
  moreover have "abs_cache (MemCache_new :: ('k, 'v) memcache) = (0, [])" by (simp add: MemCache_new_def abs_cache_def)
  ultimately show ?thesis using c by (auto simp: mc_ok_def timed_ok_def)
qed

theorem MemCache_refines_witness:
  "\<exists>c. cache_run [Put 5 ''a'' (1 :: nat) 10, Put 5 ''b'' 2 0, Watch 15] MemCache_new = Inr c \<and> abs_cache c = (5, [(''b'', 2, None)])"
proof -
  let ?ops = "[Put 5 ''a'' (1 :: nat) 10, Put 5 ''b'' 2 0, Watch 15]"
  have "fold spec_cache ?ops (0, []) = (5, [(''b'', 2, None)])" by (simp add: next_timestamp_def)
  then show ?thesis using MemCache_refines [of ?ops] by auto
qed

text \<open>
  C25. The watchdog never removes an entry that has no timeout or has not expired. It removes all expired entries
  when the times of expiry increase in the order of insertion, in particular with one timeout for all entries.
  In general it stops at the first entry that is still valid: an entry with a shorter timeout inserted later
  survives although it has expired.
\<close>

theorem MemCache_watchdog_expires:
  assumes "mc_ok c"
  shows "(\<exists>c'. MemCache_watchdog c utc = Inr c' \<and>
       (\<forall>k v x. map_of (snd (abs_cache c)) k = Some (v, x) \<longrightarrow> (x = None \<or> utc < the x) \<longrightarrow> map_of (snd (abs_cache c')) k = Some (v, x)) \<and>
       (sorted_wrt (\<le>) (map (\<lambda>(k, v, x). the x) (filter (\<lambda>(k, v, x). x \<noteq> None) (snd (abs_cache c)))) \<longrightarrow>
          (\<forall>k v x. map_of (snd (abs_cache c)) k = Some (v, Some x) \<longrightarrow> x \<le> utc \<longrightarrow> map_of (snd (abs_cache c')) k = None))) \<and>
     (\<exists>d. cache_run [Put 100 True () 50, Put 101 False () 10, Watch 120] MemCache_new = Inr d \<and>
        snd (abs_cache d) = [(True, (), Some 150), (False, (), Some 111)])"
proof
  let ?l = "snd (abs_cache c)" and ?timed = "\<lambda>(k, v, x). x \<noteq> None" and ?old = "\<lambda>(k, v, x). the x \<le> utc"
  let ?gone = "takeWhile ?old (filter ?timed ?l)"
  obtain c' where c': "MemCache_watchdog c utc = Inr c'" "abs_cache c' = spec_cache (Watch utc) (abs_cache c)"
    using MemCache_watchdog_ok [OF assms, of utc] by blast
  have l': "snd (abs_cache c') = filter (\<lambda>y. fst y \<notin> fst ` set ?gone) ?l"
    unfolding c'(2) by (cases "abs_cache c") (simp add: Let_def)
  have dist: "distinct (map fst ?l)" by (rule abs_distinct [OF assms])
  then have dist': "distinct (map fst (snd (abs_cache c')))" unfolding l' by (rule distinct_map_filter)
  have uniq: "x = y" if "(k, v, x) \<in> set ?l" "(k, w, y) \<in> set ?l" for k v w x y
    using eq_key_imp_eq_value [OF dist that] by simp
  have "map_of (snd (abs_cache c')) k = Some (v, x)" if "map_of ?l k = Some (v, x)" "x = None \<or> utc < the x" for k v x
  proof -
    have kx: "(k, v, x) \<in> set ?l" using that(1) by (rule map_of_SomeD)
    have "k \<notin> fst ` set ?gone"
    proof
      assume "k \<in> fst ` set ?gone"
      then obtain w y where "(k, w, y) \<in> set ?gone" by force
      then have "(k, w, y) \<in> set ?l" "y \<noteq> None" "the y \<le> utc" by (auto dest!: set_takeWhileD)
      then show False using uniq [OF kx] that(2) by auto
    qed
    then have "(k, v, x) \<in> set (snd (abs_cache c'))" using kx unfolding l' by simp
    then show ?thesis by (rule map_of_is_SomeI [OF dist'])
  qed
  moreover have "map_of (snd (abs_cache c')) k = None"
    if sorted: "sorted_wrt (\<le>) (map (\<lambda>(k, v, x). the x) (filter ?timed ?l))" and k: "map_of ?l k = Some (v, Some x)" "x \<le> utc" for k v x
  proof -
    have kx: "(k, v, Some x) \<in> set (filter ?timed ?l)" using map_of_SomeD [OF k(1)] by simp
    have "(k, v, Some x) \<in> set ?gone"
      using takeWhile_sorted [OF sorted kx, of utc] k(2) by (simp add: case_prod_beta')
    then show ?thesis unfolding l' by (force simp: map_of_eq_None_iff)
  qed
  ultimately show "\<exists>c'. MemCache_watchdog c utc = Inr c' \<and>
       (\<forall>k v x. map_of ?l k = Some (v, x) \<longrightarrow> (x = None \<or> utc < the x) \<longrightarrow> map_of (snd (abs_cache c')) k = Some (v, x)) \<and>
       (sorted_wrt (\<le>) (map (\<lambda>(k, v, x). the x) (filter ?timed ?l)) \<longrightarrow>
          (\<forall>k v x. map_of ?l k = Some (v, Some x) \<longrightarrow> x \<le> utc \<longrightarrow> map_of (snd (abs_cache c')) k = None))"
    using c'(1) by blast
  have "fold spec_cache [Put 100 True () 50, Put 101 False () 10, Watch 120] (0, []) = (101, [(True, (), Some 150), (False, (), Some 111)])"
    by (simp add: next_timestamp_def)
  then show "\<exists>d. cache_run [Put 100 True () 50, Put 101 False () 10, Watch 120] MemCache_new = Inr d \<and>
      snd (abs_cache d) = [(True, (), Some 150), (False, (), Some 111)]"
    using cache_run_ok [of MemCache_new "[Put 100 True () 50, Put 101 False () 10, Watch 120]"]
    by (auto simp: MemCache_new_def mc_ok_def timed_ok_def abs_cache_def)
qed

theorem MemCache_watchdog_expires_witness:
  "\<exists>c'. MemCache_watchdog (fst (MemCache_insert 7 (MemCache_new :: (nat, nat) memcache) 1 2 20)) 30 = Inr c'"
proof -
  have "mc_ok (MemCache_new :: (nat, nat) memcache)" by (simp add: MemCache_new_def mc_ok_def timed_ok_def)
  then have "mc_ok (fst (MemCache_insert 7 (MemCache_new :: (nat, nat) memcache) 1 2 20))"
    by (rule MemCache_insert_ok [THEN conjunct1]) (simp add: MemCache_new_def)
  from MemCache_watchdog_expires [OF this, of 30] show ?thesis by blast
qed

end
