(* ===== verification/FileCache.thy ===== *)
theory FileCache
  imports Cache Encoding
begin

text \<open>
  The file cache of \<^verbatim>\<open>include/cache/filecache.h\<close>, \<^verbatim>\<open>include/cache/filecache.inl\<close> and
  \<^verbatim>\<open>source/cache/filecache.cpp\<close>: the entries of a memory cache and, with a second pair of indexes over the
  same timestamps, the directories that were loaded into it and are loaded again when their timeout expires.

  The file system is a parameter: what a directory lists (links are already followed), whether a path is a
  directory, and the content of a file; \<^const>\<open>None\<close> is a file system exception. The insert handlers are
  named by a parameter type and run by a parameter function. The clock is a sequence of readings.
\<close>

type_synonym bytes = "u8 list"

record ('p, 'h) file_cache =
  fc_reads :: nat
  fc_timestamp :: u64
  fc_entries :: "(bytes, bytes) timed"
  fc_paths :: "('p, bytes \<times> 'h) timed"

record 'p file_system =
  fs_list :: "'p \<Rightarrow> (bytes \<times> 'p) list option"
  fs_is_directory :: "'p \<Rightarrow> bool"
  fs_read :: "'p \<Rightarrow> bytes option"

type_synonym clock = "nat \<Rightarrow> u64"
type_synonym ('p, 'h) handlers = "'h \<Rightarrow> ('p, 'h) file_cache \<Rightarrow> bytes \<Rightarrow> bytes \<Rightarrow> u64 \<Rightarrow> ('p, 'h) file_cache \<times> bool"

subsection \<open>Entries\<close>

definition FileCache_new :: "('p, 'h) file_cache" where
  "FileCache_new = \<lparr> fc_reads = 0, fc_timestamp = 0, fc_entries = \<lparr> by_key = [], by_timestamp = [] \<rparr>,
     fc_paths = \<lparr> by_key = [], by_timestamp = [] \<rparr> \<rparr>"

definition FileCache_empty :: "('p, 'h) file_cache \<Rightarrow> bool" where
  "FileCache_empty c \<longleftrightarrow> by_key (fc_entries c) = []"

definition FileCache_size :: "('p, 'h) file_cache \<Rightarrow> nat" where
  "FileCache_size c = length (by_key (fc_entries c))"

text \<open>Only an entry with a timeout reads the clock.\<close>

definition read_clock :: "u64 \<Rightarrow> nat \<Rightarrow> nat" where
  "read_clock timeout n = (if sint timeout > 0 then Suc n else n)"

definition FileCache_insert :: "clock \<Rightarrow> ('p, 'h) file_cache \<Rightarrow> bytes \<Rightarrow> bytes \<Rightarrow> u64 \<Rightarrow> ('p, 'h) file_cache \<times> bool" where
  "FileCache_insert clock c key value timeout =
     (let m = fst (remove_internal (fc_entries c) key);
          (ts, m) = update_entry (clock (fc_reads c)) (fc_timestamp c) m key value timeout
      in (c\<lparr> fc_reads := read_clock timeout (fc_reads c), fc_timestamp := ts, fc_entries := m \<rparr>, True))"

definition FileCache_find :: "('p, 'h) file_cache \<Rightarrow> bytes \<Rightarrow> bytes option" where
  "FileCache_find c key = map_option e_value (map_of (by_key (fc_entries c)) key)"

definition FileCache_find_timeout :: "('p, 'h) file_cache \<Rightarrow> bytes \<Rightarrow> (bytes \<times> u64) option" where
  "FileCache_find_timeout c key = map_option (\<lambda>e. (e_value e, expiry e)) (map_of (by_key (fc_entries c)) key)"

definition FileCache_remove :: "('p, 'h) file_cache \<Rightarrow> bytes \<Rightarrow> ('p, 'h) file_cache \<times> bool" where
  "FileCache_remove c key = (let (m, found) = remove_internal (fc_entries c) key in (c\<lparr> fc_entries := m \<rparr>, found))"

definition FileCache_clear :: "('p, 'h) file_cache \<Rightarrow> ('p, 'h) file_cache" where
  "FileCache_clear c = c\<lparr> fc_entries := \<lparr> by_key = [], by_timestamp = [] \<rparr>, fc_paths := \<lparr> by_key = [], by_timestamp = [] \<rparr> \<rparr>"

subsection \<open>Paths\<close>

definition key_prefix :: "bytes \<Rightarrow> bytes" where
  "key_prefix prefix = (if prefix = [] \<or> prefix = [0x2F] then [0x2F] else prefix @ [0x2F])"

text \<open>
  The recursion over the directories as a loop over the items of one directory. It does not end when a
  directory is reachable from itself through a link.
\<close>

partial_function (option) insert_items ::
  "'p file_system \<Rightarrow> (('p, 'h) file_cache \<Rightarrow> bytes \<Rightarrow> bytes \<Rightarrow> ('p, 'h) file_cache \<times> bool) \<Rightarrow> ('p, 'h) file_cache \<Rightarrow> bytes \<Rightarrow>
   (bytes \<times> 'p) list \<Rightarrow> (('p, 'h) file_cache \<times> bool) option" where
  "insert_items fs handler c prefix items =
     (case items of
        [] \<Rightarrow> Some (c, True)
      | item # rest \<Rightarrow>
          (let key = key_prefix prefix @ URLDecode (fst item); entry = snd item
           in if fs_is_directory fs entry then
                (case fs_list fs entry of
                   None \<Rightarrow> Some (c, False)
                 | Some sub \<Rightarrow>
                     Option.bind (insert_items fs handler c key sub) (\<lambda>(c, ok).
                       if ok then insert_items fs handler c prefix rest else Some (c, False)))
              else
                (case fs_read fs entry of
                   None \<Rightarrow> Some (c, False)
                 | Some content \<Rightarrow>
                     (case handler c key content of
                        (c, ok) \<Rightarrow> if ok then insert_items fs handler c prefix rest else Some (c, False)))))"

definition insert_path_internal ::
  "'p file_system \<Rightarrow> ('p, 'h) handlers \<Rightarrow> ('p, 'h) file_cache \<Rightarrow> 'p \<Rightarrow> bytes \<Rightarrow> u64 \<Rightarrow> 'h \<Rightarrow> (('p, 'h) file_cache \<times> bool) option" where
  "insert_path_internal fs run c path prefix timeout handler =
     (case fs_list fs path of
        None \<Rightarrow> Some (c, False)
      | Some items \<Rightarrow> insert_items fs (\<lambda>c key content. run handler c key content timeout) c prefix items)"

definition remove_path_internal :: "('p, 'h) file_cache \<Rightarrow> 'p \<Rightarrow> ('p, 'h) file_cache \<times> bool" where
  "remove_path_internal c path = (let (m, found) = remove_internal (fc_paths c) path in (c\<lparr> fc_paths := m \<rparr>, found))"

definition FileCache_insert_path ::
  "clock \<Rightarrow> 'p file_system \<Rightarrow> ('p, 'h) handlers \<Rightarrow> ('p, 'h) file_cache \<Rightarrow> 'p \<Rightarrow> bytes \<Rightarrow> u64 \<Rightarrow> 'h \<Rightarrow>
   (('p, 'h) file_cache \<times> bool) option" where
  "FileCache_insert_path clock fs run c path prefix timeout handler =
     Option.bind (insert_path_internal fs run (fst (remove_path_internal c path)) path prefix timeout handler) (\<lambda>(c, ok).
       if ok then
         (let (ts, m) = update_entry (clock (fc_reads c)) (fc_timestamp c) (fc_paths c) path (prefix, handler) timeout
          in Some (c\<lparr> fc_reads := read_clock timeout (fc_reads c), fc_timestamp := ts, fc_paths := m \<rparr>, True))
       else Some (c, False))"

definition FileCache_find_path :: "('p, 'h) file_cache \<Rightarrow> 'p \<Rightarrow> u64 option" where
  "FileCache_find_path c path = map_option expiry (map_of (by_key (fc_paths c)) path)"

definition FileCache_remove_path :: "('p, 'h) file_cache \<Rightarrow> 'p \<Rightarrow> ('p, 'h) file_cache \<times> bool" where
  "FileCache_remove_path c path = remove_path_internal c path"

subsection \<open>The watchdog\<close>

text \<open>
  The index operator of the map of paths would create an entry for a missing path; the invariant shows that
  this does not happen, so the model stops there.
\<close>

partial_function (option) refresh_paths ::
  "clock \<Rightarrow> 'p file_system \<Rightarrow> ('p, 'h) handlers \<Rightarrow> u64 \<Rightarrow> ('p, 'h) file_cache \<Rightarrow> ('p, 'h) file_cache result option" where
  "refresh_paths clock fs run utc c =
     (case by_timestamp (fc_paths c) of
        [] \<Rightarrow> Some (Inr c)
      | (ts, path) # rest \<Rightarrow>
          (case map_of (by_key (fc_paths c)) path of
             None \<Rightarrow> Some (Inl NullDereference)
           | Some e \<Rightarrow>
               if expiry e \<le> utc then
                 Option.bind (FileCache_insert_path clock fs run (c\<lparr> fc_paths := (fc_paths c)\<lparr> by_timestamp := rest \<rparr> \<rparr>)
                     path (fst (e_value e)) (e_timespan e) (snd (e_value e)))
                   (\<lambda>(c', ok). refresh_paths clock fs run utc c')
               else Some (Inr c)))"

definition FileCache_watchdog ::
  "clock \<Rightarrow> 'p file_system \<Rightarrow> ('p, 'h) handlers \<Rightarrow> ('p, 'h) file_cache \<Rightarrow> u64 \<Rightarrow> ('p, 'h) file_cache result option" where
  "FileCache_watchdog clock fs run c utc =
     (case expire_loop utc (by_key (fc_entries c)) (by_timestamp (fc_entries c)) of
        Inl e \<Rightarrow> Some (Inl e)
      | Inr m \<Rightarrow> refresh_paths clock fs run utc (c\<lparr> fc_entries := m \<rparr>))"

definition FileCache_swap :: "('p, 'h) file_cache \<Rightarrow> ('p, 'h) file_cache \<Rightarrow> ('p, 'h) file_cache \<times> ('p, 'h) file_cache" where
  "FileCache_swap c d = (d, c)"

text \<open>The handler that \<^verbatim>\<open>insert_path\<close> uses by default.\<close>

definition default_handler :: "clock \<Rightarrow> ('p, 'h) handlers" where
  "default_handler clock handler c key value timeout = FileCache_insert clock c key value timeout"

subsection \<open>Directory trees\<close>

datatype fs_tree = File bytes | Dir "(bytes \<times> fs_tree) list"

inductive stored :: "'p file_system \<Rightarrow> 'p \<Rightarrow> fs_tree \<Rightarrow> bool" for fs where
  stored_File: "\<not> fs_is_directory fs p \<Longrightarrow> fs_read fs p = Some b \<Longrightarrow> stored fs p (File b)"
| stored_Dir: "fs_is_directory fs p \<Longrightarrow> fs_list fs p = Some items \<Longrightarrow>
    list_all2 (\<lambda>i j. fst i = fst j \<and> stored fs (snd i) (snd j)) items ts \<Longrightarrow> stored fs p (Dir ts)"
  monos list_all2_mono

inductive_simps stored_File_simps: "stored fs p (File b)"
inductive_simps stored_Dir_simps: "stored fs p (Dir ts)"

definition stored_items :: "'p file_system \<Rightarrow> (bytes \<times> 'p) list \<Rightarrow> (bytes \<times> fs_tree) list \<Rightarrow> bool" where
  "stored_items fs items ts \<longleftrightarrow> list_all2 (\<lambda>i j. fst i = fst j \<and> stored fs (snd i) (snd j)) items ts"

text \<open>The keys and contents of the files below a directory, in the order in which they are loaded.\<close>

function listing :: "bytes \<Rightarrow> (bytes \<times> fs_tree) list \<Rightarrow> (bytes \<times> bytes) list" where
  "listing prefix [] = []"
| "listing prefix ((name, File b) # ts) = (key_prefix prefix @ URLDecode name, b) # listing prefix ts"
| "listing prefix ((name, Dir sub) # ts) = listing (key_prefix prefix @ URLDecode name) sub @ listing prefix ts"
  by pat_completeness auto
termination
  by (relation "measure (\<lambda>(prefix, ts). size_list (size_prod (\<lambda>_. 0) size) ts)") auto

lemma insert_items_listing:
  assumes "\<And>c k v. snd (h c k v)" "stored_items fs items ts"
  shows "insert_items fs h c prefix items = Some (fold (\<lambda>(k, v) c. fst (h c k v)) (listing prefix ts) c, True)"
  using assms(2)
proof (induction prefix ts arbitrary: c items rule: listing.induct)
  case (1 prefix)
  then show ?case by (simp add: stored_items_def insert_items.simps [of fs h c prefix])
next
  case (2 prefix name b ts)
  obtain p rest where items: "items = (name, p) # rest" "stored fs p (File b)" "stored_items fs rest ts"
    using 2(2) by (auto simp: stored_items_def list_all2_Cons2)
  let ?c = "fst (h c (key_prefix prefix @ URLDecode name) b)"
  have "insert_items fs h c prefix items = insert_items fs h ?c prefix rest"
    using items(2) assms(1) [of c "key_prefix prefix @ URLDecode name" b]
    by (simp add: items(1) insert_items.simps [of fs h c prefix "(name, p) # rest"] stored_File_simps Let_def case_prod_beta)
  then show ?case using 2(1) [OF items(3), of ?c] by simp
next
  case (3 prefix name sub ts)
  obtain p rest where items: "items = (name, p) # rest" "stored fs p (Dir sub)" "stored_items fs rest ts"
    using 3(3) by (auto simp: stored_items_def list_all2_Cons2)
  obtain inner where inner: "fs_is_directory fs p" "fs_list fs p = Some inner" "stored_items fs inner sub"
    using items(2) by (auto simp: stored_Dir_simps stored_items_def)
  let ?k = "key_prefix prefix @ URLDecode name"
  have "insert_items fs h c prefix items = Option.bind (insert_items fs h c ?k inner) (\<lambda>(c, ok).
      if ok then insert_items fs h c prefix rest else Some (c, False))"
    using inner(1,2) by (simp add: items(1) insert_items.simps [of fs h c prefix "(name, p) # rest"] Let_def)
  then show ?case using 3(1) [OF inner(3), of c] 3(2) [OF items(3)] by simp
qed

text \<open>A directory that lists itself is loaded forever.\<close>

lemma insert_items_cycle:
  assumes "fs_is_directory fs p" "fs_list fs p = Some [(name, p)]"
  shows "insert_items fs h c prefix [(name, p)] = None"
proof (rule ccontr)
  assume "insert_items fs h c prefix [(name, p)] \<noteq> None"
  then obtain y where y: "insert_items fs h c prefix [(name, p)] = Some y" by blast
  have "\<not> (fs = fs \<and> [(name, p)] = [(name, p)])"
  proof (rule insert_items.raw_induct [where P = "\<lambda>fs' h' c' prefix' items y. \<not> (fs' = fs \<and> items = [(name, p)])", OF _ y], goal_cases)
    case (1 f fs' h' c' prefix' items y)
    have "f fs h' c' (key_prefix prefix' @ URLDecode name) [(name, p)] \<noteq> None" if "fs' = fs \<and> items = [(name, p)]"
      using 1(2) assms that by (auto simp: Let_def split: Option.bind_splits)
    then show ?case using 1(1) by blast
  qed
  then show False by simp
qed

subsection \<open>The invariant\<close>

definition fc_ok :: "('p, 'h) file_cache \<Rightarrow> bool" where
  "fc_ok c \<longleftrightarrow> timed_ok (fc_timestamp c) (fc_entries c) \<and> timed_ok (fc_timestamp c) (fc_paths c)"

lemma FileCache_insert_ok:
  assumes "fc_ok c" "unat (fc_timestamp c) < 2 ^ 64 - 1"
  shows "fc_ok (fst (FileCache_insert clock c key value timeout)) \<and>
     FileCache_find (fst (FileCache_insert clock c key value timeout)) = (FileCache_find c)(key \<mapsto> value) \<and>
     fc_paths (fst (FileCache_insert clock c key value timeout)) = fc_paths c \<and>
     unat (fc_timestamp (fst (FileCache_insert clock c key value timeout))) \<le> max (unat (fc_timestamp c) + 1) (unat (clock (fc_reads c)))"
proof -
  let ?m = "fst (remove_internal (fc_entries c) key)"
  obtain ts' m' where u: "update_entry (clock (fc_reads c)) (fc_timestamp c) ?m key value timeout = (ts', m')" by fastforce
  have n: "map_of (by_key ?m) key = None" by (simp add: remove_internal_by_key map_of_erase_key)
  have ok: "timed_ok (fc_timestamp c) ?m" using assms(1) by (simp add: fc_ok_def remove_internal_ok)
  note e = update_entry_ok [OF ok n assms(2) u]
  have "map_option e_value (map_of (by_key m') k) = ((FileCache_find c)(key \<mapsto> value)) k" for k
    using e n by (auto simp: FileCache_find_def remove_internal_by_key map_of_erase_key map_add_def split: option.splits)
  moreover have "timed_ok ts' (fc_paths c)" using assms(1) e timed_ok_weaken by (auto simp: fc_ok_def)
  moreover have "unat ts' \<le> max (unat (fc_timestamp c) + 1) (unat (clock (fc_reads c)))"
    using e unat_next_timestamp [OF assms(2)] by (cases "sint timeout > 0") auto
  ultimately show ?thesis using u e by (auto simp: FileCache_insert_def fc_ok_def FileCache_find_def fun_eq_iff Let_def)
qed

lemma remove_path_internal_ok: "fc_ok c \<Longrightarrow> fc_ok (fst (remove_path_internal c path))"
  by (simp add: fc_ok_def remove_path_internal_def case_prod_beta Let_def remove_internal_ok)

lemma FileCache_remove_ok:
  "fc_ok c \<Longrightarrow> fc_ok (fst (FileCache_remove c key)) \<and> FileCache_find (fst (FileCache_remove c key)) = (FileCache_find c)(key := None)"
  by (auto simp: fc_ok_def FileCache_remove_def FileCache_find_def case_prod_beta Let_def remove_internal_ok remove_internal_by_key
      map_of_erase_key fun_eq_iff)

text \<open>Loading a sequence of files with the default handler.\<close>

fun load_files :: "clock \<Rightarrow> u64 \<Rightarrow> (bytes \<times> bytes) list \<Rightarrow> ('p, 'h) file_cache \<Rightarrow> ('p, 'h) file_cache" where
  "load_files clock timeout [] c = c"
| "load_files clock timeout ((k, v) # kvs) c = load_files clock timeout kvs (fst (FileCache_insert clock c k v timeout))"

lemma load_files_fold: "fold (\<lambda>(k, v) c. fst (default_handler clock h c k v timeout)) kvs c = load_files clock timeout kvs c"
  by (induction clock timeout kvs c rule: load_files.induct) (auto simp: default_handler_def)

lemma load_files_ok:
  assumes "fc_ok c" "\<forall>n. unat (clock n) < 2 ^ 63" "max (unat (fc_timestamp c)) (2 ^ 63) + length kvs < 2 ^ 64 - 1"
  shows "fc_ok (load_files clock timeout kvs c) \<and>
     FileCache_find (load_files clock timeout kvs c) = FileCache_find c ++ map_of (rev kvs) \<and>
     fc_paths (load_files clock timeout kvs c) = fc_paths c \<and>
     unat (fc_timestamp (load_files clock timeout kvs c)) \<le> max (unat (fc_timestamp c)) (2 ^ 63) + length kvs"
  using assms(1,3)
proof (induction kvs arbitrary: c)
  case (Cons x kvs)
  obtain k v where x: "x = (k, v)" by (cases x)
  let ?c = "fst (FileCache_insert clock c k v timeout)"
  have i: "fc_ok ?c" "FileCache_find ?c = (FileCache_find c)(k \<mapsto> v)" "fc_paths ?c = fc_paths c"
    "unat (fc_timestamp ?c) \<le> max (unat (fc_timestamp c) + 1) (unat (clock (fc_reads c)))"
    using FileCache_insert_ok [OF Cons.prems(1), of clock k v timeout] Cons.prems(2) by auto
  have b: "max (unat (fc_timestamp ?c)) (2 ^ 63) \<le> max (unat (fc_timestamp c)) (2 ^ 63) + 1"
    using i(4) assms(2) [THEN spec, of "fc_reads c"] by auto
  then have "max (unat (fc_timestamp ?c)) (2 ^ 63) + length kvs < 2 ^ 64 - 1" using Cons.prems(2) by (auto simp: max_def split: if_splits)
  note IH = Cons.IH [OF i(1) this]
  have f: "(FileCache_find c)(k \<mapsto> v) ++ map_of (rev kvs) = FileCache_find c ++ map_of (rev ((k, v) # kvs))"
    by (simp add: fun_eq_iff map_add_def split: option.splits)
  have t: "unat (fc_timestamp (load_files clock timeout kvs ?c)) \<le> max (unat (fc_timestamp c)) (2 ^ 63) + length ((k, v) # kvs)"
    using IH b by (simp only: list.size) linarith
  show ?case unfolding x load_files.simps using IH i(2,3) f t by metis
qed simp

lemma FileCache_find_update [simp]: "FileCache_find (c\<lparr> fc_reads := n, fc_timestamp := ts, fc_paths := m \<rparr>) = FileCache_find c"
  by (simp add: FileCache_find_def fun_eq_iff)

lemma FileCache_insert_path_ok:
  assumes "stored fs path (Dir ts)" "fc_ok c" "\<forall>n. unat (clock n) < 2 ^ 63"
    "max (unat (fc_timestamp c)) (2 ^ 63) + length (listing prefix ts) < 2 ^ 64 - 1"
  shows "\<exists>c'. FileCache_insert_path clock fs (default_handler clock) c path prefix timeout h = Some (c', True) \<and> fc_ok c' \<and>
     FileCache_find c' = FileCache_find c ++ map_of (rev (listing prefix ts)) \<and> FileCache_find_path c' path \<noteq> None"
proof -
  obtain items where items: "fs_list fs path = Some items" "stored_items fs items ts"
    using assms(1) by (auto simp: stored_Dir_simps stored_items_def)
  let ?c = "fst (remove_path_internal c path)" and ?l = "listing prefix ts"
  let ?d = "load_files clock timeout ?l ?c"
  have rm: "fc_timestamp ?c = fc_timestamp c" "FileCache_find ?c = FileCache_find c" "map_of (by_key (fc_paths ?c)) path = None"
    by (auto simp: remove_path_internal_def case_prod_beta Let_def FileCache_find_def remove_internal_by_key map_of_erase_key fun_eq_iff)
  have "insert_path_internal fs (default_handler clock) ?c path prefix timeout h = Some (?d, True)"
    using insert_items_listing [of "\<lambda>c key content. default_handler clock h c key content timeout" fs items ts ?c prefix] items load_files_fold
    by (simp add: insert_path_internal_def default_handler_def FileCache_insert_def case_prod_beta Let_def)
  moreover obtain ts' m where u: "update_entry (clock (fc_reads ?d)) (fc_timestamp ?d) (fc_paths ?d) path (prefix, h) timeout = (ts', m)" by fastforce
  moreover have d: "fc_ok ?d" "FileCache_find ?d = FileCache_find c ++ map_of (rev ?l)" "fc_paths ?d = fc_paths ?c"
    "unat (fc_timestamp ?d) < 2 ^ 64 - 1"
  proof -
    have "max (unat (fc_timestamp ?c)) (2 ^ 63) + length ?l < 2 ^ 64 - 1" using assms(4) rm(1) by simp
    note l = load_files_ok [OF remove_path_internal_ok [OF assms(2)] assms(3) this, of timeout]
    then show "fc_ok ?d" "FileCache_find ?d = FileCache_find c ++ map_of (rev ?l)" "fc_paths ?d = fc_paths ?c" using rm(2) by auto
    show "unat (fc_timestamp ?d) < 2 ^ 64 - 1" by (rule le_less_trans [OF _ assms(4)]) (use l rm(1) in auto)
  qed
  moreover have e: "timed_ok ts' m \<and> fc_timestamp ?d \<le> ts'" "map_of (by_key m) path \<noteq> None"
    using update_entry_ok [OF _ _ d(4) u] d(1,3) rm(3) by (auto simp: fc_ok_def)
  ultimately show ?thesis using timed_ok_weaken [of "fc_timestamp ?d" "fc_entries ?d" ts']
    by (auto simp: FileCache_insert_path_def fc_ok_def FileCache_find_path_def)
qed

lemma FileCache_insert_path_cycle:
  assumes "fs_is_directory fs loop" "fs_list fs loop = Some [(name, loop)]"
  shows "FileCache_insert_path clock fs run c loop prefix timeout h = None"
  by (simp add: FileCache_insert_path_def insert_path_internal_def assms(2) insert_items_cycle [OF assms])

subsection \<open>Properties of the file cache\<close>



end
