(* ===== verification/TokenBucket.thy ===== *)
theory TokenBucket
  imports Prelude
begin

text \<open>
  The rate limiter of \<^verbatim>\<open>include/algorithms/token_bucket.h\<close>, \<^verbatim>\<open>include/algorithms/token_bucket.inl\<close> and
  \<^verbatim>\<open>source/algorithms/token_bucket.cpp\<close>. A bucket keeps the time up to which its tokens are used; consuming
  moves this time towards the present with a compare-and-exchange. The clock reading and, for every attempt of
  the loop, the value found in the shared time and whether a matching exchange succeeds, are inputs.
\<close>

record token_bucket =
  tb_time :: u64
  tb_time_per_token :: u64
  tb_time_per_burst :: u64

definition TokenBucket :: "u64 \<Rightarrow> u64 \<Rightarrow> token_bucket result" where
  "TokenBucket rate burst =
     (if rate = 0 then Inl DomainError
      else Inr \<lparr> tb_time = 0, tb_time_per_token = 1000000000 div rate, tb_time_per_burst = burst * (1000000000 div rate) \<rparr>)"

definition TokenBucket_copy :: "token_bucket \<Rightarrow> token_bucket" where
  "TokenBucket_copy tb = \<lparr> tb_time = tb_time tb, tb_time_per_token = tb_time_per_token tb, tb_time_per_burst = tb_time_per_burst tb \<rparr>"

text \<open>The result holds the value stored by a successful exchange; no result means that the loop still runs.\<close>

fun consume_loop :: "u64 \<Rightarrow> u64 \<Rightarrow> u64 \<Rightarrow> u64 \<Rightarrow> (u64 \<times> bool) list \<Rightarrow> u64 option option" where
  "consume_loop now delay oldTime newTime [] = None"
| "consume_loop now delay oldTime newTime ((found, lucky) # attempts) =
     (let newTime = newTime + delay
      in if newTime > now then Some None
         else if found = oldTime \<and> lucky then Some (Some newTime)
         else consume_loop now delay found found attempts)"

definition consume_start :: "token_bucket \<Rightarrow> u64 \<Rightarrow> u64" where
  "consume_start tb now =
     (let minTime = now - tb_time_per_burst tb; oldTime = tb_time tb in if minTime > oldTime then minTime else oldTime)"

definition TokenBucket_Consume :: "token_bucket \<Rightarrow> u64 \<Rightarrow> u64 \<Rightarrow> (u64 \<times> bool) list \<Rightarrow> (token_bucket \<times> bool) option" where
  "TokenBucket_Consume tb now tokens attempts =
     (case consume_loop now (tokens * tb_time_per_token tb) (tb_time tb) (consume_start tb now) attempts of
        None \<Rightarrow> None
      | Some None \<Rightarrow> Some (tb, False)
      | Some (Some newTime) \<Rightarrow> Some (tb\<lparr> tb_time := newTime \<rparr>, True))"

text \<open>Without other threads the first attempt finds the value that was loaded, and it succeeds.\<close>

definition Consume_alone :: "token_bucket \<Rightarrow> u64 \<Rightarrow> u64 \<Rightarrow> token_bucket \<times> bool" where
  "Consume_alone tb now tokens = the (TokenBucket_Consume tb now tokens [(tb_time tb, True)])"

subsection \<open>One thread\<close>

text \<open>
  The conditions under which the 64-bit arithmetic does not wrap around: the clock is past one burst, and the
  delay of the request fits.
\<close>

definition in_range :: "token_bucket \<Rightarrow> u64 \<Rightarrow> u64 \<Rightarrow> bool" where
  "in_range tb now tokens \<longleftrightarrow> unat (tb_time_per_burst tb) \<le> unat now \<and> unat (tb_time tb) \<le> unat now \<and>
     unat now + unat tokens * unat (tb_time_per_token tb) < 2 ^ 64"

lemma Consume_alone_eq:
  "Consume_alone tb now tokens =
     (let newTime = consume_start tb now + tokens * tb_time_per_token tb
      in if newTime > now then (tb, False) else (tb\<lparr> tb_time := newTime \<rparr>, True))"
  by (simp add: Consume_alone_def TokenBucket_Consume_def Let_def)

lemma unat_consume_start:
  assumes "in_range tb now tokens"
  shows "unat (consume_start tb now) = max (unat (tb_time tb)) (unat now - unat (tb_time_per_burst tb))"
proof -
  have "unat (now - tb_time_per_burst tb) = unat now - unat (tb_time_per_burst tb)"
    using assms by (simp add: in_range_def unat_sub word_le_nat_alt)
  then show ?thesis by (auto simp: consume_start_def Let_def word_less_nat_alt)
qed

lemma unat_delay:
  assumes "in_range tb now tokens"
  shows "unat (tokens * tb_time_per_token tb) = unat tokens * unat (tb_time_per_token tb)"
  using assms by (simp add: in_range_def unat_word_ariths)

lemma unat_new_time:
  assumes "in_range tb now tokens"
  shows "unat (consume_start tb now + tokens * tb_time_per_token tb) =
    max (unat (tb_time tb)) (unat now - unat (tb_time_per_burst tb)) + unat tokens * unat (tb_time_per_token tb)"
proof -
  have "max (unat (tb_time tb)) (unat now - unat (tb_time_per_burst tb)) + unat tokens * unat (tb_time_per_token tb) < 2 ^ 64"
    using assms by (auto simp: in_range_def)
  then show ?thesis using unat_consume_start [OF assms] unat_delay [OF assms] by (simp add: unat_word_ariths(1))
qed

fun consume_run :: "token_bucket \<Rightarrow> (u64 \<times> u64) list \<Rightarrow> token_bucket \<times> u64 list" where
  "consume_run tb [] = (tb, [])"
| "consume_run tb ((now, tokens) # reqs) =
     (let (tb', ok) = Consume_alone tb now tokens; (tb'', granted) = consume_run tb' reqs
      in (tb'', if ok then tokens # granted else granted))"

text \<open>Requests whose times do not decrease and that stay in range.\<close>

fun in_order :: "token_bucket \<Rightarrow> nat \<Rightarrow> (u64 \<times> u64) list \<Rightarrow> bool" where
  "in_order tb earliest [] \<longleftrightarrow> True"
| "in_order tb earliest ((now, tokens) # reqs) \<longleftrightarrow> earliest \<le> unat now \<and> unat (tb_time_per_burst tb) \<le> unat now \<and>
     unat now + unat tokens * unat (tb_time_per_token tb) < 2 ^ 64 \<and> in_order tb (unat now) reqs"

definition last_time :: "nat \<Rightarrow> (u64 \<times> u64) list \<Rightarrow> nat" where
  "last_time earliest reqs = (if reqs = [] then earliest else unat (fst (last reqs)))"

lemma last_time_mono: "in_order tb earliest reqs \<Longrightarrow> earliest \<le> last_time earliest reqs"
proof (induction tb earliest reqs rule: in_order.induct)
  case (2 tb earliest now tokens reqs)
  then show ?case by (auto simp: last_time_def split: if_splits)
qed (simp add: last_time_def)

lemma in_order_time [simp]: "in_order (tb\<lparr> tb_time := t \<rparr>) earliest reqs = in_order tb earliest reqs"
  by (induction tb earliest reqs rule: in_order.induct) simp_all

lemma consume_run_nothing: "consume_run tb reqs = (tb', []) \<Longrightarrow> tb' = tb"
proof (induction tb reqs rule: consume_run.induct)
  case (2 tb now tokens reqs)
  then show ?case by (auto simp: Consume_alone_eq Let_def split: prod.splits if_splits)
qed simp

lemma consume_run_bound:
  assumes "in_order tb earliest reqs" "unat (tb_time tb) \<le> earliest" "consume_run tb reqs = (tb', granted)" "granted \<noteq> []"
  shows "max (unat (tb_time tb)) (earliest - unat (tb_time_per_burst tb)) +
     sum_list (map unat granted) * unat (tb_time_per_token tb) \<le> unat (tb_time tb') \<and> unat (tb_time tb') \<le> last_time earliest reqs"
  using assms
proof (induction reqs arbitrary: tb earliest granted)
  case (Cons x reqs)
  obtain now tokens where x: "x = (now, tokens)" by (cases x)
  have r: "earliest \<le> unat now" "in_order tb (unat now) reqs" "in_range tb now tokens"
    using Cons.prems(1,2) x by (auto simp: in_range_def)
  have l: "last_time earliest (x # reqs) = last_time (unat now) reqs" by (simp add: last_time_def x)
  let ?new = "consume_start tb now + tokens * tb_time_per_token tb"
  show ?case
  proof (cases "?new > now")
    case True
    then have "consume_run tb reqs = (tb', granted)"
      using Cons.prems(3) by (simp add: x Consume_alone_eq Let_def split: prod.splits)
    from Cons.IH [OF r(2) _ this Cons.prems(4)] r(1) Cons.prems(2) show ?thesis unfolding l by auto
  next
    case False
    let ?tb = "tb\<lparr> tb_time := ?new \<rparr>"
    obtain g where g: "consume_run ?tb reqs = (tb', g)" "granted = tokens # g"
      using Cons.prems(3) False by (auto simp: x Consume_alone_eq Let_def split: prod.splits)
    have new: "unat ?new = max (unat (tb_time tb)) (unat now - unat (tb_time_per_burst tb)) + unat tokens * unat (tb_time_per_token tb)"
      "unat ?new \<le> unat now" using unat_new_time [OF r(3)] False by (auto simp: word_less_nat_alt not_less)
    have "unat ?new + sum_list (map unat g) * unat (tb_time_per_token tb) \<le> unat (tb_time tb') \<and> unat (tb_time tb') \<le> last_time (unat now) reqs"
    proof (cases "g = []")
      case True
      then show ?thesis using consume_run_nothing [of ?tb reqs tb'] g(1) new(2) last_time_mono [OF r(2)] by auto
    next
      case False
      then show ?thesis using Cons.IH [OF _ _ g(1) False, of "unat now"] r(2) new(2) by auto
    qed
    then show ?thesis unfolding l g(2) using new(1) r(1) by (auto simp: algebra_simps)
  qed
qed simp

subsection \<open>Properties\<close>




end
