(* ===== verification/SpinBarrier.thy ===== *)
theory SpinBarrier
  imports Interleaving
begin

text \<open>
  The spin barrier of \<^verbatim>\<open>include/threads/spin_barrier.h\<close> and \<^verbatim>\<open>include/threads/spin_barrier.inl\<close>, used
  any number of times by a fixed set of threads. \<^verbatim>\<open>Wait\<close> is given as the sequence of its accesses to the
  atomic counter and generation; the generation is a 32-bit word that wraps around.
\<close>

record spin_barrier =
  sb_counter :: int
  sb_generation :: u32
  sb_threads :: int

definition SpinBarrier_new :: "int \<Rightarrow> spin_barrier" where
  "SpinBarrier_new threads = \<lparr> sb_counter = threads, sb_generation = 0, sb_threads = threads \<rparr>"

datatype wait_pc = SStart | SLoaded u32 | SAdvance | SReset | SSpin u32 | SCheck u32

fun SpinBarrier_Wait_step :: "spin_barrier \<Rightarrow> wait_pc \<Rightarrow> spin_barrier \<times> (wait_pc + bool)" where
  "SpinBarrier_Wait_step b SStart = (b, Inl (SLoaded (sb_generation b)))"
| "SpinBarrier_Wait_step b (SLoaded generation) =
     (let counter = sb_counter b - 1
      in (b\<lparr> sb_counter := counter \<rparr>, Inl (if counter = 0 then SAdvance else SSpin generation)))"
| "SpinBarrier_Wait_step b SAdvance = (b\<lparr> sb_generation := sb_generation b + 1 \<rparr>, Inl SReset)"
| "SpinBarrier_Wait_step b SReset = (b\<lparr> sb_counter := sb_threads b \<rparr>, Inr True)"
| "SpinBarrier_Wait_step b (SSpin generation) =
     (b, Inl (if generation = sb_generation b then SSpin generation else SCheck generation))"
| "SpinBarrier_Wait_step b (SCheck generation) =
     (b, if sb_counter b = 0 then Inl (SSpin generation) else Inr False)"

subsection \<open>The threads\<close>

text \<open>
  The history counts, for every thread, how often it has arrived (decremented the counter) and passed (returned),
  the rounds that were completed and the calls that returned true.
\<close>

record barrier_system =
  bs_barrier :: spin_barrier
  bs_pc :: "nat \<Rightarrow> wait_pc option"
  bs_arrived :: "nat \<Rightarrow> nat"
  bs_passed :: "nat \<Rightarrow> nat"
  bs_rounds :: nat
  bs_leaders :: nat

fun arrives :: "wait_pc \<Rightarrow> nat" where
  "arrives (SLoaded g) = 1"
| "arrives _ = 0"

fun completes :: "wait_pc \<Rightarrow> nat" where
  "completes SAdvance = 1"
| "completes _ = 0"

definition barrier_move :: "barrier_system \<Rightarrow> nat \<Rightarrow> barrier_system" where
  "barrier_move s i =
     (case bs_pc s i of
        None \<Rightarrow> s\<lparr> bs_pc := (bs_pc s)(i := Some SStart) \<rparr>
      | Some p \<Rightarrow>
          (case SpinBarrier_Wait_step (bs_barrier s) p of
             (b, Inl p') \<Rightarrow>
               s\<lparr> bs_barrier := b, bs_pc := (bs_pc s)(i := Some p'),
                  bs_arrived := (bs_arrived s)(i := bs_arrived s i + arrives p), bs_rounds := bs_rounds s + completes p \<rparr>
           | (b, Inr r) \<Rightarrow>
               s\<lparr> bs_barrier := b, bs_pc := (bs_pc s)(i := None), bs_passed := (bs_passed s)(i := bs_passed s i + 1),
                  bs_leaders := bs_leaders s + (if r then 1 else 0) \<rparr>))"

inductive barrier_step :: "nat \<Rightarrow> barrier_system \<Rightarrow> barrier_system \<Rightarrow> bool" for n where
  move: "i < n \<Longrightarrow> barrier_step n s (barrier_move s i)"

definition barrier_init :: "nat \<Rightarrow> barrier_system" where
  "barrier_init n =
     \<lparr> bs_barrier = SpinBarrier_new (int n), bs_pc = (\<lambda>_. None), bs_arrived = (\<lambda>_. 0), bs_passed = (\<lambda>_. 0),
       bs_rounds = 0, bs_leaders = 0 \<rparr>"

definition barrier_start :: "nat \<Rightarrow> barrier_system \<Rightarrow> bool" where
  "barrier_start n s \<longleftrightarrow> s = barrier_init n"

subsection \<open>The invariant\<close>

text \<open>
  In a round a thread is at rest (it has not arrived), waiting (it has arrived), or still on its way out of the
  round before. The last thread to arrive closes the round and resets the counter while all others spin.
\<close>

definition resting :: "barrier_system \<Rightarrow> nat \<Rightarrow> bool" where
  "resting s i \<longleftrightarrow> bs_pc s i \<in> {None, Some SStart, Some (SLoaded (sb_generation (bs_barrier s)))} \<and>
     bs_arrived s i = bs_rounds s \<and> bs_passed s i = bs_rounds s"

definition waiting :: "barrier_system \<Rightarrow> nat \<Rightarrow> bool" where
  "waiting s i \<longleftrightarrow> bs_pc s i = Some (SSpin (sb_generation (bs_barrier s))) \<and>
     bs_arrived s i = Suc (bs_rounds s) \<and> bs_passed s i = bs_rounds s"

definition leaving :: "barrier_system \<Rightarrow> nat \<Rightarrow> bool" where
  "leaving s i \<longleftrightarrow> bs_pc s i \<in> {Some (SSpin (sb_generation (bs_barrier s) - 1)), Some (SCheck (sb_generation (bs_barrier s) - 1))} \<and>
     bs_arrived s i = bs_rounds s \<and> Suc (bs_passed s i) = bs_rounds s"

definition open_round :: "nat \<Rightarrow> barrier_system \<Rightarrow> bool" where
  "open_round n s \<longleftrightarrow> (\<forall>i < n. resting s i \<or> waiting s i \<or> leaving s i) \<and>
     sb_counter (bs_barrier s) = int n - int (card {i. i < n \<and> waiting s i}) \<and> 0 < sb_counter (bs_barrier s) \<and> bs_leaders s = bs_rounds s"

definition closing :: "nat \<Rightarrow> barrier_system \<Rightarrow> nat \<Rightarrow> bool" where
  "closing n s l \<longleftrightarrow> l < n \<and> bs_pc s l = Some SAdvance \<and> bs_arrived s l = Suc (bs_rounds s) \<and> bs_passed s l = bs_rounds s \<and>
     (\<forall>i < n. i \<noteq> l \<longrightarrow> waiting s i) \<and> sb_counter (bs_barrier s) = 0 \<and> bs_leaders s = bs_rounds s"

definition resetting :: "nat \<Rightarrow> barrier_system \<Rightarrow> nat \<Rightarrow> bool" where
  "resetting n s l \<longleftrightarrow> l < n \<and> bs_pc s l = Some SReset \<and> bs_arrived s l = bs_rounds s \<and> Suc (bs_passed s l) = bs_rounds s \<and>
     (\<forall>i < n. i \<noteq> l \<longrightarrow> leaving s i) \<and> sb_counter (bs_barrier s) = 0 \<and> Suc (bs_leaders s) = bs_rounds s"

definition barrier_inv :: "nat \<Rightarrow> barrier_system \<Rightarrow> bool" where
  "barrier_inv n s \<longleftrightarrow> sb_threads (bs_barrier s) = int n \<and> (open_round n s \<or> (\<exists>l. closing n s l \<or> resetting n s l))"

lemmas phases = resting_def waiting_def leaving_def

lemma card_waiting_less: "0 < int n - int (card {i. i < n \<and> P i}) \<Longrightarrow> \<exists>i < n. \<not> P i"
proof (rule ccontr)
  assume a: "0 < int n - int (card {i. i < n \<and> P i})" "\<not> (\<exists>i < n. \<not> P i)"
  then have "{i. i < n \<and> P i} = {..<n}" by auto
  then show False using a(1) by simp
qed

lemma card_all_others:
  assumes "card {i. i < n \<and> P i} = n - 1" "l < n" "\<not> P l"
  shows "\<forall>i < n. i \<noteq> l \<longrightarrow> P i"
proof -
  have "{i. i < n \<and> P i} \<subseteq> {..<n} - {l}" using assms(3) by auto
  moreover have "card ({..<n} - {l}) = n - 1" using assms(2) by simp
  ultimately have "{i. i < n \<and> P i} = {..<n} - {l}" using assms(1) by (intro card_subset_eq) auto
  then show ?thesis by auto
qed

lemma not_waiting: "resting s i \<or> leaving s i \<Longrightarrow> \<not> waiting s i"
  by (auto simp: phases)


text \<open>The step of a thread, by the place it is at.\<close>

lemma barrier_moves:
  "bs_pc s i = None \<Longrightarrow> barrier_move s i = s\<lparr> bs_pc := (bs_pc s)(i := Some SStart) \<rparr>"
  "bs_pc s i = Some SStart \<Longrightarrow> barrier_move s i = s\<lparr> bs_pc := (bs_pc s)(i := Some (SLoaded (sb_generation (bs_barrier s)))) \<rparr>"
  "bs_pc s i = Some SAdvance \<Longrightarrow> barrier_move s i =
     s\<lparr> bs_barrier := bs_barrier s\<lparr> sb_generation := sb_generation (bs_barrier s) + 1 \<rparr>, bs_pc := (bs_pc s)(i := Some SReset),
        bs_rounds := Suc (bs_rounds s) \<rparr>"
  "bs_pc s i = Some SReset \<Longrightarrow> barrier_move s i =
     s\<lparr> bs_barrier := bs_barrier s\<lparr> sb_counter := sb_threads (bs_barrier s) \<rparr>, bs_pc := (bs_pc s)(i := None),
        bs_passed := (bs_passed s)(i := Suc (bs_passed s i)), bs_leaders := Suc (bs_leaders s) \<rparr>"
  "bs_pc s i = Some (SSpin g) \<Longrightarrow> barrier_move s i =
     s\<lparr> bs_pc := (bs_pc s)(i := Some (if g = sb_generation (bs_barrier s) then SSpin g else SCheck g)) \<rparr>"
  "bs_pc s i = Some (SCheck g) \<Longrightarrow> barrier_move s i =
     (if sb_counter (bs_barrier s) = 0 then s\<lparr> bs_pc := (bs_pc s)(i := Some (SSpin g)) \<rparr>
      else s\<lparr> bs_pc := (bs_pc s)(i := None), bs_passed := (bs_passed s)(i := Suc (bs_passed s i)) \<rparr>)"
  by (simp_all add: barrier_move_def fun_upd_idem)

lemma phases_other:
  assumes "bs_pc t j = bs_pc s j" "bs_arrived t j = bs_arrived s j" "bs_passed t j = bs_passed s j"
    and "sb_generation (bs_barrier t) = sb_generation (bs_barrier s)" "bs_rounds t = bs_rounds s"
  shows "resting t j = resting s j" "waiting t j = waiting s j" "leaving t j = leaving s j"
  using assms by (simp_all add: phases)

lemma card_waiting_insert:
  assumes "i < (n :: nat)" "\<not> P i" "Q i" "\<forall>j. j \<noteq> i \<longrightarrow> Q j = P j"
  shows "card {j. j < n \<and> Q j} = Suc (card {j. j < n \<and> P j})"
proof -
  have "{j. j < n \<and> Q j} = insert i {j. j < n \<and> P j}" using assms by auto
  moreover have "finite {j. j < n \<and> P j}" by simp
  ultimately show ?thesis using assms(2) by (simp only: card_insert_disjoint mem_Collect_eq simp_thms)
qed

text \<open>A step of a thread that stays in its phase, or returns from the round before, keeps the round open.\<close>

lemma open_round_keep:
  assumes "open_round n s" "i < n" "bs_barrier t = bs_barrier s" "bs_rounds t = bs_rounds s" "bs_leaders t = bs_leaders s"
    and o: "\<And>j. j \<noteq> i \<Longrightarrow> bs_pc t j = bs_pc s j \<and> bs_arrived t j = bs_arrived s j \<and> bs_passed t j = bs_passed s j"
    and "waiting t i = waiting s i" "resting t i \<or> waiting t i \<or> leaving t i"
  shows "open_round n t"
proof -
  have eq: "resting t j = resting s j \<and> waiting t j = waiting s j \<and> leaving t j = leaving s j" if "j \<noteq> i" for j
    using phases_other [of t j s] o [OF that] assms(3,4) by simp
  then have w: "waiting t j = waiting s j" for j using assms(7) by (cases "j = i") auto
  have "resting t j \<or> waiting t j \<or> leaving t j" if "j < n" for j
    using that eq assms(1,8) by (cases "j = i") (auto simp: open_round_def)
  then show ?thesis using assms(1,3,4,5) w by (simp add: open_round_def)
qed

lemma open_round_arrive:
  assumes "open_round n s" "i < n" "bs_pc s i = Some (SLoaded g)" "sb_threads (bs_barrier s) = int n"
  shows "barrier_inv n (barrier_move s i)"
proof -
  let ?t = "barrier_move s i"
  have i: "resting s i" "\<not> waiting s i" "g = sb_generation (bs_barrier s)"
    using assms by (auto simp: open_round_def phases)
  have c: "sb_counter (bs_barrier s) = int n - int (card {j. j < n \<and> waiting s j})" "0 < sb_counter (bs_barrier s)"
    using assms(1) by (auto simp: open_round_def)
  have t: "sb_threads (bs_barrier ?t) = int n" "bs_rounds ?t = bs_rounds s" "bs_leaders ?t = bs_leaders s"
    "sb_generation (bs_barrier ?t) = sb_generation (bs_barrier s)" "sb_counter (bs_barrier ?t) = sb_counter (bs_barrier s) - 1"
    "bs_pc ?t i = Some (if sb_counter (bs_barrier s) - 1 = 0 then SAdvance else SSpin g)"
    "bs_arrived ?t i = Suc (bs_arrived s i)" "bs_passed ?t i = bs_passed s i"
    using assms(3,4) by (simp_all add: barrier_move_def Let_def)
  have o: "bs_pc ?t j = bs_pc s j \<and> bs_arrived ?t j = bs_arrived s j \<and> bs_passed ?t j = bs_passed s j" if "j \<noteq> i" for j
    using that assms(3) by (simp add: barrier_move_def Let_def)
  have eq: "resting ?t j = resting s j \<and> waiting ?t j = waiting s j \<and> leaving ?t j = leaving s j" if "j \<noteq> i" for j
    using phases_other [of ?t j s] o [OF that] t by simp
  show ?thesis
  proof (cases "sb_counter (bs_barrier s) = 1")
    case True
    then have "\<forall>j < n. j \<noteq> i \<longrightarrow> waiting s j" using c(1) assms(2) i(2) by (intro card_all_others) linarith+
    then have "closing n ?t i" using True assms(1,2) i(1) t eq by (auto simp: closing_def resting_def open_round_def)
    then show ?thesis using t(1) by (auto simp: barrier_inv_def)
  next
    case False
    then have w: "waiting ?t i" using i t by (auto simp: phases)
    have "card {j. j < n \<and> waiting ?t j} = Suc (card {j. j < n \<and> waiting s j})"
      using assms(2) i(2) w eq by (intro card_waiting_insert) auto
    moreover have "resting ?t j \<or> waiting ?t j \<or> leaving ?t j" if "j < n" for j
      using that eq w assms(1) by (cases "j = i") (auto simp: open_round_def)
    ultimately have "open_round n ?t" using False c t assms(1) by (simp add: open_round_def)
    then show ?thesis using t(1) by (auto simp: barrier_inv_def)
  qed
qed

lemma open_round_step:
  assumes "open_round n s" "i < n" "sb_threads (bs_barrier s) = int n"
  shows "barrier_inv n (barrier_move s i)"
proof (cases "\<exists>g. bs_pc s i = Some (SLoaded g)")
  case True
  then show ?thesis using open_round_arrive assms by blast
next
  case False
  have c: "0 < sb_counter (bs_barrier s)" and p: "resting s i \<or> waiting s i \<or> leaving s i"
    using assms by (auto simp: open_round_def)
  have "open_round n (barrier_move s i)"
  proof (rule open_round_keep [OF assms(1,2)])
    show "bs_barrier (barrier_move s i) = bs_barrier s" "bs_rounds (barrier_move s i) = bs_rounds s"
      "bs_leaders (barrier_move s i) = bs_leaders s"
      using p False c by (auto simp: barrier_moves phases)
    show "waiting (barrier_move s i) i = waiting s i"
      using p False c by (auto simp: barrier_moves phases)
    show "resting (barrier_move s i) i \<or> waiting (barrier_move s i) i \<or> leaving (barrier_move s i) i"
      using p False c by (auto simp: barrier_moves phases)
  qed (use p False c in \<open>auto simp: barrier_moves phases\<close>)
  then show ?thesis using assms(3) p False c by (auto simp: barrier_inv_def barrier_moves phases)
qed

lemma closing_step:
  assumes "closing n s l" "i < n" "sb_threads (bs_barrier s) = int n"
  shows "barrier_inv n (barrier_move s i)"
proof (cases "i = l")
  case True
  then have "resetting n (barrier_move s i) l"
    using assms by (auto simp: closing_def resetting_def barrier_moves phases)
  then show ?thesis using True assms by (auto simp: barrier_inv_def barrier_moves closing_def)
next
  case False
  then have "barrier_move s i = s"
    using assms by (auto simp: closing_def barrier_moves waiting_def fun_upd_idem)
  then show ?thesis using assms by (auto simp: barrier_inv_def)
qed

lemma resetting_step:
  assumes "resetting n s l" "i < n" "sb_threads (bs_barrier s) = int n"
  shows "barrier_inv n (barrier_move s i)"
proof (cases "i = l")
  case True
  then have o: "resting (barrier_move s i) l" "\<forall>j < n. j \<noteq> l \<longrightarrow> leaving (barrier_move s i) j"
    using assms by (auto simp: resetting_def barrier_moves phases)
  then have none: "{j. j < n \<and> waiting (barrier_move s i) j} = {}" using not_waiting by blast
  have "open_round n (barrier_move s i)"
    unfolding open_round_def none
    using o True assms by (auto simp: resetting_def barrier_moves)
  then show ?thesis using True assms by (auto simp: barrier_inv_def barrier_moves resetting_def)
next
  case False
  then have "leaving s i" using assms by (auto simp: resetting_def)
  then obtain p where p: "barrier_move s i = s\<lparr> bs_pc := (bs_pc s)(i := Some p) \<rparr>"
    "p \<in> {SSpin (sb_generation (bs_barrier s) - 1), SCheck (sb_generation (bs_barrier s) - 1)}"
    using assms(1) by (auto simp: leaving_def barrier_moves resetting_def)
  then have "resetting n (barrier_move s i) l" using False assms(1) by (auto simp: resetting_def leaving_def)
  then show ?thesis using p(1) assms(3) by (auto simp: barrier_inv_def)
qed

lemma barrier_inv_move: "barrier_inv n s \<Longrightarrow> i < n \<Longrightarrow> barrier_inv n (barrier_move s i)"
  using open_round_step closing_step resetting_step unfolding barrier_inv_def [of n s] by blast

lemma barrier_inv_step: "barrier_inv n s \<Longrightarrow> barrier_step n s t \<Longrightarrow> barrier_inv n t"
  by (elim barrier_step.cases) (simp add: barrier_inv_move)

lemma barrier_inv_start: "0 < n \<Longrightarrow> barrier_start n s \<Longrightarrow> barrier_inv n s"
  by (auto simp: barrier_inv_def barrier_start_def barrier_init_def open_round_def resting_def waiting_def SpinBarrier_new_def)

interpretation barrier: step_invariant "barrier_start n" "barrier_step n" "\<lambda>s. 0 < n \<longrightarrow> barrier_inv n s"
  by unfold_locales (auto intro: barrier_inv_start barrier_inv_step)


lemma barrier_reach: "reach (barrier_start n) (barrier_step n) s \<Longrightarrow> 0 < n \<Longrightarrow> barrier_inv n s"
  using barrier.reach_inv by blast

lemma barrier_inv_phase:
  "barrier_inv n s \<Longrightarrow> i < n \<Longrightarrow>
     bs_passed s i \<le> bs_rounds s \<and> bs_rounds s \<le> bs_arrived s i \<and> bs_arrived s i \<le> Suc (bs_rounds s) \<and> bs_rounds s \<le> Suc (bs_passed s i)"
  by (auto simp: barrier_inv_def open_round_def closing_def resetting_def phases)

subsection \<open>Progress\<close>

text \<open>
  The rounds a thread has still to pass and the steps left in the current call. In every state some thread has a
  step that makes the sum smaller, until all threads have passed the given round and are idle.
\<close>

fun steps_left :: "wait_pc option \<Rightarrow> nat" where
  "steps_left None = 9"
| "steps_left (Some SStart) = 8"
| "steps_left (Some (SLoaded g)) = 7"
| "steps_left (Some SAdvance) = 5"
| "steps_left (Some SReset) = 4"
| "steps_left (Some (SSpin g)) = 3"
| "steps_left (Some (SCheck g)) = 2"

definition work_left :: "nat \<Rightarrow> barrier_system \<Rightarrow> nat \<Rightarrow> nat" where
  "work_left r s i = 10 * (r - bs_passed s i) + steps_left (bs_pc s i)"

definition passed_all :: "nat \<Rightarrow> nat \<Rightarrow> barrier_system \<Rightarrow> bool" where
  "passed_all n r s \<longleftrightarrow> (\<forall>i < n. bs_pc s i = None \<and> bs_passed s i = r)"

definition heading :: "nat \<Rightarrow> nat \<Rightarrow> barrier_system \<Rightarrow> bool" where
  "heading n r s \<longleftrightarrow> bs_rounds s < r \<or> bs_rounds s = r \<and> (\<forall>i < n. bs_arrived s i = r \<and> (bs_passed s i = r \<longrightarrow> bs_pc s i = None))"

lemma work_left_other: "j \<noteq> i \<Longrightarrow> work_left r (barrier_move s i) j = work_left r s j"
  by (auto simp: work_left_def barrier_move_def split: option.splits prod.splits sum.splits)

lemma sum_work_left_less:
  assumes "i < n" "work_left r (barrier_move s i) i < work_left r s i"
  shows "sum (work_left r (barrier_move s i)) {..<n} < sum (work_left r s) {..<n}"
  using assms work_left_other [of _ i r s]
  by (intro sum_strict_mono_ex1) (auto intro: le_less, metis le_less)


lemma arrive_work: "bs_pc s i = Some (SLoaded g) \<Longrightarrow> work_left r (barrier_move s i) i < work_left r s i"
  by (simp add: work_left_def barrier_move_def Let_def)

lemma arrive_heading: "bs_pc s i = Some (SLoaded g) \<Longrightarrow> bs_rounds (barrier_move s i) = bs_rounds s"
  by (simp add: barrier_move_def Let_def)

lemma open_round_progress:
  assumes "open_round n s" "heading n r s" "\<not> passed_all n r s"
  shows "\<exists>i < n. work_left r (barrier_move s i) i < work_left r s i \<and> heading n r (barrier_move s i)"
proof -
  have c: "0 < sb_counter (bs_barrier s)" using assms(1) by (simp add: open_round_def)
  obtain i where i: "i < n" "resting s i \<or> leaving s i" "bs_rounds s < r \<or> leaving s i"
  proof (cases "bs_rounds s < r")
    case True
    obtain i where "i < n" "\<not> waiting s i" using card_waiting_less [of n "waiting s"] assms(1) by (auto simp: open_round_def)
    then show ?thesis using True that assms(1) by (auto simp: open_round_def)
  next
    case False
    then obtain i where "i < n" "bs_passed s i \<noteq> r" using assms(2,3) by (auto simp: heading_def passed_all_def)
    then show ?thesis using False that assms(1,2) by (auto simp: open_round_def heading_def phases)
  qed
  have "work_left r (barrier_move s i) i < work_left r s i"
  proof (cases "\<exists>g. bs_pc s i = Some (SLoaded g)")
    case False
    then show ?thesis using i c assms(2) by (auto simp: work_left_def barrier_moves phases heading_def)
  qed (use arrive_work in blast)
  moreover have "heading n r (barrier_move s i)"
    using i c assms(2) arrive_heading by (auto simp: barrier_moves phases heading_def)
  ultimately show ?thesis using i(1) by blast
qed

lemma closing_progress:
  assumes "closing n s l" "heading n r s"
  shows "work_left r (barrier_move s l) l < work_left r s l \<and> heading n r (barrier_move s l)"
proof -
  have m: "bs_pc s l = Some SAdvance" "bs_arrived s l = Suc (bs_rounds s)" "l < n"
    and a: "\<forall>i < n. bs_arrived s i = Suc (bs_rounds s) \<and> bs_passed s i = bs_rounds s"
    using assms(1) by (auto simp: closing_def waiting_def)
  then have r: "bs_rounds s < r" using assms(2) by (auto simp: heading_def)
  show ?thesis
  proof
    show "work_left r (barrier_move s l) l < work_left r s l" using m(1) by (simp add: work_left_def barrier_moves)
    show "heading n r (barrier_move s l)" unfolding heading_def using r a by (simp add: barrier_moves(3) [OF m(1)]) linarith
  qed
qed

lemma resetting_progress:
  assumes "resetting n s l" "heading n r s"
  shows "work_left r (barrier_move s l) l < work_left r s l \<and> heading n r (barrier_move s l)"
proof -
  have m: "bs_pc s l = Some SReset" "Suc (bs_passed s l) = bs_rounds s" using assms(1) by (auto simp: resetting_def)
  then have "bs_passed s l < r" using assms(2) by (auto simp: heading_def)
  then show ?thesis using m(1) assms(2) by (auto simp: work_left_def heading_def barrier_moves(4) [OF m(1)])
qed

lemma barrier_progress:
  assumes "barrier_inv n s" "heading n r s" "\<not> passed_all n r s"
  shows "\<exists>i < n. work_left r (barrier_move s i) i < work_left r s i \<and> heading n r (barrier_move s i)"
  using assms open_round_progress [OF _ assms(2,3)] closing_progress [OF _ assms(2)] resetting_progress [OF _ assms(2)]
  by (auto simp: barrier_inv_def closing_def resetting_def)

lemma barrier_run:
  "barrier_inv n s \<Longrightarrow> heading n r s \<Longrightarrow> \<exists>t. (barrier_step n)\<^sup>*\<^sup>* s t \<and> passed_all n r t"
proof (induction "sum (work_left r s) {..<n}" arbitrary: s rule: less_induct)
  case less
  show ?case
  proof (cases "passed_all n r s")
    case False
    then obtain i where i: "i < n" "work_left r (barrier_move s i) i < work_left r s i" "heading n r (barrier_move s i)"
      using barrier_progress less.prems by blast
    then obtain t where "(barrier_step n)\<^sup>*\<^sup>* (barrier_move s i) t" "passed_all n r t"
      using less.hyps [OF sum_work_left_less] barrier_inv_move [OF less.prems(1)] by blast
    then show ?thesis using converse_rtranclp_into_rtranclp [of "barrier_step n", OF move [OF i(1)]] by blast
  qed auto
qed

lemma reach_moves: "list_all (\<lambda>i. i < n) is \<Longrightarrow> reach (barrier_start n) (barrier_step n) (foldl barrier_move (barrier_init n) is)"
  by (induction "is" rule: rev_induct) (auto intro: reach.intros move simp: barrier_start_def)

subsection \<open>Properties\<close>

text \<open>
  C29. In every interleaving of any number of rounds no thread has returned from its k-th call of \<^verbatim>\<open>Wait\<close> before
  all threads have made their k-th arrival, no thread is a full round ahead of another, and every completed round
  has made exactly one call return true (the last one may still be on its way to that return), although the
  32-bit generation wraps around.
\<close>

theorem SpinBarrier_safe:
  assumes "0 < n" "reach (barrier_start n) (barrier_step n) s"
  shows "(\<forall>i < n. \<forall>j < n. bs_passed s i \<le> bs_arrived s j \<and> bs_arrived s i \<le> Suc (bs_arrived s j)) \<and>
         bs_leaders s \<le> bs_rounds s \<and> bs_rounds s \<le> Suc (bs_leaders s)"
proof -
  have inv: "barrier_inv n s" using assms barrier_reach by blast
  have "bs_passed s i \<le> bs_arrived s j \<and> bs_arrived s i \<le> Suc (bs_arrived s j)" if "i < n" "j < n" for i j
    using barrier_inv_phase [OF inv that(1)] barrier_inv_phase [OF inv that(2)] by linarith
  moreover have "bs_leaders s \<le> bs_rounds s \<and> bs_rounds s \<le> Suc (bs_leaders s)"
    using inv by (auto simp: barrier_inv_def open_round_def closing_def resetting_def)
  ultimately show ?thesis by blast
qed

theorem SpinBarrier_safe_witness:
  "let s = foldl barrier_move (barrier_init 2) [0, 0, 0, 1, 1, 1, 1, 1]
   in bs_passed s 1 = 1 \<and> bs_passed s 0 = 0 \<and> bs_leaders s = 1 \<and> bs_passed s 1 \<le> bs_arrived s 0"
  using SpinBarrier_safe [OF _ reach_moves [of 2 "[0, 0, 0, 1, 1, 1, 1, 1]"]]
  by (simp add: Let_def barrier_move_def barrier_init_def SpinBarrier_new_def)

text \<open>
  C30. The barrier cannot get stuck: from every state the threads can reach, whatever they have done so far, there is a
  continuation in which every thread returns from its call for the round under way.
\<close>

theorem SpinBarrier_no_deadlock:
  assumes "0 < n" "reach (barrier_start n) (barrier_step n) s"
  shows "\<exists>t. (barrier_step n)\<^sup>*\<^sup>* s t \<and> (\<forall>i < n. bs_pc t i = None \<and> bs_passed t i = Suc (bs_rounds s))"
  using barrier_run [of n s "Suc (bs_rounds s)"] barrier_reach [OF assms(2,1)] by (auto simp: heading_def passed_all_def)

theorem SpinBarrier_no_deadlock_witness:
  "\<exists>t. (barrier_step 2)\<^sup>*\<^sup>* (foldl barrier_move (barrier_init 2) [0, 0, 0, 1, 1]) t \<and> bs_passed t 0 = 1 \<and> bs_passed t 1 = 1"
  using SpinBarrier_no_deadlock [OF _ reach_moves [of 2 "[0, 0, 0, 1, 1]"]]
  by (auto simp: barrier_move_def barrier_init_def SpinBarrier_new_def)

end
