(* ===== verification/Path.thy ===== *)
theory Path
  imports Prelude
begin

text \<open>
  The lexical operations of \<^verbatim>\<open>include/filesystem/path.h\<close>, \<^verbatim>\<open>include/filesystem/path.inl\<close> and
  \<^verbatim>\<open>source/filesystem/path.cpp\<close>: the decomposition of a path into root, parent, file name, stem and
  extension, the normal form of a path, and the operations that change its text. A path is its string;
  separators are those of the Unix build. The operations that ask the file system are not modelled; the
  current directory is an argument.
\<close>

type_synonym path_string = string

definition is_separator :: "char \<Rightarrow> bool" where
  "is_separator c \<longleftrightarrow> c = CHR 0x5C \<or> c = CHR ''/''"

definition separator :: char where
  "separator = CHR ''/''"

subsection \<open>Root\<close>

function skip_separators :: "path_string \<Rightarrow> nat \<Rightarrow> nat" where
  "skip_separators path n =
     (if n < length path then if \<not> is_separator (path ! n) then n else skip_separators path (n + 1) else n)"
  by pat_completeness auto
termination by (relation "measure (\<lambda>(path, n). length path - n)") auto

function net_end :: "path_string \<Rightarrow> nat \<Rightarrow> nat" where
  "net_end path n =
     (if n < length path then if is_separator (path ! n) then n + 1 else net_end path (n + 1) else n)"
  by pat_completeness auto
termination by (relation "measure (\<lambda>(path, n). length path - n)") auto

function drive_end :: "path_string \<Rightarrow> bool \<Rightarrow> nat \<Rightarrow> bool \<times> nat" where
  "drive_end path found n =
     (if n < length path then
        if path ! n = CHR '':'' then (True, skip_separators path (n + 1)) else drive_end path found (n + 1)
      else (found, n))"
  by pat_completeness auto
termination by (relation "measure (\<lambda>(path, found, n). length path - n)") auto

declare skip_separators.simps [simp del] net_end.simps [simp del] drive_end.simps [simp del]

definition sep_at :: "path_string \<Rightarrow> nat \<Rightarrow> bool" where
  "sep_at path n = is_separator (path ! n)"

definition internal_root :: "path_string \<Rightarrow> path_string \<times> nat" where
  "internal_root path =
     (if length path = 1 \<and> sep_at path 0 \<or> length path > 1 \<and> sep_at path 0 \<and> \<not> sep_at path 1 then (''/'', 1)
      else if length path > 2 \<and> sep_at path 0 \<and> sep_at path 1 \<and> sep_at path 2 then (''/'', skip_separators path 3)
      else if length path > 2 \<and> sep_at path 0 \<and> sep_at path 1 \<and> \<not> sep_at path 2 \<and> path ! 2 \<noteq> CHR ''?''
      then (let n = net_end path 3 in (take n path, n))
      else
        (let found = length path > 3 \<and> path ! 0 = CHR 0x5C \<and> path ! 1 = CHR 0x5C \<and> path ! 2 = CHR ''?'' \<and> path ! 3 = CHR 0x5C;
             (found, n) = drive_end path found (if found then 4 else 0)
         in if found \<and> n > 0 then (take n path, n) else ('''', 0)))"

definition Path_root :: "path_string \<Rightarrow> path_string" where
  "Path_root path = fst (internal_root path)"

text \<open>The substring call raises an exception when the root is longer than the path.\<close>

definition Path_relative :: "path_string \<Rightarrow> path_string option" where
  "Path_relative path =
     (let root_length = snd (internal_root path)
      in if root_length \<le> length path then Some (take (length path - root_length) (drop root_length path)) else None)"

subsection \<open>Parent, file name, stem and extension\<close>

fun skip_back :: "path_string \<Rightarrow> nat \<Rightarrow> nat" where
  "skip_back path 0 = 0"
| "skip_back path (Suc n) = (if is_separator (path ! n) then skip_back path n else Suc n)"

fun parent_loop :: "path_string \<Rightarrow> nat \<Rightarrow> bool \<Rightarrow> bool \<times> nat" where
  "parent_loop path 0 filepart = (False, 0)"
| "parent_loop path (Suc n) filepart =
     (if is_separator (path ! n) then
        if n = 1 \<and> is_separator (path ! (n - 1)) then (False, n)
        else if n > 0 \<and> path ! (n - 1) = CHR ''?'' then (filepart, n + 1)
        else if n > 0 \<and> path ! (n - 1) = CHR '':'' then (filepart, n + 1)
        else (let m = skip_back path n in (True, if m = 0 \<and> length path > 1 then m + 1 else m))
      else if path ! n = CHR '':'' then (False, n + 1)
      else parent_loop path n True)"

definition Path_parent :: "path_string \<Rightarrow> path_string" where
  "Path_parent path =
     (let (found, n) = parent_loop path (length path) False in if found \<and> n > 0 then take n path else '''')"

text \<open>The position after the last separator or colon before \<open>n\<close>, and whether it follows a separator.\<close>

fun name_begin :: "path_string \<Rightarrow> nat \<Rightarrow> bool \<times> nat" where
  "name_begin path 0 = (False, 0)"
| "name_begin path (Suc n) =
     (if is_separator (path ! n) \<or> path ! n = CHR '':'' then (is_separator (path ! n), Suc n) else name_begin path n)"

definition Path_filename :: "path_string \<Rightarrow> path_string" where
  "Path_filename path =
     (let (found, b) = name_begin path (length path); len = length path - b
      in if len > 0 then take len (drop b path) else if found then ''.'' else '''')"

text \<open>Whether a dot was found, and the begin and the end of the extension.\<close>

fun ext_loop :: "path_string \<Rightarrow> nat \<Rightarrow> bool \<times> nat \<times> nat" where
  "ext_loop path 0 = (False, 0, length path)"
| "ext_loop path (Suc n) =
     (if path ! n = CHR ''.'' then (True, n, if n > 0 \<and> path ! (n - 1) = CHR ''.'' then n else length path)
      else if is_separator (path ! n) \<or> path ! n = CHR '':'' then (False, Suc n, Suc n)
      else ext_loop path n)"

definition Path_stem :: "path_string \<Rightarrow> path_string" where
  "Path_stem path =
     (let (ext_found, ext_begin, ext_end) = ext_loop path (length path);
          ext_length = ext_end - ext_begin;
          stem_end = (if ext_found \<and> ext_length > 1 then ext_begin else length path);
          (stem_found, stem_begin) = name_begin path ext_begin;
          stem_length = stem_end - stem_begin
      in if stem_length > 0 then take stem_length (drop stem_begin path) else if stem_found then ''.'' else '''')"

definition Path_extension :: "path_string \<Rightarrow> path_string" where
  "Path_extension path =
     (let (ext_found, ext_begin, ext_end) = ext_loop path (length path);
          ext_length = ext_end - ext_begin
      in if ext_found \<and> ext_length > 1 then take ext_length (drop ext_begin path) else '''')"

subsection \<open>Changing the text\<close>

definition Path_Append :: "path_string \<Rightarrow> path_string \<Rightarrow> path_string" where
  "Path_Append path other =
     (if path = '''' then other
      else if is_separator (path ! (length path - 1)) then path @ other
      else path @ [separator] @ other)"

definition Path_Concat :: "path_string \<Rightarrow> path_string \<Rightarrow> path_string" where
  "Path_Concat path other = path @ other"

definition Path_MakePreferred :: "path_string \<Rightarrow> path_string" where
  "Path_MakePreferred path = map (\<lambda>c. if c = CHR 0x5C then CHR ''/'' else c) path"

fun filename_cut :: "path_string \<Rightarrow> path_string \<Rightarrow> nat \<Rightarrow> nat" where
  "filename_cut path filename 0 = 0"
| "filename_cut path filename (Suc n) =
     (if is_separator (path ! n) \<or> path ! n = CHR '':'' then if filename \<noteq> '''' then Suc n else n
      else filename_cut path filename n)"

definition Path_ReplaceFilename :: "path_string \<Rightarrow> path_string \<Rightarrow> path_string" where
  "Path_ReplaceFilename path filename =
     (if path = '''' then path @ filename else take (filename_cut path filename (length path)) path @ filename)"

fun dot_cut :: "path_string \<Rightarrow> nat \<Rightarrow> nat" where
  "dot_cut path 0 = length path"
| "dot_cut path (Suc n) =
     (if path ! n = CHR ''.'' then if n > 0 \<and> path ! (n - 1) = CHR ''.'' then n - 1 else n
      else if is_separator (path ! n) \<or> path ! n = CHR '':'' then length path
      else dot_cut path n)"

definition Path_ReplaceExtension :: "path_string \<Rightarrow> path_string \<Rightarrow> path_string" where
  "Path_ReplaceExtension path extension =
     (let dot = (if extension \<noteq> '''' \<and> extension ! 0 \<noteq> CHR ''.'' then ''.'' else '''')
      in if path = '''' then path @ dot @ extension
         else take (dot_cut path (length path)) path @ dot @ extension)"

definition Path_RemoveFilename :: "path_string \<Rightarrow> path_string" where
  "Path_RemoveFilename path = Path_ReplaceFilename path ''''"

definition Path_RemoveExtension :: "path_string \<Rightarrow> path_string" where
  "Path_RemoveExtension path = Path_ReplaceExtension path ''''"

fun trailing_cut :: "path_string \<Rightarrow> nat \<Rightarrow> nat" where
  "trailing_cut path 0 = 0"
| "trailing_cut path (Suc n) =
     (if \<not> is_separator (path ! n) \<or> n > 0 \<and> path ! (n - 1) = CHR '':'' then Suc n else trailing_cut path n)"

definition Path_RemoveTrailingSeparators :: "path_string \<Rightarrow> path_string" where
  "Path_RemoveTrailingSeparators path = take (trailing_cut path (length path)) path"

text \<open>The array that is searched includes the terminating null character.\<close>

definition deprecated :: "char \<Rightarrow> bool" where
  "deprecated c \<longleftrightarrow> c \<in> set (CHR 0x5C # ''/?%*:|'' @ CHR 0x22 # ''<>'' @ [CHR 0x00])"

definition Path_validate :: "path_string \<Rightarrow> char \<Rightarrow> path_string" where
  "Path_validate path placeholder =
     map (\<lambda>c. if c \<noteq> CHR 0x5C \<and> c \<noteq> CHR ''/'' \<and> deprecated c then placeholder else c) path"

subsection \<open>Normal form\<close>

text \<open>
  The loop keeps the position, the begin of the current part and whether the part has begun; it returns the
  result early, without the last part, when a parent directory is empty.
\<close>

definition append_part :: "path_string \<Rightarrow> path_string \<Rightarrow> nat \<Rightarrow> nat \<Rightarrow> path_string" where
  "append_part path result index n =
     (let temp = take (n - index) (drop index path) in if temp \<noteq> '''' then Path_Append result temp else result)"

function canonical_loop :: "path_string \<Rightarrow> path_string \<Rightarrow> nat \<Rightarrow> nat \<Rightarrow> bool \<Rightarrow> path_string" where
  "canonical_loop path result index n filepart =
     (if n < length path then
        if is_separator (path ! n) then canonical_loop path (append_part path result index n) (n + 1) (n + 1) False
        else if \<not> filepart \<and> path ! n = CHR ''.'' \<and> (n + 1 = length path \<or> is_separator (path ! (n + 1)))
        then canonical_loop path result (n + 1) (n + 1) False
        else if \<not> filepart \<and> path ! n = CHR ''.'' \<and> (n + 1 < length path \<and> path ! (n + 1) = CHR ''.'') \<and>
                (n + 2 = length path \<or> is_separator (path ! (n + 2)))
        then (let result = Path_parent result
              in if result = '''' then result else canonical_loop path result (n + 2) (n + 2) False)
        else canonical_loop path result index (n + 1) True
      else append_part path result index n)"
  by pat_completeness auto
termination by (relation "measure (\<lambda>(path, result, index, n, filepart). length path - n)") auto

declare canonical_loop.simps [simp del]

definition Path_canonical :: "path_string \<Rightarrow> path_string \<Rightarrow> path_string" where
  "Path_canonical current path =
     (if path = '''' then ''''
      else
        (let root = Path_root path
         in canonical_loop path (if root = '''' then current else root) (length root) (length root) False))"

subsection \<open>Bounds of the scans\<close>

lemma skip_separators_bounds: "n \<le> length path \<Longrightarrow> n \<le> skip_separators path n \<and> skip_separators path n \<le> length path"
  by (induction path n rule: skip_separators.induct) (subst (1 2) skip_separators.simps, auto)

lemma net_end_bounds: "n \<le> length path \<Longrightarrow> net_end path n \<le> length path"
  by (induction path n rule: net_end.induct) (subst net_end.simps, auto)

lemma drive_end_bounds: "n \<le> length path \<Longrightarrow> snd (drive_end path found n) \<le> length path"
  by (induction path found n rule: drive_end.induct) (subst drive_end.simps, auto simp: skip_separators_bounds)

lemma drive_end_none: "n \<le> length path \<Longrightarrow> CHR '':'' \<notin> set (drop n path) \<Longrightarrow> drive_end path found n = (found, length path)"
proof (induction path found n rule: drive_end.induct)
  case (1 path found n)
  show ?case
  proof (cases "n < length path")
    case True
    then have "drop n path = path ! n # drop (Suc n) path" by (simp add: Cons_nth_drop_Suc)
    then show ?thesis using 1 True by (subst drive_end.simps) auto
  qed (use 1 in \<open>simp add: drive_end.simps\<close>)
qed

lemma root_bounds: "snd (internal_root path) \<le> length path"
proof -
  have d: "snd (drive_end path True 4) \<le> length path" if "length path > 3" using drive_end_bounds [of 4 path True] that by simp
  have d0: "snd (drive_end path found 0) \<le> length path" for found by (rule drive_end_bounds) simp
  have "length path > 2 \<Longrightarrow> skip_separators path 3 \<le> length path" "length path > 2 \<Longrightarrow> net_end path 3 \<le> length path"
    using skip_separators_bounds [of 3 path] net_end_bounds [of 3 path] by simp_all
  then show ?thesis using d d0 by (simp add: internal_root_def Let_def case_prod_beta)
qed

text \<open>The relative part of a path is always defined and follows the root.\<close>

lemma relative_follows_root: "Path_relative path = Some (drop (snd (internal_root path)) path)"
  using root_bounds by (simp add: Path_relative_def Let_def)

subsection \<open>Parents\<close>

lemma skip_back_le: "skip_back path n \<le> n"
  by (induction n) auto

lemma parent_loop_shorter:
  "n \<le> length path \<Longrightarrow> filepart \<longrightarrow> n < length path \<Longrightarrow> parent_loop path n filepart = (True, m) \<Longrightarrow> m < length path"
proof (induction n arbitrary: filepart)
  case (Suc n)
  show ?case
    using Suc.prems skip_back_le [of path n] Suc.IH [of True] by (auto simp: Let_def split: if_splits)
qed simp

lemma parent_take: "path \<noteq> '''' \<Longrightarrow> \<exists>m < length path. Path_parent path = take m path"
proof -
  assume "path \<noteq> ''''"
  then have "0 < length path" by simp
  then show ?thesis using parent_loop_shorter [of "length path" path False]
    by (auto simp: Path_parent_def Let_def split: prod.splits intro: exI [of _ 0])
qed

lemma parent_shorter: "path \<noteq> '''' \<Longrightarrow> length (Path_parent path) < length path"
  using parent_take [of path] by auto

lemma parents_end: "length path \<le> k \<Longrightarrow> (Path_parent ^^ k) path = ''''"
proof (induction k arbitrary: path)
  case (Suc k)
  have "Path_parent '''' = ''''" by (simp add: Path_parent_def)
  then have "length (Path_parent path) \<le> k" using Suc.prems parent_shorter [of path] by (cases "path = ''''") auto
  then have "(Path_parent ^^ k) (Path_parent path) = ''''" by (rule Suc.IH)
  then show ?case by (simp add: funpow_swap1)
qed simp

subsection \<open>File name, stem and extension\<close>

lemma name_begin_ext:
  assumes "n \<le> length path" "ext_loop path n = (x, e, k)"
  shows "(if x then e < n \<and> path ! e = CHR ''.'' \<and> name_begin path n = name_begin path e \<and>
            k = (if e > 0 \<and> path ! (e - 1) = CHR ''.'' then e else length path)
          else e = 0 \<and> name_begin path n = (False, 0) \<or>
            0 < e \<and> e \<le> n \<and> k = e \<and> name_begin path n = (is_separator (path ! (e - 1)), e) \<and> name_begin path e = name_begin path n)"
  using assms
proof (induction n)
  case (Suc n)
  show ?case
  proof (cases "path ! n = CHR ''.''")
    case True
    then show ?thesis using Suc by (auto simp: is_separator_def)
  next
    case False
    then show ?thesis using Suc by (auto split: if_splits)
  qed
qed simp

lemma name_begin_bounds: "name_begin path n = (f, b) \<Longrightarrow> b \<le> n \<and> (f \<longrightarrow> 0 < b \<and> is_separator (path ! (b - 1)))"
  by (induction n) (auto split: if_splits)

lemma name_begin_plain: "name_begin path n = (f, b) \<Longrightarrow> n \<le> length path \<Longrightarrow> b \<le> i \<Longrightarrow> i < n \<Longrightarrow> \<not> is_separator (path ! i) \<and> path ! i \<noteq> CHR '':''"
  by (induction n) (auto split: if_splits simp: less_Suc_eq)

text \<open>A name that consists of an extension only and follows a separator.\<close>

definition hidden :: "path_string \<Rightarrow> bool" where
  "hidden path \<longleftrightarrow> Path_extension path \<noteq> '''' \<and> (\<exists>d c. path = d @ c # Path_extension path \<and> is_separator c)"

lemma stem_extension:
  "(Path_stem path @ Path_extension path = Path_filename path) = (\<not> hidden path) \<and>
   (hidden path \<longrightarrow> Path_stem path = ''.'' \<and> Path_filename path = Path_extension path)"
proof -
  obtain f b where nb: "name_begin path (length path) = (f, b)" by (cases "name_begin path (length path)")
  obtain x e k where el: "ext_loop path (length path) = (x, e, k)" by (cases "ext_loop path (length path)")
  note ne = name_begin_ext [OF order_refl el, unfolded nb]
  note bb = name_begin_bounds [OF nb]
  show ?thesis
  proof (cases "x \<and> k - e > 1")
    case True
    then have e: "e < length path" "name_begin path e = (f, b)" "k = length path" using ne by (auto split: if_splits)
    have be: "b \<le> e" using name_begin_bounds [OF e(2)] by simp
    have ext: "Path_extension path = drop e path" "drop e path \<noteq> ''''" using True el e by (simp_all add: Path_extension_def)
    have fn: "Path_filename path = drop b path" using nb be e(1) by (simp add: Path_filename_def)
    have st: "Path_stem path = (if b < e then take (e - b) (drop b path) else if f then ''.'' else '''')"
      using True el e(2) by (simp add: Path_stem_def)
    have hid: "hidden path \<longleftrightarrow> 0 < e \<and> is_separator (path ! (e - 1))"
    proof
      assume "hidden path"
      then obtain d c where d: "path = d @ c # drop e path" "is_separator c" unfolding hidden_def ext by blast
      have "length d + Suc (length path - e) = length path" using arg_cong [OF d(1), of length] by simp
      then have l: "length d = e - 1" "0 < e" using e(1) by linarith+
      have "path ! length d = c" using arg_cong [OF d(1), of "\<lambda>q. q ! length d"] by simp
      then show "0 < e \<and> is_separator (path ! (e - 1))" using l d(2) by simp
    next
      assume s: "0 < e \<and> is_separator (path ! (e - 1))"
      then have "path = take (e - 1) path @ path ! (e - 1) # drop e path"
        using id_take_nth_drop [of "e - 1" path] e(1) by simp
      then show "hidden path" unfolding hidden_def ext using ext(2) s by blast
    qed
    show ?thesis
    proof (cases "b < e")
      case True
      have "take (e - b) (drop b path) @ drop e path = drop b path"
        using append_take_drop_id [of "e - b" "drop b path"] True by simp
      moreover have "\<not> hidden path" using hid name_begin_plain [OF nb order_refl, of "e - 1"] True e(1) by auto
      ultimately show ?thesis using ext fn st True by simp
    next
      case False
      then have "b = e" using be by simp
      moreover have "hidden path \<longleftrightarrow> f"
        using hid bb e(2) \<open>b = e\<close> by (cases e) (auto split: if_splits)
      ultimately show ?thesis using ext fn st by auto
    qed
  next
    case False
    then have ext: "Path_extension path = ''''" using el by (auto simp: Path_extension_def)
    have "name_begin path e = (f, b) \<or> e = 0 \<and> b = 0 \<and> \<not> f" using ne by (auto split: if_splits)
    then have "Path_stem path = Path_filename path"
      using el nb False by (auto simp: Path_stem_def Path_filename_def Let_def)
    then show ?thesis using ext by (simp add: hidden_def)
  qed
qed

subsection \<open>The normal form as a list of names\<close>

text \<open>
  The names of a path, the resolution of the dots on a stack of names, and the absolute path of a stack.
\<close>

function names :: "path_string \<Rightarrow> string list" where
  "names s =
     (case dropWhile is_separator s of
        [] \<Rightarrow> []
      | c # cs \<Rightarrow> takeWhile (\<lambda>x. \<not> is_separator x) (c # cs) # names (dropWhile (\<lambda>x. \<not> is_separator x) (c # cs)))"
  by pat_completeness auto
termination
proof (relation "measure length", goal_cases)
  case (2 s c cs)
  have "\<not> is_separator c" using 2 by (metis hd_dropWhile list.distinct(1) list.sel(1))
  moreover have "length (c # cs) \<le> length s" using 2 length_dropWhile_le [of is_separator s] by simp
  ultimately show ?case using length_dropWhile_le [of "\<lambda>x. \<not> is_separator x" cs] by simp
qed simp

declare names.simps [simp del]

fun resolve :: "string list \<Rightarrow> string list \<Rightarrow> string list option" where
  "resolve st [] = Some st"
| "resolve st (w # ws) =
     (if w = ''.'' then resolve st ws
      else if w = ''..'' then if st = [] then None else resolve (butlast st) ws
      else resolve (st @ [w]) ws)"

definition joined :: "string list \<Rightarrow> path_string" where
  "joined st = concat (map (\<lambda>w. CHR ''/'' # w) st)"

definition rendered :: "string list \<Rightarrow> path_string" where
  "rendered st = (if st = [] then ''/'' else joined st)"

definition plain_name :: "string \<Rightarrow> bool" where
  "plain_name w \<longleftrightarrow> w \<noteq> '''' \<and> (\<forall>c \<in> set w. \<not> is_separator c \<and> c \<noteq> CHR '':'' \<and> c \<noteq> CHR ''?'')"

definition ordinary :: "string \<Rightarrow> bool" where
  "ordinary w \<longleftrightarrow> plain_name w \<and> w \<noteq> ''.'' \<and> w \<noteq> ''..''"

lemma ordinary_plain: "\<forall>w \<in> set st. ordinary w \<Longrightarrow> \<forall>w \<in> set st. plain_name w"
  by (simp add: ordinary_def)

lemma separator_slash [simp]: "is_separator (CHR ''/'')" "\<not> is_separator (CHR ''.'')" "\<not> is_separator (CHR '':'')"
  by (simp_all add: is_separator_def)

lemma joined_snoc: "joined (st @ [w]) = joined st @ CHR ''/'' # w"
  by (simp add: joined_def)

lemma joined_last:
  assumes "st \<noteq> []" "\<forall>w \<in> set st. plain_name w"
  obtains u c where "joined st = u @ [c]" "\<not> is_separator c" "c \<noteq> CHR '':''" "c \<noteq> CHR ''?''" "u \<noteq> []"
proof -
  obtain st' w where st: "st = st' @ [w]" using assms(1) by (cases st rule: rev_cases) auto
  have w: "plain_name w" using assms(2) st by simp
  then obtain v c where v: "w = v @ [c]" by (cases w rule: rev_cases) (auto simp: plain_name_def)
  have "joined st = (joined st' @ CHR ''/'' # v) @ [c]" by (simp add: st joined_snoc v)
  then show thesis using that [of "joined st' @ CHR ''/'' # v" c] w v by (auto simp: plain_name_def)
qed

lemma parent_loop_name:
  "\<forall>c \<in> set w. \<not> is_separator c \<and> c \<noteq> CHR '':'' \<Longrightarrow> w \<noteq> '''' \<or> fp \<Longrightarrow>
   parent_loop (u @ w @ v) (length u + length w) fp = parent_loop (u @ w @ v) (length u) True"
proof (induction w arbitrary: fp v rule: rev_induct)
  case (snoc x w)
  then show ?case using snoc.IH [of True "x # v"] by (simp add: nth_append)
qed simp

lemma parent_rendered:
  assumes "\<forall>w \<in> set st. plain_name w"
  shows "Path_parent (rendered st) = (if st = [] then '''' else rendered (butlast st))"
proof (cases st rule: rev_cases)
  case Nil
  then show ?thesis by (simp add: rendered_def Path_parent_def)
next
  case (snoc st' w)
  have w: "plain_name w" using assms snoc by simp
  let ?p = "joined st' @ CHR ''/'' # w"
  have p: "rendered st = ?p" using snoc by (simp add: rendered_def joined_snoc)
  have "parent_loop ?p (length ?p) False = parent_loop ?p (length (joined st' @ ''/'')) True"
    using parent_loop_name [of w False "joined st' @ ''/''" "[]"] w by (simp add: plain_name_def)
  then have l: "parent_loop ?p (length ?p) False = parent_loop ?p (Suc (length (joined st'))) True" by simp
  show ?thesis
  proof (cases "st' = []")
    case True
    moreover have "length w \<noteq> 0" using w by (simp add: plain_name_def)
    ultimately show ?thesis using l p snoc by (simp add: Path_parent_def rendered_def joined_def)
  next
    case False
    then obtain u c where u: "joined st' = u @ [c]" "\<not> is_separator c" "c \<noteq> CHR '':''" "c \<noteq> CHR ''?''" "u \<noteq> []"
      using joined_last [of st'] assms snoc by auto
    have "parent_loop ?p (Suc (length (joined st'))) True = (True, length (joined st'))"
      using u by (simp add: nth_append)
    then show ?thesis using l p snoc False u(1) by (simp add: Path_parent_def rendered_def)
  qed
qed

lemma append_rendered:
  assumes "\<forall>w \<in> set st. plain_name w"
  shows "Path_Append (rendered st) w = rendered (st @ [w])"
proof (cases "st = []")
  case True
  then show ?thesis by (simp add: rendered_def joined_def Path_Append_def)
next
  case False
  then obtain u c where "joined st = u @ [c]" "\<not> is_separator c" using joined_last assms by metis
  then show ?thesis using False by (simp add: rendered_def joined_snoc Path_Append_def separator_def)
qed

lemma names_separator: "is_separator c \<Longrightarrow> names (c # s) = names s"
  by (subst (1 2) names.simps) simp

lemma names_word:
  assumes "w \<noteq> ''''" "\<forall>c \<in> set w. \<not> is_separator c" "r = '''' \<or> is_separator (hd r)"
  shows "names (w @ r) = w # names r"
proof -
  obtain c w' where w: "w = c # w'" using assms(1) by (cases w) auto
  have d: "dropWhile is_separator (w @ r) = c # w' @ r" using assms(2) w by simp
  have "takeWhile (\<lambda>x. \<not> is_separator x) (w @ r) = w" using assms(2,3) by (cases r) (auto simp: takeWhile_append)
  moreover have "dropWhile (\<lambda>x. \<not> is_separator x) (w @ r) = r" using assms(2,3) by (cases r) (auto simp: dropWhile_append)
  ultimately show ?thesis using d w by (subst names.simps) simp
qed

lemma names_Nil [simp]: "names '''' = []"
  by (simp add: names.simps)

lemma canonical_in_name:
  "\<forall>c \<in> set w. \<not> is_separator c \<Longrightarrow>
   canonical_loop (u @ w @ r) res i (length u) True = canonical_loop (u @ w @ r) res i (length (u @ w)) True"
proof (induction w arbitrary: u)
  case (Cons c w)
  have "canonical_loop (u @ (c # w) @ r) res i (length u) True = canonical_loop ((u @ [c]) @ w @ r) res i (length (u @ [c])) True"
    using Cons.prems by (subst canonical_loop.simps) simp
  then show ?case using Cons.IH [of "u @ [c]"] Cons.prems by simp
qed simp

lemma append_part_word: "append_part (u @ w @ r) res (length u) (length (u @ w)) = (if w = '''' then res else Path_Append res w)"
  by (simp add: append_part_def Let_def)

lemma canonical_step:
  assumes "n < length path" "\<not> is_separator (path ! n)"
    "\<not> (path ! n = CHR ''.'' \<and> (n + 1 = length path \<or> is_separator (path ! (n + 1))))"
    "\<not> (path ! n = CHR ''.'' \<and> n + 1 < length path \<and> path ! (n + 1) = CHR ''.'' \<and> (n + 2 = length path \<or> is_separator (path ! (n + 2))))"
  shows "canonical_loop path result index n filepart = canonical_loop path result index (n + 1) True"
  using assms by (subst canonical_loop.simps) auto

lemma not_dots:
  assumes "\<forall>c \<in> set w. \<not> is_separator c" "r = [] \<or> is_separator (hd r)" "w \<noteq> ''.''" "w \<noteq> ''..''" "w = c # w'"
  shows "\<not> (c = CHR ''.'' \<and> (w' @ r = [] \<or> is_separator ((w' @ r) ! 0)))"
    "\<not> (c = CHR ''.'' \<and> w' @ r \<noteq> [] \<and> (w' @ r) ! 0 = CHR ''.'' \<and> (length (w' @ r) = 1 \<or> is_separator ((w' @ r) ! 1)))"
proof -
  have "r \<noteq> [] \<Longrightarrow> is_separator (r ! 0)" using assms(2) by (cases r) auto
  show "\<not> (c = CHR ''.'' \<and> (w' @ r = [] \<or> is_separator ((w' @ r) ! 0)))"
    using assms by (cases w') auto
  show "\<not> (c = CHR ''.'' \<and> w' @ r \<noteq> [] \<and> (w' @ r) ! 0 = CHR ''.'' \<and> (length (w' @ r) = 1 \<or> is_separator ((w' @ r) ! 1)))"
  proof (cases w')
    case Nil
    then show ?thesis using assms(2) by (cases r) auto
  next
    case w: (Cons d w'')
    then show ?thesis using assms by (cases w''; cases r) auto
  qed
qed

definition outcome :: "string list option \<Rightarrow> path_string" where
  "outcome st = (case st of None \<Rightarrow> '''' | Some st \<Rightarrow> rendered st)"

lemma rendered_nonempty [simp]: "rendered st \<noteq> ''''"
  by (cases st) (simp_all add: rendered_def joined_def)

lemma canonical_loop_ok:
  "\<forall>c \<in> set s. c \<noteq> CHR '':'' \<and> c \<noteq> CHR ''?'' \<Longrightarrow> \<forall>w \<in> set st. plain_name w \<Longrightarrow>
   canonical_loop (u @ s) (rendered st) (length u) (length u) False = outcome (resolve st (names s))"
proof (induction "length s" arbitrary: u s st rule: less_induct)
  case less
  show ?case
  proof (cases s)
    case Nil
    then show ?thesis by (subst canonical_loop.simps) (simp add: append_part_def outcome_def)
  next
    case (Cons c s')
    show ?thesis
    proof (cases "is_separator c")
      case True
      have "canonical_loop (u @ s) (rendered st) (length u) (length u) False =
          canonical_loop ((u @ [c]) @ s') (rendered st) (length (u @ [c])) (length (u @ [c])) False"
        using True Cons by (subst canonical_loop.simps) (simp add: append_part_def)
      then show ?thesis using less.hyps [of s' st "u @ [c]"] less.prems Cons True by (simp add: names_separator)
    next
      case False
      define w r where "w = takeWhile (\<lambda>x. \<not> is_separator x) s" and "r = dropWhile (\<lambda>x. \<not> is_separator x) s"
      have s: "s = w @ r" "w \<noteq> ''''" "\<forall>c \<in> set w. \<not> is_separator c" "r = '''' \<or> is_separator (hd r)"
        using Cons False hd_dropWhile [of "\<lambda>x. \<not> is_separator x" s] unfolding w_def r_def by (auto dest: set_takeWhileD)
      have w: "plain_name w" using less.prems(1) s by (auto simp: plain_name_def)
      have n: "names s = w # names r" using names_word [OF s(2-4)] s(1) by simp
      have lr: "length r < length s" using s by simp
      have pr: "\<forall>c \<in> set r. c \<noteq> CHR '':'' \<and> c \<noteq> CHR ''?''" using less.prems(1) s(1) by simp
      consider "w = ''.''" | "w = ''..''" | "w \<noteq> ''.''" "w \<noteq> ''..''" by blast
      then show ?thesis
      proof cases
        case 1
        have "canonical_loop (u @ s) (rendered st) (length u) (length u) False =
            canonical_loop ((u @ w) @ r) (rendered st) (length (u @ w)) (length (u @ w)) False"
          using 1 s(1,4) by (subst canonical_loop.simps) (cases r, auto simp: nth_append)
        then show ?thesis using less.hyps [OF lr pr less.prems(2), of "u @ w"] n 1 by simp
      next
        case 2
        have "canonical_loop (u @ s) (rendered st) (length u) (length u) False =
            (let res = Path_parent (rendered st) in
             if res = '''' then res else canonical_loop ((u @ w) @ r) res (length (u @ w)) (length (u @ w)) False)"
          using 2 s(1,4) by (subst canonical_loop.simps) (cases r, auto simp: nth_append Let_def)
        moreover have "\<forall>w \<in> set (butlast st). plain_name w" using less.prems(2) by (auto dest: in_set_butlastD)
        ultimately show ?thesis using less.hyps [OF lr pr, of "butlast st" "u @ w"] n 2 parent_rendered [OF less.prems(2)]
          by (auto simp: outcome_def)
      next
        case 3
        obtain w' where w': "w = c # w'" using s(1,2) Cons by (cases w) auto
        have "canonical_loop (u @ s) (rendered st) (length u) (length u) False =
            canonical_loop ((u @ [c]) @ w' @ r) (rendered st) (length u) (length (u @ [c])) True"
        proof -
          define q where "q = w' @ r"
          have "s = c # q" using s(1) w' by (simp add: q_def)
          moreover have "(u @ c # q) ! (length u + 1) = q ! 0" "(u @ c # q) ! (length u + 2) = q ! 1" by (simp_all add: nth_append)
          ultimately show ?thesis using not_dots [OF s(3,4) 3 w'] False unfolding q_def [symmetric] append_assoc
            by (subst canonical_step) auto
        qed
        also have "\<dots> = canonical_loop (u @ w @ r) (rendered st) (length u) (length (u @ w)) True"
          using canonical_in_name [of w' "u @ [c]" r "rendered st" "length u"] s(3) w' by simp
        also have "\<dots> = outcome (resolve st (names s))"
        proof (cases r)
          case Nil
          then have "canonical_loop (u @ w @ r) (rendered st) (length u) (length (u @ w)) True = rendered (st @ [w])"
            using append_part_word [of u w r] s(2) append_rendered [OF less.prems(2)] by (subst canonical_loop.simps) simp
          then show ?thesis using n 3 Nil by (simp add: outcome_def)
        next
          case r: (Cons d r')
          have "canonical_loop (u @ w @ r) (rendered st) (length u) (length (u @ w)) True =
              canonical_loop ((u @ w @ [d]) @ r') (rendered (st @ [w])) (length (u @ w @ [d])) (length (u @ w @ [d])) False"
            using append_part_word [of u w r] s(2,4) append_rendered [OF less.prems(2)] r by (subst canonical_loop.simps) (simp add: nth_append)
          then show ?thesis using less.hyps [of r' "st @ [w]" "u @ w @ [d]"] less.prems(2) w pr lr n 3 r s(4)
            by (simp add: names_separator)
        qed
        finally show ?thesis .
      qed
    qed
  qed
qed

text \<open>The root of a path without a drive: the Unix cases of the code.\<close>

lemma root_plain:
  assumes "\<forall>c \<in> set path. c \<noteq> CHR '':'' \<and> c \<noteq> CHR ''?''" "path \<noteq> ''''" and
    two: "\<not> (length path > 1 \<and> sep_at path 0 \<and> sep_at path 1 \<and> (length path = 2 \<or> \<not> sep_at path 2))"
  shows "Path_root path = (if is_separator (hd path) then ''/'' else '''')"
proof -
  have q: "length path > 3 \<Longrightarrow> path ! 2 \<noteq> CHR ''?''" using assms(1) nth_mem [of 2 path] by auto
  have d: "drive_end path False 0 = (False, length path)" using drive_end_none [of 0 path False] assms(1) by auto
  show ?thesis
  proof (cases "is_separator (hd path)")
    case True
    then have "sep_at path 0" using assms(2) by (simp add: sep_at_def hd_conv_nth)
    then consider "length path = 1" | "length path > 1" "\<not> sep_at path 1" | "length path > 2" "sep_at path 1" "sep_at path 2"
      using two assms(2) by (metis One_nat_def length_greater_0_conv less_one linorder_neqE_nat numeral_2_eq_2 not_less_eq)
    then show ?thesis using True \<open>sep_at path 0\<close> by cases (simp_all add: Path_root_def internal_root_def)
  next
    case False
    then have "\<not> sep_at path 0" using assms(2) by (simp add: sep_at_def hd_conv_nth)
    then show ?thesis using False q d by (cases "length path > 3") (simp_all add: Path_root_def internal_root_def Let_def)
  qed
qed

lemma resolve_plain:
  "\<forall>w \<in> set st. ordinary w \<Longrightarrow> \<forall>w \<in> set ws. plain_name w \<Longrightarrow> resolve st ws = Some st' \<Longrightarrow>
   \<forall>w \<in> set st'. ordinary w"
proof (induction st ws rule: resolve.induct)
  case (2 st w ws)
  have b: "\<forall>w \<in> set (butlast st). ordinary w" using 2(4) by (meson in_set_butlastD)
  have ws: "\<forall>w \<in> set ws. plain_name w" "plain_name w" using 2(5) by simp_all
  consider "w = ''.''" | "w = ''..''" | "w \<noteq> ''.''" "w \<noteq> ''..''" by blast
  then show ?case
  proof cases
    case 1
    then show ?thesis using 2(1) [OF 1 2(4) ws(1)] 2(6) by simp
  next
    case c: 2
    then have "st \<noteq> []" using 2(6) by (simp split: if_splits)
    then show ?thesis using 2(2) [OF _ c _ b ws(1)] 2(6) c by simp
  next
    case 3
    have f: "\<forall>v \<in> set (st @ [w]). ordinary v" using 2(4) ws(2) 3 by (simp add: ordinary_def)
    have "resolve (st @ [w]) ws = Some st'" using 2(6) 3 by simp
    then show ?thesis by (rule 2(3) [OF 3 f ws(1)])
  qed
qed simp

lemma resolve_none: "\<forall>w \<in> set ws. ordinary w \<Longrightarrow> resolve st ws = Some (st @ ws)"
  by (induction ws arbitrary: st) (simp_all add: ordinary_def)

lemma names_joined: "\<forall>w \<in> set st. plain_name w \<Longrightarrow> names (joined st) = st"
proof (induction st)
  case (Cons w st)
  have "joined st = [] \<or> is_separator (hd (joined st))" by (cases st) (simp_all add: joined_def)
  then have "names (w @ joined st) = w # names (joined st)"
    using Cons.prems by (intro names_word) (auto simp: plain_name_def)
  then show ?case using Cons by (simp add: joined_def names_separator)
qed (simp add: joined_def)

lemma names_plain: "\<forall>c \<in> set s. c \<noteq> CHR '':'' \<and> c \<noteq> CHR ''?'' \<Longrightarrow> \<forall>w \<in> set (names s). plain_name w"
proof (induction s rule: names.induct)
  case (1 s)
  show ?case
  proof (cases "dropWhile is_separator s")
    case Nil
    then show ?thesis unfolding names.simps [of s] Nil by simp
  next
    case (Cons c cs)
    have nc: "\<not> is_separator c" using Cons by (metis hd_dropWhile list.distinct(1) list.sel(1))
    have sub: "set (c # cs) \<subseteq> set s" using Cons set_dropWhileD [of _ is_separator s] by (metis subsetI)
    have "plain_name (takeWhile (\<lambda>x. \<not> is_separator x) (c # cs))"
      using nc sub 1(2) by (auto simp: plain_name_def dest: set_takeWhileD)
    moreover have "x \<in> set s" if "x \<in> set (dropWhile (\<lambda>x. \<not> is_separator x) (c # cs))" for x using sub set_dropWhileD [OF that] by blast
    then have "\<forall>x \<in> set (dropWhile (\<lambda>x. \<not> is_separator x) (c # cs)). x \<noteq> CHR '':'' \<and> x \<noteq> CHR ''?''" using 1(2) by blast
    then have "\<forall>w \<in> set (names (dropWhile (\<lambda>x. \<not> is_separator x) (c # cs))). plain_name w" by (rule 1(1) [OF Cons])
    moreover have "names s = takeWhile (\<lambda>x. \<not> is_separator x) (c # cs) # names (dropWhile (\<lambda>x. \<not> is_separator x) (c # cs))"
      by (simp only: names.simps [of s] Cons list.case)
    ultimately show ?thesis by (simp only: list.set ball_simps simp_thms)
  qed
qed

lemma canonical_ok:
  assumes "\<forall>w \<in> set cs. plain_name w" "\<forall>c \<in> set path. c \<noteq> CHR '':'' \<and> c \<noteq> CHR ''?''" "path \<noteq> ''''" and
    two: "\<not> (length path > 1 \<and> sep_at path 0 \<and> sep_at path 1 \<and> (length path = 2 \<or> \<not> sep_at path 2))"
  shows "Path_canonical (rendered cs) path = outcome (resolve (if is_separator (hd path) then [] else cs) (names path))"
proof (cases "is_separator (hd path)")
  case True
  obtain c s where p: "path = c # s" "is_separator c" using True assms(3) by (cases path) auto
  have "canonical_loop ([c] @ s) (rendered []) (length [c]) (length [c]) False = outcome (resolve [] (names s))"
    using assms(2) p by (intro canonical_loop_ok) auto
  then show ?thesis using root_plain [OF assms(2-4)] p by (simp add: Path_canonical_def Let_def names_separator rendered_def)
next
  case False
  have "canonical_loop ([] @ path) (rendered cs) (length ''a'' - 1) (length ''a'' - 1) False = outcome (resolve cs (names path))"
    using canonical_loop_ok [OF assms(2,1), of "[]"] by simp
  then show ?thesis using root_plain [OF assms(2-4)] False assms(3) by (simp add: Path_canonical_def)
qed

lemma canonical_fixed:
  assumes "\<forall>w \<in> set st. ordinary w" "\<forall>w \<in> set cs. plain_name w"
  shows "Path_canonical (rendered cs) (rendered st) = rendered st"
proof -
  have hd: "is_separator (hd (rendered st))" by (cases st) (simp_all add: rendered_def joined_def)
  have pl: "\<forall>c \<in> set (rendered st). c \<noteq> CHR '':'' \<and> c \<noteq> CHR ''?''"
    using assms(1) by (auto simp: rendered_def joined_def plain_name_def ordinary_def)
  have two: "\<not> (length (rendered st) > 1 \<and> sep_at (rendered st) 0 \<and> sep_at (rendered st) 1 \<and> (length (rendered st) = 2 \<or> \<not> sep_at (rendered st) 2))"
  proof (cases st)
    case (Cons w st')
    then obtain c w' where "w = c # w'" "\<not> is_separator c" using assms(1) by (cases w) (auto simp: plain_name_def ordinary_def)
    then show ?thesis using Cons by (simp add: rendered_def joined_def sep_at_def)
  qed (simp add: rendered_def)
  have "names (rendered st) = st" using names_joined [OF ordinary_plain [OF assms(1)]] by (cases st) (auto simp: rendered_def joined_def names_separator)
  then show ?thesis
    using canonical_ok [OF assms(2) pl rendered_nonempty two] hd resolve_none [of st "[]"] assms(1) by (simp add: outcome_def)
qed

subsection \<open>Replacing the file name and the extension\<close>

lemma name_begin_word:
  "\<forall>c \<in> set w. \<not> is_separator c \<and> c \<noteq> CHR '':'' \<Longrightarrow> name_begin (u @ w) (length u + length w) = name_begin (u @ w) (length u)"
proof (induction w rule: rev_induct)
  case (snoc x w)
  have ap: "name_begin (p @ q) n = name_begin p n" if "n \<le> length p" for p q n using that by (induction n) (auto simp: nth_append)
  have "name_begin (u @ w @ [x]) (length u + length w) = name_begin (u @ w) (length u + length w)"
    "name_begin (u @ w @ [x]) (length u) = name_begin (u @ w) (length u)"
    using ap [of "length u + length w" "u @ w" "[x]"] ap [of "length u" "u @ w" "[x]"] by simp_all
  then show ?case using snoc by (simp add: nth_append)
qed simp

lemma ext_loop_word:
  "\<forall>c \<in> set w. \<not> is_separator c \<and> c \<noteq> CHR '':'' \<and> c \<noteq> CHR ''.'' \<Longrightarrow>
   ext_loop (u @ CHR ''.'' # w @ v) (Suc (length u) + length w) = (True, length u,
     if u \<noteq> [] \<and> last u = CHR ''.'' then length u else length (u @ CHR ''.'' # w @ v))"
proof (induction w arbitrary: v rule: rev_induct)
  case Nil
  then show ?case by (cases u rule: rev_cases) (auto simp: nth_append)
next
  case (snoc x w)
  then show ?case using snoc.IH [of "x # v"] by (simp add: nth_append)
qed

lemma filename_cut_spec:
  "f \<noteq> '''' \<Longrightarrow> n \<le> length path \<Longrightarrow> filename_cut path f n \<le> n \<and>
   (filename_cut path f n = 0 \<or> is_separator (path ! (filename_cut path f n - 1)) \<or> path ! (filename_cut path f n - 1) = CHR '':'')"
  by (induction n) auto

lemma filename_of_replaced:
  assumes "f \<noteq> ''''" "\<forall>c \<in> set f. \<not> is_separator c \<and> c \<noteq> CHR '':''"
  shows "Path_filename (Path_ReplaceFilename path f) = f"
proof -
  define u where "u = (if path = '''' then '''' else take (filename_cut path f (length path)) path)"
  have p: "Path_ReplaceFilename path f = u @ f" by (simp add: Path_ReplaceFilename_def u_def)
  have u: "u = [] \<or> is_separator (last u) \<or> last u = CHR '':''"
  proof -
    define k where "k = filename_cut path f (length path)"
    have "k \<le> length path" "k = 0 \<or> is_separator (path ! (k - 1)) \<or> path ! (k - 1) = CHR '':''"
      using filename_cut_spec [OF assms(1), of "length path" path] by (simp_all add: k_def)
    moreover from this(1) have "0 < k \<Longrightarrow> last (take k path) = path ! (k - 1)" by (subst last_conv_nth) auto
    ultimately show ?thesis unfolding u_def k_def [symmetric] by auto
  qed
  have "snd (name_begin (u @ f) (length u)) = length u"
    using u by (cases u rule: rev_cases) (auto simp: nth_append)
  then show ?thesis using name_begin_word [OF assms(2), of u] assms(1) unfolding p
    by (simp add: Path_filename_def case_prod_beta)
qed

lemma extension_of_replaced:
  assumes "w \<noteq> ''''" "\<forall>c \<in> set w. \<not> is_separator c \<and> c \<noteq> CHR '':'' \<and> c \<noteq> CHR ''.''"
  shows "Path_ReplaceExtension path w = Path_ReplaceExtension path (CHR ''.'' # w)"
    "Path_extension (Path_ReplaceExtension path w) =
       (let u = take (dot_cut path (length path)) path in if u \<noteq> [] \<and> last u = CHR ''.'' then '''' else CHR ''.'' # w)"
proof -
  have "w ! 0 \<noteq> CHR ''.''" using assms by (cases w) auto
  then show e: "Path_ReplaceExtension path w = Path_ReplaceExtension path (CHR ''.'' # w)" using assms(1) by (simp add: Path_ReplaceExtension_def)
  define u where "u = take (dot_cut path (length path)) path"
  have p: "Path_ReplaceExtension path w = u @ CHR ''.'' # w" using e by (simp add: Path_ReplaceExtension_def u_def)
  show "Path_extension (Path_ReplaceExtension path w) =
       (let u = take (dot_cut path (length path)) path in if u \<noteq> [] \<and> last u = CHR ''.'' then '''' else CHR ''.'' # w)"
    using ext_loop_word [OF assms(2), of u "[]"] assms(1) unfolding p u_def [symmetric] by (auto simp: Path_extension_def)
qed

lemma validate_ok:
  assumes "\<not> deprecated placeholder"
  shows "c \<in> set (Path_validate path placeholder) \<Longrightarrow> is_separator c \<or> \<not> deprecated c"
    "length (Path_validate path placeholder) = length path"
  using assms by (auto simp: Path_validate_def is_separator_def split: if_splits)

subsection \<open>Properties\<close>



text \<open>
  C35. A file name is its stem followed by its extension, except for a name that is an extension only and follows
  a separator: its stem is a dot. The parent of a path is a proper prefix, so going to the parent ends.
\<close>

theorem Path_decomposition:
  "(Path_stem path @ Path_extension path = Path_filename path) = (\<not> hidden path) \<and>
   (hidden path \<longrightarrow> Path_stem path = ''.'') \<and>
   (path \<noteq> '''' \<longrightarrow> (\<exists>m < length path. Path_parent path = take m path)) \<and> (Path_parent ^^ length path) path = ''''"
  using stem_extension [of path] parent_take [of path] parents_end [of path "length path"] by blast

theorem Path_decomposition_witness:
  "Path_stem ''a/.b'' = ''.'' \<and> (Path_parent ^^ length ''a/.b'') ''a/.b'' = ''''"
proof -
  have "Path_extension ''a/.b'' = ''.b''" by (simp add: Path_extension_def is_separator_def)
  then have "hidden ''a/.b''" unfolding hidden_def by (intro conjI exI [of _ "''a''"] exI [of _ "CHR ''/''"]) (simp_all add: is_separator_def)
  then show ?thesis using Path_decomposition [of "''a/.b''"] by blast
qed

end
