(* ===== verification/Spec2Isabelle.thy ===== *)
theory Spec2Isabelle
  imports PoolRun Encoding StringUtils UInt256 HashMap FlatMap LinkedLists AVL_Erase Splay RB_Erase AA_Erase MPSCRing MPMCRing LinkedBatcher RingBuffer WaitQueue WaitRing FileCache TokenBucket SpinBarrier Path
begin

text \<open>
  \<^bold>\<open>CppCommon.\<close> CppCommon is a C++ library of reusable components: memory managers, strings and encodings, wide
  integers, containers, lock-free queues and other synchronisation, caches, a rate limiter, paths, and wrappers of
  the operating system. This development models the components that carry logic of their own, translated from the
  sources under \<^verbatim>\<open>include/\<close> and \<^verbatim>\<open>source/\<close>, and proves what each of them promises.

  \<^bold>\<open>How the code is represented.\<close>
  \<^item> \<^verbatim>\<open>size_t\<close>, \<^verbatim>\<open>uint64_t\<close> and addresses are 64-bit words and wrap around (an LP64 target); characters of the
    codecs and strings are 8-bit words; the sizes of vectors and the levels of trees are natural numbers, whose
    bounds are stated where they matter.
  \<^item> A class is a record of its members, an operation a function from the state to the new state and the result.
    An operation that throws, fails an assertion of the library or leaves the rules of the language (an access
    outside an array, a null pointer) returns an error of the type \<^typ>\<open>error\<close> of \<^verbatim>\<open>Prelude\<close> on the left of a sum.
  \<^item> A loop whose end depends on the data is a \<^theory_text>\<open>partial_function (option)\<close>: \<^const>\<open>None\<close> means that it does not
    end. The theorems on such operations state the returned value, so they include termination. Loops whose end is
    evident are total functions. No fuel is used: the loops of \<^verbatim>\<open>TokenBucket\<close> and \<^verbatim>\<open>SpinLock\<close> consume the list of
    the outcomes of their atomic accesses, and the loop that doubles a size in \<^verbatim>\<open>ArenaMemoryManager\<close> is cut after 64
    doublings, after which the word is zero and cannot change.
  \<^item> Intrusive containers keep their links in the nodes: the store is a record of maps from node addresses to links,
    passed explicitly, and an address is a natural number.
  \<^item> Template parameters (the comparator, the hash function, the equality, the auxiliary memory manager) are
    arguments of the definitions; what the code relies on is a named assumption of a locale or theorem (the
    comparator is a strict weak order, the hash agrees with the equality, the system heap hands out fresh blocks).
  \<^item> Clocks, the outcome of a compare-and-exchange that may fail spuriously, the current directory and the directory
    tree are inputs.
  \<^item> A concurrent operation is the sequence of its accesses to the shared state, one step each; the system
    interleaves the steps of all threads (sequential consistency; reorderings that weaker memory orders allow are
    not modelled).

  \<^bold>\<open>The theories.\<close>
  \<^item> \<^verbatim>\<open>Prelude\<close>: types, errors, collections of facts, lemmas on lists, options and words.
  \<^item> \<^verbatim>\<open>Memory\<close> (\<^verbatim>\<open>memory/memory.inl\<close>): alignment of addresses and buffers; \<^verbatim>\<open>Align\<close> is the least multiple above.
  \<^item> \<^verbatim>\<open>Allocators\<close> (\<^verbatim>\<open>memory/allocator*.inl\<close>): the default, null, stack and arena managers. The locale
    \<^verbatim>\<open>memory_manager\<close> is their contract (a block is aligned, inside live memory and apart from the others); the
    arena is proved to keep it over any manager that keeps it, and is composed with the system heap.
  \<^item> \<^verbatim>\<open>Pool\<close>, \<^verbatim>\<open>PoolInv\<close>, \<^verbatim>\<open>PoolRun\<close> (\<^verbatim>\<open>memory/allocator_pool.inl\<close>): the pool manager, whose page headers, block
    headers and free list are words stored in the memory it manages, over an explicit memory of bytes. The layout of
    this memory is kept by every operation, so the blocks stay apart and keep the bytes of their owners.
  \<^item> \<^verbatim>\<open>Encoding\<close> (\<^verbatim>\<open>source/string/encoding.cpp\<close>): Base16, Base32, Base64 and URL coding with every array access
    checked. The locale \<^verbatim>\<open>codec\<close> is the round trip; the decoders are shown to leave their buffers on some inputs.
  \<^item> \<^verbatim>\<open>StringUtils\<close> (\<^verbatim>\<open>source/string/string_utils.cpp\<close>): trimming, case, search, counting, replacing, splitting,
    joining, pattern matching; the locale \<^verbatim>\<open>string_search\<close> serves the searches by string and by any character.
  \<^item> \<^verbatim>\<open>WideInt\<close>, \<^verbatim>\<open>UInt128\<close>, \<^verbatim>\<open>UInt256\<close> (\<^verbatim>\<open>common/uint128.*\<close>, \<^verbatim>\<open>common/uint256.*\<close>): the locale \<^verbatim>\<open>unsigned_int\<close> is
    the contract of an integer of a given width; each width is built from two halves of the width below, so the same
    lemmas prove both. Arithmetic, shifts, division and printing are those of the numbers.
  \<^item> \<^verbatim>\<open>MapContract\<close>, \<^verbatim>\<open>HashMap\<close>, \<^verbatim>\<open>FlatMap\<close> (\<^verbatim>\<open>containers/hashmap.*\<close>, \<^verbatim>\<open>containers/flatmap.*\<close>): the locale
    \<^verbatim>\<open>map_container\<close> relates a container to a partial map; both maps refine it for every sequence of operations, as
    long as the size stays below the bound that keeps the doubled capacity in a word.
  \<^item> \<^verbatim>\<open>LinkedLists\<close> (\<^verbatim>\<open>containers/list.*\<close>, \<^verbatim>\<open>stack.*\<close>, \<^verbatim>\<open>queue.*\<close>): the intrusive lists refine sequences.
  \<^item> \<^verbatim>\<open>TreeLinks\<close>, \<^verbatim>\<open>TreeRotate\<close>, \<^verbatim>\<open>OrderContract\<close>: links that form a tree, a subtree in the focus of a loop, the
    pointer manoeuvres the trees share, and the locale \<^verbatim>\<open>ordered_container\<close>: a sorted sequence of nodes.
  \<^item> \<^verbatim>\<open>BinTree\<close>, \<^verbatim>\<open>AVL\<close>, \<^verbatim>\<open>AVL_Erase\<close>, \<^verbatim>\<open>Splay\<close>, \<^verbatim>\<open>RedBlack\<close>, \<^verbatim>\<open>RB_Erase\<close>, \<^verbatim>\<open>AATree\<close>, \<^verbatim>\<open>AA_Erase\<close>
    (\<^verbatim>\<open>containers/bintree*.inl\<close>): the five search trees. All but the red-black tree implement the contract for every
    sequence of insertions and erasures; the AVL and AA trees stay balanced and so does the red-black tree under
    insertion. Erasure from the red-black tree keeps the order, but not always the colours, because the exchange of
    two nodes does not exchange them.
  \<^item> \<^verbatim>\<open>Interleaving\<close>, \<^verbatim>\<open>RingQueue\<close>, \<^verbatim>\<open>MPSCRing\<close>, \<^verbatim>\<open>MPMCRing\<close>, \<^verbatim>\<open>RingBuffer\<close>, \<^verbatim>\<open>LinkedQueue\<close>,
    \<^verbatim>\<open>LinkedBatcher\<close>, \<^verbatim>\<open>SpinBarrier\<close> (\<^verbatim>\<open>threads/\<close>): reachable states of interleaved threads with the locale
    \<^verbatim>\<open>step_invariant\<close>; the single-producer ring, the ring behind a spin lock, the ring with sequence numbers, the ring of
    bytes, the two linked queues over a heap whose deleted nodes may not be accessed, and the barrier. Capacities are powers of two below \<open>2 ^ 63\<close>; the invariant of the
    rings counts positions without wrap-around and the bound on the number of operations is part of the theorems.
  \<^item> \<^verbatim>\<open>Monitor\<close>, \<^verbatim>\<open>WaitQueue\<close>, \<^verbatim>\<open>WaitRing\<close> (\<^verbatim>\<open>threads/wait_queue.*\<close>, \<^verbatim>\<open>threads/wait_ring.*\<close>): bounded buffers behind a
    critical section and two condition variables. The locale \<^verbatim>\<open>bounded_buffer\<close> is the contract of the operations; no
    wake-up is lost for any number of producers and consumers, with spurious wake-ups and closing at any time.
  \<^item> \<^verbatim>\<open>Cache\<close>, \<^verbatim>\<open>FileCache\<close> (\<^verbatim>\<open>cache/\<close>): entries with timeouts in two indexes; loading a directory tree.
  \<^item> \<^verbatim>\<open>TokenBucket\<close> (\<^verbatim>\<open>algorithms/token_bucket.*\<close>): the rate limit, and how a failed exchange breaks it.
  \<^item> \<^verbatim>\<open>Path\<close> (\<^verbatim>\<open>filesystem/path.*\<close>): the operations on the text of a path, with the normal form as the resolution
    of dots on a stack of names.

  \<^bold>\<open>How the parts interact.\<close> The arena and the pool take their pages from an auxiliary manager through the contract
  \<^verbatim>\<open>memory_manager\<close>. \<^verbatim>\<open>uint256_t\<close> is built on \<^verbatim>\<open>uint128_t\<close>. The trees share the links of \<^verbatim>\<open>TreeLinks\<close> and the
  searches of \<^verbatim>\<open>BinTree\<close>. \<^verbatim>\<open>MPSCRingQueue\<close> is made of several \<^verbatim>\<open>SPSCRingQueue\<close>, each behind a \<^verbatim>\<open>SpinLock\<close>. \<^verbatim>\<open>FileCache\<close> uses the entry
  and the two indexes of the memory cache.

  \<^bold>\<open>Not modelled.\<close> Wrappers of the operating system (mutexes, semaphores, events, named and shared primitives,
  threads, files, directories, processes, pipes, shared memory, shared libraries, consoles, stack traces, clocks and
  time zones) contain calls whose behaviour is not in the sources. The ring buffer for several producers, the
  wait batcher and the sequence lock are not modelled. Formatting wraps another library. The hash maps under \<^verbatim>\<open>performance/\<close> are third-party code for benchmarks.
  Wide-character variants, Windows branches of conditional code, stream operators and the iterators that only
  repeat others are not modelled either.
\<close>

end
